(* ===== verification/Prelude.thy ===== *)
theory Prelude
  imports Main "HOL-Library.Word"
begin

unbundle bit_operations_syntax

text \<open>
  Shared vocabulary of the development: the machine-integer types of the C++ and C
  sources, little-endian and big-endian byte access, checked array reads, 32-bit
  rotation, and the generic list lemmas and theorem collections the components use.
\<close>

section \<open>Types and theorem collections\<close>

type_synonym u8 = "8 word"
type_synonym u16 = "16 word"
type_synonym u32 = "32 word"
type_synonym u64 = "64 word"

named_theorems lane_simps \<open>a vector operation seen through one lane\<close>
named_theorems buf_simps \<open>lengths and reads of byte buffers\<close>
named_theorems handler_defs \<open>definitions of request and state handlers\<close>

section \<open>Bytes and words\<close>

text \<open>The four bytes of a 32-bit word in memory order (little endian), and back.\<close>

definition le32 :: "u8 \<Rightarrow> u8 \<Rightarrow> u8 \<Rightarrow> u8 \<Rightarrow> u32" where
  "le32 b0 b1 b2 b3 =
     ucast b0 OR push_bit 8 (ucast b1) OR push_bit 16 (ucast b2) OR push_bit 24 (ucast b3)"

definition bytes32 :: "u32 \<Rightarrow> u8 list" where
  "bytes32 w = [ucast w, ucast (drop_bit 8 w), ucast (drop_bit 16 w), ucast (drop_bit 24 w)]"

text \<open>A dereferenced \<open>*(u32 *)(p + off)\<close> on a byte array.\<close>

definition load32 :: "u8 list \<Rightarrow> nat \<Rightarrow> u32" where
  "load32 xs off = le32 (xs ! off) (xs ! (off + 1)) (xs ! (off + 2)) (xs ! (off + 3))"

text \<open>A dereferenced \<open>*(uint64_t *)p\<close> at the start of a byte array.\<close>

definition load64 :: "u8 list \<Rightarrow> u64" where
  "load64 xs = ucast (load32 xs 0) OR push_bit 32 (ucast (load32 xs 4))"

text \<open>The eight bytes of a 64-bit word, least significant first and last.\<close>

definition bytes64 :: "u64 \<Rightarrow> u8 list" where
  "bytes64 w = map (\<lambda>k. ucast (drop_bit (8 * k) w)) [0..<8]"

definition be_bytes64 :: "u64 \<Rightarrow> u8 list" where
  "be_bytes64 w = rev (bytes64 w)"

lemma length_bytes32 [simp]: "length (bytes32 w) = 4"
  by (simp add: bytes32_def)

lemma length_bytes64 [simp]: "length (bytes64 w) = 8"
  by (simp add: bytes64_def)

lemma length_be_bytes64 [simp]: "length (be_bytes64 w) = 8"
  by (simp add: be_bytes64_def)

lemma le32_bytes32:
  "le32 (ucast w) (ucast (drop_bit 8 w)) (ucast (drop_bit 16 w)) (ucast (drop_bit 24 w)) = w"
proof (rule bit_word_eqI)
  fix n assume "n < LENGTH(32)"
  then have n: "n < 32" by simp
  then consider "n < 8" | "8 \<le> n \<and> n < 16" | "16 \<le> n \<and> n < 24" | "24 \<le> n \<and> n < 32"
    by linarith
  then show "bit (le32 (ucast w) (ucast (drop_bit 8 w)) (ucast (drop_bit 16 w))
      (ucast (drop_bit 24 w))) n = bit w n"
    by cases (auto simp: le32_def bit_simps)
qed

lemma load32_bytes32 [simp]: "load32 (bytes32 w @ xs) 0 = w"
  by (simp add: load32_def bytes32_def le32_bytes32 numeral_2_eq_2 numeral_3_eq_3)

lemma load32_concat: "j < length ws \<Longrightarrow> load32 (concat (map bytes32 ws)) (4 * j) = ws ! j"
proof (induction ws arbitrary: j)
  case (Cons w ws)
  show ?case
  proof (cases j)
    case (Suc i)
    have "load32 (bytes32 w @ concat (map bytes32 ws)) (4 * Suc i) = load32 (concat (map bytes32 ws)) (4 * i)"
      by (simp add: load32_def nth_append add.commute)
    then show ?thesis using Cons Suc by simp
  qed simp
qed simp

lemma le32_two_bytes:
  assumes "m < 65536"
  shows "le32 (of_nat m) (of_nat (drop_bit 8 m)) 0 0 = of_nat m"
proof (rule bit_word_eqI)
  fix n assume "n < LENGTH(32)"
  then have n: "n < 32" by simp
  have "take_bit 16 m = m" using assms by (simp add: take_bit_nat_eq_self)
  then have hi: "bit m n \<longleftrightarrow> n < 16 \<and> bit m n"
    by (metis bit_take_bit_iff)
  from n consider "n < 8" | "8 \<le> n \<and> n < 16" | "16 \<le> n \<and> n < 24" | "24 \<le> n"
    by linarith
  then show "bit (le32 (of_nat m) (of_nat (drop_bit 8 m)) 0 0) n = bit (of_nat m :: u32) n"
    using hi n by cases (auto simp: le32_def bit_simps)
qed

section \<open>Low bits of a sum\<close>

lemma take_bit_plus_word:
  fixes a b :: u64
  assumes "k \<le> 64"
  shows "take_bit k (a + b) = take_bit k (take_bit k a + take_bit k b)"
proof -
  have "take_bit k (uint a + uint b) = take_bit k (take_bit k (uint a) + take_bit k (uint b))"
    by (simp add: take_bit_add)
  then show ?thesis
    using assms
    by (simp add: word_uint_eq_iff unsigned_take_bit_eq uint_word_arith_bintrs(1) take_bit_take_bit min_absorb1)
qed

section \<open>Copies into and reads from byte arrays\<close>

text \<open>\<open>memcpy(dst + off, src, length src)\<close> inside the array \<open>dst\<close>.\<close>

definition blit :: "'a list \<Rightarrow> nat \<Rightarrow> 'a list \<Rightarrow> 'a list" where
  "blit dst off src = take off dst @ src @ drop (off + length src) dst"

text \<open>\<open>n\<close> bytes read at \<open>off\<close>: \<open>None\<close> when the read leaves the array.\<close>

definition mem_read :: "'a list \<Rightarrow> nat \<Rightarrow> nat \<Rightarrow> 'a list option" where
  "mem_read xs off n = (if off + n \<le> length xs then Some (take n (drop off xs)) else None)"

lemma mem_read_length: "mem_read xs off n = Some ys \<Longrightarrow> length ys = n"
  by (auto simp: mem_read_def split: if_splits)

lemma length_blit [simp]: "off + length src \<le> length dst \<Longrightarrow> length (blit dst off src) = length dst"
  by (simp add: blit_def)

lemma take_blit [simp]: "off \<le> length dst \<Longrightarrow> take off (blit dst off src) = take off dst"
  by (simp add: blit_def)

lemma nth_blit:
  "off + length src \<le> length dst \<Longrightarrow> i < length dst \<Longrightarrow>
   blit dst off src ! i = (if off \<le> i \<and> i < off + length src then src ! (i - off) else dst ! i)"
  by (auto simp: blit_def nth_append min_def)

lemma take_blit_all: "off \<le> length dst \<Longrightarrow> take (off + length src) (blit dst off src) = take off dst @ src"
  by (simp add: blit_def)

lemma blit_fill:
  "off \<le> length dst \<Longrightarrow> off + length src = length dst \<Longrightarrow> blit dst off src = take off dst @ src"
  by (simp add: blit_def)

section \<open>Block arithmetic\<close>

lemma aligned_add:
  fixes m k :: nat
  assumes "m mod 64 = 0"
  shows "(m + k) div 64 = m div 64 + k div 64" "(m + k) mod 64 = k mod 64"
proof -
  have "64 dvd m" using assms by auto
  then show "(m + k) div 64 = m div 64 + k div 64"
    by (rule div_plus_div_distrib_dvd_left)
  show "(m + k) mod 64 = k mod 64"
    using assms mod_add_left_eq [of m 64 k] by simp
qed

lemma short_add:
  fixes m k :: nat
  assumes "m mod 64 + k < 64"
  shows "(m + k) div 64 = m div 64" "(m + k) mod 64 = m mod 64 + k"
proof -
  have k: "k < 64" using assms by simp
  show "(m + k) div 64 = m div 64"
    using assms k by (simp add: div_add1_eq [of m k])
  show "(m + k) mod 64 = m mod 64 + k"
    using assms k mod_add_left_eq [of m 64 k] by simp
qed

lemma fill_add: "(m :: nat) + (64 - m mod 64) = 64 * (m div 64 + 1)"
proof -
  obtain q r where "m = 64 * q + r" "r < 64"
    using mult_div_mod_eq [of 64 m] mod_less_divisor [of 64 m] by (metis zero_less_numeral)
  then show ?thesis by simp
qed

section \<open>Rotation\<close>

definition rotl32 :: "nat \<Rightarrow> u32 \<Rightarrow> u32" where
  "rotl32 n x = push_bit n x OR drop_bit (32 - n) x"

lemma rotl32_not: "n < 32 \<Longrightarrow> rotl32 n (NOT x) = NOT (rotl32 n x)"
  by (rule bit_word_eqI) (auto simp: rotl32_def bit_simps dest: bit_imp_le_length)

lemma xor_ones32: "0xFFFFFFFF XOR x = NOT (x :: u32)"
proof -
  have "(0xFFFFFFFF :: u32) = - 1" by simp
  then show ?thesis by (simp only: bit.xor_one_left)
qed

section \<open>The 64-bit block counter kept as two 32-bit halves\<close>

definition w64 :: "u32 \<Rightarrow> u32 \<Rightarrow> u64" where
  "w64 hi lo = push_bit 32 (ucast hi) OR ucast lo"

definition lo32 :: "u64 \<Rightarrow> u32" where
  "lo32 w = ucast w"

definition hi32 :: "u64 \<Rightarrow> u32" where
  "hi32 w = ucast (drop_bit 32 w)"

lemma lo32_w64 [simp]: "lo32 (w64 hi lo) = lo"
  by (rule bit_word_eqI) (auto simp: lo32_def w64_def bit_simps)

lemma hi32_w64 [simp]: "hi32 (w64 hi lo) = hi"
  by (rule bit_word_eqI) (auto simp: hi32_def w64_def bit_simps dest: bit_imp_le_length)

lemma w64_hi_lo [simp]: "w64 (hi32 w) (lo32 w) = w"
proof (rule bit_word_eqI)
  fix n assume "n < LENGTH(64)"
  then show "bit (w64 (hi32 w) (lo32 w)) n = bit w n"
    by (cases "n < 32") (auto simp: lo32_def hi32_def w64_def bit_simps)
qed

lemma uint_lt32: "uint (x :: u32) < 4294967296"
  using uint_lt2p [of x] by simp

lemma uint_u64_of_u32 [simp]: "uint (ucast (x :: u32) :: u64) = uint x"
  by (rule uint_up_ucast) (simp add: is_up_def source_size_def target_size_def word_size)

lemma uint_w64: "uint (w64 hi lo) = uint hi * 2 ^ 32 + uint lo"
proof -
  have "uint (push_bit 32 (ucast hi :: u64)) = take_bit 64 (push_bit 32 (uint hi))"
    by (simp only: unsigned_push_bit_eq uint_u64_of_u32) simp
  also have "\<dots> = push_bit 32 (uint hi)"
    using uint_lt32 [of hi]
    by (simp add: take_bit_int_eq_self_iff push_bit_eq_mult)
  finally have hi: "uint (push_bit 32 (ucast hi :: u64)) = push_bit 32 (uint hi)" .
  have dj: "push_bit 32 (uint hi) AND uint lo = 0"
    by (rule bit_eqI) (auto simp: bit_simps bit_uint_iff dest: bit_imp_le_length)
  have "uint (w64 hi lo) = push_bit 32 (uint hi) OR uint lo"
    by (simp only: w64_def uint_or hi uint_u64_of_u32)
  also have "\<dots> = push_bit 32 (uint hi) + uint lo"
    using disjunctive_add_eq_or [OF dj] by simp
  finally show ?thesis by (simp add: push_bit_eq_mult)
qed

text \<open>Incrementing the halves with a carry is incrementing the 64-bit counter, and the
  borrow is its decrement.\<close>

lemma w64_succ: "w64 (if lo + 1 = 0 then hi + 1 else hi) (lo + 1) = w64 hi lo + 1"
proof (cases "lo + 1 = 0")
  case True
  then have "lo = - 1"
    by (simp add: eq_neg_iff_add_eq_0)
  also have "(- 1 :: u32) = 4294967295"
    by simp
  finally have l: "uint lo = 4294967295"
    by simp
  have "uint (w64 (hi + 1) 0) = uint (w64 hi lo + 1)"
    using uint_lt32 [of hi] l
    by (auto simp: uint_w64 uint_plus_if')
  then have "w64 (hi + 1) 0 = w64 hi lo + 1"
    by (simp only: word_uint_eq_iff)
  with True show ?thesis by simp
next
  case False
  then have "uint (lo + 1) = uint lo + 1"
    using uint_plus_if' [of lo 1] uint_lt32 [of lo]
    by (auto simp: word_uint_eq_iff split: if_splits)
  with False show ?thesis
    using uint_lt32 [of hi] uint_lt32 [of lo] uint_lt32 [of "lo + 1"]
    by (auto simp: word_uint_eq_iff [where ?'a = 64] uint_w64 uint_plus_if' split: if_splits)
qed

lemma w64_pred: "w64 (if lo = 0 then hi - 1 else hi) (lo - 1) = w64 hi lo - 1"
proof -
  have "w64 hi lo = w64 (if lo = 0 then hi - 1 else hi) (lo - 1) + 1"
    by (subst w64_succ [symmetric]) auto
  then show ?thesis by simp
qed

end
