(* ===== verification/Cxx_Stdlib.thy ===== *)
theory Cxx_Stdlib
  imports Complex_Main Prelude
begin

text \<open>
  What the C++ sources use of the standard library: \<open>c_str\<close>, \<open>std::stoull\<close> with its two
  exceptions, \<open>std::to_string\<close>, \<open>sscanf("%2hhx")\<close>, and the JSON values that rapidjson's
  document gives access to (its parser is a parameter wherever it is used).
\<close>

section \<open>Characters\<close>

definition code :: "char \<Rightarrow> nat" where
  "code c = of_char c"

definition is_space :: "char \<Rightarrow> bool" where
  "is_space c \<longleftrightarrow> code c = 32 \<or> (9 \<le> code c \<and> code c \<le> 13)"

definition is_digit :: "char \<Rightarrow> bool" where
  "is_digit c \<longleftrightarrow> 48 \<le> code c \<and> code c \<le> 57"

definition digit_char :: "nat \<Rightarrow> char" where
  "digit_char n = char_of (48 + n)"

text \<open>The characters of a string up to its first NUL, as a \<open>const char *\<close> shows them.\<close>

definition c_str :: "string \<Rightarrow> string" where
  "c_str s = takeWhile (\<lambda>c. c \<noteq> CHR 0x00) s"

lemma code_less: "code c < 256"
  by (simp add: code_def)

lemma code_digit_char [simp]: "n < 10 \<Longrightarrow> code (digit_char n) = 48 + n"
  by (simp add: code_def digit_char_def)

lemma is_digit_digit_char [simp]: "n < 10 \<Longrightarrow> is_digit (digit_char n)"
  by (simp add: is_digit_def)

lemma digit_not_space [simp]: "is_digit c \<Longrightarrow> \<not> is_space c"
  by (simp add: is_digit_def is_space_def)

lemma digit_not_sign: "is_digit c \<Longrightarrow> c \<noteq> CHR ''-'' \<and> c \<noteq> CHR ''+''"
  by (auto simp: is_digit_def code_def)

section \<open>Decimal numbers\<close>

datatype exn = Invalid_argument | Out_of_range

definition digits_value :: "string \<Rightarrow> nat" where
  "digits_value ds = foldl (\<lambda>v c. 10 * v + (code c - 48)) 0 ds"

fun dec_digits :: "nat \<Rightarrow> string" where
  "dec_digits n = (if n < 10 then [digit_char n] else dec_digits (n div 10) @ [digit_char (n mod 10)])"

declare dec_digits.simps [simp del]

definition to_string :: "u64 \<Rightarrow> string" where
  "to_string w = dec_digits (unat w)"

text \<open>\<open>strtoull\<close>, base 10: white space, a sign, digits; the rest is ignored; a minus sign
  negates in 64-bit arithmetic.\<close>

fun sign_split :: "string \<Rightarrow> bool \<times> string" where
  "sign_split (c # s) =
     (if c = CHR ''-'' then (True, s) else if c = CHR ''+'' then (False, s) else (False, c # s))"
| "sign_split [] = (False, [])"

definition stoull :: "string \<Rightarrow> exn + u64" where
  "stoull s =
     (let (neg, r) = sign_split (dropWhile is_space s);
          ds = takeWhile is_digit r; v = digits_value ds
      in if ds = [] then Inl Invalid_argument
         else if 2 ^ 64 \<le> v then Inl Out_of_range
         else Inr (if neg then - of_nat v else of_nat v))"

lemma digits_value_snoc [simp]: "digits_value (ds @ [c]) = 10 * digits_value ds + (code c - 48)"
  by (simp add: digits_value_def)

lemma dec_digits_value [simp]: "digits_value (dec_digits n) = n"
proof (induction n rule: dec_digits.induct)
  case (1 n)
  show ?case
  proof (cases "n < 10")
    case True
    then show ?thesis using dec_digits.simps [of n] by (simp add: digits_value_def)
  next
    case False
    then have "digits_value (dec_digits n) = 10 * (n div 10) + n mod 10"
      using 1 dec_digits.simps [of n] by simp
    then show ?thesis by presburger
  qed
qed

lemma dec_digits_all: "list_all is_digit (dec_digits n)"
proof (induction n rule: dec_digits.induct)
  case (1 n)
  then show ?case using dec_digits.simps [of n] by (cases "n < 10") simp_all
qed

lemma dec_digits_nonempty [simp]: "dec_digits n \<noteq> []"
  using dec_digits.simps [of n] by (cases "n < 10") simp_all

lemma stoull_digits:
  assumes "list_all is_digit ds" "ds \<noteq> []" "r = [] \<or> \<not> is_digit (hd r)"
  shows "stoull (ds @ r) = (if 2 ^ 64 \<le> digits_value ds then Inl Out_of_range else Inr (of_nat (digits_value ds)))"
proof -
  obtain d ds' where ds: "ds = d # ds'" "is_digit d" using assms by (cases ds) auto
  have t: "takeWhile is_digit (ds @ r) = ds"
    using assms(1,3) by (induction ds) (cases r; auto)+
  have "sign_split (dropWhile is_space (ds @ r)) = (False, ds @ r)"
    using ds digit_not_sign [of d] by simp
  then show ?thesis using t assms(2) by (simp add: stoull_def)
qed

lemma stoull_to_string: "stoull (to_string w) = Inr w"
  using stoull_digits [OF dec_digits_all, of "unat w" "[]"] unsigned_less [of w, where ?'a = nat]
  by (simp add: to_string_def)

section \<open>\<open>sscanf(pos, "%2hhx", &b)\<close>\<close>

definition hex_value :: "char \<Rightarrow> nat option" where
  "hex_value c =
     (if is_digit c then Some (code c - 48)
      else if 65 \<le> code c \<and> code c \<le> 70 then Some (code c - 55)
      else if 97 \<le> code c \<and> code c \<le> 102 then Some (code c - 87)
      else None)"

definition is_hex :: "char \<Rightarrow> bool" where
  "is_hex c \<longleftrightarrow> hex_value c \<noteq> None"

definition hex_number :: "string \<Rightarrow> nat" where
  "hex_number ds = foldl (\<lambda>v c. 16 * v + the (hex_value c)) 0 ds"

text \<open>
  At most two characters after white space: a sign counts, and so does a prefix \<open>0x\<close>, after
  which no digit fits. \<open>None\<close> is a failed match, which stores nothing.
\<close>

definition sscanf_2hhx :: "string \<Rightarrow> u8 option" where
  "sscanf_2hhx s =
     (let field = take 2 (dropWhile is_space s);
          (neg, r) = sign_split field;
          ds = takeWhile is_hex r
      in if ds = [] \<or> field = ''0x'' \<or> field = ''0X'' then None
         else Some (if neg then - of_nat (hex_number ds) else of_nat (hex_number ds)))"

lemma hex_not_space: "is_hex c \<Longrightarrow> \<not> is_space c"
  by (auto simp: is_hex_def hex_value_def is_space_def is_digit_def split: if_splits)

lemma hex_not_sign: "is_hex c \<Longrightarrow> c \<noteq> CHR ''-'' \<and> c \<noteq> CHR ''+''"
  by (auto simp: is_hex_def hex_value_def is_digit_def code_def)

lemma sscanf_two_digits:
  assumes "is_hex a" "is_hex b"
  shows "sscanf_2hhx (a # b # s) = Some (of_nat (16 * the (hex_value a) + the (hex_value b)))"
proof -
  have "\<not> is_hex (CHR ''x'')" "\<not> is_hex (CHR ''X'')"
    by (simp_all add: is_hex_def hex_value_def is_digit_def code_def)
  then have "b \<noteq> CHR ''x''" "b \<noteq> CHR ''X''" using assms by auto
  then show ?thesis
    using assms hex_not_space hex_not_sign
    by (simp add: sscanf_2hhx_def hex_number_def)
qed

section \<open>JSON values\<close>

text \<open>
  What a parsed rapidjson document can be asked: integers that fit 64 bits are kept as
  integers, all other numbers are doubles (real numbers here). A text that does not parse
  leaves a document that is no object.
\<close>

datatype json =
    JNull
  | JBool bool
  | JInt int
  | JDouble real
  | JString string
  | JArray "json list"
  | JObject "(string \<times> json) list"

fun IsObject :: "json \<Rightarrow> bool" where
  "IsObject (JObject _) = True"
| "IsObject _ = False"

fun IsString :: "json \<Rightarrow> bool" where
  "IsString (JString _) = True"
| "IsString _ = False"

fun IsUint64 :: "json \<Rightarrow> bool" where
  "IsUint64 (JInt i) = (0 \<le> i \<and> i < 2 ^ 64)"
| "IsUint64 _ = False"

fun IsInt :: "json \<Rightarrow> bool" where
  "IsInt (JInt i) = (- (2 ^ 31) \<le> i \<and> i < 2 ^ 31)"
| "IsInt _ = False"

fun IsDouble :: "json \<Rightarrow> bool" where
  "IsDouble (JDouble _) = True"
| "IsDouble _ = False"

fun members :: "json \<Rightarrow> (string \<times> json) list" where
  "members (JObject ms) = ms"
| "members _ = []"

definition HasMember :: "json \<Rightarrow> string \<Rightarrow> bool" where
  "HasMember d name \<longleftrightarrow> map_of (members d) name \<noteq> None"

definition member :: "json \<Rightarrow> string \<Rightarrow> json" where
  "member d name = (case map_of (members d) name of Some v \<Rightarrow> v | None \<Rightarrow> JNull)"

fun GetString :: "json \<Rightarrow> string" where
  "GetString (JString s) = c_str s"
| "GetString _ = []"

fun GetInt :: "json \<Rightarrow> int" where
  "GetInt (JInt i) = i"
| "GetInt _ = 0"

fun GetUint64 :: "json \<Rightarrow> u64" where
  "GetUint64 (JInt i) = of_int i"
| "GetUint64 _ = 0"

fun GetDouble :: "json \<Rightarrow> real" where
  "GetDouble (JDouble r) = r"
| "GetDouble _ = 0"

end
