(* ===== verification/Ordered_Map.thy ===== *)
theory Ordered_Map
  imports Main "HOL-Library.List_Lexorder" "HOL-Library.Char_ord" "HOL-Library.Word"
begin

text \<open>
  \<open>std::map\<close> (and, where only lookups matter, \<open>std::unordered_map\<close>) as an association
  list sorted by key: \<open>m[k] = v\<close> is \<open>omap_set\<close>, \<open>find\<close> is \<open>map_of\<close>, iteration is the
  list. What the callers rely on is the locale \<open>map_store\<close>.
\<close>

section \<open>The contract of a map\<close>

locale map_store =
  fixes empty :: 'm
    and lookup :: "'m \<Rightarrow> 'k \<Rightarrow> 'v option"
    and store :: "'k \<Rightarrow> 'v \<Rightarrow> 'm \<Rightarrow> 'm"
  assumes lookup_empty: "lookup empty k = None"
    and lookup_store: "lookup (store k v m) k' = (if k' = k then Some v else lookup m k')"
begin

lemma lookup_stores:
  "lookup (fold (\<lambda>(k, v). store k v) kvs m) k =
   (case map_of (rev kvs) k of Some v \<Rightarrow> Some v | None \<Rightarrow> lookup m k)"
proof (induction kvs arbitrary: m)
  case (Cons kv kvs)
  then show ?case
    by (cases kv) (auto simp: lookup_store map_add_def split: option.splits)
qed simp

lemma lookup_all: "lookup (fold (\<lambda>(k, v). store k v) kvs empty) k = map_of (rev kvs) k"
  by (simp add: lookup_stores lookup_empty split: option.splits)

lemma lookup_None: "lookup (fold (\<lambda>(k, v). store k v) kvs empty) k = None \<longleftrightarrow> k \<notin> fst ` set kvs"
  by (simp add: lookup_all map_of_eq_None_iff)

end

section \<open>Sorted association lists\<close>

fun omap_set :: "'k :: linorder \<Rightarrow> 'v \<Rightarrow> ('k \<times> 'v) list \<Rightarrow> ('k \<times> 'v) list" where
  "omap_set k v [] = [(k, v)]"
| "omap_set k v ((k', v') # m) =
     (if k < k' then (k, v) # (k', v') # m
      else if k = k' then (k, v) # m
      else (k', v') # omap_set k v m)"

definition omap_ok :: "('k :: linorder \<times> 'v) list \<Rightarrow> bool" where
  "omap_ok m \<longleftrightarrow> sorted_wrt (<) (map fst m)"

lemma map_of_omap_set: "map_of (omap_set k v m) k' = (if k' = k then Some v else map_of m k')"
  by (induction m) auto

lemma set_omap_set: "set (map fst (omap_set k v m)) = insert k (set (map fst m))"
  by (induction k v m rule: omap_set.induct) auto

lemma omap_ok_set: "omap_ok m \<Longrightarrow> omap_ok (omap_set k v m)"
proof (induction m)
  case (Cons kv m)
  obtain k' v' where kv: "kv = (k', v')" by (cases kv)
  show ?case
    using Cons set_omap_set [of k v m] by (auto simp: kv omap_ok_def simp del: set_map dest: less_trans)
qed (simp add: omap_ok_def)

lemma omap_ok_sets: "omap_ok m \<Longrightarrow> omap_ok (fold (\<lambda>(k, v). omap_set k v) kvs m)"
  by (induction kvs arbitrary: m) (auto simp: omap_ok_set)

text \<open>Storing the bindings of a sorted list in order rebuilds it.\<close>

lemma omap_set_last: "\<forall>x \<in> fst ` set m. x < k \<Longrightarrow> omap_set k v m = m @ [(k, v)]"
  by (induction m) auto

lemma omap_rebuild_append:
  "omap_ok (m @ kvs) \<Longrightarrow> fold (\<lambda>(k, v). omap_set k v) kvs m = m @ kvs"
proof (induction kvs arbitrary: m)
  case (Cons kv kvs)
  obtain k v where kv: "kv = (k, v)" by (cases kv)
  have "\<forall>x \<in> fst ` set m. x < k"
    using Cons.prems by (auto simp: kv omap_ok_def sorted_wrt_append)
  then show ?case
    using Cons.IH [of "m @ [(k, v)]"] Cons.prems by (simp add: kv omap_set_last)
qed simp

lemma omap_rebuild: "omap_ok m \<Longrightarrow> fold (\<lambda>(k, v). omap_set k v) m [] = m"
  using omap_rebuild_append [of "[]" m] by simp

interpretation omap: map_store "[]" map_of omap_set
  by unfold_locales (simp_all add: map_of_omap_set)

end
