(* ===== verification/Config.thy ===== *)
theory Config
  imports Cxx_Stdlib Ordered_Map
begin

text \<open>
  \<open>Config.hpp\<close>: the constructor reads the parsed configuration document. A failed
  \<open>assert\<close> (the build type is Debug) and the exception of a malformed pool id are values
  of \<open>config_error\<close>; \<open>hardware_concurrency\<close> is the argument \<open>hw\<close>.
\<close>

section \<open>The configuration and its reader\<close>

record config =
  pool_id_to_addr :: "(u64 \<times> string) list"
  deadline_limit :: u64
  listen_address :: string
  listen_port :: u16
  wallet_url :: string
  db_address :: string
  db_name :: string
  db_user :: string
  db_password :: string
  validator_thread_count :: int
  connection_thread_count :: int
  allow_requests_per_second :: real
  burst_size :: real
  poc2_start_height :: u64

datatype config_error =
    Not_an_object
  | Missing string
  | Wrong_type string
  | Bad_pool_id string exn

definition rbind :: "'e + 'a \<Rightarrow> ('a \<Rightarrow> 'e + 'b) \<Rightarrow> 'e + 'b" where
  "rbind r f = (case r of Inl e \<Rightarrow> Inl e | Inr x \<Rightarrow> f x)"

text \<open>\<open>assert(HasMember(name)); assert(document[name].IsT()); ... GetT()\<close>.\<close>

definition field :: "(json \<Rightarrow> bool) \<Rightarrow> (json \<Rightarrow> 'a) \<Rightarrow> json \<Rightarrow> string \<Rightarrow> config_error + 'a" where
  "field is_t get_t document name =
     (if \<not> HasMember document name then Inl (Missing name)
      else if \<not> is_t (member document name) then Inl (Wrong_type name)
      else Inr (get_t (member document name)))"

fun read_pools :: "(string \<times> json) list \<Rightarrow> (u64 \<times> string) list \<Rightarrow> config_error + (u64 \<times> string) list" where
  "read_pools [] pools = Inr pools"
| "read_pools ((name, v) # it) pools =
     (if \<not> IsString v then Inl (Wrong_type name)
      else (let pool_id_str = c_str name; addr = GetString v in
        case stoull pool_id_str of
          Inl e \<Rightarrow> Inl (Bad_pool_id pool_id_str e)
        | Inr pool_id \<Rightarrow> read_pools it (omap_set pool_id addr pools)))"

definition thread_count :: "int \<Rightarrow> json \<Rightarrow> string \<Rightarrow> config_error + int" where
  "thread_count hw document name =
     (if HasMember document name then
        (if IsInt (member document name) then Inr (GetInt (member document name)) else Inl (Wrong_type name))
      else Inr hw)"

definition read_config :: "int \<Rightarrow> json \<Rightarrow> config_error + config" where
  "read_config hw document =
     (if \<not> IsObject document then Inl Not_an_object else
      rbind (field IsUint64 GetUint64 document ''deadlineLimit'') (\<lambda>dl.
      rbind (field IsString GetString document ''listenAddress'') (\<lambda>la.
      rbind (field IsInt GetInt document ''listenPort'') (\<lambda>lp.
      rbind (field IsObject members document ''poolIdToAddress'') (\<lambda>ms.
      rbind (read_pools ms []) (\<lambda>pools.
      rbind (field IsString GetString document ''dbAddress'') (\<lambda>da.
      rbind (field IsString GetString document ''dbName'') (\<lambda>dn.
      rbind (field IsString GetString document ''dbUser'') (\<lambda>du.
      rbind (field IsString GetString document ''dbPassword'') (\<lambda>dp.
      rbind (thread_count hw document ''connectionThreadCount'') (\<lambda>ct.
      rbind (thread_count hw document ''validatorThreadCount'') (\<lambda>vt.
      rbind (field IsDouble GetDouble document ''allowRequestsPerSecond'') (\<lambda>rps.
      rbind (field IsDouble GetDouble document ''burstSize'') (\<lambda>bs.
      rbind (field IsString GetString document ''walletUrl'') (\<lambda>wu.
      rbind (field IsUint64 GetUint64 document ''PoC2StartHeight'') (\<lambda>ph.
      Inr \<lparr>pool_id_to_addr = pools, deadline_limit = dl, listen_address = la, listen_port = of_int lp,
           wallet_url = wu, db_address = da, db_name = dn, db_user = du, db_password = dp,
           validator_thread_count = vt, connection_thread_count = ct,
           allow_requests_per_second = rps, burst_size = bs, poc2_start_height = ph\<rparr>))))))))))))))))"

text \<open>\<open>Config(cfg_file)\<close>: the parser is rapidjson's, on the text up to a NUL.\<close>

definition load_config :: "(string \<Rightarrow> json) \<Rightarrow> int \<Rightarrow> string \<Rightarrow> config_error + config" where
  "load_config parse hw config_str = read_config hw (parse (c_str config_str))"

section \<open>Reading succeeds exactly on complete documents\<close>

lemma rbind_Inr: "rbind r f = Inr y \<longleftrightarrow> (\<exists>x. r = Inr x \<and> f x = Inr y)"
  by (cases r) (simp_all add: rbind_def)

lemma rbind_field: "rbind (field is_t get_t d n) f = Inr y \<longleftrightarrow>
  HasMember d n \<and> is_t (member d n) \<and> f (get_t (member d n)) = Inr y"
  by (auto simp: field_def rbind_def)

lemma rbind_threads: "rbind (thread_count hw d n) f = Inr y \<longleftrightarrow>
  (HasMember d n \<longrightarrow> IsInt (member d n)) \<and> f (if HasMember d n then GetInt (member d n) else hw) = Inr y"
  by (auto simp: thread_count_def rbind_def)

lemma c_str_idem [simp]: "c_str (c_str s) = c_str s"
  by (simp add: c_str_def)

lemma c_str_id: "CHR 0x00 \<notin> set s \<Longrightarrow> c_str s = s"
  by (induction s) (auto simp: c_str_def)

text \<open>The pool table maps an id to the address of the last entry that names it.\<close>

definition pool_entries :: "(string \<times> json) list \<Rightarrow> (u64 \<times> string) list" where
  "pool_entries ms = map (\<lambda>(name, v). (projr (stoull (c_str name)), GetString v)) ms"

definition pool_entry_ok :: "string \<times> json \<Rightarrow> bool" where
  "pool_entry_ok m \<longleftrightarrow> IsString (snd m) \<and> \<not> isl (stoull (c_str (fst m)))"

lemma read_pools_Inr:
  "read_pools ms pools = Inr p \<longleftrightarrow>
   list_all pool_entry_ok ms \<and> p = fold (\<lambda>(k, v). omap_set k v) (pool_entries ms) pools"
proof (induction ms arbitrary: pools)
  case (Cons m ms)
  obtain name v where m: "m = (name, v)" by (cases m)
  show ?case
    using Cons.IH by (cases "stoull (c_str name)") (auto simp: m pool_entry_ok_def pool_entries_def Let_def)
qed (auto simp: pool_entries_def)

lemma rbind_pools: "rbind (read_pools ms pools) f = Inr y \<longleftrightarrow>
  list_all pool_entry_ok ms \<and> f (fold (\<lambda>(k, v). omap_set k v) (pool_entries ms) pools) = Inr y"
  by (auto simp: rbind_Inr read_pools_Inr)

definition has :: "json \<Rightarrow> (string \<times> (json \<Rightarrow> bool)) list \<Rightarrow> bool" where
  "has d ms \<longleftrightarrow> list_all (\<lambda>(n, is_t). HasMember d n \<and> is_t (member d n)) ms"

text \<open>The members a configuration document must have, with their types, in the order read.\<close>

definition config_complete :: "json \<Rightarrow> bool" where
  "config_complete d \<longleftrightarrow> IsObject d \<and>
     has d [(''deadlineLimit'', IsUint64), (''listenAddress'', IsString), (''listenPort'', IsInt),
       (''poolIdToAddress'', IsObject)] \<and>
     list_all pool_entry_ok (members (member d ''poolIdToAddress'')) \<and>
     has d [(''dbAddress'', IsString), (''dbName'', IsString), (''dbUser'', IsString), (''dbPassword'', IsString)] \<and>
     list_all (\<lambda>n. HasMember d n \<longrightarrow> IsInt (member d n)) [''connectionThreadCount'', ''validatorThreadCount''] \<and>
     has d [(''allowRequestsPerSecond'', IsDouble), (''burstSize'', IsDouble), (''walletUrl'', IsString),
       (''PoC2StartHeight'', IsUint64)]"

text \<open>The configuration a complete document describes.\<close>

definition config_of :: "int \<Rightarrow> json \<Rightarrow> config" where
  "config_of hw d =
     (let str = \<lambda>n. GetString (member d n);
          threads = \<lambda>n. if HasMember d n then GetInt (member d n) else hw
      in \<lparr>pool_id_to_addr = fold (\<lambda>(k, v). omap_set k v) (pool_entries (members (member d ''poolIdToAddress''))) [],
         deadline_limit = GetUint64 (member d ''deadlineLimit''),
         listen_address = str ''listenAddress'', listen_port = of_int (GetInt (member d ''listenPort'')),
         wallet_url = str ''walletUrl'', db_address = str ''dbAddress'', db_name = str ''dbName'',
         db_user = str ''dbUser'', db_password = str ''dbPassword'',
         validator_thread_count = threads ''validatorThreadCount'',
         connection_thread_count = threads ''connectionThreadCount'',
         allow_requests_per_second = GetDouble (member d ''allowRequestsPerSecond''),
         burst_size = GetDouble (member d ''burstSize''),
         poc2_start_height = GetUint64 (member d ''PoC2StartHeight'')\<rparr>)"

lemma if_Inl_Inr: "(if b then Inl e else r) = Inr c \<longleftrightarrow> \<not> b \<and> r = Inr c"
  by simp

lemma read_config_Inr: "read_config hw d = Inr c \<longleftrightarrow> config_complete d \<and> c = config_of hw d"
proof -
  have "read_config hw d = Inr c \<longleftrightarrow> config_complete d \<and> config_of hw d = c"
    unfolding read_config_def if_Inl_Inr rbind_field rbind_threads rbind_pools config_complete_def has_def
      config_of_def Let_def
    by (simp only: list.pred_inject prod.case sum.inject not_not conj_assoc simp_thms)
  then show ?thesis by blast
qed

lemma config_of_pools:
  "map_of (pool_id_to_addr (config_of hw d)) = map_of (rev (pool_entries (members (member d ''poolIdToAddress''))))"
  "omap_ok (pool_id_to_addr (config_of hw d))"
proof -
  show "map_of (pool_id_to_addr (config_of hw d)) = map_of (rev (pool_entries (members (member d ''poolIdToAddress''))))"
    by (rule ext) (simp add: config_of_def Let_def omap.lookup_all)
  show "omap_ok (pool_id_to_addr (config_of hw d))"
    using omap_ok_sets [of "[]"] by (simp add: config_of_def Let_def omap_ok_def)
qed

end
