(* ===== verification/Shabal_Spec.thy ===== *)
theory Shabal_Spec
  imports Prelude
begin

unbundle bit_operations_syntax

text \<open>
  The Shabal hash function as a mathematical function of its message: the reference that
  the three implementations of the repository (\<open>shabal64.s\<close>, \<open>mshabal_sse4.c\<close>,
  \<open>mshabal256_avx2.c\<close>) are proved to compute. The theory also holds what the three
  share: a table-driven run of the 48 permutation steps, polymorphic in the word type
  (a scalar word or a vector of lanes), and the buffering of input into 64-byte blocks.
\<close>

section \<open>Permutation steps over any word type\<close>

text \<open>
  One row of the unrolled permutation: the indices of \<open>A\<close> (written and previous), of
  \<open>B\<close> (written, then the three read), of \<open>C\<close> and of the message block.
\<close>

datatype pp_row = Row nat nat nat nat nat nat nat nat

type_synonym 'v pp = "'v \<Rightarrow> 'v \<Rightarrow> 'v \<Rightarrow> 'v \<Rightarrow> 'v \<Rightarrow> 'v \<Rightarrow> 'v \<Rightarrow> 'v \<Rightarrow> 'v \<times> 'v"

fun run_row :: "'v pp \<Rightarrow> 'v list \<Rightarrow> 'v list \<Rightarrow> pp_row \<Rightarrow> 'v list \<times> 'v list \<Rightarrow> 'v list \<times> 'v list" where
  "run_row PP C M (Row a0 a1 b0 b1 b2 b3 c m) (A, B) =
     (case PP (A ! a0) (A ! a1) (B ! b0) (B ! b1) (B ! b2) (B ! b3) (C ! c) (M ! m) of
        (a, b) \<Rightarrow> (A[a0 := a], B[b0 := b]))"

definition run_rows :: "'v pp \<Rightarrow> 'v list \<Rightarrow> 'v list \<Rightarrow> pp_row list \<Rightarrow> 'v list \<times> 'v list \<Rightarrow> 'v list \<times> 'v list" where
  "run_rows PP C M rows AB = fold (run_row PP C M) rows AB"

definition run_adds :: "('v \<Rightarrow> 'v \<Rightarrow> 'v) \<Rightarrow> 'v list \<Rightarrow> (nat \<times> nat) list \<Rightarrow> 'v list \<Rightarrow> 'v list" where
  "run_adds add C js A = fold (\<lambda>(a, c) A. A[a := add (A ! a) (C ! c)]) js A"

text \<open>A row whose indices stay inside the twelve \<open>A\<close> words and the sixteen others.\<close>

fun row_ok :: "pp_row \<Rightarrow> bool" where
  "row_ok (Row a0 a1 b0 b1 b2 b3 c m) \<longleftrightarrow>
     a0 < 12 \<and> a1 < 12 \<and> b0 < 16 \<and> b1 < 16 \<and> b2 < 16 \<and> b3 < 16 \<and> c < 16 \<and> m < 16"

lemma run_row_lengths:
  "length (fst (run_row PP C M r AB)) = length (fst AB) \<and>
   length (snd (run_row PP C M r AB)) = length (snd AB)"
  by (cases r; cases AB) (auto split: prod.splits)

lemma run_rows_lengths:
  "length (fst (run_rows PP C M rs AB)) = length (fst AB) \<and>
   length (snd (run_rows PP C M rs AB)) = length (snd AB)"
  unfolding run_rows_def
  by (induction rs arbitrary: AB) (simp_all add: run_row_lengths)

lemma run_rows_length:
  "run_rows PP C M rs (A, B) = (A', B') \<Longrightarrow> length A' = length A"
  "run_rows PP C M rs (A, B) = (A', B') \<Longrightarrow> length B' = length B"
  using run_rows_lengths [of PP C M rs "(A, B)"] by simp_all

lemma length_run_adds [simp]: "length (run_adds add C js A) = length A"
  unfolding run_adds_def by (induction js arbitrary: A) (auto split: prod.splits)

section \<open>The Shabal permutation\<close>

record shabal_state =
  stA :: "u32 list"
  stB :: "u32 list"
  stC :: "u32 list"
  stW :: u64

definition spec_PP :: "u32 pp" where
  "spec_PP xa0 xa1 xb0 xb1 xb2 xb3 xc xm =
     (let a = (xa0 XOR 5 * rotl32 15 xa1 XOR xc) * 3 XOR xb1 XOR (NOT xb3 AND xb2) XOR xm
      in (a, rotl32 1 xb0 XOR NOT a))"

definition spec_row :: "nat \<Rightarrow> pp_row" where
  "spec_row u = Row (u mod 12) ((u + 11) mod 12)
     (u mod 16) ((u + 13) mod 16) ((u + 9) mod 16) ((u + 6) mod 16)
     ((8 + 15 * u) mod 16) (u mod 16)"

definition spec_rows :: "pp_row list" where
  "spec_rows = map spec_row [0..<48]"

definition spec_adds :: "(nat \<times> nat) list" where
  "spec_adds = map (\<lambda>j. (j mod 12, (j + 3) mod 16)) (rev [0..<36])"

definition block_words :: "u8 list \<Rightarrow> u32 list" where
  "block_words blk = map (\<lambda>j. load32 blk (4 * j)) [0..<16]"

definition spec_block :: "shabal_state \<Rightarrow> u8 list \<Rightarrow> shabal_state" where
  "spec_block st blk =
     (let M = block_words blk;
          B0 = map (rotl32 17) (map2 (+) (stB st) M);
          A0 = (stA st)[0 := stA st ! 0 XOR lo32 (stW st), 1 := stA st ! 1 XOR hi32 (stW st)];
          (A, B) = run_rows spec_PP (stC st) M spec_rows (A0, B0)
      in \<lparr>stA = run_adds (+) (stC st) spec_adds A, stB = map2 (-) (stC st) M, stC = B,
          stW = stW st + 1\<rparr>)"

definition st_ok :: "shabal_state \<Rightarrow> bool" where
  "st_ok st \<longleftrightarrow> length (stA st) = 12 \<and> length (stB st) = 16 \<and> length (stC st) = 16"

lemma length_block_words [simp]: "length (block_words blk) = 16"
  by (simp add: block_words_def)

lemma st_ok_block [simp]: "st_ok st \<Longrightarrow> st_ok (spec_block st blk)"
  using run_rows_lengths [of spec_PP "stC st" "block_words blk" spec_rows]
  by (auto simp: st_ok_def spec_block_def Let_def split: prod.splits)
     (metis fst_conv length_list_update snd_conv length_map length_zip min.idem length_block_words)+

section \<open>Blocks, padding and output\<close>

fun spec_blocks :: "nat \<Rightarrow> shabal_state \<Rightarrow> u8 list \<Rightarrow> shabal_state" where
  "spec_blocks 0 st bs = st"
| "spec_blocks (Suc n) st bs = spec_blocks n (spec_block st bs) (drop 64 bs)"

definition zero_state :: shabal_state where
  "zero_state = \<lparr>stA = replicate 12 0, stB = replicate 16 0, stC = replicate 16 0, stW = - 1\<rparr>"

definition prefix_block :: "nat \<Rightarrow> u8 list" where
  "prefix_block n = concat (map (\<lambda>u. bytes32 (of_nat (n + u))) [0..<16])"

definition spec_iv :: "nat \<Rightarrow> shabal_state" where
  "spec_iv out_size =
     spec_block (spec_block zero_state (prefix_block out_size)) (prefix_block (out_size + 16))"

definition pad_block :: "u8 list \<Rightarrow> u8 list" where
  "pad_block rest = rest @ [0x80] @ replicate (63 - length rest) 0"

definition spec_final_round :: "u8 list \<Rightarrow> shabal_state \<Rightarrow> shabal_state" where
  "spec_final_round blk st = (let t = spec_block st blk in t\<lparr>stW := stW t - 1\<rparr>)"

definition spec_final :: "u8 list \<Rightarrow> shabal_state \<Rightarrow> shabal_state" where
  "spec_final blk st = (spec_final_round blk ^^ 4) st"

definition spec_output :: "nat \<Rightarrow> shabal_state \<Rightarrow> u8 list" where
  "spec_output out_size st = concat (map bytes32 (drop (16 - out_size div 32) (stC st)))"

definition shabal_hash :: "nat \<Rightarrow> u8 list \<Rightarrow> u8 list" where
  "shabal_hash out_size msg =
     (let n = length msg div 64
      in spec_output out_size
           (spec_final (pad_block (drop (64 * n) msg)) (spec_blocks n (spec_iv out_size) msg)))"

text \<open>The digest the program uses throughout: 256 bits.\<close>

abbreviation shabal256 :: "u8 list \<Rightarrow> u8 list" where
  "shabal256 \<equiv> shabal_hash 256"

lemma st_ok_zero [simp]: "st_ok zero_state"
  by (simp add: st_ok_def zero_state_def)

lemma st_ok_iv [simp]: "st_ok (spec_iv n)"
  by (simp add: spec_iv_def)

lemma st_ok_blocks [simp]: "st_ok st \<Longrightarrow> st_ok (spec_blocks n st bs)"
  by (induction n st bs rule: spec_blocks.induct) auto

lemma st_ok_final_round [simp]: "st_ok st \<Longrightarrow> st_ok (spec_final_round blk st)"
  using st_ok_block [of st blk] by (simp add: spec_final_round_def Let_def st_ok_def)

lemma st_ok_final [simp]: "st_ok st \<Longrightarrow> st_ok (spec_final blk st)"
  unfolding spec_final_def by (simp add: numeral_eq_Suc)

lemma length_shabal256 [simp]: "length (shabal256 msg) = 32"
proof -
  let ?st = "spec_final (pad_block (drop (64 * (length msg div 64)) msg))
    (spec_blocks (length msg div 64) (spec_iv 256) msg)"
  have "length (stC ?st) = 16"
    using st_ok_final [OF st_ok_blocks [OF st_ok_iv]] unfolding st_ok_def by blast
  then show ?thesis
    by (simp add: shabal_hash_def spec_output_def Let_def length_concat comp_def sum_list_triv)
qed

text \<open>Only the first 64 bytes of a block matter, and block runs compose.\<close>

lemma block_words_cong: "take 64 bs = take 64 cs \<Longrightarrow> 64 \<le> length bs \<Longrightarrow> 64 \<le> length cs \<Longrightarrow>
  block_words bs = block_words cs"
proof -
  assume eq: "take 64 bs = take 64 cs" and l: "64 \<le> length bs" "64 \<le> length cs"
  have "\<And>i. i < 64 \<Longrightarrow> bs ! i = cs ! i"
    using eq by (metis nth_take)
  then show ?thesis by (simp add: block_words_def load32_def)
qed

lemma spec_block_words: "block_words bs = block_words cs \<Longrightarrow> spec_block st bs = spec_block st cs"
  by (simp add: spec_block_def)

lemma block_words_prefix: "block_words (prefix_block n) = map (\<lambda>u. of_nat (n + u)) [0..<16]"
  using load32_concat [of _ "map (\<lambda>u. of_nat (n + u)) [0..<16]"]
  by (simp add: block_words_def prefix_block_def comp_def)

lemma spec_block_cong: "take 64 bs = take 64 cs \<Longrightarrow> 64 \<le> length bs \<Longrightarrow> 64 \<le> length cs \<Longrightarrow>
  spec_block st bs = spec_block st cs"
  by (simp add: spec_block_def block_words_cong [of bs cs])

lemma spec_blocks_add:
  "spec_blocks (m + n) st bs = spec_blocks n (spec_blocks m st bs) (drop (64 * m) bs)"
  by (induction m st bs rule: spec_blocks.induct) (simp_all add: add.commute)

lemma spec_blocks_snoc:
  "spec_blocks (Suc m) st bs = spec_block (spec_blocks m st bs) (drop (64 * m) bs)"
  using spec_blocks_add [of m 1 st bs] by (simp del: spec_blocks.simps(2) add: spec_blocks.simps(2) [of 0])

lemma spec_blocks_append:
  "64 * n \<le> length bs \<Longrightarrow> spec_blocks n st (bs @ cs) = spec_blocks n st bs"
proof (induction n st bs rule: spec_blocks.induct)
  case (2 n st bs)
  then show ?case
    using spec_block_cong [of "bs @ cs" bs st] by simp
qed simp

lemma spec_blocks_take:
  "64 * n \<le> m \<Longrightarrow> m \<le> length bs \<Longrightarrow> spec_blocks n st (take m bs) = spec_blocks n st bs"
  using spec_blocks_append [of n "take m bs" st "drop m bs"] by simp

end
