(* ===== verification/Hash_Buffer.thy ===== *)
theory Hash_Buffer
  imports Shabal_Spec
begin

text \<open>
  What every incremental Shabal implementation of the repository promises. A context seen
  from outside is a 64-byte buffer, the number of buffered bytes and a permutation state
  (\<open>hash_view\<close>); \<open>absorbed\<close> says that such a context has taken in a given
  message. The update and close algorithms that the C and assembly files share are proved
  here once, on the view, and the locale \<open>incremental_hash\<close> is the contract the
  callers in \<open>burstmath.c\<close> rely on.
\<close>

section \<open>A hash context seen from outside\<close>

record hash_view =
  vbuf :: "u8 list"
  vptr :: nat
  vst :: shabal_state

text \<open>The buffering algorithm: fill a partial block, run the full blocks, keep the rest.\<close>

definition view_fill :: "hash_view \<Rightarrow> u8 list \<Rightarrow> hash_view \<times> u8 list" where
  "view_fill v data =
     (if vptr v = 0 then (v, data)
      else let clen = 64 - vptr v; buf = blit (vbuf v) (vptr v) (take clen data)
           in (v\<lparr>vbuf := buf, vst := spec_block (vst v) buf\<rparr>, drop clen data))"

definition view_rest :: "hash_view \<Rightarrow> u8 list \<Rightarrow> hash_view" where
  "view_rest v data =
     (let num = length data div 64; rest = drop (64 * num) data
      in v\<lparr>vst := spec_blocks num (vst v) data, vbuf := blit (vbuf v) 0 rest, vptr := length rest\<rparr>)"

definition view_update :: "hash_view \<Rightarrow> u8 list \<Rightarrow> hash_view" where
  "view_update v data =
     (if vptr v \<noteq> 0 \<and> 64 - vptr v > length data
      then v\<lparr>vbuf := blit (vbuf v) (vptr v) data, vptr := vptr v + length data\<rparr>
      else let (w, d) = view_fill v data in view_rest w d)"

definition view_close :: "nat \<Rightarrow> hash_view \<Rightarrow> u8 list" where
  "view_close out_size v =
     spec_output out_size (spec_final (pad_block (take (vptr v) (vbuf v))) (vst v))"

lemma view_rest_ptr [simp]: "view_rest (v\<lparr>vptr := p\<rparr>) d = view_rest v d"
  by (simp add: view_rest_def Let_def)

text \<open>The context \<open>v\<close> has absorbed the message \<open>msg\<close>.\<close>

definition absorbed :: "nat \<Rightarrow> hash_view \<Rightarrow> u8 list \<Rightarrow> bool" where
  "absorbed out_size v msg \<longleftrightarrow>
     length (vbuf v) = 64 \<and> vptr v = length msg mod 64 \<and>
     take (vptr v) (vbuf v) = drop (64 * (length msg div 64)) msg \<and>
     vst v = spec_blocks (length msg div 64) (spec_iv out_size) msg"

lemma absorbed_Nil: "length (vbuf v) = 64 \<Longrightarrow> vptr v = 0 \<Longrightarrow> vst v = spec_iv n \<Longrightarrow> absorbed n v []"
  by (simp add: absorbed_def)

lemma absorbedD:
  assumes "absorbed n v msg"
  shows "vptr v = length msg mod 64" "length (vbuf v) = 64"
    "take (length msg mod 64) (vbuf v) = drop (64 * (length msg div 64)) msg"
    "vst v = spec_blocks (length msg div 64) (spec_iv n) msg"
  using assms by (auto simp: absorbed_def)

lemma absorbed_bounds: "absorbed n v msg \<Longrightarrow> length (vbuf v) = 64 \<and> vptr v < 64"
  by (simp add: absorbed_def)

lemma absorbed_st_ok: "absorbed n v msg \<Longrightarrow> st_ok (vst v)"
  by (simp add: absorbed_def)

text \<open>From a block boundary, the rest of the input is absorbed block by block.\<close>

lemma absorbed_rest:
  assumes "absorbed n v msg" "length msg mod 64 = 0"
  shows "absorbed n (view_rest v data) (msg @ data)"
proof -
  let ?q = "length msg div 64" and ?k = "length data div 64"
  have lm: "length msg = 64 * ?q" using assms(2) by auto
  have ld: "length (drop (64 * ?k) data) = length data mod 64"
    by (simp add: minus_mult_div_eq_mod mult.commute)
  have q: "length (msg @ data) div 64 = ?q + ?k" "length (msg @ data) mod 64 = length data mod 64"
    using aligned_add [OF assms(2), of "length data"] by simp_all
  have dr: "drop (64 * (?q + ?k)) (msg @ data) = drop (64 * ?k) data"
  proof -
    have "drop (64 * (?q + ?k)) (msg @ data) = drop (64 * ?k) (drop (64 * ?q) (msg @ data))"
      by (simp add: add.commute)
    then show ?thesis using lm by simp
  qed
  have bl: "spec_blocks (?q + ?k) (spec_iv n) (msg @ data) =
      spec_blocks ?k (spec_blocks ?q (spec_iv n) msg) data"
    using lm by (simp add: spec_blocks_add spec_blocks_append)
  have buf: "length (vbuf v) = 64" using assms(1) by (simp add: absorbed_def)
  have sm: "length data mod 64 \<le> 64" by simp
  show ?thesis
    unfolding absorbed_def q dr bl
    using assms(1) buf ld sm
    by (simp add: view_rest_def Let_def absorbed_def blit_def)
qed

text \<open>A full buffer completes the current block.\<close>

lemma absorbed_fill:
  assumes a: "absorbed n v msg" and nz: "vptr v \<noteq> 0" and len: "64 - vptr v \<le> length data"
  defines "c \<equiv> 64 - vptr v"
  shows "absorbed n ((fst (view_fill v data))\<lparr>vptr := 0\<rparr>) (msg @ take c data)"
    and "length (msg @ take c data) mod 64 = 0"
    and "snd (view_fill v data) = drop c data"
proof -
  let ?q = "length msg div 64" and ?r = "length msg mod 64"
  have p: "vptr v = ?r" and b: "length (vbuf v) = 64"
    and t: "take ?r (vbuf v) = drop (64 * ?q) msg"
    and st: "vst v = spec_blocks ?q (spec_iv n) msg"
    using absorbedD [OF a] by blast+
  have r: "?r < 64" by simp
  have lt: "length (take c data) = 64 - ?r" using len c_def p by simp
  have ll: "length (msg @ take c data) = 64 * (?q + 1)"
    using lt fill_add [of "length msg"] by simp
  then show "length (msg @ take c data) mod 64 = 0" by simp
  show "snd (view_fill v data) = drop c data"
    using nz by (simp add: view_fill_def c_def Let_def)
  have buf: "blit (vbuf v) (vptr v) (take c data) = drop (64 * ?q) (msg @ take c data)"
    using lt b p r t by (simp add: blit_fill)
  have "spec_blocks (?q + 1) (spec_iv n) (msg @ take c data) =
      spec_block (vst v) (blit (vbuf v) (vptr v) (take c data))"
    using buf st by (simp del: spec_blocks.simps add: spec_blocks_snoc spec_blocks_append)
  moreover have "length (msg @ take c data) div 64 = ?q + 1" using ll by simp
  moreover have "length (blit (vbuf v) (vptr v) (take c data)) = 64"
    using b lt p r by simp
  ultimately show "absorbed n ((fst (view_fill v data))\<lparr>vptr := 0\<rparr>) (msg @ take c data)"
    using nz ll by (simp add: absorbed_def view_fill_def Let_def c_def)
qed

text \<open>The update algorithm absorbs its input, whatever was buffered.\<close>

lemma absorbed_update:
  assumes a: "absorbed n v msg"
  shows "absorbed n (view_update v data) (msg @ data)"
proof -
  consider (short) "vptr v \<noteq> 0" "64 - vptr v > length data"
    | (fill) "vptr v \<noteq> 0" "64 - vptr v \<le> length data" | (aligned) "vptr v = 0"
    by linarith
  then show ?thesis
  proof cases
    case short
    let ?q = "length msg div 64" and ?r = "length msg mod 64"
    have p: "vptr v = ?r" and b: "length (vbuf v) = 64"
      and t: "take ?r (vbuf v) = drop (64 * ?q) msg"
      using absorbedD [OF a] by blast+
    have s: "?r + length data < 64" using short p by simp
    have q: "length (msg @ data) div 64 = ?q" "length (msg @ data) mod 64 = ?r + length data"
      using short_add [OF s] by simp_all
    have st: "spec_blocks ?q (spec_iv n) (msg @ data) = spec_blocks ?q (spec_iv n) msg"
      by (rule spec_blocks_append) simp
    have tb: "take (?r + length data) (blit (vbuf v) ?r data) = drop (64 * ?q) msg @ data"
      using t b s by (simp add: take_blit_all)
    show ?thesis
      unfolding absorbed_def q st
      using a short p b s tb
      by (simp add: view_update_def absorbed_def)
  next
    case fill
    let ?c = "64 - vptr v"
    let ?w = "fst (view_fill v data)"
    have e: "view_update v data = view_rest (?w\<lparr>vptr := 0\<rparr>) (drop ?c data)"
      using fill absorbed_fill(3) [OF a fill]
      by (simp add: view_update_def case_prod_beta)
    show ?thesis
      unfolding e
      using absorbed_rest [OF absorbed_fill(1) [OF a fill] absorbed_fill(2) [OF a fill], of "drop ?c data"]
      by simp
  next
    case aligned
    then have "view_update v data = view_rest v data"
      by (simp add: view_update_def view_fill_def)
    moreover have "length msg mod 64 = 0"
      using a aligned by (simp add: absorbed_def)
    ultimately show ?thesis using absorbed_rest [OF a] by simp
  qed
qed

lemma absorbed_close: "absorbed n v msg \<Longrightarrow> view_close n v = shabal_hash n msg"
  by (auto simp: absorbed_def view_close_def shabal_hash_def Let_def)

text \<open>The padded last block.\<close>

lemma pad_buffer:
  assumes "length b = 64" "p < 64"
  shows "blit (b[p := 0x80]) (p + 1) (replicate (64 - (p + 1)) 0) = pad_block (take p b)"
  using assms by (simp add: blit_def pad_block_def take_Suc_conv_app_nth min_absorb2)

section \<open>The prefix blocks that make the initial state\<close>

text \<open>The init loops write two bytes of each of the sixteen little-endian words.\<close>

definition write_pairs :: "(nat \<Rightarrow> u8) \<Rightarrow> (nat \<Rightarrow> u8) \<Rightarrow> u8 list \<Rightarrow> u8 list" where
  "write_pairs lo hi buf = fold (\<lambda>u b. b[4 * u := lo u, 4 * u + 1 := hi u]) [0..<16] buf"

lemma write_pairs_nth:
  assumes "length buf = 64" "n \<le> 16"
    and f: "f = fold (\<lambda>u b. b[4 * u := lo u, 4 * u + 1 := hi u]) [0..<n] buf"
  shows "length f = 64 \<and> (\<forall>u < 16. f ! (4 * u) = (if u < n then lo u else buf ! (4 * u)) \<and>
    f ! (4 * u + 1) = (if u < n then hi u else buf ! (4 * u + 1)) \<and>
    f ! (4 * u + 2) = buf ! (4 * u + 2) \<and> f ! (4 * u + 3) = buf ! (4 * u + 3))"
  unfolding f using assms(2)
proof (induction n)
  case (Suc n)
  have "\<And>u. 4 * n \<noteq> Suc (4 * u)" "\<And>u. 4 * n \<noteq> 4 * u + 2" "\<And>u. 4 * n \<noteq> 4 * u + 3"
    "\<And>u. 4 * n \<noteq> Suc (Suc (4 * u))" "\<And>u. Suc (4 * n) \<noteq> 4 * u" "\<And>u. Suc (4 * n) \<noteq> 4 * u + 2"
    "\<And>u. Suc (4 * n) \<noteq> 4 * u + 3"
    by presburger+
  then show ?case using Suc by (auto simp: nth_list_update)
qed (simp add: assms(1))

lemma write_pairs_prefix:
  fixes hi :: "nat \<Rightarrow> nat \<Rightarrow> u8"
  assumes "length buf = 64" "m + 16 \<le> 65536"
    and z: "\<And>u. u < 16 \<Longrightarrow> buf ! (4 * u + 2) = 0 \<and> buf ! (4 * u + 3) = 0"
    and hi: "\<And>u. u < 16 \<Longrightarrow> hi m u = of_nat (drop_bit 8 (m + u))"
  shows "length (write_pairs (\<lambda>u. of_nat (m + u)) (\<lambda>u. hi m u) buf) = 64"
    and "block_words (write_pairs (\<lambda>u. of_nat (m + u)) (\<lambda>u. hi m u) buf) = block_words (prefix_block m)"
    and "u < 16 \<Longrightarrow> write_pairs (\<lambda>u. of_nat (m + u)) (\<lambda>u. hi m u) buf ! (4 * u + 2) = 0 \<and>
      write_pairs (\<lambda>u. of_nat (m + u)) (\<lambda>u. hi m u) buf ! (4 * u + 3) = 0"
proof -
  let ?f = "write_pairs (\<lambda>u. of_nat (m + u)) (\<lambda>u. hi m u) buf"
  note f = write_pairs_nth [OF assms(1) order.refl write_pairs_def [of "\<lambda>u. of_nat (m + u)" "hi m" buf]]
  show "length ?f = 64" using f by blast
  show "u < 16 \<Longrightarrow> ?f ! (4 * u + 2) = 0 \<and> ?f ! (4 * u + 3) = 0"
    using f z by simp
  have "load32 ?f (4 * u) = of_nat (m + u)" if "u < 16" for u
    using f z [OF that] that le32_two_bytes [of "m + u"] assms(2) hi [OF that] by (simp add: load32_def)
  then show "block_words ?f = block_words (prefix_block m)"
    by (simp add: block_words_prefix) (simp add: block_words_def)
qed

section \<open>The contract of an incremental hash\<close>

text \<open>
  The interface the callers use: a fresh context, an update with a chunk, and the digest.
  \<open>took c m\<close> says the context \<open>c\<close> has absorbed \<open>m\<close>; \<open>chunk_ok\<close> is what
  the caller must guarantee of a chunk (equal lane lengths for the vector versions).
\<close>

locale incremental_hash =
  fixes start :: 'c
    and update :: "'c \<Rightarrow> 'd \<Rightarrow> 'c"
    and digest :: "'c \<Rightarrow> u8 list"
    and chunk_ok :: "'d \<Rightarrow> bool"
    and bytes :: "'d \<Rightarrow> u8 list"
    and took :: "'c \<Rightarrow> u8 list \<Rightarrow> bool"
    and hash :: "u8 list \<Rightarrow> u8 list"
  assumes took_start: "took start []"
    and took_update: "took c m \<Longrightarrow> chunk_ok d \<Longrightarrow> took (update c d) (m @ bytes d)"
    and took_digest: "took c m \<Longrightarrow> digest c = hash m"
begin

lemma took_fold: "took c m \<Longrightarrow> \<forall>d \<in> set ds. chunk_ok d \<Longrightarrow>
  took (foldl update c ds) (m @ concat (map bytes ds))"
proof (induction ds arbitrary: c m)
  case (Cons d ds)
  then have "took (update c d) (m @ bytes d)" by (simp add: took_update)
  then show ?case using Cons.IH [of "update c d" "m @ bytes d"] Cons.prems(2) by simp
qed simp

lemma digest_chunks: "\<forall>d \<in> set ds. chunk_ok d \<Longrightarrow>
  digest (foldl update start ds) = hash (concat (map bytes ds))"
  using took_fold [OF took_start, of ds] took_digest by simp

lemma digest_one: "chunk_ok d \<Longrightarrow> digest (update start d) = hash (bytes d)"
  using digest_chunks [of "[d]"] by simp

lemma digest_two: "chunk_ok d \<Longrightarrow> chunk_ok e \<Longrightarrow>
  digest (update (update start d) e) = hash (bytes d @ bytes e)"
  using digest_chunks [of "[d, e]"] by simp

end

end
