(* ===== verification/Simd_Lanes.thy ===== *)
theory Simd_Lanes
  imports Hash_Buffer
begin

unbundle bit_operations_syntax

text \<open>
  The vector registers and intrinsics the two parallel Shabal files use, four lanes
  (\<open>__m128i\<close>) and eight lanes (\<open>__m256i\<close>), with the projection to one lane; and the
  locale \<open>lane_view\<close>, which says when a vector permutation step is the scalar one in
  a lane and lifts this to whole runs of rows, additions and swaps.
\<close>

section \<open>Four and eight parallel values\<close>

datatype 'a quad = Quad 'a 'a 'a 'a
datatype 'a oct = Oct 'a 'a 'a 'a 'a 'a 'a 'a

fun elems4 :: "'a quad \<Rightarrow> 'a list" where
  "elems4 (Quad a b c d) = [a, b, c, d]"

fun elems8 :: "'a oct \<Rightarrow> 'a list" where
  "elems8 (Oct a b c d e f g h) = [a, b, c, d, e, f, g, h]"

definition lane4 :: "nat \<Rightarrow> 'a quad \<Rightarrow> 'a" where
  "lane4 k q = elems4 q ! (k mod 4)"

definition lane8 :: "nat \<Rightarrow> 'a oct \<Rightarrow> 'a" where
  "lane8 k q = elems8 q ! (k mod 8)"

fun zip4 :: "('a \<Rightarrow> 'b \<Rightarrow> 'c) \<Rightarrow> 'a quad \<Rightarrow> 'b quad \<Rightarrow> 'c quad" where
  "zip4 f (Quad a b c d) (Quad a' b' c' d') = Quad (f a a') (f b b') (f c c') (f d d')"

fun zip8 :: "('a \<Rightarrow> 'b \<Rightarrow> 'c) \<Rightarrow> 'a oct \<Rightarrow> 'b oct \<Rightarrow> 'c oct" where
  "zip8 p (Oct a b c d e f g h) (Oct a' b' c' d' e' f' g' h') =
     Oct (p a a') (p b b') (p c c') (p d d') (p e e') (p f f') (p g g') (p h h')"

definition dup4 :: "'a \<Rightarrow> 'a quad" where
  "dup4 x = Quad x x x x"

definition dup8 :: "'a \<Rightarrow> 'a oct" where
  "dup8 x = Oct x x x x x x x x"

lemma length_elems4 [simp]: "length (elems4 q) = 4"
  by (cases q) simp

lemma length_elems8 [simp]: "length (elems8 q) = 8"
  by (cases q) simp

lemma elems4_map [simp]: "elems4 (map_quad f q) = map f (elems4 q)"
  by (cases q) simp

lemma elems8_map [simp]: "elems8 (map_oct f q) = map f (elems8 q)"
  by (cases q) simp

lemma elems4_zip: "elems4 (zip4 f p q) = map2 f (elems4 p) (elems4 q)"
  by (cases p; cases q) simp

lemma elems8_zip: "elems8 (zip8 f p q) = map2 f (elems8 p) (elems8 q)"
  by (cases p; cases q) simp

lemma lane4_map [simp, lane_simps]: "lane4 k (map_quad f q) = f (lane4 k q)"
  by (simp add: lane4_def)

lemma lane8_map [simp, lane_simps]: "lane8 k (map_oct f q) = f (lane8 k q)"
  by (simp add: lane8_def)

lemma lane4_zip [simp, lane_simps]: "lane4 k (zip4 f p q) = f (lane4 k p) (lane4 k q)"
  by (simp add: lane4_def elems4_zip)

lemma lane8_zip [simp, lane_simps]: "lane8 k (zip8 f p q) = f (lane8 k p) (lane8 k q)"
  by (simp add: lane8_def elems8_zip)

lemma lane4_dup [simp, lane_simps]: "lane4 k (dup4 x) = x"
proof -
  have "elems4 (dup4 x) = replicate 4 x" by (simp add: dup4_def numeral_eq_Suc)
  then show ?thesis by (simp add: lane4_def)
qed

lemma lane8_dup [simp, lane_simps]: "lane8 k (dup8 x) = x"
proof -
  have "elems8 (dup8 x) = replicate 8 x" by (simp add: dup8_def numeral_eq_Suc)
  then show ?thesis by (simp add: lane8_def)
qed

lemma lane4_in: "lane4 k q \<in> set (elems4 q)"
  by (simp add: lane4_def)

lemma lane8_in: "lane8 k q \<in> set (elems8 q)"
  by (simp add: lane8_def)

section \<open>Intrinsics\<close>

type_synonym m128i = "u32 quad"
type_synonym m256i = "u32 oct"

definition mm_add_epi32 :: "m128i \<Rightarrow> m128i \<Rightarrow> m128i" where "mm_add_epi32 = zip4 (+)"
definition mm_sub_epi32 :: "m128i \<Rightarrow> m128i \<Rightarrow> m128i" where "mm_sub_epi32 = zip4 (-)"
definition mm_xor_si128 :: "m128i \<Rightarrow> m128i \<Rightarrow> m128i" where "mm_xor_si128 = zip4 (XOR)"
definition mm_or_si128 :: "m128i \<Rightarrow> m128i \<Rightarrow> m128i" where "mm_or_si128 = zip4 (OR)"
definition mm_andnot_si128 :: "m128i \<Rightarrow> m128i \<Rightarrow> m128i" where
  "mm_andnot_si128 = zip4 (\<lambda>x y. NOT x AND y)"
definition mm_slli_epi32 :: "m128i \<Rightarrow> nat \<Rightarrow> m128i" where "mm_slli_epi32 x n = map_quad (push_bit n) x"
definition mm_srli_epi32 :: "m128i \<Rightarrow> nat \<Rightarrow> m128i" where "mm_srli_epi32 x n = map_quad (drop_bit n) x"
definition mm_set1_epi32 :: "u32 \<Rightarrow> m128i" where "mm_set1_epi32 = dup4"

definition mm256_add_epi32 :: "m256i \<Rightarrow> m256i \<Rightarrow> m256i" where "mm256_add_epi32 = zip8 (+)"
definition mm256_sub_epi32 :: "m256i \<Rightarrow> m256i \<Rightarrow> m256i" where "mm256_sub_epi32 = zip8 (-)"
definition mm256_xor_si256 :: "m256i \<Rightarrow> m256i \<Rightarrow> m256i" where "mm256_xor_si256 = zip8 (XOR)"
definition mm256_or_si256 :: "m256i \<Rightarrow> m256i \<Rightarrow> m256i" where "mm256_or_si256 = zip8 (OR)"
definition mm256_andnot_si256 :: "m256i \<Rightarrow> m256i \<Rightarrow> m256i" where
  "mm256_andnot_si256 = zip8 (\<lambda>x y. NOT x AND y)"
definition mm256_slli_epi32 :: "m256i \<Rightarrow> nat \<Rightarrow> m256i" where "mm256_slli_epi32 x n = map_oct (push_bit n) x"
definition mm256_srli_epi32 :: "m256i \<Rightarrow> nat \<Rightarrow> m256i" where "mm256_srli_epi32 x n = map_oct (drop_bit n) x"
definition mm256_set1_epi32 :: "u32 \<Rightarrow> m256i" where "mm256_set1_epi32 = dup8"

lemmas mm_defs [lane_simps] =
  mm_add_epi32_def mm_sub_epi32_def mm_xor_si128_def mm_or_si128_def mm_andnot_si128_def
  mm_slli_epi32_def mm_srli_epi32_def mm_set1_epi32_def

lemmas mm256_defs [lane_simps] =
  mm256_add_epi32_def mm256_sub_epi32_def mm256_xor_si256_def mm256_or_si256_def
  mm256_andnot_si256_def mm256_slli_epi32_def mm256_srli_epi32_def mm256_set1_epi32_def

section \<open>Runs of rows seen through a lane\<close>

text \<open>The \<open>SWAP_AND_SUB\<close> lines: \<open>B[j], C[j] := C[j] - M[j], B[j]\<close>.\<close>

definition run_swaps :: "('v \<Rightarrow> 'v \<Rightarrow> 'v) \<Rightarrow> 'v list \<Rightarrow> nat list \<Rightarrow> 'v list \<times> 'v list \<Rightarrow> 'v list \<times> 'v list" where
  "run_swaps sub M js BC =
     fold (\<lambda>j (B, C). (B[j := sub (C ! j) (M ! j)], C[j := B ! j])) js BC"

lemma run_swaps_prefix:
  assumes "length B = n" "length C = n" "length M = n" "k \<le> n"
  shows "run_swaps sub M [0..<k] (B, C) =
    (take k (map2 sub C M) @ drop k B, take k B @ drop k C)"
  using assms(4)
proof (induction k)
  case (Suc k)
  then have k: "k < n" by simp
  have "run_swaps sub M [0..<Suc k] (B, C) =
      (\<lambda>(B, C). (B[k := sub (C ! k) (M ! k)], C[k := B ! k]))
        (take k (map2 sub C M) @ drop k B, take k B @ drop k C)"
    using Suc by (simp add: run_swaps_def)
  also have "\<dots> = (take (Suc k) (map2 sub C M) @ drop (Suc k) B, take (Suc k) B @ drop (Suc k) C)"
    using k assms(1-3)
    by (auto intro!: nth_equalityI simp: nth_append nth_list_update min_def)
  finally show ?case .
qed (simp add: run_swaps_def)

lemma run_swaps_all:
  assumes "length B = 16" "length C = 16" "length M = 16"
  shows "run_swaps sub M [0..<16] (B, C) = (map2 sub C M, B)"
  using run_swaps_prefix [OF assms, of 16 sub] assms by simp

locale lane_view =
  fixes lane :: "'v \<Rightarrow> u32"
    and PP :: "'v pp"
    and add :: "'v \<Rightarrow> 'v \<Rightarrow> 'v"
    and sub :: "'v \<Rightarrow> 'v \<Rightarrow> 'v"
  assumes lane_PP: "map_prod lane lane (PP a0 a1 b0 b1 b2 b3 c m) =
      spec_PP (lane a0) (lane a1) (lane b0) (lane b1) (lane b2) (lane b3) (lane c) (lane m)"
    and lane_add: "lane (add x y) = lane x + lane y"
    and lane_sub: "lane (sub x y) = lane x - lane y"
begin

lemma lane_run_row:
  assumes "row_ok r" "length A = 12" "length B = 16" "length C = 16" "length M = 16"
  shows "map_prod (map lane) (map lane) (run_row PP C M r (A, B)) =
    run_row spec_PP (map lane C) (map lane M) r (map lane A, map lane B)"
proof (cases r)
  case (Row a0 a1 b0 b1 b2 b3 c m)
  obtain a b where ab: "PP (A ! a0) (A ! a1) (B ! b0) (B ! b1) (B ! b2) (B ! b3) (C ! c) (M ! m) = (a, b)"
    by fastforce
  have "spec_PP (lane (A ! a0)) (lane (A ! a1)) (lane (B ! b0)) (lane (B ! b1))
      (lane (B ! b2)) (lane (B ! b3)) (lane (C ! c)) (lane (M ! m)) = (lane a, lane b)"
    using lane_PP [of "A ! a0" "A ! a1" "B ! b0" "B ! b1" "B ! b2" "B ! b3" "C ! c" "M ! m"]
    by (simp add: ab)
  then show ?thesis
    using assms Row ab by (simp add: map_update)
qed

lemma lane_run_rows:
  assumes "list_all row_ok rs" "length A = 12" "length B = 16" "length C = 16" "length M = 16"
  shows "map_prod (map lane) (map lane) (run_rows PP C M rs (A, B)) =
    run_rows spec_PP (map lane C) (map lane M) rs (map lane A, map lane B)"
  using assms(1-3)
proof (induction rs arbitrary: A B)
  case (Cons r rs)
  obtain A' B' where AB: "run_row PP C M r (A, B) = (A', B')" by fastforce
  have l: "length A' = 12" "length B' = 16"
    using run_row_lengths [of PP C M r "(A, B)"] Cons.prems by (simp_all add: AB)
  show ?case
    using Cons.IH [of A' B'] Cons.prems l AB assms(4,5)
      lane_run_row [of r A B C M]
    by (simp add: run_rows_def)
qed (simp add: run_rows_def)

lemma lane_run_adds:
  assumes "list_all (\<lambda>(a, c). a < 12 \<and> c < 16) js" "length A = 12" "length C = 16"
  shows "map lane (run_adds add C js A) = run_adds (+) (map lane C) js (map lane A)"
  using assms(1,2)
proof (induction js arbitrary: A)
  case (Cons j js)
  then show ?case
    using assms(3) by (cases j) (simp add: run_adds_def map_update lane_add)
qed (simp add: run_adds_def)

lemma lane_subs: "map lane (map2 sub xs ys) = map2 (-) (map lane xs) (map lane ys)"
  by (induction xs ys rule: list_induct2') (simp_all add: lane_sub)

lemma lane_sums: "map lane (map2 add xs ys) = map2 (+) (map lane xs) (map lane ys)"
  by (induction xs ys rule: list_induct2') (simp_all add: lane_add)

text \<open>A block computed with vectors is, in the lane, the scalar block.\<close>

lemma lane_block:
  assumes len: "length A = 12" "length B = 16" "length C = 16" "length M = 16"
    and M: "map lane M = block_words blk"
    and A0: "map lane A0 = (map lane A)[0 := lane (A ! 0) XOR lo32 W, 1 := lane (A ! 1) XOR hi32 W]"
    and B0: "map lane B0 = map (rotl32 17) (map2 (+) (map lane B) (map lane M))"
    and rows: "run_rows PP C M spec_rows (A0, B0) = (A1, B1)"
  shows "spec_block \<lparr>stA = map lane A, stB = map lane B, stC = map lane C, stW = W\<rparr> blk =
    \<lparr>stA = map lane (run_adds add C spec_adds A1), stB = map2 (-) (map lane C) (map lane M),
     stC = map lane B1, stW = W + 1\<rparr>"
proof -
  have lA0: "length A0 = 12" using arg_cong [OF A0, of length] len by simp
  have lB0: "length B0 = 16" using arg_cong [OF B0, of length] len by simp
  have lA1: "length A1 = 12"
    using run_rows_lengths [of PP C M spec_rows "(A0, B0)"] rows lA0 by simp
  have ok: "list_all row_ok spec_rows"
    by (simp add: spec_rows_def spec_row_def list_all_length)
  have ok2: "list_all (\<lambda>(a, c). a < 12 \<and> c < 16) spec_adds"
    by (simp add: spec_adds_def list_all_length)
  have nth: "map lane A ! 0 = lane (A ! 0)" "map lane A ! 1 = lane (A ! 1)"
    using len by simp_all
  have R: "run_rows spec_PP (map lane C) (map lane M) spec_rows (map lane A0, map lane B0) =
      (map lane A1, map lane B1)"
    using lane_run_rows [OF ok lA0 lB0 len(3,4)] rows by simp
  show ?thesis
    unfolding spec_block_def Let_def shabal_state.simps M [symmetric] nth A0 [symmetric] B0 [symmetric] R
    using lane_run_adds [OF ok2 lA1 len(3)] by simp
qed

end

end
