(* ===== verification/Shabal64.thy ===== *)
theory Shabal64
  imports Simd_Lanes "HOL-Library.Monad_Syntax"
begin

unbundle bit_operations_syntax

text \<open>
  \<open>shabal64.s\<close>: the scalar implementation in amd64 assembly, executed instruction by
  instruction on the values it moves: the permutation rounds on \<open>%eax\<close>,
  \<open>%ecx\<close>, \<open>%edx\<close>, the state words and the stack area \<open>Bx\<close>; the vector
  blocks around them; and the alignment of the state words, which depends on the
  addresses of the context and of the stack frame. A general-protection fault of
  \<open>movdqa\<close> on an address that is not a multiple of 16 is \<open>None\<close>.
\<close>

section \<open>Context\<close>

text \<open>The state words \<open>A[12], B[16], C[16]\<close> and the block counter, as \<open>shabal_inner\<close> sees them.\<close>

record asm_state =
  xst :: "u32 list"
  xW :: u64

record shabal_context =
  sbuf :: "u8 list"
  sptr :: nat
  sstate :: asm_state
  sout_size :: nat

section \<open>The 48 rounds\<close>

text \<open>
  What distinguishes one round from another: the address of the delayed store of the
  previous round, then in order the \<open>Bx\<close> offset of \<open>movl _, %edx\<close>, the register and lane
  of the message word, the offset of \<open>A\<close>, the \<open>Bx\<close> offsets of \<open>xorl _, %ecx\<close> and
  \<open>andl _, %edx\<close>, the offset of \<open>C\<close>, and the \<open>Bx\<close> offset of the word being replaced.
\<close>

datatype asm_row = AsmRow "nat option" nat nat nat nat nat nat nat nat

record asm_regs =
  reax :: u32
  recx :: u32
  rst :: "u32 list"
  rbx :: "u32 list"

definition asm_rows :: "asm_row list" where
  "asm_rows = [
   AsmRow None 24 4 0 0 52 36 144 0, AsmRow (Some 64) 28 4 1 4 56 40 140 4,
   AsmRow (Some 68) 32 4 2 8 60 44 136 8, AsmRow (Some 72) 36 4 3 12 64 48 132 12,
   AsmRow (Some 76) 40 5 0 16 68 52 128 16, AsmRow (Some 80) 44 5 1 20 72 56 124 20,
   AsmRow (Some 84) 48 5 2 24 76 60 120 24, AsmRow (Some 88) 52 5 3 28 80 64 116 28,
   AsmRow (Some 92) 56 6 0 32 84 68 112 32, AsmRow (Some 96) 60 6 1 36 88 72 172 36,
   AsmRow (Some 100) 64 6 2 40 92 76 168 40, AsmRow (Some 104) 68 6 3 44 96 80 164 44,
   AsmRow (Some 108) 72 7 0 0 100 84 160 48, AsmRow (Some 112) 76 7 1 4 104 88 156 52,
   AsmRow (Some 116) 80 7 2 8 108 92 152 56, AsmRow (Some 120) 84 7 3 12 112 96 148 60,
   AsmRow (Some 124) 88 4 0 16 116 100 144 64, AsmRow (Some 128) 92 4 1 20 120 104 140 68,
   AsmRow (Some 132) 96 4 2 24 124 108 136 72, AsmRow (Some 136) 100 4 3 28 128 112 132 76,
   AsmRow (Some 140) 104 5 0 32 132 116 128 80, AsmRow (Some 144) 108 5 1 36 136 120 124 84,
   AsmRow (Some 148) 112 5 2 40 140 124 120 88, AsmRow (Some 152) 116 5 3 44 144 128 116 92,
   AsmRow (Some 156) 120 6 0 0 148 132 112 96, AsmRow (Some 160) 124 6 1 4 152 136 172 100,
   AsmRow (Some 164) 128 6 2 8 156 140 168 104, AsmRow (Some 168) 132 6 3 12 160 144 164 108,
   AsmRow (Some 172) 136 7 0 16 164 148 160 112, AsmRow (Some 176) 140 7 1 20 168 152 156 116,
   AsmRow (Some 180) 144 7 2 24 172 156 152 120, AsmRow (Some 184) 148 7 3 28 176 160 148 124,
   AsmRow (Some 188) 152 4 0 32 180 164 144 128, AsmRow (Some 192) 156 4 1 36 184 168 140 132,
   AsmRow (Some 196) 160 4 2 40 188 172 136 136, AsmRow (Some 200) 164 4 3 44 192 176 132 140,
   AsmRow (Some 204) 168 5 0 0 196 180 128 144, AsmRow (Some 208) 172 5 1 4 200 184 124 148,
   AsmRow (Some 212) 176 5 2 8 204 188 120 152, AsmRow (Some 216) 180 5 3 12 208 192 116 156,
   AsmRow (Some 220) 184 6 0 16 212 196 112 160, AsmRow (Some 224) 188 6 1 20 216 200 172 164,
   AsmRow (Some 228) 192 6 2 24 220 204 168 168, AsmRow (Some 232) 196 6 3 28 224 208 164 172,
   AsmRow (Some 236) 200 7 0 32 228 212 160 176, AsmRow (Some 240) 204 7 1 36 232 216 156 180,
   AsmRow (Some 244) 208 7 2 40 236 220 152 184, AsmRow (Some 248) 212 7 3 44 240 224 148 188]"

text \<open>Message words stay in \<open>%xmm4\<close> to \<open>%xmm7\<close>; \<open>pshufd\<close> and \<open>movd\<close> select one.\<close>

definition asm_msg :: "u8 list \<Rightarrow> m128i list" where
  "asm_msg buf = map (\<lambda>j. Quad (load32 buf (16 * j)) (load32 buf (16 * j + 4))
     (load32 buf (16 * j + 8)) (load32 buf (16 * j + 12))) [0..<4]"

definition asm_movd :: "m128i list \<Rightarrow> nat \<Rightarrow> nat \<Rightarrow> u32" where
  "asm_movd xmm r lane = lane4 lane (xmm ! (r - 4))"

fun asm_round :: "m128i list \<Rightarrow> asm_row \<Rightarrow> asm_regs \<Rightarrow> asm_regs" where
  "asm_round xmm (AsmRow dly e xr lane a x n c b) r =
     (let eax = rotl32 15 (reax r);
          bx = (case dly of None \<Rightarrow> rbx r | Some off \<Rightarrow> (rbx r)[off div 4 := recx r]);
          edx = bx ! (e div 4);
          eax = eax + eax * 4;
          ecx = asm_movd xmm xr lane;
          eax = eax XOR rst r ! (a div 4);
          edx = NOT edx;
          ecx = ecx XOR bx ! (x div 4);
          edx = edx AND bx ! (n div 4);
          eax = eax XOR rst r ! (c div 4);
          edx = edx XOR ecx;
          ecx = bx ! (b div 4);
          eax = eax + eax * 2;
          ecx = NOT ecx;
          eax = eax XOR edx;
          ecx = rotl32 1 ecx;
          st = (rst r)[a div 4 := eax];
          ecx = ecx XOR eax
      in \<lparr>reax = eax, recx = ecx, rst = st, rbx = bx\<rparr>)"

section \<open>A block\<close>

definition movdq_load :: "u32 list \<Rightarrow> nat \<Rightarrow> m128i" where
  "movdq_load st off =
     Quad (st ! (off div 4)) (st ! (off div 4 + 1)) (st ! (off div 4 + 2)) (st ! (off div 4 + 3))"

definition movdq_store :: "nat \<Rightarrow> m128i \<Rightarrow> u32 list \<Rightarrow> u32 list" where
  "movdq_store off v st = blit st (off div 4) (elems4 v)"

fun pslldq4 :: "m128i \<Rightarrow> m128i" where
  "pslldq4 (Quad a b c d) = Quad 0 a b c"

text \<open>\<open>B + M\<close>, rotated, into \<open>Bx[0:15]\<close>.\<close>

definition asm_rotate_in :: "m128i list \<Rightarrow> u32 list \<Rightarrow> u32 list \<Rightarrow> u32 list" where
  "asm_rotate_in xmm st bx =
     fold (\<lambda>j bx. (let v = mm_add_epi32 (movdq_load st (48 + 16 * j)) (xmm ! j);
                       v = mm_or_si128 (mm_srli_epi32 v 15) (mm_slli_epi32 v 17)
                   in movdq_store (16 * j) v bx)) [0..<4] bx"

text \<open>\<open>B := C - M\<close>.\<close>

definition asm_sub_m :: "m128i list \<Rightarrow> u32 list \<Rightarrow> u32 list" where
  "asm_sub_m xmm st =
     (let xmm0 = mm_sub_epi32 (movdq_load st 112) (xmm ! 0);
          xmm1 = mm_sub_epi32 (movdq_load st 128) (xmm ! 1);
          xmm2 = mm_sub_epi32 (movdq_load st 144) (xmm ! 2);
          xmm3 = mm_sub_epi32 (movdq_load st 160) (xmm ! 3)
      in movdq_store 96 xmm3 (movdq_store 80 xmm2 (movdq_store 64 xmm1 (movdq_store 48 xmm0 st))))"

text \<open>The 36 additions of \<open>C\<close> words to \<open>A\<close> words, by vectors.\<close>

definition asm_add_c :: "u32 list \<Rightarrow> u32 list" where
  "asm_add_c st =
     (let xmm0 = movdq_load st 112; xmm1 = movdq_load st 124; xmm2 = movdq_load st 140;
          xmm0 = pslldq4 xmm0; eax = st ! (172 div 4); xmm3 = movdq_load st 156;
          xmm4 = movdq_load st 0; xmm7 = Quad eax 0 0 0; xmm5 = movdq_load st 16;
          xmm6 = movdq_load st 32; xmm0 = mm_or_si128 xmm0 xmm7;
          xmm5 = mm_add_epi32 xmm5 xmm1; xmm1 = mm_add_epi32 xmm1 xmm3;
          xmm5 = mm_add_epi32 xmm5 xmm2; xmm6 = mm_add_epi32 xmm6 xmm2;
          xmm4 = mm_add_epi32 xmm4 xmm1; xmm5 = mm_add_epi32 xmm5 xmm0;
          xmm6 = mm_add_epi32 xmm6 xmm1; xmm4 = mm_add_epi32 xmm4 xmm0
      in movdq_store 0 xmm4 (movdq_store 32 xmm6 (movdq_store 16 xmm5 st)))"

text \<open>\<open>C := Bx[48:63]\<close>.\<close>

definition asm_new_c :: "u32 list \<Rightarrow> u32 list \<Rightarrow> u32 list" where
  "asm_new_c bx st =
     movdq_store 160 (movdq_load bx 240) (movdq_store 144 (movdq_load bx 224)
       (movdq_store 128 (movdq_load bx 208) (movdq_store 112 (movdq_load bx 192) st)))"

definition asm_block :: "u8 list \<Rightarrow> asm_state \<times> u32 list \<Rightarrow> asm_state \<times> u32 list" where
  "asm_block buf sb =
     (let (x, bx) = sb;
          xmm = asm_msg buf;
          bx = asm_rotate_in xmm (xst x) bx;
          rax = xW x;
          st = (xst x)[0 := xst x ! 0 XOR lo32 rax, 1 := xst x ! 1 XOR hi32 rax];
          r = fold (asm_round xmm) asm_rows \<lparr>reax = st ! (44 div 4), recx = 0, rst = st, rbx = bx\<rparr>;
          bx = (rbx r)[252 div 4 := recx r];
          st = asm_new_c bx (asm_add_c (asm_sub_m xmm (rst r)))
      in (\<lparr>xst = st, xW = rax + 1\<rparr>, bx))"

text \<open>
  \<open>shabal_inner\<close>: the loop tests its counter after the body, and the callers pass one
  block or more (zero would run \<open>2^64\<close> times and leave the data; it is not given a result).
  \<open>bx\<close> is what the stack area held before.
\<close>

fun asm_loop :: "nat \<Rightarrow> u8 list \<Rightarrow> asm_state \<times> u32 list \<Rightarrow> (asm_state \<times> u32 list) option" where
  "asm_loop 0 buf sb = None"
| "asm_loop (Suc n) buf sb =
     (let sb = asm_block buf sb in if n = 0 then Some sb else asm_loop n (drop 64 buf) sb)"

definition shabal_inner :: "u32 list \<Rightarrow> u64 \<Rightarrow> asm_state \<Rightarrow> u8 list \<Rightarrow> nat \<Rightarrow> asm_state option" where
  "shabal_inner bx stt x buf num =
     (if stt AND 15 = 0 then map_option fst (asm_loop num buf (x, bx)) else None)"

section \<open>Entry points\<close>

text \<open>The table \<open>iv\<close>: the states after the two prefix blocks, one per output size.\<close>

definition iv_table :: "u32 list list" where
  "iv_table = [
    [0x30991624, 0x806813D1, 0xBCA662CB, 0xD12B9E3E, 0x015C94E0, 0x90864C9D, 0x8EE87628, 0xC9B16670,
     0x6300436B, 0x00B74372, 0x6410F22C, 0x727CCCA8, 0x405762CA, 0xADAFA2DD, 0x094A20D4, 0x0299DB0E,
     0x8E697024, 0x80301429, 0x9FD43B12, 0x43429851, 0xB6CE9CE7, 0xFD7E01E8, 0x05C08832, 0x1B0B9BF9,
     0x203139BE, 0xDF941A78, 0x9028DC03, 0xD5079E88, 0xDC16B134, 0x1D902C0F, 0x7FABDE1C, 0x3BD00C56,
     0x2C6130DA, 0xDDACF5F4, 0x5FC89982, 0x9992F1D5, 0xA26EC215, 0x82DFFD2C, 0xCA1F5AC1, 0x3005D535,
     0x4F845186, 0x624E8186, 0x7E8EAA93, 0x0CC5813E],
    [0xAFBA1D74, 0x43D93628, 0xED6741E5, 0x24E6B5AD, 0x7CF8195B, 0x1348594B, 0x0B1D67BB, 0x8ECE0945,
     0x27A57DFA, 0xA3C28A8C, 0x88108C3E, 0x4E48C0AF, 0xC581116E, 0x16ED2D7F, 0xF5A2D28F, 0xC56D559D,
     0xBAA08E92, 0x64D7C8FC, 0x3E690AC9, 0x38B69953, 0x04DCCD05, 0xD1C9359A, 0x6A8545FA, 0x515BB34E,
     0x81FAC868, 0xEB40C1E5, 0x6D95629C, 0x45C0F632, 0x02105ED2, 0xBCA69AFF, 0x7402E45C, 0x3B3AE370,
     0x08A04FA4, 0x5A6CD21D, 0x462EB4C0, 0x8CC6966C, 0x500569B9, 0x5B580756, 0x8A23BEA0, 0x0C0D95F0,
     0xA8A2CC5E, 0x9DF90247, 0xE33F5B0F, 0x4CA34C8E],
    [0x9D63B7AE, 0x30D32AD2, 0xFD2D64F8, 0x1A4F88ED, 0x9F8C1E0E, 0x5B40AC3A, 0xBC49378A, 0x78C4CEB7,
     0x4D460412, 0x368F606F, 0x203C7132, 0x07775329, 0x2A7DD153, 0x9E434DA3, 0x6986024A, 0x160620C6,
     0x6A0DDA63, 0x0C300A9D, 0x928D0C82, 0xA2AEA46C, 0x5B026685, 0x9D381B86, 0x852DF223, 0x336AFB47,
     0xFCE8B147, 0xF7D77805, 0x24FD4088, 0xDCA077F4, 0x48B9AF9E, 0xABDF6C90, 0x0DCD5ED5, 0xEECB6206,
     0x6D12A365, 0x98F87C66, 0xCDC87E8D, 0xB5B4A748, 0x704AC162, 0x9F1CBD4B, 0xE61902FF, 0xB1BB72EA,
     0x2970E70A, 0xCEF5B6A6, 0x14DF55CB, 0x20943F97],
    [0x78B31FB9, 0xB6752098, 0x7E0A5E4F, 0xB9909576, 0xD29FEA11, 0x5001C1B0, 0x173061EB, 0x6259160F,
     0xBA854A36, 0x6B335E13, 0xB6DBCF5C, 0x1D2D8037, 0x1DFBAFBB, 0xDAA1D17F, 0x11432D8F, 0x22FE6988,
     0x438A5BB8, 0x017AA3EA, 0xDC20F53C, 0xA32C1D59, 0xF4EB3A99, 0x9F6B309D, 0x475AF4D1, 0x04AE709E,
     0x6FE7FEB6, 0x88F92195, 0x80DD47EF, 0xEC247FDE, 0xD1E7C920, 0xAE103B8D, 0x98C6AD6B, 0x66B44C42,
     0x26ACADFF, 0x17CE770A, 0xEC52610A, 0x8EA29C91, 0x9ADA9EB5, 0x68EAB2A2, 0x0D7CFF0C, 0xF34510D5,
     0x0CA1C747, 0xAFF5CB59, 0xEDBD3DC8, 0x35E3FEBA],
    [0x23043D95, 0xADF7E880, 0xF5A289A7, 0x08CE1221, 0xD8033158, 0x655D4342, 0xF8F100BC, 0xAEB91981,
     0x2A2F6A37, 0xAF532EE8, 0x3637E85F, 0x26FF1DB0, 0x9C04E33B, 0x001EA45F, 0xBFF4AD80, 0xBE0EFADB,
     0x3F4E1699, 0x4AC015FF, 0xCE944991, 0x657C86A4, 0x16237082, 0x69E66332, 0x081B6170, 0x616FBCEF,
     0xAA62AB9A, 0xD722D78F, 0x74CA0624, 0xA6CA8341, 0x9FFD9230, 0x29A59196, 0x533E5573, 0xD4DF9963,
     0x6171440E, 0x0ECC85CF, 0xCB2B959C, 0x89654A9F, 0x4CA1C101, 0xB55C326C, 0xF6D7614C, 0x380EED0C,
     0x51AC69B0, 0x6199E925, 0xCAAB12F6, 0x1B3AB589],
    [0xFD749ED4, 0xB798E530, 0x33904B6F, 0x46BDA85E, 0x076934B4, 0x454B4058, 0x77F74527, 0xFB4CF465,
     0x62931DA9, 0xE778C8DB, 0x22B3998E, 0xAC15CFB9, 0x58BCBAC4, 0xEC47A08E, 0xAEE933B2, 0xDFCBC824,
     0xA7944804, 0xBF65BDB0, 0x5A9D4502, 0x59979AF7, 0xC5CEA54E, 0x4B6B8150, 0x16E71909, 0x7D632319,
     0x930573A0, 0xF34C63D1, 0xCAF914B4, 0xFDD6612C, 0x61550878, 0x89EF2B75, 0xA1660C46, 0x7EF3855B,
     0x7297B58C, 0x1BC67793, 0x7FB1C723, 0xB66FC640, 0x1A48B71C, 0xF0976D17, 0x088CE80A, 0xA454EDF3,
     0x1C096BF4, 0xAC76224B, 0x5215781C, 0xCD5D2669],
    [0xA5201467, 0xA9B8D94A, 0xD4CED997, 0x68379D7B, 0xA7FC73BA, 0xF1A2546B, 0x606782BF, 0xE0BCFD0F,
     0x2F25374E, 0x069A149F, 0x5E2DFF25, 0xFAECF061, 0xEC9905D8, 0xF21850CF, 0xC0A746C8, 0x21DAD498,
     0x35156EEB, 0x088C97F2, 0x26303E40, 0x8A2D4FB5, 0xFEEE44B6, 0x8A1E9573, 0x7B81111A, 0xCBC139F0,
     0xA3513861, 0x1D2C362E, 0x918C580E, 0xB58E1B9C, 0xE4B573A1, 0x4C1A0880, 0x1E907C51, 0x04807EFD,
     0x3AD8CDE5, 0x16B21302, 0x02512C53, 0x2204CB18, 0x99405F2D, 0xE5B648A1, 0x70AB1D43, 0xA10C25C2,
     0x16F1AC05, 0x38BBEB56, 0x9B01DC60, 0xB1096D83],
    [0x52F84552, 0xE54B7999, 0x2D8EE3EC, 0xB9645191, 0xE0078B86, 0xBB7C44C9, 0xD2B5C1CA, 0xB0D2EB8C,
     0x14CE5A45, 0x22AF50DC, 0xEFFDBC6B, 0xEB21B74A, 0xB555C6EE, 0x3E710596, 0xA72A652F, 0x9301515F,
     0xDA28C1FA, 0x696FD868, 0x9CB6BF72, 0x0AFE4002, 0xA6E03615, 0x5138C1D4, 0xBE216306, 0xB38B8890,
     0x3EA8B96B, 0x3299ACE4, 0x30924DD4, 0x55CB34A5, 0xB405F031, 0xC4233EBA, 0xB3733979, 0xC0DD9D55,
     0xC51C28AE, 0xA327B8E1, 0x56C56167, 0xED614433, 0x88B59D60, 0x60E2CEBA, 0x758B4B8B, 0x83E82A7F,
     0xBC968828, 0xE6E00BF7, 0xBA839E55, 0x9B491C60],
    [0x66653F11, 0xF9446EDB, 0x3E8568FB, 0xE519F95A, 0xD6732054, 0xB2BDA0C5, 0x492F3CF8, 0x8FD63B96,
     0xB4EF4648, 0x7E5488E5, 0xA7ED170A, 0x5B25FA52, 0xBBC636A1, 0xB87FB1E3, 0xED8EED32, 0x6D10E8D5,
     0x34868338, 0x56EB9A07, 0x27C8D6ED, 0x0283EF48, 0x6B1AB349, 0x2619870B, 0xDDD0A56C, 0x7F72935B,
     0xD2B1A3C6, 0xD7DA5563, 0x58292E94, 0x363320A4, 0xB8904378, 0xBC37135F, 0x2FCFECEC, 0xC74DF052,
     0xB70F01DE, 0x523EB809, 0xD8E14A78, 0x181A659D, 0x90894E40, 0x48865BA0, 0x282C1F3F, 0x1C2488E9,
     0x0141B2E6, 0xFFD06EFB, 0xA1F15A68, 0xCFB06A87],
    [0x15FB76C8, 0x8BA3597D, 0x1B66A087, 0x65C5555B, 0x3962E239, 0x4EA9C7C7, 0x93D9671B, 0x3074B7BE,
     0xA224ED96, 0x38A8A88B, 0x9A515FEA, 0x125ADBD4, 0xF30E67D1, 0xCD0679E4, 0x0F373D5F, 0x1FCEF74D,
     0x5C80F3FB, 0xA6C70631, 0x0ECD6A69, 0x73885C8F, 0x1B77FE69, 0xD487D25A, 0xC027EED1, 0x3F31BD8F,
     0xE275F714, 0x92D07441, 0x5B70FF10, 0x177AE160, 0x6FCFA5FB, 0x67139322, 0x2D3109B2, 0x601A088C,
     0x293386A7, 0xF87584AB, 0x00862B83, 0x87EF6304, 0xF69DA436, 0x6AA88022, 0x09D1EC75, 0x8099B045,
     0x59F8B2DE, 0x343456A8, 0x91F66DAE, 0xAF1D30ED],
    [0x1BD5653A, 0x63D79468, 0xAE5166FA, 0x3FA0E9CC, 0x3578296E, 0xFFAA2881, 0xA07E89ED, 0xF38890CA,
     0x09111A9E, 0xF908F100, 0x8476444D, 0xFE33E1F8, 0x5B228C89, 0x1982F710, 0x0C51EE3E, 0xCC6C68EE,
     0x5629BF34, 0xCDEA4F9F, 0x203C3ECA, 0xE352E40A, 0x3FC6F380, 0x35E1DA2D, 0x8522A9DB, 0xB1DB66AE,
     0x07C002A7, 0xE495CA9B, 0x8D8B1D89, 0x1848DDFC, 0x2B5E7D26, 0x1F25F07D, 0x9B9E6378, 0x8DC9DDA7,
     0x44221A9D, 0x193A59CB, 0xBB7ACA55, 0x432325AB, 0x15CE4B4E, 0x6ED2B4DE, 0x42261A9F, 0x8DCADC14,
     0xEB49BC8E, 0xF566AEC0, 0x8A56D431, 0x216B0327],
    [0xC8FCA331, 0xE55C504E, 0x003EBF26, 0xBB6B8D83, 0x7B0448C1, 0x41B82789, 0x0A7C9601, 0x8D659CFF,
     0xB6E2673E, 0xCA54C77B, 0x1460FD7E, 0x3FCB8F2D, 0x527291FC, 0x2A16455F, 0x78E627E5, 0x944F169F,
     0x1CA6F016, 0xA854EA25, 0x8DB98ABE, 0xF2C62641, 0x30117DCB, 0xCF5C4309, 0x93711A25, 0xF9F671B8,
     0xB01D2116, 0x333F4B89, 0xB285D165, 0x86829B36, 0xF764B11A, 0x76172146, 0xCEF6934D, 0xC6D28399,
     0xFE095F61, 0x5E6018B4, 0x5048ECF5, 0x51353261, 0x6E6E36DC, 0x63130DAD, 0xA9C69BD6, 0x1E90EA0C,
     0x7C35073B, 0x28D95E6D, 0xAA340E0D, 0xCB3DEE70],
    [0x352E0FF3, 0x6AC9C045, 0x2DB4EF9C, 0x77FA2ABD, 0x338FDD70, 0x50534EFF, 0xFC4AEAD6, 0x7FD5E90F,
     0xD427A064, 0xAEEFEA00, 0xB2FE4468, 0xE0865D75, 0xFBA3A3EF, 0x426D3426, 0xC3B9AD71, 0x75BB8771,
     0x641F7D90, 0xA4D1C61E, 0x50B1078C, 0xDFD10A17, 0xCBF00300, 0x84931E03, 0xB3785FBB, 0xB2FE8C72,
     0xFBD8FFE0, 0x668069B2, 0x9389E26C, 0xA48A5538, 0xF4FEB4AD, 0x53794AD4, 0xC7646768, 0x95CA7E26,
     0x4826175D, 0xFA1862B5, 0x3D4FD63C, 0x18D1D0B3, 0x460F51F6, 0xB6B0FD70, 0xEB95B530, 0x36B38BC3,
     0x712EC1DD, 0xF1358202, 0x1C4B7E51, 0xF3B66BD6],
    [0x1D134615, 0xCE0B8376, 0x92A35944, 0x35D26466, 0x1DB7AEDE, 0xDD3C360C, 0xAF5D0BE3, 0x5A3A3E91,
     0x9F0C34CD, 0xF520D9D4, 0xDDA48EC5, 0x4D3AE612, 0x295698A4, 0x9240153D, 0xD6389B78, 0xC5CACDB0,
     0x2FBBFD90, 0x9F75A74A, 0x74DFABAC, 0xE79878CD, 0x741DB421, 0xF4B2D818, 0xA0534AD1, 0x21DB4895,
     0x06706D7D, 0xD4E49AE5, 0x55CEA19F, 0xB2EEF72C, 0x603BDEBA, 0xF3E69889, 0xA2F81607, 0xA7ECFE58,
     0x328401A7, 0x34056125, 0x275F0B5F, 0x73096110, 0xD1B17548, 0x6285F95B, 0xC6847C12, 0xB1B2CC4D,
     0xE39A4C46, 0x666CBA43, 0xBF67FEDD, 0x6E6A920D],
    [0xE12D27A7, 0x043FF4FC, 0x381D9D67, 0xEE7CFD88, 0xFAFDD1F4, 0x3FC132F0, 0x56D23777, 0xF1B02BFA,
     0x0F36802A, 0x5D56CF5A, 0x326F7F77, 0x15EC55C3, 0x2DBA88B8, 0x8E28E38F, 0x8415932B, 0x34BC9908,
     0x387AE120, 0x38805CB7, 0xECBD45D3, 0x09923083, 0x28077C3E, 0xCA2F47E3, 0x98AA2869, 0x55597017,
     0x9706DC5C, 0xD84853FA, 0x64B3D086, 0x2C175E1A, 0x42C658E1, 0x1948A0AC, 0xEEDD9CAE, 0xFD90CE89,
     0xCBE143C9, 0x5755D779, 0x6DC174EC, 0xBBBDC5FD, 0xD88C8760, 0xC052A9D6, 0x252D700E, 0x084A5959,
     0x78DC3463, 0x69C1402E, 0xEE5055CF, 0x5E909C8D],
    [0x20728DFD, 0x46C0BD53, 0xE782B699, 0x55304632, 0x71B4EF90, 0x0EA9E82C, 0xDBB930F1, 0xFAD06B8B,
     0xBE0CAE40, 0x8BD14410, 0x76D2ADAC, 0x28ACAB7F, 0xC1099CB7, 0x07B385F3, 0xE7442C26, 0xCC8AD640,
     0xEB6F56C7, 0x1EA81AA9, 0x73B9D314, 0x1DE85D08, 0x48910A5A, 0x893B22DB, 0xC5A0DF44, 0xBBC4324E,
     0x72D2F240, 0x75941D99, 0x6D8BDE82, 0xA1A7502B, 0xD9BF68D1, 0x58BAD750, 0x56028CB2, 0x8134F359,
     0xB5D469D8, 0x941A8CC2, 0x418B2A6E, 0x04052780, 0x7F07D787, 0x5194358F, 0x3C60D665, 0xBE97D79A,
     0x950C3434, 0xAED9A06D, 0x2537DC8D, 0x7CDB5969]]"

text \<open>\<open>shabal_init\<close>: an output size outside the table is not given a state.\<close>

definition shabal_init :: "shabal_context \<Rightarrow> nat \<Rightarrow> shabal_context option" where
  "shabal_init sc out_size =
     (let sc = sc\<lparr>sout_size := out_size\<rparr>; eax = out_size div 32 in
      if 1 \<le> eax \<and> eax \<le> 16
      then Some (sc\<lparr>sstate := \<lparr>xst = iv_table ! (eax - 1), xW = 1\<rparr>, sptr := 0\<rparr>)
      else None)"

text \<open>
  The addresses a call depends on: of the context structure, and of the stack at entry;
  and the previous contents of the stack areas the inner calls reserve.
\<close>

record asm_frame =
  fctx :: u64
  frsp :: u64
  fbx :: "nat \<Rightarrow> u32 list"

definition frame_copy :: "asm_frame \<Rightarrow> u64" where
  "frame_copy f = ((frsp f - 144) AND 0xFFFFFFFFFFFFFFC0) - 48"

definition align_structure_enter :: "u64 \<Rightarrow> u64 \<Rightarrow> u64" where
  "align_structure_enter rbp rdi = (if (rbp + 116) AND 63 = 0 then rbp + 72 else rdi)"

text \<open>
  The state the context holds after \<open>align_structure_leave\<close>, given the one it held and the
  one worked on at \<open>rsi\<close>: the test is \<open>testq\<close>, a bitwise conjunction of the addresses.
\<close>

definition align_structure_leave :: "u64 \<Rightarrow> u64 \<Rightarrow> asm_state \<Rightarrow> asm_state \<Rightarrow> asm_state" where
  "align_structure_leave rbp rsi old x =
     (let rdi = rbp + 72 in
      if rsi = rdi then x else if rsi AND rdi = 0 then old else x)"

definition shabal_partial :: "asm_frame \<Rightarrow> u64 \<Rightarrow> shabal_context \<Rightarrow> u8 list \<Rightarrow> nat \<Rightarrow>
    (shabal_context \<times> asm_state \<times> u8 list \<times> nat) option" where
  "shabal_partial f rdi sc data len =
     (let ecx = sptr sc; eax = 64 - ecx in
      if ecx = 0 then Some (sc, sstate sc, data, len)
      else let sc = sc\<lparr>sbuf := blit (sbuf sc) ecx (take eax data)\<rparr>
           in map_option (\<lambda>x. (sc, x, drop eax data, len - eax)) (shabal_inner (fbx f 0) rdi (sstate sc) (sbuf sc) 1))"

definition shabal_blocks :: "asm_frame \<Rightarrow> u64 \<Rightarrow> asm_state \<Rightarrow> u8 list \<Rightarrow> nat \<Rightarrow> (asm_state \<times> u8 list \<times> nat) option" where
  "shabal_blocks f rdi x data len =
     (let num = len div 64 in
      if num = 0 then Some (x, data, len)
      else map_option (\<lambda>x. (x, drop (64 * num) data, len mod 64)) (shabal_inner (fbx f 1) rdi x data num))"

definition shabal :: "asm_frame \<Rightarrow> shabal_context \<Rightarrow> u8 list \<Rightarrow> nat \<Rightarrow> shabal_context option" where
  "shabal f sc data len =
     (let ecx = sptr sc; eax = 64 - ecx in
      if len < eax then Some (sc\<lparr>sbuf := blit (sbuf sc) ecx (take len data), sptr := ecx + len\<rparr>)
      else
        let rdi = align_structure_enter (fctx f) (frame_copy f) in
        do {
          (sc, x, data, len) \<leftarrow> shabal_partial f rdi sc data len;
          (x, data, len) \<leftarrow> shabal_blocks f rdi x data len;
          Some (sc\<lparr>sbuf := blit (sbuf sc) 0 (take len data), sptr := len,
                  sstate := align_structure_leave (fctx f) rdi (sstate sc) x\<rparr>)
        })"

text \<open>
  The end of the message: \<open>stosb\<close> writes the extra byte at \<open>buf[ptr]\<close> and \<open>rep stosq\<close>
  zeros in quadwords after it, possibly over the field \<open>ptr\<close> (eight bytes at offset 64).
\<close>

definition close_byte :: "u32 \<Rightarrow> nat \<Rightarrow> u8" where
  "close_byte ub n = (let eax = drop_bit n (0x80 :: u32); edx = ub OR eax in ucast ((- eax) AND edx))"

definition close_zeros :: "nat \<Rightarrow> nat" where
  "close_zeros ptr = 8 * ((70 - ptr) div 8)"

definition close_pad :: "shabal_context \<Rightarrow> u32 \<Rightarrow> nat \<Rightarrow> shabal_context" where
  "close_pad sc ub n =
     (let ptr = sptr sc;
          mem = sbuf sc @ bytes64 (of_nat ptr);
          mem = mem[ptr := close_byte ub n];
          mem = blit mem (ptr + 1) (replicate (close_zeros ptr) 0)
      in sc\<lparr>sbuf := take 64 mem, sptr := unat (load64 (drop 64 mem))\<rparr>)"

definition close_round :: "asm_frame \<Rightarrow> u64 \<Rightarrow> u8 list \<Rightarrow> nat \<Rightarrow> asm_state \<Rightarrow> asm_state option" where
  "close_round f rdi buf i x =
     map_option (\<lambda>x. x\<lparr>xW := xW x - 1\<rparr>) (shabal_inner (fbx f i) rdi x buf 1)"

definition shabal_close :: "asm_frame \<Rightarrow> shabal_context \<Rightarrow> u32 \<Rightarrow> nat \<Rightarrow> u8 list option" where
  "shabal_close f sc ub n =
     (let sc = close_pad sc ub n;
          rdi = align_structure_enter (fctx f) (frame_copy f) in
      do {
        x \<leftarrow> close_round f rdi (sbuf sc) 0 (sstate sc);
        x \<leftarrow> close_round f rdi (sbuf sc) 1 x;
        x \<leftarrow> close_round f rdi (sbuf sc) 2 x;
        x \<leftarrow> close_round f rdi (sbuf sc) 3 x;
        Some (take (4 * (sout_size sc div 32)) (drop (176 - sout_size sc div 8) (concat (map bytes32 (xst x)))))
      })"

section \<open>The rounds are the permutation steps\<close>

definition asm_row_of :: "nat \<Rightarrow> asm_row" where
  "asm_row_of u = AsmRow (if u = 0 then None else Some (4 * (u + 15))) (4 * (u + 6))
     (4 + (u mod 16) div 4) (u mod 4) (4 * (u mod 12)) (4 * (u + 13)) (4 * (u + 9))
     (112 + 4 * ((8 + 15 * u) mod 16)) (4 * u)"

lemma asm_rows_regular: "asm_rows = map asm_row_of [0..<48]"
  by code_simp

text \<open>The stack area with the delayed store of round \<open>u - 1\<close> done.\<close>

definition settled :: "nat \<Rightarrow> asm_regs \<Rightarrow> u32 list" where
  "settled u r = (if u = 0 then rbx r else (rbx r)[u + 15 := recx r])"

definition asm_inv :: "u32 list \<Rightarrow> nat \<Rightarrow> asm_regs \<Rightarrow> u32 list \<times> u32 list \<Rightarrow> bool" where
  "asm_inv C u r AB \<longleftrightarrow>
     length (rst r) = 44 \<and> length (rbx r) = 64 \<and> length (fst AB) = 12 \<and> length (snd AB) = 16 \<and>
     take 12 (rst r) = fst AB \<and> drop 28 (rst r) = C \<and> reax r = fst AB ! ((u + 11) mod 12) \<and>
     (\<forall>i < 16. settled u r ! (u + i) = snd AB ! ((u + i) mod 16))"

lemma triple_word: "x + x * 2 = x * (3 :: u32)" "x + x * 4 = 5 * (x :: u32)"
  by (simp_all add: algebra_simps)

lemma mod_shift_neq:
  fixes u k n :: nat
  assumes "0 < k" "k < n"
  shows "(u + k) mod n \<noteq> u mod n"
proof
  assume "(u + k) mod n = u mod n"
  then have "n dvd u + k - u" using mod_eq_dvd_iff_nat [of u "u + k" n] by simp
  then show False using assms nat_dvd_not_less by simp
qed

lemma asm_inv_step:
  assumes inv: "asm_inv C u r (A, B)" and u: "u < 48"
    and M: "\<And>j. j < 16 \<Longrightarrow> M ! j = asm_movd xmm (4 + j div 4) (j mod 4)"
  shows "asm_inv C (Suc u) (asm_round xmm (asm_row_of u) r) (run_row spec_PP C M (spec_row u) (A, B))"
proof -
  have l: "length (rst r) = 44" "length (rbx r) = 64" "length A = 12" "length B = 16"
    and tA: "take 12 (rst r) = A" and dC: "drop 28 (rst r) = C" and eax: "reax r = A ! ((u + 11) mod 12)"
    and bx: "\<And>i. i < 16 \<Longrightarrow> settled u r ! (u + i) = B ! ((u + i) mod 16)"
    using inv by (auto simp: asm_inv_def)
  let ?S = "settled u r"
  have lS: "length ?S = 64" using l by (simp add: settled_def)
  have bxr: "(case (if u = 0 then None else Some (4 * (u + 15))) of None \<Rightarrow> rbx r
      | Some off \<Rightarrow> (rbx r)[off div 4 := recx r]) = ?S"
    by (simp add: settled_def)
  have a: "rst r ! (u mod 12) = A ! (u mod 12)"
    using tA by (metis mod_less_divisor nth_take zero_less_numeral)
  have c: "rst r ! (28 + (8 + 15 * u) mod 16) = C ! ((8 + 15 * u) mod 16)"
    using dC l by (simp flip: dC)
  have x: "?S ! (u + 13) = B ! ((u + 13) mod 16)" "?S ! (u + 9) = B ! ((u + 9) mod 16)"
    "?S ! (u + 6) = B ! ((u + 6) mod 16)" "?S ! u = B ! (u mod 16)"
    using bx [of 13] bx [of 9] bx [of 6] bx [of 0] by simp_all
  have m: "asm_movd xmm (4 + u mod 16 div 4) (u mod 4) = M ! (u mod 16)"
    using M [of "u mod 16"] by (simp add: mod_mod_cancel)
  obtain a' b' where P: "spec_PP (A ! (u mod 12)) (A ! ((u + 11) mod 12)) (B ! (u mod 16)) (B ! ((u + 13) mod 16))
      (B ! ((u + 9) mod 16)) (B ! ((u + 6) mod 16)) (C ! ((8 + 15 * u) mod 16)) (M ! (u mod 16)) = (a', b')"
    by fastforce
  have d: "4 * n div 4 = n" "(112 + 4 * n) div 4 = 28 + n" for n :: nat by simp_all
  have R: "asm_round xmm (asm_row_of u) r =
      \<lparr>reax = a', recx = b', rst = (rst r)[u mod 12 := a'], rbx = ?S\<rparr>"
    using P unfolding asm_row_of_def asm_round.simps bxr Let_def d x a c m eax
    by (auto simp: spec_PP_def Let_def rotl32_not triple_word ac_simps)
  have S: "run_row spec_PP C M (spec_row u) (A, B) = (A[u mod 12 := a'], B[u mod 16 := b'])"
    using P by (simp add: spec_row_def)
  have e: "(Suc u + 11) mod 12 = u mod 12" by presburger
  have S': "settled (Suc u) (asm_round xmm (asm_row_of u) r) = ?S[u + 16 := b']"
    by (simp add: R settled_def add.commute)
  have s: "?S[u + 16 := b'] ! (Suc u + i) = B[u mod 16 := b'] ! ((Suc u + i) mod 16)"
    if i: "i < 16" for i
  proof (cases "i = 15")
    case True
    then have k: "Suc u + i = u + 16" "(u + 16) mod 16 = u mod 16" by simp_all
    have "?S[u + 16 := b'] ! (u + 16) = b'" "B[u mod 16 := b'] ! (u mod 16) = b'"
      using lS u l by simp_all
    then show ?thesis by (simp only: k)
  next
    case False
    then have "(u + Suc i) mod 16 \<noteq> u mod 16" "u + 16 \<noteq> Suc u + i"
      using i mod_shift_neq [of "Suc i" 16 u] by simp_all
    then have "(Suc u + i) mod 16 \<noteq> u mod 16" "u + 16 \<noteq> Suc u + i" by simp_all
    moreover have "?S ! (Suc u + i) = B ! ((Suc u + i) mod 16)"
      using bx [of "Suc i"] False i by (simp only: add_Suc add_Suc_right)
    ultimately show ?thesis by (metis nth_list_update_neq)
  qed
  have f: "length (rst (asm_round xmm (asm_row_of u) r)) = 44" "length (rbx (asm_round xmm (asm_row_of u) r)) = 64"
    "take 12 (rst (asm_round xmm (asm_row_of u) r)) = A[u mod 12 := a']"
    "drop 28 (rst (asm_round xmm (asm_row_of u) r)) = C" "reax (asm_round xmm (asm_row_of u) r) = a'"
    using l lS tA dC by (simp_all add: R take_update_swap drop_update_cancel)
  show ?thesis
    unfolding asm_inv_def e S S' fst_conv snd_conv f
    using s l by simp
qed

lemma asm_inv_rounds:
  assumes inv: "asm_inv C 0 r (A, B)" and M: "\<And>j. j < 16 \<Longrightarrow> M ! j = asm_movd xmm (4 + j div 4) (j mod 4)"
    and n: "n \<le> 48"
  shows "asm_inv C n (fold (asm_round xmm) (map asm_row_of [0..<n]) r)
    (run_rows spec_PP C M (map spec_row [0..<n]) (A, B))"
  using n
proof (induction n)
  case 0
  then show ?case using inv by (simp add: run_rows_def)
next
  case (Suc n)
  obtain A' B' where AB: "run_rows spec_PP C M (map spec_row [0..<n]) (A, B) = (A', B')" by fastforce
  then show ?case
    using Suc asm_inv_step [OF _ _ M, of C n "fold (asm_round xmm) (map asm_row_of [0..<n]) r" A' B']
    by (simp add: run_rows_def)
qed

section \<open>The vector blocks\<close>

lemma lane4_load [lane_simps]: "lane4 k (movdq_load st off) = st ! (off div 4 + k mod 4)"
proof -
  have "k mod 4 < 4" by simp
  then consider "k mod 4 = 0" | "k mod 4 = 1" | "k mod 4 = 2" | "k mod 4 = 3" by linarith
  then show ?thesis
    by cases (simp_all add: lane4_def movdq_load_def numeral_2_eq_2 numeral_3_eq_3)
qed

lemma lane4_msg [lane_simps]: "j < 4 \<Longrightarrow> lane4 k (asm_msg buf ! j) = block_words buf ! (4 * j + k mod 4)"
proof -
  assume j: "j < 4"
  have "k mod 4 < 4" by simp
  then consider "k mod 4 = 0" | "k mod 4 = 1" | "k mod 4 = 2" | "k mod 4 = 3" by linarith
  then show ?thesis
    using j by cases (simp_all add: lane4_def asm_msg_def block_words_def numeral_2_eq_2 numeral_3_eq_3
      algebra_simps)
qed

lemma asm_movd_msg: "j < 16 \<Longrightarrow> block_words buf ! j = asm_movd (asm_msg buf) (4 + j div 4) (j mod 4)"
  using lane4_msg [of "j div 4" "j mod 4" buf] by (simp add: asm_movd_def)

lemma nth_movdq_store [lane_simps]:
  assumes "off div 4 + 4 \<le> length st" "i < length st"
  shows "movdq_store off v st ! i = (if off div 4 \<le> i \<and> i < off div 4 + 4 then lane4 (i - off div 4) v else st ! i)"
  using assms by (auto simp: movdq_store_def nth_blit lane4_def)

lemma length_movdq_store [simp]: "off div 4 + 4 \<le> length st \<Longrightarrow> length (movdq_store off v st) = length st"
  by (simp add: movdq_store_def)

lemma lane4_pslldq4 [lane_simps]: "lane4 k (pslldq4 v) = (if k mod 4 = 0 then 0 else lane4 (k mod 4 - 1) v)"
proof -
  have "k mod 4 < 4" by simp
  then consider "k mod 4 = 0" | "k mod 4 = 1" | "k mod 4 = 2" | "k mod 4 = 3" by linarith
  then show ?thesis
    by cases (cases v; simp add: lane4_def numeral_2_eq_2 numeral_3_eq_3)+
qed

lemma asm_sub_m_nth:
  assumes "length st = 44"
  shows "length (asm_sub_m (asm_msg buf) st) = 44"
    and "i < 44 \<Longrightarrow> asm_sub_m (asm_msg buf) st ! i =
      (if 12 \<le> i \<and> i < 28 then st ! (16 + i) - block_words buf ! (i - 12) else st ! i)"
proof -
  show "length (asm_sub_m (asm_msg buf) st) = 44" using assms by (simp add: asm_sub_m_def Let_def)
  assume "i < 44"
  moreover consider "i < 12" | "12 \<le> i \<and> i < 16" | "16 \<le> i \<and> i < 20" | "20 \<le> i \<and> i < 24" | "24 \<le> i \<and> i < 28" | "28 \<le> i"
    by linarith
  ultimately show "asm_sub_m (asm_msg buf) st ! i =
      (if 12 \<le> i \<and> i < 28 then st ! (16 + i) - block_words buf ! (i - 12) else st ! i)"
    using assms by cases (simp_all add: asm_sub_m_def Let_def lane_simps)
qed

lemma asm_new_c_nth:
  assumes "length st = 44" "length bx = 64"
  shows "length (asm_new_c bx st) = 44"
    and "i < 44 \<Longrightarrow> asm_new_c bx st ! i = (if 28 \<le> i then bx ! (20 + i) else st ! i)"
proof -
  show "length (asm_new_c bx st) = 44" using assms by (simp add: asm_new_c_def)
  assume "i < 44"
  moreover consider "i < 28" | "28 \<le> i \<and> i < 32" | "32 \<le> i \<and> i < 36" | "36 \<le> i \<and> i < 40" | "40 \<le> i \<and> i < 44" | "44 \<le> i"
    by linarith
  ultimately show "asm_new_c bx st ! i = (if 28 \<le> i then bx ! (20 + i) else st ! i)"
    using assms by cases (simp_all add: asm_new_c_def lane_simps)
qed

lemma run_adds_nth:
  assumes "i < length A"
  shows "run_adds (+) C js A ! i = foldl (+) (A ! i) (map ((!) C \<circ> snd) (filter (\<lambda>j. fst j = i) js))"
  using assms unfolding run_adds_def
  by (induction js arbitrary: A) (auto split: prod.splits)

lemma spec_adds_terms: "i < 12 \<Longrightarrow> filter (\<lambda>j. fst j = i) spec_adds =
   [(i, (i + 11) mod 16 ), (i, (i + 15) mod 16), (i, i + 3)]"
proof -
  have "\<forall>i \<in> set [0..<12]. filter (\<lambda>j. fst j = i) spec_adds =
      [(i, (i + 11) mod 16), (i, (i + 15) mod 16), (i, i + 3)]"
    by code_simp
  then show "i < 12 \<Longrightarrow> ?thesis" by simp
qed

lemma nat_12_cases:
  fixes i :: nat
  shows "i = 0 \<or> i = 1 \<or> i = 2 \<or> i = 3 \<or> i = 4 \<or> i = 5 \<or> i = 6 \<or> i = 7 \<or> i = 8 \<or>
    i = 9 \<or> i = 10 \<or> i = 11 \<or> 12 \<le> i"
  by presburger

lemma asm_add_c_nth:
  assumes "length st = 44"
  shows "length (asm_add_c st) = 44"
    and "i < 44 \<Longrightarrow> asm_add_c st ! i =
      (if i < 12 then run_adds (+) (drop 28 st) spec_adds (take 12 st) ! i else st ! i)"
proof -
  show "length (asm_add_c st) = 44" using assms by (simp add: asm_add_c_def Let_def)
  assume i: "i < 44"
  have r: "run_adds (+) (drop 28 st) spec_adds (take 12 st) ! i =
      st ! i + st ! (28 + (i + 11) mod 16) + st ! (28 + (i + 15) mod 16) + st ! (31 + i)" if "i < 12"
    using that assms by (simp add: run_adds_nth spec_adds_terms comp_def add.commute)
  from nat_12_cases [of i] show "asm_add_c st ! i =
      (if i < 12 then run_adds (+) (drop 28 st) spec_adds (take 12 st) ! i else st ! i)"
    by (elim disjE) (use i r assms in \<open>simp_all add: asm_add_c_def Let_def lane_simps\<close>,
      use i r assms in \<open>simp_all add: lane4_def numeral_2_eq_2 ac_simps\<close>)
qed

lemma asm_rotate_in_nth:
  assumes "length st = 44" "length bx = 64"
  shows "length (asm_rotate_in (asm_msg buf) st bx) = 64"
    and "i < 16 \<Longrightarrow> asm_rotate_in (asm_msg buf) st bx ! i = rotl32 17 (st ! (12 + i) + block_words buf ! i)"
proof -
  have u: "[0..<4] = [0, 1, 2, 3 :: nat]" by (simp add: upt_rec)
  show "length (asm_rotate_in (asm_msg buf) st bx) = 64" using assms by (simp add: asm_rotate_in_def Let_def u)
  have m: "(i - c) mod 4 = i - c" if "c \<le> i" "i < c + 4" for c using that by simp
  assume "i < 16"
  then consider "i < 4" | "4 \<le> i \<and> i < 8" | "8 \<le> i \<and> i < 12" | "12 \<le> i \<and> i < 16"
    by linarith
  then show "asm_rotate_in (asm_msg buf) st bx ! i = rotl32 17 (st ! (12 + i) + block_words buf ! i)"
    using assms by cases (simp_all add: m asm_rotate_in_def Let_def u lane_simps rotl32_def or.commute)
qed


section \<open>The assembly block is the reference block\<close>

definition asm_view :: "asm_state \<Rightarrow> shabal_state" where
  "asm_view x = \<lparr>stA = take 12 (xst x), stB = take 16 (drop 12 (xst x)), stC = drop 28 (xst x), stW = xW x\<rparr>"

definition asm_ok :: "asm_state \<Rightarrow> bool" where
  "asm_ok x \<longleftrightarrow> length (xst x) = 44"

lemma asm_block_correct:
  assumes ok: "asm_ok x" and lb: "length bx = 64" and e: "asm_block buf (x, bx) = (x', bx')"
  shows "asm_view x' = spec_block (asm_view x) buf" "asm_ok x'" "length bx' = 64"
proof -
  let ?M = "block_words buf" and ?C = "drop 28 (xst x)"
  define b0 where "b0 = asm_rotate_in (asm_msg buf) (xst x) bx"
  define st where "st = (xst x)[0 := xst x ! 0 XOR lo32 (xW x), 1 := xst x ! 1 XOR hi32 (xW x)]"
  define r0 where "r0 = \<lparr>reax = st ! 11, recx = 0, rst = st, rbx = b0\<rparr>"
  define r where "r = fold (asm_round (asm_msg buf)) (map asm_row_of [0..<48]) r0"
  define A0 where "A0 = take 12 st"
  define B0 where "B0 = map (rotl32 17) (map2 (+) (take 16 (drop 12 (xst x))) ?M)"
  obtain A B where AB: "run_rows spec_PP ?C ?M spec_rows (A0, B0) = (A, B)" by fastforce
  have lx: "length (xst x) = 44" using ok by (simp add: asm_ok_def)
  have lst: "length st = 44" "drop 28 st = ?C" using lx by (simp_all add: st_def)
  note b0 = asm_rotate_in_nth [OF lx lb, where buf = buf, folded b0_def]
  have "asm_inv ?C 0 r0 (A0, B0)"
    using lx lst b0 by (simp add: asm_inv_def r0_def A0_def B0_def settled_def)
  then have "asm_inv ?C 48 r (run_rows spec_PP ?C ?M (map spec_row [0..<48]) (A0, B0))"
    unfolding r_def by (rule asm_inv_rounds) (simp_all add: asm_movd_msg)
  then have inv: "asm_inv ?C 48 r (A, B)" using AB by (simp add: spec_rows_def)
  define bx2 where "bx2 = (rbx r)[63 := recx r]"
  have m48: "(48 + i) mod 16 = i" if "i < 16" for i :: nat
    using that by (simp add: mod_add_eq [of 48 16 i, symmetric])
  have lr: "length (rst r) = 44" "length bx2 = 64" "length A = 12" "length B = 16"
    and rA: "take 12 (rst r) = A" and rC: "drop 28 (rst r) = ?C"
    and rB: "\<And>i. i < 16 \<Longrightarrow> bx2 ! (48 + i) = B ! i"
    using inv m48 by (auto simp: asm_inv_def settled_def bx2_def)
  define s1 where "s1 = asm_sub_m (asm_msg buf) (rst r)"
  define s2 where "s2 = asm_add_c s1"
  define s3 where "s3 = asm_new_c bx2 s2"
  note s1 = asm_sub_m_nth [OF lr(1), where buf = buf, folded s1_def]
  note s2 = asm_add_c_nth [OF s1(1), folded s2_def]
  note s3 = asm_new_c_nth [OF s2(1) lr(2), folded s3_def]
  have x': "x' = \<lparr>xst = s3, xW = xW x + 1\<rparr>" "bx' = bx2"
    using e by (auto simp: asm_block_def Let_def asm_rows_regular s3_def s2_def s1_def bx2_def r_def
      r0_def st_def b0_def)
  have s1A: "take 12 s1 = A" "drop 28 s1 = ?C"
  proof -
    have "take 12 s1 = take 12 (rst r)" "drop 28 s1 = drop 28 (rst r)"
      using s1 lr(1) by (auto intro!: nth_equalityI)
    then show "take 12 s1 = A" "drop 28 s1 = ?C" by (simp_all only: rA rC)
  qed
  have "take 12 s3 = take 12 s2" using s2 s3 by (auto intro!: nth_equalityI)
  also have "\<dots> = run_adds (+) (drop 28 s1) spec_adds (take 12 s1)"
    using s1 s2 by (auto intro!: nth_equalityI)
  finally have A: "take 12 s3 = run_adds (+) ?C spec_adds A" by (simp only: s1A)
  have c: "rst r ! (28 + i) = ?C ! i" for i
    using lr(1) lx by (simp only: rC [symmetric]) simp
  have B: "take 16 (drop 12 s3) = map2 (-) ?C ?M"
  proof (rule nth_equalityI)
    fix i assume "i < length (take 16 (drop 12 s3))"
    then have i: "i < 16" using s3(1) by simp
    then have "s3 ! (12 + i) = rst r ! (28 + i) - ?M ! i"
      using s1 s2 s3 by simp
    then show "take 16 (drop 12 s3) ! i = map2 (-) ?C ?M ! i"
      using i c s3(1) lx by simp
  qed (use s3 lx in simp)
  have C: "drop 28 s3 = B"
  proof (rule nth_equalityI)
    fix i assume "i < length (drop 28 s3)"
    then have i: "i < 16" using s3(1) by simp
    then have "s3 ! (28 + i) = bx2 ! (48 + i)" using s3(2) by simp
    then show "drop 28 s3 ! i = B ! i" using i rB s3(1) by simp
  qed (use s3 lr in simp)
  have A0: "A0 = (take 12 (xst x))[0 := take 12 (xst x) ! 0 XOR lo32 (xW x), 1 := take 12 (xst x) ! 1 XOR hi32 (xW x)]"
    by (simp add: A0_def st_def take_update_swap)
  show "asm_view x' = spec_block (asm_view x) buf"
    unfolding x' asm_view_def spec_block_def Let_def shabal_state.simps asm_state.simps A0 [symmetric]
      B0_def [symmetric] AB
    using A B C by simp
  show "asm_ok x'" "length bx' = 64" using s3 lr by (simp_all add: x' asm_ok_def)
qed

lemma asm_loop_correct:
  assumes "asm_ok x" "length bx = 64" "0 < n"
  shows "\<exists>x' bx'. asm_loop n buf (x, bx) = Some (x', bx') \<and> asm_view x' = spec_blocks n (asm_view x) buf \<and> asm_ok x'"
  using assms
proof (induction n arbitrary: buf x bx)
  case (Suc n)
  obtain x1 bx1 where e: "asm_block buf (x, bx) = (x1, bx1)" by fastforce
  note b = asm_block_correct [OF Suc.prems(1,2) e]
  show ?case
    using Suc.IH [OF b(2,3)] b e by (cases "n = 0") (simp_all add: Let_def)
qed simp

lemma shabal_inner_correct:
  assumes "asm_ok x" "length bx = 64" "0 < n" "stt AND 15 = 0"
  obtains x' where "shabal_inner bx stt x buf n = Some x'" "asm_view x' = spec_blocks n (asm_view x) buf" "asm_ok x'"
  using asm_loop_correct [OF assms(1-3), of buf] assms(4) by (auto simp: shabal_inner_def)

section \<open>Alignment\<close>

lemma and_63_7: "x AND 63 = 0 \<Longrightarrow> x AND 7 = (0 :: u64)"
proof -
  assume h: "x AND 63 = 0"
  have "x AND 7 = (x AND 63) AND 7" by (simp add: and.assoc)
  also have "\<dots> = 0" unfolding h by simp
  finally show ?thesis .
qed

lemma enter_copies:
  assumes "c AND 7 = 0"
  shows "(c + 116) AND 63 \<noteq> (0 :: u64)"
proof
  assume "(c + 116) AND 63 = 0"
  then have "take_bit 3 (c + 116) = 0" using and_63_7 by (simp add: take_bit_eq_mask mask_eq_exp_minus_1)
  moreover have "take_bit 3 c = 0" using assms by (simp add: take_bit_eq_mask mask_eq_exp_minus_1)
  ultimately show False
    using take_bit_plus_word [of 3 c 116] by (simp add: take_bit_eq_mask mask_eq_exp_minus_1)
qed

lemma copy_aligned: "((s AND 0xFFFFFFFFFFFFFFC0) - 48) AND 15 = (0 :: u64)"
proof -
  let ?y = "s AND 0xFFFFFFFFFFFFFFC0"
  have "?y AND mask 4 = s AND (0xFFFFFFFFFFFFFFC0 AND mask 4)" by (simp only: and.assoc)
  then have y: "take_bit 4 ?y = 0" by (simp add: take_bit_eq_mask mask_eq_exp_minus_1)
  have "take_bit 4 (?y + - 48) = 0"
    using take_bit_plus_word [of 4 ?y "- 48"] y by (simp add: take_bit_eq_mask mask_eq_exp_minus_1)
  then show ?thesis
    by (simp add: take_bit_eq_mask mask_eq_exp_minus_1)
qed

section \<open>The initial state\<close>

lemma asm_iv_256: "asm_view \<lparr>xst = iv_table ! 7, xW = 1\<rparr> = spec_iv 256"
  by code_simp

section \<open>The entry points on the view\<close>

definition shabal_view :: "shabal_context \<Rightarrow> hash_view" where
  "shabal_view sc = \<lparr>vbuf = sbuf sc, vptr = sptr sc, vst = asm_view (sstate sc)\<rparr>"

text \<open>
  What a call needs of its addresses: the context aligned as its type is and stack areas of
  the right size (\<open>frame_base\<close>); an update also needs addresses of context and stack copy
  that share a bit, without which \<open>align_structure_leave\<close> drops the new state.
\<close>

definition frame_base :: "asm_frame \<Rightarrow> bool" where
  "frame_base f \<longleftrightarrow> fctx f AND 7 = 0 \<and> (\<forall>i. length (fbx f i) = 64)"

definition frame_ok :: "asm_frame \<Rightarrow> bool" where
  "frame_ok f \<longleftrightarrow> frame_base f \<and> frame_copy f AND (fctx f + 72) \<noteq> 0"

lemma frame_ok_base: "frame_ok f \<Longrightarrow> frame_base f"
  by (simp add: frame_ok_def)

lemma frame_enter: "frame_base f \<Longrightarrow> align_structure_enter (fctx f) (frame_copy f) = frame_copy f"
  using enter_copies [of "fctx f"] by (simp add: frame_base_def align_structure_enter_def)

lemma frame_leave: "frame_ok f \<Longrightarrow> align_structure_leave (fctx f) (frame_copy f) old x = x"
  by (simp add: frame_ok_def align_structure_leave_def Let_def)

lemma frame_inner:
  assumes "frame_base f" "asm_ok x" "0 < n"
  obtains x' where "shabal_inner (fbx f i) (frame_copy f) x buf n = Some x'"
    "asm_view x' = spec_blocks n (asm_view x) buf" "asm_ok x'"
  using shabal_inner_correct [OF assms(2) _ assms(3), of "fbx f i" "frame_copy f" buf] assms(1) copy_aligned
  by (auto simp: frame_base_def frame_copy_def)

lemma shabal_partial_view:
  assumes f: "frame_base f" and ok: "asm_ok (sstate sc)" and len: "len \<le> length data" "64 - sptr sc \<le> len"
  obtains sc' x d l where "shabal_partial f (frame_copy f) sc data len = Some (sc', x, d, l)"
    "view_fill (shabal_view sc) (take len data) = (\<lparr>vbuf = sbuf sc', vptr = sptr sc, vst = asm_view x\<rparr>, take l d)"
    "asm_ok x" "l \<le> length d" "sout_size sc' = sout_size sc"
proof (cases "sptr sc = 0")
  case True
  then show ?thesis
    using that [of sc "sstate sc" data len] ok len
    by (simp add: shabal_partial_def view_fill_def shabal_view_def)
next
  case False
  let ?c = "64 - sptr sc"
  let ?b = "blit (sbuf sc) (sptr sc) (take ?c data)"
  have one: "0 < (1::nat)" by simp
  obtain x where x: "shabal_inner (fbx f 0) (frame_copy f) (sstate sc) ?b 1 = Some x"
    "asm_view x = spec_blocks 1 (asm_view (sstate sc)) ?b" "asm_ok x"
    by (rule frame_inner [OF f ok one])
  have t: "take ?c (take len data) = take ?c data" using len by (simp add: min_def)
  show ?thesis
    using that [of "sc\<lparr>sbuf := ?b\<rparr>" x "drop ?c data" "len - ?c"] x False len
    by (simp add: shabal_partial_def view_fill_def shabal_view_def Let_def t drop_take)
qed

lemma shabal_blocks_view:
  assumes f: "frame_base f" and ok: "asm_ok x" and len: "len \<le> length data"
  obtains x' d l where "shabal_blocks f (frame_copy f) x data len = Some (x', d, l)"
    "asm_view x' = spec_blocks (len div 64) (asm_view x) (take len data)"
    "asm_ok x'" "take l d = drop (64 * (len div 64)) (take len data)" "l = len mod 64" "l \<le> length d"
proof (cases "len div 64 = 0")
  case True
  moreover have "len mod 64 = len" using True by (simp add: div_eq_0_iff)
  ultimately show ?thesis
    using that [of x data len] ok len by (simp add: shabal_blocks_def)
next
  case False
  let ?n = "len div 64"
  have b: "64 * ?n \<le> len" by simp
  have s: "spec_blocks ?n st (take len data) = spec_blocks ?n st data" for st
    using spec_blocks_take [OF b len] .
  from False have n: "0 < ?n" by simp
  obtain x' where x: "shabal_inner (fbx f 1) (frame_copy f) x data ?n = Some x'"
    "asm_view x' = spec_blocks ?n (asm_view x) data" "asm_ok x'"
    by (rule frame_inner [OF f ok n])
  have l: "len mod 64 \<le> length (drop (64 * ?n) data)"
    using len b minus_mult_div_eq_mod [of len 64] by simp
  show ?thesis
    using that [of x' "drop (64 * ?n) data" "len mod 64"] x False len s l
    by (simp add: shabal_blocks_def Let_def drop_take minus_mult_div_eq_mod)
qed

lemma shabal_update_view:
  assumes f: "frame_ok f" and ok: "asm_ok (sstate sc)" and p: "sptr sc < 64" and len: "len \<le> length data"
  obtains sc' where "shabal f sc data len = Some sc'"
    "shabal_view sc' = view_update (shabal_view sc) (take len data)"
    "asm_ok (sstate sc')" "sout_size sc' = sout_size sc"
proof (cases "len < 64 - sptr sc")
  case True
  have "len div 64 = 0" using True by simp
  then show ?thesis
    using that [of "sc\<lparr>sbuf := blit (sbuf sc) (sptr sc) (take len data), sptr := sptr sc + len\<rparr>"] True ok len
    by (cases "sptr sc = 0") (simp_all add: shabal_def shabal_view_def view_update_def view_fill_def view_rest_def
      Let_def min_absorb2)
next
  case False
  then have full: "64 - sptr sc \<le> len" by simp
  obtain sc1 x1 d1 l1 where h: "shabal_partial f (frame_copy f) sc data len = Some (sc1, x1, d1, l1)"
    "view_fill (shabal_view sc) (take len data) = (\<lparr>vbuf = sbuf sc1, vptr = sptr sc, vst = asm_view x1\<rparr>, take l1 d1)"
    "asm_ok x1" "l1 \<le> length d1" "sout_size sc1 = sout_size sc"
    by (rule shabal_partial_view [OF frame_ok_base [OF f] ok len full])
  obtain x2 d2 l2 where t: "shabal_blocks f (frame_copy f) x1 d1 l1 = Some (x2, d2, l2)"
    "asm_view x2 = spec_blocks (l1 div 64) (asm_view x1) (take l1 d1)"
    "asm_ok x2" "take l2 d2 = drop (64 * (l1 div 64)) (take l1 d1)" "l2 = l1 mod 64" "l2 \<le> length d2"
    by (rule shabal_blocks_view [OF frame_ok_base [OF f] h(3,4)])
  have l2: "length (drop (64 * (l1 div 64)) (take l1 d1)) = l2"
    using h(4) t(5) by (simp add: minus_mult_div_eq_mod)
  have "\<not> (vptr (shabal_view sc) \<noteq> 0 \<and> length (take len data) < 64 - vptr (shabal_view sc))"
    using full len by (simp add: shabal_view_def)
  then have u: "view_update (shabal_view sc) (take len data) =
      view_rest \<lparr>vbuf = sbuf sc1, vptr = sptr sc, vst = asm_view x1\<rparr> (take l1 d1)"
    by (auto simp: view_update_def h(2))
  let ?sc = "sc1\<lparr>sbuf := blit (sbuf sc1) 0 (take l2 d2), sptr := l2, sstate := x2\<rparr>"
  have "shabal_view ?sc = view_update (shabal_view sc) (take len data)"
    unfolding u using h(4) t l2 by (simp add: shabal_view_def view_rest_def Let_def min_absorb2)
  moreover have "shabal f sc data len = Some ?sc"
    using False h(1) t(1) by (simp add: shabal_def Let_def frame_enter [OF frame_ok_base [OF f]] frame_leave [OF f])
  ultimately show ?thesis
    using that h(5) t(3) by simp
qed


text \<open>Without a common bit, an update that runs a block is lost.\<close>

lemma shabal_update_dropped:
  assumes f: "frame_base f" "frame_copy f AND (fctx f + 72) = 0" and ok: "asm_ok (sstate sc)"
    and len: "len \<le> length data" "64 - sptr sc \<le> len"
  shows "\<exists>sc'. shabal f sc data len = Some sc' \<and> sstate sc' = sstate sc"
proof -
  obtain sc1 x1 d1 l1 where h: "shabal_partial f (frame_copy f) sc data len = Some (sc1, x1, d1, l1)"
    "asm_ok x1" "l1 \<le> length d1"
    by (rule shabal_partial_view [OF f(1) ok len])
  obtain x2 d2 l2 where t: "shabal_blocks f (frame_copy f) x1 d1 l1 = Some (x2, d2, l2)"
    by (rule shabal_blocks_view [OF f(1) h(2,3)])
  have "sstate sc1 = sstate sc"
    using h(1) by (auto simp: shabal_partial_def Let_def split: if_splits)
  moreover have "frame_copy f \<noteq> fctx f + 72"
  proof
    assume e: "frame_copy f = fctx f + 72"
    then have "frame_copy f = 0" using f(2) by simp
    have "frame_copy f = ((frsp f - 144) AND 0xFFFFFFFFFFFFFFC0) - 48" by (simp add: frame_copy_def)
    then have y: "(frsp f - 144) AND 0xFFFFFFFFFFFFFFC0 = 48" using \<open>frame_copy f = 0\<close> by simp
    then have "((frsp f - 144) AND 0xFFFFFFFFFFFFFFC0) AND 0x3F = 48 AND 0x3F" by simp
    then show False by (simp add: and.assoc)
  qed
  ultimately show ?thesis
    using len(2) h(1) t
    by (simp add: shabal_def Let_def frame_enter [OF f(1)] align_structure_leave_def f(2))
qed

text \<open>In place the state words would be misaligned for \<open>movdqa\<close>.\<close>

lemma in_place_faults:
  assumes "(c + 116) AND 63 = (0 :: u64)"
  shows "(c + 72) AND 15 \<noteq> 0"
proof
  assume "(c + 72) AND 15 = 0"
  then have t: "take_bit 4 (c + 72) = 0" by (simp add: take_bit_eq_mask mask_eq_exp_minus_1)
  have "(c + 116) AND 15 = 0"
  proof -
    have "(c + 116) AND 15 = ((c + 116) AND 63) AND 15" by (simp add: and.assoc)
    then show ?thesis using assms by simp
  qed
  moreover have "c + 72 + 44 = c + 116" by simp
  ultimately have "take_bit 4 (c + 72 + 44) = 0" by (simp only:) (simp add: take_bit_eq_mask mask_eq_exp_minus_1)
  then show False
    using t take_bit_plus_word [of 4 "c + 72" 44] by (simp add: take_bit_eq_mask mask_eq_exp_minus_1)
qed

section \<open>Closing\<close>

lemma close_byte_0 [simp]: "close_byte ub 0 = 0x80"
proof -
  have "(4294967168 :: u8) = 128" by simp
  then have "4294967168 AND ((x :: u8) OR 128) = 128" for x
    by (simp only: and.commute [of 128] word_ao_absorbs or.commute [of x 128])
  then show ?thesis
    by (simp add: close_byte_def unsigned_or_eq unsigned_and_eq)
qed

text \<open>The zero fill covers the block and stays below the state words at offset 72.\<close>

lemma close_zeros_bounds:
  assumes "ptr < 64"
  shows "64 \<le> ptr + 1 + close_zeros ptr" "ptr + 1 + close_zeros ptr \<le> 72"
proof -
  have "8 * ((70 - ptr) div 8) + (70 - ptr) mod 8 = 70 - ptr" by simp
  moreover have "(70 - ptr) mod 8 < 8" by simp
  ultimately show "64 \<le> ptr + 1 + close_zeros ptr" "ptr + 1 + close_zeros ptr \<le> 72"
    using assms unfolding close_zeros_def by linarith+
qed

lemma close_pad_block:
  assumes "length (sbuf sc) = 64" "sptr sc < 64"
  shows "sbuf (close_pad sc ub 0) = pad_block (take (sptr sc) (sbuf sc))"
    and "sstate (close_pad sc ub 0) = sstate sc" and "sout_size (close_pad sc ub 0) = sout_size sc"
proof -
  let ?p = "sptr sc" and ?z = "close_zeros (sptr sc)"
  let ?m = "(sbuf sc @ bytes64 (of_nat ?p))[?p := 0x80 :: u8]"
  have z: "64 \<le> ?p + 1 + ?z" "?p + 1 + ?z \<le> 72" using close_zeros_bounds [OF assms(2)] .
  have zz: "63 - ?p \<le> ?z" using z by linarith
  have "take (?p + 1) ?m = take ?p (sbuf sc) @ [0x80]"
    using assms by (simp add: take_Suc_conv_app_nth)
  then have "take 64 (blit ?m (?p + 1) (replicate ?z 0)) =
      take ?p (sbuf sc) @ [0x80] @ take (63 - ?p) (replicate ?z 0)"
    using assms z by (simp add: blit_def take_Cons')
  also have "\<dots> = pad_block (take ?p (sbuf sc))"
    using assms zz by (simp add: pad_block_def min_absorb1)
  finally show "sbuf (close_pad sc ub 0) = pad_block (take (sptr sc) (sbuf sc))"
    by (simp add: close_pad_def Let_def)
  show "sstate (close_pad sc ub 0) = sstate sc" "sout_size (close_pad sc ub 0) = sout_size sc"
    by (simp_all add: close_pad_def Let_def)
qed

lemma close_round_view:
  assumes f: "frame_base f" and ok: "asm_ok x"
  obtains x' where "close_round f (frame_copy f) buf i x = Some x'"
    "asm_view x' = spec_final_round buf (asm_view x)" "asm_ok x'"
proof -
  have one: "0 < (1::nat)" by simp
  obtain x' where x: "shabal_inner (fbx f i) (frame_copy f) x buf 1 = Some x'"
    "asm_view x' = spec_blocks 1 (asm_view x) buf" "asm_ok x'"
    by (rule frame_inner [OF f ok one])
  have "asm_view (x'\<lparr>xW := xW x' - 1\<rparr>) = (asm_view x')\<lparr>stW := stW (asm_view x') - 1\<rparr>"
    by (simp add: asm_view_def)
  then show ?thesis
    using that [of "x'\<lparr>xW := xW x' - 1\<rparr>"] x
    by (simp add: close_round_def spec_final_round_def asm_ok_def Let_def)
qed

lemma drop_concat_bytes32: "drop (4 * k) (concat (map bytes32 ws)) = concat (map bytes32 (drop k ws))"
proof (induction k arbitrary: ws)
  case (Suc k)
  then show ?case by (cases ws) simp_all
qed simp

lemma length_concat_bytes32: "length (concat (map bytes32 ws)) = 4 * length ws"
  by (induction ws) simp_all

lemma shabal_close_view:
  assumes f: "frame_base f" and ok: "asm_ok (sstate sc)" and b: "length (sbuf sc) = 64" "sptr sc < 64"
    and o: "sout_size sc = 32 * w" "w \<le> 16"
  shows "shabal_close f sc ub 0 = Some (view_close (sout_size sc) (shabal_view sc))"
proof -
  let ?blk = "pad_block (take (sptr sc) (sbuf sc))"
  note p = close_pad_block [OF b, of ub]
  obtain x1 where x1: "close_round f (frame_copy f) ?blk 0 (sstate sc) = Some x1"
    "asm_view x1 = spec_final_round ?blk (asm_view (sstate sc))" "asm_ok x1"
    by (rule close_round_view [OF f ok])
  obtain x2 where x2: "close_round f (frame_copy f) ?blk (Suc 0) x1 = Some x2"
    "asm_view x2 = spec_final_round ?blk (asm_view x1)" "asm_ok x2"
    by (rule close_round_view [OF f x1(3)])
  obtain x3 where x3: "close_round f (frame_copy f) ?blk 2 x2 = Some x3"
    "asm_view x3 = spec_final_round ?blk (asm_view x2)" "asm_ok x3"
    by (rule close_round_view [OF f x2(3)])
  obtain x4 where x4: "close_round f (frame_copy f) ?blk 3 x3 = Some x4"
    "asm_view x4 = spec_final_round ?blk (asm_view x3)" "asm_ok x4"
    by (rule close_round_view [OF f x3(3)])
  have fin: "asm_view x4 = spec_final ?blk (asm_view (sstate sc))"
    by (simp add: spec_final_def x1 x2 x3 x4 numeral_eq_Suc)
  have l: "length (xst x4) = 44" using x4(3) by (simp add: asm_ok_def)
  have d: "176 - 4 * w = 4 * (44 - w)" "44 - w = (16 - w) + 28" using o(2) by simp_all
  have "take (4 * w) (drop (176 - 4 * w) (concat (map bytes32 (xst x4)))) =
      concat (map bytes32 (drop (16 - w) (stC (asm_view x4))))"
    using l o(2) unfolding d by (simp add: drop_concat_bytes32 length_concat_bytes32 asm_view_def)
  then show ?thesis
    unfolding shabal_close_def Let_def frame_enter [OF f] p
    by (simp add: x1 x2 x3 x4 o view_close_def spec_output_def shabal_view_def fin [symmetric])
qed

section \<open>The contract\<close>

definition plain_frame :: asm_frame where
  "plain_frame = \<lparr>fctx = 64, frsp = 0x250, fbx = \<lambda>_. replicate 64 0\<rparr>"

text \<open>Every frame that satisfies \<open>frame_ok\<close>, and no other.\<close>

definition good_frame :: "asm_frame \<Rightarrow> asm_frame" where
  "good_frame f = (if frame_ok f then f else plain_frame)"

lemma frame_ok_good [simp]: "frame_ok (good_frame f)"
  by (simp add: good_frame_def frame_ok_def frame_base_def plain_frame_def frame_copy_def)

definition shabal_took :: "shabal_context option \<Rightarrow> u8 list \<Rightarrow> bool" where
  "shabal_took c msg \<longleftrightarrow>
     (\<exists>sc. c = Some sc \<and> asm_ok (sstate sc) \<and> sout_size sc = 256 \<and> absorbed 256 (shabal_view sc) msg)"

definition shabal_digest :: "asm_frame \<Rightarrow> shabal_context option \<Rightarrow> u8 list" where
  "shabal_digest f c = the (Option.bind c (\<lambda>sc. shabal_close f sc 0 0))"

lemma shabal_took_close:
  assumes t: "shabal_took (Some sc) m" and f: "frame_base f"
  shows "shabal_close f sc 0 0 = Some (shabal256 m)"
proof -
  have sc: "asm_ok (sstate sc)" "sout_size sc = 256" "absorbed 256 (shabal_view sc) m"
    using t by (auto simp: shabal_took_def)
  have b: "length (sbuf sc) = 64" "sptr sc < 64"
    using absorbed_bounds [OF sc(3)] by (simp_all add: shabal_view_def)
  show ?thesis
    using shabal_close_view [OF f sc(1) b, of 8 0] sc(2) absorbed_close [OF sc(3)] by simp
qed

interpretation asm: incremental_hash
  "shabal_init (sc\<lparr>sbuf := map b [0..<64]\<rparr>) 256" "\<lambda>c (f, d, len). Option.bind c (\<lambda>sc. shabal f sc d len)" "shabal_digest (good_frame f)"
  "\<lambda>(f, d, len). frame_ok f \<and> len \<le> length d" "\<lambda>(f, d, len). take len d"
  shabal_took shabal256 for sc f b
proof unfold_locales
  have "length (iv_table ! 7) = 44" by code_simp
  then show "shabal_took (shabal_init (sc\<lparr>sbuf := map b [0..<64]\<rparr>) 256) []"
    using asm_iv_256
    by (simp add: shabal_took_def shabal_init_def asm_ok_def shabal_view_def absorbed_Nil)
next
  fix c m and d :: "asm_frame \<times> u8 list \<times> nat"
  assume t: "shabal_took c m" and ok: "(\<lambda>(f, d, len). frame_ok f \<and> len \<le> length d) d"
  obtain f dd len where d: "d = (f, dd, len)" by (cases d)
  obtain sc where sc: "c = Some sc" "asm_ok (sstate sc)" "sout_size sc = 256" "absorbed 256 (shabal_view sc) m"
    using t by (auto simp: shabal_took_def)
  have p: "sptr sc < 64" using absorbed_bounds [OF sc(4)] by (simp add: shabal_view_def)
  have f: "frame_ok f" "len \<le> length dd" using ok by (simp_all add: d)
  obtain sc' where "shabal f sc dd len = Some sc'"
    "shabal_view sc' = view_update (shabal_view sc) (take len dd)"
    "asm_ok (sstate sc')" "sout_size sc' = sout_size sc"
    by (rule shabal_update_view [OF f(1) sc(2) p f(2)])
  then show "shabal_took ((\<lambda>c (f, d, len). Option.bind c (\<lambda>sc. shabal f sc d len)) c d)
      (m @ (\<lambda>(f, d, len). take len d) d)"
    using sc absorbed_update by (auto simp: d shabal_took_def)
next
  fix c m
  assume t: "shabal_took c m"
  then obtain sc where "c = Some sc" by (auto simp: shabal_took_def)
  then show "shabal_digest (good_frame f) c = shabal256 m"
    using shabal_took_close [OF _ frame_ok_base [OF frame_ok_good]] t by (simp add: shabal_digest_def)
qed

end
