(* ===== verification/Mshabal_SSE4.thy ===== *)
theory Mshabal_SSE4
  imports Simd_Lanes
begin

unbundle bit_operations_syntax

text \<open>
  \<open>mshabal_sse4.c\<close>: four Shabal computations in parallel on four-lane vectors. The
  context, the compression function with its unrolled rows, and the three entry points are
  translated as written; each lane of a context is then shown to be a scalar context, so
  that the file implements the reference hash in every lane (interpretation \<open>sse4\<close>).
  The fields \<open>buf0..buf3\<close> and the parameters \<open>data0..data3\<close>, \<open>ub0..ub3\<close>,
  \<open>dst0..dst3\<close> are one four-element value each; a \<open>NULL\<close> data pointer is
  \<open>None\<close>; a buffer is the list of the bytes readable from the pointer.
\<close>

section \<open>Context and registers\<close>

record mshabal_context =
  mbuf :: "u8 list quad"
  mptr :: nat
  mstate :: "u32 list"
  mWhigh :: u32
  mWlow :: u32
  mout_size :: nat

type_synonym sse4_regs = "m128i list \<times> m128i list \<times> m128i list"

definition loadu128 :: "u32 list \<Rightarrow> nat \<Rightarrow> m128i" where
  "loadu128 st j = Quad (st ! (4 * j)) (st ! (4 * j + 1)) (st ! (4 * j + 2)) (st ! (4 * j + 3))"

definition storeu128 :: "nat \<Rightarrow> m128i \<Rightarrow> u32 list \<Rightarrow> u32 list" where
  "storeu128 j v st = blit st (4 * j) (elems4 v)"

definition sse4_load :: "u32 list \<Rightarrow> sse4_regs" where
  "sse4_load st =
     (map (loadu128 st) [0..<12], map (\<lambda>j. loadu128 st (j + 12)) [0..<16],
      map (\<lambda>j. loadu128 st (j + 28)) [0..<16])"

definition sse4_store :: "sse4_regs \<Rightarrow> u32 list \<Rightarrow> u32 list" where
  "sse4_store regs st =
     (let (A, B, C) = regs;
          st = fold (\<lambda>j. storeu128 j (A ! j)) [0..<12] st
      in fold (\<lambda>j st. storeu128 (j + 28) (C ! j) (storeu128 (j + 12) (B ! j) st)) [0..<16] st)"

section \<open>Compression\<close>

text \<open>The \<open>PP\<close> macro: the new values of \<open>xa0\<close> and \<open>xb0\<close>.\<close>

definition sse4_PP :: "m128i pp" where
  "sse4_PP xa0 xa1 xb0 xb1 xb2 xb3 xc xm =
     (let one = mm_set1_epi32 0xFFFFFFFF;
          tt = mm_or_si128 (mm_slli_epi32 xa1 15) (mm_srli_epi32 xa1 17);
          tt = mm_add_epi32 (mm_slli_epi32 tt 2) tt;
          tt = mm_xor_si128 (mm_xor_si128 xa0 tt) xc;
          tt = mm_add_epi32 (mm_slli_epi32 tt 1) tt;
          tt = mm_xor_si128 (mm_xor_si128 tt xb1) (mm_xor_si128 (mm_andnot_si128 xb3 xb2) xm);
          xa0 = tt;
          tt = xb0;
          tt = mm_or_si128 (mm_slli_epi32 tt 1) (mm_srli_epi32 tt 31);
          xb0 = mm_xor_si128 tt (mm_xor_si128 xa0 one)
      in (xa0, xb0))"

text \<open>The 48 \<open>PP\<close> lines in source order: the indices of \<open>xa0, xa1, xb0, xb1, xb2, xb3, xc, xm\<close>.\<close>

definition sse4_rows :: "pp_row list" where
  "sse4_rows = [
   Row 0 11 0 13 9 6 8 0, Row 1 0 1 14 10 7 7 1, Row 2 1 2 15 11 8 6 2,
   Row 3 2 3 0 12 9 5 3, Row 4 3 4 1 13 10 4 4, Row 5 4 5 2 14 11 3 5,
   Row 6 5 6 3 15 12 2 6, Row 7 6 7 4 0 13 1 7, Row 8 7 8 5 1 14 0 8,
   Row 9 8 9 6 2 15 15 9, Row 10 9 10 7 3 0 14 10, Row 11 10 11 8 4 1 13 11,
   Row 0 11 12 9 5 2 12 12, Row 1 0 13 10 6 3 11 13, Row 2 1 14 11 7 4 10 14,
   Row 3 2 15 12 8 5 9 15, Row 4 3 0 13 9 6 8 0, Row 5 4 1 14 10 7 7 1,
   Row 6 5 2 15 11 8 6 2, Row 7 6 3 0 12 9 5 3, Row 8 7 4 1 13 10 4 4,
   Row 9 8 5 2 14 11 3 5, Row 10 9 6 3 15 12 2 6, Row 11 10 7 4 0 13 1 7,
   Row 0 11 8 5 1 14 0 8, Row 1 0 9 6 2 15 15 9, Row 2 1 10 7 3 0 14 10,
   Row 3 2 11 8 4 1 13 11, Row 4 3 12 9 5 2 12 12, Row 5 4 13 10 6 3 11 13,
   Row 6 5 14 11 7 4 10 14, Row 7 6 15 12 8 5 9 15, Row 8 7 0 13 9 6 8 0,
   Row 9 8 1 14 10 7 7 1, Row 10 9 2 15 11 8 6 2, Row 11 10 3 0 12 9 5 3,
   Row 0 11 4 1 13 10 4 4, Row 1 0 5 2 14 11 3 5, Row 2 1 6 3 15 12 2 6,
   Row 3 2 7 4 0 13 1 7, Row 4 3 8 5 1 14 0 8, Row 5 4 9 6 2 15 15 9,
   Row 6 5 10 7 3 0 14 10, Row 7 6 11 8 4 1 13 11, Row 8 7 12 9 5 2 12 12,
   Row 9 8 13 10 6 3 11 13, Row 10 9 14 11 7 4 10 14, Row 11 10 15 12 8 5 9 15]"

text \<open>The 36 additions \<open>A[i] += C[j]\<close> in source order.\<close>

definition sse4_adds :: "(nat \<times> nat) list" where
  "sse4_adds = [
   (11, 6), (10, 5), (9, 4), (8, 3), (7, 2), (6, 1), (5, 0), (4, 15), (3, 14),
   (2, 13), (1, 12), (0, 11), (11, 10), (10, 9), (9, 8), (8, 7), (7, 6), (6, 5),
   (5, 4), (4, 3), (3, 2), (2, 1), (1, 0), (0, 15), (11, 14), (10, 13), (9, 12),
   (8, 11), (7, 10), (6, 9), (5, 8), (4, 7), (3, 6), (2, 5), (1, 4), (0, 3)]"

text \<open>The 16 \<open>SWAP_AND_SUB\<close> lines.\<close>

definition sse4_swaps :: "nat list" where
  "sse4_swaps = [0x0, 0x1, 0x2, 0x3, 0x4, 0x5, 0x6, 0x7, 0x8, 0x9, 0xA, 0xB, 0xC, 0xD, 0xE, 0xF]"

text \<open>\<open>u.words\<close> interleaves the four inputs; \<open>M(i)\<close> is the i-th vector of it.\<close>

definition sse4_message :: "u8 list quad \<Rightarrow> m128i list" where
  "sse4_message bufs = map (\<lambda>i. map_quad (\<lambda>b. load32 b (4 * i)) bufs) [0..<16]"

definition sse4_count :: "mshabal_context \<Rightarrow> mshabal_context" where
  "sse4_count sc =
     (let lo = mWlow sc + 1
      in sc\<lparr>mWlow := lo, mWhigh := (if lo = 0 then mWhigh sc + 1 else mWhigh sc)\<rparr>)"

definition sse4_block :: "mshabal_context \<Rightarrow> u8 list quad \<Rightarrow> sse4_regs \<Rightarrow> mshabal_context \<times> sse4_regs" where
  "sse4_block sc bufs regs =
     (let (A, B, C) = regs;
          M = sse4_message bufs;
          B = map2 mm_add_epi32 B M;
          A = A[0 := mm_xor_si128 (A ! 0) (mm_set1_epi32 (mWlow sc))];
          A = A[1 := mm_xor_si128 (A ! 1) (mm_set1_epi32 (mWhigh sc))];
          B = map (\<lambda>x. mm_or_si128 (mm_slli_epi32 x 17) (mm_srli_epi32 x 15)) B;
          (A, B) = run_rows sse4_PP C M sse4_rows (A, B);
          A = run_adds mm_add_epi32 C sse4_adds A;
          (B, C) = run_swaps mm_sub_epi32 M sse4_swaps (B, C)
      in (sse4_count sc, (A, B, C)))"

fun sse4_loop :: "nat \<Rightarrow> mshabal_context \<Rightarrow> u8 list quad \<Rightarrow> sse4_regs \<Rightarrow> mshabal_context \<times> sse4_regs" where
  "sse4_loop 0 sc bufs regs = (sc, regs)"
| "sse4_loop (Suc num) sc bufs regs =
     (let (sc, regs) = sse4_block sc bufs regs
      in sse4_loop num sc (map_quad (drop 64) bufs) regs)"

definition sse4_mshabal_compress :: "mshabal_context \<Rightarrow> u8 list quad \<Rightarrow> nat \<Rightarrow> mshabal_context" where
  "sse4_mshabal_compress sc bufs num =
     (let (sc', regs) = sse4_loop num sc bufs (sse4_load (mstate sc))
      in sc'\<lparr>mstate := sse4_store regs (mstate sc')\<rparr>)"

section \<open>Entry points\<close>

text \<open>\<open>buf[4u], buf[4u+1] := low and high byte of out_size + u\<close>.\<close>

definition sse4_prefix :: "nat \<Rightarrow> u8 list \<Rightarrow> u8 list" where
  "sse4_prefix out_size buf =
     write_pairs (\<lambda>u. of_nat (out_size + u)) (\<lambda>u. of_nat (drop_bit 8 (out_size + u))) buf"

definition sse4_mshabal_init :: "mshabal_context \<Rightarrow> nat \<Rightarrow> mshabal_context" where
  "sse4_mshabal_init sc out_size =
     (let sc = sc\<lparr>mstate := replicate 176 0, mbuf := dup4 (replicate 64 0)\<rparr>;
          sc = sc\<lparr>mbuf := map_quad (sse4_prefix out_size) (mbuf sc)\<rparr>;
          sc = sc\<lparr>mWhigh := 0xFFFFFFFF, mWlow := 0xFFFFFFFF\<rparr>;
          sc = sse4_mshabal_compress sc (mbuf sc) 1;
          sc = sc\<lparr>mbuf := map_quad (sse4_prefix (out_size + 16)) (mbuf sc)\<rparr>;
          sc = sse4_mshabal_compress sc (mbuf sc) 1
      in sc\<lparr>mptr := 0, mout_size := out_size\<rparr>)"

text \<open>A \<open>NULL\<close> input is replaced by the first one that is given.\<close>

fun sse4_inputs :: "u8 list option quad \<Rightarrow> u8 list quad option" where
  "sse4_inputs (Quad data0 data1 data2 data3) =
     (case (case data0 of Some d \<Rightarrow> Some d
            | None \<Rightarrow> (case data1 of Some d \<Rightarrow> Some d
            | None \<Rightarrow> (case data2 of Some d \<Rightarrow> Some d | None \<Rightarrow> data3))) of
        None \<Rightarrow> None
      | Some d0 \<Rightarrow>
          Some (Quad d0 (case data1 of None \<Rightarrow> d0 | Some d \<Rightarrow> d)
            (case data2 of None \<Rightarrow> d0 | Some d \<Rightarrow> d) (case data3 of None \<Rightarrow> d0 | Some d \<Rightarrow> d)))"

text \<open>\<open>memcpy(buf + off, data, n)\<close> in each lane.\<close>

definition sse4_fill :: "mshabal_context \<Rightarrow> u8 list quad \<Rightarrow> nat \<Rightarrow> nat \<Rightarrow> mshabal_context" where
  "sse4_fill sc d off n = sc\<lparr>mbuf := zip4 (\<lambda>b x. blit b off (take n x)) (mbuf sc) d\<rparr>"

definition sse4_head :: "mshabal_context \<Rightarrow> u8 list quad \<Rightarrow> nat \<Rightarrow> mshabal_context \<times> u8 list quad \<times> nat" where
  "sse4_head sc d len =
     (let ptr = mptr sc; clen = 64 - ptr in
      if ptr \<noteq> 0
      then let sc = sse4_fill sc d ptr clen
           in (sse4_mshabal_compress sc (mbuf sc) 1, map_quad (drop clen) d, len - clen)
      else (sc, d, len))"

definition sse4_tail :: "mshabal_context \<Rightarrow> u8 list quad \<Rightarrow> nat \<Rightarrow> mshabal_context" where
  "sse4_tail sc d len =
     (let num = len div 64;
          (sc, d) =
            (if num \<noteq> 0
             then (sse4_mshabal_compress sc d num, map_quad (drop (64 * num)) d)
             else (sc, d));
          len = len mod 64
      in (sse4_fill sc d 0 len)\<lparr>mptr := len\<rparr>)"

definition sse4_mshabal :: "mshabal_context \<Rightarrow> u8 list option quad \<Rightarrow> nat \<Rightarrow> mshabal_context" where
  "sse4_mshabal sc data len =
     (case sse4_inputs data of
        None \<Rightarrow> sc
      | Some d \<Rightarrow>
          (let ptr = mptr sc; clen = 64 - ptr in
           if ptr \<noteq> 0 \<and> clen > len
           then (sse4_fill sc d ptr len)\<lparr>mptr := ptr + len\<rparr>
           else let (sc, d, len) = sse4_head sc d len in sse4_tail sc d len))"

text \<open>The last byte takes the \<open>n\<close> extra bits of \<open>ub\<close> and the padding bit.\<close>

definition sse4_last_byte :: "u32 \<Rightarrow> nat \<Rightarrow> u8" where
  "sse4_last_byte ub n = (let z = drop_bit n (0x80 :: u32) in ucast ((ub AND - z) OR z))"

definition sse4_final_round :: "mshabal_context \<Rightarrow> mshabal_context" where
  "sse4_final_round sc =
     (let sc = sse4_mshabal_compress sc (mbuf sc) 1
      in sc\<lparr>mWlow := mWlow sc - 1, mWhigh := (if mWlow sc = 0 then mWhigh sc - 1 else mWhigh sc)\<rparr>)"

definition sse4_pad :: "mshabal_context \<Rightarrow> u32 quad \<Rightarrow> nat \<Rightarrow> mshabal_context" where
  "sse4_pad sc ub n =
     (let ptr = mptr sc;
          sc = sc\<lparr>mbuf := zip4 (\<lambda>b u. b[ptr := sse4_last_byte u n]) (mbuf sc) ub\<rparr>;
          ptr = ptr + 1
      in sc\<lparr>mbuf := map_quad (\<lambda>b. blit b ptr (replicate (64 - ptr) 0)) (mbuf sc)\<rparr>)"

definition sse4_mshabal_close :: "mshabal_context \<Rightarrow> u32 quad \<Rightarrow> nat \<Rightarrow> mshabal_context \<times> u32 list quad" where
  "sse4_mshabal_close sc ub n =
     (let sc = (sse4_final_round ^^ 4) (sse4_pad sc ub n);
          out_size_w32 = mout_size sc div 32;
          off = 4 * (28 + (16 - out_size_w32))
      in (sc, map_quad (\<lambda>l. map (\<lambda>z. mstate sc ! (off + 4 * z + l)) [0..<out_size_w32]) (Quad 0 1 2 3)))"

section \<open>One lane of the context\<close>

definition sse4_regs_view :: "nat \<Rightarrow> mshabal_context \<Rightarrow> sse4_regs \<Rightarrow> shabal_state" where
  "sse4_regs_view k sc regs =
     (case regs of (A, B, C) \<Rightarrow>
        \<lparr>stA = map (lane4 k) A, stB = map (lane4 k) B, stC = map (lane4 k) C,
         stW = w64 (mWhigh sc) (mWlow sc)\<rparr>)"

definition sse4_view :: "nat \<Rightarrow> mshabal_context \<Rightarrow> hash_view" where
  "sse4_view k sc =
     \<lparr>vbuf = lane4 k (mbuf sc), vptr = mptr sc, vst = sse4_regs_view k sc (sse4_load (mstate sc))\<rparr>"

definition sse4_regs_ok :: "sse4_regs \<Rightarrow> bool" where
  "sse4_regs_ok regs \<longleftrightarrow>
     (case regs of (A, B, C) \<Rightarrow> length A = 12 \<and> length B = 16 \<and> length C = 16)"

lemma sse4_rows_regular: "sse4_rows = spec_rows"
  by code_simp

lemma sse4_adds_regular: "sse4_adds = spec_adds"
  by code_simp

lemma sse4_swaps_regular: "sse4_swaps = [0..<16]"
  by code_simp

lemma sse4_PP_lane:
  "map_prod (lane4 k) (lane4 k) (sse4_PP a0 a1 b0 b1 b2 b3 c m) =
   spec_PP (lane4 k a0) (lane4 k a1) (lane4 k b0) (lane4 k b1) (lane4 k b2) (lane4 k b3) (lane4 k c) (lane4 k m)"
  by (simp add: sse4_PP_def spec_PP_def lane_simps Let_def rotl32_def push_bit_eq_mult xor_ones32 ac_simps)

interpretation sse4_lane: lane_view "lane4 k" sse4_PP mm_add_epi32 mm_sub_epi32 for k
  by unfold_locales (simp_all add: sse4_PP_lane lane_simps)

section \<open>Loading and storing the state\<close>

lemma lane4_loadu: "lane4 k (loadu128 st j) = st ! (4 * j + k mod 4)"
proof -
  have "k mod 4 < 4" by simp
  then consider "k mod 4 = 0" | "k mod 4 = 1" | "k mod 4 = 2" | "k mod 4 = 3" by linarith
  then show ?thesis
    by cases (simp_all add: lane4_def loadu128_def numeral_2_eq_2 numeral_3_eq_3)
qed

lemma length_storeu128 [simp]: "4 * j + 4 \<le> length st \<Longrightarrow> length (storeu128 j v st) = length st"
  by (simp add: storeu128_def)

lemma load_store128:
  assumes "4 * j + 4 \<le> length st" "4 * i + 4 \<le> length st"
  shows "loadu128 (storeu128 j v st) i = (if i = j then v else loadu128 st i)"
proof (cases v)
  case (Quad a b c d)
  consider "i < j" | "i = j" | "j < i" by linarith
  then show ?thesis
    using assms Quad
    by cases (simp_all add: loadu128_def storeu128_def nth_blit)
qed

lemma load_stores128_A:
  assumes "length st = 176" "n \<le> 44"
  shows "length (fold (\<lambda>j. storeu128 j (f j)) [0..<n] st) = 176 \<and>
    (\<forall>i < 44. loadu128 (fold (\<lambda>j. storeu128 j (f j)) [0..<n] st) i = (if i < n then f i else loadu128 st i))"
  using assms(2) by (induction n) (auto simp: assms(1) load_store128)

lemma load_stores128_BC:
  assumes "length st = 176" "n \<le> 16"
  shows "length (fold (\<lambda>j st. storeu128 (j + 28) (g j) (storeu128 (j + 12) (f j) st)) [0..<n] st) = 176 \<and>
    (\<forall>i < 44. loadu128 (fold (\<lambda>j st. storeu128 (j + 28) (g j) (storeu128 (j + 12) (f j) st)) [0..<n] st) i =
       (if 12 \<le> i \<and> i < 12 + n then f (i - 12)
        else if 28 \<le> i \<and> i < 28 + n then g (i - 28) else loadu128 st i))"
  using assms(2) by (induction n) (auto simp: assms(1) load_store128)

lemma sse4_load_store:
  assumes "length st = 176" "sse4_regs_ok regs"
  shows "length (sse4_store regs st) = 176" "sse4_load (sse4_store regs st) = regs"
proof -
  obtain A B C where r: "regs = (A, B, C)" by (cases regs)
  have l: "length A = 12" "length B = 16" "length C = 16"
    using assms(2) by (simp_all add: r sse4_regs_ok_def)
  define st1 where "st1 = fold (\<lambda>j. storeu128 j (A ! j)) [0..<12] st"
  have s1: "length st1 = 176" "\<And>i. i < 44 \<Longrightarrow> loadu128 st1 i = (if i < 12 then A ! i else loadu128 st i)"
    unfolding st1_def using load_stores128_A [OF assms(1), of 12 "\<lambda>j. A ! j"] by auto
  note s2 = load_stores128_BC [OF s1(1), of 16 "\<lambda>j. C ! j" "\<lambda>j. B ! j"]
  show "length (sse4_store regs st) = 176"
    using s2 by (simp add: sse4_store_def r st1_def)
  show "sse4_load (sse4_store regs st) = regs"
    unfolding sse4_load_def sse4_store_def r Let_def prod.case st1_def [symmetric]
    using s2 s1 l by (auto intro!: nth_equalityI)
qed

lemma sse4_store_load: "length (mstate sc) = 176 \<Longrightarrow> sse4_regs_ok (sse4_load (mstate sc))"
  by (simp add: sse4_regs_ok_def sse4_load_def)

section \<open>A compression is a scalar compression in each lane\<close>

lemma lane4_message: "map (lane4 k) (sse4_message bufs) = block_words (lane4 k bufs)"
  by (simp add: sse4_message_def block_words_def)

lemma sse4_block_lane:
  assumes ok: "sse4_regs_ok regs" and b: "sse4_block sc bufs regs = (sc', regs')"
  shows "sse4_regs_view k sc' regs' = spec_block (sse4_regs_view k sc regs) (lane4 k bufs)"
    and "sse4_regs_ok regs'" and "sc' = sse4_count sc"
proof -
  obtain A B C where r: "regs = (A, B, C)" by (cases regs)
  have l: "length A = 12" "length B = 16" "length C = 16"
    using ok by (simp_all add: r sse4_regs_ok_def)
  define M where "M = sse4_message bufs"
  have lM: "length M = 16" by (simp add: M_def sse4_message_def)
  define A0 where "A0 = (A[0 := mm_xor_si128 (A ! 0) (mm_set1_epi32 (mWlow sc))])
    [1 := mm_xor_si128 (A[0 := mm_xor_si128 (A ! 0) (mm_set1_epi32 (mWlow sc))] ! 1) (mm_set1_epi32 (mWhigh sc))]"
  define B0 where "B0 = map (\<lambda>x. mm_or_si128 (mm_slli_epi32 x 17) (mm_srli_epi32 x 15)) (map2 mm_add_epi32 B M)"
  obtain A1 B1 where AB: "run_rows sse4_PP C M spec_rows (A0, B0) = (A1, B1)" by fastforce
  have l0: "length A0 = 12" "length B0 = 16"
    using l lM by (simp_all add: A0_def B0_def)
  have l1: "length A1 = 12" "length B1 = 16"
    using run_rows_length [OF AB] l0 by simp_all
  have "sse4_block sc bufs regs =
      (sse4_count sc, (run_adds mm_add_epi32 C spec_adds A1, map2 mm_sub_epi32 C M, B1))"
    unfolding sse4_block_def r Let_def prod.case M_def [symmetric] A0_def [symmetric]
      B0_def [symmetric] sse4_rows_regular sse4_adds_regular sse4_swaps_regular AB
      run_swaps_all [OF l1(2) l(3) lM] ..
  then have e: "sc' = sse4_count sc" "regs' = (run_adds mm_add_epi32 C spec_adds A1, map2 mm_sub_epi32 C M, B1)"
    using b by simp_all
  have hA: "map (lane4 k) A0 =
      (map (lane4 k) A)[0 := lane4 k (A ! 0) XOR lo32 (w64 (mWhigh sc) (mWlow sc)),
        1 := lane4 k (A ! 1) XOR hi32 (w64 (mWhigh sc) (mWlow sc))]"
    using l by (simp add: A0_def map_update lane_simps)
  have hB: "map (lane4 k) B0 = map (rotl32 17) (map2 (+) (map (lane4 k) B) (map (lane4 k) M))"
    unfolding sse4_lane.lane_sums [symmetric] by (simp add: B0_def rotl32_def lane_simps)
  have W: "w64 (mWhigh (sse4_count sc)) (mWlow (sse4_count sc)) = w64 (mWhigh sc) (mWlow sc) + 1"
    using w64_succ [of "mWlow sc" "mWhigh sc"] by (simp add: sse4_count_def Let_def)
  show "sse4_regs_view k sc' regs' = spec_block (sse4_regs_view k sc regs) (lane4 k bufs)"
    using sse4_lane.lane_block [OF l lM lane4_message [of k bufs, folded M_def] hA hB AB]
    by (simp del: map_map add: sse4_regs_view_def r e W sse4_lane.lane_subs)
  show "sse4_regs_ok regs'" using e l l1 lM by (simp add: sse4_regs_ok_def)
  show "sc' = sse4_count sc" by (rule e)
qed

lemma sse4_count_frame [simp]:
  "mstate (sse4_count sc) = mstate sc" "mbuf (sse4_count sc) = mbuf sc"
  "mptr (sse4_count sc) = mptr sc" "mout_size (sse4_count sc) = mout_size sc"
  by (simp_all add: sse4_count_def Let_def)

lemma sse4_loop_lane:
  assumes "sse4_regs_ok regs" "sse4_loop n sc bufs regs = (sc', regs')"
  shows "sse4_regs_view k sc' regs' = spec_blocks n (sse4_regs_view k sc regs) (lane4 k bufs) \<and>
    sse4_regs_ok regs' \<and> mstate sc' = mstate sc \<and> mbuf sc' = mbuf sc \<and> mptr sc' = mptr sc \<and>
    mout_size sc' = mout_size sc"
  using assms
proof (induction n sc bufs regs rule: sse4_loop.induct)
  case (2 n sc bufs regs)
  obtain sc1 regs1 where b: "sse4_block sc bufs regs = (sc1, regs1)"
    by (cases "sse4_block sc bufs regs")
  note s = sse4_block_lane [OF "2.prems"(1) b]
  have "sse4_loop n sc1 (map_quad (drop 64) bufs) regs1 = (sc', regs')"
    using "2.prems"(2) b by simp
  from "2.IH" [OF b [symmetric] refl s(2) this] show ?case
    using s by simp
qed simp

lemma sse4_compress_lane:
  assumes "length (mstate sc) = 176" and sc': "sc' = sse4_mshabal_compress sc bufs n"
  shows "sse4_view k sc' = (sse4_view k sc)\<lparr>vst := spec_blocks n (vst (sse4_view k sc)) (lane4 k bufs)\<rparr>"
    and "length (mstate sc') = 176" and "mbuf sc' = mbuf sc" and "mptr sc' = mptr sc"
    and "mout_size sc' = mout_size sc"
proof -
  obtain sc1 regs where lp: "sse4_loop n sc bufs (sse4_load (mstate sc)) = (sc1, regs)"
    by (cases "sse4_loop n sc bufs (sse4_load (mstate sc))")
  note s = sse4_loop_lane [OF sse4_store_load [OF assms(1)] lp]
  have e: "sc' = sc1\<lparr>mstate := sse4_store regs (mstate sc)\<rparr>"
    using s [of k] lp by (simp add: sc' sse4_mshabal_compress_def)
  have ls: "length (sse4_store regs (mstate sc)) = 176" "sse4_load (sse4_store regs (mstate sc)) = regs"
    using sse4_load_store [OF assms(1)] s by blast+
  have "sse4_regs_view k sc' regs = sse4_regs_view k sc1 regs"
    by (simp add: e sse4_regs_view_def)
  then show "sse4_view k sc' = (sse4_view k sc)\<lparr>vst := spec_blocks n (vst (sse4_view k sc)) (lane4 k bufs)\<rparr>"
    using s [of k] ls by (simp add: sse4_view_def e)
  show "length (mstate sc') = 176" "mbuf sc' = mbuf sc" "mptr sc' = mptr sc" "mout_size sc' = mout_size sc"
    using s ls by (simp_all add: e)
qed

section \<open>The entry points in each lane\<close>

text \<open>A context with its state array in place.\<close>

definition sse4_ok :: "mshabal_context \<Rightarrow> bool" where
  "sse4_ok sc \<longleftrightarrow> length (mstate sc) = 176"

definition given :: "'a quad \<Rightarrow> 'a option quad" where
  "given = map_quad Some"

lemma sse4_inputs_given [simp]: "sse4_inputs (given d) = Some d"
  by (cases d) (simp add: given_def)

lemma sse4_fill_view:
  "sse4_view k (sse4_fill sc d off n) =
     (sse4_view k sc)\<lparr>vbuf := blit (lane4 k (mbuf sc)) off (take n (lane4 k d))\<rparr>"
  "mstate (sse4_fill sc d off n) = mstate sc" "mptr (sse4_fill sc d off n) = mptr sc"
  "mout_size (sse4_fill sc d off n) = mout_size sc"
  by (simp_all add: sse4_fill_def sse4_view_def sse4_regs_view_def split: prod.splits)

lemma sse4_view_sel [simp]:
  "vbuf (sse4_view k sc) = lane4 k (mbuf sc)" "vptr (sse4_view k sc) = mptr sc"
  "sse4_view k (sc\<lparr>mptr := p\<rparr>) = (sse4_view k sc)\<lparr>vptr := p\<rparr>"
  by (simp_all add: sse4_view_def sse4_regs_view_def split: prod.splits)

text \<open>Bookkeeping of a step that may change the buffers, the pointer and the state.\<close>

lemma sse4_compress_frame:
  assumes "sse4_ok sc"
  shows "sse4_ok (sse4_mshabal_compress sc bufs n)" "mbuf (sse4_mshabal_compress sc bufs n) = mbuf sc"
    "mptr (sse4_mshabal_compress sc bufs n) = mptr sc"
    "mout_size (sse4_mshabal_compress sc bufs n) = mout_size sc"
    "vst (sse4_view k (sse4_mshabal_compress sc bufs n)) = spec_blocks n (vst (sse4_view k sc)) (lane4 k bufs)"
  using sse4_compress_lane [OF assms [unfolded sse4_ok_def] refl] by (simp_all add: sse4_ok_def)

lemma sse4_fill_frame [simp]:
  "mstate (sse4_fill sc d off n) = mstate sc" "mptr (sse4_fill sc d off n) = mptr sc"
  "mout_size (sse4_fill sc d off n) = mout_size sc"
  "sse4_ok (sse4_fill sc d off n) = sse4_ok sc"
  "lane4 k (mbuf (sse4_fill sc d off n)) = blit (lane4 k (mbuf sc)) off (take n (lane4 k d))"
  "vst (sse4_view k (sse4_fill sc d off n)) = vst (sse4_view k sc)"
  by (simp_all add: sse4_fill_def sse4_ok_def sse4_view_def sse4_regs_view_def split: prod.splits)

lemma sse4_head_view:
  assumes ok: "sse4_ok sc" and len: "len \<le> length (lane4 k d)"
    and full: "mptr sc = 0 \<or> 64 - mptr sc \<le> len" and h: "sse4_head sc d len = (sc', d', len')"
  shows "view_fill (sse4_view k sc) (take len (lane4 k d)) = (sse4_view k sc', take len' (lane4 k d'))"
    and "sse4_ok sc'" and "mout_size sc' = mout_size sc" and "len' \<le> length (lane4 k d')"
proof -
  let ?c = "64 - mptr sc" and ?f = "sse4_fill sc d (mptr sc) (64 - mptr sc)"
  have "view_fill (sse4_view k sc) (take len (lane4 k d)) = (sse4_view k sc', take len' (lane4 k d')) \<and>
      sse4_ok sc' \<and> mout_size sc' = mout_size sc \<and> len' \<le> length (lane4 k d')"
  proof (cases "mptr sc = 0")
    case True
    then show ?thesis using h ok len by (simp add: sse4_head_def view_fill_def)
  next
    case False
    have e: "sc' = sse4_mshabal_compress ?f (mbuf ?f) 1" "d' = map_quad (drop ?c) d" "len' = len - ?c"
      using h False by (simp_all add: sse4_head_def Let_def)
    have okf: "sse4_ok ?f" using ok by simp
    have t: "take ?c (take len (lane4 k d)) = take ?c (lane4 k d)" using full False by (simp add: min_def)
    note c = sse4_compress_frame [OF okf, where bufs = "mbuf ?f" and n = 1]
    let ?b = "blit (lane4 k (mbuf sc)) (mptr sc) (take ?c (lane4 k d))"
    have v: "sse4_view k sc' = (sse4_view k sc)\<lparr>vbuf := ?b, vst := spec_block (vst (sse4_view k sc)) ?b\<rparr>"
      using c by (intro hash_view.equality) (simp_all add: e)
    show ?thesis
      using False len full ok c by (simp add: view_fill_def Let_def t v) (simp add: e drop_take)
  qed
  then show "view_fill (sse4_view k sc) (take len (lane4 k d)) = (sse4_view k sc', take len' (lane4 k d'))"
    "sse4_ok sc'" "mout_size sc' = mout_size sc" "len' \<le> length (lane4 k d')" by blast+
qed

lemma sse4_tail_view:
  assumes ok: "sse4_ok sc" and len: "len \<le> length (lane4 k d)"
  shows "sse4_view k (sse4_tail sc d len) = view_rest (sse4_view k sc) (take len (lane4 k d))"
    and "sse4_ok (sse4_tail sc d len)" and "mout_size (sse4_tail sc d len) = mout_size sc"
proof -
  let ?n = "len div 64"
  have b: "64 * ?n \<le> len" by simp
  note c = sse4_compress_frame [OF ok, where bufs = d and n = ?n]
  have r: "take (len mod 64) (drop (64 * ?n) (lane4 k d)) = drop (64 * ?n) (take len (lane4 k d))"
    by (simp add: drop_take minus_mult_div_eq_mod)
  have s: "spec_blocks ?n st (take len (lane4 k d)) = spec_blocks ?n st (lane4 k d)" for st
    using spec_blocks_take [OF b len] .
  have z: "?n = 0 \<Longrightarrow> len mod 64 = len"
    using div_mult_mod_eq [of len 64] by simp
  have l: "length (drop (64 * ?n) (take len (lane4 k d))) = len mod 64"
    using len by (simp add: minus_mult_div_eq_mod)
  show "sse4_view k (sse4_tail sc d len) = view_rest (sse4_view k sc) (take len (lane4 k d))"
  proof (cases "?n = 0")
    case True
    then show ?thesis
      using z len by (auto intro!: hash_view.equality simp: sse4_tail_def view_rest_def Let_def min_absorb2)
  next
    case False
    then show ?thesis
      using c r s l len
      by (auto intro!: hash_view.equality simp: sse4_tail_def view_rest_def Let_def min_absorb2)
  qed
  show "sse4_ok (sse4_tail sc d len)" "mout_size (sse4_tail sc d len) = mout_size sc"
    using ok c by (simp_all add: sse4_tail_def Let_def) (simp_all add: sse4_ok_def)
qed

lemma sse4_update_view:
  assumes ok: "sse4_ok sc" and len: "len \<le> length (lane4 k d)"
  shows "sse4_view k (sse4_mshabal sc (given d) len) = view_update (sse4_view k sc) (take len (lane4 k d))"
    and "sse4_ok (sse4_mshabal sc (given d) len)"
    and "mout_size (sse4_mshabal sc (given d) len) = mout_size sc"
proof -
  obtain sc' d' len' where h: "sse4_head sc d len = (sc', d', len')" by (cases "sse4_head sc d len")
  note hd = sse4_head_view [OF ok len _ h]
  consider (short) "mptr sc \<noteq> 0" "64 - mptr sc > len" | (full) "mptr sc = 0 \<or> 64 - mptr sc \<le> len"
    by linarith
  then have "sse4_view k (sse4_mshabal sc (given d) len) = view_update (sse4_view k sc) (take len (lane4 k d)) \<and>
      sse4_ok (sse4_mshabal sc (given d) len) \<and> mout_size (sse4_mshabal sc (given d) len) = mout_size sc"
  proof cases
    case short
    then show ?thesis
      using len ok
      by (auto intro!: hash_view.equality simp: sse4_mshabal_def view_update_def Let_def sse4_ok_def min_absorb2)
  next
    case full
    note hd = hd [OF full]
    have "sse4_mshabal sc (given d) len = sse4_tail sc' d' len'"
      using full h by (auto simp: sse4_mshabal_def Let_def)
    moreover have "view_update (sse4_view k sc) (take len (lane4 k d)) =
        view_rest (sse4_view k sc') (take len' (lane4 k d'))"
      using full len hd(1) by (auto simp: view_update_def min_absorb2)
    ultimately show ?thesis
      using sse4_tail_view [OF hd(2,4)] hd(3) by simp
  qed
  then show "sse4_view k (sse4_mshabal sc (given d) len) = view_update (sse4_view k sc) (take len (lane4 k d))"
    "sse4_ok (sse4_mshabal sc (given d) len)" "mout_size (sse4_mshabal sc (given d) len) = mout_size sc"
    by blast+
qed

lemma sse4_last_byte_0 [simp]: "sse4_last_byte ub 0 = 0x80"
proof -
  have "(4294967168 :: u8) = 128" by simp
  then have "(x :: u8) AND 4294967168 OR 128 = 128" for x
    by (simp only: word_ao_absorbs)
  then show ?thesis
    by (simp add: sse4_last_byte_def unsigned_or_eq unsigned_and_eq)
qed

lemma sse4_final_round_view:
  assumes ok: "sse4_ok sc"
  shows "vst (sse4_view k (sse4_final_round sc)) = spec_final_round (lane4 k (mbuf sc)) (vst (sse4_view k sc))"
    and "sse4_ok (sse4_final_round sc)" and "mbuf (sse4_final_round sc) = mbuf sc"
    and "mout_size (sse4_final_round sc) = mout_size sc"
proof -
  let ?c = "sse4_mshabal_compress sc (mbuf sc) 1"
  note c = sse4_compress_frame [OF ok, where bufs = "mbuf sc" and n = 1]
  have w: "stW (vst (sse4_view k ?c)) = w64 (mWhigh ?c) (mWlow ?c)"
    by (simp add: sse4_view_def sse4_regs_view_def split: prod.splits)
  have "vst (sse4_view k (sse4_final_round sc)) =
      (vst (sse4_view k ?c))\<lparr>stW := w64 (mWhigh ?c) (mWlow ?c) - 1\<rparr>"
    by (simp add: sse4_final_round_def sse4_view_def sse4_regs_view_def Let_def flip: w64_pred split: prod.splits)
  then show "vst (sse4_view k (sse4_final_round sc)) = spec_final_round (lane4 k (mbuf sc)) (vst (sse4_view k sc))"
    using c(5) [of k] w by (simp add: spec_final_round_def Let_def)
  show "sse4_ok (sse4_final_round sc)" "mbuf (sse4_final_round sc) = mbuf sc"
    "mout_size (sse4_final_round sc) = mout_size sc"
    using c by (simp_all add: sse4_final_round_def Let_def sse4_ok_def)
qed

lemma sse4_final_rounds_view:
  assumes "sse4_ok sc"
  shows "vst (sse4_view k ((sse4_final_round ^^ n) sc)) =
      (spec_final_round (lane4 k (mbuf sc)) ^^ n) (vst (sse4_view k sc)) \<and>
    sse4_ok ((sse4_final_round ^^ n) sc) \<and> mbuf ((sse4_final_round ^^ n) sc) = mbuf sc \<and>
    mout_size ((sse4_final_round ^^ n) sc) = mout_size sc"
  by (induction n) (simp_all add: assms sse4_final_round_view)

lemma sse4_output_words:
  assumes "w \<le> 16"
  shows "map (\<lambda>z. mstate sc ! (4 * (28 + (16 - w)) + 4 * z + k mod 4)) [0..<w] =
    drop (16 - w) (stC (vst (sse4_view k sc)))"
  using assms
  by (auto intro!: nth_equalityI simp: sse4_view_def sse4_regs_view_def sse4_load_def lane4_loadu algebra_simps)

lemma lane4_iota: "lane4 k (Quad 0 1 2 3) = k mod 4"
proof -
  have "elems4 (Quad 0 1 2 3) = [0..<4]" by (simp add: upt_rec)
  then show ?thesis by (simp add: lane4_def)
qed

lemma sse4_close_view:
  assumes ok: "sse4_ok sc" and len: "length (lane4 k (mbuf sc)) = 64" and p: "mptr sc < 64"
    and w: "mout_size sc div 32 \<le> 16"
  shows "concat (map bytes32 (lane4 k (snd (sse4_mshabal_close sc ub 0)))) =
    view_close (mout_size sc) (sse4_view k sc)"
proof -
  let ?p = "sse4_pad sc ub 0"
  have b1: "lane4 k (mbuf ?p) = pad_block (take (mptr sc) (lane4 k (mbuf sc)))"
    using pad_buffer [OF len p] by (simp add: sse4_pad_def Let_def)
  have ok1: "sse4_ok ?p" and v1: "vst (sse4_view k ?p) = vst (sse4_view k sc)" and o1: "mout_size ?p = mout_size sc"
    using ok by (simp_all add: sse4_pad_def Let_def sse4_ok_def sse4_view_def sse4_regs_view_def split: prod.splits)
  note f = sse4_final_rounds_view [OF ok1, of k 4]
  have o4: "mout_size ((sse4_final_round ^^ 4) ?p) = mout_size sc" using f o1 by simp
  have "lane4 k (snd (sse4_mshabal_close sc ub 0)) =
      drop (16 - mout_size sc div 32) (stC (vst (sse4_view k ((sse4_final_round ^^ 4) ?p))))"
    unfolding sse4_mshabal_close_def Let_def o4 snd_conv lane4_map lane4_iota
    by (rule sse4_output_words [OF w])
  then show ?thesis
    using f by (simp add: view_close_def spec_output_def spec_final_def b1 v1)
qed

section \<open>Initialisation\<close>

lemmas sse4_prefix_words = write_pairs_prefix [where hi = "\<lambda>m u. of_nat (drop_bit 8 (m + u))", folded sse4_prefix_def]

lemma sse4_init_lane:
  assumes "out_size \<le> 512"
  shows "length (lane4 k (mbuf (sse4_mshabal_init sc out_size))) = 64"
    and "mptr (sse4_mshabal_init sc out_size) = 0"
    and "mout_size (sse4_mshabal_init sc out_size) = out_size"
    and "sse4_ok (sse4_mshabal_init sc out_size)"
    and "vst (sse4_view k (sse4_mshabal_init sc out_size)) = spec_iv out_size"
proof -
  define b1 where "b1 = sse4_prefix out_size (replicate 64 0)"
  define b2 where "b2 = sse4_prefix (out_size + 16) b1"
  have z: "length (replicate 64 (0 :: u8)) = 64" "\<And>u. u < 16 \<Longrightarrow>
      replicate 64 (0 :: u8) ! (4 * u + 2) = 0 \<and> replicate 64 (0 :: u8) ! (4 * u + 3) = 0"
    by simp_all
  have p1: "length b1 = 64" "block_words b1 = block_words (prefix_block out_size)"
    "\<And>u. u < 16 \<Longrightarrow> b1 ! (4 * u + 2) = 0 \<and> b1 ! (4 * u + 3) = 0"
    unfolding b1_def using sse4_prefix_words [OF z(1) _ z(2) refl] assms by simp_all
  have p2: "length b2 = 64" "block_words b2 = block_words (prefix_block (out_size + 16))"
    unfolding b2_def using sse4_prefix_words [OF p1(1) _ p1(3) refl] assms by simp_all
  define sc1 where "sc1 = sc\<lparr>mstate := replicate 176 0, mbuf := dup4 b1, mWhigh := 0xFFFFFFFF, mWlow := 0xFFFFFFFF\<rparr>"
  define sc2 where "sc2 = sse4_mshabal_compress sc1 (dup4 b1) 1"
  define sc3 where "sc3 = sc2\<lparr>mbuf := dup4 b2\<rparr>"
  define sc4 where "sc4 = sse4_mshabal_compress sc3 (dup4 b2) 1"
  have ok1: "sse4_ok sc1" by (simp add: sc1_def sse4_ok_def)
  note c1 = sse4_compress_frame [OF ok1, where bufs = "dup4 b1" and n = 1, folded sc2_def]
  have ok3: "sse4_ok sc3" using c1 by (simp add: sc3_def sse4_ok_def)
  note c3 = sse4_compress_frame [OF ok3, where bufs = "dup4 b2" and n = 1, folded sc4_def]
  have dm: "map_quad f (dup4 x) = dup4 (f x)" for f :: "u8 list \<Rightarrow> u8 list" and x by (simp add: dup4_def)
  have i: "sse4_mshabal_init sc out_size = sc4\<lparr>mptr := 0, mout_size := out_size\<rparr>"
  proof -
    have m: "mbuf sc1 = dup4 b1" "mbuf sc2 = dup4 b1" "mbuf sc3 = dup4 b2"
      using c1 by (simp_all add: sc1_def sc3_def)
    show ?thesis
      unfolding sse4_mshabal_init_def Let_def
      by (simp del: One_nat_def add: sc1_def [symmetric] dm b1_def [symmetric] sc2_def [symmetric] m
          b2_def [symmetric] sc3_def [symmetric] sc4_def [symmetric])
  qed
  have v1: "vst (sse4_view k sc1) = zero_state"
    by (simp add: sc1_def sse4_view_def sse4_regs_view_def sse4_load_def lane4_loadu zero_state_def
        comp_def w64_def) (auto intro!: nth_equalityI)
  have v2: "vst (sse4_view k sc2) = spec_block zero_state (prefix_block out_size)"
    using c1(5) [of k] v1 spec_block_words [OF p1(2)] by simp
  have v3: "vst (sse4_view k sc3) = vst (sse4_view k sc2)"
    by (simp add: sc3_def sse4_view_def sse4_regs_view_def split: prod.splits)
  have "vst (sse4_view k sc4) = spec_iv out_size"
    using c3(5) [of k] v2 v3 spec_block_words [OF p2(2)] by (simp add: spec_iv_def)
  then show "vst (sse4_view k (sse4_mshabal_init sc out_size)) = spec_iv out_size"
    by (simp add: i sse4_view_def sse4_regs_view_def split: prod.splits)
  show "length (lane4 k (mbuf (sse4_mshabal_init sc out_size))) = 64"
    "mptr (sse4_mshabal_init sc out_size) = 0"
    "mout_size (sse4_mshabal_init sc out_size) = out_size"
    "sse4_ok (sse4_mshabal_init sc out_size)"
    using c3 p2 by (simp_all add: i sc3_def sse4_ok_def)
qed

section \<open>The contract in each lane\<close>

text \<open>A chunk is the four inputs and their common length.\<close>

definition sse4_took :: "nat \<Rightarrow> mshabal_context \<Rightarrow> u8 list \<Rightarrow> bool" where
  "sse4_took k sc msg \<longleftrightarrow> sse4_ok sc \<and> mout_size sc = 256 \<and> absorbed 256 (sse4_view k sc) msg"

definition sse4_digest :: "nat \<Rightarrow> mshabal_context \<Rightarrow> u8 list" where
  "sse4_digest k sc = concat (map bytes32 (lane4 k (snd (sse4_mshabal_close sc (dup4 0) 0))))"

interpretation sse4: incremental_hash
  "sse4_mshabal_init sc 256" "\<lambda>sc (d, len). sse4_mshabal sc (given d) len" "sse4_digest k"
  "\<lambda>(d, len). len \<le> length (lane4 k d)" "\<lambda>(d, len). take len (lane4 k d)"
  "sse4_took k" shabal256 for sc k
proof unfold_locales
  show "sse4_took k (sse4_mshabal_init sc 256) []"
    using sse4_init_lane [where out_size = 256] by (simp add: sse4_took_def absorbed_Nil)
next
  fix c m and d :: "u8 list quad \<times> nat"
  assume "sse4_took k c m" "(\<lambda>(d, len). len \<le> length (lane4 k d)) d"
  then show "sse4_took k ((\<lambda>sc (d, len). sse4_mshabal sc (given d) len) c d)
      (m @ (\<lambda>(d, len). take len (lane4 k d)) d)"
    by (auto simp: sse4_took_def sse4_update_view intro: absorbed_update split: prod.splits)
next
  fix c m
  assume t: "sse4_took k c m"
  then have "length (lane4 k (mbuf c)) = 64" "mptr c < 64"
    using absorbed_bounds [of 256 "sse4_view k c" m] by (auto simp: sse4_took_def)
  with t show "sse4_digest k c = shabal256 m"
    using sse4_close_view [of c k "dup4 0"] absorbed_close
    by (auto simp: sse4_took_def sse4_digest_def)
qed

end
