(* ===== verification/Mshabal256_AVX2.thy ===== *)
theory Mshabal256_AVX2
  imports Simd_Lanes
begin

unbundle bit_operations_syntax

text \<open>
  \<open>mshabal256_avx2.c\<close>: eight Shabal-256 computations in parallel on eight-lane
  vectors. The file differs from the four-lane one in the lane count, the fixed output size,
  the shape of its load and store loops, and in having no \<open>NULL\<close> inputs and no extra
  bits. As there, \<open>buf0..buf7\<close>, \<open>data0..data7\<close> and \<open>dst0..dst7\<close> are one
  eight-element value each, and the interpretation \<open>avx2\<close> shows that every lane
  computes the reference hash.
\<close>

section \<open>Context and registers\<close>

record mshabal256_context =
  wbuf :: "u8 list oct"
  wptr :: nat
  wstate :: "u32 list"
  wWhigh :: u32
  wWlow :: u32

type_synonym avx2_regs = "m256i list \<times> m256i list \<times> m256i list"

definition loadu256 :: "u32 list \<Rightarrow> nat \<Rightarrow> m256i" where
  "loadu256 st j = Oct (st ! (8 * j)) (st ! (8 * j + 1)) (st ! (8 * j + 2)) (st ! (8 * j + 3))
     (st ! (8 * j + 4)) (st ! (8 * j + 5)) (st ! (8 * j + 6)) (st ! (8 * j + 7))"

definition storeu256 :: "nat \<Rightarrow> m256i \<Rightarrow> u32 list \<Rightarrow> u32 list" where
  "storeu256 j v st = blit st (8 * j) (elems8 v)"

definition avx2_load :: "u32 list \<Rightarrow> avx2_regs" where
  "avx2_load st =
     (map (loadu256 st) [0..<12],
      map (\<lambda>j. loadu256 st (j + 12)) [0..<12] @ [loadu256 st 24, loadu256 st 25, loadu256 st 26, loadu256 st 27],
      map (\<lambda>j. loadu256 st (j + 28)) [0..<12] @ [loadu256 st 40, loadu256 st 41, loadu256 st 42, loadu256 st 43])"

definition avx2_store :: "avx2_regs \<Rightarrow> u32 list \<Rightarrow> u32 list" where
  "avx2_store regs st =
     (let (A, B, C) = regs;
          st = fold (\<lambda>j st. storeu256 (j + 28) (C ! j) (storeu256 (j + 12) (B ! j) (storeu256 j (A ! j) st))) [0..<12] st;
          st = storeu256 24 (B ! 12) st;
          st = storeu256 25 (B ! 13) st;
          st = storeu256 26 (B ! 14) st;
          st = storeu256 27 (B ! 15) st;
          st = storeu256 40 (C ! 12) st;
          st = storeu256 41 (C ! 13) st;
          st = storeu256 42 (C ! 14) st
      in storeu256 43 (C ! 15) st)"

section \<open>Compression\<close>

text \<open>The \<open>PP\<close> macro: the new values of \<open>xa0\<close> and \<open>xb0\<close>.\<close>

definition avx2_PP :: "m256i pp" where
  "avx2_PP xa0 xa1 xb0 xb1 xb2 xb3 xc xm =
     (let one = mm256_set1_epi32 0xFFFFFFFF;
          tt = mm256_or_si256 (mm256_slli_epi32 xa1 15) (mm256_srli_epi32 xa1 17);
          tt = mm256_add_epi32 (mm256_slli_epi32 tt 2) tt;
          tt = mm256_xor_si256 (mm256_xor_si256 xa0 tt) xc;
          tt = mm256_add_epi32 (mm256_slli_epi32 tt 1) tt;
          tt = mm256_xor_si256 (mm256_xor_si256 tt xb1) (mm256_xor_si256 (mm256_andnot_si256 xb3 xb2) xm);
          xa0 = tt;
          tt = xb0;
          tt = mm256_or_si256 (mm256_slli_epi32 tt 1) (mm256_srli_epi32 tt 31);
          xb0 = mm256_xor_si256 tt (mm256_xor_si256 xa0 one)
      in (xa0, xb0))"

text \<open>The 48 \<open>PP\<close> lines in source order: the indices of \<open>xa0, xa1, xb0, xb1, xb2, xb3, xc, xm\<close>.\<close>

definition avx2_rows :: "pp_row list" where
  "avx2_rows = [
   Row 0 11 0 13 9 6 8 0, Row 1 0 1 14 10 7 7 1, Row 2 1 2 15 11 8 6 2,
   Row 3 2 3 0 12 9 5 3, Row 4 3 4 1 13 10 4 4, Row 5 4 5 2 14 11 3 5,
   Row 6 5 6 3 15 12 2 6, Row 7 6 7 4 0 13 1 7, Row 8 7 8 5 1 14 0 8,
   Row 9 8 9 6 2 15 15 9, Row 10 9 10 7 3 0 14 10, Row 11 10 11 8 4 1 13 11,
   Row 0 11 12 9 5 2 12 12, Row 1 0 13 10 6 3 11 13, Row 2 1 14 11 7 4 10 14,
   Row 3 2 15 12 8 5 9 15, Row 4 3 0 13 9 6 8 0, Row 5 4 1 14 10 7 7 1,
   Row 6 5 2 15 11 8 6 2, Row 7 6 3 0 12 9 5 3, Row 8 7 4 1 13 10 4 4,
   Row 9 8 5 2 14 11 3 5, Row 10 9 6 3 15 12 2 6, Row 11 10 7 4 0 13 1 7,
   Row 0 11 8 5 1 14 0 8, Row 1 0 9 6 2 15 15 9, Row 2 1 10 7 3 0 14 10,
   Row 3 2 11 8 4 1 13 11, Row 4 3 12 9 5 2 12 12, Row 5 4 13 10 6 3 11 13,
   Row 6 5 14 11 7 4 10 14, Row 7 6 15 12 8 5 9 15, Row 8 7 0 13 9 6 8 0,
   Row 9 8 1 14 10 7 7 1, Row 10 9 2 15 11 8 6 2, Row 11 10 3 0 12 9 5 3,
   Row 0 11 4 1 13 10 4 4, Row 1 0 5 2 14 11 3 5, Row 2 1 6 3 15 12 2 6,
   Row 3 2 7 4 0 13 1 7, Row 4 3 8 5 1 14 0 8, Row 5 4 9 6 2 15 15 9,
   Row 6 5 10 7 3 0 14 10, Row 7 6 11 8 4 1 13 11, Row 8 7 12 9 5 2 12 12,
   Row 9 8 13 10 6 3 11 13, Row 10 9 14 11 7 4 10 14, Row 11 10 15 12 8 5 9 15]"

text \<open>The 36 additions \<open>A[i] += C[j]\<close> in source order.\<close>

definition avx2_adds :: "(nat \<times> nat) list" where
  "avx2_adds = [
   (11, 6), (10, 5), (9, 4), (8, 3), (7, 2), (6, 1), (5, 0), (4, 15), (3, 14),
   (2, 13), (1, 12), (0, 11), (11, 10), (10, 9), (9, 8), (8, 7), (7, 6), (6, 5),
   (5, 4), (4, 3), (3, 2), (2, 1), (1, 0), (0, 15), (11, 14), (10, 13), (9, 12),
   (8, 11), (7, 10), (6, 9), (5, 8), (4, 7), (3, 6), (2, 5), (1, 4), (0, 3)]"

text \<open>The 16 \<open>SWAP_AND_SUB\<close> lines.\<close>

definition avx2_swaps :: "nat list" where
  "avx2_swaps = [0x0, 0x1, 0x2, 0x3, 0x4, 0x5, 0x6, 0x7, 0x8, 0x9, 0xA, 0xB, 0xC, 0xD, 0xE, 0xF]"

text \<open>\<open>u.words\<close> interleaves the eight inputs; \<open>M(i)\<close> is the i-th vector of it.\<close>

definition avx2_message :: "u8 list oct \<Rightarrow> m256i list" where
  "avx2_message bufs = map (\<lambda>i. map_oct (\<lambda>b. load32 b (4 * i)) bufs) [0..<16]"

definition avx2_count :: "mshabal256_context \<Rightarrow> mshabal256_context" where
  "avx2_count sc =
     (let lo = wWlow sc + 1
      in sc\<lparr>wWlow := lo, wWhigh := (if lo = 0 then wWhigh sc + 1 else wWhigh sc)\<rparr>)"

definition avx2_block :: "mshabal256_context \<Rightarrow> u8 list oct \<Rightarrow> avx2_regs \<Rightarrow> mshabal256_context \<times> avx2_regs" where
  "avx2_block sc bufs regs =
     (let (A, B, C) = regs;
          M = avx2_message bufs;
          B = map2 mm256_add_epi32 B M;
          A = A[0 := mm256_xor_si256 (A ! 0) (mm256_set1_epi32 (wWlow sc))];
          A = A[1 := mm256_xor_si256 (A ! 1) (mm256_set1_epi32 (wWhigh sc))];
          B = map (\<lambda>x. mm256_or_si256 (mm256_slli_epi32 x 17) (mm256_srli_epi32 x 15)) B;
          (A, B) = run_rows avx2_PP C M avx2_rows (A, B);
          A = run_adds mm256_add_epi32 C avx2_adds A;
          (B, C) = run_swaps mm256_sub_epi32 M avx2_swaps (B, C)
      in (avx2_count sc, (A, B, C)))"

fun avx2_loop :: "nat \<Rightarrow> mshabal256_context \<Rightarrow> u8 list oct \<Rightarrow> avx2_regs \<Rightarrow> mshabal256_context \<times> avx2_regs" where
  "avx2_loop 0 sc bufs regs = (sc, regs)"
| "avx2_loop (Suc num) sc bufs regs =
     (let (sc, regs) = avx2_block sc bufs regs
      in avx2_loop num sc (map_oct (drop 64) bufs) regs)"

definition mshabal256_compress :: "mshabal256_context \<Rightarrow> u8 list oct \<Rightarrow> nat \<Rightarrow> mshabal256_context" where
  "mshabal256_compress sc bufs num =
     (let (sc', regs) = avx2_loop num sc bufs (avx2_load (wstate sc))
      in sc'\<lparr>wstate := avx2_store regs (wstate sc')\<rparr>)"

section \<open>Entry points\<close>

text \<open>\<open>buf[4u] := c + u\<close> (truncated to a byte) and \<open>buf[4u+1] := 1\<close>.\<close>

definition avx2_prefix :: "nat \<Rightarrow> u8 list \<Rightarrow> u8 list" where
  "avx2_prefix c buf = write_pairs (\<lambda>u. of_nat (c + u)) (\<lambda>u. 1) buf"

definition mshabal256_init :: "mshabal256_context \<Rightarrow> mshabal256_context" where
  "mshabal256_init sc =
     (let sc = sc\<lparr>wstate := replicate 352 0, wbuf := dup8 (replicate 64 0)\<rparr>;
          sc = sc\<lparr>wbuf := map_oct (avx2_prefix 256) (wbuf sc)\<rparr>;
          sc = sc\<lparr>wWhigh := 0xFFFFFFFF, wWlow := 0xFFFFFFFF\<rparr>;
          sc = mshabal256_compress sc (wbuf sc) 1;
          sc = sc\<lparr>wbuf := map_oct (avx2_prefix 272) (wbuf sc)\<rparr>;
          sc = mshabal256_compress sc (wbuf sc) 1
      in sc\<lparr>wptr := 0\<rparr>)"

text \<open>\<open>memcpy(buf + off, data, n)\<close> in each lane.\<close>

definition avx2_fill :: "mshabal256_context \<Rightarrow> u8 list oct \<Rightarrow> nat \<Rightarrow> nat \<Rightarrow> mshabal256_context" where
  "avx2_fill sc d off n = sc\<lparr>wbuf := zip8 (\<lambda>b x. blit b off (take n x)) (wbuf sc) d\<rparr>"

definition avx2_head :: "mshabal256_context \<Rightarrow> u8 list oct \<Rightarrow> nat \<Rightarrow> mshabal256_context \<times> u8 list oct \<times> nat" where
  "avx2_head sc d len =
     (let ptr = wptr sc; clen = 64 - ptr in
      if ptr \<noteq> 0
      then let sc = avx2_fill sc d ptr clen
           in (mshabal256_compress sc (wbuf sc) 1, map_oct (drop clen) d, len - clen)
      else (sc, d, len))"

definition avx2_tail :: "mshabal256_context \<Rightarrow> u8 list oct \<Rightarrow> nat \<Rightarrow> mshabal256_context" where
  "avx2_tail sc d len =
     (let num = len div 64;
          (sc, d) =
            (if num \<noteq> 0
             then (mshabal256_compress sc d num, map_oct (drop (64 * num)) d)
             else (sc, d));
          len = len mod 64
      in (avx2_fill sc d 0 len)\<lparr>wptr := len\<rparr>)"

definition mshabal256 :: "mshabal256_context \<Rightarrow> u8 list oct \<Rightarrow> nat \<Rightarrow> mshabal256_context" where
  "mshabal256 sc d len =
     (let ptr = wptr sc; clen = 64 - ptr in
      if ptr \<noteq> 0 \<and> clen > len
      then (avx2_fill sc d ptr len)\<lparr>wptr := ptr + len\<rparr>
      else let (sc, d, len) = avx2_head sc d len in avx2_tail sc d len)"

definition avx2_final_round :: "mshabal256_context \<Rightarrow> mshabal256_context" where
  "avx2_final_round sc =
     (let sc = mshabal256_compress sc (wbuf sc) 1
      in sc\<lparr>wWlow := wWlow sc - 1, wWhigh := (if wWlow sc = 0 then wWhigh sc - 1 else wWhigh sc)\<rparr>)"

definition avx2_pad :: "mshabal256_context \<Rightarrow> mshabal256_context" where
  "avx2_pad sc =
     (let ptr = wptr sc;
          sc = sc\<lparr>wbuf := map_oct (\<lambda>b. b[ptr := 0x80]) (wbuf sc)\<rparr>;
          ptr = ptr + 1
      in sc\<lparr>wbuf := map_oct (\<lambda>b. blit b ptr (replicate (64 - ptr) 0)) (wbuf sc)\<rparr>)"

text \<open>The output loop reads \<open>state[288..351]\<close>: eight words for each lane, interleaved.\<close>

definition mshabal256_close :: "mshabal256_context \<Rightarrow> mshabal256_context \<times> u32 list oct" where
  "mshabal256_close sc =
     (let sc = avx2_final_round (avx2_final_round (avx2_final_round (avx2_final_round (avx2_pad sc))))
      in (sc, map_oct (\<lambda>l. map (\<lambda>i. wstate sc ! (288 + 8 * i + l)) [0..<8]) (Oct 0 1 2 3 4 5 6 7)))"

section \<open>One lane of the context\<close>

definition avx2_regs_view :: "nat \<Rightarrow> mshabal256_context \<Rightarrow> avx2_regs \<Rightarrow> shabal_state" where
  "avx2_regs_view k sc regs =
     (case regs of (A, B, C) \<Rightarrow>
        \<lparr>stA = map (lane8 k) A, stB = map (lane8 k) B, stC = map (lane8 k) C,
         stW = w64 (wWhigh sc) (wWlow sc)\<rparr>)"

definition avx2_view :: "nat \<Rightarrow> mshabal256_context \<Rightarrow> hash_view" where
  "avx2_view k sc =
     \<lparr>vbuf = lane8 k (wbuf sc), vptr = wptr sc, vst = avx2_regs_view k sc (avx2_load (wstate sc))\<rparr>"

definition avx2_regs_ok :: "avx2_regs \<Rightarrow> bool" where
  "avx2_regs_ok regs \<longleftrightarrow>
     (case regs of (A, B, C) \<Rightarrow> length A = 12 \<and> length B = 16 \<and> length C = 16)"

lemma avx2_rows_regular: "avx2_rows = spec_rows"
  by code_simp

lemma avx2_adds_regular: "avx2_adds = spec_adds"
  by code_simp

lemma avx2_swaps_regular: "avx2_swaps = [0..<16]"
  by code_simp

lemma avx2_PP_lane:
  "map_prod (lane8 k) (lane8 k) (avx2_PP a0 a1 b0 b1 b2 b3 c m) =
   spec_PP (lane8 k a0) (lane8 k a1) (lane8 k b0) (lane8 k b1) (lane8 k b2) (lane8 k b3) (lane8 k c) (lane8 k m)"
  by (simp add: avx2_PP_def spec_PP_def lane_simps Let_def rotl32_def push_bit_eq_mult xor_ones32 ac_simps)

interpretation avx2_lane: lane_view "lane8 k" avx2_PP mm256_add_epi32 mm256_sub_epi32 for k
  by unfold_locales (simp_all add: avx2_PP_lane lane_simps)

section \<open>Loading and storing the state\<close>

lemma lane8_loadu: "lane8 k (loadu256 st j) = st ! (8 * j + k mod 8)"
proof -
  have "k mod 8 < 8" by simp
  then consider "k mod 8 = 0" | "k mod 8 = 1" | "k mod 8 = 2" | "k mod 8 = 3"
    | "k mod 8 = 4" | "k mod 8 = 5" | "k mod 8 = 6" | "k mod 8 = 7" by linarith
  then show ?thesis
    by cases (simp_all add: lane8_def loadu256_def)
qed

lemma length_storeu256 [simp]: "8 * j + 8 \<le> length st \<Longrightarrow> length (storeu256 j v st) = length st"
  by (simp add: storeu256_def)

lemma load_store256:
  assumes "8 * j + 8 \<le> length st" "8 * i + 8 \<le> length st"
  shows "loadu256 (storeu256 j v st) i = (if i = j then v else loadu256 st i)"
proof (cases v)
  case (Oct a b c d e f g h)
  consider "i < j" | "i = j" | "j < i" by linarith
  then show ?thesis
    using assms Oct
    by cases (simp_all add: loadu256_def storeu256_def nth_blit)
qed

lemma load_stores256:
  assumes "length st = 352" "n \<le> 12"
  shows "length (fold (\<lambda>j st. storeu256 (j + 28) (h j) (storeu256 (j + 12) (g j) (storeu256 j (f j) st))) [0..<n] st) = 352 \<and>
    (\<forall>i < 44. loadu256 (fold (\<lambda>j st. storeu256 (j + 28) (h j) (storeu256 (j + 12) (g j) (storeu256 j (f j) st))) [0..<n] st) i =
       (if i < n then f i
        else if 12 \<le> i \<and> i < 12 + n then g (i - 12)
        else if 28 \<le> i \<and> i < 28 + n then h (i - 28) else loadu256 st i))"
  using assms(2) by (induction n) (auto simp: assms(1) load_store256)

lemma avx2_load_store:
  assumes "length st = 352" "avx2_regs_ok regs"
  shows "length (avx2_store regs st) = 352" "avx2_load (avx2_store regs st) = regs"
proof -
  obtain A B C where r: "regs = (A, B, C)" by (cases regs)
  have l: "length A = 12" "length B = 16" "length C = 16"
    using assms(2) by (simp_all add: r avx2_regs_ok_def)
  define st1 where "st1 = fold (\<lambda>j st. storeu256 (j + 28) (C ! j) (storeu256 (j + 12) (B ! j) (storeu256 j (A ! j) st))) [0..<12] st"
  note s1 = load_stores256 [OF assms(1) order.refl, of "\<lambda>j. C ! j" "\<lambda>j. B ! j" "\<lambda>j. A ! j", folded st1_def]
  note s1 = conjunct1 [OF s1] conjunct2 [OF s1, rule_format]
  have st: "length (storeu256 j v s) = 352"
    "\<And>i. i < 44 \<Longrightarrow> loadu256 (storeu256 j v s) i = (if i = j then v else loadu256 s i)"
    if "length s = 352" "j < 44" for j v s
    using that by (simp_all add: load_store256)
  define s27 where "s27 = storeu256 27 (B ! 15) (storeu256 26 (B ! 14) (storeu256 25 (B ! 13) (storeu256 24 (B ! 12) st1)))"
  define s43 where "s43 = storeu256 43 (C ! 15) (storeu256 42 (C ! 14) (storeu256 41 (C ! 13) (storeu256 40 (C ! 12) s27)))"
  have s27: "length s27 = 352" "\<And>i. i < 44 \<Longrightarrow> loadu256 s27 i =
      (if i = 27 then B ! 15 else if i = 26 then B ! 14 else if i = 25 then B ! 13 else if i = 24 then B ! 12
       else loadu256 st1 i)"
    using s1(1) by (simp_all add: s27_def st)
  have s43: "length s43 = 352" "\<And>i. i < 44 \<Longrightarrow> loadu256 s43 i =
      (if i = 43 then C ! 15 else if i = 42 then C ! 14 else if i = 41 then C ! 13 else if i = 40 then C ! 12
       else loadu256 s27 i)"
    using s27(1) by (simp_all add: s43_def st)
  have s: "avx2_store regs st = s43"
    by (simp add: avx2_store_def r Let_def st1_def [symmetric] s27_def s43_def)
  show "length (avx2_store regs st) = 352" using s43 by (simp add: s)
  have a: "loadu256 s43 j = A ! j" "loadu256 s43 (j + 12) = B ! j" "loadu256 s43 (j + 28) = C ! j" if "j < 12" for j
    using that by (simp_all add: s43 s27 s1)
  have b: "loadu256 s43 24 = B ! 12" "loadu256 s43 25 = B ! 13" "loadu256 s43 26 = B ! 14" "loadu256 s43 27 = B ! 15"
    "loadu256 s43 40 = C ! 12" "loadu256 s43 41 = C ! 13" "loadu256 s43 42 = C ! 14" "loadu256 s43 43 = C ! 15"
    by (simp_all add: s43 s27)
  have e: "map (\<lambda>j. X ! j) [0..<12] @ [X ! 12, X ! 13, X ! 14, X ! 15] = X" if "length X = 16" for X :: "m256i list"
  proof -
    have "[0..<16] = [0..<12] @ [12, 13, 14, 15 :: nat]" by (simp add: upt_rec)
    then show ?thesis using map_nth [of X] by (simp add: that)
  qed
  have ABC: "map (loadu256 s43) [0..<12] = A" "map (\<lambda>j. loadu256 s43 (j + 12)) [0..<12] = map (\<lambda>j. B ! j) [0..<12]"
    "map (\<lambda>j. loadu256 s43 (j + 28)) [0..<12] = map (\<lambda>j. C ! j) [0..<12]"
    using a l by (auto intro!: nth_equalityI)
  show "avx2_load (avx2_store regs st) = regs"
    unfolding s avx2_load_def ABC b e [OF l(2)] e [OF l(3)] by (simp only: r)
qed

lemma avx2_store_load: "length (wstate sc) = 352 \<Longrightarrow> avx2_regs_ok (avx2_load (wstate sc))"
  by (simp add: avx2_regs_ok_def avx2_load_def)

section \<open>A compression is a scalar compression in each lane\<close>

lemma lane8_message: "map (lane8 k) (avx2_message bufs) = block_words (lane8 k bufs)"
  by (simp add: avx2_message_def block_words_def)

lemma avx2_block_lane:
  assumes ok: "avx2_regs_ok regs" and b: "avx2_block sc bufs regs = (sc', regs')"
  shows "avx2_regs_view k sc' regs' = spec_block (avx2_regs_view k sc regs) (lane8 k bufs)"
    and "avx2_regs_ok regs'" and "sc' = avx2_count sc"
proof -
  obtain A B C where r: "regs = (A, B, C)" by (cases regs)
  have l: "length A = 12" "length B = 16" "length C = 16"
    using ok by (simp_all add: r avx2_regs_ok_def)
  define M where "M = avx2_message bufs"
  have lM: "length M = 16" by (simp add: M_def avx2_message_def)
  define A0 where "A0 = (A[0 := mm256_xor_si256 (A ! 0) (mm256_set1_epi32 (wWlow sc))])
    [1 := mm256_xor_si256 (A[0 := mm256_xor_si256 (A ! 0) (mm256_set1_epi32 (wWlow sc))] ! 1) (mm256_set1_epi32 (wWhigh sc))]"
  define B0 where "B0 = map (\<lambda>x. mm256_or_si256 (mm256_slli_epi32 x 17) (mm256_srli_epi32 x 15)) (map2 mm256_add_epi32 B M)"
  obtain A1 B1 where AB: "run_rows avx2_PP C M spec_rows (A0, B0) = (A1, B1)" by fastforce
  have l0: "length A0 = 12" "length B0 = 16"
    using l lM by (simp_all add: A0_def B0_def)
  have l1: "length A1 = 12" "length B1 = 16"
    using run_rows_length [OF AB] l0 by simp_all
  have "avx2_block sc bufs regs =
      (avx2_count sc, (run_adds mm256_add_epi32 C spec_adds A1, map2 mm256_sub_epi32 C M, B1))"
    unfolding avx2_block_def r Let_def prod.case M_def [symmetric] A0_def [symmetric]
      B0_def [symmetric] avx2_rows_regular avx2_adds_regular avx2_swaps_regular AB
      run_swaps_all [OF l1(2) l(3) lM] ..
  then have e: "sc' = avx2_count sc" "regs' = (run_adds mm256_add_epi32 C spec_adds A1, map2 mm256_sub_epi32 C M, B1)"
    using b by simp_all
  have hA: "map (lane8 k) A0 =
      (map (lane8 k) A)[0 := lane8 k (A ! 0) XOR lo32 (w64 (wWhigh sc) (wWlow sc)),
        1 := lane8 k (A ! 1) XOR hi32 (w64 (wWhigh sc) (wWlow sc))]"
    using l by (simp add: A0_def map_update lane_simps)
  have hB: "map (lane8 k) B0 = map (rotl32 17) (map2 (+) (map (lane8 k) B) (map (lane8 k) M))"
    unfolding avx2_lane.lane_sums [symmetric] by (simp add: B0_def rotl32_def lane_simps)
  have W: "w64 (wWhigh (avx2_count sc)) (wWlow (avx2_count sc)) = w64 (wWhigh sc) (wWlow sc) + 1"
    using w64_succ [of "wWlow sc" "wWhigh sc"] by (simp add: avx2_count_def Let_def)
  show "avx2_regs_view k sc' regs' = spec_block (avx2_regs_view k sc regs) (lane8 k bufs)"
    using avx2_lane.lane_block [OF l lM lane8_message [of k bufs, folded M_def] hA hB AB]
    by (simp del: map_map add: avx2_regs_view_def r e W avx2_lane.lane_subs)
  show "avx2_regs_ok regs'" using e l l1 lM by (simp add: avx2_regs_ok_def)
  show "sc' = avx2_count sc" by (rule e)
qed

lemma avx2_count_frame [simp]:
  "wstate (avx2_count sc) = wstate sc" "wbuf (avx2_count sc) = wbuf sc"
  "wptr (avx2_count sc) = wptr sc"
  by (simp_all add: avx2_count_def Let_def)

lemma avx2_loop_lane:
  assumes "avx2_regs_ok regs" "avx2_loop n sc bufs regs = (sc', regs')"
  shows "avx2_regs_view k sc' regs' = spec_blocks n (avx2_regs_view k sc regs) (lane8 k bufs) \<and>
    avx2_regs_ok regs' \<and> wstate sc' = wstate sc \<and> wbuf sc' = wbuf sc \<and> wptr sc' = wptr sc"
  using assms
proof (induction n sc bufs regs rule: avx2_loop.induct)
  case (2 n sc bufs regs)
  obtain sc1 regs1 where b: "avx2_block sc bufs regs = (sc1, regs1)"
    by (cases "avx2_block sc bufs regs")
  note s = avx2_block_lane [OF "2.prems"(1) b]
  have "avx2_loop n sc1 (map_oct (drop 64) bufs) regs1 = (sc', regs')"
    using "2.prems"(2) b by simp
  from "2.IH" [OF b [symmetric] refl s(2) this] show ?case
    using s by simp
qed simp

lemma avx2_compress_lane:
  assumes "length (wstate sc) = 352" and sc': "sc' = mshabal256_compress sc bufs n"
  shows "avx2_view k sc' = (avx2_view k sc)\<lparr>vst := spec_blocks n (vst (avx2_view k sc)) (lane8 k bufs)\<rparr>"
    and "length (wstate sc') = 352" and "wbuf sc' = wbuf sc" and "wptr sc' = wptr sc"
proof -
  obtain sc1 regs where lp: "avx2_loop n sc bufs (avx2_load (wstate sc)) = (sc1, regs)"
    by (cases "avx2_loop n sc bufs (avx2_load (wstate sc))")
  note s = avx2_loop_lane [OF avx2_store_load [OF assms(1)] lp]
  have e: "sc' = sc1\<lparr>wstate := avx2_store regs (wstate sc)\<rparr>"
    using s [of k] lp by (simp add: sc' mshabal256_compress_def)
  have ls: "length (avx2_store regs (wstate sc)) = 352" "avx2_load (avx2_store regs (wstate sc)) = regs"
    using avx2_load_store [OF assms(1)] s by blast+
  have "avx2_regs_view k sc' regs = avx2_regs_view k sc1 regs"
    by (simp add: e avx2_regs_view_def)
  then show "avx2_view k sc' = (avx2_view k sc)\<lparr>vst := spec_blocks n (vst (avx2_view k sc)) (lane8 k bufs)\<rparr>"
    using s [of k] ls by (simp add: avx2_view_def e)
  show "length (wstate sc') = 352" "wbuf sc' = wbuf sc" "wptr sc' = wptr sc"
    using s ls by (simp_all add: e)
qed

section \<open>The entry points in each lane\<close>

text \<open>A context with its state array in place.\<close>

definition avx2_ok :: "mshabal256_context \<Rightarrow> bool" where
  "avx2_ok sc \<longleftrightarrow> length (wstate sc) = 352"

lemma avx2_fill_view:
  "avx2_view k (avx2_fill sc d off n) =
     (avx2_view k sc)\<lparr>vbuf := blit (lane8 k (wbuf sc)) off (take n (lane8 k d))\<rparr>"
  "wstate (avx2_fill sc d off n) = wstate sc" "wptr (avx2_fill sc d off n) = wptr sc"
  by (simp_all add: avx2_fill_def avx2_view_def avx2_regs_view_def split: prod.splits)

lemma avx2_view_sel [simp]:
  "vbuf (avx2_view k sc) = lane8 k (wbuf sc)" "vptr (avx2_view k sc) = wptr sc"
  "avx2_view k (sc\<lparr>wptr := p\<rparr>) = (avx2_view k sc)\<lparr>vptr := p\<rparr>"
  by (simp_all add: avx2_view_def avx2_regs_view_def split: prod.splits)

text \<open>Bookkeeping of a step that may change the buffers, the pointer and the state.\<close>

lemma avx2_compress_frame:
  assumes "avx2_ok sc"
  shows "avx2_ok (mshabal256_compress sc bufs n)" "wbuf (mshabal256_compress sc bufs n) = wbuf sc"
    "wptr (mshabal256_compress sc bufs n) = wptr sc"
    "vst (avx2_view k (mshabal256_compress sc bufs n)) = spec_blocks n (vst (avx2_view k sc)) (lane8 k bufs)"
  using avx2_compress_lane [OF assms [unfolded avx2_ok_def] refl] by (simp_all add: avx2_ok_def)

lemma avx2_fill_frame [simp]:
  "wstate (avx2_fill sc d off n) = wstate sc" "wptr (avx2_fill sc d off n) = wptr sc"
  "avx2_ok (avx2_fill sc d off n) = avx2_ok sc"
  "lane8 k (wbuf (avx2_fill sc d off n)) = blit (lane8 k (wbuf sc)) off (take n (lane8 k d))"
  "vst (avx2_view k (avx2_fill sc d off n)) = vst (avx2_view k sc)"
  by (simp_all add: avx2_fill_def avx2_ok_def avx2_view_def avx2_regs_view_def split: prod.splits)

lemma avx2_head_view:
  assumes ok: "avx2_ok sc" and len: "len \<le> length (lane8 k d)"
    and full: "wptr sc = 0 \<or> 64 - wptr sc \<le> len" and h: "avx2_head sc d len = (sc', d', len')"
  shows "view_fill (avx2_view k sc) (take len (lane8 k d)) = (avx2_view k sc', take len' (lane8 k d'))"
    and "avx2_ok sc'" and "len' \<le> length (lane8 k d')"
proof -
  let ?c = "64 - wptr sc" and ?f = "avx2_fill sc d (wptr sc) (64 - wptr sc)"
  have "view_fill (avx2_view k sc) (take len (lane8 k d)) = (avx2_view k sc', take len' (lane8 k d')) \<and>
      avx2_ok sc' \<and> len' \<le> length (lane8 k d')"
  proof (cases "wptr sc = 0")
    case True
    then show ?thesis using h ok len by (simp add: avx2_head_def view_fill_def)
  next
    case False
    have e: "sc' = mshabal256_compress ?f (wbuf ?f) 1" "d' = map_oct (drop ?c) d" "len' = len - ?c"
      using h False by (simp_all add: avx2_head_def Let_def)
    have okf: "avx2_ok ?f" using ok by simp
    have t: "take ?c (take len (lane8 k d)) = take ?c (lane8 k d)" using full False by (simp add: min_def)
    note c = avx2_compress_frame [OF okf, where bufs = "wbuf ?f" and n = 1]
    let ?b = "blit (lane8 k (wbuf sc)) (wptr sc) (take ?c (lane8 k d))"
    have v: "avx2_view k sc' = (avx2_view k sc)\<lparr>vbuf := ?b, vst := spec_block (vst (avx2_view k sc)) ?b\<rparr>"
      using c by (intro hash_view.equality) (simp_all add: e)
    show ?thesis
      using False len full ok c by (simp add: view_fill_def Let_def t v) (simp add: e drop_take)
  qed
  then show "view_fill (avx2_view k sc) (take len (lane8 k d)) = (avx2_view k sc', take len' (lane8 k d'))"
    "avx2_ok sc'" "len' \<le> length (lane8 k d')" by blast+
qed

lemma avx2_tail_view:
  assumes ok: "avx2_ok sc" and len: "len \<le> length (lane8 k d)"
  shows "avx2_view k (avx2_tail sc d len) = view_rest (avx2_view k sc) (take len (lane8 k d))"
    and "avx2_ok (avx2_tail sc d len)"
proof -
  let ?n = "len div 64"
  have b: "64 * ?n \<le> len" by simp
  note c = avx2_compress_frame [OF ok, where bufs = d and n = ?n]
  have r: "take (len mod 64) (drop (64 * ?n) (lane8 k d)) = drop (64 * ?n) (take len (lane8 k d))"
    by (simp add: drop_take minus_mult_div_eq_mod)
  have s: "spec_blocks ?n st (take len (lane8 k d)) = spec_blocks ?n st (lane8 k d)" for st
    using spec_blocks_take [OF b len] .
  have z: "?n = 0 \<Longrightarrow> len mod 64 = len"
    using div_mult_mod_eq [of len 64] by simp
  have l: "length (drop (64 * ?n) (take len (lane8 k d))) = len mod 64"
    using len by (simp add: minus_mult_div_eq_mod)
  show "avx2_view k (avx2_tail sc d len) = view_rest (avx2_view k sc) (take len (lane8 k d))"
  proof (cases "?n = 0")
    case True
    then show ?thesis
      using z len by (auto intro!: hash_view.equality simp: avx2_tail_def view_rest_def Let_def min_absorb2)
  next
    case False
    then show ?thesis
      using c r s l len
      by (auto intro!: hash_view.equality simp: avx2_tail_def view_rest_def Let_def min_absorb2)
  qed
  show "avx2_ok (avx2_tail sc d len)"
    using ok c by (simp_all add: avx2_tail_def Let_def) (simp_all add: avx2_ok_def)
qed

lemma avx2_update_view:
  assumes ok: "avx2_ok sc" and len: "len \<le> length (lane8 k d)"
  shows "avx2_view k (mshabal256 sc d len) = view_update (avx2_view k sc) (take len (lane8 k d))"
    and "avx2_ok (mshabal256 sc d len)"
proof -
  obtain sc' d' len' where h: "avx2_head sc d len = (sc', d', len')" by (cases "avx2_head sc d len")
  note hd = avx2_head_view [OF ok len _ h]
  consider (short) "wptr sc \<noteq> 0" "64 - wptr sc > len" | (full) "wptr sc = 0 \<or> 64 - wptr sc \<le> len"
    by linarith
  then have "avx2_view k (mshabal256 sc d len) = view_update (avx2_view k sc) (take len (lane8 k d)) \<and>
      avx2_ok (mshabal256 sc d len)"
  proof cases
    case short
    then show ?thesis
      using len ok
      by (auto intro!: hash_view.equality simp: mshabal256_def view_update_def Let_def avx2_ok_def min_absorb2)
  next
    case full
    note hd = hd [OF full]
    have "mshabal256 sc d len = avx2_tail sc' d' len'"
      using full h by (auto simp: mshabal256_def Let_def)
    moreover have "view_update (avx2_view k sc) (take len (lane8 k d)) =
        view_rest (avx2_view k sc') (take len' (lane8 k d'))"
      using full len hd(1) by (auto simp: view_update_def min_absorb2)
    ultimately show ?thesis
      using avx2_tail_view [OF hd(2,3)] by simp
  qed
  then show "avx2_view k (mshabal256 sc d len) = view_update (avx2_view k sc) (take len (lane8 k d))"
    "avx2_ok (mshabal256 sc d len)"
    by blast+
qed

text \<open>The padded last block.\<close>

lemma avx2_final_round_view:
  assumes ok: "avx2_ok sc"
  shows "vst (avx2_view k (avx2_final_round sc)) = spec_final_round (lane8 k (wbuf sc)) (vst (avx2_view k sc))"
    and "avx2_ok (avx2_final_round sc)" and "wbuf (avx2_final_round sc) = wbuf sc"
proof -
  let ?c = "mshabal256_compress sc (wbuf sc) 1"
  note c = avx2_compress_frame [OF ok, where bufs = "wbuf sc" and n = 1]
  have w: "stW (vst (avx2_view k ?c)) = w64 (wWhigh ?c) (wWlow ?c)"
    by (simp add: avx2_view_def avx2_regs_view_def split: prod.splits)
  have "vst (avx2_view k (avx2_final_round sc)) =
      (vst (avx2_view k ?c))\<lparr>stW := w64 (wWhigh ?c) (wWlow ?c) - 1\<rparr>"
    by (simp add: avx2_final_round_def avx2_view_def avx2_regs_view_def Let_def flip: w64_pred split: prod.splits)
  then show "vst (avx2_view k (avx2_final_round sc)) = spec_final_round (lane8 k (wbuf sc)) (vst (avx2_view k sc))"
    using c(4) [of k] w by (simp add: spec_final_round_def Let_def)
  show "avx2_ok (avx2_final_round sc)" "wbuf (avx2_final_round sc) = wbuf sc"
    using c by (simp_all add: avx2_final_round_def Let_def avx2_ok_def)
qed

lemma avx2_final_rounds_view:
  assumes "avx2_ok sc"
  shows "vst (avx2_view k ((avx2_final_round ^^ n) sc)) =
      (spec_final_round (lane8 k (wbuf sc)) ^^ n) (vst (avx2_view k sc)) \<and>
    avx2_ok ((avx2_final_round ^^ n) sc) \<and> wbuf ((avx2_final_round ^^ n) sc) = wbuf sc"
  by (induction n) (simp_all add: assms avx2_final_round_view)

lemma avx2_output_words:
  "map (\<lambda>i. wstate sc ! (288 + 8 * i + k mod 8)) [0..<8] = drop 8 (stC (vst (avx2_view k sc)))"
proof -
  have m: "[0..<16] = [0..<12] @ [12, 13, 14, 15 :: nat]" by (simp add: upt_rec)
  have "stC (vst (avx2_view k sc)) = map (\<lambda>j. wstate sc ! (8 * (j + 28) + k mod 8)) [0..<16]"
    by (simp add: avx2_view_def avx2_regs_view_def avx2_load_def lane8_loadu m comp_def)
  then show ?thesis by (auto intro!: nth_equalityI simp: algebra_simps)
qed

lemma lane8_iota: "lane8 k (Oct 0 1 2 3 4 5 6 7) = k mod 8"
proof -
  have "elems8 (Oct 0 1 2 3 4 5 6 7) = [0..<8]" by (simp add: upt_rec)
  then show ?thesis by (simp add: lane8_def)
qed

lemma avx2_close_view:
  assumes ok: "avx2_ok sc" and len: "length (lane8 k (wbuf sc)) = 64" and p: "wptr sc < 64"
  shows "concat (map bytes32 (lane8 k (snd (mshabal256_close sc)))) = view_close 256 (avx2_view k sc)"
proof -
  let ?p = "avx2_pad sc"
  have b1: "lane8 k (wbuf ?p) = pad_block (take (wptr sc) (lane8 k (wbuf sc)))"
    using pad_buffer [OF len p] by (simp add: avx2_pad_def Let_def)
  have ok1: "avx2_ok ?p" and v1: "vst (avx2_view k ?p) = vst (avx2_view k sc)"
    using ok by (simp_all add: avx2_pad_def Let_def avx2_ok_def avx2_view_def avx2_regs_view_def split: prod.splits)
  note f = avx2_final_rounds_view [OF ok1, of k 4]
  have four: "avx2_final_round (avx2_final_round (avx2_final_round (avx2_final_round s))) = (avx2_final_round ^^ 4) s" for s
    by (simp add: numeral_eq_Suc)
  have "lane8 k (snd (mshabal256_close sc)) = drop 8 (stC (vst (avx2_view k ((avx2_final_round ^^ 4) ?p))))"
    unfolding mshabal256_close_def Let_def four snd_conv lane8_map lane8_iota
    by (rule avx2_output_words)
  then show ?thesis
    using f by (simp add: view_close_def spec_output_def spec_final_def b1 v1)
qed

section \<open>Initialisation\<close>

lemmas avx2_prefix_words = write_pairs_prefix [where hi = "\<lambda>m u. 1", folded avx2_prefix_def]

lemma avx2_init_lane:
  shows "length (lane8 k (wbuf (mshabal256_init sc))) = 64"
    and "wptr (mshabal256_init sc) = 0"
    and "avx2_ok (mshabal256_init sc)"
    and "vst (avx2_view k (mshabal256_init sc)) = spec_iv 256"
proof -
  define b1 where "b1 = avx2_prefix 256 (replicate 64 0)"
  define b2 where "b2 = avx2_prefix 272 b1"
  have z: "length (replicate 64 (0 :: u8)) = 64" "\<And>u. u < 16 \<Longrightarrow>
      replicate 64 (0 :: u8) ! (4 * u + 2) = 0 \<and> replicate 64 (0 :: u8) ! (4 * u + 3) = 0"
    by simp_all
  have h: "(1 :: u8) = of_nat (drop_bit 8 (256 + u))" "(1 :: u8) = of_nat (drop_bit 8 (272 + u))"
    if "u < 16" for u :: nat
  proof -
    have "drop_bit 8 (256 + u) = 1" "drop_bit 8 (272 + u) = 1"
      using that by (simp_all add: drop_bit_eq_div)
    then show "(1 :: u8) = of_nat (drop_bit 8 (256 + u))" "(1 :: u8) = of_nat (drop_bit 8 (272 + u))"
      by simp_all
  qed
  have p1: "length b1 = 64" "block_words b1 = block_words (prefix_block 256)"
    "\<And>u. u < 16 \<Longrightarrow> b1 ! (4 * u + 2) = 0 \<and> b1 ! (4 * u + 3) = 0"
    unfolding b1_def using avx2_prefix_words [OF z(1) _ z(2) h(1)] by simp_all
  have p2: "length b2 = 64" "block_words b2 = block_words (prefix_block 272)"
    unfolding b2_def using avx2_prefix_words [OF p1(1) _ p1(3) h(2)] by simp_all
  define sc1 where "sc1 = sc\<lparr>wstate := replicate 352 0, wbuf := dup8 b1, wWhigh := 0xFFFFFFFF, wWlow := 0xFFFFFFFF\<rparr>"
  define sc2 where "sc2 = mshabal256_compress sc1 (dup8 b1) 1"
  define sc3 where "sc3 = sc2\<lparr>wbuf := dup8 b2\<rparr>"
  define sc4 where "sc4 = mshabal256_compress sc3 (dup8 b2) 1"
  have ok1: "avx2_ok sc1" by (simp add: sc1_def avx2_ok_def)
  note c1 = avx2_compress_frame [OF ok1, where bufs = "dup8 b1" and n = 1, folded sc2_def]
  have ok3: "avx2_ok sc3" using c1 by (simp add: sc3_def avx2_ok_def)
  note c3 = avx2_compress_frame [OF ok3, where bufs = "dup8 b2" and n = 1, folded sc4_def]
  have dm: "map_oct f (dup8 x) = dup8 (f x)" for f :: "u8 list \<Rightarrow> u8 list" and x by (simp add: dup8_def)
  have i: "mshabal256_init sc = sc4\<lparr>wptr := 0\<rparr>"
  proof -
    have m: "wbuf sc1 = dup8 b1" "wbuf sc2 = dup8 b1" "wbuf sc3 = dup8 b2"
      using c1 by (simp_all add: sc1_def sc3_def)
    show ?thesis
      unfolding mshabal256_init_def Let_def
      by (simp del: One_nat_def add: sc1_def [symmetric] dm b1_def [symmetric] sc2_def [symmetric] m
          b2_def [symmetric] sc3_def [symmetric] sc4_def [symmetric])
  qed
  have v1: "vst (avx2_view k sc1) = zero_state"
    by (simp add: sc1_def avx2_view_def avx2_regs_view_def avx2_load_def lane8_loadu zero_state_def
        comp_def w64_def) (auto intro!: nth_equalityI simp: nth_append nth_Cons')
  have v2: "vst (avx2_view k sc2) = spec_block zero_state (prefix_block 256)"
    using c1(4) [of k] v1 spec_block_words [OF p1(2)] by simp
  have v3: "vst (avx2_view k sc3) = vst (avx2_view k sc2)"
    by (simp add: sc3_def avx2_view_def avx2_regs_view_def split: prod.splits)
  have "vst (avx2_view k sc4) = spec_iv 256"
    using c3(4) [of k] v2 v3 spec_block_words [OF p2(2)] by (simp add: spec_iv_def)
  then show "vst (avx2_view k (mshabal256_init sc)) = spec_iv 256"
    by (simp add: i avx2_view_def avx2_regs_view_def split: prod.splits)
  show "length (lane8 k (wbuf (mshabal256_init sc))) = 64" "wptr (mshabal256_init sc) = 0"
    "avx2_ok (mshabal256_init sc)"
    using c3 p2 by (simp_all add: i sc3_def avx2_ok_def)
qed

section \<open>The contract in each lane\<close>

text \<open>A chunk is the eight inputs and their common length.\<close>

definition avx2_took :: "nat \<Rightarrow> mshabal256_context \<Rightarrow> u8 list \<Rightarrow> bool" where
  "avx2_took k sc msg \<longleftrightarrow> avx2_ok sc \<and> absorbed 256 (avx2_view k sc) msg"

definition avx2_digest :: "nat \<Rightarrow> mshabal256_context \<Rightarrow> u8 list" where
  "avx2_digest k sc = concat (map bytes32 (lane8 k (snd (mshabal256_close sc))))"

interpretation avx2: incremental_hash
  "mshabal256_init sc" "\<lambda>sc (d, len). mshabal256 sc d len" "avx2_digest k"
  "\<lambda>(d, len). len \<le> length (lane8 k d)" "\<lambda>(d, len). take len (lane8 k d)"
  "avx2_took k" shabal256 for sc k
proof unfold_locales
  show "avx2_took k (mshabal256_init sc) []"
    using avx2_init_lane by (simp add: avx2_took_def absorbed_Nil)
next
  fix c m and d :: "u8 list oct \<times> nat"
  assume "avx2_took k c m" "(\<lambda>(d, len). len \<le> length (lane8 k d)) d"
  then show "avx2_took k ((\<lambda>sc (d, len). mshabal256 sc d len) c d)
      (m @ (\<lambda>(d, len). take len (lane8 k d)) d)"
    by (auto simp: avx2_took_def avx2_update_view intro: absorbed_update split: prod.splits)
next
  fix c m
  assume t: "avx2_took k c m"
  then have "length (lane8 k (wbuf c)) = 64" "wptr c < 64"
    using absorbed_bounds [of 256 "avx2_view k c" m] by (auto simp: avx2_took_def)
  with t show "avx2_digest k c = shabal256 m"
    using avx2_close_view [of c k] absorbed_close
    by (auto simp: avx2_took_def avx2_digest_def)
qed

end
