(* ===== verification/Burstmath.thy ===== *)
theory Burstmath
  imports Shabal64 Mshabal_SSE4 Mshabal256_AVX2
begin

unbundle bit_operations_syntax

text \<open>
  \<open>burstmath.c\<close>: the scoop number of a block (\<open>calculate_scoop\<close>, on the assembly
  Shabal) and the deadlines of four or eight nonces at once (\<open>calculate_deadlines_sse4\<close>,
  \<open>calculate_deadlines_avx2\<close>, on the vector ones). The proof-of-capacity algorithm is also
  stated for one nonce, on the reference hash, and the C functions are proved to compute it
  in every lane. An out-of-bounds read and a division by zero are \<open>None\<close>.
\<close>

section \<open>Constants and the pieces shared by the two builds\<close>

definition SCOOP_SIZE :: nat where "SCOOP_SIZE = 64"
definition NUM_SCOOPS :: nat where "NUM_SCOOPS = 4096"
definition NONCE_SIZE :: nat where "NONCE_SIZE = NUM_SCOOPS * SCOOP_SIZE"
definition HASH_SIZE :: nat where "HASH_SIZE = 32"
definition HASH_CAP :: nat where "HASH_CAP = 4096"

lemmas burst_sizes = SCOOP_SIZE_def NUM_SCOOPS_def NONCE_SIZE_def HASH_SIZE_def HASH_CAP_def

text \<open>The macro \<open>SET_NONCE\<close>: \<open>xv\<close> points to the eight bytes of the number.\<close>

definition SET_NONCE :: "u8 list \<Rightarrow> u64 \<Rightarrow> nat \<Rightarrow> u8 list" where
  "SET_NONCE gendata nonce offset =
     (let xv = bytes64 nonce; at = NONCE_SIZE + offset in
      gendata[at := xv ! 7, at + 1 := xv ! 6, at + 2 := xv ! 5, at + 3 := xv ! 4,
              at + 4 := xv ! 3, at + 5 := xv ! 2, at + 6 := xv ! 1, at + 7 := xv ! 0])"

text \<open>\<open>gendata[i] ^= final[i % 32]\<close> for \<open>i < NONCE_SIZE\<close>.\<close>

definition xor_final :: "u8 list \<Rightarrow> u8 list \<Rightarrow> u8 list" where
  "xor_final gendata final =
     fold (\<lambda>i g. g[i := g ! i XOR final ! (i mod 32)]) [0..<NONCE_SIZE] gendata"

text \<open>
  The two \<open>memcpy\<close>s that assemble the scoop; the offsets are computed in \<open>uint32_t\<close>.
\<close>

definition read_scoop :: "bool \<Rightarrow> u8 list \<Rightarrow> u32 \<Rightarrow> u8 list option" where
  "read_scoop poc2 gendata scoop_nr =
     do {
       lo \<leftarrow> mem_read gendata (unat (scoop_nr * 64)) 32;
       hi \<leftarrow> (if poc2 then mem_read gendata (unat ((4095 - scoop_nr) * 64 + 32)) 32
             else mem_read gendata (unat (scoop_nr * 64 + 32)) 32);
       Some (lo @ hi)
     }"

definition udiv64 :: "u64 \<Rightarrow> u64 \<Rightarrow> u64 option" where
  "udiv64 a b = (if b = 0 then None else Some (a div b))"

section \<open>\<open>calculate_scoop\<close>\<close>

definition calculate_scoop :: "(nat \<Rightarrow> asm_frame) \<Rightarrow> shabal_context \<Rightarrow> u64 \<Rightarrow> u8 list \<Rightarrow> u32 option" where
  "calculate_scoop f sc height gensig =
     do {
       gensig \<leftarrow> mem_read gensig 0 32;
       sc \<leftarrow> shabal_init sc 256;
       sc \<leftarrow> shabal (f 0) sc gensig 32;
       sc \<leftarrow> shabal (f 1) sc (be_bytes64 height) 8;
       new_gensig \<leftarrow> shabal_close (f 2) sc 0 0;
       Some (push_bit 8 (ucast (new_gensig ! 30 AND 0x0F)) OR ucast (new_gensig ! 31))
     }"

section \<open>\<open>calculate_deadlines_sse4\<close>\<close>

fun gather4 :: "'a option quad \<Rightarrow> 'a quad option" where
  "gather4 (Quad a b c d) =
     do { a \<leftarrow> a; b \<leftarrow> b; c \<leftarrow> c; d \<leftarrow> d; Some (Quad a b c d) }"

text \<open>What \<open>mshabal_close\<close> stores through its four destination pointers.\<close>

definition sse4_close_bytes :: "mshabal_context \<Rightarrow> u8 list quad" where
  "sse4_close_bytes x = map_quad (\<lambda>ws. concat (map bytes32 ws)) (snd (sse4_mshabal_close x (dup4 0) 0))"

definition sse4_gen_step :: "nat \<Rightarrow> mshabal_context \<times> u8 list quad \<Rightarrow> mshabal_context \<times> u8 list quad" where
  "sse4_gen_step i xg =
     (let (x, gendata) = xg;
          x = sse4_mshabal_init x 256;
          len = NONCE_SIZE + 16 - i;
          len = (if len > HASH_CAP then HASH_CAP else len);
          x = sse4_mshabal x (given (map_quad (drop i) gendata)) len;
          out = sse4_close_bytes x
      in (fst (sse4_mshabal_close x (dup4 0) 0), zip4 (\<lambda>g h. blit g (i - HASH_SIZE) h) gendata out))"

text \<open>The loop from \<open>NONCE_SIZE\<close> down by \<open>HASH_SIZE\<close>, by the number of rounds left.\<close>

fun sse4_gen_loop :: "nat \<Rightarrow> mshabal_context \<times> u8 list quad \<Rightarrow> mshabal_context \<times> u8 list quad" where
  "sse4_gen_loop 0 xg = xg"
| "sse4_gen_loop (Suc n) xg = sse4_gen_loop n (sse4_gen_step (HASH_SIZE * Suc n) xg)"

text \<open>Building the nonce, in place in the arrays \<open>gendata\<close>, whose previous contents are arbitrary.\<close>

definition sse4_gendata :: "u64 quad \<Rightarrow> u64 quad \<Rightarrow> mshabal_context \<Rightarrow> u8 list quad \<Rightarrow> u8 list quad" where
  "sse4_gendata addr nonce x gendata =
     (let gendata = zip4 (\<lambda>g a. SET_NONCE g a 0) gendata addr;
          gendata = zip4 (\<lambda>g n. SET_NONCE g n 8) gendata nonce;
          (x, gendata) = sse4_gen_loop (NONCE_SIZE div HASH_SIZE) (x, gendata);
          x = sse4_mshabal_init x 256;
          x = sse4_mshabal x (given gendata) (16 + NONCE_SIZE);
          final = sse4_close_bytes x
      in zip4 xor_final gendata final)"

definition calculate_deadlines_sse4 ::
  "bool \<Rightarrow> u64 quad \<Rightarrow> u32 quad \<Rightarrow> u8 list quad \<Rightarrow> u64 quad \<Rightarrow> u64 quad \<Rightarrow>
   mshabal_context \<Rightarrow> u8 list quad \<Rightarrow> mshabal_context \<Rightarrow> u64 quad option" where
  "calculate_deadlines_sse4 poc2 base_target scoop_nr gensig addr nonce x gendata deadline_sc =
     (let gendata = sse4_gendata addr nonce x gendata in
      do {
        gensig \<leftarrow> gather4 (map_quad (\<lambda>s. mem_read s 0 HASH_SIZE) gensig);
        let deadline_sc = sse4_mshabal_init deadline_sc 256;
        let deadline_sc = sse4_mshabal deadline_sc (given gensig) HASH_SIZE;
        scoop \<leftarrow> gather4 (zip4 (read_scoop poc2) gendata scoop_nr);
        let deadline_sc = sse4_mshabal deadline_sc (given scoop) SCOOP_SIZE;
        let target_result = map_quad load64 (sse4_close_bytes deadline_sc);
        gather4 (zip4 udiv64 target_result base_target)
      })"

section \<open>Proof of capacity for one nonce\<close>

text \<open>One generation step prepends the hash of (at most) the first 4096 bytes.\<close>

definition poc_step :: "u8 list \<Rightarrow> u8 list" where
  "poc_step g = shabal256 (take 4096 g) @ g"

definition poc_gen :: "u64 \<Rightarrow> u64 \<Rightarrow> u8 list" where
  "poc_gen addr nonce = (poc_step ^^ 8192) (be_bytes64 addr @ be_bytes64 nonce)"

definition poc_nonce :: "u64 \<Rightarrow> u64 \<Rightarrow> u8 list" where
  "poc_nonce addr nonce =
     (let g = poc_gen addr nonce; final = shabal256 g
      in map (\<lambda>i. g ! i XOR final ! (i mod 32)) [0..<262144])"

text \<open>The \<open>n\<close>-th scoop: 64 bytes of the nonce; the second half is mirrored since PoC2.\<close>

definition poc_scoop :: "bool \<Rightarrow> u8 list \<Rightarrow> nat \<Rightarrow> u8 list" where
  "poc_scoop poc2 nonce n =
     take 32 (drop (64 * n) nonce) @
     take 32 (drop (64 * (if poc2 then 4095 - n else n) + 32) nonce)"

definition poc_deadline :: "bool \<Rightarrow> u64 \<Rightarrow> u32 \<Rightarrow> u8 list \<Rightarrow> u64 \<Rightarrow> u64 \<Rightarrow> u64" where
  "poc_deadline poc2 base_target scoop gensig addr nonce =
     load64 (shabal256 (take 32 gensig @ poc_scoop poc2 (poc_nonce addr nonce) (unat scoop))) div base_target"

definition poc_scoop_number :: "u64 \<Rightarrow> u8 list \<Rightarrow> nat" where
  "poc_scoop_number height gensig =
     (let h = shabal256 (take 32 gensig @ be_bytes64 height)
      in (unat (h ! 30) mod 16) * 256 + unat (h ! 31))"

section \<open>Generation in one lane\<close>

lemma length_poc_gen_steps: "length ((poc_step ^^ n) g) = 32 * n + length g"
  by (induction n) (simp_all add: poc_step_def)

lemma length_poc_gen [simp]: "length (poc_gen addr nonce) = 262160"
  by (simp add: poc_gen_def length_poc_gen_steps)

lemma length_poc_nonce [simp]: "length (poc_nonce addr nonce) = 262144"
  by (simp add: poc_nonce_def Let_def)

text \<open>The in-place generation of one lane, from the round that starts at offset \<open>32 n\<close>.\<close>

fun lane_gen :: "nat \<Rightarrow> u8 list \<Rightarrow> u8 list" where
  "lane_gen 0 g = g"
| "lane_gen (Suc n) g =
     lane_gen n (blit g (32 * n) (shabal256 (take (min 4096 (262160 - 32 * Suc n)) (drop (32 * Suc n) g))))"

lemma take_min_length: "take (min k (length xs)) xs = take k xs"
  by (simp add: min_def)

lemma lane_gen_poc: "length g = 262160 \<Longrightarrow> n \<le> 8192 \<Longrightarrow> lane_gen n g = (poc_step ^^ n) (drop (32 * n) g)"
proof (induction n arbitrary: g)
  case (Suc n)
  let ?d = "drop (32 * Suc n) g"
  let ?h = "shabal256 (take (min 4096 (262160 - 32 * Suc n)) ?d)"
  have d: "262160 - 32 * Suc n = length ?d" using Suc.prems by (simp del: mult_Suc_right)
  have t: "take (min 4096 (262160 - 32 * Suc n)) ?d = take 4096 ?d"
    unfolding d by (rule take_min_length)
  have l: "length (blit g (32 * n) ?h) = 262160"
    using Suc.prems by simp
  have "drop (32 * n) (blit g (32 * n) ?h) = ?h @ ?d"
    using Suc.prems by (simp add: blit_def add.commute)
  then have "lane_gen (Suc n) g = (poc_step ^^ n) (?h @ ?d)"
    using Suc.IH [OF l] Suc.prems by simp
  also have "?h @ ?d = poc_step ?d" by (simp only: t poc_step_def)
  finally show ?case by (simp add: funpow_swap1)
qed simp

lemma set_nonces:
  assumes "length g = 262160"
  shows "drop 262144 (SET_NONCE (SET_NONCE g addr 0) nonce 8) = be_bytes64 addr @ be_bytes64 nonce"
    and "length (SET_NONCE (SET_NONCE g addr 0) nonce 8) = 262160"
proof -
  let ?s = "SET_NONCE (SET_NONCE g addr 0) nonce 8"
  show l: "length ?s = 262160" using assms by (simp add: SET_NONCE_def Let_def)
  have e: "be_bytes64 w = map (\<lambda>k. bytes64 w ! (7 - k)) [0..<8]" for w
    by (rule nth_equalityI) (simp_all add: be_bytes64_def rev_nth)
  have "drop 262144 ?s ! i = (be_bytes64 addr @ be_bytes64 nonce) ! i" if "i < 16" for i
  proof -
    have "i \<in> set [0..<16]" using that by simp
    then show ?thesis
      using assms
      by (simp add: upt_rec [of 0 16] upt_rec)
         (elim disjE; simp add: SET_NONCE_def Let_def burst_sizes e nth_append)
  qed
  then show "drop 262144 ?s = be_bytes64 addr @ be_bytes64 nonce"
    using l by (intro nth_equalityI) simp_all
qed

lemma xor_final_prefix:
  "n \<le> length g \<Longrightarrow> fold (\<lambda>i g. g[i := g ! i XOR final ! (i mod 32)]) [0..<n] g =
    map (\<lambda>i. g ! i XOR final ! (i mod 32)) [0..<n] @ drop n g" for final :: "u8 list"
proof (induction n)
  case (Suc n)
  then show ?case
    by (simp add: list_update_append nth_append Cons_nth_drop_Suc [symmetric])
qed simp

lemma xor_final_poc:
  "xor_final (poc_gen addr nonce) (shabal256 (poc_gen addr nonce)) =
   poc_nonce addr nonce @ be_bytes64 addr @ be_bytes64 nonce"
proof -
  have "drop (32 * n) ((poc_step ^^ n) g) = g" for n and g :: "u8 list"
    by (induction n) (simp_all add: poc_step_def add.commute)
  from this [of 8192] have "drop 262144 (poc_gen addr nonce) = be_bytes64 addr @ be_bytes64 nonce"
    by (simp add: poc_gen_def)
  then show ?thesis
    using xor_final_prefix [of 262144 "poc_gen addr nonce" "shabal256 (poc_gen addr nonce)"]
    by (simp add: xor_final_def burst_sizes poc_nonce_def Let_def)
qed

section \<open>The scoop of a nonce\<close>

lemma unat_scoop_offset: "unat (s :: u32) < 4096 \<Longrightarrow> unat (s * 64) = unat s * 64"
  by (simp add: unat_word_ariths)

lemma unat_scoop_high: "unat (s :: u32) < 4096 \<Longrightarrow> unat (s * 64 + 32) = unat s * 64 + 32"
  by (simp add: unat_word_ariths)

lemma unat_scoop_mirror:
  assumes "unat (s :: u32) < 4096"
  shows "unat ((4095 - s) * 64 + 32) = (4095 - unat s) * 64 + 32"
proof -
  have "s \<le> 4095" using assms by (simp add: word_le_nat_alt)
  then have d: "unat (4095 - s) = 4095 - unat s" by (simp add: unat_sub)
  then have "unat (4095 - s) < 4096" by simp
  from unat_scoop_high [OF this] show ?thesis by (simp only: d)
qed

lemma read_scoop_poc:
  assumes "unat scoop < 4096" "length tail = 16"
  shows "read_scoop poc2 (poc_nonce addr nonce @ tail) scoop = Some (poc_scoop poc2 (poc_nonce addr nonce) (unat scoop))"
proof -
  have "unat scoop * 64 + 64 \<le> 262144" "(4095 - unat scoop) * 64 + 64 \<le> 262144"
    using assms by simp_all
  then show ?thesis
    unfolding read_scoop_def unat_scoop_offset [OF assms(1)] unat_scoop_high [OF assms(1)]
      unat_scoop_mirror [OF assms(1)]
    using assms(2)
    by (cases poc2) (simp_all add: mem_read_def poc_scoop_def mult.commute [of 64] del: diff_mult_distrib diff_mult_distrib2)
qed

lemma read_scoop_length: "read_scoop poc2 g n = Some s \<Longrightarrow> length s = 64"
  by (auto simp: read_scoop_def mem_read_length split: bind_splits if_splits)

text \<open>One lane of the deadline computation, on the reference hash.\<close>

definition lane_deadline :: "bool \<Rightarrow> u64 \<Rightarrow> u32 \<Rightarrow> u8 list \<Rightarrow> u64 \<Rightarrow> u64 \<Rightarrow> u64 option" where
  "lane_deadline poc2 base_target scoop_nr gensig addr nonce =
     do {
       gensig \<leftarrow> mem_read gensig 0 32;
       scoop \<leftarrow> read_scoop poc2 (poc_nonce addr nonce @ be_bytes64 addr @ be_bytes64 nonce) scoop_nr;
       udiv64 (load64 (shabal256 (gensig @ scoop))) base_target
     }"

lemma lane_deadline_poc:
  assumes "32 \<le> length gensig" "unat scoop < 4096" "base_target \<noteq> 0"
  shows "lane_deadline poc2 base_target scoop gensig addr nonce =
    Some (poc_deadline poc2 base_target scoop gensig addr nonce)"
  using assms
  by (simp add: lane_deadline_def mem_read_def read_scoop_poc udiv64_def poc_deadline_def)

lemma lane_deadline_zero: "lane_deadline poc2 0 scoop gensig addr nonce = None"
  by (auto simp: lane_deadline_def udiv64_def split: bind_splits)

lemma lane_deadline_outside:
  assumes "4096 \<le> unat scoop" "unat scoop < 2 ^ 26"
  shows "lane_deadline poc2 bt scoop gensig addr nonce = None"
proof -
  have "unat (scoop * 64) = unat scoop * 64"
    using assms by (simp add: unat_word_ariths)
  then show ?thesis
    using assms by (auto simp: lane_deadline_def read_scoop_def mem_read_def split: bind_splits)
qed

text \<open>The offsets are 32-bit numbers, so the upper six bits of a scoop number do not matter, and a
  lane faults exactly when the rest is out of range.\<close>

lemma scoop_offset_wraps: "(take_bit 26 s :: u32) * 64 = s * 64"
proof -
  have "take_bit 26 s * 64 = push_bit 6 (take_bit 26 s)" "s * 64 = push_bit 6 s" by (simp_all add: push_bit_eq_mult)
  moreover have "push_bit 6 (take_bit 26 s) = push_bit 6 s" by (rule bit_word_eqI) (auto simp: bit_simps)
  ultimately show ?thesis by simp
qed

lemma unat_scoop_low: "unat (take_bit 26 s :: u32) = unat s mod 2 ^ 26"
  by (simp only: unsigned_take_bit_eq) (simp add: take_bit_eq_mod)

lemma read_scoop_wraps: "read_scoop poc2 g (take_bit 26 s) = read_scoop poc2 g s"
proof -
  have "(4095 - take_bit 26 s) * 64 = 4095 * 64 - take_bit 26 s * 64" "(4095 - s) * 64 = 4095 * 64 - s * 64"
    by (rule left_diff_distrib)+
  then show ?thesis by (simp only: read_scoop_def scoop_offset_wraps)
qed

lemma lane_deadline_exact:
  assumes "length gensig = 32" "base_target \<noteq> 0"
  shows "lane_deadline poc2 base_target s gensig addr nonce =
    (if unat s mod 2 ^ 26 < 4096 then Some (poc_deadline poc2 base_target (take_bit 26 s) gensig addr nonce) else None)"
proof -
  have "lane_deadline poc2 base_target s gensig addr nonce = lane_deadline poc2 base_target (take_bit 26 s) gensig addr nonce"
    by (simp only: lane_deadline_def read_scoop_wraps)
  then show ?thesis
    using lane_deadline_poc [of gensig "take_bit 26 s" base_target poc2 addr nonce] assms
      lane_deadline_outside [of "take_bit 26 s" poc2 base_target gensig addr nonce] by (simp add: unat_scoop_low)
qed

section \<open>The scoop number\<close>

lemma low_nibble: "unat ((x :: u8) AND 0x0F) = unat x mod 16"
proof -
  have "x AND 0x0F = take_bit 4 x" by (simp add: take_bit_eq_mask mask_eq_exp_minus_1)
  then show ?thesis by (simp add: unsigned_take_bit_eq take_bit_nat_def)
qed

lemma unat_u8_less: "unat (y :: u8) < 256"
  using unsigned_less [of y, where ?'a = nat] by simp

lemma unat_u32_of_u8: "unat (ucast (y :: u8) :: u32) = unat y"
  using unat_u8_less [of y] by (simp add: unsigned_ucast_eq take_bit_nat_eq_self_iff)

lemma scoop_word:
  "unat (push_bit 8 (ucast ((x :: u8) AND 0x0F)) OR ucast (y :: u8) :: u32) = unat x mod 16 * 256 + unat y"
proof -
  let ?x = "ucast (x AND 0x0F) :: u32"
  have y: "unat (ucast y :: u32) = unat y" by (rule unat_u32_of_u8)
  have x: "unat ?x = unat x mod 16" by (simp only: unat_u32_of_u8 low_nibble)
  have p: "unat (push_bit 8 ?x) = unat x mod 16 * 256"
    using x by (simp add: push_bit_eq_mult unat_word_ariths)
  have "push_bit 8 ?x AND ucast y = 0"
    by (rule bit_word_eqI) (auto simp: bit_simps dest: bit_imp_le_length)
  then have "push_bit 8 ?x OR ucast y = push_bit 8 ?x + ucast y"
    by (simp add: disjunctive_add_eq_or)
  then show ?thesis
    using p y unat_u8_less [of x] unat_u8_less [of y] by (simp add: unat_word_ariths)
qed

lemma poc_scoop_number_range: "poc_scoop_number height gensig < 4096"
proof -
  have "x < 16 \<Longrightarrow> y < 256 \<Longrightarrow> x * 256 + y < 4096" for x y :: nat by simp
  then show ?thesis
    using unat_u8_less [of "shabal256 (take 32 gensig @ be_bytes64 height) ! 31"]
    by (simp add: poc_scoop_number_def Let_def)
qed

lemma calculate_scoop_value:
  assumes f: "\<And>i. frame_ok (f i)" and b: "length (sbuf sc) = 64" and g: "32 \<le> length gensig"
  shows "\<exists>s. calculate_scoop f sc height gensig = Some s \<and> unat s = poc_scoop_number height gensig"
proof -
  let ?d = "(f 0, take 32 gensig, 32)" and ?e = "(f 1, be_bytes64 height, 8)"
  let ?up = "\<lambda>c (f, d, len). Option.bind c (\<lambda>sc. shabal f sc d len)"
  have sc: "sc\<lparr>sbuf := map ((!) (sbuf sc)) [0..<64]\<rparr> = sc"
    using b map_nth [of "sbuf sc"] by simp
  have s0: "shabal_took (shabal_init sc 256) []"
    using asm.took_start [where sc = sc and b = "(!) (sbuf sc)"] sc by simp
  have s2: "shabal_took (?up (?up (shabal_init sc 256) ?d) ?e) (([] @ take 32 gensig) @ be_bytes64 height)"
    using asm.took_update [OF asm.took_update [OF s0, of ?d], of ?e] f g by simp
  then obtain sc2 where sc2: "?up (?up (shabal_init sc 256) ?d) ?e = Some sc2"
    by (auto simp: shabal_took_def)
  have h: "shabal_close (f 2) sc2 0 0 = Some (shabal256 (take 32 gensig @ be_bytes64 height))"
    using shabal_took_close [OF s2 [unfolded sc2] frame_ok_base [OF f [of 2]]] by simp
  have "calculate_scoop f sc height gensig =
      (let h = shabal256 (take 32 gensig @ be_bytes64 height)
       in Some (push_bit 8 (ucast (h ! 30 AND 0x0F)) OR ucast (h ! 31)))"
    using sc2 h g by (auto simp: calculate_scoop_def mem_read_def Let_def split: bind_splits)
  then show ?thesis
    by (simp add: Let_def poc_scoop_number_def scoop_word)
qed

section \<open>Lanes of the four-way build\<close>

lemma lane4_Quad [simp]:
  "lane4 0 (Quad a b c d) = a" "lane4 1 (Quad a b c d) = b" "lane4 2 (Quad a b c d) = c" "lane4 3 (Quad a b c d) = d"
  by (simp_all add: lane4_def)

lemma quad_eqI: "(\<And>k. lane4 k p = lane4 k q) \<Longrightarrow> p = q"
proof -
  assume h: "\<And>k. lane4 k p = lane4 k q"
  show "p = q"
    using h [of 0] h [of 1] h [of 2] h [of 3]
    by (cases p; cases q) (simp only: lane4_Quad)
qed

lemma gather4_Some: "gather4 q = Some r \<longleftrightarrow> (\<forall>k. lane4 k q = Some (lane4 k r))"
proof
  assume "gather4 q = Some r"
  then have "q = map_quad Some r" by (cases q; cases r) (auto split: bind_splits)
  then show "\<forall>k. lane4 k q = Some (lane4 k r)" by simp
next
  assume "\<forall>k. lane4 k q = Some (lane4 k r)"
  then have "q = map_quad Some r" by (intro quad_eqI) simp
  then show "gather4 q = Some r" by (cases r) simp
qed

lemma gather4_None: "gather4 q = None \<longleftrightarrow> (\<exists>k. lane4 k q = None)"
proof
  assume "gather4 q = None"
  then have "\<exists>k \<in> {0, 1, 2, 3}. lane4 k q = None"
    by (cases q) (auto simp del: One_nat_def split: bind_splits)
  then show "\<exists>k. lane4 k q = None" by blast
next
  assume "\<exists>k. lane4 k q = None"
  then show "gather4 q = None" using gather4_Some [of q] by (metis option.distinct(1) not_Some_eq)
qed

lemma lane4_close_bytes: "lane4 k (sse4_close_bytes x) = sse4_digest k x"
  by (simp add: sse4_close_bytes_def sse4_digest_def)

lemma sse4_hash_one:
  "len \<le> length (lane4 k d) \<Longrightarrow>
   lane4 k (sse4_close_bytes (sse4_mshabal (sse4_mshabal_init x 256) (given d) len)) = shabal256 (take len (lane4 k d))"
  using sse4.digest_one [where d = "(d, len)" and k = k and sc = x] by (simp add: lane4_close_bytes)

lemma sse4_hash_two:
  "len \<le> length (lane4 k d) \<Longrightarrow> len' \<le> length (lane4 k d') \<Longrightarrow>
   lane4 k (sse4_close_bytes (sse4_mshabal (sse4_mshabal (sse4_mshabal_init x 256) (given d) len) (given d') len')) =
   shabal256 (take len (lane4 k d) @ take len' (lane4 k d'))"
  using sse4.digest_two [where d = "(d, len)" and e = "(d', len')" and k = k and sc = x] by (simp add: lane4_close_bytes)

lemma sse4_gen_step_lane:
  assumes "length (lane4 k g) = 262160" "i \<le> 262144"
  shows "lane4 k (snd (sse4_gen_step i (x, g))) =
    blit (lane4 k g) (i - 32) (shabal256 (take (min 4096 (262160 - i)) (drop i (lane4 k g))))"
proof -
  have l: "min 4096 (262160 - i) \<le> length (lane4 k (map_quad (drop i) g))"
    using assms by simp
  show ?thesis
    using sse4_hash_one [OF l, of x]
    by (cases "4096 < 262160 - i") (simp_all add: sse4_gen_step_def Let_def burst_sizes min_def)
qed

lemma sse4_gen_loop_lane:
  assumes "length (lane4 k g) = 262160" "n \<le> 8192"
  shows "lane4 k (snd (sse4_gen_loop n (x, g))) = lane_gen n (lane4 k g)"
  using assms
proof (induction n arbitrary: x g)
  case (Suc n)
  obtain x' g' where s: "sse4_gen_step (HASH_SIZE * Suc n) (x, g) = (x', g')" by fastforce
  have e: "32 * Suc n - 32 = 32 * n" by simp
  have g': "lane4 k g' = blit (lane4 k g) (32 * n)
      (shabal256 (take (min 4096 (262160 - 32 * Suc n)) (drop (32 * Suc n) (lane4 k g))))"
    using sse4_gen_step_lane [of k g "32 * Suc n" x] Suc.prems s unfolding e
    by (simp add: HASH_SIZE_def del: mult_Suc_right)
  moreover have "length (lane4 k g') = 262160"
    unfolding g' using Suc.prems by simp
  ultimately show ?case
    using Suc.IH [of g' x'] Suc.prems s by (simp del: mult_Suc_right)
qed simp

lemma sse4_gendata_lane:
  assumes "\<And>k. length (lane4 k g) = 262160"
  shows "lane4 k (sse4_gendata addr nonce x g) =
    poc_nonce (lane4 k addr) (lane4 k nonce) @ be_bytes64 (lane4 k addr) @ be_bytes64 (lane4 k nonce)"
proof -
  let ?g = "zip4 (\<lambda>g n. SET_NONCE g n 8) (zip4 (\<lambda>g a. SET_NONCE g a 0) g addr) nonce"
  have n: "NONCE_SIZE div HASH_SIZE = 8192" "16 + NONCE_SIZE = 262160" by (simp_all add: burst_sizes)
  obtain x' g' where l: "sse4_gen_loop 8192 (x, ?g) = (x', g')" by fastforce
  have s: "length (lane4 k ?g) = 262160"
    using set_nonces(2) [OF assms] by simp
  have "lane4 k g' = poc_gen (lane4 k addr) (lane4 k nonce)" for k
  proof -
    have "length (lane4 k ?g) = 262160"
      using set_nonces(2) [OF assms] by simp
    then have "lane4 k g' = (poc_step ^^ 8192) (drop (32 * 8192) (lane4 k ?g))"
      using sse4_gen_loop_lane [of k ?g 8192 x] lane_gen_poc [of "lane4 k ?g" 8192] l by simp
    then show ?thesis
      using set_nonces(1) [OF assms] by (simp add: poc_gen_def)
  qed
  then show ?thesis
    unfolding sse4_gendata_def Let_def n l prod.case
    by (simp add: sse4_hash_one xor_final_poc)
qed

text \<open>All lanes at once: the C function is the per-lane computation, and faults iff one lane does.\<close>

theorem sse4_deadlines_lanes:
  assumes g: "\<And>k. length (lane4 k g) = 262160"
  shows "calculate_deadlines_sse4 poc2 bt sn gs addr nonce x g y =
    gather4 (map_quad (\<lambda>k. lane_deadline poc2 (lane4 k bt) (lane4 k sn) (lane4 k gs) (lane4 k addr) (lane4 k nonce))
      (Quad 0 1 2 3))"
    (is "?C = gather4 ?Q")
proof -
  let ?L = "\<lambda>k. lane_deadline poc2 (lane4 k bt) (lane4 k sn) (lane4 k gs) (lane4 k addr) (lane4 k nonce)"
  have Q: "lane4 k ?Q = ?L k" for k unfolding lane4_map lane4_iota by (simp add: lane4_def)
  let ?gs = "map_quad (\<lambda>s. mem_read s 0 HASH_SIZE) gs"
  let ?gd = "sse4_gendata addr nonce x g"
  let ?sc = "zip4 (read_scoop poc2) ?gd sn"
  note gd = sse4_gendata_lane [OF g, of _ addr nonce x]
  show ?thesis
  proof (cases "gather4 ?gs")
    case None
    then obtain k where "lane4 k ?gs = None" by (auto simp: gather4_None)
    then have "lane4 k ?Q = None" unfolding Q by (simp add: lane_deadline_def HASH_SIZE_def)
    then have "gather4 ?Q = None" unfolding gather4_None by blast
    then show ?thesis by (simp add: calculate_deadlines_sse4_def Let_def None)
  next
    case (Some gq)
    then have gq: "mem_read (lane4 k gs) 0 32 = Some (lane4 k gq)" for k
      by (auto simp: gather4_Some HASH_SIZE_def)
    show ?thesis
    proof (cases "gather4 ?sc")
      case None
      then obtain k where "lane4 k ?sc = None" by (auto simp: gather4_None)
      then have "lane4 k ?Q = None" unfolding Q by (simp add: lane_deadline_def gd gq)
      then have "gather4 ?Q = None" unfolding gather4_None by blast
      then show ?thesis by (simp add: calculate_deadlines_sse4_def Let_def None Some)
    next
      case s: (Some sq)
      then have sq: "read_scoop poc2 (lane4 k ?gd) (lane4 k sn) = Some (lane4 k sq)" for k
        by (auto simp: gather4_Some)
      have l: "length (lane4 k gq) = 32" "length (lane4 k sq) = 64" for k
        using gq [of k] sq [of k] by (simp_all add: mem_read_length read_scoop_length)
      let ?h = "sse4_mshabal (sse4_mshabal (sse4_mshabal_init y 256) (given gq) HASH_SIZE) (given sq) SCOOP_SIZE"
      have "zip4 udiv64 (map_quad load64 (sse4_close_bytes ?h)) bt = ?Q"
      proof (rule quad_eqI)
        fix k
        show "lane4 k (zip4 udiv64 (map_quad load64 (sse4_close_bytes ?h)) bt) = lane4 k ?Q"
          unfolding Q using gq [of k] sq [of k] l [of k]
          by (simp add: lane_deadline_def gd [symmetric] sse4_hash_two burst_sizes)
      qed
      then show ?thesis by (simp add: calculate_deadlines_sse4_def Let_def Some s)
    qed
  qed
qed

end
