(* ===== verification/Wallet.thy ===== *)
theory Wallet
  imports Config Burstmath
begin

text \<open>
  \<open>Wallet.hpp\<close> and \<open>Wallet.cpp\<close>: the current block, the double-buffered mining-info
  answer, and the table of miners with their round records, which are shared objects
  (\<open>shared_ptr\<close>) and therefore live in a store addressed by references. What a call of
  curl delivers, the rows of a query and the JSON parser are arguments.
\<close>

section \<open>State\<close>

record block =
  blk_height :: u64
  blk_base_target :: u64
  blk_scoop :: u32
  blk_gensig :: "u8 list"

record miner_round =
  mr_deadline :: u64
  mr_height :: u64
  mr_recip_id :: u64

text \<open>\<open>next_ref\<close> bounds the references in use; \<open>rounds\<close> is the heap of \<open>MinerRound\<close> objects.\<close>

record wallet =
  current_block :: block
  cache_idx :: int
  mining_info_0 :: string
  mining_info_1 :: string
  mining_info_res :: string
  recip_query :: string
  miners :: "u64 \<rightharpoonup> nat"
  rounds :: "nat \<rightharpoonup> miner_round"
  next_ref :: nat
  w_deadline_limit :: u64

text \<open>One transfer of curl: the chunks passed to \<open>write_cb\<close>, and whether it ended in \<open>CURLE_OK\<close>.\<close>

type_synonym transfer = "string list \<times> bool"

text \<open>What a call depends on besides its arguments: the JSON parser, the address frames of the hash
  calls and the previous contents of the local variables.\<close>

record env =
  parse :: "string \<Rightarrow> json"
  frames :: "nat \<Rightarrow> asm_frame"
  stale_sc :: shabal_context
  stale_gensig :: "u8 list"

section \<open>Fetching the mining info\<close>

definition write_cb :: "string \<Rightarrow> wallet \<Rightarrow> wallet" where
  "write_cb contents w = w\<lparr>mining_info_res := mining_info_res w @ contents\<rparr>"

definition get_mining_info :: "transfer \<Rightarrow> wallet \<Rightarrow> string \<times> wallet" where
  "get_mining_info t w =
     (let (chunks, ok) = t; w = fold write_cb chunks w in
      if \<not> ok then ([], w)
      else (mining_info_res w, w\<lparr>mining_info_res := []\<rparr>))"

datatype info_error =
    Not_object | No_gensig | No_height | No_base_target
  | Gensig_not_string | Height_not_string | Base_target_not_string
  | Number_exn exn

definition read_mining_info :: "json \<Rightarrow> info_error + u64 \<times> u64 \<times> string" where
  "read_mining_info document =
     (if \<not> IsObject document then Inl Not_object
      else if \<not> HasMember document ''generationSignature'' then Inl No_gensig
      else if \<not> HasMember document ''height'' then Inl No_height
      else if \<not> HasMember document ''baseTarget'' then Inl No_base_target
      else if \<not> IsString (member document ''generationSignature'') then Inl Gensig_not_string
      else if \<not> IsString (member document ''height'') then Inl Height_not_string
      else if \<not> IsString (member document ''baseTarget'') then Inl Base_target_not_string
      else (case stoull (GetString (member document ''height'')) of
          Inl e \<Rightarrow> Inl (Number_exn e)
        | Inr height \<Rightarrow>
            (case stoull (GetString (member document ''baseTarget'')) of
               Inl e \<Rightarrow> Inl (Number_exn e)
             | Inr base_target \<Rightarrow> Inr (height, base_target, GetString (member document ''generationSignature'')))))"

text \<open>
  The loop over the 32 bytes: position \<open>2 i\<close> must not lie behind the terminating NUL; a
  failed conversion leaves the byte of the uninitialised array.
\<close>

fun read_gensig :: "nat \<Rightarrow> string \<Rightarrow> u8 list \<Rightarrow> u8 list option" where
  "read_gensig 0 pos stale = Some []"
| "read_gensig (Suc n) pos stale =
     (let b = (case sscanf_2hhx pos of Some b \<Rightarrow> b | None \<Rightarrow> hd stale) in
      if n = 0 then Some [b]
      else if length pos < 2 then None
      else map_option ((#) b) (read_gensig n (drop 2 pos) (tl stale)))"

definition adapted_mining_info :: "string \<Rightarrow> u64 \<Rightarrow> u64 \<Rightarrow> u64 \<Rightarrow> string" where
  "adapted_mining_info gensig_str base_target height limit =
     ''{\"generationSignature\":\"'' @ gensig_str @ ''\",'' @
     ''\"baseTarget\":\"'' @ to_string base_target @ ''\",'' @
     ''\"height\":\"'' @ to_string height @ ''\",'' @
     ''\"targetDeadline\":\"'' @ to_string limit @ ''\"}''"

text \<open>The new answer goes into the buffer the index does not select, then the index flips.\<close>

definition publish_info :: "string \<Rightarrow> wallet \<Rightarrow> wallet" where
  "publish_info info w =
     (if cache_idx w = 0 then w\<lparr>mining_info_1 := info, cache_idx := 1\<rparr>
      else w\<lparr>mining_info_0 := info, cache_idx := 0\<rparr>)"

definition new_block :: "env \<Rightarrow> u64 \<Rightarrow> u64 \<Rightarrow> string \<Rightarrow> wallet \<Rightarrow> wallet option" where
  "new_block e h bt gensig_str w =
     do {
       gs \<leftarrow> read_gensig 32 (c_str gensig_str) (stale_gensig e);
       s \<leftarrow> calculate_scoop (frames e) (stale_sc e) h gs;
       Some (publish_info (adapted_mining_info gensig_str bt h (w_deadline_limit w))
         (w\<lparr>current_block := \<lparr>blk_height = h, blk_base_target = bt, blk_scoop = s, blk_gensig = gs\<rparr>\<rparr>))
     }"

text \<open>\<open>refresh_block\<close>: the returned flag and the new state; \<open>None\<close> is undefined behaviour.\<close>

definition refresh_block :: "env \<Rightarrow> transfer \<Rightarrow> wallet \<Rightarrow> (bool \<times> wallet) option" where
  "refresh_block e t w =
     (let (mining_info, w) = get_mining_info t w in
      case read_mining_info (parse e (c_str mining_info)) of
        Inl _ \<Rightarrow> Some (False, w)
      | Inr (h, bt, gensig_str) \<Rightarrow>
          if blk_height (current_block w) < h
          then map_option (Pair True) (new_block e h bt gensig_str w)
          else Some (False, w))"

definition get_current_block :: "wallet \<Rightarrow> block" where
  "get_current_block w = current_block w"

definition get_cached_mining_info :: "wallet \<Rightarrow> string" where
  "get_cached_mining_info w = (if cache_idx w = 0 then mining_info_0 w else mining_info_1 w)"

section \<open>Miners\<close>

text \<open>One row of the result set; \<open>new_miners\<close> is the table built so far.\<close>

definition cache_row :: "u64 \<Rightarrow> u64 \<times> u64 \<Rightarrow> wallet \<times> (u64 \<rightharpoonup> nat) \<Rightarrow> wallet \<times> (u64 \<rightharpoonup> nat)" where
  "cache_row h row wn =
     (let (account_id, recip_id) = row; (w, new_miners) = wn;
          fresh = \<lparr>mr_deadline = 0xFFFFFFFFFFFFFFFF, mr_height = h, mr_recip_id = recip_id\<rparr> in
      case miners w account_id of
        None \<Rightarrow>
          (let r = next_ref w; new_miners = new_miners(account_id \<mapsto> r) in
           (w\<lparr>rounds := (rounds w)(r \<mapsto> fresh), next_ref := r + 1, miners := new_miners\<rparr>, new_miners))
      | Some r \<Rightarrow>
          (let new_miners = new_miners(account_id \<mapsto> r) in
           (w\<lparr>rounds := (rounds w)(r \<mapsto> fresh), miners := new_miners\<rparr>, new_miners)))"

definition cache_miners :: "u64 \<Rightarrow> (u64 \<times> u64) list \<Rightarrow> wallet \<Rightarrow> wallet" where
  "cache_miners h rows w = fst (fold (cache_row h) rows (w, Map.empty))"

definition get_reward_recipient :: "u64 \<Rightarrow> wallet \<Rightarrow> u64" where
  "get_reward_recipient account_id w =
     (case miners w account_id of
        None \<Rightarrow> 0
      | Some r \<Rightarrow> (case rounds w r of Some mr \<Rightarrow> mr_recip_id mr | None \<Rightarrow> 0))"

definition get_miner_round :: "u64 \<Rightarrow> wallet \<Rightarrow> nat option" where
  "get_miner_round account_id w = miners w account_id"

section \<open>Construction\<close>

text \<open>\<open>recip_query_\<close>: the trailing character of the list is replaced by a parenthesis.\<close>

definition query_item :: "u64 \<Rightarrow> string" where
  "query_item pool_id = ''CAST('' @ to_string pool_id @ '' AS SIGNED),''"

definition build_query :: "(u64 \<times> string) list \<Rightarrow> string" where
  "build_query pools =
     (let q = fold (\<lambda>(pool_id, addr) q. q @ query_item pool_id) pools
        ''SELECT CAST(account_id AS UNSIGNED), CAST(recip_id AS UNSIGNED) FROM reward_recip_assign WHERE recip_id IN (''
      in q[length q - 1 := CHR '')''] @ '' AND latest = 1'')"

text \<open>
  The connection loop: the outcomes of the attempts in order; the tenth failure is thrown
  (\<open>Inl\<close> the number of tries), the loop otherwise goes on. \<open>None\<close>: outcomes ran out.
\<close>

fun connect_loop :: "nat \<Rightarrow> bool list \<Rightarrow> (nat + nat) option" where
  "connect_loop tries [] = None"
| "connect_loop tries (ok # rest) =
     (if ok then Some (Inr tries)
      else let tries = tries + 1 in
        if tries = 10 then Some (Inl tries) else connect_loop tries rest)"

text \<open>The constructor, with the value the atomic index happens to hold.\<close>

definition make_wallet :: "env \<Rightarrow> config \<Rightarrow> int \<Rightarrow> transfer \<Rightarrow> (u64 \<times> u64) list \<Rightarrow> block \<Rightarrow> wallet option" where
  "make_wallet e cfg idx t rows b0 =
     (let w = \<lparr>current_block = b0\<lparr>blk_height := 0, blk_base_target := 0\<rparr>, cache_idx = idx, mining_info_0 = [], mining_info_1 = [],
               mining_info_res = [], recip_query = build_query (pool_id_to_addr cfg), miners = Map.empty,
               rounds = Map.empty, next_ref = 0, w_deadline_limit = deadline_limit cfg\<rparr>
      in map_option (\<lambda>(_, w). cache_miners (blk_height (current_block w)) rows w) (refresh_block e t w))"

section \<open>Reading the generation signature\<close>

definition hex_digit :: "nat \<Rightarrow> char" where
  "hex_digit n = (if n < 10 then char_of (48 + n) else char_of (87 + n))"

text \<open>The two lower-case hexadecimal digits of a byte, as the wallet prints them.\<close>

definition hex_byte :: "u8 \<Rightarrow> string" where
  "hex_byte b = [hex_digit (unat b div 16), hex_digit (unat b mod 16)]"

lemma hex_value_digit: "n < 16 \<Longrightarrow> hex_value (hex_digit n) = Some n"
  by (auto simp: hex_value_def hex_digit_def is_digit_def code_def)

lemma is_hex_digit: "n < 16 \<Longrightarrow> is_hex (hex_digit n)"
  by (simp add: is_hex_def hex_value_digit)

lemma hex_digit_not_nul: "n < 16 \<Longrightarrow> hex_digit n \<noteq> CHR 0x00"
  using hex_value_digit [of n] by (auto simp: hex_value_def is_digit_def code_def)

lemma sscanf_hex_byte: "sscanf_2hhx (hex_byte b @ s) = Some b"
proof -
  have b: "unat b < 256" using unsigned_less [of b, where ?'a = nat] by simp
  then have "unat b div 16 < 16" "unat b mod 16 < 16" by simp_all
  then show ?thesis
    by (simp add: hex_byte_def sscanf_two_digits is_hex_digit hex_value_digit)
qed

lemma read_gensig_hex:
  "read_gensig (length bs) (concat (map hex_byte bs) @ r) stale = Some bs"
proof (induction bs arbitrary: stale)
  case (Cons b bs)
  have d: "length (hex_byte b) = 2" by (simp add: hex_byte_def)
  show ?case
    using Cons [of "tl stale"] sscanf_hex_byte [of b] by (simp add: d)
qed simp

text \<open>A signature with fewer than 62 characters makes the loop read behind the string.\<close>

lemma read_gensig_short: "0 < n \<Longrightarrow> length pos < 2 * n - 2 \<Longrightarrow> read_gensig n pos stale = None"
proof (induction n arbitrary: pos stale)
  case (Suc n)
  then show ?case by (cases "n = 0") (auto simp: Let_def)
qed simp

lemma c_str_hex: "c_str (concat (map hex_byte bs)) = concat (map hex_byte bs)"
proof (rule c_str_id)
  have "hex_digit (unat b div 16) \<noteq> CHR 0x00" "hex_digit (unat b mod 16) \<noteq> CHR 0x00" for b :: u8
    using unsigned_less [of b, where ?'a = nat] by (simp_all add: hex_digit_not_nul)
  then show "CHR 0x00 \<notin> set (concat (map hex_byte bs))"
    by (auto simp: hex_byte_def dest: sym)
qed

section \<open>Refreshing the block\<close>

lemma write_cbs: "fold write_cb chunks w = w\<lparr>mining_info_res := mining_info_res w @ concat chunks\<rparr>"
  by (induction chunks arbitrary: w) (simp_all add: write_cb_def)

lemma get_mining_info_frame:
  "current_block (snd (get_mining_info t w)) = current_block w"
  "get_cached_mining_info (snd (get_mining_info t w)) = get_cached_mining_info w"
  "miners (snd (get_mining_info t w)) = miners w" "rounds (snd (get_mining_info t w)) = rounds w"
  "w_deadline_limit (snd (get_mining_info t w)) = w_deadline_limit w"
  by (simp_all add: get_mining_info_def write_cbs get_cached_mining_info_def Let_def split: prod.split)

lemma published: "get_cached_mining_info (publish_info info w) = info"
  by (simp add: publish_info_def get_cached_mining_info_def)

lemma publish_frame [simp]:
  "current_block (publish_info info w) = current_block w" "miners (publish_info info w) = miners w"
  "rounds (publish_info info w) = rounds w" "w_deadline_limit (publish_info info w) = w_deadline_limit w"
  by (simp_all add: publish_info_def)

lemma new_block_Some:
  assumes "new_block e h bt gs w = Some w'"
  shows "blk_height (current_block w') = h" "blk_base_target (current_block w') = bt"
    "get_cached_mining_info w' = adapted_mining_info gs bt h (w_deadline_limit w)"
    "miners w' = miners w" "rounds w' = rounds w" "w_deadline_limit w' = w_deadline_limit w"
    "read_gensig 32 (c_str gs) (stale_gensig e) = Some (blk_gensig (current_block w'))"
    "calculate_scoop (frames e) (stale_sc e) h (blk_gensig (current_block w')) = Some (blk_scoop (current_block w'))"
  using assms published by (auto simp: new_block_def split: bind_splits)

definition env_ok :: "env \<Rightarrow> bool" where
  "env_ok e \<longleftrightarrow> (\<forall>i. frame_ok (frames e i)) \<and> length (sbuf (stale_sc e)) = 64"

lemma length_read_gensig: "read_gensig n pos stale = Some gs \<Longrightarrow> length gs = n"
  by (induction n arbitrary: pos stale gs) (auto simp: Let_def split: if_splits)

lemma new_block_scoop:
  assumes "env_ok e" "new_block e h bt gs w = Some w'"
  shows "unat (blk_scoop (current_block w')) = poc_scoop_number h (blk_gensig (current_block w'))"
proof -
  note n = new_block_Some [OF assms(2)]
  have "length (blk_gensig (current_block w')) = 32" using length_read_gensig [OF n(7)] .
  then show ?thesis
    using calculate_scoop_value [of "frames e" "stale_sc e" "blk_gensig (current_block w')" h] assms(1) n(8)
    by (auto simp: env_ok_def)
qed

lemma new_block_hex:
  assumes "env_ok e" "length bs = 32"
  shows "\<exists>w'. new_block e h bt (concat (map hex_byte bs)) w = Some w' \<and> blk_gensig (current_block w') = bs"
proof -
  have g: "read_gensig 32 (c_str (concat (map hex_byte bs))) (stale_gensig e) = Some bs"
    using read_gensig_hex [of bs "[]" "stale_gensig e"] assms(2) by (simp add: c_str_hex)
  obtain s where "calculate_scoop (frames e) (stale_sc e) h bs = Some s"
    using calculate_scoop_value [of "frames e" "stale_sc e" bs h] assms by (auto simp: env_ok_def)
  then show ?thesis using g by (simp add: new_block_def)
qed


section \<open>The table of miners\<close>

text \<open>Every miner has a round object of its own, allocated below \<open>next_ref\<close>.\<close>

definition miners_ok :: "wallet \<Rightarrow> bool" where
  "miners_ok w \<longleftrightarrow>
     (\<forall>a r. miners w a = Some r \<longrightarrow> r < next_ref w \<and> rounds w r \<noteq> None) \<and>
     (\<forall>a b r. miners w a = Some r \<longrightarrow> miners w b = Some r \<longrightarrow> a = b)"

definition fresh_round :: "u64 \<Rightarrow> u64 \<Rightarrow> miner_round" where
  "fresh_round h recip = \<lparr>mr_deadline = 0xFFFFFFFFFFFFFFFF, mr_height = h, mr_recip_id = recip\<rparr>"

lemma cache_row_table:
  "miners (fst (cache_row h row (w, nm))) = snd (cache_row h row (w, nm))"
  by (cases row) (simp add: cache_row_def Let_def split: option.split)

text \<open>From a state whose table is the one being built, the rows are plain updates.\<close>

lemma cache_row_step:
  assumes ok: "miners_ok w" and row: "row = (a, p)"
    and w': "cache_row h row (w, nm) = (w', nm')" and nm: "miners w = nm"
  shows "miners_ok w'" "miners w' = nm'" "dom nm' = insert a (dom nm)"
    "rounds w' (the (nm' a)) = Some (fresh_round h p)"
    "b \<noteq> a \<Longrightarrow> nm' b = nm b" "b \<noteq> a \<Longrightarrow> nm b = Some r \<Longrightarrow> rounds w' r = rounds w r"
proof -
  have o: "\<And>a r. miners w a = Some r \<Longrightarrow> r < next_ref w \<and> (\<exists>y. rounds w r = Some y)"
    "\<And>a b r. miners w a = Some r \<Longrightarrow> miners w b = Some r \<Longrightarrow> a = b"
    using ok by (auto simp: miners_ok_def)
  have e: "w' = (case miners w a of
        None \<Rightarrow> w\<lparr>rounds := (rounds w)(next_ref w \<mapsto> fresh_round h p), next_ref := next_ref w + 1,
          miners := (miners w)(a \<mapsto> next_ref w)\<rparr>
      | Some r \<Rightarrow> w\<lparr>rounds := (rounds w)(r \<mapsto> fresh_round h p), miners := (miners w)(a \<mapsto> r)\<rparr>) \<and> nm' = miners w'"
    using w' nm by (auto simp: row cache_row_def Let_def fresh_round_def split: option.splits)
  then show "miners w' = nm'" by simp
  show "dom nm' = insert a (dom nm)" "rounds w' (the (nm' a)) = Some (fresh_round h p)" "b \<noteq> a \<Longrightarrow> nm' b = nm b"
    using e nm by (auto split: option.splits)
  show "b \<noteq> a \<Longrightarrow> nm b = Some r \<Longrightarrow> rounds w' r = rounds w r"
    using e nm o(1) [of b r] o(2) [of a r b] by (auto split: option.splits)
  show "miners_ok w'"
  proof (cases "miners w a")
    case None
    then have "x < next_ref w" if "miners w c = Some x" for c x using o(1) [OF that] by simp
    then show ?thesis
      using e None o by (fastforce simp: miners_ok_def less_Suc_eq)
  next
    case (Some r)
    then show ?thesis
      using e o unfolding miners_ok_def by (auto split: if_splits)
  qed
qed

definition recip_view :: "wallet \<Rightarrow> u64 \<Rightarrow> miner_round option" where
  "recip_view w a = Option.bind (miners w a) (rounds w)"

lemma cache_row_view:
  assumes ok: "miners_ok w" and w': "cache_row h (a, p) (w, nm) = (w', nm')" and nm: "miners w = nm"
  shows "recip_view w' b = (if b = a then Some (fresh_round h p) else recip_view w b)"
proof -
  note s = cache_row_step [OF ok refl w' nm]
  show ?thesis
  proof (cases "b = a")
    case True
    obtain r where "nm' a = Some r" using s(3) by auto
    then show ?thesis using s(2,4) True by (simp add: recip_view_def)
  next
    case False
    then show ?thesis
      using s(2) s(5) [of b] s(6) [of b] nm by (cases "nm b") (simp_all add: recip_view_def)
  qed
qed

lemma cache_rows_view:
  assumes "miners_ok w" "miners w = nm" "fold (cache_row h) rows (w, nm) = (w', nm')"
  shows "miners_ok w' \<and> miners w' = nm' \<and>
    recip_view w' b = (case map_of (rev rows) b of Some p \<Rightarrow> Some (fresh_round h p) | None \<Rightarrow> recip_view w b)"
  using assms
proof (induction rows arbitrary: w nm)
  case (Cons row rows)
  obtain a p where row: "row = (a, p)" by (cases row)
  obtain w1 nm1 where w1: "cache_row h (a, p) (w, nm) = (w1, nm1)" by fastforce
  note s = cache_row_step [OF Cons.prems(1) refl w1 Cons.prems(2)]
  show ?case
    using Cons.IH [OF s(1,2)] Cons.prems(3) cache_row_view [OF Cons.prems(1) w1 Cons.prems(2)]
    by (auto simp: row w1 map_add_def split: option.splits)
qed simp

text \<open>The first row starts the new table, whatever table was there before.\<close>

lemma cache_first_row:
  assumes ok: "miners_ok w" and w': "cache_row h (a, p) (w, Map.empty) = (w', nm')"
  shows "miners_ok w'" "miners w' = nm'" "recip_view w' b = (if b = a then Some (fresh_round h p) else None)"
    "nm' a = (case miners w a of Some r \<Rightarrow> Some r | None \<Rightarrow> Some (next_ref w))"
    "next_ref w \<le> next_ref w'" "b \<noteq> a \<Longrightarrow> nm' b = None"
  using assms
  by (auto simp: cache_row_def Let_def miners_ok_def fresh_round_def recip_view_def split: option.splits if_splits)

lemma cache_miners_view:
  assumes ok: "miners_ok w" and rows: "rows \<noteq> []"
  shows "miners_ok (cache_miners h rows w) \<and>
    recip_view (cache_miners h rows w) b = map_option (fresh_round h) (map_of (rev rows) b)"
proof -
  obtain a p rest where r: "rows = (a, p) # rest" using rows by (cases rows) auto
  obtain w1 nm1 where w1: "cache_row h (a, p) (w, Map.empty) = (w1, nm1)" by fastforce
  obtain w2 nm2 where w2: "fold (cache_row h) rest (w1, nm1) = (w2, nm2)" by fastforce
  note f = cache_first_row [OF ok w1]
  have "cache_miners h rows w = w2" by (simp add: cache_miners_def r w1 w2)
  then show ?thesis
    using cache_rows_view [OF f(1,2) w2] f(3) [of b]
    by (auto simp: r map_add_def split: option.splits)
qed

lemma cache_miners_empty: "cache_miners h [] w = w"
  by (simp add: cache_miners_def)

lemma reward_recipient_view:
  "get_reward_recipient a w = (case recip_view w a of Some mr \<Rightarrow> mr_recip_id mr | None \<Rightarrow> 0)"
  by (simp add: get_reward_recipient_def recip_view_def split: option.split)

text \<open>Later rows get new round objects even when the miner had one.\<close>

lemma cache_rows_refs:
  assumes "miners_ok w" "miners w = nm" "fold (cache_row h) rows (w, nm) = (w', nm')" "nm' b = Some r"
  shows "nm b = Some r \<or> next_ref w \<le> r"
  using assms
proof (induction rows arbitrary: w nm)
  case (Cons row rows)
  obtain a p where row: "row = (a, p)" by (cases row)
  obtain w1 nm1 where w1: "cache_row h (a, p) (w, nm) = (w1, nm1)" by fastforce
  note s = cache_row_step [OF Cons.prems(1) refl w1 Cons.prems(2)]
  have "nm1 b = Some r \<or> next_ref w1 \<le> r"
    using Cons.IH [OF s(1,2)] Cons.prems(3,4) by (simp add: row w1)
  moreover have "next_ref w \<le> next_ref w1"
    using w1 by (auto simp: cache_row_def Let_def split: option.splits)
  moreover have "nm1 b = Some r \<Longrightarrow> nm b = Some r \<or> r = next_ref w"
    using w1 Cons.prems(2) by (auto simp: cache_row_def Let_def split: option.splits if_splits)
  ultimately show ?case by auto
qed simp

lemma cache_miners_identity:
  assumes ok: "miners_ok w" and r: "rows = (a, p) # rest" and b: "b \<noteq> a" "miners (cache_miners h rows w) b = Some r"
  shows "next_ref w \<le> r"
proof -
  obtain w1 nm1 where w1: "cache_row h (a, p) (w, Map.empty) = (w1, nm1)" by fastforce
  obtain w2 nm2 where w2: "fold (cache_row h) rest (w1, nm1) = (w2, nm2)" by fastforce
  note f = cache_first_row [OF ok w1]
  have "nm2 b = Some r"
    using cache_rows_view [OF f(1,2) w2] b(2) by (simp add: cache_miners_def r w1 w2)
  then show ?thesis
    using cache_rows_refs [OF f(1,2) w2] f(5) f(6) [OF b(1)] by fastforce
qed

section \<open>The query and the connection loop\<close>

text \<open>A comma-separated list.\<close>

fun comma_list :: "string list \<Rightarrow> string" where
  "comma_list [] = []"
| "comma_list [x] = x"
| "comma_list (x # y # r) = x @ '','' @ comma_list (y # r)"

definition query_head :: string where
  "query_head = ''SELECT CAST(account_id AS UNSIGNED), CAST(recip_id AS UNSIGNED) FROM reward_recip_assign WHERE recip_id IN (''"

definition cast_id :: "u64 \<Rightarrow> string" where
  "cast_id pool_id = ''CAST('' @ to_string pool_id @ '' AS SIGNED)''"

lemma items_commas: "ids \<noteq> [] \<Longrightarrow> concat (map query_item ids) = comma_list (map cast_id ids) @ '',''"
  by (induction ids rule: induct_list012) (simp_all add: query_item_def cast_id_def)

lemma build_query_items:
  "build_query pools =
     (let q = query_head @ concat (map query_item (map fst pools)) in q[length q - 1 := CHR '')''] @ '' AND latest = 1'')"
proof -
  have "fold (\<lambda>(pool_id, addr) q. q @ query_item pool_id) pools q = q @ concat (map query_item (map fst pools))" for q
    by (induction pools arbitrary: q) auto
  then show ?thesis by (simp add: build_query_def query_head_def)
qed

lemma replace_last: "q = xs @ [c] \<Longrightarrow> q[length q - 1 := d] = xs @ [d]"
  by simp

lemma build_query_list:
  assumes "pools \<noteq> []"
  shows "build_query pools = query_head @ comma_list (map (cast_id \<circ> fst) pools) @ '') AND latest = 1''"
proof -
  have "query_head @ concat (map query_item (map fst pools)) =
      (query_head @ comma_list (map (cast_id \<circ> fst) pools)) @ '',''"
    using items_commas [of "map fst pools"] assms by simp
  from replace_last [OF this] show ?thesis by (simp add: build_query_items Let_def)
qed

text \<open>With no pool id it is the opening parenthesis that is replaced.\<close>

lemma build_query_empty:
  "build_query [] = butlast query_head @ '') AND latest = 1''"
proof -
  have "query_head = butlast query_head @ [last query_head]" "query_head \<noteq> []"
    by (simp_all add: query_head_def)
  then have "query_head[length query_head - 1 := CHR '')''] = butlast query_head @ '')''"
    by (metis append_butlast_last_id length_butlast list_update_length)
  then show ?thesis by (simp add: build_query_items)
qed

lemma connect_loop_fails:
  "tries + n < 10 \<Longrightarrow> connect_loop tries (replicate n False @ rest) = connect_loop (tries + n) rest"
  by (induction n arbitrary: tries) auto

lemma connect_loop_result:
  assumes "10 \<le> length outcomes"
  shows "connect_loop 0 outcomes =
    (case find (\<lambda>k. outcomes ! k) [0..<10] of Some k \<Rightarrow> Some (Inr k) | None \<Rightarrow> Some (Inl 10))"
proof -
  obtain a b c d e f g h i j r where "outcomes = [a, b, c, d, e, f, g, h, i, j] @ r"
    using assms by (auto simp: length_Suc_conv numeral_eq_Suc Suc_le_length_iff)
  moreover have "[0..<10] = [0, 1, 2, 3, 4, 5, 6, 7, 8, 9 :: nat]" by (simp add: upt_rec)
  ultimately show ?thesis by simp
qed

end
