(* ===== verification/Rate_Limiter.thy ===== *)
theory Rate_Limiter
  imports Complex_Main Ordered_Map
begin

text \<open>
  \<open>RateLimiter.hpp\<close>: a token bucket per key. Doubles are real numbers (rounding is not
  modelled). \<open>Bucket::aquire\<close> is given as the value it computes and as the
  compare-and-swap loop of several threads, whose calls are proved to be those of a sequential
  run; \<open>RateLimiter::aquire\<close> looks the bucket up or makes a new one.
\<close>

section \<open>A bucket\<close>

definition bucket_tokens :: "real \<Rightarrow> real \<Rightarrow> real \<Rightarrow> real \<Rightarrow> real" where
  "bucket_tokens rate burst_size now zero_time = min ((now - zero_time) * rate) burst_size"

definition bucket_next :: "real \<Rightarrow> real \<Rightarrow> real \<Rightarrow> real \<Rightarrow> real \<Rightarrow> real" where
  "bucket_next rate burst_size consume now zero_time =
     now - (bucket_tokens rate burst_size now zero_time - consume) / rate"

definition bucket_aquire :: "real \<Rightarrow> real \<Rightarrow> real \<Rightarrow> real \<Rightarrow> real \<Rightarrow> bool \<times> real" where
  "bucket_aquire rate burst_size consume now zero_time =
     (if bucket_tokens rate burst_size now zero_time < consume then (False, zero_time)
      else (True, bucket_next rate burst_size consume now zero_time))"

section \<open>The limiter\<close>

record rate_limiter =
  rl_rate :: real
  rl_burst_size :: real
  key_to_bucket :: "(string \<times> real) list"

definition make_limiter :: "real \<Rightarrow> real \<Rightarrow> rate_limiter" where
  "make_limiter rate burst_size = \<lparr>rl_rate = rate, rl_burst_size = burst_size, key_to_bucket = []\<rparr>"

text \<open>The first request of a key makes a bucket with \<open>zero_time = 0.0\<close> and takes nothing from it.\<close>

definition limiter_aquire :: "real \<Rightarrow> string \<Rightarrow> rate_limiter \<Rightarrow> bool \<times> rate_limiter" where
  "limiter_aquire now key rl =
     (case map_of (key_to_bucket rl) key of
        None \<Rightarrow> (True, rl\<lparr>key_to_bucket := omap_set key 0 (key_to_bucket rl)\<rparr>)
      | Some zero_time \<Rightarrow>
          (case bucket_aquire (rl_rate rl) (rl_burst_size rl) 1 now zero_time of
             (ok, z) \<Rightarrow> (ok, rl\<lparr>key_to_bucket := omap_set key z (key_to_bucket rl)\<rparr>)))"

section \<open>The compare-and-swap loop\<close>

text \<open>Where a thread is: \<open>Cas_try now old\<close> has called at the time \<open>now\<close> and holds the value \<open>old\<close> it
  read; \<open>Cas_done now b\<close> is about to return \<open>b\<close>.\<close>

datatype cas_pc = Cas_idle | Cas_try real real | Cas_done real bool

type_synonym cas_event = "nat \<times> real \<times> bool"

text \<open>Two ghosts: \<open>returned\<close> are the calls that have returned, with thread, time and answer, and
  \<open>history\<close> are the calls in the order in which they take effect. A call that is let through takes
  effect at its exchange, a call that is refused when it reads the value that refuses it.\<close>

record cas_state =
  zero_time :: real
  pcs :: "nat \<Rightarrow> cas_pc"
  history :: "cas_event list"
  returned :: "cas_event list"

definition refusal :: "real \<Rightarrow> real \<Rightarrow> real \<Rightarrow> nat \<Rightarrow> real \<Rightarrow> real \<Rightarrow> cas_event list" where
  "refusal rate burst_size consume i now old =
     (if bucket_tokens rate burst_size now old < consume then [(i, now, False)] else [])"

text \<open>\<open>compare_exchange_weak\<close> may fail without a reason; it reads the value in any case.\<close>

inductive cas_step :: "real \<Rightarrow> real \<Rightarrow> real \<Rightarrow> cas_state \<Rightarrow> cas_state \<Rightarrow> bool" for rate burst_size consume where
  cas_load: "pcs s i = Cas_idle \<Longrightarrow>
    cas_step rate burst_size consume s
      (s\<lparr>pcs := (pcs s)(i := Cas_try now (zero_time s)),
         history := history s @ refusal rate burst_size consume i now (zero_time s)\<rparr>)"
| cas_refuse: "pcs s i = Cas_try now old \<Longrightarrow> bucket_tokens rate burst_size now old < consume \<Longrightarrow>
    cas_step rate burst_size consume s (s\<lparr>pcs := (pcs s)(i := Cas_done now False)\<rparr>)"
| cas_exchange: "pcs s i = Cas_try now old \<Longrightarrow> \<not> bucket_tokens rate burst_size now old < consume \<Longrightarrow>
    zero_time s = old \<Longrightarrow>
    cas_step rate burst_size consume s
      (s\<lparr>zero_time := bucket_next rate burst_size consume now old, pcs := (pcs s)(i := Cas_done now True),
         history := history s @ [(i, now, True)]\<rparr>)"
| cas_retry: "pcs s i = Cas_try now old \<Longrightarrow> \<not> bucket_tokens rate burst_size now old < consume \<Longrightarrow>
    cas_step rate burst_size consume s
      (s\<lparr>pcs := (pcs s)(i := Cas_try now (zero_time s)),
         history := history s @ refusal rate burst_size consume i now (zero_time s)\<rparr>)"
| cas_return: "pcs s i = Cas_done now b \<Longrightarrow>
    cas_step rate burst_size consume s (s\<lparr>pcs := (pcs s)(i := Cas_idle), returned := returned s @ [(i, now, b)]\<rparr>)"

inductive_cases cas_stepE: "cas_step rate burst_size consume s t"

definition cas_start :: "real \<Rightarrow> cas_state" where
  "cas_start z = \<lparr>zero_time = z, pcs = (\<lambda>i. Cas_idle), history = [], returned = []\<rparr>"

section \<open>Linearisation\<close>

text \<open>The sequential bucket: the answers to calls at the given times, and the value it ends with.\<close>

fun bucket_run :: "real \<Rightarrow> real \<Rightarrow> real \<Rightarrow> real list \<Rightarrow> real \<Rightarrow> bool list \<times> real" where
  "bucket_run rate burst_size consume [] z = ([], z)"
| "bucket_run rate burst_size consume (now # nows) z =
     (let (b, z) = bucket_aquire rate burst_size consume now z; (bs, z) = bucket_run rate burst_size consume nows z
      in (b # bs, z))"

lemma bucket_run_append:
  "bucket_run r b c (xs @ ys) z =
    (fst (bucket_run r b c xs z) @ fst (bucket_run r b c ys (snd (bucket_run r b c xs z))),
     snd (bucket_run r b c ys (snd (bucket_run r b c xs z))))"
  by (induction xs arbitrary: z) (auto simp: Let_def split: prod.split)

definition calls_of :: "nat \<Rightarrow> cas_event list \<Rightarrow> cas_event list" where
  "calls_of i h = filter (\<lambda>x. fst x = i) h"

text \<open>The call of a thread that has taken effect and not returned.\<close>

fun effective :: "real \<Rightarrow> real \<Rightarrow> real \<Rightarrow> nat \<Rightarrow> cas_pc \<Rightarrow> cas_event list" where
  "effective r b c i Cas_idle = []"
| "effective r b c i (Cas_try now old) = refusal r b c i now old"
| "effective r b c i (Cas_done now answer) = [(i, now, answer)]"

definition cas_inv :: "real \<Rightarrow> real \<Rightarrow> real \<Rightarrow> real \<Rightarrow> cas_state \<Rightarrow> bool" where
  "cas_inv r b c z s \<longleftrightarrow>
     bucket_run r b c (map (fst \<circ> snd) (history s)) z = (map (snd \<circ> snd) (history s), zero_time s) \<and>
     (\<forall>i. calls_of i (history s) = calls_of i (returned s) @ effective r b c i (pcs s i))"

lemma cas_inv_start: "cas_inv r b c z (cas_start z)"
  by (simp add: cas_inv_def cas_start_def calls_of_def)

lemma cas_inv_step:
  assumes "cas_step r b c s t" "cas_inv r b c z s"
  shows "cas_inv r b c z t"
  using assms(1)
proof (cases rule: cas_step.cases)
  case (cas_refuse i now old)
  then show ?thesis using assms(2) by (auto simp: cas_inv_def refusal_def)
qed (use assms(2) in \<open>auto simp: cas_inv_def calls_of_def refusal_def bucket_run_append bucket_aquire_def\<close>)

lemma cas_inv_reach: "(cas_step r b c)\<^sup>*\<^sup>* (cas_start z) s \<Longrightarrow> cas_inv r b c z s"
  by (induction rule: rtranclp_induct) (auto intro: cas_inv_start cas_inv_step)

text \<open>What has taken effect stays, so a call that returned before another one began comes first.\<close>

lemma history_grows: "(cas_step r b c)\<^sup>*\<^sup>* s t \<Longrightarrow> \<exists>more. history t = history s @ more"
proof (induction rule: rtranclp_induct)
  case (step t u)
  have "\<exists>more. history u = history t @ more" using step(2) by (cases rule: cas_step.cases) auto
  then show ?case using step(3) by auto
qed simp

section \<open>Runs in which every request is let through\<close>

text \<open>A sequential run in which every acquisition at the given times succeeds.\<close>

fun grants :: "real \<Rightarrow> real \<Rightarrow> real \<Rightarrow> real list \<Rightarrow> real \<Rightarrow> real option" where
  "grants rate burst_size consume [] z = Some z"
| "grants rate burst_size consume (now # nows) z =
     (case bucket_aquire rate burst_size consume now z of
        (True, z') \<Rightarrow> grants rate burst_size consume nows z'
      | (False, _) \<Rightarrow> None)"

section \<open>The limit\<close>

lemma aquire_bounds:
  assumes "0 < r" "bucket_aquire r b c now z = (True, z')"
  shows "now - (b - c) / r \<le> z'" "z + c / r \<le> z'" "z' \<le> now"
proof -
  let ?k = "bucket_tokens r b now z"
  have k: "\<not> ?k < c" "z' = now - (?k - c) / r"
    using assms(2) by (auto simp: bucket_aquire_def bucket_next_def split: if_splits)
  have "?k \<le> b" "?k \<le> (now - z) * r" by (simp_all add: bucket_tokens_def)
  then have "(?k - c) / r \<le> (b - c) / r" "?k / r \<le> now - z"
    using assms(1) by (simp_all add: divide_right_mono pos_divide_le_eq)
  then have "(?k - c) / r \<le> (b - c) / r" "(?k - c) / r \<le> now - z - c / r"
    by (simp_all add: diff_divide_distrib)
  then show "now - (b - c) / r \<le> z'" "z + c / r \<le> z'" by (simp_all add: k(2))
  show "z' \<le> now" using k assms(1) by simp
qed

lemma grants_zero_time:
  assumes "0 < r" "grants r b c nows z = Some z'" "\<forall>t \<in> set nows. t \<le> t1" "z \<le> t1"
  shows "z + real (length nows) * (c / r) \<le> z' \<and> z' \<le> t1"
  using assms(2-4)
proof (induction nows arbitrary: z)
  case (Cons now nows)
  obtain z2 where z2: "bucket_aquire r b c now z = (True, z2)" "grants r b c nows z2 = Some z'"
    using Cons.prems(1) by (auto split: prod.splits bool.splits)
  note a = aquire_bounds [OF assms(1) z2(1)]
  have "z2 + real (length nows) * (c / r) \<le> z' \<and> z' \<le> t1"
    using Cons.IH [OF z2(2)] Cons.prems(2) a(3) by force
  then show ?case using a(2) by (simp add: algebra_simps)
qed simp

text \<open>In any span of time the grants of a bucket are bounded by burst size and rate.\<close>

lemma grants_limit:
  assumes r: "0 < r" and g: "grants r b c nows z = Some z'"
    and t: "\<forall>t \<in> set nows. t0 \<le> t \<and> t \<le> t1" and ne: "nows \<noteq> []"
  shows "real (length nows) * c \<le> b + r * (t1 - t0)"
proof -
  obtain now rest where n: "nows = now # rest" using ne by (cases nows) auto
  obtain z2 where z2: "bucket_aquire r b c now z = (True, z2)" "grants r b c rest z2 = Some z'"
    using g by (auto simp: n split: prod.splits bool.splits)
  note a = aquire_bounds [OF r z2(1)]
  have "z2 + real (length rest) * (c / r) \<le> t1"
    using grants_zero_time [OF r z2(2), of t1] t a(3) by (force simp: n)
  then have "t0 - (b - c) / r + real (length rest) * (c / r) \<le> t1"
    using a(1) t by (auto simp: n)
  then have "(t0 - (b - c) / r + real (length rest) * (c / r)) * r \<le> t1 * r"
    using r by (simp add: mult_right_mono)
  moreover have "(t0 - (b - c) / r + real (length rest) * (c / r)) * r = t0 * r - (b - c) + real (length rest) * c"
  proof -
    have "(t0 - y + n * x) * r = t0 * r - y * r + n * (x * r)" for y n x :: real
      by (simp add: algebra_simps)
    from this [of "(b - c) / r" "real (length rest)" "c / r"] show ?thesis using r by (simp only: nonzero_divide_mult_cancel_right times_divide_eq_left nonzero_mult_div_cancel_right)
  qed
  ultimately have "t0 * r - (b - c) + real (length rest) * c \<le> t1 * r" by simp
  then show ?thesis by (simp add: n algebra_simps)
qed

section \<open>Keys\<close>

definition limiter_ok :: "rate_limiter \<Rightarrow> bool" where
  "limiter_ok rl \<longleftrightarrow> omap_ok (key_to_bucket rl)"

lemma limiter_frame:
  "rl_rate (snd (limiter_aquire now key rl)) = rl_rate rl"
  "rl_burst_size (snd (limiter_aquire now key rl)) = rl_burst_size rl"
  "limiter_ok rl \<Longrightarrow> limiter_ok (snd (limiter_aquire now key rl))"
  by (auto simp: limiter_aquire_def limiter_ok_def omap_ok_set split: option.split prod.split)

lemma limiter_other_key:
  "k \<noteq> key \<Longrightarrow> map_of (key_to_bucket (snd (limiter_aquire now key rl))) k = map_of (key_to_bucket rl) k"
  by (auto simp: limiter_aquire_def omap.lookup_store split: option.split prod.split)

lemma limiter_same_key:
  "map_of (key_to_bucket rl) key = Some z \<Longrightarrow>
   fst (limiter_aquire now key rl) = fst (bucket_aquire (rl_rate rl) (rl_burst_size rl) 1 now z) \<and>
   map_of (key_to_bucket (snd (limiter_aquire now key rl))) key =
     Some (snd (bucket_aquire (rl_rate rl) (rl_burst_size rl) 1 now z))"
  by (auto simp: limiter_aquire_def omap.lookup_store split: prod.split)

lemma limiter_new_key:
  "map_of (key_to_bucket rl) key = None \<Longrightarrow>
   fst (limiter_aquire now key rl) \<and> map_of (key_to_bucket (snd (limiter_aquire now key rl))) key = Some 0"
  by (simp add: limiter_aquire_def omap.lookup_store)

text \<open>The times at which requests of one key are let through, in a sequence of requests.\<close>

fun granted_times :: "string \<Rightarrow> (real \<times> string) list \<Rightarrow> rate_limiter \<Rightarrow> real list" where
  "granted_times key [] rl = []"
| "granted_times key ((now, k) # reqs) rl =
     (let (ok, rl') = limiter_aquire now k rl in
      (if ok \<and> k = key then [now] else []) @ granted_times key reqs rl')"

lemma granted_times_grants:
  assumes "map_of (key_to_bucket rl) key = Some z"
  shows "\<exists>z'. grants (rl_rate rl) (rl_burst_size rl) 1 (granted_times key reqs rl) z = Some z'"
  using assms
proof (induction reqs arbitrary: rl z)
  case (Cons req reqs)
  obtain now k where req: "req = (now, k)" by (cases req)
  obtain ok rl' where a: "limiter_aquire now k rl = (ok, rl')" by fastforce
  have f: "rl_rate rl' = rl_rate rl" "rl_burst_size rl' = rl_burst_size rl"
    using limiter_frame(1,2) [of now k rl] a by simp_all
  show ?case
  proof (cases "k = key")
    case True
    obtain z2 where z2: "bucket_aquire (rl_rate rl) (rl_burst_size rl) 1 now z = (ok, z2)"
      "map_of (key_to_bucket rl') key = Some z2"
      using limiter_same_key [OF Cons.prems, of now] a True
      by (cases "bucket_aquire (rl_rate rl) (rl_burst_size rl) 1 now z") simp
    have "\<not> ok \<Longrightarrow> z2 = z" using z2(1) by (auto simp: bucket_aquire_def split: if_splits)
    then show ?thesis
      using Cons.IH [OF z2(2)] z2(1) a True by (cases ok) (auto simp: req f)
  next
    case False
    then show ?thesis
      using Cons.IH [of rl' z] limiter_other_key [of key k now rl] Cons.prems a by (simp add: req f)
  qed
qed simp


text \<open>The request that makes the bucket is let through on top of what the bucket allows.\<close>

lemma granted_times_limit:
  assumes r: "0 < rl_rate rl" "0 \<le> rl_burst_size rl" "t0 \<le> t1" and t: "\<forall>t \<in> set (granted_times key reqs rl). t0 \<le> t \<and> t \<le> t1"
    and z: "map_of (key_to_bucket rl) key = Some z"
  shows "real (length (granted_times key reqs rl)) \<le> rl_burst_size rl + rl_rate rl * (t1 - t0)"
proof (cases "granted_times key reqs rl = []")
  case True
  then show ?thesis using r by simp
next
  case False
  obtain z' where "grants (rl_rate rl) (rl_burst_size rl) 1 (granted_times key reqs rl) z = Some z'"
    using granted_times_grants [OF z] by blast
  from grants_limit [OF r(1) this t False] show ?thesis by simp
qed

lemma granted_times_first:
  assumes "0 < rl_rate rl" "0 \<le> rl_burst_size rl" "t0 \<le> t1" "\<forall>t \<in> set (granted_times key reqs rl). t0 \<le> t \<and> t \<le> t1"
    and "map_of (key_to_bucket rl) key = None"
  shows "real (length (granted_times key reqs rl)) \<le> 1 + rl_burst_size rl + rl_rate rl * (t1 - t0)"
  using assms
proof (induction reqs arbitrary: rl)
  case (Cons req reqs)
  obtain now k where req: "req = (now, k)" by (cases req)
  obtain ok rl' where a: "limiter_aquire now k rl = (ok, rl')" by fastforce
  have f: "rl_rate rl' = rl_rate rl" "rl_burst_size rl' = rl_burst_size rl"
    using limiter_frame(1,2) [of now k rl] a by simp_all
  show ?case
  proof (cases "k = key")
    case True
    then have n: "ok" "map_of (key_to_bucket rl') key = Some 0" using limiter_new_key [OF Cons.prems(5), of now] a by simp_all
    have "\<forall>t \<in> set (granted_times key reqs rl'). t0 \<le> t \<and> t \<le> t1" using Cons.prems(4) a by (simp add: req)
    from granted_times_limit [OF _ _ Cons.prems(3) this n(2)] show ?thesis
      using Cons.prems(1,2) n(1) True a by (simp add: req f)
  next
    case False
    then have "map_of (key_to_bucket rl') key = None" using limiter_other_key [of key k now rl] Cons.prems(5) a by simp
    then show ?thesis using Cons.IH [of rl'] Cons.prems False a by (simp add: req f)
  qed
qed simp

end
