(* ===== verification/Node_State.thy ===== *)
theory Node_State
  imports Wallet Rate_Limiter
begin

text \<open>
  The state of the running node that the handlers share: the wallet, the rate limiter, the
  queue of deadline requests, what was written to the sessions and what was sent to the
  pool servers. Also the three ways a session answers (\<open>Session.cpp\<close>) and the client that
  forwards nonces (\<open>NodeComClient.hpp\<close>).
\<close>

section \<open>State\<close>

text \<open>\<open>CalcDeadlineReq\<close>; a session is named by a number.\<close>

record calc_deadline_req =
  account_id :: u64
  nonce :: u64
  req_height :: u64
  scoop_nr :: u32
  req_base_target :: u64
  recip_id :: u64
  req_gensig :: "u8 list"
  session :: nat

record response =
  status :: nat
  body :: string

record submit_nonce_request =
  rpc_account_id :: u64
  rpc_nonce :: u64
  rpc_deadline :: u64
  rpc_block_height :: u64

text \<open>\<open>locked\<close> holds the round objects whose mutex another validator thread holds.\<close>

record node =
  n_wallet :: wallet
  n_limiter :: rate_limiter
  n_queue :: "calc_deadline_req list"
  written :: "(nat \<times> response) list"
  rpcs :: "(string \<times> submit_nonce_request) list"
  servers :: "(u64 \<times> string) list"
  locked :: "nat set"
  nd_deadline_limit :: u64
  nd_poc2_start :: u64

section \<open>Answers\<close>

definition status_ok :: nat where "status_ok = 200"
definition status_bad_request :: nat where "status_bad_request = 400"
definition status_service_unavailable :: nat where "status_service_unavailable = 503"

definition do_write :: "nat \<Rightarrow> response \<Rightarrow> node \<Rightarrow> node" where
  "do_write sid res n = n\<lparr>written := written n @ [(sid, res)]\<rparr>"

definition json_error :: "nat \<Rightarrow> string \<Rightarrow> string" where
  "json_error error_code error_msg =
     ''{\"errorCode\":'' @ dec_digits error_code @ '',\"errorDescription\":\"'' @ error_msg @ ''\"}''"

definition writeJSONError :: "nat \<Rightarrow> nat \<Rightarrow> string \<Rightarrow> node \<Rightarrow> node" where
  "writeJSONError sid error_code error_msg =
     do_write sid \<lparr>status = status_bad_request, body = json_error error_code error_msg\<rparr>"

definition write_ok :: "nat \<Rightarrow> string \<Rightarrow> node \<Rightarrow> node" where
  "write_ok sid msg = do_write sid \<lparr>status = status_ok, body = msg\<rparr>"

section \<open>Forwarding\<close>

text \<open>\<open>NodeComClient\<close>: a channel per pool id.\<close>

definition make_servers :: "(u64 \<times> string) list \<Rightarrow> (u64 \<times> string) list" where
  "make_servers pools = fold (\<lambda>(pool_id, addr). omap_set pool_id addr) pools []"

definition do_submit_nonce :: "u64 \<Rightarrow> submit_nonce_request \<Rightarrow> node \<Rightarrow> node" where
  "do_submit_nonce recip req n =
     (case map_of (servers n) recip of
        None \<Rightarrow> n
      | Some addr \<Rightarrow> n\<lparr>rpcs := rpcs n @ [(addr, req)]\<rparr>)"

lemma make_servers_id: "omap_ok pools \<Longrightarrow> make_servers pools = pools"
  by (simp add: make_servers_def omap_rebuild)

lemma do_submit_frame [simp]:
  "written (do_submit_nonce r q n) = written n" "n_wallet (do_submit_nonce r q n) = n_wallet n"
  "n_queue (do_submit_nonce r q n) = n_queue n" "servers (do_submit_nonce r q n) = servers n"
  "locked (do_submit_nonce r q n) = locked n" "nd_deadline_limit (do_submit_nonce r q n) = nd_deadline_limit n"
  "nd_poc2_start (do_submit_nonce r q n) = nd_poc2_start n" "n_limiter (do_submit_nonce r q n) = n_limiter n"
  by (simp_all add: do_submit_nonce_def split: option.split)

lemma do_write_frame [simp]:
  "written (do_write s r n) = written n @ [(s, r)]" "n_wallet (do_write s r n) = n_wallet n"
  "n_queue (do_write s r n) = n_queue n" "servers (do_write s r n) = servers n" "rpcs (do_write s r n) = rpcs n"
  "locked (do_write s r n) = locked n" "nd_deadline_limit (do_write s r n) = nd_deadline_limit n"
  "nd_poc2_start (do_write s r n) = nd_poc2_start n" "n_limiter (do_write s r n) = n_limiter n"
  by (simp_all add: do_write_def)

lemmas answer_defs [handler_defs] = writeJSONError_def write_ok_def

end
