(* ===== verification/Burstmath_AVX2.thy ===== *)
theory Burstmath_AVX2
  imports Burstmath
begin

unbundle bit_operations_syntax

text \<open>
  The eight-way build of \<open>burstmath.c\<close> (\<open>USE_AVX2\<close>): \<open>calculate_deadlines_avx2\<close>, with its
  own generation loop (the decrement stands between update and close), translated and
  proved equal to the per-lane computation as in the four-way build.
\<close>

section \<open>\<open>calculate_deadlines_avx2\<close>\<close>

fun gather8 :: "'a option oct \<Rightarrow> 'a oct option" where
  "gather8 (Oct a b c d e f g h) =
     do { a \<leftarrow> a; b \<leftarrow> b; c \<leftarrow> c; d \<leftarrow> d; e \<leftarrow> e; f \<leftarrow> f; g \<leftarrow> g; h \<leftarrow> h;
          Some (Oct a b c d e f g h) }"

text \<open>What \<open>mshabal256_close\<close> stores through its eight destination pointers.\<close>

definition avx2_close_bytes :: "mshabal256_context \<Rightarrow> u8 list oct" where
  "avx2_close_bytes x = map_oct (\<lambda>ws. concat (map bytes32 ws)) (snd (mshabal256_close x))"

definition avx2_gen_step :: "nat \<Rightarrow> mshabal256_context \<times> u8 list oct \<Rightarrow> mshabal256_context \<times> u8 list oct" where
  "avx2_gen_step i xg =
     (let (x, gendata) = xg;
          x = mshabal256_init x;
          len = NONCE_SIZE + 16 - i;
          len = (if len > HASH_CAP then HASH_CAP else len);
          x = mshabal256 x (map_oct (drop i) gendata) len;
          out = avx2_close_bytes x
      in (fst (mshabal256_close x), zip8 (\<lambda>g h. blit g (i - HASH_SIZE) h) gendata out))"

text \<open>The loop from \<open>NONCE_SIZE\<close> down by \<open>HASH_SIZE\<close>, by the number of rounds left.\<close>

fun avx2_gen_loop :: "nat \<Rightarrow> mshabal256_context \<times> u8 list oct \<Rightarrow> mshabal256_context \<times> u8 list oct" where
  "avx2_gen_loop 0 xg = xg"
| "avx2_gen_loop (Suc n) xg = avx2_gen_loop n (avx2_gen_step (HASH_SIZE * Suc n) xg)"

text \<open>Building the nonce, in place in the arrays \<open>gendata\<close>, whose previous contents are arbitrary.\<close>

definition avx2_gendata :: "u64 oct \<Rightarrow> u64 oct \<Rightarrow> mshabal256_context \<Rightarrow> u8 list oct \<Rightarrow> u8 list oct" where
  "avx2_gendata addr nonce x gendata =
     (let gendata = zip8 (\<lambda>g a. SET_NONCE g a 0) gendata addr;
          gendata = zip8 (\<lambda>g n. SET_NONCE g n 8) gendata nonce;
          (x, gendata) = avx2_gen_loop (NONCE_SIZE div HASH_SIZE) (x, gendata);
          x = mshabal256_init x;
          x = mshabal256 x gendata (16 + NONCE_SIZE);
          final = avx2_close_bytes x
      in zip8 xor_final gendata final)"

definition calculate_deadlines_avx2 ::
  "bool \<Rightarrow> u64 oct \<Rightarrow> u32 oct \<Rightarrow> u8 list oct \<Rightarrow> u64 oct \<Rightarrow> u64 oct \<Rightarrow>
   mshabal256_context \<Rightarrow> u8 list oct \<Rightarrow> mshabal256_context \<Rightarrow> u64 oct option" where
  "calculate_deadlines_avx2 poc2 base_target scoop_nr gensig addr nonce x gendata deadline_sc =
     (let gendata = avx2_gendata addr nonce x gendata in
      do {
        gensig \<leftarrow> gather8 (map_oct (\<lambda>s. mem_read s 0 HASH_SIZE) gensig);
        let deadline_sc = mshabal256_init deadline_sc;
        let deadline_sc = mshabal256 deadline_sc gensig HASH_SIZE;
        scoop \<leftarrow> gather8 (zip8 (read_scoop poc2) gendata scoop_nr);
        let deadline_sc = mshabal256 deadline_sc scoop SCOOP_SIZE;
        let target_result = map_oct load64 (avx2_close_bytes deadline_sc);
        gather8 (zip8 udiv64 target_result base_target)
      })"

section \<open>Lanes of the eight-way build\<close>

lemma lane8_Oct [simp]:
  "lane8 0 (Oct a b c d e f g h) = a" "lane8 1 (Oct a b c d e f g h) = b" "lane8 2 (Oct a b c d e f g h) = c"
  "lane8 3 (Oct a b c d e f g h) = d" "lane8 4 (Oct a b c d e f g h) = e" "lane8 5 (Oct a b c d e f g h) = f"
  "lane8 6 (Oct a b c d e f g h) = g" "lane8 7 (Oct a b c d e f g h) = h"
  by (simp_all add: lane8_def)

lemma oct_eqI: "(\<And>k. lane8 k p = lane8 k q) \<Longrightarrow> p = q"
proof -
  assume h: "\<And>k. lane8 k p = lane8 k q"
  show "p = q"
    using h [of 0] h [of 1] h [of 2] h [of 3] h [of 4] h [of 5] h [of 6] h [of 7]
    by (cases p; cases q) (simp only: lane8_Oct)
qed

lemma gather8_Some: "gather8 q = Some r \<longleftrightarrow> (\<forall>k. lane8 k q = Some (lane8 k r))"
proof
  assume "gather8 q = Some r"
  then have "q = map_oct Some r" by (cases q; cases r) (auto split: bind_splits)
  then show "\<forall>k. lane8 k q = Some (lane8 k r)" by simp
next
  assume "\<forall>k. lane8 k q = Some (lane8 k r)"
  then have "q = map_oct Some r" by (intro oct_eqI) simp
  then show "gather8 q = Some r" by (cases r) simp
qed

lemma gather8_None: "gather8 q = None \<longleftrightarrow> (\<exists>k. lane8 k q = None)"
proof
  assume "gather8 q = None"
  then have "\<exists>k \<in> {0, 1, 2, 3, 4, 5, 6, 7}. lane8 k q = None"
    by (cases q) (auto simp del: One_nat_def split: bind_splits)
  then show "\<exists>k. lane8 k q = None" by blast
next
  assume "\<exists>k. lane8 k q = None"
  then show "gather8 q = None" using gather8_Some [of q] by (metis option.distinct(1) not_Some_eq)
qed

lemma lane8_close_bytes: "lane8 k (avx2_close_bytes x) = avx2_digest k x"
  by (simp add: avx2_close_bytes_def avx2_digest_def)

lemma avx2_hash_one:
  "len \<le> length (lane8 k d) \<Longrightarrow>
   lane8 k (avx2_close_bytes (mshabal256 (mshabal256_init x) d len)) = shabal256 (take len (lane8 k d))"
  using avx2.digest_one [where d = "(d, len)" and k = k and sc = x] by (simp add: lane8_close_bytes)

lemma avx2_hash_two:
  "len \<le> length (lane8 k d) \<Longrightarrow> len' \<le> length (lane8 k d') \<Longrightarrow>
   lane8 k (avx2_close_bytes (mshabal256 (mshabal256 (mshabal256_init x) d len) d' len')) =
   shabal256 (take len (lane8 k d) @ take len' (lane8 k d'))"
  using avx2.digest_two [where d = "(d, len)" and e = "(d', len')" and k = k and sc = x] by (simp add: lane8_close_bytes)

lemma avx2_gen_step_lane:
  assumes "length (lane8 k g) = 262160" "i \<le> 262144"
  shows "lane8 k (snd (avx2_gen_step i (x, g))) =
    blit (lane8 k g) (i - 32) (shabal256 (take (min 4096 (262160 - i)) (drop i (lane8 k g))))"
proof -
  have l: "min 4096 (262160 - i) \<le> length (lane8 k (map_oct (drop i) g))"
    using assms by simp
  show ?thesis
    using avx2_hash_one [OF l, of x]
    by (cases "4096 < 262160 - i") (simp_all add: avx2_gen_step_def Let_def burst_sizes min_def)
qed

lemma avx2_gen_loop_lane:
  assumes "length (lane8 k g) = 262160" "n \<le> 8192"
  shows "lane8 k (snd (avx2_gen_loop n (x, g))) = lane_gen n (lane8 k g)"
  using assms
proof (induction n arbitrary: x g)
  case (Suc n)
  obtain x' g' where s: "avx2_gen_step (HASH_SIZE * Suc n) (x, g) = (x', g')" by fastforce
  have e: "32 * Suc n - 32 = 32 * n" by simp
  have g': "lane8 k g' = blit (lane8 k g) (32 * n)
      (shabal256 (take (min 4096 (262160 - 32 * Suc n)) (drop (32 * Suc n) (lane8 k g))))"
    using avx2_gen_step_lane [of k g "32 * Suc n" x] Suc.prems s unfolding e
    by (simp add: HASH_SIZE_def del: mult_Suc_right)
  moreover have "length (lane8 k g') = 262160"
    unfolding g' using Suc.prems by simp
  ultimately show ?case
    using Suc.IH [of g' x'] Suc.prems s by (simp del: mult_Suc_right)
qed simp

lemma avx2_gendata_lane:
  assumes "\<And>k. length (lane8 k g) = 262160"
  shows "lane8 k (avx2_gendata addr nonce x g) =
    poc_nonce (lane8 k addr) (lane8 k nonce) @ be_bytes64 (lane8 k addr) @ be_bytes64 (lane8 k nonce)"
proof -
  let ?g = "zip8 (\<lambda>g n. SET_NONCE g n 8) (zip8 (\<lambda>g a. SET_NONCE g a 0) g addr) nonce"
  have n: "NONCE_SIZE div HASH_SIZE = 8192" "16 + NONCE_SIZE = 262160" by (simp_all add: burst_sizes)
  obtain x' g' where l: "avx2_gen_loop 8192 (x, ?g) = (x', g')" by fastforce
  have s: "length (lane8 k ?g) = 262160"
    using set_nonces(2) [OF assms] by simp
  have "lane8 k g' = poc_gen (lane8 k addr) (lane8 k nonce)" for k
  proof -
    have "length (lane8 k ?g) = 262160"
      using set_nonces(2) [OF assms] by simp
    then have "lane8 k g' = (poc_step ^^ 8192) (drop (32 * 8192) (lane8 k ?g))"
      using avx2_gen_loop_lane [of k ?g 8192 x] lane_gen_poc [of "lane8 k ?g" 8192] l by simp
    then show ?thesis
      using set_nonces(1) [OF assms] by (simp add: poc_gen_def)
  qed
  then show ?thesis
    unfolding avx2_gendata_def Let_def n l prod.case
    by (simp add: avx2_hash_one xor_final_poc)
qed

text \<open>All lanes at once: the C function is the per-lane computation, and faults iff one lane does.\<close>

theorem avx2_deadlines_lanes:
  assumes g: "\<And>k. length (lane8 k g) = 262160"
  shows "calculate_deadlines_avx2 poc2 bt sn gs addr nonce x g y =
    gather8 (map_oct (\<lambda>k. lane_deadline poc2 (lane8 k bt) (lane8 k sn) (lane8 k gs) (lane8 k addr) (lane8 k nonce))
      (Oct 0 1 2 3 4 5 6 7))"
    (is "?C = gather8 ?Q")
proof -
  let ?L = "\<lambda>k. lane_deadline poc2 (lane8 k bt) (lane8 k sn) (lane8 k gs) (lane8 k addr) (lane8 k nonce)"
  have Q: "lane8 k ?Q = ?L k" for k unfolding lane8_map lane8_iota by (simp add: lane8_def)
  let ?gs = "map_oct (\<lambda>s. mem_read s 0 HASH_SIZE) gs"
  let ?gd = "avx2_gendata addr nonce x g"
  let ?sc = "zip8 (read_scoop poc2) ?gd sn"
  note gd = avx2_gendata_lane [OF g, of _ addr nonce x]
  show ?thesis
  proof (cases "gather8 ?gs")
    case None
    then obtain k where "lane8 k ?gs = None" by (auto simp: gather8_None)
    then have "lane8 k ?Q = None" unfolding Q by (simp add: lane_deadline_def HASH_SIZE_def)
    then have "gather8 ?Q = None" unfolding gather8_None by blast
    then show ?thesis by (simp add: calculate_deadlines_avx2_def Let_def None)
  next
    case (Some gq)
    then have gq: "mem_read (lane8 k gs) 0 32 = Some (lane8 k gq)" for k
      by (auto simp: gather8_Some HASH_SIZE_def)
    show ?thesis
    proof (cases "gather8 ?sc")
      case None
      then obtain k where "lane8 k ?sc = None" by (auto simp: gather8_None)
      then have "lane8 k ?Q = None" unfolding Q by (simp add: lane_deadline_def gd gq)
      then have "gather8 ?Q = None" unfolding gather8_None by blast
      then show ?thesis by (simp add: calculate_deadlines_avx2_def Let_def None Some)
    next
      case s: (Some sq)
      then have sq: "read_scoop poc2 (lane8 k ?gd) (lane8 k sn) = Some (lane8 k sq)" for k
        by (auto simp: gather8_Some)
      have l: "length (lane8 k gq) = 32" "length (lane8 k sq) = 64" for k
        using gq [of k] sq [of k] by (simp_all add: mem_read_length read_scoop_length)
      let ?h = "mshabal256 (mshabal256 (mshabal256_init y) gq HASH_SIZE) sq SCOOP_SIZE"
      have "zip8 udiv64 (map_oct load64 (avx2_close_bytes ?h)) bt = ?Q"
      proof (rule oct_eqI)
        fix k
        show "lane8 k (zip8 udiv64 (map_oct load64 (avx2_close_bytes ?h)) bt) = lane8 k ?Q"
          unfolding Q using gq [of k] sq [of k] l [of k]
          by (simp add: lane_deadline_def gd [symmetric] avx2_hash_two burst_sizes)
      qed
      then show ?thesis by (simp add: calculate_deadlines_avx2_def Let_def Some s)
    qed
  qed
qed

end
