(* ===== verification/Deadline_Handler.thy ===== *)
theory Deadline_Handler
  imports Node_State Burstmath_AVX2 "HOL-Library.Multiset"
begin

text \<open>
  \<open>DeadlineRequestHandler.hpp\<close> and \<open>DeadlineRequestHandler.cpp\<close>: validating a computed
  deadline, computing a batch with the four-way or the eight-way build, and the loop that
  collects requests into batches.
\<close>

section \<open>Validation of one deadline\<close>

definition success_message :: "u64 \<Rightarrow> string" where
  "success_message deadline = ''{\"result\":\"success\",\"deadline\":'' @ to_string deadline @ ''}''"

text \<open>The critical section on the round object \<open>r\<close>.\<close>

definition update_round :: "calc_deadline_req \<Rightarrow> u64 \<Rightarrow> nat \<Rightarrow> node \<Rightarrow> node" where
  "update_round creq deadline r n =
     (case rounds (n_wallet n) r of
        None \<Rightarrow> n
      | Some mr \<Rightarrow>
          if mr_height mr = req_height creq \<and> deadline < mr_deadline mr
          then let n = do_submit_nonce (recip_id creq)
                 \<lparr>rpc_account_id = account_id creq, rpc_nonce = nonce creq, rpc_deadline = deadline,
                  rpc_block_height = req_height creq\<rparr> n
               in n\<lparr>n_wallet := (n_wallet n)\<lparr>rounds := (rounds (n_wallet n))(r \<mapsto> mr\<lparr>mr_deadline := deadline\<rparr>)\<rparr>\<rparr>
          else n)"

definition validate_deadline :: "calc_deadline_req \<Rightarrow> u64 \<Rightarrow> node \<Rightarrow> node" where
  "validate_deadline creq deadline n =
     (if nd_deadline_limit n < deadline
      then writeJSONError (session creq) 1008 ''Deadline exceeds deadline limit of the pool'' n
      else
        let n = (case get_miner_round (account_id creq) (n_wallet n) of
                   None \<Rightarrow> n
                 | Some r \<Rightarrow> if r \<in> locked n then n else update_round creq deadline r n)
        in write_ok (session creq) (success_message deadline) n)"

section \<open>Validation of a batch\<close>

text \<open>The previous contents of the arrays on the stack of a deadline computation.\<close>

record stack4 =
  st_x :: mshabal_context
  st_gendata :: "u8 list quad"
  st_deadline_sc :: mshabal_context

record stack8 =
  su_x :: mshabal256_context
  su_gendata :: "u8 list oct"
  su_deadline_sc :: mshabal256_context

fun validate_each :: "calc_deadline_req list \<Rightarrow> u64 list \<Rightarrow> node \<Rightarrow> node" where
  "validate_each (creq # creqs) (deadline # deadlines) n = validate_each creqs deadlines (validate_deadline creq deadline n)"
| "validate_each _ _ n = n"

definition quad_of :: "('a \<Rightarrow> 'b) \<Rightarrow> 'a list \<Rightarrow> 'b quad" where
  "quad_of f xs = Quad (f (xs ! 0)) (f (xs ! 1)) (f (xs ! 2)) (f (xs ! 3))"

definition oct_of :: "('a \<Rightarrow> 'b) \<Rightarrow> 'a list \<Rightarrow> 'b oct" where
  "oct_of f xs = Oct (f (xs ! 0)) (f (xs ! 1)) (f (xs ! 2)) (f (xs ! 3)) (f (xs ! 4)) (f (xs ! 5)) (f (xs ! 6)) (f (xs ! 7))"

text \<open>The arguments of the computation as \<open>validate_deadlines\<close> gathers them, without and with
  \<open>USE_AVX2\<close>: the height of the first request decides for all. A fault is \<open>None\<close>.\<close>

definition batch_deadlines_sse4 :: "stack4 \<Rightarrow> calc_deadline_req list \<Rightarrow> u64 \<Rightarrow> u64 list option" where
  "batch_deadlines_sse4 st creqs poc2_start =
     map_option elems4
       (calculate_deadlines_sse4 (poc2_start \<le> req_height (creqs ! 0))
          (quad_of req_base_target creqs) (quad_of scoop_nr creqs) (quad_of req_gensig creqs)
          (quad_of account_id creqs) (quad_of nonce creqs) (st_x st) (st_gendata st) (st_deadline_sc st))"

definition batch_deadlines_avx2 :: "stack8 \<Rightarrow> calc_deadline_req list \<Rightarrow> u64 \<Rightarrow> u64 list option" where
  "batch_deadlines_avx2 st creqs poc2_start =
     map_option elems8
       (calculate_deadlines_avx2 (poc2_start \<le> req_height (creqs ! 0))
          (oct_of req_base_target creqs) (oct_of scoop_nr creqs) (oct_of req_gensig creqs)
          (oct_of account_id creqs) (oct_of nonce creqs) (su_x st) (su_gendata st) (su_deadline_sc st))"

text \<open>\<open>PARALLEL_VALIDATIONS\<close> and the function the build compiles in; \<open>avx2\<close> is \<open>USE_AVX2\<close>.\<close>

definition parallel_validations :: "bool \<Rightarrow> nat" where
  "parallel_validations avx2 = (if avx2 then 8 else 4)"

definition batch_deadlines :: "bool \<Rightarrow> stack4 \<times> stack8 \<Rightarrow> calc_deadline_req list \<Rightarrow> u64 \<Rightarrow> u64 list option" where
  "batch_deadlines avx2 st creqs poc2_start =
     (if avx2 then batch_deadlines_avx2 (snd st) creqs poc2_start else batch_deadlines_sse4 (fst st) creqs poc2_start)"

definition validate_deadlines_sse4 :: "stack4 \<Rightarrow> calc_deadline_req list \<Rightarrow> nat \<Rightarrow> node \<Rightarrow> node option" where
  "validate_deadlines_sse4 st creqs pend n =
     map_option (\<lambda>deadlines. validate_each (take pend creqs) deadlines n)
       (batch_deadlines_sse4 st creqs (nd_poc2_start n))"

definition validate_deadlines_avx2 :: "stack8 \<Rightarrow> calc_deadline_req list \<Rightarrow> nat \<Rightarrow> node \<Rightarrow> node option" where
  "validate_deadlines_avx2 st creqs pend n =
     map_option (\<lambda>deadlines. validate_each (take pend creqs) deadlines n)
       (batch_deadlines_avx2 st creqs (nd_poc2_start n))"

section \<open>The deadlines of a batch\<close>

text \<open>What the computation needs of a request, and what it returns for it.\<close>

definition creq_ok :: "calc_deadline_req \<Rightarrow> bool" where
  "creq_ok r \<longleftrightarrow> unat (scoop_nr r) < 4096 \<and> req_base_target r \<noteq> 0 \<and> length (req_gensig r) = 32"

definition creq_deadline :: "bool \<Rightarrow> calc_deadline_req \<Rightarrow> u64" where
  "creq_deadline poc2 r = poc_deadline poc2 (req_base_target r) (scoop_nr r) (req_gensig r) (account_id r) (nonce r)"

definition stack4_ok :: "stack4 \<Rightarrow> bool" where
  "stack4_ok st \<longleftrightarrow> list_all (\<lambda>g. length g = 262160) (elems4 (st_gendata st))"

definition stack8_ok :: "stack8 \<Rightarrow> bool" where
  "stack8_ok st \<longleftrightarrow> list_all (\<lambda>g. length g = 262160) (elems8 (su_gendata st))"

text \<open>The array \<open>gensig\<close> has its declared size, also in a placeholder whose content is left open.\<close>

definition gensig_sized :: "calc_deadline_req \<Rightarrow> bool" where
  "gensig_sized r \<longleftrightarrow> length (req_gensig r) = 32"

definition scoop_readable :: "calc_deadline_req \<Rightarrow> bool" where
  "scoop_readable r \<longleftrightarrow> unat (scoop_nr r) mod 2 ^ 26 < 4096"

definition wrapped_deadline :: "bool \<Rightarrow> calc_deadline_req \<Rightarrow> u64" where
  "wrapped_deadline poc2 r = creq_deadline poc2 (r\<lparr>scoop_nr := take_bit 26 (scoop_nr r)\<rparr>)"

lemma creq_ok_readable: "creq_ok r \<Longrightarrow> gensig_sized r \<and> req_base_target r \<noteq> 0 \<and> scoop_readable r"
  by (simp add: creq_ok_def gensig_sized_def scoop_readable_def)

lemma wrapped_deadline_ok:
  assumes "creq_ok r" shows "wrapped_deadline poc2 r = creq_deadline poc2 r"
proof -
  have "take_bit 26 (scoop_nr r) = scoop_nr r"
    using assms unfolding word_unat_eq_iff unat_scoop_low by (simp add: creq_ok_def)
  then show ?thesis by (simp add: wrapped_deadline_def)
qed

text \<open>The computation of a request faults when it divides by zero or reads outside its arrays.\<close>

definition creq_faults :: "calc_deadline_req \<Rightarrow> bool" where
  "creq_faults r \<longleftrightarrow> req_base_target r = 0 \<or> \<not> scoop_readable r"

lemma creq_lane_exact:
  "gensig_sized r \<Longrightarrow> lane_deadline poc2 (req_base_target r) (scoop_nr r) (req_gensig r) (account_id r) (nonce r) =
    (if creq_faults r then None else Some (wrapped_deadline poc2 r))"
  by (cases "req_base_target r = 0")
    (simp_all add: gensig_sized_def scoop_readable_def creq_faults_def wrapped_deadline_def creq_deadline_def lane_deadline_exact
      lane_deadline_zero)

text \<open>A batch faults exactly when the computation of one of its requests does.\<close>

lemma batch_sse4_exact:
  assumes "stack4_ok st" "length creqs = 4" "list_all gensig_sized creqs"
  shows "batch_deadlines_sse4 st creqs h = (if list_all (\<lambda>r. \<not> creq_faults r) creqs
    then Some (map (wrapped_deadline (h \<le> req_height (creqs ! 0))) creqs) else None)"
proof -
  obtain a b c d where l: "creqs = [a, b, c, d]" using assms(2) by (auto simp: numeral_eq_Suc length_Suc_conv)
  have g: "length (lane4 k (st_gendata st)) = 262160" for k
    using assms(1) lane4_in [of k "st_gendata st"] by (auto simp: stack4_ok_def list_all_iff)
  show ?thesis
    unfolding batch_deadlines_sse4_def sse4_deadlines_lanes [OF g]
    using assms(3) by (simp add: l quad_of_def creq_lane_exact lane4_def)
qed

lemma batch_avx2_exact:
  assumes "stack8_ok st" "length creqs = 8" "list_all gensig_sized creqs"
  shows "batch_deadlines_avx2 st creqs h = (if list_all (\<lambda>r. \<not> creq_faults r) creqs
    then Some (map (wrapped_deadline (h \<le> req_height (creqs ! 0))) creqs) else None)"
proof -
  obtain a b c d a' b' c' d' where l: "creqs = [a, b, c, d, a', b', c', d']"
    using assms(2) by (auto simp: numeral_eq_Suc length_Suc_conv)
  have g: "length (lane8 k (su_gendata st)) = 262160" for k
    using assms(1) lane8_in [of k "su_gendata st"] by (auto simp: stack8_ok_def list_all_iff)
  show ?thesis
    unfolding batch_deadlines_avx2_def avx2_deadlines_lanes [OF g]
    using assms(3) by (simp add: l oct_of_def creq_lane_exact lane8_def)
qed

lemma batch_deadlines_exact:
  assumes "stack4_ok (fst st)" "stack8_ok (snd st)" "length creqs = parallel_validations avx2" "list_all gensig_sized creqs"
  shows "batch_deadlines avx2 st creqs h = (if list_all (\<lambda>r. \<not> creq_faults r) creqs
    then Some (map (wrapped_deadline (h \<le> req_height (creqs ! 0))) creqs) else None)"
  using assms batch_sse4_exact batch_avx2_exact
  by (auto simp: batch_deadlines_def parallel_validations_def split: if_splits)

lemma creqs_ok_exact:
  assumes "list_all creq_ok creqs"
  shows "list_all gensig_sized creqs" "list_all (\<lambda>r. \<not> creq_faults r) creqs"
    "map (wrapped_deadline poc2) creqs = map (creq_deadline poc2) creqs"
  using assms creq_ok_readable wrapped_deadline_ok by (auto simp: list_all_iff creq_faults_def)

lemma batch_sse4_value:
  assumes "stack4_ok st" "length creqs = 4" "list_all creq_ok creqs"
  shows "batch_deadlines_sse4 st creqs h = Some (map (creq_deadline (h \<le> req_height (creqs ! 0))) creqs)"
  using batch_sse4_exact [OF assms(1,2) creqs_ok_exact(1)] creqs_ok_exact [OF assms(3)] assms(3) by simp

lemma batch_avx2_value:
  assumes "stack8_ok st" "length creqs = 8" "list_all creq_ok creqs"
  shows "batch_deadlines_avx2 st creqs h = Some (map (creq_deadline (h \<le> req_height (creqs ! 0))) creqs)"
  using batch_avx2_exact [OF assms(1,2) creqs_ok_exact(1)] creqs_ok_exact [OF assms(3)] assms(3) by simp

lemma batch_deadlines_value:
  assumes "stack4_ok (fst st)" "stack8_ok (snd st)" "length creqs = parallel_validations avx2" "list_all creq_ok creqs"
  shows "batch_deadlines avx2 st creqs h = Some (map (creq_deadline (h \<le> req_height (creqs ! 0))) creqs)"
  using batch_deadlines_exact [OF assms(1-3) creqs_ok_exact(1)] creqs_ok_exact [OF assms(4)] assms(4) by simp

lemma batch_deadlines_length: "batch_deadlines avx2 st creqs h = Some ds \<Longrightarrow> length ds = parallel_validations avx2"
  by (auto simp: batch_deadlines_def batch_deadlines_sse4_def batch_deadlines_avx2_def parallel_validations_def
      split: if_splits)

section \<open>The distribution loop\<close>

text \<open>\<open>slots\<close> is the array \<open>reqs\<close>; \<open>posted\<close> the batches given to the thread pool.\<close>

record distributor =
  slots :: "calc_deadline_req list"
  pending :: nat
  waited :: nat
  posted :: "(calc_deadline_req list \<times> nat) list"

text \<open>The loop starts with placeholder requests of which only \<open>base_target\<close> is set.\<close>

definition dist_start :: "calc_deadline_req list \<Rightarrow> distributor" where
  "dist_start stale = \<lparr>slots = map (\<lambda>r. r\<lparr>req_base_target := 1\<rparr>) stale, pending = 0, waited = 0, posted = []\<rparr>"

definition dist_flush :: "distributor \<Rightarrow> distributor" where
  "dist_flush d =
     (if pending d = length (slots d) \<or> (0 < pending d \<and> 50 < waited d)
      then d\<lparr>posted := posted d @ [(slots d, pending d)], pending := 0, waited := 0\<rparr>
      else d)"

text \<open>One iteration, given what \<open>try_dequeue\<close> delivers.\<close>

definition dist_iteration :: "calc_deadline_req option \<Rightarrow> distributor \<Rightarrow> distributor" where
  "dist_iteration found d =
     (let d = dist_flush d in
      case found of
        None \<Rightarrow> d\<lparr>waited := waited d + 1\<rparr>
      | Some req \<Rightarrow> d\<lparr>slots := (slots d)[pending d := req], pending := pending d + 1\<rparr>)"

definition dist_run :: "calc_deadline_req option list \<Rightarrow> distributor \<Rightarrow> distributor" where
  "dist_run polls d = fold dist_iteration polls d"

section \<open>Every dequeued request is posted once, in order\<close>

definition dist_ok :: "nat \<Rightarrow> distributor \<Rightarrow> bool" where
  "dist_ok N d \<longleftrightarrow> 0 < N \<and> length (slots d) = N \<and> pending d \<le> N \<and>
     (\<forall>(b, k) \<in> set (posted d). length b = N \<and> 0 < k \<and> k \<le> N)"

text \<open>The requests of the posted batches, and those still collected.\<close>

definition dist_taken :: "distributor \<Rightarrow> calc_deadline_req list" where
  "dist_taken d = concat (map (\<lambda>(b, k). take k b) (posted d)) @ take (pending d) (slots d)"

lemma dist_flush_ok:
  assumes "dist_ok N d"
  shows "dist_ok N (dist_flush d)" "pending (dist_flush d) < N" "dist_taken (dist_flush d) = dist_taken d"
  using assms by (auto simp: dist_flush_def dist_ok_def dist_taken_def)

lemma dist_iteration_ok:
  assumes "dist_ok N d"
  shows "dist_ok N (dist_iteration found d)"
    and "dist_taken (dist_iteration found d) = dist_taken d @ (case found of Some r \<Rightarrow> [r] | None \<Rightarrow> [])"
proof -
  note f = dist_flush_ok [OF assms]
  show "dist_ok N (dist_iteration found d)"
    using f by (auto simp: dist_iteration_def dist_ok_def Let_def split: option.split)
  have "take (Suc (pending (dist_flush d))) ((slots (dist_flush d))[pending (dist_flush d) := r]) =
      take (pending (dist_flush d)) (slots (dist_flush d)) @ [r]" for r
    using f(1,2) by (simp add: dist_ok_def take_Suc_conv_app_nth)
  then show "dist_taken (dist_iteration found d) = dist_taken d @ (case found of Some r \<Rightarrow> [r] | None \<Rightarrow> [])"
    using f(3) by (simp add: dist_iteration_def dist_taken_def Let_def split: option.split)
qed

text \<open>What the queue delivered in a sequence of polls.\<close>

definition deliveries :: "calc_deadline_req option list \<Rightarrow> calc_deadline_req list" where
  "deliveries polls = concat (map (\<lambda>f. case f of Some r \<Rightarrow> [r] | None \<Rightarrow> []) polls)"

lemma dist_run_ok:
  assumes "dist_ok N d"
  shows "dist_ok N (dist_run polls d) \<and>
    dist_taken (dist_run polls d) = dist_taken d @ deliveries polls"
  using assms
proof (induction polls arbitrary: d)
  case (Cons f polls)
  note i = dist_iteration_ok [OF Cons.prems, of f]
  show ?case using Cons.IH [OF i(1)] i(2) by (simp add: dist_run_def deliveries_def)
qed (simp add: dist_run_def deliveries_def)

lemma dist_start_ok: "stale \<noteq> [] \<Longrightarrow> dist_ok (length stale) (dist_start stale) \<and> dist_taken (dist_start stale) = []"
  by (simp add: dist_ok_def dist_start_def dist_taken_def)

section \<open>No request waits for ever\<close>

text \<open>Free slots and remaining patience: every iteration that does not post uses one up.\<close>

definition patience :: "distributor \<Rightarrow> nat" where
  "patience d = (length (slots d) - pending d) + (52 - waited d)"

lemma dist_iteration_patience:
  assumes "dist_ok N d" "0 < pending d" "\<not> (pending d = length (slots d) \<or> 0 < pending d \<and> 50 < waited d)"
  shows "patience (dist_iteration f d) < patience d" "0 < pending (dist_iteration f d)"
    "posted (dist_iteration f d) = posted d"
  using assms by (auto simp: dist_iteration_def dist_flush_def patience_def dist_ok_def Let_def split: option.split)

lemma dist_flush_full:
  assumes "pending d = length (slots d) \<or> 0 < pending d \<and> 50 < waited d"
  shows "posted (dist_iteration f d) = posted d @ [(slots d, pending d)]"
  using assms by (auto simp: dist_iteration_def dist_flush_def Let_def split: option.split)

lemma dist_posted_prefix: "\<exists>more. posted (dist_run polls d) = posted d @ more"
proof (induction polls arbitrary: d)
  case (Cons f polls)
  have "\<exists>more. posted (dist_iteration f d) = posted d @ more"
    by (simp add: dist_iteration_def dist_flush_def Let_def split: option.split)
  moreover obtain more where "posted (dist_run polls (dist_iteration f d)) = posted (dist_iteration f d) @ more"
    using Cons.IH by blast
  ultimately show ?case by (auto simp: dist_run_def)
qed (simp add: dist_run_def)

lemma dist_posts:
  assumes "dist_ok N d" "0 < pending d" "patience d < length polls"
  shows "\<exists>b k more. posted (dist_run polls d) = posted d @ (b, k) # more \<and> pending d \<le> k"
  using assms
proof (induction polls arbitrary: d)
  case (Cons f polls)
  note ok = dist_iteration_ok(1) [OF Cons.prems(1), of f]
  show ?case
  proof (cases "pending d = length (slots d) \<or> 0 < pending d \<and> 50 < waited d")
    case True
    then show ?thesis
      using dist_flush_full [OF True, of f] dist_posted_prefix [of polls "dist_iteration f d"] by (auto simp: dist_run_def)
  next
    case False
    note p = dist_iteration_patience [OF Cons.prems(1,2) False, of f]
    have "pending d \<le> pending (dist_iteration f d)"
      using False by (auto simp: dist_iteration_def dist_flush_def Let_def split: option.split)
    then show ?thesis
      using Cons.IH [OF ok p(2)] p(1,3) Cons.prems(3) by (fastforce simp: dist_run_def)
  qed
qed simp

text \<open>The batch that is posted begins with the collected requests and goes on with what was
  delivered behind them.\<close>

lemma dist_posts_collected:
  assumes "dist_ok N d" "0 < pending d" "patience d < length polls"
  shows "\<exists>b k more. posted (dist_run polls d) = posted d @ (b, k) # more \<and> pending d \<le> k \<and> k \<le> length b \<and>
    take k b = take (pending d) (slots d) @ take (k - pending d) (deliveries polls)"
proof -
  obtain b k more where p: "posted (dist_run polls d) = posted d @ (b, k) # more" "pending d \<le> k"
    using dist_posts [OF assms] by blast
  note r = dist_run_ok [OF assms(1), of polls]
  have k: "k \<le> length b" using r p(1) by (auto simp: dist_ok_def)
  have n: "length (take (pending d) (slots d)) = pending d" using assms(1) by (simp add: dist_ok_def)
  obtain rest where "take k b @ rest = take (pending d) (slots d) @ deliveries polls"
    using r p(1) by (auto simp: dist_taken_def)
  then have "take k (take k b @ rest) = take k (take (pending d) (slots d) @ deliveries polls)" by (simp only:)
  then have "take k b = take (pending d) (slots d) @ take (k - pending d) (deliveries polls)" using k n p(2) by simp
  then show ?thesis using p k by blast
qed

text \<open>After an idle period the first request is posted alone at the next iteration.\<close>

lemma dist_after_idle:
  assumes "dist_ok N d" "pending d = 0" "50 < waited d"
  shows "posted (dist_iteration f (dist_iteration (Some r) d)) = posted d @ [((slots d)[0 := r], 1)]"
  using assms by (auto simp: dist_iteration_def dist_flush_def dist_ok_def Let_def split: option.split)

section \<open>The queue the loop polls\<close>

text \<open>
  What the loop relies on of the concurrent queue: an accepted request is in it, a refused one
  is not, a dequeued one was in it and is gone, a failed attempt changes nothing. An enqueueing
  call has a context (thread, memory), of which only some are legal (\<open>call_ok\<close>).
\<close>

locale request_queue =
  fixes contents :: "'q \<Rightarrow> calc_deadline_req multiset"
    and enqueue :: "'e \<Rightarrow> calc_deadline_req \<Rightarrow> 'q \<Rightarrow> bool \<times> 'q"
    and try_dequeue :: "'q \<Rightarrow> calc_deadline_req option \<times> 'q"
    and queue_ok :: "'q \<Rightarrow> bool"
    and call_ok :: "'e \<Rightarrow> bool"
  assumes enqueue_law: "queue_ok q \<Longrightarrow> call_ok e \<Longrightarrow> enqueue e r q = (okay, q') \<Longrightarrow>
      queue_ok q' \<and> contents q' = (if okay then add_mset r (contents q) else contents q)"
    and dequeue_law: "queue_ok q \<Longrightarrow> try_dequeue q = (f, q') \<Longrightarrow>
      queue_ok q' \<and> contents q = (case f of None \<Rightarrow> contents q' | Some r \<Rightarrow> add_mset r (contents q'))"
begin

text \<open>Producers enqueue (\<open>Some (e, r)\<close>) while the loop iterates (\<open>None\<close>), in any order; the result
  begins with the accepted requests.\<close>

fun serve :: "('e \<times> calc_deadline_req) option list \<Rightarrow> 'q \<times> distributor \<Rightarrow> calc_deadline_req list \<times> 'q \<times> distributor" where
  "serve [] (q, d) = ([], q, d)"
| "serve (Some (e, r) # es) (q, d) =
     (case enqueue e r q of (okay, q) \<Rightarrow>
        case serve es (q, d) of (acc, q, d) \<Rightarrow> (if okay then r # acc else acc, q, d))"
| "serve (None # es) (q, d) = (case try_dequeue q of (f, q) \<Rightarrow> serve es (q, dist_iteration f d))"

lemma serve_conserves:
  assumes "queue_ok q" "dist_ok N d" "\<forall>x \<in> set es. case x of None \<Rightarrow> True | Some (e, r) \<Rightarrow> call_ok e"
    "serve es (q, d) = (acc, q', d')"
  shows "queue_ok q' \<and> dist_ok N d' \<and> mset (dist_taken d') + contents q' = mset (dist_taken d) + contents q + mset acc"
  using assms
proof (induction es "(q, d)" arbitrary: q d acc rule: serve.induct)
  case (2 e r es q d)
  obtain okay q1 where e: "enqueue e r q = (okay, q1)" by fastforce
  obtain acc1 where s: "serve es (q1, d) = (acc1, q', d')" "acc = (if okay then r # acc1 else acc1)"
    using 2(5) e by (auto split: prod.splits)
  have l: "queue_ok q1" "contents q1 = (if okay then add_mset r (contents q) else contents q)"
    using enqueue_law [OF 2(2) _ e] 2(4) by auto
  then show ?case using 2(1) [OF e [symmetric] l(1) 2(3) _ s(1)] 2(4) s(2) by auto
next
  case (3 es q d)
  obtain f q2 where f: "try_dequeue q = (f, q2)" by fastforce
  note i = dist_iteration_ok [OF 3(3), of f] and l = dequeue_law [OF 3(2) f]
  have "serve es (q2, dist_iteration f d) = (acc, q', d')" using 3(5) f by simp
  then have "queue_ok q' \<and> dist_ok N d' \<and>
      mset (dist_taken d') + contents q' = mset (dist_taken (dist_iteration f d)) + contents q2 + mset acc"
    using 3(1) [OF f [symmetric]] l i(1) 3(4) by simp
  then show ?case using i(2) l by (cases f) auto
qed simp

end

text \<open>The queue of the node as a list, as the handlers see it.\<close>

definition list_dequeue :: "'a list \<Rightarrow> 'a option \<times> 'a list" where
  "list_dequeue q = (case q of [] \<Rightarrow> (None, []) | x # xs \<Rightarrow> (Some x, xs))"

text \<open>\<open>accepted\<close> is what \<open>q_.enqueue\<close> returns: \<open>false\<close> when there is no memory. Nothing looks at it, so
  a refused request is gone.\<close>

definition enque_req :: "bool \<Rightarrow> calc_deadline_req \<Rightarrow> node \<Rightarrow> node" where
  "enque_req accepted r n = (if accepted then n\<lparr>n_queue := n_queue n @ [r]\<rparr> else n)"

definition try_dequeue_req :: "node \<Rightarrow> calc_deadline_req option \<times> node" where
  "try_dequeue_req n = (case list_dequeue (n_queue n) of (f, q) \<Rightarrow> (f, n\<lparr>n_queue := q\<rparr>))"

interpretation node_queue: request_queue "\<lambda>n. mset (n_queue n)" "\<lambda>accepted r n. (accepted, enque_req accepted r n)" try_dequeue_req
    "\<lambda>n. True" "\<lambda>_. True"
  by unfold_locales (auto simp: enque_req_def try_dequeue_req_def list_dequeue_def split: list.splits prod.splits)

section \<open>What a validation does to the node\<close>

lemma update_round_frame:
  "written (update_round creq d r n) = written n" "n_queue (update_round creq d r n) = n_queue n"
  "servers (update_round creq d r n) = servers n" "locked (update_round creq d r n) = locked n"
  "nd_deadline_limit (update_round creq d r n) = nd_deadline_limit n"
  "nd_poc2_start (update_round creq d r n) = nd_poc2_start n"
  "n_limiter (update_round creq d r n) = n_limiter n"
  "miners (n_wallet (update_round creq d r n)) = miners (n_wallet n)"
  by (auto simp: update_round_def Let_def split: option.split)

lemma validate_frame:
  "n_queue (validate_deadline creq d n) = n_queue n" "servers (validate_deadline creq d n) = servers n"
  "locked (validate_deadline creq d n) = locked n"
  "nd_deadline_limit (validate_deadline creq d n) = nd_deadline_limit n"
  "nd_poc2_start (validate_deadline creq d n) = nd_poc2_start n"
  "miners (n_wallet (validate_deadline creq d n)) = miners (n_wallet n)"
  by (auto simp: validate_deadline_def answer_defs Let_def update_round_frame split: option.split)

text \<open>Each validation answers its session once.\<close>

definition verdict :: "u64 \<Rightarrow> u64 \<Rightarrow> response" where
  "verdict limit deadline =
     (if limit < deadline
      then \<lparr>status = status_bad_request, body = json_error 1008 ''Deadline exceeds deadline limit of the pool''\<rparr>
      else \<lparr>status = status_ok, body = success_message deadline\<rparr>)"

lemma validate_answers:
  "written (validate_deadline creq d n) = written n @ [(session creq, verdict (nd_deadline_limit n) d)]"
  by (auto simp: validate_deadline_def answer_defs verdict_def Let_def update_round_frame split: option.split)

lemma validate_each_answers:
  assumes "length creqs \<le> length ds"
  shows "written (validate_each creqs ds n) =
    written n @ map2 (\<lambda>creq d. (session creq, verdict (nd_deadline_limit n) d)) creqs ds"
  using assms
proof (induction creqs ds n rule: validate_each.induct)
  case (1 creq creqs d ds n)
  then show ?case by (simp add: validate_answers validate_frame)
qed simp_all

lemma map2_take: "map2 f (take k xs) (map g xs) = map (\<lambda>x. f x (g x)) (take k xs)"
  by (induction xs arbitrary: k) (auto simp: take_Cons')

text \<open>Deadlines forwarded for a round object only ever improve it.\<close>

lemma validate_round:
  assumes "rounds (n_wallet n) r = Some mr"
  shows "\<exists>mr'. rounds (n_wallet (validate_deadline creq d n)) r = Some mr' \<and>
    mr_deadline mr' \<le> mr_deadline mr \<and> mr_height mr' = mr_height mr \<and> mr_recip_id mr' = mr_recip_id mr"
  using assms
  by (auto simp: validate_deadline_def answer_defs update_round_def Let_def split: option.split)

end
