(* ===== verification/Url_Query.thy ===== *)
theory Url_Query
  imports Cxx_Stdlib Ordered_Map
begin

text \<open>
  \<open>parse_url\<close> of \<open>Session.cpp\<close>: the matches of the regular expression
  \<open>([\w+%]+)=([^&]*)\<close> in the request target, stored in a \<open>std::map\<close>. The lemmas show that
  a printed query is read back.
\<close>

section \<open>The matches\<close>

text \<open>The class \<open>[\w+%]\<close> in the classic locale.\<close>

definition key_char :: "char \<Rightarrow> bool" where
  "key_char c \<longleftrightarrow> is_digit c \<or> (65 \<le> code c \<and> code c \<le> 90) \<or> (97 \<le> code c \<and> code c \<le> 122) \<or>
     c = CHR ''_'' \<or> c = CHR ''+'' \<or> c = CHR ''%''"

definition value_char :: "char \<Rightarrow> bool" where
  "value_char c \<longleftrightarrow> c \<noteq> CHR ''&''"

text \<open>
  A match starts at the leftmost position from which a run of key characters reaches an
  equals sign, which is no key character, so the run is the maximal one; the value runs up
  to an ampersand; the search goes on behind it.
\<close>

function url_matches :: "string \<Rightarrow> (string \<times> string) list" where
  "url_matches [] = []"
| "url_matches (c # s) =
     (let k = takeWhile key_char (c # s); r = dropWhile key_char (c # s) in
      if k = [] then url_matches s
      else case r of
          [] \<Rightarrow> []
        | e # v \<Rightarrow>
            if e = CHR ''='' then (k, takeWhile value_char v) # url_matches (dropWhile value_char v)
            else url_matches v)"
  by pat_completeness auto

lemma dropWhile_tail_less: "dropWhile P (c # s) = e # v \<Longrightarrow> length v < Suc (length s)"
  using length_dropWhile_le [of P "c # s"] by simp

termination url_matches
proof (relation "measure length", goal_cases)
  case (3 c s k r e v)
  then show ?case
    using dropWhile_tail_less [of key_char c s e v] length_dropWhile_le [of value_char v] by simp
next
  case (4 c s k r e v)
  then show ?case using dropWhile_tail_less [of key_char c s e v] by simp
qed simp_all

definition parse_url :: "string \<Rightarrow> (string \<times> string) list" where
  "parse_url query = fold (\<lambda>(key, v) params. omap_set key v params) (url_matches query) []"

text \<open>\<open>params[key]\<close>: the value, and the map, which now holds the key.\<close>

definition map_index :: "string \<Rightarrow> (string \<times> string) list \<Rightarrow> string \<times> (string \<times> string) list" where
  "map_index key params =
     (case map_of params key of Some v \<Rightarrow> (v, params) | None \<Rightarrow> ([], omap_set key [] params))"

section \<open>Reading a printed query\<close>

definition print_pair :: "string \<times> string \<Rightarrow> string" where
  "print_pair kv = fst kv @ ''='' @ snd kv"

fun print_query :: "(string \<times> string) list \<Rightarrow> string" where
  "print_query [] = []"
| "print_query [kv] = print_pair kv"
| "print_query (kv # kv' # kvs) = print_pair kv @ ''&'' @ print_query (kv' # kvs)"

definition query_ok :: "(string \<times> string) list \<Rightarrow> bool" where
  "query_ok kvs \<longleftrightarrow> list_all (\<lambda>(k, v). k \<noteq> [] \<and> list_all key_char k \<and> list_all value_char v) kvs"

lemma key_char_eq [simp]: "\<not> key_char (CHR ''='')"
  by (simp add: key_char_def is_digit_def code_def)

lemma key_char_amp [simp]: "\<not> key_char (CHR ''&'')"
  by (simp add: key_char_def is_digit_def code_def)

lemma key_char_question [simp]: "\<not> key_char (CHR ''?'')"
  by (simp add: key_char_def is_digit_def code_def)

lemma span_run: "list_all P k \<Longrightarrow> r = [] \<or> \<not> P (hd r) \<Longrightarrow> takeWhile P (k @ r) = k \<and> dropWhile P (k @ r) = r"
  by (induction k) (cases r; auto)+

lemma url_matches_pair:
  assumes "k \<noteq> []" "list_all key_char k" "list_all value_char v" "r = [] \<or> hd r = CHR ''&''"
  shows "url_matches (k @ ''='' @ v @ r) = (k, v) # url_matches r"
proof -
  obtain c k' where k: "k = c # k'" using assms(1) by (cases k) auto
  have a: "takeWhile key_char (k @ ''='' @ v @ r) = k \<and> dropWhile key_char (k @ ''='' @ v @ r) = ''='' @ v @ r"
    using assms(2) key_char_eq by (intro span_run) simp_all
  have b: "takeWhile value_char (v @ r) = v \<and> dropWhile value_char (v @ r) = r"
    using assms(3,4) by (intro span_run) (auto simp: value_char_def)
  show ?thesis using a b unfolding k by (simp add: Let_def)
qed

lemma url_matches_amp: "url_matches (CHR ''&'' # r) = url_matches r"
  by (simp add: key_char_amp)

lemma url_matches_query: "query_ok kvs \<Longrightarrow> url_matches (print_query kvs) = kvs"
proof (induction kvs rule: print_query.induct)
  case (2 kv)
  then show ?case
    using url_matches_pair [of "fst kv" "snd kv" "[]"] by (auto simp: query_ok_def print_pair_def split: prod.splits)
next
  case (3 kv kv' kvs)
  have "url_matches (print_query (kv' # kvs)) = kv' # kvs" using 3 by (simp add: query_ok_def)
  then show ?case
    using url_matches_pair [of "fst kv" "snd kv" "''&'' @ print_query (kv' # kvs)"] 3(2) url_matches_amp
    by (simp add: query_ok_def print_pair_def split_beta del: url_matches.simps)
qed simp

text \<open>A path without an equals sign, up to the question mark, matches nothing.\<close>

lemma url_matches_path:
  assumes "CHR ''='' \<notin> set p"
  shows "url_matches (p @ CHR ''?'' # q) = url_matches q"
  using assms
proof (induction "length p" arbitrary: p rule: less_induct)
  case less
  show ?case
  proof (cases p)
    case Nil
    then show ?thesis by (simp add: key_char_question)
  next
    case (Cons c p')
    let ?s = "p @ CHR ''?'' # q"
    show ?thesis
    proof (cases "key_char c")
      case False
      then show ?thesis using less.hyps [of p'] less.prems by (simp add: Cons)
    next
      case True
      define r where "r = dropWhile key_char p"
      have d: "dropWhile key_char ?s = r @ CHR ''?'' # q"
      proof (cases r)
        case Nil
        then have "\<forall>x \<in> set p. key_char x" by (simp add: r_def)
        then show ?thesis by (simp add: Nil key_char_question dropWhile_append2)
      next
        case (Cons e r')
        then show ?thesis unfolding r_def
          by (metis dropWhile_append dropWhile_eq_Nil_conv list.distinct(1))
      qed
      have sub: "set r \<subseteq> set p" unfolding r_def by (meson set_dropWhileD subsetI)
      have shorter: "length r < length p"
        using True length_dropWhile_le [of key_char p'] by (simp add: r_def Cons)
      have u: "url_matches ?s = (case dropWhile key_char ?s of [] \<Rightarrow> []
          | e # v \<Rightarrow> if e = CHR ''='' then (takeWhile key_char ?s, takeWhile value_char v) # url_matches (dropWhile value_char v)
              else url_matches v)"
        using True url_matches.simps(2) [of c "p' @ CHR ''?'' # q"]
        by (simp add: Cons Let_def del: url_matches.simps split: list.split)
      show ?thesis
      proof (cases r)
        case Nil
        then show ?thesis by (simp add: u d del: url_matches.simps)
      next
        case (Cons e r')
        then have "e \<noteq> CHR ''=''" using sub less.prems by auto
        then show ?thesis
          using less.hyps [of r'] shorter sub less.prems by (auto simp: u d Cons simp del: url_matches.simps)
      qed
    qed
  qed
qed

lemma parse_url_query:
  assumes "CHR ''='' \<notin> set path" "query_ok kvs"
  shows "map_of (parse_url (path @ CHR ''?'' # print_query kvs)) key = map_of (rev kvs) key"
  using omap.lookup_all [of kvs key] assms
  by (simp add: parse_url_def url_matches_path url_matches_query del: url_matches.simps)

lemma omap_ok_params: "omap_ok (parse_url query)"
  unfolding parse_url_def by (rule omap_ok_sets) (simp add: omap_ok_def)

lemma map_index_value: "fst (map_index key params) = (case map_of params key of Some v \<Rightarrow> v | None \<Rightarrow> [])"
  by (simp add: map_index_def split: option.split)

lemma map_index_other: "k \<noteq> key \<Longrightarrow> map_of (snd (map_index key params)) k = map_of params k"
  by (simp add: map_index_def map_of_omap_set split: option.split)

end
