(* ===== verification/Http_Session.thy ===== *)
theory Http_Session
  imports Deadline_Handler Url_Query
begin

text \<open>
  \<open>Session.cpp\<close>: what a session does with a request that was read. The session is named by
  the number \<open>sid\<close>, \<open>addr\<close> is the text of \<open>socket_.local_endpoint().address()\<close> and \<open>now\<close> the
  clock of the rate limiter.
\<close>

section \<open>The handlers\<close>

definition bad_account_msg :: string where
  "bad_account_msg = ''sumitNonce request has bad 'accountId' parameter''"

definition bad_nonce_msg :: string where
  "bad_nonce_msg = ''sumitNonce request has bad 'nonce' parameter''"

definition no_recipient_msg :: string where
  "no_recipient_msg = ''Account's reward recipient doesn't match the pool's''"

definition make_deadline_req :: "nat \<Rightarrow> u64 \<Rightarrow> u64 \<Rightarrow> u64 \<Rightarrow> block \<Rightarrow> calc_deadline_req" where
  "make_deadline_req sid account nonc recip b =
     \<lparr>account_id = account, nonce = nonc, req_height = blk_height b, scoop_nr = blk_scoop b,
      req_base_target = blk_base_target b, recip_id = recip, req_gensig = blk_gensig b, session = sid\<rparr>"

text \<open>\<open>accepted\<close>: the queue takes a request that is handed to it.\<close>

definition process_submit_nonce_req :: "bool \<Rightarrow> nat \<Rightarrow> (string \<times> string) list \<Rightarrow> node \<Rightarrow> node" where
  "process_submit_nonce_req accepted sid params n =
     (let (v, params) = map_index ''accountId'' params in
      case stoull v of
        Inl e \<Rightarrow> writeJSONError sid 1013 bad_account_msg n
      | Inr account \<Rightarrow>
          (let (v, params) = map_index ''nonce'' params in
           case stoull v of
             Inl e \<Rightarrow> writeJSONError sid 1012 bad_nonce_msg n
           | Inr nonc \<Rightarrow>
               (let recip = get_reward_recipient account (n_wallet n) in
                if recip = 0 then writeJSONError sid 1004 no_recipient_msg n
                else enque_req accepted (make_deadline_req sid account nonc recip (get_current_block (n_wallet n))) n)))"

definition empty_answer :: "nat \<Rightarrow> response" where
  "empty_answer st = \<lparr>status = st, body = []\<rparr>"

definition handle_request :: "bool \<Rightarrow> real \<Rightarrow> string \<Rightarrow> nat \<Rightarrow> string \<Rightarrow> node \<Rightarrow> node" where
  "handle_request accepted now addr sid target n =
     (let params = parse_url target in
      case map_of params ''requestType'' of
        None \<Rightarrow> do_write sid (empty_answer status_bad_request) n
      | Some req_type \<Rightarrow>
          (let (ok, rl) = limiter_aquire now (addr @ req_type) (n_limiter n); n = n\<lparr>n_limiter := rl\<rparr> in
           if \<not> ok then do_write sid (empty_answer status_service_unavailable) n
           else if req_type = ''getMiningInfo''
             then do_write sid \<lparr>status = status_ok, body = get_cached_mining_info (n_wallet n)\<rparr> n
           else if req_type = ''submitNonce'' then process_submit_nonce_req accepted sid params n
           else do_write sid (empty_answer status_bad_request) n))"

section \<open>Every request is answered at once or queued\<close>

text \<open>What a handler adds: one answer, or one request of the session; nothing, when the queue refuses
  the request.\<close>

definition responds :: "bool \<Rightarrow> nat \<Rightarrow> node \<Rightarrow> node \<Rightarrow> bool" where
  "responds accepted sid n n' \<longleftrightarrow>
     (\<exists>res. written n' = written n @ [(sid, res)] \<and> n_queue n' = n_queue n) \<or>
     (accepted \<and> written n' = written n \<and> (\<exists>r. n_queue n' = n_queue n @ [r] \<and> session r = sid \<and> recip_id r \<noteq> 0)) \<or>
     (\<not> accepted \<and> written n' = written n \<and> n_queue n' = n_queue n)"

lemma responds_write: "responds accepted sid n (do_write sid res n)"
  by (simp add: responds_def)

lemma submit_responds: "responds accepted sid n (process_submit_nonce_req accepted sid params n)"
  unfolding process_submit_nonce_req_def
  by (auto simp: Let_def split_beta answer_defs responds_def enque_req_def make_deadline_req_def split: sum.split)

lemma responds_limiter: "responds accepted sid (n\<lparr>n_limiter := rl\<rparr>) n' \<Longrightarrow> responds accepted sid n n'"
  by (simp add: responds_def)

lemma handle_responds: "responds accepted sid n (handle_request accepted now addr sid target n)"
  unfolding handle_request_def
  by (auto simp: Let_def split_beta intro: responds_write submit_responds responds_limiter split: option.split)

lemma submit_frame:
  "n_wallet (process_submit_nonce_req accepted sid params n) = n_wallet n" "rpcs (process_submit_nonce_req accepted sid params n) = rpcs n"
  "servers (process_submit_nonce_req accepted sid params n) = servers n" "locked (process_submit_nonce_req accepted sid params n) = locked n"
  "nd_deadline_limit (process_submit_nonce_req accepted sid params n) = nd_deadline_limit n"
  "nd_poc2_start (process_submit_nonce_req accepted sid params n) = nd_poc2_start n"
  "n_limiter (process_submit_nonce_req accepted sid params n) = n_limiter n"
  by (auto simp: process_submit_nonce_req_def Let_def split_beta answer_defs enque_req_def split: sum.split)

lemma handle_frame:
  "n_wallet (handle_request accepted now addr sid target n) = n_wallet n" "rpcs (handle_request accepted now addr sid target n) = rpcs n"
  "servers (handle_request accepted now addr sid target n) = servers n" "locked (handle_request accepted now addr sid target n) = locked n"
  "nd_deadline_limit (handle_request accepted now addr sid target n) = nd_deadline_limit n"
  "nd_poc2_start (handle_request accepted now addr sid target n) = nd_poc2_start n"
  by (auto simp: handle_request_def Let_def split_beta submit_frame split: option.split)

section \<open>What is answered\<close>

text \<open>The answer of a \<open>submitNonce\<close> request that is not queued, from its two parameters.\<close>

definition submit_error :: "(string \<Rightarrow> string option) \<Rightarrow> wallet \<Rightarrow> (nat \<times> string) option" where
  "submit_error params w =
     (let text = (\<lambda>k. case params k of Some v \<Rightarrow> v | None \<Rightarrow> []) in
      case (stoull (text ''accountId''), stoull (text ''nonce'')) of
        (Inl _, _) \<Rightarrow> Some (1013, bad_account_msg)
      | (Inr _, Inl _) \<Rightarrow> Some (1012, bad_nonce_msg)
      | (Inr account, Inr _) \<Rightarrow> if get_reward_recipient account w = 0 then Some (1004, no_recipient_msg) else None)"

lemma map_index_param:
  "fst (map_index key params) = (case map_of params key of Some v \<Rightarrow> v | None \<Rightarrow> [])"
  by (rule map_index_value)

lemma submit_cases:
  "process_submit_nonce_req accepted sid params n =
     (case submit_error (map_of params) (n_wallet n) of
        Some (error, msg) \<Rightarrow> writeJSONError sid error msg n
      | None \<Rightarrow>
          (let text = (\<lambda>k. case map_of params k of Some v \<Rightarrow> v | None \<Rightarrow> []) in
           case (stoull (text ''accountId''), stoull (text ''nonce'')) of
             (Inr account, Inr nonc) \<Rightarrow>
               enque_req accepted (make_deadline_req sid account nonc (get_reward_recipient account (n_wallet n))
                 (current_block (n_wallet n))) n
           | _ \<Rightarrow> n))"
  unfolding process_submit_nonce_req_def submit_error_def
  by (auto simp: Let_def split_beta map_index_param map_index_other get_current_block_def split: sum.split)

text \<open>A well-formed query names every parameter at most once.\<close>

lemma query_param:
  assumes "query_ok kvs" "distinct (map fst kvs)" "(k, v) \<in> set kvs" "CHR ''='' \<notin> set path"
  shows "map_of (parse_url (path @ CHR ''?'' # print_query kvs)) k = Some v"
proof -
  have "map_of (rev kvs) k = Some v"
    using assms(2,3) by (simp add: rev_map [symmetric])
  then show ?thesis using parse_url_query [OF assms(4,1)] by simp
qed

lemma value_char_digits: "list_all value_char (to_string w)"
proof -
  have "is_digit c \<Longrightarrow> value_char c" for c by (auto simp: value_char_def is_digit_def code_def)
  then show ?thesis
    using dec_digits_all [of "unat w"] by (auto simp: to_string_def list_all_iff)
qed

text \<open>The target of a \<open>submitNonce\<close> request with its numbers in decimal.\<close>

definition submit_target :: "u64 \<Rightarrow> u64 \<Rightarrow> string" where
  "submit_target account nonc = ''/burst?'' @ print_query [(''requestType'', ''submitNonce''),
      (''accountId'', to_string account), (''nonce'', to_string nonc)]"

lemma submit_target_params:
  "map_of (parse_url (submit_target account nonc)) k =
     map_of [(''nonce'', to_string nonc), (''accountId'', to_string account), (''requestType'', ''submitNonce'')] k"
proof -
  let ?kvs = "[(''requestType'', ''submitNonce''), (''accountId'', to_string account), (''nonce'', to_string nonc)]"
  have "query_ok ?kvs"
    using value_char_digits by (simp add: query_ok_def key_char_def value_char_def is_digit_def code_def)
  then show ?thesis using parse_url_query [of "''/burst''" ?kvs k] by (simp add: submit_target_def)
qed

lemma handle_submit:
  assumes "limiter_aquire now (addr @ ''submitNonce'') (n_limiter n) = (True, rl)"
    and "get_reward_recipient account (n_wallet n) \<noteq> 0"
  shows "handle_request True now addr sid (submit_target account nonc) n =
    n\<lparr>n_limiter := rl, n_queue := n_queue n @
      [make_deadline_req sid account nonc (get_reward_recipient account (n_wallet n)) (current_block (n_wallet n))]\<rparr>"
  using assms submit_target_params [of account nonc "''requestType''"] submit_target_params [of account nonc "''accountId''"]
    submit_target_params [of account nonc "''nonce''"]
  by (simp add: handle_request_def submit_cases submit_error_def stoull_to_string
      enque_req_def Let_def del: print_query.simps url_matches.simps)

section \<open>The life of a connection\<close>

text \<open>
  What the connection's coroutine of callbacks is waiting for. \<open>Waiting\<close>: a request of the
  session is on its way through the validators; \<open>Closed\<close>: \<open>do_close\<close> was called; \<open>Dropped\<close>:
  nothing refers to the session any more, so the object goes and the connection with it: an error
  was logged and nothing more was started, or the queue did not take the request, which held the
  last reference.
\<close>

datatype phase = Reading | Waiting | Writing | Closed | Dropped

datatype error_code = Ec_ok | End_of_stream | Ec_other

definition run_session :: phase where "run_session = Reading"

text \<open>\<open>on_write\<close>, which is always bound with \<open>close = true\<close> by \<open>do_write\<close>.\<close>

definition on_write :: "error_code \<Rightarrow> bool \<Rightarrow> phase" where
  "on_write ec close = (if ec \<noteq> Ec_ok then Dropped else if close then Closed else Reading)"

definition has_answer :: "nat \<Rightarrow> node \<Rightarrow> bool" where
  "has_answer sid n \<longleftrightarrow> sid \<in> fst ` set (written n)"

definition has_request :: "nat \<Rightarrow> node \<Rightarrow> bool" where
  "has_request sid n \<longleftrightarrow> sid \<in> session ` set (n_queue n)"

definition on_read :: "error_code \<Rightarrow> bool \<Rightarrow> real \<Rightarrow> string \<Rightarrow> nat \<Rightarrow> string \<Rightarrow> node \<Rightarrow> phase \<times> node" where
  "on_read ec accepted now addr sid target n =
     (if ec = End_of_stream then (Closed, n)
      else if ec \<noteq> Ec_ok then (Dropped, n)
      else (let n = handle_request accepted now addr sid target n in
            (if has_answer sid n then Writing else if has_request sid n then Waiting else Dropped, n)))"

end
