(* ===== verification/Node_System.thy ===== *)
theory Node_System
  imports Http_Session
begin

text \<open>
  The running node: sessions, the distribution loop, the validator threads and the wallet's
  refresh thread interleave in any order. A step is one callback of a session, one iteration
  of the loop, the start of a batch or the validation of one of its requests. Invariants:
  a session is answered at most once.
\<close>

section \<open>State and steps\<close>

text \<open>\<open>sy_started\<close> counts the posted batches a validator thread has taken; \<open>sy_tasks\<close> holds,
  per running batch, the requests still to be validated with their deadlines.\<close>

record system =
  sy_node :: node
  sy_dist :: distributor
  sy_started :: nat
  sy_tasks :: "(calc_deadline_req \<times> u64) list list"
  sy_phases :: "nat \<rightharpoonup> phase"

text \<open>\<open>Listener::on_accept\<close> without an error: a new session starts to read.\<close>

definition on_accept :: "nat \<Rightarrow> system \<Rightarrow> system" where
  "on_accept sid s = s\<lparr>sy_phases := (sy_phases s)(sid \<mapsto> run_session)\<rparr>"

text \<open>In \<open>sys_read\<close> the queue may or may not accept the request. In \<open>sys_start_batch\<close> the stack holds
  anything, in arrays of their declared sizes. In \<open>sys_validate\<close> the set \<open>l\<close> of round objects whose mutex cannot be taken is arbitrary:
  other threads may hold them, and \<open>try_lock\<close> may fail without a reason.\<close>

inductive sys_step :: "bool \<Rightarrow> env \<Rightarrow> system \<Rightarrow> system \<Rightarrow> bool" for avx2 e where
  sys_accept: "sy_phases s sid = None \<Longrightarrow> sys_step avx2 e s (on_accept sid s)"
| sys_read: "sy_phases s sid = Some Reading \<Longrightarrow> on_read ec accepted now addr sid target (sy_node s) = (ph, n) \<Longrightarrow>
    sys_step avx2 e s (s\<lparr>sy_node := n, sy_phases := (sy_phases s)(sid \<mapsto> ph)\<rparr>)"
| sys_write: "sy_phases s sid = Some Writing \<Longrightarrow>
    sys_step avx2 e s (s\<lparr>sy_phases := (sy_phases s)(sid \<mapsto> on_write ec True)\<rparr>)"
| sys_poll: "try_dequeue_req (sy_node s) = (f, n) \<Longrightarrow>
    sys_step avx2 e s (s\<lparr>sy_node := n, sy_dist := dist_iteration f (sy_dist s)\<rparr>)"
| sys_start_batch: "sy_started s < length (posted (sy_dist s)) \<Longrightarrow> posted (sy_dist s) ! sy_started s = (creqs, k) \<Longrightarrow>
    stack4_ok (fst st) \<Longrightarrow> stack8_ok (snd st) \<Longrightarrow>
    batch_deadlines avx2 st creqs (nd_poc2_start (sy_node s)) = Some ds \<Longrightarrow>
    sys_step avx2 e s (s\<lparr>sy_started := sy_started s + 1, sy_tasks := sy_tasks s @ [zip (take k creqs) ds]\<rparr>)"
| sys_validate: "sy_tasks s = ts1 @ ((creq, d) # t) # ts2 \<Longrightarrow>
    sys_step avx2 e s (s\<lparr>sy_node := validate_deadline creq d (sy_node s\<lparr>locked := l\<rparr>), sy_tasks := ts1 @ t # ts2,
      sy_phases := (sy_phases s)(session creq \<mapsto> Writing)\<rparr>)"
| sys_refresh: "refresh_block e tr (n_wallet (sy_node s)) = Some (b, w) \<Longrightarrow>
    sys_step avx2 e s (s\<lparr>sy_node := sy_node s\<lparr>n_wallet := w\<rparr>\<rparr>)"

inductive_cases sys_stepE: "sys_step avx2 e s t"

text \<open>The state after the constructors, before the first connection.\<close>

definition sys_start :: "wallet \<Rightarrow> rate_limiter \<Rightarrow> config \<Rightarrow> calc_deadline_req list \<Rightarrow> system" where
  "sys_start w rl cfg stale =
     \<lparr>sy_node = \<lparr>n_wallet = w, n_limiter = rl, n_queue = [], written = [], rpcs = [],
                  servers = make_servers (pool_id_to_addr cfg), locked = {},
                  nd_deadline_limit = config.deadline_limit cfg, nd_poc2_start = poc2_start_height cfg\<rparr>,
      sy_dist = dist_start stale, sy_started = 0, sy_tasks = [], sy_phases = Map.empty\<rparr>"

section \<open>Where the requests are\<close>

text \<open>Requests the loop has taken that no validator thread has started on.\<close>

definition dist_unstarted :: "nat \<Rightarrow> distributor \<Rightarrow> calc_deadline_req list" where
  "dist_unstarted k d = concat (map (\<lambda>(b, k). take k b) (drop k (posted d))) @ take (pending d) (slots d)"

definition in_flight :: "system \<Rightarrow> calc_deadline_req multiset" where
  "in_flight s = mset (n_queue (sy_node s)) + mset (dist_unstarted (sy_started s) (sy_dist s)) +
     mset (map fst (concat (sy_tasks s)))"

definition flying :: "system \<Rightarrow> nat \<Rightarrow> nat" where
  "flying s sid = count (image_mset session (in_flight s)) sid"

definition answers :: "system \<Rightarrow> nat \<Rightarrow> nat" where
  "answers s sid = count (mset (map fst (written (sy_node s)))) sid"

lemma posted_iteration:
  "posted (dist_iteration f d) = posted (dist_flush d)"
  "posted (dist_flush d) = posted d \<or> posted (dist_flush d) = posted d @ [(slots d, pending d)]"
  by (simp_all add: dist_iteration_def dist_flush_def Let_def split: option.split)

lemma dist_unstarted_iteration:
  assumes "dist_ok N d" "k \<le> length (posted d)"
  shows "dist_unstarted k (dist_iteration f d) = dist_unstarted k d @ (case f of Some r \<Rightarrow> [r] | None \<Rightarrow> [])"
proof -
  have t: "concat (map (\<lambda>(b, k). take k b) (take k (posted d'))) @ dist_unstarted k d' = dist_taken d'" for d'
    unfolding dist_unstarted_def dist_taken_def append_assoc [symmetric] concat_append [symmetric] map_append [symmetric]
    by simp
  have "take k (posted (dist_iteration f d)) = take k (posted d)"
    using posted_iteration(1) [of f d] posted_iteration(2) [of d] assms(2) by auto
  then show ?thesis
    using t [of d] t [of "dist_iteration f d"] dist_iteration_ok(2) [OF assms(1)]
    by (metis append_assoc same_append_eq)
qed

lemma dist_unstarted_start:
  assumes "k < length (posted d)" "posted d ! k = (creqs, m)"
  shows "dist_unstarted k d = take m creqs @ dist_unstarted (Suc k) d"
  using assms by (simp add: dist_unstarted_def Cons_nth_drop_Suc [symmetric])

section \<open>One answer per session\<close>

definition phase_ok :: "phase option \<Rightarrow> nat \<Rightarrow> nat \<Rightarrow> bool" where
  "phase_ok ph fl an =
     (case ph of
        None \<Rightarrow> fl = 0 \<and> an = 0
      | Some Reading \<Rightarrow> fl = 0 \<and> an = 0
      | Some Waiting \<Rightarrow> fl = 1 \<and> an = 0
      | Some Writing \<Rightarrow> fl = 0 \<and> an = 1
      | Some Closed \<Rightarrow> fl = 0 \<and> an \<le> 1
      | Some Dropped \<Rightarrow> fl = 0 \<and> an \<le> 1)"

definition sys_inv :: "bool \<Rightarrow> system \<Rightarrow> bool" where
  "sys_inv avx2 s \<longleftrightarrow> dist_ok (parallel_validations avx2) (sy_dist s) \<and> sy_started s \<le> length (posted (sy_dist s)) \<and>
     (\<forall>sid. phase_ok (sy_phases s sid) (flying s sid) (answers s sid))"

lemma sys_inv_start:
  assumes "length stale = parallel_validations avx2"
  shows "sys_inv avx2 (sys_start w rl cfg stale)"
proof -
  have "stale \<noteq> []" using assms by (auto simp: parallel_validations_def split: if_splits)
  then show ?thesis
  using dist_start_ok [of stale] assms
  by (simp add: sys_inv_def sys_start_def phase_ok_def flying_def answers_def in_flight_def
      dist_unstarted_def dist_start_def)
qed

lemma on_read_effect:
  assumes "on_read ec accepted now addr sid target n = (ph, n')" "sid \<notin> fst ` set (written n)" "sid \<notin> session ` set (n_queue n)"
  shows "ph \<in> {Closed, Dropped} \<and> n' = n \<or>
    ph = Writing \<and> n_queue n' = n_queue n \<and> (\<exists>res. written n' = written n @ [(sid, res)]) \<or>
    ph = Waiting \<and> written n' = written n \<and> (\<exists>r. n_queue n' = n_queue n @ [r] \<and> session r = sid) \<or>
    ph = Dropped \<and> written n' = written n \<and> n_queue n' = n_queue n"
  using assms handle_responds [of accepted sid n now addr target]
  by (auto simp: on_read_def responds_def has_answer_def has_request_def Let_def split: if_splits)

text \<open>A step that concerns one session.\<close>

lemma sys_inv_change:
  assumes "sys_inv avx2 s" "sy_dist t = sy_dist s" "sy_started t = sy_started s"
    and "\<And>x. x \<noteq> sid \<Longrightarrow> sy_phases t x = sy_phases s x \<and> flying t x = flying s x \<and> answers t x = answers s x"
    and "phase_ok (sy_phases t sid) (flying t sid) (answers t sid)"
  shows "sys_inv avx2 t"
proof -
  have "phase_ok (sy_phases t x) (flying t x) (answers t x)" for x
    using assms(1,4,5) by (cases "x = sid") (auto simp: sys_inv_def)
  then show ?thesis using assms(1-3) by (simp add: sys_inv_def)
qed

lemma sys_inv_phase: "sys_inv avx2 s \<Longrightarrow> phase_ok (sy_phases s sid) (flying s sid) (answers s sid)"
  by (simp add: sys_inv_def)

lemma sys_inv_read:
  assumes inv: "sys_inv avx2 s" and ph: "sy_phases s sid = Some Reading"
    and r: "on_read ec accepted now addr sid target (sy_node s) = (p, n)"
  shows "sys_inv avx2 (s\<lparr>sy_node := n, sy_phases := (sy_phases s)(sid \<mapsto> p)\<rparr>)" (is "sys_inv avx2 ?t")
proof -
  have z: "flying s sid = 0" "answers s sid = 0"
    using sys_inv_phase [OF inv, of sid] ph by (simp_all add: phase_ok_def)
  then have "sid \<notin> fst ` set (written (sy_node s))" "sid \<notin> session ` set (n_queue (sy_node s))"
    by (simp_all add: answers_def flying_def in_flight_def count_eq_zero_iff)
  note e = on_read_effect [OF r this]
  have d: "(\<forall>x. flying ?t x = flying s x \<and> answers ?t x = answers s x + (if x = sid then 1 else 0)) \<and> p = Writing \<or>
    (\<forall>x. flying ?t x = flying s x + (if x = sid then 1 else 0) \<and> answers ?t x = answers s x) \<and> p = Waiting \<or>
    (\<forall>x. flying ?t x = flying s x \<and> answers ?t x = answers s x) \<and> p \<in> {Closed, Dropped}"
    using e by (elim disjE conjE exE) (simp_all add: flying_def in_flight_def answers_def)
  show ?thesis
  proof (rule sys_inv_change [OF inv])
    show "sy_phases ?t x = sy_phases s x \<and> flying ?t x = flying s x \<and> answers ?t x = answers s x" if "x \<noteq> sid" for x
      using d that by (elim disjE conjE) simp_all
    show "phase_ok (sy_phases ?t sid) (flying ?t sid) (answers ?t sid)"
      using d z by (elim disjE conjE) (auto simp: phase_ok_def)
  qed simp_all
qed

lemma sys_inv_poll:
  assumes inv: "sys_inv avx2 s" and q: "try_dequeue_req (sy_node s) = (f, n)"
  shows "sys_inv avx2 (s\<lparr>sy_node := n, sy_dist := dist_iteration f (sy_dist s)\<rparr>)"
proof -
  let ?t = "s\<lparr>sy_node := n, sy_dist := dist_iteration f (sy_dist s)\<rparr>"
  have d: "dist_ok (parallel_validations avx2) (sy_dist s)" "sy_started s \<le> length (posted (sy_dist s))" using inv by (auto simp: sys_inv_def)
  note u = dist_unstarted_iteration [OF d, of f]
  have "in_flight ?t = in_flight s"
    using q u by (auto simp: in_flight_def try_dequeue_req_def list_dequeue_def split: list.splits)
  moreover have "written n = written (sy_node s)" using q by (auto simp: try_dequeue_req_def split: prod.splits)
  moreover have "sy_started s \<le> length (posted (dist_iteration f (sy_dist s)))"
    using d(2) posted_iteration(1) [of f "sy_dist s"] posted_iteration(2) [of "sy_dist s"] by auto
  ultimately show ?thesis
    using inv dist_iteration_ok(1) [OF d(1)] by (simp add: sys_inv_def flying_def answers_def)
qed

lemma sys_inv_start_batch:
  assumes inv: "sys_inv avx2 s" and k: "sy_started s < length (posted (sy_dist s))"
    and p: "posted (sy_dist s) ! sy_started s = (creqs, k)" and ds: "length ds = parallel_validations avx2"
  shows "sys_inv avx2 (s\<lparr>sy_started := sy_started s + 1, sy_tasks := sy_tasks s @ [zip (take k creqs) ds]\<rparr>)"
proof -
  have "(creqs, k) \<in> set (posted (sy_dist s))" using k p by (metis nth_mem)
  then have "length creqs = length ds \<and> k \<le> length creqs" using inv ds by (auto simp: sys_inv_def dist_ok_def)
  then have "map fst (zip (take k creqs) ds) = take k creqs" by (simp add: map_fst_zip_take min_def)
  then have "image_mset fst (mset (zip (take k creqs) ds)) = mset (take k creqs)" by (metis mset_map)
  then have "in_flight (s\<lparr>sy_started := sy_started s + 1, sy_tasks := sy_tasks s @ [zip (take k creqs) ds]\<rparr>) = in_flight s"
    using dist_unstarted_start [OF k p] by (simp add: in_flight_def ac_simps)
  then show ?thesis using inv k by (simp add: sys_inv_def flying_def answers_def)
qed

lemma sys_inv_validate:
  assumes inv: "sys_inv avx2 s" and t: "sy_tasks s = ts1 @ ((creq, d) # t) # ts2"
  shows "sys_inv avx2 (s\<lparr>sy_node := validate_deadline creq d (sy_node s\<lparr>locked := l\<rparr>), sy_tasks := ts1 @ t # ts2,
      sy_phases := (sy_phases s)(session creq \<mapsto> Writing)\<rparr>)" (is "sys_inv avx2 ?t")
proof -
  have f: "in_flight s = add_mset creq (in_flight ?t)"
    using t by (simp add: in_flight_def validate_frame)
  have fl: "flying s x = (if x = session creq then 1 else 0) + flying ?t x" for x
    by (simp add: flying_def f)
  have an: "answers ?t x = (if x = session creq then 1 else 0) + answers s x" for x
    by (simp add: answers_def validate_answers)
  have "flying s (session creq) = 1" "answers s (session creq) = 0"
    using sys_inv_phase [OF inv, of "session creq"] fl [of "session creq"]
    by (auto simp: phase_ok_def split: option.splits phase.splits)
  then have "phase_ok (sy_phases ?t (session creq)) (flying ?t (session creq)) (answers ?t (session creq))"
    using fl [of "session creq"] an [of "session creq"] by (simp add: phase_ok_def)
  then show ?thesis
    by (rule sys_inv_change [OF inv, rotated -1]) (simp_all add: fl an)
qed

lemma sys_inv_write:
  assumes inv: "sys_inv avx2 s" and ph: "sy_phases s sid = Some Writing"
  shows "sys_inv avx2 (s\<lparr>sy_phases := (sy_phases s)(sid \<mapsto> on_write ec True)\<rparr>)"
proof -
  have "flying s sid = 0 \<and> answers s sid = 1"
    using sys_inv_phase [OF inv, of sid] ph by (simp add: phase_ok_def)
  then show ?thesis
    by (intro sys_inv_change [OF inv, where sid = sid])
      (auto simp: flying_def in_flight_def answers_def phase_ok_def on_write_def)
qed

lemma sys_inv_accept:
  assumes inv: "sys_inv avx2 s" and "sy_phases s sid = None"
  shows "sys_inv avx2 (on_accept sid s)"
proof -
  have "flying s sid = 0 \<and> answers s sid = 0"
    using sys_inv_phase [OF inv, of sid] assms(2) by (simp add: phase_ok_def)
  then show ?thesis
    by (intro sys_inv_change [OF inv, where sid = sid])
      (auto simp: flying_def in_flight_def answers_def phase_ok_def on_accept_def run_session_def)
qed

lemma sys_inv_step:
  assumes "sys_step avx2 e s t" "sys_inv avx2 s"
  shows "sys_inv avx2 t"
  using assms(1)
proof (cases rule: sys_step.cases)
  case (sys_refresh tr b w)
  then show ?thesis using assms(2) by (simp add: sys_inv_def flying_def in_flight_def answers_def)
qed (use assms(2) in \<open>simp_all add: sys_inv_accept sys_inv_read sys_inv_write sys_inv_poll sys_inv_start_batch [simplified]
    sys_inv_validate batch_deadlines_length\<close>)

lemma sys_inv_reach: "(sys_step avx2 e)\<^sup>*\<^sup>* s t \<Longrightarrow> sys_inv avx2 s \<Longrightarrow> sys_inv avx2 t"
  by (induction rule: rtranclp_induct) (auto intro: sys_inv_step)

end
