(* ===== verification/Node_Safety.thy ===== *)
theory Node_Safety
  imports Node_System
begin

text \<open>
  What holds of every request in the running node, and of the batches made of them: requests come
  from the current block, so what is true of the blocks is true of them. The slots of a batch
  behind the requests that fill it hold requests of earlier batches or placeholders, until a batch
  has been full. The contract of such a property of requests is a locale; it is interpreted
  for requests that can be computed with, and for requests that are well-formed.
\<close>

section \<open>A property of requests\<close>

text \<open>A batch was posted with as many requests as it has slots.\<close>

definition was_full :: "(calc_deadline_req list \<times> nat) list \<Rightarrow> bool" where
  "was_full ps \<longleftrightarrow> (\<exists>(b, k) \<in> set ps. k = length b)"

text \<open>\<open>P\<close> holds of requests, \<open>Q\<close> of whatever is in a slot; \<open>ph\<close> says that \<open>P\<close> holds of the placeholders.\<close>

definition batch_safe :: "(calc_deadline_req \<Rightarrow> bool) \<Rightarrow> (calc_deadline_req \<Rightarrow> bool) \<Rightarrow> bool \<Rightarrow>
    (calc_deadline_req list \<times> nat) list \<Rightarrow> nat \<Rightarrow> bool" where
  "batch_safe P Q ph ps i \<longleftrightarrow> list_all Q (fst (ps ! i)) \<and> list_all P (take (snd (ps ! i)) (fst (ps ! i))) \<and>
     (ph \<or> was_full (take (Suc i) ps) \<longrightarrow> list_all P (fst (ps ! i)))"

definition dist_safe :: "(calc_deadline_req \<Rightarrow> bool) \<Rightarrow> (calc_deadline_req \<Rightarrow> bool) \<Rightarrow> bool \<Rightarrow> distributor \<Rightarrow> bool" where
  "dist_safe P Q ph d \<longleftrightarrow> list_all Q (slots d) \<and> list_all P (take (pending d) (slots d)) \<and>
     (ph \<or> was_full (posted d) \<longrightarrow> list_all P (slots d)) \<and> (\<forall>i < length (posted d). batch_safe P Q ph (posted d) i)"

definition sys_safe :: "(block \<Rightarrow> bool) \<Rightarrow> (calc_deadline_req \<Rightarrow> bool) \<Rightarrow> (calc_deadline_req \<Rightarrow> bool) \<Rightarrow> bool \<Rightarrow> system \<Rightarrow> bool" where
  "sys_safe B P Q ph s \<longleftrightarrow> B (current_block (n_wallet (sy_node s))) \<and> list_all P (n_queue (sy_node s)) \<and> dist_safe P Q ph (sy_dist s)"

lemma batch_safe_append: "i < length ps \<Longrightarrow> batch_safe P Q ph (ps @ qs) i = batch_safe P Q ph ps i"
  by (simp add: batch_safe_def nth_append)

lemma list_all_update: "list_all P xs \<Longrightarrow> P x \<Longrightarrow> list_all P (xs[i := x])"
  using set_update_subset_insert [of xs i x] by (auto simp: list_all_iff)

lemma dist_flush_safe:
  assumes "dist_ok N d" "dist_safe P Q ph d"
  shows "dist_safe P Q ph (dist_flush d)"
proof (cases "pending d = length (slots d) \<or> (0 < pending d \<and> 50 < waited d)")
  case True
  have "was_full (posted d @ [(slots d, pending d)]) \<Longrightarrow> list_all P (slots d)"
    using assms(2) by (auto simp: was_full_def dist_safe_def)
  moreover from this have "batch_safe P Q ph (posted d @ [(slots d, pending d)]) (length (posted d))"
    using assms(2) by (auto simp: batch_safe_def dist_safe_def)
  ultimately show ?thesis
    using assms(2) True by (auto simp: dist_safe_def dist_flush_def less_Suc_eq batch_safe_append)
qed (use assms in \<open>auto simp: dist_flush_def\<close>)

lemma dist_iteration_safe:
  assumes "dist_ok N d" "dist_safe P Q ph d" "pred_option P f" "\<And>r. P r \<Longrightarrow> Q r"
  shows "dist_safe P Q ph (dist_iteration f d)"
proof -
  have s: "dist_safe P Q ph (dist_flush d)" by (rule dist_flush_safe [OF assms(1,2)])
  have l: "pending (dist_flush d) < length (slots (dist_flush d))"
    using dist_flush_ok [OF assms(1)] by (auto simp: dist_ok_def)
  then have "take (Suc (pending (dist_flush d))) ((slots (dist_flush d))[pending (dist_flush d) := r]) =
      take (pending (dist_flush d)) (slots (dist_flush d)) @ [r]" for r
    by (simp add: take_Suc_conv_app_nth)
  then show ?thesis
    using s assms(3,4) by (cases f) (simp_all add: dist_iteration_def Let_def dist_safe_def list_all_update)
qed

lemma validate_current_block: "current_block (n_wallet (validate_deadline creq d n)) = current_block (n_wallet n)"
  by (auto simp: validate_deadline_def answer_defs update_round_def Let_def split: option.split)

text \<open>What a property of requests has to promise.\<close>

locale request_property =
  fixes B :: "block \<Rightarrow> bool" and P :: "calc_deadline_req \<Rightarrow> bool" and Q :: "calc_deadline_req \<Rightarrow> bool"
  assumes made: "B b \<Longrightarrow> P (make_deadline_req sid account nonc recip b)"
    and anyway: "P r \<Longrightarrow> Q r"
begin

lemma submit_queue_ok:
  assumes "B (current_block (n_wallet n))" "list_all P (n_queue n)"
  shows "list_all P (n_queue (process_submit_nonce_req accepted sid params n))"
  using assms made
  by (auto simp: submit_cases Let_def answer_defs enque_req_def split: option.splits sum.splits)

lemma handle_queue_ok:
  assumes "B (current_block (n_wallet n))" "list_all P (n_queue n)"
  shows "list_all P (n_queue (handle_request accepted now addr sid target n))"
  using assms submit_queue_ok [of "n\<lparr>n_limiter := rl\<rparr>" accepted sid params for rl params]
  by (auto simp: handle_request_def Let_def split_beta split: option.split)

lemma on_read_safe:
  assumes "on_read ec accepted now addr sid target n = (ph, n')"
    and "B (current_block (n_wallet n))" "list_all P (n_queue n)"
  shows "n_wallet n' = n_wallet n" "list_all P (n_queue n')"
  using assms handle_queue_ok [OF assms(2,3)] by (auto simp: on_read_def handle_frame Let_def split: if_splits)

lemma safe_step:
  assumes "sys_step avx2 e s t" "sys_inv avx2 s" "sys_safe B P Q ph s" "B (current_block (n_wallet (sy_node t)))"
  shows "sys_safe B P Q ph t"
  using assms(1)
proof (cases rule: sys_step.cases)
  case (sys_read sid ec accepted now addr target ph n)
  then show ?thesis using assms(3) on_read_safe [OF sys_read(3)] by (simp add: sys_safe_def)
next
  case (sys_poll f n)
  have "pred_option P f \<and> n_wallet n = n_wallet (sy_node s) \<and> list_all P (n_queue n)"
    using sys_poll(2) assms(3)
    by (auto simp: try_dequeue_req_def list_dequeue_def sys_safe_def split: list.splits)
  then show ?thesis
    using sys_poll(1) assms(2,3) dist_iteration_safe [of "parallel_validations avx2" "sy_dist s" P Q ph f] anyway by (simp add: sys_safe_def sys_inv_def)
qed (use assms(3,4) in \<open>simp_all add: sys_safe_def on_accept_def validate_frame validate_current_block\<close>)

lemma safe_start:
  assumes "B (current_block w)" "list_all Q (map (\<lambda>r. r\<lparr>req_base_target := 1\<rparr>) stale)"
    and "ph \<Longrightarrow> list_all P (map (\<lambda>r. r\<lparr>req_base_target := 1\<rparr>) stale)"
  shows "sys_safe B P Q ph (sys_start w rl cfg stale)"
  using assms by (simp add: sys_safe_def sys_start_def dist_safe_def dist_start_def was_full_def)

end

section \<open>Requests that can be computed with\<close>

definition block_ok :: "block \<Rightarrow> bool" where
  "block_ok b \<longleftrightarrow> unat (blk_scoop b) < 4096 \<and> blk_base_target b \<noteq> 0 \<and> length (blk_gensig b) = 32"

definition block_shaped :: "block \<Rightarrow> bool" where
  "block_shaped b \<longleftrightarrow> unat (blk_scoop b) < 4096 \<and> length (blk_gensig b) = 32"

definition creq_shaped :: "calc_deadline_req \<Rightarrow> bool" where
  "creq_shaped r \<longleftrightarrow> unat (scoop_nr r) < 4096 \<and> length (req_gensig r) = 32"

text \<open>A slot holds such a request or one of the placeholders \<open>ps\<close>.\<close>

definition slot_request :: "calc_deadline_req set \<Rightarrow> calc_deadline_req \<Rightarrow> bool" where
  "slot_request ps r \<longleftrightarrow> creq_ok r \<or> r \<in> ps"

interpretation computable: request_property block_ok creq_ok "slot_request ps" for ps
  by unfold_locales (simp_all add: block_ok_def creq_ok_def make_deadline_req_def slot_request_def)

interpretation shaped: request_property block_shaped creq_shaped gensig_sized
  by unfold_locales (simp_all add: block_shaped_def creq_shaped_def make_deadline_req_def gensig_sized_def)

lemma refresh_block_shaped:
  assumes "env_ok e" "refresh_block e tr w = Some (b, w')" "block_shaped (current_block w)"
  shows "block_shaped (current_block w')"
proof -
  obtain info w1 where i: "get_mining_info tr w = (info, w1)" by fastforce
  have f: "current_block w1 = current_block w" using get_mining_info_frame(1) [of tr w] i by simp
  consider "w' = w1" | h bt gs where "new_block e h bt gs w1 = Some w'"
    using assms(2) i by (auto simp: refresh_block_def split: sum.splits prod.splits if_splits)
  then show ?thesis
  proof cases
    case 1
    then show ?thesis using f assms(3) by simp
  next
    case 2
    then show ?thesis
      using new_block_scoop [OF assms(1) 2] poc_scoop_number_range [of h "blk_gensig (current_block w')"]
        length_read_gensig [OF new_block_Some(7) [OF 2]]
      by (simp add: block_shaped_def)
  qed
qed

lemma step_block_shaped:
  assumes "sys_step avx2 e s t" "env_ok e" "block_shaped (current_block (n_wallet (sy_node s)))"
  shows "block_shaped (current_block (n_wallet (sy_node t)))"
  using assms(1)
proof (cases rule: sys_step.cases)
  case (sys_read sid ec accepted now addr target ph n)
  then have "n_wallet n = n_wallet (sy_node s)" by (auto simp: on_read_def handle_frame Let_def split: if_splits)
  then show ?thesis using sys_read(1) assms(3) by simp
next
  case (sys_poll f n)
  then have "n_wallet n = n_wallet (sy_node s)" by (auto simp: try_dequeue_req_def split: prod.splits)
  then show ?thesis using sys_poll(1) assms(3) by simp
next
  case (sys_refresh tr b w)
  then show ?thesis using refresh_block_shaped [OF assms(2) sys_refresh(2)] assms(3) by simp
qed (use assms(3) in \<open>simp_all add: on_accept_def validate_current_block\<close>)

lemma shaped_reach:
  assumes "(sys_step avx2 e)\<^sup>*\<^sup>* s t" "env_ok e" "sys_inv avx2 s" "sys_safe block_shaped creq_shaped gensig_sized ph s"
  shows "sys_inv avx2 t \<and> sys_safe block_shaped creq_shaped gensig_sized ph t"
  using assms(1)
proof (induction rule: rtranclp_induct)
  case (step t u)
  have "block_shaped (current_block (n_wallet (sy_node u)))"
    using step_block_shaped [OF step(2) assms(2)] step(3) by (simp add: sys_safe_def)
  then show ?case using step sys_inv_step shaped.safe_step by blast
qed (use assms in simp)

text \<open>Runs in which the wallet never reports a zero base target.\<close>

definition live_step :: "bool \<Rightarrow> env \<Rightarrow> system \<Rightarrow> system \<Rightarrow> bool" where
  "live_step avx2 e s t \<longleftrightarrow> sys_step avx2 e s t \<and> blk_base_target (current_block (n_wallet (sy_node t))) \<noteq> 0"

lemma block_ok_shaped: "block_ok b \<longleftrightarrow> block_shaped b \<and> blk_base_target b \<noteq> 0"
  by (auto simp: block_ok_def block_shaped_def)

abbreviation sys_computable :: "calc_deadline_req set \<Rightarrow> bool \<Rightarrow> system \<Rightarrow> bool" where
  "sys_computable ps \<equiv> sys_safe block_ok creq_ok (slot_request ps)"

lemma computable_step:
  assumes "live_step avx2 e s t" "env_ok e" "sys_computable ps ph s" "sys_inv avx2 s"
  shows "sys_computable ps ph t \<and> sys_inv avx2 t"
proof -
  have s: "sys_step avx2 e s t" "blk_base_target (current_block (n_wallet (sy_node t))) \<noteq> 0"
    using assms(1) by (simp_all add: live_step_def)
  have "block_ok (current_block (n_wallet (sy_node t)))"
    using step_block_shaped [OF s(1) assms(2)] s(2) assms(3) by (simp add: sys_safe_def block_ok_shaped)
  then show ?thesis using computable.safe_step [OF s(1) assms(4,3)] sys_inv_step [OF s(1) assms(4)] by simp
qed

lemma computable_reach:
  assumes "(live_step avx2 e)\<^sup>*\<^sup>* s t" "env_ok e" "sys_computable ps ph s" "sys_inv avx2 s"
  shows "sys_computable ps ph t \<and> sys_inv avx2 t"
  using assms(1) by (induction rule: rtranclp_induct) (use assms(2-4) computable_step in blast)+

lemma posted_batch:
  assumes "sys_inv avx2 s" "(creqs, k) \<in> set (posted (sy_dist s))"
  shows "length creqs = parallel_validations avx2" "k \<le> length creqs"
  using assms by (auto simp: sys_inv_def dist_ok_def)

lemma sys_batch_value:
  assumes "sys_computable ps True s" "sys_inv avx2 s" "stack4_ok (fst st)" "stack8_ok (snd st)" "(creqs, k) \<in> set (posted (sy_dist s))"
  shows "batch_deadlines avx2 st creqs h = Some (map (creq_deadline (h \<le> req_height (creqs ! 0))) creqs)"
proof -
  have "list_all creq_ok creqs"
    using assms(1,5) by (auto simp: sys_safe_def dist_safe_def batch_safe_def in_set_conv_nth)
  then show ?thesis using batch_deadlines_value [OF assms(3,4) posted_batch(1) [OF assms(2,5)]] by simp
qed

end
