(* ===== verification/Node_Liveness.thy ===== *)
theory Node_Liveness
  imports Node_Safety
begin

text \<open>
  From every state the node can reach, a request that waits can still be answered: polling
  empties the queue, the loop posts what it collected after fifty-one idle iterations, a
  validator thread starts every posted batch, and a started batch answers its requests one
  by one. The measures below count the steps of each stage.
\<close>

definition idle_left :: "distributor \<Rightarrow> nat" where
  "idle_left d = (if pending d = 0 then 0 else 1 + (51 - waited d))"

definition stages :: "(system \<Rightarrow> nat) list" where
  "stages = [\<lambda>s. length (n_queue (sy_node s)), \<lambda>s. idle_left (sy_dist s),
     \<lambda>s. length (posted (sy_dist s)) - sy_started s, \<lambda>s. length (concat (sy_tasks s))]"

definition clean_stacks :: "stack4 \<times> stack8" where
  "clean_stacks =
     (\<lparr>st_x = undefined, st_gendata = dup4 (replicate 262160 0), st_deadline_sc = undefined\<rparr>,
      \<lparr>su_x = undefined, su_gendata = dup8 (replicate 262160 0), su_deadline_sc = undefined\<rparr>)"

lemma elems8_dup: "elems8 (dup8 x) = replicate 8 x"
  by (simp add: dup8_def numeral_eq_Suc)

lemma elems4_dup: "elems4 (dup4 x) = replicate 4 x"
  by (simp add: dup4_def numeral_eq_Suc)

lemma clean_stacks_ok: "stack4_ok (fst clean_stacks)" "stack8_ok (snd clean_stacks)"
  by (simp_all add: clean_stacks_def stack4_ok_def stack8_ok_def elems4_dup elems8_dup list_all_iff)

lemma first_task: "concat ts \<noteq> [] \<Longrightarrow> \<exists>ts1 x t ts2. ts = ts1 @ (x # t) # ts2"
proof (induction ts)
  case (Cons a ts)
  show ?case
  proof (cases a)
    case Nil
    then show ?thesis using Cons by (metis append_Cons concat.simps(2) self_append_conv2)
  qed (metis append_Nil)
qed simp

lemma poll_advances:
  assumes "n_queue (sy_node s) \<noteq> [] \<or> 0 < pending (sy_dist s)"
  shows "\<exists>t. sys_step avx2 e s t \<and> (t, s) \<in> measures stages \<and>
    current_block (n_wallet (sy_node t)) = current_block (n_wallet (sy_node s)) \<and> sy_phases t sid = sy_phases s sid"
proof -
  obtain f n where q: "try_dequeue_req (sy_node s) = (f, n)" by fastforce
  let ?t = "s\<lparr>sy_node := n, sy_dist := dist_iteration f (sy_dist s)\<rparr>"
  have "(?t, s) \<in> measures stages"
  proof (cases "n_queue (sy_node s)")
    case Nil
    then have "f = None \<and> n_queue n = []" using q by (auto simp: try_dequeue_req_def list_dequeue_def)
    then show ?thesis
      using assms Nil
      by (auto simp: stages_def idle_left_def dist_iteration_def dist_flush_def Let_def)
  next
    case (Cons r rs)
    then show ?thesis using q by (auto simp: stages_def try_dequeue_req_def list_dequeue_def)
  qed
  moreover have "n_wallet n = n_wallet (sy_node s)"
    using q by (auto simp: try_dequeue_req_def split: prod.splits)
  ultimately show ?thesis using sys_poll [OF q, of avx2 e] by fastforce
qed

lemma start_advances:
  assumes "sys_computable ps True s" "sys_inv avx2 s" "sy_started s < length (posted (sy_dist s))"
  shows "\<exists>t. sys_step avx2 e s t \<and> (t, s) \<in> measures stages \<and>
    current_block (n_wallet (sy_node t)) = current_block (n_wallet (sy_node s)) \<and> sy_phases t sid = sy_phases s sid"
proof -
  obtain creqs k where p: "posted (sy_dist s) ! sy_started s = (creqs, k)" by fastforce
  then have m: "(creqs, k) \<in> set (posted (sy_dist s))" using assms(3) by (metis nth_mem)
  note b = sys_batch_value [OF assms(1,2) clean_stacks_ok m]
  show ?thesis
    by (rule exI, intro conjI, rule sys_start_batch [OF assms(3) p clean_stacks_ok b]) (use assms(3) in \<open>auto simp: stages_def\<close>)
qed

lemma validate_advances:
  assumes "concat (sy_tasks s) \<noteq> []"
  shows "\<exists>t. sys_step avx2 e s t \<and> (t, s) \<in> measures stages \<and>
    current_block (n_wallet (sy_node t)) = current_block (n_wallet (sy_node s)) \<and>
    (sy_phases t sid = sy_phases s sid \<or> sy_phases t sid = Some Writing)"
proof -
  obtain ts1 creq d t ts2 where t: "sy_tasks s = ts1 @ ((creq, d) # t) # ts2"
    using first_task [OF assms] by auto
  show ?thesis
    by (rule exI, intro conjI, rule sys_validate [OF t, where l = "{}"])
      (use t in \<open>auto simp: stages_def validate_frame validate_current_block\<close>)
qed

lemma waiting_advances:
  assumes "sys_computable ps True s" "sys_inv avx2 s" "sy_phases s sid = Some Waiting"
  shows "\<exists>t. sys_step avx2 e s t \<and> (t, s) \<in> measures stages \<and>
    current_block (n_wallet (sy_node t)) = current_block (n_wallet (sy_node s)) \<and>
    (sy_phases t sid = Some Waiting \<or> sy_phases t sid = Some Writing)"
proof -
  have "flying s sid = 1" using sys_inv_phase [OF assms(2), of sid] assms(3) by (simp add: phase_ok_def)
  then have "in_flight s \<noteq> {#}" by (auto simp: flying_def)
  then consider "n_queue (sy_node s) \<noteq> [] \<or> 0 < pending (sy_dist s)"
    | "sy_started s < length (posted (sy_dist s))" | "concat (sy_tasks s) \<noteq> []"
    by (fastforce simp: in_flight_def dist_unstarted_def)
  then show ?thesis
  proof cases
    case 1
    then show ?thesis using poll_advances [OF 1, of avx2 e sid] assms(3) by auto
  next
    case 2
    then show ?thesis using start_advances [OF assms(1,2) 2, of e sid] assms(3) by auto
  next
    case 3
    then show ?thesis using validate_advances [OF 3, of avx2 e sid] assms(3) by auto
  qed
qed

lemma waiting_answered:
  assumes "env_ok e" "sys_computable ps True s" "sys_inv avx2 s" "sy_phases s sid = Some Waiting"
  shows "\<exists>t. (live_step avx2 e)\<^sup>*\<^sup>* s t \<and> sy_phases t sid = Some Writing \<and> answers t sid = 1"
  using assms(2-)
proof (induction s rule: wf_induct_rule [OF wf_measures [of stages]])
  case (1 s)
  obtain t where t: "sys_step avx2 e s t" "(t, s) \<in> measures stages"
      "current_block (n_wallet (sy_node t)) = current_block (n_wallet (sy_node s))"
      "sy_phases t sid = Some Waiting \<or> sy_phases t sid = Some Writing"
    using waiting_advances [OF 1(2-4)] by blast
  have bt: "blk_base_target (current_block (n_wallet (sy_node t))) \<noteq> 0"
    using t(3) 1(2) by (simp add: sys_safe_def block_ok_def)
  have l: "live_step avx2 e s t" using t(1) bt by (simp add: live_step_def)
  have inv: "sys_computable ps True t" "sys_inv avx2 t"
    using computable_step [OF l assms(1) 1(2,3)] by simp_all
  show ?case
  proof (cases "sy_phases t sid = Some Writing")
    case True
    then show ?thesis using l sys_inv_phase [OF inv(2), of sid] by (auto simp: phase_ok_def)
  next
    case False
    then obtain u where "(live_step avx2 e)\<^sup>*\<^sup>* t u" "sy_phases u sid = Some Writing" "answers u sid = 1"
      using 1(1) [OF t(2) inv] t(4) by blast
    then show ?thesis using l by (meson converse_rtranclp_into_rtranclp)
  qed
qed

section \<open>Runs that only poll\<close>

text \<open>Idle iterations of the loop wait, then post.\<close>

lemma dist_run_last: "dist_run (replicate (Suc k) f) d = dist_iteration f (dist_run (replicate k f) d)"
  by (simp add: dist_run_def replicate_append_same [symmetric] del: replicate_Suc)

lemma dist_idle:
  assumes "0 < pending d" "pending d < length (slots d)" "waited d + k \<le> 51"
  shows "dist_run (replicate k None) d = d\<lparr>waited := waited d + k\<rparr>"
  using assms(3)
proof (induction k)
  case (Suc k)
  then show ?case using assms(1,2) by (simp add: dist_run_last dist_iteration_def dist_flush_def Let_def del: replicate_Suc)
qed (simp add: dist_run_def)

lemma dist_idle_posts:
  assumes "0 < pending d" "pending d < length (slots d)" "waited d = 0"
  shows "posted (dist_run (replicate 52 None) d) = posted d @ [(slots d, pending d)]"
proof -
  have "dist_run (replicate 52 None) d = dist_iteration None (dist_run (replicate 51 None) d)"
    using dist_run_last [of 51 None d] by simp
  then show ?thesis
    using dist_idle [of d 51] assms by (simp add: dist_iteration_def dist_flush_def Let_def)
qed

definition poll_once :: "system \<Rightarrow> system" where
  "poll_once s = (let (f, n) = try_dequeue_req (sy_node s) in s\<lparr>sy_node := n, sy_dist := dist_iteration f (sy_dist s)\<rparr>)"

lemma poll_once_wallet: "n_wallet (sy_node (poll_once s)) = n_wallet (sy_node s)"
  by (auto simp: poll_once_def try_dequeue_req_def Let_def split: prod.splits)

lemma polls_live:
  assumes "blk_base_target (current_block (n_wallet (sy_node s))) \<noteq> 0"
  shows "(live_step avx2 e)\<^sup>*\<^sup>* s ((poll_once ^^ k) s)"
proof (induction k)
  case (Suc k)
  let ?s = "(poll_once ^^ k) s"
  have w: "n_wallet (sy_node ((poll_once ^^ j) s)) = n_wallet (sy_node s)" for j
    by (induction j) (simp_all add: poll_once_wallet)
  obtain f n where "try_dequeue_req (sy_node ?s) = (f, n)" by fastforce
  then have "sys_step avx2 e ?s (poll_once ?s)" using sys_poll by (simp add: poll_once_def)
  then have "live_step avx2 e ?s (poll_once ?s)" using w [of "Suc k"] assms by (simp add: live_step_def)
  then show ?case using Suc by simp
qed simp

lemma polls_empty:
  "n_queue (sy_node s) = [] \<Longrightarrow> (poll_once ^^ k) s = s\<lparr>sy_dist := dist_run (replicate k None) (sy_dist s)\<rparr>"
proof (induction k arbitrary: s)
  case (Suc k)
  have "poll_once s = s\<lparr>sy_dist := dist_iteration None (sy_dist s)\<rparr>"
    using Suc.prems by (simp add: poll_once_def try_dequeue_req_def list_dequeue_def)
  then show ?case using Suc.IH [of "poll_once s"] Suc.prems by (simp add: funpow_swap1 dist_run_def)
qed (simp add: dist_run_def)

end
