(* ===== verification/Round_Lock.thy ===== *)
theory Round_Lock
  imports Deadline_Handler
begin

text \<open>
  The critical section of \<open>validate_deadline\<close> on one \<open>MinerRound\<close>, statement by statement,
  for any number of validator threads: \<open>try_lock\<close>, the comparison, \<open>do_submit_nonce\<close>, the
  store of the deadline and \<open>unlock\<close>. \<open>try_lock\<close> may fail at any time. The runs are related
  to a sequential specification.
\<close>

section \<open>Threads\<close>

type_synonym offer = "calc_deadline_req \<times> u64"

datatype vpc =
    Try_lock offer
  | Compare offer
  | Submit offer
  | Store_deadline offer
  | Unlock offer
  | Answer offer
  | Finished

fun holds_lock :: "vpc \<Rightarrow> bool" where
  "holds_lock (Compare _) = True"
| "holds_lock (Submit _) = True"
| "holds_lock (Store_deadline _) = True"
| "holds_lock (Unlock _) = True"
| "holds_lock _ = False"

text \<open>\<open>sent\<close>: the offers handed to \<open>do_submit_nonce\<close>, which sends them if the recipient has a server,
  in order; \<open>tried\<close> (a ghost): the offers whose thread got the
  mutex, in order; \<open>refused\<close> (a ghost): those whose \<open>try_lock\<close> failed; \<open>answered\<close>: the offers
  answered with success.\<close>

record lock_state =
  ls_round :: miner_round
  holder :: "nat option"
  vpcs :: "nat \<Rightarrow> vpc"
  sent :: "offer list"
  tried :: "offer list"
  refused :: "offer list"
  answered :: "offer list"

definition improves :: "offer \<Rightarrow> miner_round \<Rightarrow> bool" where
  "improves off mr \<longleftrightarrow> mr_height mr = req_height (fst off) \<and> snd off < mr_deadline mr"

inductive lock_step :: "lock_state \<Rightarrow> lock_state \<Rightarrow> bool" where
  ls_begin: "vpcs s i = Finished \<Longrightarrow> lock_step s (s\<lparr>vpcs := (vpcs s)(i := Try_lock off)\<rparr>)"
| ls_lock: "vpcs s i = Try_lock off \<Longrightarrow> holder s = None \<Longrightarrow>
    lock_step s (s\<lparr>vpcs := (vpcs s)(i := Compare off), holder := Some i, tried := tried s @ [off]\<rparr>)"
| ls_fail: "vpcs s i = Try_lock off \<Longrightarrow>
    lock_step s (s\<lparr>vpcs := (vpcs s)(i := Answer off), refused := refused s @ [off]\<rparr>)"
| ls_better: "vpcs s i = Compare off \<Longrightarrow> improves off (ls_round s) \<Longrightarrow>
    lock_step s (s\<lparr>vpcs := (vpcs s)(i := Submit off)\<rparr>)"
| ls_worse: "vpcs s i = Compare off \<Longrightarrow> \<not> improves off (ls_round s) \<Longrightarrow>
    lock_step s (s\<lparr>vpcs := (vpcs s)(i := Unlock off)\<rparr>)"
| ls_submit: "vpcs s i = Submit off \<Longrightarrow>
    lock_step s (s\<lparr>vpcs := (vpcs s)(i := Store_deadline off), sent := sent s @ [off]\<rparr>)"
| ls_store: "vpcs s i = Store_deadline off \<Longrightarrow>
    lock_step s (s\<lparr>vpcs := (vpcs s)(i := Unlock off), ls_round := (ls_round s)\<lparr>mr_deadline := snd off\<rparr>\<rparr>)"
| ls_unlock: "vpcs s i = Unlock off \<Longrightarrow>
    lock_step s (s\<lparr>vpcs := (vpcs s)(i := Answer off), holder := None\<rparr>)"
| ls_answer: "vpcs s i = Answer off \<Longrightarrow>
    lock_step s (s\<lparr>vpcs := (vpcs s)(i := Finished), answered := answered s @ [off]\<rparr>)"

inductive_cases lock_stepE: "lock_step s t"

definition lock_start :: "miner_round \<Rightarrow> lock_state" where
  "lock_start mr = \<lparr>ls_round = mr, holder = None, vpcs = (\<lambda>i. Finished), sent = [], tried = [], refused = [], answered = []\<rparr>"

section \<open>Sequential specification\<close>

text \<open>One offer after the other: the round record, and the offers forwarded so far.\<close>

definition offer_step :: "offer \<Rightarrow> miner_round \<times> offer list \<Rightarrow> miner_round \<times> offer list" where
  "offer_step off st =
     (if improves off (fst st) then ((fst st)\<lparr>mr_deadline := snd off\<rparr>, snd st @ [off]) else st)"

definition offers :: "offer list \<Rightarrow> miner_round \<Rightarrow> miner_round \<times> offer list" where
  "offers offs mr = fold offer_step offs (mr, [])"

lemma offers_snoc: "offers (offs @ [off]) mr = offer_step off (offers offs mr)"
  by (simp add: offers_def)

text \<open>The node's \<open>update_round\<close> is this step, on the round object and the remote calls.\<close>

definition offer_rpc :: "offer \<Rightarrow> submit_nonce_request" where
  "offer_rpc off = \<lparr>rpc_account_id = account_id (fst off), rpc_nonce = nonce (fst off), rpc_deadline = snd off,
     rpc_block_height = req_height (fst off)\<rparr>"

lemma update_round_offer:
  assumes "rounds (n_wallet n) r = Some mr" "map_of (servers n) (recip_id creq) = Some addr"
  shows "rounds (n_wallet (update_round creq d r n)) r = Some (fst (offer_step (creq, d) (mr, []))) \<and>
    rpcs (update_round creq d r n) = rpcs n @ map (\<lambda>off. (addr, offer_rpc off)) (snd (offer_step (creq, d) (mr, [])))"
  using assms by (simp add: update_round_def offer_step_def improves_def offer_rpc_def do_submit_nonce_def Let_def)

section \<open>Invariant\<close>

text \<open>What the holder has done of its offer, seen from the completed ones.\<close>

definition holder_view :: "miner_round \<Rightarrow> lock_state \<Rightarrow> bool" where
  "holder_view mr s \<longleftrightarrow>
     (case holder s of
        None \<Rightarrow> (ls_round s, sent s) = offers (tried s) mr
      | Some i \<Rightarrow>
          (case vpcs s i of
             Compare off \<Rightarrow> tried s \<noteq> [] \<and> last (tried s) = off \<and> (ls_round s, sent s) = offers (butlast (tried s)) mr
           | Submit off \<Rightarrow> tried s \<noteq> [] \<and> last (tried s) = off \<and> (ls_round s, sent s) = offers (butlast (tried s)) mr \<and>
               improves off (ls_round s)
           | Store_deadline off \<Rightarrow>
               ((ls_round s)\<lparr>mr_deadline := snd off\<rparr>, sent s) = offers (tried s) mr
           | Unlock off \<Rightarrow> (ls_round s, sent s) = offers (tried s) mr
           | _ \<Rightarrow> False))"

definition lock_inv :: "miner_round \<Rightarrow> lock_state \<Rightarrow> bool" where
  "lock_inv mr s \<longleftrightarrow> (\<forall>i. holds_lock (vpcs s i) \<longrightarrow> holder s = Some i) \<and> holder_view mr s"

lemma lock_inv_start: "lock_inv mr (lock_start mr)"
  by (simp add: lock_inv_def lock_start_def holder_view_def offers_def)

lemma lock_inv_holder: "lock_inv mr s \<Longrightarrow> holds_lock (vpcs s i) \<Longrightarrow> holder s = Some i"
  by (simp add: lock_inv_def)

lemma tried_snoc: "xs \<noteq> [] \<Longrightarrow> offers xs mr = offer_step (last xs) (offers (butlast xs) mr)"
  by (metis append_butlast_last_id offers_snoc)

text \<open>A thread outside the critical section moves.\<close>

lemma lock_inv_other:
  assumes "lock_inv mr s" "\<not> holds_lock (vpcs s i)" "\<not> holds_lock p"
    and t: "holder t = holder s" "ls_round t = ls_round s" "sent t = sent s" "tried t = tried s" "vpcs t = (vpcs s)(i := p)"
  shows "lock_inv mr t"
proof -
  have "holder s \<noteq> Some i"
    using assms(1,2) by (cases "vpcs s i") (auto simp: lock_inv_def holder_view_def)
  then have "holder_view mr t = holder_view mr s"
    by (auto simp: holder_view_def t split: option.split vpc.split)
  then show ?thesis using assms(1,3) by (auto simp: lock_inv_def t)
qed

lemma lock_inv_step:
  assumes "lock_step s t" "lock_inv mr s"
  shows "lock_inv mr t"
  using assms(1)
proof (cases rule: lock_step.cases)
  case (ls_begin i off)
  then show ?thesis by (intro lock_inv_other [OF assms(2), of i]) simp_all
next
  case (ls_lock i off)
  then show ?thesis using assms(2) by (auto simp: lock_inv_def holder_view_def offers_snoc)
next
  case (ls_fail i off)
  then show ?thesis by (intro lock_inv_other [OF assms(2), of i]) simp_all
next
  case (ls_better i off)
  then show ?thesis using assms(2) lock_inv_holder [OF assms(2), of i] by (auto simp: lock_inv_def holder_view_def)
next
  case (ls_worse i off)
  then show ?thesis
    using assms(2) lock_inv_holder [OF assms(2), of i] tried_snoc [of "tried s" mr]
    by (auto simp: lock_inv_def holder_view_def offer_step_def dest: sym)
next
  case (ls_submit i off)
  then show ?thesis
    using assms(2) lock_inv_holder [OF assms(2), of i] tried_snoc [of "tried s" mr]
    by (auto simp: lock_inv_def holder_view_def offer_step_def dest: sym)
next
  case (ls_store i off)
  then show ?thesis using assms(2) lock_inv_holder [OF assms(2), of i] by (auto simp: lock_inv_def holder_view_def)
next
  case (ls_unlock i off)
  then show ?thesis using assms(2) lock_inv_holder [OF assms(2), of i] by (auto simp: lock_inv_def holder_view_def)
next
  case (ls_answer i off)
  then show ?thesis by (intro lock_inv_other [OF assms(2), of i]) simp_all
qed

lemma lock_inv_reach: "lock_step\<^sup>*\<^sup>* (lock_start mr) s \<Longrightarrow> lock_inv mr s"
  by (induction rule: rtranclp_induct) (auto intro: lock_inv_start lock_inv_step)

section \<open>What is forwarded\<close>

lemma offers_deadlines:
  "sorted_wrt (>) (map snd (snd (offers offs mr))) \<and>
   list_all (\<lambda>off. req_height (fst off) = mr_height mr \<and> snd off < mr_deadline mr \<and>
     mr_deadline (fst (offers offs mr)) \<le> snd off) (snd (offers offs mr)) \<and>
   mr_deadline (fst (offers offs mr)) \<le> mr_deadline mr \<and> mr_height (fst (offers offs mr)) = mr_height mr"
proof (induction offs rule: rev_induct)
  case (snoc off offs)
  then show ?case
    by (auto simp: offers_snoc offer_step_def sorted_wrt_append improves_def list_all_iff)
qed (simp add: offers_def)

text \<open>The deadline kept is the smallest one among the offers for the round.\<close>

lemma offers_minimum:
  "mr_deadline (fst (offers offs mr)) =
     Min (insert (mr_deadline mr) (snd ` {off \<in> set offs. req_height (fst off) = mr_height mr}))"
proof (induction offs rule: rev_induct)
  case (snoc off offs)
  let ?S = "\<lambda>offs. insert (mr_deadline mr) (snd ` {off \<in> set offs. req_height (fst off) = mr_height mr})"
  have finite_ms: "finite (?S offs)" "?S offs \<noteq> {}" by simp_all
  have h: "mr_height (fst (offers offs mr)) = mr_height mr" using offers_deadlines [of offs mr] by blast
  show ?case
  proof (cases "req_height (fst off) = mr_height mr")
    case True
    then have "?S (offs @ [off]) = insert (snd off) (?S offs)" by auto
    then have m: "Min (?S (offs @ [off])) = min (snd off) (Min (?S offs))" using Min_insert [OF finite_ms, of "snd off"] by (simp only:)
    have "mr_deadline (fst (offers (offs @ [off]) mr)) = min (snd off) (mr_deadline (fst (offers offs mr)))"
      using True h by (auto simp: offers_snoc offer_step_def improves_def min_def)
    then show ?thesis by (simp only: m snoc)
  next
    case False
    then have "?S (offs @ [off]) = ?S offs" by auto
    moreover have "offers (offs @ [off]) mr = offers offs mr"
      using False h by (simp add: offers_snoc offer_step_def improves_def)
    ultimately show ?thesis by (simp only: snoc)
  qed
qed (simp add: offers_def)

end
