(* ===== verification/Info_Cache.thy ===== *)
theory Info_Cache
  imports Wallet
begin

text \<open>
  The double-buffered mining info under concurrency: \<open>get_cached_mining_info\<close> reads the
  index and then copies a string without a lock while the refresh thread fills the other
  string and flips the index (\<open>Wallet.cpp\<close>). The accesses are the steps of a transition
  relation; a copy from a string that is being assigned is a data race.
\<close>

section \<open>Steps\<close>

datatype writer = W_idle | W_loaded int string | W_written int string

datatype reader = R_idle | R_loaded int | R_copied string

text \<open>\<open>published\<close> and \<open>since\<close> are ghosts: the answers published so far, latest first, and how many
  were published since the reader loaded the index.\<close>

record info_state =
  idx :: int
  info_0 :: string
  info_1 :: string
  wr :: writer
  rd :: reader
  published_infos :: "string list"
  since :: nat

definition buffer :: "int \<Rightarrow> info_state \<Rightarrow> string" where
  "buffer i s = (if i = 0 then info_0 s else info_1 s)"

text \<open>The buffer \<open>refresh_block\<close> assigns after it loaded \<open>i\<close>.\<close>

definition target :: "int \<Rightarrow> int" where
  "target i = (if i = 0 then 1 else 0)"

inductive info_step :: "info_state \<Rightarrow> info_state \<Rightarrow> bool" where
  w_load: "wr s = W_idle \<Longrightarrow> info_step s (s\<lparr>wr := W_loaded (idx s) new\<rparr>)"
| w_write_1: "wr s = W_loaded i new \<Longrightarrow> i = 0 \<Longrightarrow> info_step s (s\<lparr>info_1 := new, wr := W_written i new\<rparr>)"
| w_write_0: "wr s = W_loaded i new \<Longrightarrow> i \<noteq> 0 \<Longrightarrow> info_step s (s\<lparr>info_0 := new, wr := W_written i new\<rparr>)"
| w_store: "wr s = W_written i new \<Longrightarrow>
    info_step s (s\<lparr>idx := target i, wr := W_idle, published_infos := new # published_infos s, since := since s + 1\<rparr>)"
| r_load: "rd s = R_idle \<Longrightarrow> info_step s (s\<lparr>rd := R_loaded (idx s), since := 0\<rparr>)"
| r_copy: "rd s = R_loaded i \<Longrightarrow> info_step s (s\<lparr>rd := R_copied (buffer i s)\<rparr>)"
| r_done: "rd s = R_copied info \<Longrightarrow> info_step s (s\<lparr>rd := R_idle\<rparr>)"

inductive info_reach :: "info_state \<Rightarrow> info_state \<Rightarrow> bool" where
  ir_refl: "info_reach s s"
| ir_step: "info_reach s t \<Longrightarrow> info_step t u \<Longrightarrow> info_reach s u"

inductive_cases info_stepE: "info_step s t"

text \<open>The refresh thread is about to assign the string the reader is copying.\<close>

definition race :: "info_state \<Rightarrow> bool" where
  "race s \<longleftrightarrow> (\<exists>i new j. wr s = W_loaded i new \<and> rd s = R_loaded j \<and> (target i = 0 \<longleftrightarrow> j = 0))"

section \<open>Invariant\<close>

definition info_inv :: "info_state \<Rightarrow> bool" where
  "info_inv s \<longleftrightarrow>
     published_infos s \<noteq> [] \<and> idx s \<in> {0, 1} \<and> buffer (idx s) s = hd (published_infos s) \<and>
     (case wr s of W_idle \<Rightarrow> True | W_loaded i new \<Rightarrow> i = idx s
      | W_written i new \<Rightarrow> i = idx s \<and> buffer (target i) s = new) \<and>
     (case rd s of R_loaded i \<Rightarrow> i \<in> {0, 1} \<and> (since s = 0 \<longrightarrow> i = idx s) \<and>
        (since s = 1 \<longrightarrow> i = target (idx s) \<and>
          (case wr s of W_written _ _ \<Rightarrow> True | _ \<Rightarrow> length (published_infos s) > 1 \<and> buffer i s = published_infos s ! 1))
      | _ \<Rightarrow> True)"

definition info_start :: "string \<Rightarrow> info_state" where
  "info_start info = \<lparr>idx = 0, info_0 = info, info_1 = [], wr = W_idle, rd = R_idle, published_infos = [info], since = 0\<rparr>"

lemma info_inv_start: "info_inv (info_start info)"
  by (simp add: info_inv_def info_start_def buffer_def)

lemma target_01 [simp]: "target i \<in> {0, 1}" "i \<in> {0, 1} \<Longrightarrow> target (target i) = i" "target i \<noteq> i"
  by (auto simp: target_def)

lemma info_inv_step: "info_inv s \<Longrightarrow> info_step s t \<Longrightarrow> info_inv t"
  by (erule info_stepE) (auto simp: info_inv_def buffer_def target_def hd_conv_nth split: writer.splits reader.splits if_splits)

lemma info_inv_reach: "info_reach s t \<Longrightarrow> info_inv s \<Longrightarrow> info_inv t"
  by (induction rule: info_reach.induct) (auto intro: info_inv_step)


text \<open>While nothing was published since the reader loaded the index, its copy is safe and current.\<close>

lemma no_race_fresh: "info_inv s \<Longrightarrow> since s = 0 \<Longrightarrow> \<not> race s"
  by (auto simp: info_inv_def race_def target_def split: writer.splits reader.splits)

lemma copy_current: "info_inv s \<Longrightarrow> since s = 0 \<Longrightarrow> rd s = R_loaded i \<Longrightarrow> buffer i s = hd (published_infos s)"
  by (simp add: info_inv_def)

lemma copy_previous: "info_inv s \<Longrightarrow> since s = 1 \<Longrightarrow> rd s = R_loaded i \<Longrightarrow> wr s = W_idle \<Longrightarrow>
  buffer i s = published_infos s ! 1"
  by (auto simp: info_inv_def)

text \<open>After one more publication the next refresh assigns the string a slow reader still copies.\<close>

lemma slow_reader_races:
  "\<exists>s. info_reach (info_start a) s \<and> since s = 1 \<and> race s"
proof -
  define s0 where "s0 = info_start a"
  define s1 where "s1 = s0\<lparr>rd := R_loaded 0, since := 0\<rparr>"
  define s2 where "s2 = s1\<lparr>wr := W_loaded 0 b\<rparr>"
  define s3 where "s3 = s2\<lparr>info_1 := b, wr := W_written 0 b\<rparr>"
  define s4 where "s4 = s3\<lparr>idx := 1, wr := W_idle, published_infos := b # published_infos s3, since := since s3 + 1\<rparr>"
  define s5 where "s5 = s4\<lparr>wr := W_loaded 1 c\<rparr>"
  note d = s5_def s4_def s3_def s2_def s1_def s0_def info_start_def
  have "info_step s0 s1" using r_load [of s0] by (simp add: s1_def s0_def info_start_def)
  moreover have "info_step s1 s2" using w_load [of s1 b] by (simp add: d)
  moreover have "info_step s2 s3" using w_write_1 [of s2 0 b] by (simp add: d)
  moreover have "info_step s3 s4" using w_store [of s3 0 b] by (simp add: d target_def)
  moreover have "info_step s4 s5" using w_load [of s4 c] by (simp add: d)
  ultimately have "info_reach s0 s5" by (meson info_reach.intros)
  moreover have "since s5 = 1" "race s5" by (simp_all add: d race_def target_def)
  ultimately show ?thesis unfolding s0_def by blast
qed

text \<open>The publishing steps are those of \<open>publish_info\<close>, and the copy is \<open>get_cached_mining_info\<close>.\<close>

definition info_of :: "wallet \<Rightarrow> info_state" where
  "info_of w = \<lparr>idx = cache_idx w, info_0 = mining_info_0 w, info_1 = mining_info_1 w,
     wr = W_idle, rd = R_idle, published_infos = [get_cached_mining_info w], since = 0\<rparr>"

lemma publish_info_steps:
  "\<exists>s. info_reach (info_of w) s \<and> idx s = cache_idx (publish_info info w) \<and>
     info_0 s = mining_info_0 (publish_info info w) \<and> info_1 s = mining_info_1 (publish_info info w) \<and>
     hd (published_infos s) = get_cached_mining_info (publish_info info w)"
proof -
  let ?i = "cache_idx w"
  define s1 where "s1 = (info_of w)\<lparr>wr := W_loaded ?i info\<rparr>"
  define s2 where "s2 = (if ?i = 0 then s1\<lparr>info_1 := info, wr := W_written ?i info\<rparr>
    else s1\<lparr>info_0 := info, wr := W_written ?i info\<rparr>)"
  define s3 where "s3 = s2\<lparr>idx := target ?i, wr := W_idle, published_infos := info # published_infos s2, since := since s2 + 1\<rparr>"
  have "info_step (info_of w) s1" using w_load [of "info_of w" info] by (simp add: s1_def info_of_def)
  moreover have "info_step s1 s2"
    using w_write_1 [of s1 ?i info] w_write_0 [of s1 ?i info] by (simp add: s2_def s1_def)
  moreover have "info_step s2 s3"
    using w_store [of s2 ?i info] by (simp add: s3_def) (simp add: s2_def)
  ultimately have "info_reach (info_of w) s3" by (meson info_reach.intros)
  then show ?thesis
    by (rule_tac x = s3 in exI)
       (simp add: s3_def s2_def s1_def info_of_def target_def publish_info_def get_cached_mining_info_def)
qed

end
