(* ===== verification/Backend_Properties.thy ===== *)
theory Backend_Properties
  imports Info_Cache Rate_Limiter Url_Query
begin

text \<open>
  Properties of the configuration, the wallet, the mining-info cache, the rate limiter and
  the query parser, each with a concrete instance where it has hypotheses.
\<close>

section \<open>Configuration\<close>

text \<open>C35: the constructor succeeds exactly on documents that have every required member with its
  type, and then yields the configuration the document describes; the pool table maps a pool
  id to the address of the last entry for it.\<close>

theorem config_loads:
  "(load_config parser hw s = Inr c \<longleftrightarrow> config_complete (parser (c_str s)) \<and> c = config_of hw (parser (c_str s))) \<and>
   map_of (pool_id_to_addr (config_of hw d)) pool =
     map_of (rev (pool_entries (members (member d ''poolIdToAddress'')))) pool"
  by (simp add: load_config_def read_config_Inr config_of_pools(1))

text \<open>The configuration file of the repository, as a document.\<close>

definition sample_config :: json where
  "sample_config = JObject
     [(''secret'', JString ''blub''), (''deadlineLimit'', JInt 18446744073709551615),
      (''poolIdToAddress'', JObject [(''10282355196851764065'', JString ''0.0.0.0:50051'')]),
      (''listenAddress'', JString ''0.0.0.0''), (''listenPort'', JInt 8126), (''walletURI'', JString []),
      (''dbAddress'', JString ''mariadb''), (''dbName'', JString ''burstwallet''), (''dbUser'', JString ''root''),
      (''dbPassword'', JString ''burstwallet''), (''poolAddress'', JString ''0.0.0.0:8854''),
      (''allowRequestsPerSecond'', JDouble 10000000), (''burstSize'', JDouble 1500000000),
      (''walletUrl'', JString ''burstcoin:8125''), (''PoC2StartHeight'', JInt 18446744073709551615)]"

section \<open>The current block\<close>

text \<open>C13: a reply with a higher block makes it current: height and base target are the numbers of
  the reply, the generation signature its hexadecimal digits, the scoop number that of the
  specification, and what miners are then told is built from the same values.\<close>

theorem refresh_makes_current:
  assumes "env_ok e" "length gensig = 32"
    and "get_mining_info t w = (info, w1)"
    and "read_mining_info (parse e (c_str info)) = Inr (h, bt, concat (map hex_byte gensig))"
    and "blk_height (current_block w) < h"
  shows "\<exists>w'. refresh_block e t w = Some (True, w') \<and>
    blk_height (current_block w') = h \<and> blk_base_target (current_block w') = bt \<and>
    blk_gensig (current_block w') = gensig \<and>
    unat (blk_scoop (current_block w')) = poc_scoop_number h gensig \<and>
    get_cached_mining_info w' = adapted_mining_info (concat (map hex_byte gensig)) bt h (w_deadline_limit w) \<and>
    miners w' = miners w \<and> rounds w' = rounds w"
proof -
  note f = get_mining_info_frame [of t w, unfolded assms(3) snd_conv]
  obtain w' where w': "new_block e h bt (concat (map hex_byte gensig)) w1 = Some w'"
    "blk_gensig (current_block w') = gensig"
    using new_block_hex [OF assms(1,2)] by blast
  note n = new_block_Some [OF w'(1)] new_block_scoop [OF assms(1) w'(1)]
  show ?thesis
    using assms(3-5) w' n f by (intro exI [of _ w']) (simp add: refresh_block_def)
qed

definition sample_wallet :: wallet where
  "sample_wallet = \<lparr>current_block = \<lparr>blk_height = 5, blk_base_target = 70, blk_scoop = 9, blk_gensig = replicate 32 1\<rparr>,
     cache_idx = 0, mining_info_0 = ''old'', mining_info_1 = [], mining_info_res = [], recip_query = [],
     miners = Map.empty, rounds = Map.empty, next_ref = 0, w_deadline_limit = 100\<rparr>"

definition sample_info :: json where
  "sample_info = JObject [(''generationSignature'', JString (concat (map hex_byte (replicate 32 0xAB)))),
     (''height'', JString ''12''), (''baseTarget'', JString ''345'')]"

definition sample_env :: env where
  "sample_env = \<lparr>parse = (\<lambda>s. if s = ''reply'' then sample_info else JNull), frames = (\<lambda>i. plain_frame),
     stale_sc = \<lparr>sbuf = replicate 64 0, sptr = 0, sstate = \<lparr>xst = [], xW = 0\<rparr>, sout_size = 0\<rparr>,
     stale_gensig = replicate 32 7\<rparr>"

lemma sample_env_ok: "env_ok sample_env"
  by (simp add: env_ok_def sample_env_def frame_ok_def frame_base_def plain_frame_def frame_copy_def)

lemma sample_numbers: "stoull ''12'' = Inr 12" "stoull ''345'' = Inr 345"
  by (simp_all add: stoull_def is_space_def is_digit_def code_def digits_value_def)

lemma sample_read:
  "read_mining_info sample_info = Inr (12, 345, concat (map hex_byte (replicate 32 0xAB)))"
  by (simp add: read_mining_info_def sample_info_def HasMember_def member_def sample_numbers c_str_hex c_str_id
      del: map_replicate)

theorem refresh_makes_current_witness:
  "\<exists>w'. refresh_block sample_env ([''re'', ''ply''], True) sample_wallet = Some (True, w') \<and>
    blk_height (current_block w') = 12 \<and> blk_base_target (current_block w') = 345 \<and>
    unat (blk_scoop (current_block w')) = poc_scoop_number 12 (replicate 32 0xAB)"
proof -
  have "get_mining_info ([''re'', ''ply''], True) sample_wallet = (''reply'', sample_wallet)"
    by (simp add: get_mining_info_def write_cbs sample_wallet_def)
  moreover have "read_mining_info (parse sample_env (c_str ''reply'')) =
      Inr (12, 345, concat (map hex_byte (replicate 32 0xAB)))"
    using sample_read by (simp add: sample_env_def c_str_def)
  ultimately show ?thesis
    using refresh_makes_current [OF sample_env_ok, of "replicate 32 0xAB" _ sample_wallet _ _ 12 345]
    by (fastforce simp: sample_wallet_def)
qed

text \<open>Every other outcome (a failed transfer, a reply that does not parse, a missing or
  mistyped member, a number that does not parse, a block that is not higher) leaves the
  current block and the answer for miners as they were and reports no new block.\<close>

theorem refresh_keeps_block:
  assumes "\<not> (\<exists>h bt gs. read_mining_info (parse e (c_str (fst (get_mining_info t w)))) = Inr (h, bt, gs) \<and>
      blk_height (current_block w) < h)"
  shows "\<exists>w'. refresh_block e t w = Some (False, w') \<and> current_block w' = current_block w \<and>
    get_cached_mining_info w' = get_cached_mining_info w \<and> miners w' = miners w \<and> rounds w' = rounds w"
  using assms get_mining_info_frame [of t w]
  by (cases "get_mining_info t w") (auto simp: refresh_block_def split: sum.split)

theorem refresh_keeps_block_witness:
  "\<exists>w'. refresh_block sample_env ([''reply''], False) sample_wallet = Some (False, w') \<and>
    current_block w' = current_block sample_wallet"
proof -
  have "fst (get_mining_info ([''reply''], False) sample_wallet) = []"
    by (simp add: get_mining_info_def)
  moreover have "read_mining_info (parse sample_env (c_str [])) = Inl Not_object"
    by (simp add: read_mining_info_def sample_env_def c_str_def)
  ultimately show ?thesis
    using refresh_keeps_block [of sample_env "([''reply''], False)" sample_wallet] by auto
qed

text \<open>A failed transfer keeps what it received, so the text parsed after the next transfer
  starts with the remains of the failed one.\<close>

theorem failed_transfer_remains:
  "fst (get_mining_info (chunks2, True) (snd (get_mining_info (chunks1, False) w))) =
     mining_info_res w @ concat chunks1 @ concat chunks2"
  by (simp add: get_mining_info_def write_cbs)

section \<open>Miners\<close>

text \<open>After loading a non-empty result set the reward recipient of an account is that of its
  last row, 0 for an account without a row, and the round of every listed account starts anew
  at the given height.\<close>

theorem cache_miners_table:
  assumes "miners_ok w" "rows \<noteq> []"
  shows "get_reward_recipient a (cache_miners h rows w) =
      (case map_of (rev rows) a of Some p \<Rightarrow> p | None \<Rightarrow> 0) \<and>
    Option.bind (get_miner_round a (cache_miners h rows w)) (rounds (cache_miners h rows w)) =
      map_option (\<lambda>p. \<lparr>mr_deadline = 0xFFFFFFFFFFFFFFFF, mr_height = h, mr_recip_id = p\<rparr>) (map_of (rev rows) a)"
proof -
  have v: "recip_view (cache_miners h rows w) a = map_option (fresh_round h) (map_of (rev rows) a)"
    using cache_miners_view [OF assms] by blast
  have "Option.bind (get_miner_round a (cache_miners h rows w)) (rounds (cache_miners h rows w)) =
      recip_view (cache_miners h rows w) a"
    by (simp add: recip_view_def get_miner_round_def)
  then show ?thesis
    by (simp add: reward_recipient_view v fresh_round_def option.case_eq_if map_option_case split: option.split)
qed

theorem cache_miners_table_witness:
  "get_reward_recipient 3 (cache_miners 9 [(3, 50), (4, 60), (3, 70)] sample_wallet) = 70 \<and>
   get_reward_recipient 8 (cache_miners 9 [(3, 50), (4, 60), (3, 70)] sample_wallet) = 0"
  using cache_miners_table [of sample_wallet "[(3, 50), (4, 60), (3, 70)]" 3 9]
    cache_miners_table [of sample_wallet "[(3, 50), (4, 60), (3, 70)]" 8 9]
  by (simp add: miners_ok_def sample_wallet_def)

text \<open>The query for the reward recipients lists the pool ids, separated by commas.\<close>

theorem query_lists_pools:
  assumes "pools \<noteq> []"
  shows "build_query pools =
    ''SELECT CAST(account_id AS UNSIGNED), CAST(recip_id AS UNSIGNED) FROM reward_recip_assign WHERE recip_id IN ('' @
    comma_list (map (\<lambda>(pool_id, addr). ''CAST('' @ to_string pool_id @ '' AS SIGNED)'') pools) @ '') AND latest = 1''"
proof -
  have "cast_id \<circ> (fst :: u64 \<times> string \<Rightarrow> u64) = (\<lambda>(pool_id, addr). ''CAST('' @ to_string pool_id @ '' AS SIGNED)'')"
    by (auto simp: cast_id_def)
  then show ?thesis by (simp add: build_query_list [OF assms] query_head_def)
qed

theorem query_lists_pools_witness:
  "build_query [(5, ''a''), (17, ''b'')] =
    ''SELECT CAST(account_id AS UNSIGNED), CAST(recip_id AS UNSIGNED) FROM reward_recip_assign WHERE recip_id IN '' @
    ''(CAST(5 AS SIGNED),CAST(17 AS SIGNED)) AND latest = 1''"
proof -
  have "to_string 5 = ''5''" "to_string 17 = ''17''"
    using dec_digits.simps [of 5] dec_digits.simps [of 17] dec_digits.simps [of 1]
    by (simp_all add: to_string_def digit_char_def char_of_def bit_0)
  then show ?thesis using query_lists_pools [of "[(5, ''a''), (17, ''b'')]"] by simp
qed

section \<open>The mining-info cache\<close>

text \<open>C36: a reader of the cached mining info whose copy is not overtaken by a publication copies
  the answer that was current when it started, and the refresh thread is not writing the
  string it copies.\<close>

theorem cached_info_current:
  assumes "info_reach (info_start info) s" "rd s = R_loaded i" "since s = 0"
  shows "buffer i s = hd (published_infos s) \<and> \<not> race s"
  using info_inv_reach [OF assms(1) info_inv_start] assms(2,3) copy_current no_race_fresh by blast

theorem cached_info_current_witness:
  "buffer 0 ((info_start ''x'')\<lparr>rd := R_loaded 0, since := 0\<rparr>) = ''x'' \<and>
   \<not> race ((info_start ''x'')\<lparr>rd := R_loaded 0, since := 0\<rparr>)"
proof -
  have "info_reach (info_start ''x'') ((info_start ''x'')\<lparr>rd := R_loaded 0, since := 0\<rparr>)"
    using info_reach.ir_step [OF info_reach.ir_refl r_load [of "info_start ''x''"]] by (simp add: info_start_def)
  from cached_info_current [OF this, of 0] show ?thesis by (simp add: info_start_def)
qed

text \<open>One publication later a reader that still copies races with the next refresh: the two
  buffers do not protect a slow reader.\<close>

theorem cached_info_race: "\<exists>s. info_reach (info_start info) s \<and> since s = 1 \<and> race s"
  by (rule slow_reader_races)

section \<open>The rate limiter\<close>

text \<open>C15: of the requests of one key that arrive within a span of time at most the burst size plus the
  rate times the span are let through, and one more when the key has no bucket before the first of
  them: that request makes the bucket and takes nothing from it. Requests of other keys may come
  between.\<close>

theorem rate_limited:
  assumes "0 < rl_rate rl" "0 \<le> rl_burst_size rl" "t0 \<le> t1"
    and "\<forall>t \<in> set (granted_times key reqs rl). t0 \<le> t \<and> t \<le> t1"
  shows "real (length (granted_times key reqs rl)) \<le>
    (if map_of (key_to_bucket rl) key = None then 1 else 0) + rl_burst_size rl + rl_rate rl * (t1 - t0)"
  using granted_times_first [OF assms] granted_times_limit [OF assms] by (cases "map_of (key_to_bucket rl) key") simp_all

text \<open>With a burst size of two a new key gets three requests through at once, a known one two.\<close>

theorem rate_limited_witness:
  "granted_times ''k'' [(10, ''k''), (10, ''k''), (10, ''j''), (10, ''k''), (10, ''k'')] (make_limiter 1 2) = [10, 10, 10] \<and>
   real (length (granted_times ''k'' [(10, ''k''), (10, ''k''), (10, ''j''), (10, ''k''), (10, ''k'')] (make_limiter 1 2))) \<le> 3 \<and>
   real (length (granted_times ''k'' [(10, ''k''), (10, ''k''), (10, ''k''), (11, ''j'')]
     \<lparr>rl_rate = 1, rl_burst_size = 2, key_to_bucket = [(''k'', 0)]\<rparr>)) \<le> 2"
proof -
  let ?rl = "\<lparr>rl_rate = 1, rl_burst_size = 2, key_to_bucket = [(''k'', 0 :: real)]\<rparr>"
  let ?reqs = "[(10, ''k''), (10, ''k''), (10, ''k''), (11, ''j'')] :: (real \<times> string) list"
  let ?new = "[(10, ''k''), (10, ''k''), (10, ''j''), (10, ''k''), (10, ''k'')] :: (real \<times> string) list"
  note evaluate = limiter_aquire_def bucket_aquire_def bucket_tokens_def bucket_next_def
  have g: "granted_times ''k'' ?reqs ?rl = [10, 10]" "granted_times ''k'' ?new (make_limiter 1 2) = [10, 10, 10]"
    by (simp_all add: evaluate make_limiter_def)
  have "real (length (granted_times ''k'' ?reqs ?rl)) \<le> 2" using rate_limited [of ?rl 10 10 "''k''" ?reqs] g(1) by simp
  moreover have "real (length (granted_times ''k'' ?new (make_limiter 1 2))) \<le> 3"
    using rate_limited [of "make_limiter 1 2" 10 10 "''k''" ?new] g(2) by (simp add: make_limiter_def)
  ultimately show ?thesis using g(2) by simp
qed

text \<open>C16: the compare-and-swap loop is linearisable: in every interleaving of threads the calls, in the
  order in which they take effect, get the answers a sequential bucket gives them and leave the
  value it leaves; every thread got exactly these answers back from its calls, in its order, but for
  a last call that has taken effect and not returned; and calls take effect behind those that
  have, so a call that returned before another began comes before it.\<close>

theorem cas_linearises:
  assumes "(cas_step rate burst consume)\<^sup>*\<^sup>* (cas_start z) s"
  shows "bucket_run rate burst consume (map (fst \<circ> snd) (history s)) z = (map (snd \<circ> snd) (history s), zero_time s) \<and>
    (\<exists>last. calls_of i (history s) = calls_of i (returned s) @ last \<and> length last \<le> 1 \<and> (pcs s i = Cas_idle \<longrightarrow> last = [])) \<and>
    ((cas_step rate burst consume)\<^sup>*\<^sup>* s t \<longrightarrow> (\<exists>more. history t = history s @ more))"
proof -
  have "length (effective rate burst consume i pc) \<le> 1" for pc by (cases pc) (simp_all add: refusal_def)
  then show ?thesis using cas_inv_reach [OF assms] history_grows [of rate burst consume s t] by (auto simp: cas_inv_def)
qed

text \<open>Two threads read the same value; one takes the last token, the other fails to exchange, reads
  again and is refused.\<close>

lemma two_threads:
  "(cas_step 1 1 1)\<^sup>*\<^sup>* (cas_start 0) \<lparr>zero_time = 5, pcs = (\<lambda>i. Cas_idle), history = [(1, 5, True), (0, 5, False)],
     returned = [(1, 5, True), (0, 5, False)]\<rparr>"
proof -
  define s0 where "s0 = cas_start 0"
  define s1 where "s1 = s0\<lparr>pcs := (pcs s0)(0 := Cas_try 5 (zero_time s0)), history := history s0 @ refusal 1 1 1 0 5 (zero_time s0)\<rparr>"
  define s2 where "s2 = s1\<lparr>pcs := (pcs s1)(1 := Cas_try 5 (zero_time s1)), history := history s1 @ refusal 1 1 1 1 5 (zero_time s1)\<rparr>"
  define s3 where "s3 = s2\<lparr>zero_time := bucket_next 1 1 1 5 0, pcs := (pcs s2)(1 := Cas_done 5 True), history := history s2 @ [(1, 5, True)]\<rparr>"
  define s4 where "s4 = s3\<lparr>pcs := (pcs s3)(0 := Cas_try 5 (zero_time s3)), history := history s3 @ refusal 1 1 1 0 5 (zero_time s3)\<rparr>"
  define s5 where "s5 = s4\<lparr>pcs := (pcs s4)(0 := Cas_done 5 False)\<rparr>"
  define s6 where "s6 = s5\<lparr>pcs := (pcs s5)(1 := Cas_idle), returned := returned s5 @ [(1, 5, True)]\<rparr>"
  define s7 where "s7 = s6\<lparr>pcs := (pcs s6)(0 := Cas_idle), returned := returned s6 @ [(0, 5, False)]\<rparr>"
  note d = s7_def s6_def s5_def s4_def s3_def s2_def s1_def s0_def cas_start_def refusal_def bucket_tokens_def bucket_next_def
  have "cas_step 1 1 1 s0 s1" unfolding s1_def by (rule cas_load) (simp add: d)
  moreover have "cas_step 1 1 1 s1 s2" unfolding s2_def by (rule cas_load) (simp add: d)
  moreover have "cas_step 1 1 1 s2 s3" unfolding s3_def by (rule cas_exchange) (simp_all add: d)
  moreover have "cas_step 1 1 1 s3 s4" unfolding s4_def by (rule cas_retry [where old = 0]) (simp_all add: d)
  moreover have "cas_step 1 1 1 s4 s5" unfolding s5_def by (rule cas_refuse [where old = 5]) (simp_all add: d)
  moreover have "cas_step 1 1 1 s5 s6" unfolding s6_def by (rule cas_return) (simp add: d)
  moreover have "cas_step 1 1 1 s6 s7" unfolding s7_def by (rule cas_return) (simp add: d)
  ultimately have "(cas_step 1 1 1)\<^sup>*\<^sup>* s0 s7" by (meson converse_rtranclp_into_rtranclp rtranclp.rtrancl_refl)
  moreover have "s7 = \<lparr>zero_time = 5, pcs = (\<lambda>i. Cas_idle), history = [(1, 5, True), (0, 5, False)], returned = [(1, 5, True), (0, 5, False)]\<rparr>"
    by (simp add: d fun_eq_iff)
  ultimately show ?thesis by (simp add: s0_def)
qed

theorem cas_linearises_witness:
  "bucket_run 1 1 1 [5, 5] 0 = ([True, False], 5)"
  using cas_linearises [OF two_threads] by simp

section \<open>The query of a request\<close>

text \<open>A query that is printed as \<open>key=value\<close> pairs joined by ampersands behind a path is read
  back: each key has the value of its last pair, and no other key is defined.\<close>

theorem url_roundtrip:
  assumes "CHR ''='' \<notin> set path"
    and "list_all (\<lambda>(k, v). k \<noteq> [] \<and> list_all key_char k \<and> list_all value_char v) kvs"
  shows "map_of (parse_url (path @ ''?'' @ print_query kvs)) key = map_of (rev kvs) key"
  using parse_url_query [of path kvs key] assms by (simp add: query_ok_def)

theorem url_roundtrip_witness:
  "map_of (parse_url ''/burst?a=1&b=x=y&a=2'') ''a'' = Some ''2'' \<and>
   map_of (parse_url ''/burst?a=1&b=x=y&a=2'') ''b'' = Some ''x=y''"
  using url_roundtrip [of "''/burst''" "[(''a'', ''1''), (''b'', ''x=y''), (''a'', ''2'')]" "''a''"]
    url_roundtrip [of "''/burst''" "[(''a'', ''1''), (''b'', ''x=y''), (''a'', ''2'')]" "''b''"]
  by (simp add: print_pair_def key_char_def value_char_def is_digit_def code_def del: url_matches.simps)

end
