(* ===== verification/Hash_Properties.thy ===== *)
theory Hash_Properties
  imports Burstmath_AVX2
begin

unbundle bit_operations_syntax

text \<open>
  The properties of the hash implementations and of the deadline computation built on them:
  the three Shabal implementations compute one function, the scoop number and the deadlines
  are those of the proof-of-capacity reference, and the limits of the assembly routines.
\<close>

text \<open>Contexts with unspecified previous contents, for the concrete instances below.\<close>

definition stale_shabal :: shabal_context where
  "stale_shabal = \<lparr>sbuf = replicate 64 0xAA, sptr = 5, sstate = \<lparr>xst = [], xW = 0\<rparr>, sout_size = 0\<rparr>"

definition stale_mshabal :: mshabal_context where
  "stale_mshabal = \<lparr>mbuf = dup4 [], mptr = 9, mstate = [], mWhigh = 1, mWlow = 2, mout_size = 0\<rparr>"

definition stale_mshabal256 :: mshabal256_context where
  "stale_mshabal256 = \<lparr>wbuf = dup8 [], wptr = 9, wstate = [], wWhigh = 1, wWlow = 2\<rparr>"

text \<open>C5: the assembly hash is Shabal-256 of the concatenated input: for every way the message is
  cut into calls, and every call frame that satisfies \<open>frame_ok\<close>, initialising, updating with
  the chunks in order and closing returns the digest, without a fault.\<close>

theorem shabal_digest_of_chunks:
  assumes "length (sbuf sc) = 64" "\<forall>(f, d, len) \<in> set chunks. frame_ok f \<and> len \<le> length d" "frame_base g"
  shows "Option.bind (fold (\<lambda>(f, d, len) c. Option.bind c (\<lambda>sc. shabal f sc d len)) chunks (shabal_init sc 256))
      (\<lambda>sc. shabal_close g sc 0 0) =
    Some (shabal256 (concat (map (\<lambda>(f, d, len). take len d) chunks)))"
proof -
  let ?up = "\<lambda>c (f, d, len). Option.bind c (\<lambda>sc. shabal f sc d len)"
  have "sc\<lparr>sbuf := map ((!) (sbuf sc)) [0..<64]\<rparr> = sc"
    using assms(1) map_nth [of "sbuf sc"] by simp
  then have "shabal_took (shabal_init sc 256) []"
    using asm.took_start [where sc = sc and b = "(!) (sbuf sc)"] by simp
  then have t: "shabal_took (foldl ?up (shabal_init sc 256) chunks) (concat (map (\<lambda>(f, d, len). take len d) chunks))"
    using asm.took_fold [where ds = chunks and m = "[]"] assms(2) by simp
  then obtain sc' where "foldl ?up (shabal_init sc 256) chunks = Some sc'"
    by (auto simp: shabal_took_def)
  then show ?thesis
    using shabal_took_close [OF _ assms(3)] t
    by (simp add: foldl_conv_fold split_def)
qed

theorem shabal_digest_of_chunks_witness:
  "Option.bind (fold (\<lambda>(f, d, len) c. Option.bind c (\<lambda>sc. shabal f sc d len))
       [(plain_frame, [1, 2, 3], 3), (plain_frame, replicate 100 7, 80)]
       (shabal_init stale_shabal 256))
     (\<lambda>sc. shabal_close plain_frame sc 0 0) =
   Some (shabal256 ([1, 2, 3] @ replicate 80 7))"
  using shabal_digest_of_chunks [of "stale_shabal"
      "[(plain_frame, [1, 2, 3], 3), (plain_frame, replicate 100 7, 80)]" plain_frame]
  by (simp add: frame_ok_def frame_base_def plain_frame_def frame_copy_def stale_shabal_def)


text \<open>C6: each of the four lanes of \<open>mshabal_sse4.c\<close> is Shabal-256 of what was passed in that lane,
  for every way the input is cut into calls of \<open>mshabal\<close>.\<close>

theorem sse4_digest_of_chunks:
  assumes "\<forall>(d, len) \<in> set chunks. len \<le> length (lane4 k d)"
  shows "concat (map bytes32 (lane4 k (snd (sse4_mshabal_close
      (foldl (\<lambda>sc (d, len). sse4_mshabal sc (given d) len) (sse4_mshabal_init sc 256) chunks) (dup4 0) 0)))) =
    shabal256 (concat (map (\<lambda>(d, len). take len (lane4 k d)) chunks))"
  using sse4.digest_chunks [where ds = chunks and k = k and sc = sc] assms
  by (simp add: sse4_digest_def)

theorem sse4_digest_of_chunks_witness:
  "concat (map bytes32 (lane4 2 (snd (sse4_mshabal_close
      (foldl (\<lambda>sc (d, len). sse4_mshabal sc (given d) len)
         (sse4_mshabal_init stale_mshabal 256)
         [(Quad [1, 2] [3, 4] [5, 6] [7, 8], 2), (dup4 (replicate 70 9), 65)]) (dup4 0) 0)))) =
   shabal256 ([5, 6] @ replicate 65 9)"
  using sse4_digest_of_chunks [where k = 2 and
      chunks = "[(Quad [1, 2] [3, 4] [5, 6] [7, 8], 2), (dup4 (replicate 70 9), 65)]"]
  by simp

text \<open>C7: each of the eight lanes of \<open>mshabal256_avx2.c\<close> is Shabal-256 of what was passed in that
  lane, for every way the input is cut into calls of \<open>mshabal256\<close>.\<close>

theorem avx2_digest_of_chunks:
  assumes "\<forall>(d, len) \<in> set chunks. len \<le> length (lane8 k d)"
  shows "concat (map bytes32 (lane8 k (snd (mshabal256_close
      (foldl (\<lambda>sc (d, len). mshabal256 sc d len) (mshabal256_init sc) chunks))))) =
    shabal256 (concat (map (\<lambda>(d, len). take len (lane8 k d)) chunks))"
  using avx2.digest_chunks [where ds = chunks and k = k and sc = sc] assms
  by (simp add: avx2_digest_def)

theorem avx2_digest_of_chunks_witness:
  "concat (map bytes32 (lane8 6 (snd (mshabal256_close
      (foldl (\<lambda>sc (d, len). mshabal256 sc d len)
         (mshabal256_init stale_mshabal256)
         [(Oct [1] [2] [3] [4] [5] [6] [7] [8], 1), (dup8 (replicate 70 9), 64)]))))) =
   shabal256 ([7] @ replicate 64 9)"
  using avx2_digest_of_chunks [where k = 6 and
      chunks = "[(Oct [1] [2] [3] [4] [5] [6] [7] [8], 1), (dup8 (replicate 70 9), 64)]"]
  by simp

text \<open>C4: \<open>calculate_scoop\<close> returns the scoop number of the block, the low twelve bits of the
  hash of generation signature and big-endian height, and never faults, on frames that satisfy
  \<open>frame_ok\<close> (aligned, and with addresses that the \<open>testq\<close> of the assembly can tell apart).\<close>

theorem calculate_scoop_correct:
  assumes "\<And>i. frame_ok (f i)" "length (sbuf sc) = 64" "32 \<le> length gensig"
  shows "\<exists>s. calculate_scoop f sc height gensig = Some s \<and>
    unat s = poc_scoop_number height gensig \<and> unat s < 4096"
  using calculate_scoop_value [where height = height, OF assms] poc_scoop_number_range by fastforce

theorem calculate_scoop_correct_witness:
  "\<exists>s. calculate_scoop (\<lambda>_. plain_frame) stale_shabal
      500000 (replicate 32 1) = Some s \<and> unat s = poc_scoop_number 500000 (replicate 32 1) \<and> unat s < 4096"
  by (rule calculate_scoop_correct) (simp_all add: frame_ok_def frame_base_def plain_frame_def frame_copy_def stale_shabal_def)

text \<open>C1: for requests with a scoop number in range, a nonzero base target and a readable
  generation signature in every lane, \<open>calculate_deadlines_sse4\<close> writes in each lane the
  proof-of-capacity deadline of that lane's account, nonce and block, whatever the stack
  arrays held before.\<close>

theorem calculate_deadlines_sse4_correct:
  assumes "\<And>k. length (lane4 k gendata) = 262160"
    and "\<And>k. unat (lane4 k scoop_nr) < 4096 \<and> lane4 k base_target \<noteq> 0 \<and> 32 \<le> length (lane4 k gensig)"
  shows "\<exists>ds. calculate_deadlines_sse4 poc2 base_target scoop_nr gensig addr nonce x gendata y = Some ds \<and>
    (\<forall>k. lane4 k ds = poc_deadline poc2 (lane4 k base_target) (lane4 k scoop_nr) (lane4 k gensig)
      (lane4 k addr) (lane4 k nonce))"
proof -
  let ?D = "\<lambda>k. poc_deadline poc2 (lane4 k base_target) (lane4 k scoop_nr) (lane4 k gensig) (lane4 k addr) (lane4 k nonce)"
  have "gather4 (map_quad (\<lambda>k. lane_deadline poc2 (lane4 k base_target) (lane4 k scoop_nr) (lane4 k gensig)
      (lane4 k addr) (lane4 k nonce)) (Quad 0 1 2 3)) = Some (map_quad ?D (Quad 0 1 2 3))"
    using assms(2) by (simp add: lane_deadline_poc)
  moreover have "lane4 k (map_quad ?D (Quad 0 1 2 3)) = ?D k" for k
    unfolding lane4_map lane4_iota by (simp add: lane4_def)
  ultimately show ?thesis
    unfolding sse4_deadlines_lanes [OF assms(1)] by blast
qed

theorem calculate_deadlines_sse4_correct_witness:
  "\<exists>ds. calculate_deadlines_sse4 True (Quad 10 20 30 40) (Quad 0 1 2 4095) (dup4 (replicate 32 5))
      (Quad 1 2 3 4) (Quad 7 7 8 9) stale_mshabal
      (dup4 (replicate 262160 0)) stale_mshabal = Some ds \<and>
    (\<forall>k. lane4 k ds = poc_deadline True (lane4 k (Quad 10 20 30 40)) (lane4 k (Quad 0 1 2 4095)) (replicate 32 5)
      (lane4 k (Quad 1 2 3 4)) (lane4 k (Quad 7 7 8 9)))"
proof -
  have "unat (lane4 k (Quad 0 1 2 4095 :: u32 quad)) < 4096 \<and> lane4 k (Quad 10 20 30 40 :: u64 quad) \<noteq> 0" for k
    using lane4_in [of k "Quad 0 1 2 4095 :: u32 quad"] lane4_in [of k "Quad 10 20 30 40 :: u64 quad"] by auto
  then show ?thesis
    using calculate_deadlines_sse4_correct [where gendata = "dup4 (replicate 262160 0)"
        and gensig = "dup4 (replicate 32 5)" and scoop_nr = "Quad 0 1 2 4095" and base_target = "Quad 10 20 30 40"]
    by simp
qed


text \<open>C2: so does \<open>calculate_deadlines_avx2\<close> in its eight lanes.\<close>

theorem calculate_deadlines_avx2_correct:
  assumes "\<And>k. length (lane8 k gendata) = 262160"
    and "\<And>k. unat (lane8 k scoop_nr) < 4096 \<and> lane8 k base_target \<noteq> 0 \<and> 32 \<le> length (lane8 k gensig)"
  shows "\<exists>ds. calculate_deadlines_avx2 poc2 base_target scoop_nr gensig addr nonce x gendata y = Some ds \<and>
    (\<forall>k. lane8 k ds = poc_deadline poc2 (lane8 k base_target) (lane8 k scoop_nr) (lane8 k gensig)
      (lane8 k addr) (lane8 k nonce))"
proof -
  let ?D = "\<lambda>k. poc_deadline poc2 (lane8 k base_target) (lane8 k scoop_nr) (lane8 k gensig) (lane8 k addr) (lane8 k nonce)"
  have "gather8 (map_oct (\<lambda>k. lane_deadline poc2 (lane8 k base_target) (lane8 k scoop_nr) (lane8 k gensig)
      (lane8 k addr) (lane8 k nonce)) (Oct 0 1 2 3 4 5 6 7)) = Some (map_oct ?D (Oct 0 1 2 3 4 5 6 7))"
    using assms(2) by (simp add: lane_deadline_poc)
  moreover have "lane8 k (map_oct ?D (Oct 0 1 2 3 4 5 6 7)) = ?D k" for k
    unfolding lane8_map lane8_iota by (simp add: lane8_def)
  ultimately show ?thesis
    unfolding avx2_deadlines_lanes [OF assms(1)] by blast
qed

theorem calculate_deadlines_avx2_correct_witness:
  "\<exists>ds. calculate_deadlines_avx2 False (Oct 10 20 30 40 50 60 70 80) (Oct 0 1 2 4095 4 5 6 7) (dup8 (replicate 32 5))
      (Oct 1 2 3 4 5 6 7 8) (Oct 7 7 8 9 7 7 8 9) stale_mshabal256
      (dup8 (replicate 262160 0)) stale_mshabal256 = Some ds \<and>
    (\<forall>k. lane8 k ds = poc_deadline False (lane8 k (Oct 10 20 30 40 50 60 70 80)) (lane8 k (Oct 0 1 2 4095 4 5 6 7))
      (replicate 32 5) (lane8 k (Oct 1 2 3 4 5 6 7 8)) (lane8 k (Oct 7 7 8 9 7 7 8 9)))"
proof -
  have "unat (lane8 k (Oct 0 1 2 4095 4 5 6 7 :: u32 oct)) < 4096 \<and> lane8 k (Oct 10 20 30 40 50 60 70 80 :: u64 oct) \<noteq> 0" for k
    using lane8_in [of k "Oct 0 1 2 4095 4 5 6 7 :: u32 oct"] lane8_in [of k "Oct 10 20 30 40 50 60 70 80 :: u64 oct"]
    by auto
  then show ?thesis
    using calculate_deadlines_avx2_correct [where gendata = "dup8 (replicate 262160 0)"
        and gensig = "dup8 (replicate 32 5)" and scoop_nr = "Oct 0 1 2 4095 4 5 6 7"
        and base_target = "Oct 10 20 30 40 50 60 70 80"]
    by simp
qed

text \<open>C3: the two builds agree on every input: the eight-way function returns what two calls of the
  four-way function on the halves return, and faults exactly when one of these does.\<close>

theorem avx2_deadlines_two_sse4:
  assumes "\<And>k. length (lane8 k g) = 262160" "\<And>k. length (lane4 k g1) = 262160" "\<And>k. length (lane4 k g2) = 262160"
  shows "calculate_deadlines_avx2 poc2 (Oct b0 b1 b2 b3 b4 b5 b6 b7) (Oct s0 s1 s2 s3 s4 s5 s6 s7)
      (Oct q0 q1 q2 q3 q4 q5 q6 q7) (Oct a0 a1 a2 a3 a4 a5 a6 a7) (Oct n0 n1 n2 n3 n4 n5 n6 n7) x g y =
    do {
      lo \<leftarrow> calculate_deadlines_sse4 poc2 (Quad b0 b1 b2 b3) (Quad s0 s1 s2 s3) (Quad q0 q1 q2 q3)
        (Quad a0 a1 a2 a3) (Quad n0 n1 n2 n3) x1 g1 y1;
      hi \<leftarrow> calculate_deadlines_sse4 poc2 (Quad b4 b5 b6 b7) (Quad s4 s5 s6 s7) (Quad q4 q5 q6 q7)
        (Quad a4 a5 a6 a7) (Quad n4 n5 n6 n7) x2 g2 y2;
      Some (Oct (lane4 0 lo) (lane4 1 lo) (lane4 2 lo) (lane4 3 lo)
                (lane4 0 hi) (lane4 1 hi) (lane4 2 hi) (lane4 3 hi))
    }"
  unfolding sse4_deadlines_lanes [OF assms(2)] sse4_deadlines_lanes [OF assms(3)] avx2_deadlines_lanes [OF assms(1)]
  by (simp del: One_nat_def split: bind_split)

theorem avx2_deadlines_two_sse4_witness:
  "calculate_deadlines_avx2 True (Oct 1 2 3 4 5 6 7 8) (Oct 0 1 2 3 4 5 6 7)
      (dup8 (replicate 32 5)) (Oct 1 2 3 4 5 6 7 8) (Oct 8 7 6 5 4 3 2 1)
      stale_mshabal256 (dup8 (replicate 262160 0)) stale_mshabal256 =
    do {
      lo \<leftarrow> calculate_deadlines_sse4 True (Quad 1 2 3 4) (Quad 0 1 2 3) (dup4 (replicate 32 5))
        (Quad 1 2 3 4) (Quad 8 7 6 5) stale_mshabal (dup4 (replicate 262160 0)) stale_mshabal;
      hi \<leftarrow> calculate_deadlines_sse4 True (Quad 5 6 7 8) (Quad 4 5 6 7) (dup4 (replicate 32 5))
        (Quad 5 6 7 8) (Quad 4 3 2 1) stale_mshabal (dup4 (replicate 262160 1)) stale_mshabal;
      Some (Oct (lane4 0 lo) (lane4 1 lo) (lane4 2 lo) (lane4 3 lo)
                (lane4 0 hi) (lane4 1 hi) (lane4 2 hi) (lane4 3 hi))
    }"
  unfolding dup8_def [of "replicate 32 5"] dup4_def [of "replicate 32 5"]
  by (rule avx2_deadlines_two_sse4) simp_all

text \<open>The scoop number of any block can be read: with the scoop that \<open>calculate_scoop\<close> returns, no
  lane of a deadline computation reads outside the nonce, in either proof-of-capacity version.\<close>

theorem scoop_is_readable:
  assumes "\<And>i. frame_ok (f i)" "length (sbuf sc) = 64" "32 \<le> length gensig" "base_target \<noteq> 0"
  shows "\<exists>s. calculate_scoop f sc height gensig = Some s \<and>
    lane_deadline poc2 base_target s gensig addr nonce =
      Some (poc_deadline poc2 base_target s gensig addr nonce)"
  using calculate_scoop_value [where height = height, OF assms(1-3)] poc_scoop_number_range [of height gensig]
    lane_deadline_poc [OF assms(3) _ assms(4)]
  by fastforce

theorem scoop_is_readable_witness:
  "\<exists>s. calculate_scoop (\<lambda>_. plain_frame) stale_shabal 502000 (replicate 32 9) = Some s \<and>
    lane_deadline True 70000 s (replicate 32 9) 12 13 = Some (poc_deadline True 70000 s (replicate 32 9) 12 13)"
  by (rule scoop_is_readable) (simp_all add: frame_ok_def frame_base_def plain_frame_def frame_copy_def stale_shabal_def)

text \<open>A scoop number out of range (and below the wrap of the 32-bit offset) makes the four-way
  function read outside its arrays, whatever the other lanes hold.\<close>

theorem sse4_deadlines_bad_scoop:
  assumes "\<And>k. length (lane4 k gendata) = 262160" "4096 \<le> unat (lane4 j scoop_nr)" "unat (lane4 j scoop_nr) < 2 ^ 26"
  shows "calculate_deadlines_sse4 poc2 base_target scoop_nr gensig addr nonce x gendata y = None"
proof -
  let ?Q = "map_quad (\<lambda>k. lane_deadline poc2 (lane4 k base_target) (lane4 k scoop_nr) (lane4 k gensig)
      (lane4 k addr) (lane4 k nonce)) (Quad 0 1 2 3)"
  have "lane4 (j mod 4) scoop_nr = lane4 j scoop_nr" by (simp add: lane4_def)
  then have "lane4 j ?Q = None"
    unfolding lane4_map lane4_iota using assms(2,3) by (simp add: lane_deadline_outside)
  then show ?thesis
    unfolding sse4_deadlines_lanes [OF assms(1)] gather4_None by blast
qed

theorem sse4_deadlines_bad_scoop_witness:
  "calculate_deadlines_sse4 False (dup4 1) (Quad 0 1 2 4096) (dup4 (replicate 32 5)) (dup4 1) (dup4 1)
     stale_mshabal (dup4 (replicate 262160 0)) stale_mshabal = None"
  by (rule sse4_deadlines_bad_scoop [where j = 3]) simp_all


text \<open>The padding of \<open>shabal_close\<close> builds the padded block (for whatever was in the rest of
  the buffer), and its quadword stores end before the state words at offset 72, although they may
  run over the field \<open>ptr\<close>.\<close>

theorem close_padding:
  assumes "length (sbuf sc) = 64" "sptr sc < 64"
  shows "sbuf (close_pad sc ub 0) = pad_block (take (sptr sc) (sbuf sc)) \<and>
    64 \<le> sptr sc + 1 + close_zeros (sptr sc) \<and> sptr sc + 1 + close_zeros (sptr sc) \<le> 72"
  using close_pad_block [OF assms] close_zeros_bounds [OF assms(2)] by simp

theorem close_padding_witness:
  "sbuf (close_pad stale_shabal 7 0) = pad_block (replicate 5 0xAA) \<and> 5 + 1 + close_zeros 5 = 70"
  using close_padding [of stale_shabal 7] by (simp add: stale_shabal_def close_zeros_def)

text \<open>\<open>align_structure_leave\<close> compares addresses with \<open>testq\<close>: when the address of the state
  words in the context and that of the stack copy have no bit in common, an update that runs
  a block returns, and the context keeps its old state words.\<close>

theorem shabal_update_lost:
  assumes "frame_base f" "frame_copy f AND (fctx f + 72) = 0" "asm_ok (sstate sc)"
    "len \<le> length data" "64 - sptr sc \<le> len"
  shows "\<exists>sc'. shabal f sc data len = Some sc' \<and> sstate sc' = sstate sc"
  using assms by (rule shabal_update_dropped)

theorem shabal_update_lost_witness:
  "\<exists>sc'. shabal \<lparr>fctx = 0x38, frsp = 0x7F0000000100, fbx = \<lambda>_. replicate 64 0\<rparr>
      (stale_shabal\<lparr>sstate := \<lparr>xst = replicate 44 3, xW = 1\<rparr>, sptr := 0\<rparr>) (replicate 64 1) 64 = Some sc' \<and>
    sstate sc' = \<lparr>xst = replicate 44 3, xW = 1\<rparr>"
  using shabal_update_lost [of "\<lparr>fctx = 0x38, frsp = 0x7F0000000100, fbx = \<lambda>_. replicate 64 0\<rparr>"
      "stale_shabal\<lparr>sstate := \<lparr>xst = replicate 44 3, xW = 1\<rparr>, sptr := 0\<rparr>" 64 "replicate 64 1"]
  by (simp add: frame_base_def frame_copy_def stale_shabal_def asm_ok_def)

text \<open>The address test of \<open>align_structure_enter\<close> selects contexts whose state words are not
  16-byte aligned: working in place, the first \<open>movdqa\<close> of \<open>shabal_inner\<close> would fault. A
  context aligned as its type requires never takes that path.\<close>

theorem enter_in_place:
  "((ctx + 116) AND 63 = 0 \<longrightarrow> shabal_inner bx (align_structure_enter ctx (frame_copy f)) x buf num = None) \<and>
   (ctx AND 7 = 0 \<longrightarrow> align_structure_enter ctx (frame_copy f) = frame_copy f)"
  using in_place_faults [of ctx] enter_copies [of ctx]
  by (simp add: align_structure_enter_def shabal_inner_def)

theorem enter_in_place_witness:
  "shabal_inner (replicate 64 0) (align_structure_enter 0x4C (frame_copy plain_frame)) \<lparr>xst = [], xW = 0\<rparr> [] 1 = None \<and>
   align_structure_enter 0x40 (frame_copy plain_frame) = frame_copy plain_frame"
  using enter_in_place [of "0x4C" "replicate 64 0" plain_frame "\<lparr>xst = [], xW = 0\<rparr>" "[]" 1]
    enter_in_place [of "0x40" "replicate 64 0" plain_frame "\<lparr>xst = [], xW = 0\<rparr>" "[]" 1]
  by simp

end
