(* ===== verification/Node_Properties.thy ===== *)
theory Node_Properties
  imports Node_Liveness Round_Lock Backend_Properties Hash_Properties
begin

text \<open>
  Properties of the request handlers, the batches, the running node and the round records,
  each with a concrete instance where it has hypotheses.
\<close>

section \<open>Concrete data for the instances\<close>

definition sample_round :: miner_round where
  "sample_round = \<lparr>mr_deadline = 0xFFFFFFFFFFFFFFFF, mr_height = 5, mr_recip_id = 50\<rparr>"

definition sample_node :: node where
  "sample_node = \<lparr>n_wallet = sample_wallet\<lparr>miners := [3 \<mapsto> 0], rounds := [0 \<mapsto> sample_round], next_ref := 1\<rparr>,
     n_limiter = make_limiter 10 20, n_queue = [], written = [], rpcs = [], servers = [(50, ''pool:50051'')],
     locked = {}, nd_deadline_limit = 1000, nd_poc2_start = 7\<rparr>"

definition sample_req :: "nat \<Rightarrow> calc_deadline_req" where
  "sample_req sid = \<lparr>account_id = 3, nonce = 8, req_height = 5, scoop_nr = 9, req_base_target = 70, recip_id = 50,
     req_gensig = replicate 32 1, session = sid\<rparr>"

lemma sample_req_ok: "creq_ok (sample_req sid)"
  by (simp add: creq_ok_def sample_req_def)

section \<open>Requests\<close>

text \<open>C14: a \<open>submitNonce\<close> request of an account that the pool serves, with both numbers printed in
  decimal, is queued with exactly these numbers, the account's reward recipient and the data
  of the current block, when the rate limiter lets it through and the queue accepts it.\<close>

theorem submit_nonce_queued:
  assumes "limiter_aquire now (addr @ ''submitNonce'') (n_limiter n) = (True, rl)"
    and "get_reward_recipient account (n_wallet n) \<noteq> 0"
  shows "handle_request True now addr sid (''/burst?'' @ print_query [(''requestType'', ''submitNonce''),
      (''accountId'', to_string account), (''nonce'', to_string nonc)]) n =
    n\<lparr>n_limiter := rl, n_queue := n_queue n @
      [\<lparr>account_id = account, nonce = nonc, req_height = blk_height (current_block (n_wallet n)),
        scoop_nr = blk_scoop (current_block (n_wallet n)),
        req_base_target = blk_base_target (current_block (n_wallet n)),
        recip_id = get_reward_recipient account (n_wallet n),
        req_gensig = blk_gensig (current_block (n_wallet n)), session = sid\<rparr>]\<rparr>"
  using handle_submit [OF assms] by (simp add: submit_target_def make_deadline_req_def del: print_query.simps)

theorem submit_nonce_queued_witness:
  "n_queue (handle_request True 0 ''10.0.0.1'' 4 (''/burst?'' @ print_query [(''requestType'', ''submitNonce''),
      (''accountId'', to_string 3), (''nonce'', to_string 8)]) sample_node) = [sample_req 4]"
  using submit_nonce_queued [of 0 "''10.0.0.1''" sample_node _ 3 4 8]
  by (simp add: sample_node_def sample_wallet_def sample_round_def sample_req_def limiter_aquire_def make_limiter_def
      get_reward_recipient_def del: print_query.simps)

text \<open>C34: a \<open>submitNonce\<close> request that cannot be queued is answered with status 400 and the error
  code of the first check that fails: 1013 for the account id, 1012 for the nonce, 1004 for an
  account whose recipient is not the pool; nothing else of the node changes but the limiter, which let it through.\<close>

theorem submit_nonce_refused:
  assumes "map_of (parse_url tgt) ''requestType'' = Some ''submitNonce''"
    and "limiter_aquire now (addr @ ''submitNonce'') (n_limiter n) = (True, rl)"
    and "submit_error (map_of (parse_url tgt)) (n_wallet n) = Some (error, msg)"
  shows "handle_request accepted now addr sid tgt n =
    n\<lparr>n_limiter := rl, written := written n @ [(sid, \<lparr>status = 400,
       body = ''{\"errorCode\":'' @ dec_digits error @ '',\"errorDescription\":\"'' @ msg @ ''\"}''\<rparr>)]\<rparr> \<and>
    error \<in> {1013, 1012, 1004}"
  using assms
  by (auto simp: handle_request_def submit_cases Let_def answer_defs do_write_def json_error_def
      status_bad_request_def submit_error_def split: sum.splits if_splits)

theorem submit_nonce_refused_witness:
  "written (handle_request True 0 ''10.0.0.1'' 4 ''/burst?requestType=submitNonce&accountId=x'' sample_node) =
    [(4, \<lparr>status = 400, body = ''{\"errorCode\":'' @ dec_digits 1013 @ '',\"errorDescription\":\"'' @ bad_account_msg @ ''\"}''\<rparr>)]"
proof -
  let ?t = "''/burst?requestType=submitNonce&accountId=x''"
  have q: "map_of (parse_url ?t) k = map_of [(''accountId'', ''x''), (''requestType'', ''submitNonce'')] k" for k
    using parse_url_query [of "''/burst''" "[(''requestType'', ''submitNonce''), (''accountId'', ''x'')]" k]
    by (simp add: query_ok_def print_pair_def key_char_def value_char_def is_digit_def code_def del: url_matches.simps)
  have "stoull ''x'' = Inl Invalid_argument" by (simp add: stoull_def is_space_def is_digit_def code_def)
  then have "submit_error (map_of (parse_url ?t)) (n_wallet sample_node) = Some (1013, bad_account_msg)"
    using q by (simp add: submit_error_def)
  then show ?thesis
    using submit_nonce_refused [of ?t 0 "''10.0.0.1''" sample_node _ 1013 bad_account_msg True 4] q
    by (simp add: sample_node_def limiter_aquire_def make_limiter_def)
qed

text \<open>Handling a request either writes one answer to its session or queues one request of it,
  never both, unless the queue refuses the request; then the session gets nothing. The wallet and
  the calls to the pool servers are left alone.\<close>

theorem request_handled_once:
  "((\<exists>res. written (handle_request accepted now addr sid tgt n) = written n @ [(sid, res)] \<and>
      n_queue (handle_request accepted now addr sid tgt n) = n_queue n) \<or>
    (accepted \<and> written (handle_request accepted now addr sid tgt n) = written n \<and>
      (\<exists>r. n_queue (handle_request accepted now addr sid tgt n) = n_queue n @ [r] \<and> session r = sid)) \<or>
    (\<not> accepted \<and> written (handle_request accepted now addr sid tgt n) = written n \<and>
      n_queue (handle_request accepted now addr sid tgt n) = n_queue n)) \<and>
   n_wallet (handle_request accepted now addr sid tgt n) = n_wallet n \<and>
   rpcs (handle_request accepted now addr sid tgt n) = rpcs n"
  using handle_responds [of accepted sid n now addr tgt] by (auto simp: responds_def handle_frame)

text \<open>A request that passes every check and is refused by the queue gets no answer: the node is as
  before but for the limiter, and the session is dropped.\<close>

theorem refused_request_unanswered:
  assumes "map_of (parse_url tgt) ''requestType'' = Some ''submitNonce''"
    and "limiter_aquire now (addr @ ''submitNonce'') (n_limiter n) = (True, rl)"
    and "submit_error (map_of (parse_url tgt)) (n_wallet n) = None"
    and "\<not> has_answer sid n" "\<not> has_request sid n"
  shows "on_read Ec_ok False now addr sid tgt n = (Dropped, n\<lparr>n_limiter := rl\<rparr>)"
  using assms by (auto simp: on_read_def handle_request_def submit_cases enque_req_def has_answer_def has_request_def Let_def
      split: sum.split)

theorem refused_request_unanswered_witness:
  "fst (on_read Ec_ok False 0 ''10.0.0.1'' 4 (submit_target 3 8) sample_node) = Dropped"
proof -
  let ?t = "submit_target 3 8"
  have "map_of (parse_url ?t) k = map_of [(''nonce'', to_string 8), (''accountId'', to_string 3), (''requestType'', ''submitNonce'')] k" for k
    using submit_target_params [of 3 8 k] by simp
  then show ?thesis
    using refused_request_unanswered [of ?t 0 "''10.0.0.1''" sample_node _ 4]
    by (simp add: sample_node_def sample_wallet_def sample_round_def limiter_aquire_def make_limiter_def submit_error_def
        stoull_to_string get_reward_recipient_def has_answer_def has_request_def)
qed

section \<open>The distribution loop\<close>

definition accepted_requests :: "(bool \<times> calc_deadline_req) option list \<Rightarrow> calc_deadline_req list" where
  "accepted_requests es = concat (map (\<lambda>x. case x of Some (True, r) \<Rightarrow> [r] | _ \<Rightarrow> []) es)"

lemma node_accepts: "node_queue.serve es (n, d) = (acc, n', d') \<Longrightarrow> acc = accepted_requests es"
  by (induction es "(n, d)" arbitrary: n d acc rule: node_queue.serve.induct)
    (auto simp: accepted_requests_def split: prod.splits bool.split)

text \<open>However enqueueing and iterations of the loop interleave, every accepted request is, once, in the
  queue, among the collected ones or in a posted batch.\<close>

theorem no_request_lost:
  assumes "node_queue.serve es (n, dist_start stale) = (acc, n', d)" "n_queue n = []" "stale \<noteq> []"
  shows "acc = accepted_requests es \<and> mset (dist_taken d) + mset (n_queue n') = mset acc"
  using node_queue.serve_conserves [OF TrueI _ _ assms(1), of "length stale"] node_accepts [OF assms(1)]
    dist_start_ok [OF assms(3)] assms(2)
  by (simp split: option.split)

theorem no_request_lost_witness:
  "case node_queue.serve [Some (True, sample_req 1), None, Some (True, sample_req 2), None, None, Some (False, sample_req 3)]
      (sample_node, dist_start (replicate 4 (sample_req 0))) of
     (acc, n', d) \<Rightarrow> mset (dist_taken d) + mset (n_queue n') = {#sample_req 1, sample_req 2#}"
proof -
  obtain acc n' d where s: "node_queue.serve [Some (True, sample_req 1), None, Some (True, sample_req 2), None, None, Some (False, sample_req 3)]
      (sample_node, dist_start (replicate 4 (sample_req 0))) = (acc, n', d)" by (rule prod_cases3)
  have "n_queue sample_node = []" by (simp add: sample_node_def)
  note l = no_request_lost [OF s this]
  have "accepted_requests [Some (True, sample_req 1), None, Some (True, sample_req 2), None, None, Some (False, sample_req 3)] =
      [sample_req 1, sample_req 2]" by (simp add: accepted_requests_def)
  then have "mset acc = {#sample_req 1, sample_req 2#}" using l by auto
  moreover have "mset (dist_taken d) + mset (n_queue n') = mset acc" using l by auto
  ultimately show ?thesis unfolding s prod.case by (simp only:)
qed

text \<open>C31: the requests that are collected are posted, as the beginning of the next batch, after at
  most as many iterations as the batch has free slots plus fifty-two, whatever the queue delivers
  meanwhile; the batch goes on with what was delivered behind them.\<close>

theorem collected_is_posted:
  assumes "dist_run polls (dist_start stale) = d" "stale \<noteq> []" "0 < pending d"
    and "length stale - pending d + (52 - waited d) < length polls'"
  shows "\<exists>b k more. posted (dist_run polls' d) = posted d @ (b, k) # more \<and> pending d \<le> k \<and> k \<le> length b \<and>
    take k b = take (pending d) (slots d) @ take (k - pending d) (deliveries polls')"
proof -
  have "dist_ok (length stale) d"
    using dist_run_ok [of "length stale" "dist_start stale" polls] dist_start_ok [OF assms(2)] assms(1) by simp
  moreover from this have "length (slots d) = length stale" by (simp add: dist_ok_def)
  ultimately show ?thesis using dist_posts_collected [of "length stale" d polls'] assms(3,4) by (simp add: patience_def)
qed

theorem collected_is_posted_witness:
  "\<exists>b k more. posted (dist_run (Some (sample_req 2) # replicate 55 None) (dist_run [Some (sample_req 1)] (dist_start (replicate 4 (sample_req 0))))) =
     (b, k) # more \<and> 1 \<le> k \<and> k \<le> length b \<and> take k b = sample_req 1 # take (k - 1) [sample_req 2]"
proof -
  let ?d = "dist_run [Some (sample_req 1)] (dist_start (replicate 4 (sample_req 0)))"
  have d: "pending ?d = 1" "waited ?d = 0" "posted ?d = []" "take 1 (slots ?d) = [sample_req 1]"
    by (simp_all add: dist_run_def dist_iteration_def dist_flush_def dist_start_def numeral_eq_Suc)
  have "deliveries (Some (sample_req 2) # replicate 55 None) = [sample_req 2]" by (simp add: deliveries_def)
  then show ?thesis
    using collected_is_posted [OF refl, of "replicate 4 (sample_req 0)" "[Some (sample_req 1)]" "Some (sample_req 2) # replicate 55 None"]
    unfolding d by simp
qed

section \<open>Batches\<close>

text \<open>C32: in the build without AVX2, a batch of computable requests is answered request by request
  with the verdict on its proof-of-capacity deadline, in the plot version of the first request.\<close>

theorem batch_answers_sse4:
  assumes "stack4_ok st" "length creqs = 4" "list_all creq_ok creqs"
  shows "\<exists>n'. validate_deadlines_sse4 st creqs pend n = Some n' \<and>
    written n' = written n @ map (\<lambda>r. (session r, verdict (nd_deadline_limit n)
      (poc_deadline (nd_poc2_start n \<le> req_height (creqs ! 0)) (req_base_target r) (scoop_nr r) (req_gensig r)
        (account_id r) (nonce r)))) (take pend creqs)"
  using validate_each_answers [of "take pend creqs"]
  by (simp add: map2_take validate_deadlines_sse4_def batch_sse4_value [OF assms] creq_deadline_def)

theorem batch_answers_sse4_witness:
  "\<exists>n'. validate_deadlines_sse4 (fst clean_stacks) (map sample_req [1, 2, 3, 4]) 1 sample_node = Some n' \<and>
    written n' = [(1, verdict 1000 (poc_deadline False 70 9 (replicate 32 1) 3 8))]"
  using batch_answers_sse4 [OF clean_stacks_ok(1), of "map sample_req [1, 2, 3, 4]" 1 sample_node] sample_req_ok
  by (simp add: sample_node_def sample_req_def)

text \<open>So is a batch of eight in the AVX2 build.\<close>

theorem batch_answers_avx2:
  assumes "stack8_ok st" "length creqs = 8" "list_all creq_ok creqs"
  shows "\<exists>n'. validate_deadlines_avx2 st creqs pend n = Some n' \<and>
    written n' = written n @ map (\<lambda>r. (session r, verdict (nd_deadline_limit n)
      (poc_deadline (nd_poc2_start n \<le> req_height (creqs ! 0)) (req_base_target r) (scoop_nr r) (req_gensig r)
        (account_id r) (nonce r)))) (take pend creqs)"
  using validate_each_answers [of "take pend creqs"]
  by (simp add: map2_take validate_deadlines_avx2_def batch_avx2_value [OF assms] creq_deadline_def)

theorem batch_answers_avx2_witness:
  "\<exists>n'. validate_deadlines_avx2 (snd clean_stacks) (map sample_req [1, 2, 3, 4, 5, 6, 7, 8]) 2 sample_node = Some n' \<and>
    map fst (written n') = [1, 2]"
  using batch_answers_avx2 [OF clean_stacks_ok(2), of "map sample_req [1, 2, 3, 4, 5, 6, 7, 8]" 2 sample_node] sample_req_ok
  by (auto simp: sample_node_def sample_req_def)

end
