(* ===== verification/Node_Forwarding.thy ===== *)
theory Node_Forwarding
  imports Node_Safety Round_Lock
begin

text \<open>
  What the node forwards to the pool servers in whole runs: the nonces of posted requests with the
  deadlines that were computed for them, each less than the one before for the same account, each
  answered to its session.
\<close>

section \<open>Invariant\<close>

text \<open>\<open>d\<close> is the deadline of the request \<open>r\<close> of a posted batch.\<close>

definition computed :: "u64 \<Rightarrow> distributor \<Rightarrow> calc_deadline_req \<Rightarrow> u64 \<Rightarrow> bool" where
  "computed start loop r d \<longleftrightarrow> (\<exists>creqs k j. (creqs, k) \<in> set (posted loop) \<and> j < k \<and> j < length creqs \<and> r = creqs ! j \<and>
     d = creq_deadline (start \<le> req_height (creqs ! 0)) r)"

definition accounted :: "system \<Rightarrow> string \<Rightarrow> submit_nonce_request \<Rightarrow> bool" where
  "accounted s addr q \<longleftrightarrow> (\<exists>r d. computed (nd_poc2_start (sy_node s)) (sy_dist s) r d \<and> q = offer_rpc (r, d) \<and>
     map_of (servers (sy_node s)) (recip_id r) = Some addr \<and> d \<le> nd_deadline_limit (sy_node s) \<and>
     (session r, \<lparr>status = 200, body = success_message d\<rparr>) \<in> set (written (sy_node s)))"

definition rpcs_of :: "u64 \<Rightarrow> node \<Rightarrow> submit_nonce_request list" where
  "rpcs_of a n = filter (\<lambda>q. rpc_account_id q = a) (map snd (rpcs n))"

definition round_of :: "u64 \<Rightarrow> wallet \<Rightarrow> miner_round option" where
  "round_of a w = Option.bind (get_miner_round a w) (rounds w)"

text \<open>What was forwarded for an account, next to its round.\<close>

fun round_log :: "miner_round option \<Rightarrow> submit_nonce_request list \<Rightarrow> bool" where
  "round_log None qs \<longleftrightarrow> qs = []"
| "round_log (Some mr) qs \<longleftrightarrow> sorted_wrt (>) (map rpc_deadline qs) \<and>
     (\<forall>q \<in> set qs. mr_deadline mr \<le> rpc_deadline q \<and> rpc_block_height q = mr_height mr)"

definition improving :: "node \<Rightarrow> bool" where
  "improving n \<longleftrightarrow> (\<forall>a. round_log (round_of a (n_wallet n)) (rpcs_of a n))"

lemma round_log_Nil [simp]: "round_log r []"
  by (cases r) simp_all

definition fwd_inv :: "system \<Rightarrow> bool" where
  "fwd_inv s \<longleftrightarrow> (\<forall>x \<in> set (concat (sy_tasks s)). computed (nd_poc2_start (sy_node s)) (sy_dist s) (fst x) (snd x)) \<and>
     (\<forall>(addr, q) \<in> set (rpcs (sy_node s)). accounted s addr q) \<and> improving (sy_node s)"

lemma fwd_inv_start: "fwd_inv (sys_start w rl cfg stale)"
  by (simp add: fwd_inv_def sys_start_def improving_def rpcs_of_def)

section \<open>Steps that forward nothing\<close>

lemma improving_cong:
  assumes "rpcs m = rpcs n" "miners (n_wallet m) = miners (n_wallet n)" "rounds (n_wallet m) = rounds (n_wallet n)"
  shows "improving m = improving n"
  unfolding improving_def rpcs_of_def round_of_def get_miner_round_def assms by (rule refl)

lemma accounted_mono:
  assumes "accounted s addr q" "\<And>r d. computed (nd_poc2_start (sy_node s)) (sy_dist s) r d \<Longrightarrow> computed (nd_poc2_start (sy_node s)) (sy_dist t) r d"
    and "servers (sy_node t) = servers (sy_node s)" "nd_deadline_limit (sy_node t) = nd_deadline_limit (sy_node s)"
    and "nd_poc2_start (sy_node t) = nd_poc2_start (sy_node s)" "set (written (sy_node s)) \<subseteq> set (written (sy_node t))"
  shows "accounted t addr q"
  using assms(1) unfolding accounted_def assms(3-5) using assms(2,6) by blast

lemma fwd_inv_frame:
  assumes "fwd_inv s" "set (posted (sy_dist s)) \<subseteq> set (posted (sy_dist t))"
    and "\<forall>x \<in> set (concat (sy_tasks t)). x \<in> set (concat (sy_tasks s)) \<or>
      computed (nd_poc2_start (sy_node t)) (sy_dist t) (fst x) (snd x)"
    and "rpcs (sy_node t) = rpcs (sy_node s)" "servers (sy_node t) = servers (sy_node s)"
    and "nd_deadline_limit (sy_node t) = nd_deadline_limit (sy_node s)" "nd_poc2_start (sy_node t) = nd_poc2_start (sy_node s)"
    and "set (written (sy_node s)) \<subseteq> set (written (sy_node t))"
    and "miners (n_wallet (sy_node t)) = miners (n_wallet (sy_node s))" "rounds (n_wallet (sy_node t)) = rounds (n_wallet (sy_node s))"
  shows "fwd_inv t"
proof -
  have c: "computed h (sy_dist s) r d \<Longrightarrow> computed h (sy_dist t) r d" for h r d
    using assms(2) unfolding computed_def by blast
  then have "accounted s addr q \<Longrightarrow> accounted t addr q" for addr q
    using accounted_mono [OF _ _ assms(5-8)] by blast
  moreover have "computed (nd_poc2_start (sy_node t)) (sy_dist t) (fst x) (snd x)" if "x \<in> set (concat (sy_tasks t))" for x
    using assms(1,3) c that unfolding fwd_inv_def assms(7) by blast
  ultimately show ?thesis
    using assms(1) improving_cong [OF assms(4,9,10)] unfolding fwd_inv_def assms(4) by blast
qed

lemma on_read_written:
  assumes "on_read ec accepted now addr sid target n = (ph, n')"
  shows "set (written n) \<subseteq> set (written n') \<and> rpcs n' = rpcs n \<and> n_wallet n' = n_wallet n \<and> servers n' = servers n \<and>
    nd_deadline_limit n' = nd_deadline_limit n \<and> nd_poc2_start n' = nd_poc2_start n"
  using assms handle_responds [of accepted sid n now addr target]
  by (auto simp: on_read_def handle_frame responds_def Let_def split: if_splits)

lemma refresh_rounds:
  assumes "refresh_block e tr w = Some (b, w')"
  shows "miners w' = miners w \<and> rounds w' = rounds w"
proof -
  obtain info w1 where i: "get_mining_info tr w = (info, w1)" by fastforce
  then have f: "miners w1 = miners w \<and> rounds w1 = rounds w" using get_mining_info_frame [of tr w] by simp
  then show ?thesis
    using assms i new_block_Some(4,5) by (fastforce simp: refresh_block_def split: sum.splits prod.splits if_splits)
qed

lemma started_computed:
  assumes "sys_inv avx2 s" "sys_safe block_shaped creq_shaped gensig_sized ph s" "(creqs, k) \<in> set (posted (sy_dist s))"
    and "stack4_ok (fst st)" "stack8_ok (snd st)" "batch_deadlines avx2 st creqs h = Some ds" "x \<in> set (zip (take k creqs) ds)"
  shows "computed h (sy_dist s) (fst x) (snd x)"
proof -
  note l = posted_batch [OF assms(1,3)]
  have g: "list_all gensig_sized creqs" "list_all creq_shaped (take k creqs)"
    using assms(2,3) by (auto simp: sys_safe_def dist_safe_def batch_safe_def in_set_conv_nth)
  have b: "list_all (\<lambda>r. \<not> creq_faults r) creqs" "ds = map (wrapped_deadline (h \<le> req_height (creqs ! 0))) creqs"
    using assms(6) batch_deadlines_exact [OF assms(4,5) l(1) g(1)] by (auto split: if_splits)
  obtain j where j: "j < k" "x = (creqs ! j, ds ! j)"
    using assms(7) l(2) by (auto simp: in_set_zip)
  then have "creq_shaped (creqs ! j)" using g(2) l(2) by (simp add: list_all_length)
  moreover have "\<not> creq_faults (creqs ! j)" using b(1) j(1) l(2) by (simp add: list_all_length)
  ultimately have "creq_ok (creqs ! j)" by (simp add: creq_ok_def creq_shaped_def creq_faults_def)
  then have "ds ! j = creq_deadline (h \<le> req_height (creqs ! 0)) (creqs ! j)"
    using b(2) j(1) l(2) by (simp add: wrapped_deadline_ok)
  then show ?thesis using assms(3) j l(2) unfolding computed_def by fastforce
qed

section \<open>Validations\<close>

lemma validate_sends:
  "rpcs (validate_deadline creq d n) = rpcs n \<and>
     (\<forall>a. round_of a (n_wallet (validate_deadline creq d n)) = round_of a (n_wallet n)) \<or>
   (\<exists>r mr. d \<le> nd_deadline_limit n \<and> get_miner_round (account_id creq) (n_wallet n) = Some r \<and> rounds (n_wallet n) r = Some mr \<and>
     mr_height mr = req_height creq \<and> d < mr_deadline mr \<and>
     rounds (n_wallet (validate_deadline creq d n)) = (rounds (n_wallet n))(r \<mapsto> mr\<lparr>mr_deadline := d\<rparr>) \<and>
     rpcs (validate_deadline creq d n) = rpcs n @
       (case map_of (servers n) (recip_id creq) of None \<Rightarrow> [] | Some addr \<Rightarrow> [(addr, offer_rpc (creq, d))]))"
  by (auto simp: validate_deadline_def update_round_def do_submit_nonce_def answer_defs do_write_def offer_rpc_def round_of_def
      get_miner_round_def Let_def not_less split: option.split)

lemma validate_improving:
  assumes "improving n"
  shows "improving (validate_deadline creq d n)"
proof -
  let ?n = "validate_deadline creq d n"
  consider "rpcs ?n = rpcs n" "\<forall>a. round_of a (n_wallet ?n) = round_of a (n_wallet n)"
    | r mr where "get_miner_round (account_id creq) (n_wallet n) = Some r" "rounds (n_wallet n) r = Some mr"
        "mr_height mr = req_height creq" "d < mr_deadline mr"
        "rounds (n_wallet ?n) = (rounds (n_wallet n))(r \<mapsto> mr\<lparr>mr_deadline := d\<rparr>)"
        "rpcs ?n = rpcs n @ (case map_of (servers n) (recip_id creq) of None \<Rightarrow> [] | Some addr \<Rightarrow> [(addr, offer_rpc (creq, d))])"
    using validate_sends [of creq d n] by blast
  then show ?thesis
  proof cases
    case 1
    then show ?thesis using assms by (simp add: improving_def rpcs_of_def)
  next
    case 2
    have own: "round_of (account_id creq) (n_wallet n) = Some mr" using 2(1,2) by (simp add: round_of_def)
    have q: "rpcs_of a ?n = rpcs_of a n @ (if a = account_id creq \<and> map_of (servers n) (recip_id creq) \<noteq> None
        then [offer_rpc (creq, d)] else [])" for a
      by (auto simp: rpcs_of_def 2(6) offer_rpc_def split: option.split)
    have r: "round_of a (n_wallet ?n) = (if get_miner_round a (n_wallet n) = Some r then Some (mr\<lparr>mr_deadline := d\<rparr>)
        else round_of a (n_wallet n))" for a
      by (auto simp: round_of_def get_miner_round_def 2(5) validate_frame split: bind_splits)
    have shared: "get_miner_round a (n_wallet n) = Some r \<Longrightarrow> round_of a (n_wallet n) = Some mr" for a
      using 2(2) by (simp add: round_of_def)
    have "round_log (round_of a (n_wallet ?n)) (rpcs_of a ?n)" for a
    proof (cases "get_miner_round a (n_wallet n) = Some r")
      case True
      have old: "sorted_wrt (>) (map rpc_deadline (rpcs_of a n))"
        "\<forall>q \<in> set (rpcs_of a n). mr_deadline mr \<le> rpc_deadline q \<and> rpc_block_height q = mr_height mr"
        using assms shared [OF True] unfolding improving_def by (metis round_log.simps(2))+
      then have "\<forall>q \<in> set (rpcs_of a n). d < rpc_deadline q" using 2(4) by fastforce
      then show ?thesis using old True 2(3) by (auto simp: q r sorted_wrt_append offer_rpc_def less_imp_le)
    next
      case False
      then have "a \<noteq> account_id creq" using 2(1) by auto
      then show ?thesis using assms False by (simp add: q r improving_def)
    qed
    then show ?thesis by (simp add: improving_def)
  qed
qed

lemma fwd_inv_validate:
  assumes inv: "fwd_inv s" and t: "sy_tasks s = ts1 @ ((creq, d) # t) # ts2"
  shows "fwd_inv (s\<lparr>sy_node := validate_deadline creq d (sy_node s\<lparr>locked := l\<rparr>), sy_tasks := ts1 @ t # ts2,
      sy_phases := (sy_phases s)(session creq \<mapsto> Writing)\<rparr>)" (is "fwd_inv ?t")
proof -
  let ?n = "sy_node s\<lparr>locked := l\<rparr>"
  have c: "computed (nd_poc2_start (sy_node s)) (sy_dist s) creq d" using inv t by (auto simp: fwd_inv_def)
  have old: "accounted s addr q \<Longrightarrow> accounted ?t addr q" for addr q
    by (rule accounted_mono) (auto simp: validate_frame validate_answers)
  have "accounted ?t addr q" if "(addr, q) \<in> set (rpcs (validate_deadline creq d ?n))" for addr q
  proof (cases "(addr, q) \<in> set (rpcs (sy_node s))")
    case True
    then show ?thesis using inv old by (auto simp: fwd_inv_def)
  next
    case False
    then have "d \<le> nd_deadline_limit (sy_node s)" "map_of (servers (sy_node s)) (recip_id creq) = Some addr" "q = offer_rpc (creq, d)"
      using that validate_sends [of creq d ?n] by (auto split: option.splits)
    then show ?thesis
      using c unfolding accounted_def by (auto simp: validate_frame validate_answers verdict_def status_ok_def)
  qed
  moreover have "improving (validate_deadline creq d ?n)"
    using validate_improving improving_cong [of ?n "sy_node s"] inv by (simp add: fwd_inv_def)
  ultimately show ?thesis
    using inv t by (auto simp: fwd_inv_def validate_frame)
qed

lemma fwd_inv_step:
  assumes "sys_step avx2 e s t" "fwd_inv s" "sys_inv avx2 s" "sys_safe block_shaped creq_shaped gensig_sized ph s"
  shows "fwd_inv t"
  using assms(1)
proof (cases rule: sys_step.cases)
  case (sys_read sid ec accepted now addr target ph n)
  then show ?thesis using on_read_written [OF sys_read(3)] by (intro fwd_inv_frame [OF assms(2)]) auto
next
  case (sys_poll f n)
  have n: "n = (sy_node s)\<lparr>n_queue := n_queue n\<rparr>" using sys_poll(2) by (auto simp: try_dequeue_req_def split: prod.splits)
  have p: "set (posted (sy_dist s)) \<subseteq> set (posted (dist_iteration f (sy_dist s)))"
    using posted_iteration(1) [of f "sy_dist s"] posted_iteration(2) [of "sy_dist s"] by auto
  show ?thesis unfolding sys_poll(1) by (rule fwd_inv_frame [OF assms(2)]) (use p in simp, simp, (subst n, simp)+)
next
  case (sys_start_batch creqs k st ds)
  have "(creqs, k) \<in> set (posted (sy_dist s))" using sys_start_batch(2,3) by (metis nth_mem)
  then show ?thesis
    using started_computed [OF assms(3,4) _ sys_start_batch(4-6)] sys_start_batch(1)
    by (intro fwd_inv_frame [OF assms(2)]) auto
next
  case (sys_validate ts1 creq d t' ts2 l)
  then show ?thesis using fwd_inv_validate [OF assms(2)] by simp
next
  case (sys_refresh tr b w)
  then show ?thesis using refresh_rounds [OF sys_refresh(2)] by (intro fwd_inv_frame [OF assms(2)]) auto
qed (intro fwd_inv_frame [OF assms(2)]; simp add: on_accept_def)+

lemma fwd_reach:
  assumes "(sys_step avx2 e)\<^sup>*\<^sup>* s t" "env_ok e" "sys_inv avx2 s" "sys_safe block_shaped creq_shaped gensig_sized ph s" "fwd_inv s"
  shows "fwd_inv t"
  using assms(1)
proof (induction rule: rtranclp_induct)
  case (step t u)
  then show ?case using shaped_reach [OF step(1) assms(2-4)] fwd_inv_step by blast
qed (rule assms(5))

end
