(* ===== verification/Server_Main.thy ===== *)
theory Server_Main
  imports Node_System
begin

text \<open>
  \<open>Server.cpp\<close>: the static objects, the listener and \<open>main\<close>. The results of the socket calls
  are arguments; the address was parsed before.
\<close>

section \<open>The listener\<close>

text \<open>\<open>accepting\<close>: an \<open>async_accept\<close> is pending; \<open>logged\<close>: lines written to the error log.\<close>

record listener =
  acc_open :: bool
  acc_bound :: bool
  acc_listening :: bool
  accepting :: bool
  logged :: "string list"

definition log_error :: "string \<Rightarrow> listener \<Rightarrow> listener" where
  "log_error msg l = l\<lparr>logged := logged l @ [msg]\<rparr>"

text \<open>The constructor. \<open>set_option\<close> is called without an error code and throws (\<open>None\<close>); the
  test after it sees the code of \<open>open\<close>.\<close>

definition make_listener :: "bool \<Rightarrow> bool \<Rightarrow> bool \<Rightarrow> bool \<Rightarrow> listener option" where
  "make_listener open_ok option_ok bind_ok listen_ok =
     (let l = \<lparr>acc_open = open_ok, acc_bound = False, acc_listening = False, accepting = False, logged = []\<rparr> in
      if \<not> open_ok then Some (log_error ''open: '' l)
      else if \<not> option_ok then None
      else if \<not> open_ok then Some (log_error ''set_option: '' l)
      else let l = l\<lparr>acc_bound := bind_ok\<rparr> in
        if \<not> bind_ok then Some (log_error ''bind: '' l)
        else let l = l\<lparr>acc_listening := listen_ok\<rparr> in
          if \<not> listen_ok then Some (log_error ''listen: '' l) else Some l)"

definition do_accept :: "listener \<Rightarrow> listener" where
  "do_accept l = l\<lparr>accepting := True\<rparr>"

definition listener_run :: "listener \<Rightarrow> listener" where
  "listener_run l = (if \<not> acc_open l then l else do_accept l)"

text \<open>\<open>on_accept\<close>: the pending call has completed; it is started again in any case.\<close>

definition listener_on_accept :: "bool \<Rightarrow> nat \<Rightarrow> listener \<times> system \<Rightarrow> listener \<times> system" where
  "listener_on_accept ec sid ls =
     (let (l, s) = ls; l = l\<lparr>accepting := False\<rparr> in
      if ec then (do_accept (log_error ''accept: '' l), s)
      else (do_accept l, on_accept sid s))"

section \<open>\<open>main\<close>\<close>

text \<open>\<open>v.reserve(threads - 1)\<close> throws for a negative difference, which is a huge \<open>size_t\<close>; the loop
  then starts that many threads beside the main thread.\<close>

definition pool_threads :: "int \<Rightarrow> nat option" where
  "pool_threads threads = (if threads - 1 < 0 then None else Some (nat (threads - 1)))"

datatype boot_error = Boot_config config_error | Boot_wallet | Boot_listener | Boot_threads

text \<open>Static initialisation in the order of the declarations, then \<open>main\<close>.\<close>

definition server_boot ::
  "env \<Rightarrow> int \<Rightarrow> string \<Rightarrow> int \<Rightarrow> transfer \<Rightarrow> (u64 \<times> u64) list \<Rightarrow> block \<Rightarrow> calc_deadline_req list \<Rightarrow>
   listener option \<Rightarrow> boot_error + listener \<times> system \<times> nat" where
  "server_boot e hw config_str i0 tr rows b0 stale acc =
     (case load_config (parse e) hw config_str of
        Inl err \<Rightarrow> Inl (Boot_config err)
      | Inr cfg \<Rightarrow>
          (case make_wallet e cfg i0 tr rows b0 of
             None \<Rightarrow> Inl Boot_wallet
           | Some w \<Rightarrow>
               (let rl = make_limiter (allow_requests_per_second cfg) (config.burst_size cfg);
                    s = sys_start w rl cfg stale in
                case acc of
                  None \<Rightarrow> Inl Boot_listener
                | Some l \<Rightarrow>
                    (case pool_threads (connection_thread_count cfg) of
                       None \<Rightarrow> Inl Boot_threads
                     | Some k \<Rightarrow> Inr (listener_run l, s, k + 1)))))"

section \<open>Lemmas\<close>

lemma accept_steps: "sy_phases s sid = None \<Longrightarrow> sys_step avx2 e s (snd (listener_on_accept False sid (l, s)))"
  by (simp add: listener_on_accept_def sys_accept)

text \<open>A failed \<open>bind\<close> or \<open>listen\<close> leaves the socket open, so \<open>run\<close> starts to accept on it.\<close>

lemma failed_bind_accepts:
  assumes "make_listener True True bind_ok listen_ok = Some l"
  shows "accepting (listener_run l)" "acc_listening (listener_run l) \<longleftrightarrow> bind_ok \<and> listen_ok"
  using assms by (auto simp: make_listener_def listener_run_def do_accept_def log_error_def Let_def split: if_splits)

lemma failed_accepts:
  "accepting l \<Longrightarrow> (((listener_on_accept True sid) ^^ k) (l, s)) = (l\<lparr>logged := logged l @ replicate k ''accept: ''\<rparr>, s)"
proof (induction k)
  case (Suc k)
  then show ?case
    by (simp add: listener_on_accept_def do_accept_def log_error_def replicate_append_same)
qed simp

lemma server_boot_Inr:
  assumes "server_boot e hw config_str i0 tr rows b0 stale acc = Inr (l, s, k)"
  shows "\<exists>cfg w rl. load_config (parse e) hw config_str = Inr cfg \<and> make_wallet e cfg i0 tr rows b0 = Some w \<and>
    s = sys_start w rl cfg stale \<and> int k = connection_thread_count cfg \<and> 0 < k"
  using assms
  by (auto simp: server_boot_def pool_threads_def Let_def split: sum.splits option.splits if_splits)

end
