(* ===== verification/System_Properties.thy ===== *)
theory System_Properties
  imports Node_Properties Node_Forwarding Server_Main
begin

text \<open>
  Properties of validation and of whole runs of the node: what is forwarded, how often a
  session is answered, that computations stay inside their arrays, that waiting requests can
  be answered, and what concurrent validators do to a round record.
\<close>

section \<open>New blocks\<close>

text \<open>C37: the heights of the round records are set when the miners are loaded and never again, so
  once a new block is current no deadline for it is forwarded: if no record is ahead of the
  old block, a request made from the new block reaches no pool server.\<close>

theorem new_block_not_forwarded:
  assumes "refresh_block e t w = Some (True, w')"
    and "\<And>r mr. rounds w r = Some mr \<Longrightarrow> mr_height mr \<le> blk_height (current_block w)"
  shows "rpcs (validate_deadline (make_deadline_req sid account nonc recip (current_block w')) deadline (n\<lparr>n_wallet := w'\<rparr>)) =
    rpcs n"
proof -
  obtain info w1 where i: "get_mining_info t w = (info, w1)" by fastforce
  note f = get_mining_info_frame [of t w, unfolded i snd_conv]
  obtain h bt gs where h: "blk_height (current_block w1) < h" "new_block e h bt gs w1 = Some w'"
    using assms(1) i by (auto simp: refresh_block_def split: sum.splits prod.splits if_splits)
  note n = new_block_Some [OF h(2)]
  have "mr_height mr \<noteq> blk_height (current_block w')" if "rounds w' r = Some mr" for r mr
    using assms(2) [of r mr] that n(1,5) f(1,4) h(1) by auto
  then show ?thesis
    by (auto simp: validate_deadline_def answer_defs update_round_def make_deadline_req_def Let_def split: option.split)
qed

theorem new_block_not_forwarded_witness:
  "\<exists>w'. refresh_block sample_env ([''reply''], True) (n_wallet sample_node) = Some (True, w') \<and>
    rpcs (validate_deadline (make_deadline_req 1 3 8 50 (current_block w')) 0 (sample_node\<lparr>n_wallet := w'\<rparr>)) = []"
proof -
  let ?w = "n_wallet sample_node"
  have g: "get_mining_info ([''reply''], True) ?w = (''reply'', ?w)"
    by (simp add: get_mining_info_def write_cb_def sample_wallet_def sample_node_def)
  have r: "read_mining_info (parse sample_env (c_str ''reply'')) = Inr (12, 345, concat (map hex_byte (replicate 32 0xAB)))"
    using sample_read by (simp add: sample_env_def c_str_def)
  obtain w' where w': "new_block sample_env 12 345 (concat (map hex_byte (replicate 32 0xAB))) ?w = Some w'"
    using new_block_hex [OF sample_env_ok, of "replicate 32 0xAB"] by (simp del: map_replicate) blast
  have s: "refresh_block sample_env ([''reply''], True) ?w = Some (True, w')"
    using g r w' by (simp add: refresh_block_def sample_node_def sample_wallet_def del: map_replicate)
  have "rounds ?w r = Some mr \<Longrightarrow> mr_height mr \<le> blk_height (current_block ?w)" for r mr
    by (auto simp: sample_node_def sample_wallet_def sample_round_def split: if_splits)
  from new_block_not_forwarded [OF s this, where sid = 1 and account = 3 and nonc = 8 and recip = 50
      and deadline = 0 and n = sample_node] s show ?thesis
    by (auto simp: sample_node_def)
qed

section \<open>Runs of the node\<close>

definition sample_config_record :: config where
  "sample_config_record = config_of 4 sample_config"

definition sample_start :: system where
  "sample_start = sys_start sample_wallet (make_limiter 10 20) sample_config_record (replicate 4 (sample_req 0))"

text \<open>C8: in every run of the node, in either build, a session is answered at most once, at most
  one request of it is on its way, and never both.\<close>

theorem one_answer_per_session:
  assumes "length stale = parallel_validations avx2" "(sys_step avx2 e)\<^sup>*\<^sup>* (sys_start w rl cfg stale) s"
  shows "count (mset (map fst (written (sy_node s)))) sid + count (image_mset session (in_flight s)) sid \<le> 1"
proof -
  have "phase_ok (sy_phases s sid) (flying s sid) (answers s sid)"
    using sys_inv_phase [OF sys_inv_reach [OF assms(2) sys_inv_start [OF assms(1)]]] .
  then have "answers s sid + flying s sid \<le> 1"
    by (auto simp: phase_ok_def split: option.splits phase.splits)
  then show ?thesis by (simp add: answers_def flying_def)
qed

theorem one_answer_per_session_witness:
  "count (mset (map fst (written (sy_node (on_accept 3 sample_start))))) 3 +
   count (image_mset session (in_flight (on_accept 3 sample_start))) 3 \<le> 1"
proof -
  have "(sys_step False sample_env)\<^sup>*\<^sup>* sample_start (on_accept 3 sample_start)"
    using sys_accept [of sample_start 3] by (simp add: sample_start_def sys_start_def r_into_rtranclp)
  then show ?thesis
    using one_answer_per_session [of "replicate 4 (sample_req 0)" False sample_env] unfolding sample_start_def
    by (simp add: parallel_validations_def)
qed

text \<open>C9: as long as the wallet reports no zero base target, in every run the requests of a posted batch
  can be computed with, and the slots behind them hold such requests or placeholders, which are gone
  once a batch has been full. A computation then faults exactly when a placeholder is left whose
  scoop number, which the loop does not set, is out of range (its upper six bits are lost in the
  32-bit offset); otherwise the requests get their proof-of-capacity deadlines.\<close>

theorem batches_compute:
  assumes "length stale = parallel_validations avx2" "list_all gensig_sized stale"
    and "env_ok e" "block_ok (current_block w)" "(live_step avx2 e)\<^sup>*\<^sup>* (sys_start w rl cfg stale) s"
    and "i < length (posted (sy_dist s))" "posted (sy_dist s) ! i = (creqs, k)" "stack4_ok (fst st)" "stack8_ok (snd st)"
  shows "list_all creq_ok (take k creqs) \<and>
    list_all (\<lambda>r. creq_ok r \<or> r \<in> (\<lambda>r. r\<lparr>req_base_target := 1\<rparr>) ` set stale) creqs \<and>
    (was_full (take (Suc i) (posted (sy_dist s))) \<longrightarrow> list_all creq_ok creqs) \<and>
    (if \<exists>r \<in> set creqs. 4096 \<le> unat (scoop_nr r) mod 2 ^ 26 then batch_deadlines avx2 st creqs poc2_start = None
     else \<exists>ds. batch_deadlines avx2 st creqs poc2_start = Some ds \<and>
       take k ds = map (\<lambda>r. poc_deadline (poc2_start \<le> req_height (creqs ! 0)) (req_base_target r) (scoop_nr r) (req_gensig r)
         (account_id r) (nonce r)) (take k creqs))"
proof -
  let ?ps = "(\<lambda>r. r\<lparr>req_base_target := 1\<rparr>) ` set stale"
  have "sys_computable ?ps False (sys_start w rl cfg stale)"
    using computable.safe_start [OF assms(4), of ?ps stale False] by (simp add: list_all_iff slot_request_def)
  then have "sys_computable ?ps False s \<and> sys_inv avx2 s"
    using computable_reach [OF assms(5,3)] sys_inv_start [OF assms(1)] by blast
  then have b: "batch_safe creq_ok (slot_request ?ps) False (posted (sy_dist s)) i" and l: "length creqs = parallel_validations avx2"
    using assms(6,7) posted_batch(1) [of avx2 s creqs k] by (auto simp: sys_safe_def dist_safe_def in_set_conv_nth)
  have c: "list_all (slot_request ?ps) creqs" "list_all creq_ok (take k creqs)"
    "was_full (take (Suc i) (posted (sy_dist s))) \<longrightarrow> list_all creq_ok creqs"
    using b assms(7) by (simp_all add: batch_safe_def)
  have g: "list_all gensig_sized creqs" "\<forall>r \<in> set creqs. req_base_target r \<noteq> 0"
    using c(1) assms(2) creq_ok_readable by (auto simp: list_all_iff slot_request_def gensig_sized_def)
  have f: "list_all (\<lambda>r. \<not> creq_faults r) creqs \<longleftrightarrow> \<not> (\<exists>r \<in> set creqs. 4096 \<le> unat (scoop_nr r) mod 2 ^ 26)"
    using g(2) by (auto simp: list_all_iff creq_faults_def scoop_readable_def not_le)
  have "take k (map (wrapped_deadline v) creqs) = map (\<lambda>r. poc_deadline v (req_base_target r) (scoop_nr r) (req_gensig r)
      (account_id r) (nonce r)) (take k creqs)" for v
    using creqs_ok_exact(3) [OF c(2), of v] by (simp add: take_map creq_deadline_def)
  then show ?thesis
    using batch_deadlines_exact [OF assms(8,9) l g(1), of poc2_start] c f
    unfolding slot_request_def by (simp split: if_splits)
qed

text \<open>A run in which the request of session 3 is collected and posted.\<close>

definition served_config :: config where
  "served_config = sample_config_record\<lparr>pool_id_to_addr := [(50, ''pool:50051'')], config.deadline_limit := 0xFFFFFFFFFFFFFFFF\<rparr>"

definition served_start :: system where
  "served_start = sys_start (n_wallet sample_node) (make_limiter 10 20) served_config (replicate 4 (sample_req 0))"

lemma served_waiting:
  "\<exists>s. (live_step False sample_env)\<^sup>*\<^sup>* served_start s \<and> sy_phases s 3 = Some Waiting \<and>
     n_queue (sy_node s) = [sample_req 3] \<and> sy_dist s = dist_start (replicate 4 (sample_req 0)) \<and>
     sy_started s = 0 \<and> sy_tasks s = [] \<and> (\<exists>rl. sy_node s = sy_node served_start\<lparr>n_limiter := rl, n_queue := [sample_req 3]\<rparr>) \<and>
     blk_base_target (current_block (n_wallet (sy_node s))) \<noteq> 0"
proof -
  let ?n = "sy_node served_start"
  define rl where "rl = snd (limiter_aquire 0 ''xsubmitNonce'' (n_limiter ?n))"
  define s1 where "s1 = on_accept 3 served_start"
  define n2 where "n2 = handle_request True 0 ''x'' 3 (submit_target 3 8) ?n"
  define s2 where "s2 = s1\<lparr>sy_node := n2, sy_phases := (sy_phases s1)(3 \<mapsto> Waiting)\<rparr>"
  note start = served_start_def sys_start_def sample_node_def sample_wallet_def make_limiter_def
  have n2: "n2 = ?n\<lparr>n_limiter := rl, n_queue := [sample_req 3]\<rparr>"
    unfolding n2_def using handle_submit [of 0 "''x''" ?n rl 3 3 8]
    by (simp add: rl_def start limiter_aquire_def get_reward_recipient_def sample_round_def sample_req_def make_deadline_req_def)
  have "sys_step False sample_env served_start s1"
    unfolding s1_def by (rule sys_accept) (simp add: start)
  moreover have "sys_step False sample_env s1 s2"
    unfolding s2_def
    by (rule sys_read [where ec = Ec_ok and accepted = True and now = 0 and addr = "''x''" and target = "submit_target 3 8"])
      (simp_all add: s1_def on_accept_def run_session_def on_read_def n2_def [symmetric],
        simp add: n2 has_answer_def has_request_def start sample_req_def)
  moreover have bt: "blk_base_target (current_block (n_wallet (sy_node s))) \<noteq> 0" if "s \<in> {s1, s2}" for s
    using that by (auto simp: s2_def s1_def on_accept_def n2 start)
  ultimately have "(live_step False sample_env)\<^sup>*\<^sup>* served_start s2"
    by (meson converse_rtranclp_into_rtranclp insertI1 insertI2 live_step_def r_into_rtranclp)
  then show ?thesis
    using bt [of s2] by (intro exI [of _ s2]) (auto simp: s2_def n2 s1_def on_accept_def start)
qed

lemma served_run:
  "\<exists>s creqs. (live_step False sample_env)\<^sup>*\<^sup>* served_start s \<and> posted (sy_dist s) = [(creqs, 1)] \<and>
     creqs ! 0 = sample_req 3 \<and> length creqs = 4 \<and> list_all creq_ok creqs \<and> sy_started s = 0 \<and> sy_tasks s = [] \<and>
     (\<exists>rl. sy_node s = sy_node served_start\<lparr>n_limiter := rl\<rparr>)"
proof -
  obtain s where s: "(live_step False sample_env)\<^sup>*\<^sup>* served_start s" "n_queue (sy_node s) = [sample_req 3]"
    "sy_dist s = dist_start (replicate 4 (sample_req 0))" "sy_started s = 0 \<and> sy_tasks s = []"
    "\<exists>rl. sy_node s = sy_node served_start\<lparr>n_limiter := rl, n_queue := [sample_req 3]\<rparr>" "blk_base_target (current_block (n_wallet (sy_node s))) \<noteq> 0"
    using served_waiting by blast
  have "(live_step False sample_env)\<^sup>*\<^sup>* s ((poll_once ^^ 52) (poll_once s))"
    using polls_live [OF s(6), where k = 53] by (simp add: funpow_Suc_right [of 52, simplified] del: funpow.simps)
  moreover have "sy_dist (poll_once s) = \<lparr>slots = sample_req 3 # replicate 3 (sample_req 0\<lparr>req_base_target := 1\<rparr>),
      pending = 1, waited = 0, posted = []\<rparr>" and q: "n_queue (sy_node (poll_once s)) = []"
    using s(2,3)
    by (simp_all add: poll_once_def try_dequeue_req_def list_dequeue_def dist_iteration_def dist_flush_def
        dist_start_def numeral_eq_Suc)
  moreover have "sy_started (poll_once s) = 0 \<and> sy_tasks (poll_once s) = []" "\<exists>rl. sy_node (poll_once s) = sy_node served_start\<lparr>n_limiter := rl\<rparr>"
    using s(2,4,5) by (auto simp: poll_once_def try_dequeue_req_def list_dequeue_def served_start_def sys_start_def)
  ultimately show ?thesis
    using s(1) polls_empty [OF q, of 52] dist_idle_posts [of "sy_dist (poll_once s)"] sample_req_ok
    by (intro exI [of _ "(poll_once ^^ 52) (poll_once s)"] exI [of _ "slots (sy_dist (poll_once s))"])
      (simp add: numeral_eq_Suc creq_ok_def sample_req_def)
qed

theorem batches_compute_witness:
  "\<exists>s creqs ds. (live_step False sample_env)\<^sup>*\<^sup>* served_start s \<and> posted (sy_dist s) = [(creqs, 1)] \<and>
     batch_deadlines False clean_stacks creqs 7 = Some ds \<and> take 1 ds = [poc_deadline False 70 9 (replicate 32 1) 3 8]"
proof -
  obtain s creqs where s: "(live_step False sample_env)\<^sup>*\<^sup>* served_start s" "posted (sy_dist s) = [(creqs, 1)]"
    "creqs ! 0 = sample_req 3" "length creqs = 4" using served_run by blast
  then have p: "0 < length (posted (sy_dist s))" "posted (sy_dist s) ! 0 = (creqs, 1)" by simp_all
  have h: "length (replicate 4 (sample_req 0)) = parallel_validations False" "list_all gensig_sized (replicate 4 (sample_req 0))"
    "block_ok (current_block (n_wallet sample_node))"
    by (simp_all add: parallel_validations_def list_all_iff gensig_sized_def sample_req_def block_ok_def sample_node_def sample_wallet_def)
  note c = batches_compute [OF h(1,2) sample_env_ok h(3) s(1) [unfolded served_start_def] p clean_stacks_ok, of 7]
  have t: "take 1 creqs = [sample_req 3]" using s(3,4) by (cases creqs) simp_all
  have "\<not> (\<exists>r \<in> set creqs. 4096 \<le> unat (scoop_nr r) mod 2 ^ 26)"
    using c by (auto simp: list_all_iff creq_ok_def sample_req_def)
  then obtain ds where "batch_deadlines False clean_stacks creqs 7 = Some ds" "take 1 ds = [poc_deadline False 70 9 (replicate 32 1) 3 8]"
    using c unfolding t s(3) by (auto simp: sample_req_def)
  then show ?thesis using s(1,2) by blast
qed

text \<open>C10: as long as the wallet reports no zero base target, and if the placeholders of the loop can be
  computed with, a session whose request was accepted by the queue can be answered from every state
  that is reached: there is a continuation of the run in which its answer is written.\<close>

theorem waiting_can_be_answered:
  assumes "length stale = parallel_validations avx2" "list_all creq_ok (map (\<lambda>r. r\<lparr>req_base_target := 1\<rparr>) stale)"
    and "env_ok e" "block_ok (current_block w)" "(live_step avx2 e)\<^sup>*\<^sup>* (sys_start w rl cfg stale) s"
    and "sy_phases s sid = Some Waiting"
  shows "\<exists>t res. (live_step avx2 e)\<^sup>*\<^sup>* s t \<and> sy_phases t sid = Some Writing \<and> (sid, res) \<in> set (written (sy_node t))"
proof -
  have "sys_computable {} True (sys_start w rl cfg stale)"
    using computable.safe_start [OF assms(4), of "{}" stale True] assms(2) by (simp add: list_all_iff slot_request_def)
  then have "sys_computable {} True s" "sys_inv avx2 s"
    using computable_reach [OF assms(5,3)] sys_inv_start [OF assms(1)] by blast+
  from waiting_answered [OF assms(3) this assms(6)] obtain t where t: "(live_step avx2 e)\<^sup>*\<^sup>* s t"
    "sy_phases t sid = Some Writing" "answers t sid = 1" by blast
  then have "sid \<in> fst ` set (written (sy_node t))"
    by (metis One_nat_def answers_def count_eq_zero_iff mset_map set_image_mset set_mset_mset zero_neq_one)
  then show ?thesis using t by force
qed

theorem waiting_can_be_answered_witness:
  "\<exists>s t res. (live_step False sample_env)\<^sup>*\<^sup>* served_start s \<and> sy_phases s 3 = Some Waiting \<and>
     (live_step False sample_env)\<^sup>*\<^sup>* s t \<and> (3, res) \<in> set (written (sy_node t))"
proof -
  obtain s where s: "(live_step False sample_env)\<^sup>*\<^sup>* served_start s" "sy_phases s 3 = Some Waiting"
    using served_waiting by blast
  from waiting_can_be_answered [OF _ _ sample_env_ok _ s(1) [unfolded served_start_def] s(2)] show ?thesis
    using s by (auto simp: parallel_validations_def sample_req_def creq_ok_def block_ok_def sample_node_def
        sample_wallet_def list_all_iff)
qed

section \<open>Forwarding\<close>

text \<open>C33: in every run of the node, whatever the base targets and the placeholders are, each nonce sent to
  a pool server is that of a request of a posted batch, goes to the server of the request's
  recipient with its account and height and the proof-of-capacity deadline computed for it, is
  within the deadline limit, and its session is answered with success and this deadline. The
  deadlines sent for one account get strictly smaller and are for one height.\<close>

theorem forwarded_nonces_sound:
  assumes "length stale = parallel_validations avx2" "list_all gensig_sized stale" "env_ok e" "block_shaped (current_block w)"
    and "(sys_step avx2 e)\<^sup>*\<^sup>* (sys_start w rl cfg stale) s"
  shows "(\<forall>(addr, q) \<in> set (rpcs (sy_node s)). \<exists>creqs k j r. (creqs, k) \<in> set (posted (sy_dist s)) \<and> j < k \<and> r = creqs ! j \<and>
      q = \<lparr>rpc_account_id = account_id r, rpc_nonce = nonce r,
           rpc_deadline = poc_deadline (nd_poc2_start (sy_node s) \<le> req_height (creqs ! 0)) (req_base_target r) (scoop_nr r)
             (req_gensig r) (account_id r) (nonce r),
           rpc_block_height = req_height r\<rparr> \<and>
      map_of (servers (sy_node s)) (recip_id r) = Some addr \<and> rpc_deadline q \<le> nd_deadline_limit (sy_node s) \<and>
      (session r, \<lparr>status = 200, body = success_message (rpc_deadline q)\<rparr>) \<in> set (written (sy_node s))) \<and>
    sorted_wrt (>) (map rpc_deadline (rpcs_of account (sy_node s))) \<and>
    (\<forall>q \<in> set (rpcs_of account (sy_node s)). \<forall>q' \<in> set (rpcs_of account (sy_node s)). rpc_block_height q = rpc_block_height q')"
proof -
  have "sys_safe block_shaped creq_shaped gensig_sized False (sys_start w rl cfg stale)"
    using shaped.safe_start [OF assms(4)] assms(2) by (simp add: list_all_iff gensig_sized_def)
  then have i: "fwd_inv s"
    using fwd_reach [OF assms(5,3) sys_inv_start [OF assms(1)]] fwd_inv_start by blast
  then have "round_log (round_of account (n_wallet (sy_node s))) (rpcs_of account (sy_node s))" by (simp add: fwd_inv_def improving_def)
  then have "sorted_wrt (>) (map rpc_deadline (rpcs_of account (sy_node s))) \<and>
    (\<forall>q \<in> set (rpcs_of account (sy_node s)). \<forall>q' \<in> set (rpcs_of account (sy_node s)). rpc_block_height q = rpc_block_height q')"
    by (cases "round_of account (n_wallet (sy_node s))") auto
  moreover have "\<forall>(addr, q) \<in> set (rpcs (sy_node s)). accounted s addr q" using i by (simp add: fwd_inv_def)
  ultimately show ?thesis unfolding accounted_def computed_def offer_rpc_def creq_deadline_def by fastforce
qed

text \<open>The run goes on: a validator computes the batch and forwards the nonce.\<close>

lemma served_forwarded:
  "\<exists>s d. (sys_step False sample_env)\<^sup>*\<^sup>* served_start s \<and> rpcs (sy_node s) = [(''pool:50051'', offer_rpc (sample_req 3, d))]"
proof -
  obtain s creqs rl where s: "(live_step False sample_env)\<^sup>*\<^sup>* served_start s" "posted (sy_dist s) = [(creqs, 1)]"
    "creqs ! 0 = sample_req 3" "length creqs = 4" "list_all creq_ok creqs" "sy_started s = 0" "sy_tasks s = []"
    "sy_node s = sy_node served_start\<lparr>n_limiter := rl\<rparr>" using served_run by blast
  define ds where "ds = map (creq_deadline (nd_poc2_start (sy_node s) \<le> req_height (creqs ! 0))) creqs"
  define d where "d = ds ! 0"
  define s1 where "s1 = s\<lparr>sy_started := sy_started s + 1, sy_tasks := sy_tasks s @ [zip (take 1 creqs) ds]\<rparr>"
  have "batch_deadlines False clean_stacks creqs (nd_poc2_start (sy_node s)) = Some ds"
    using batch_deadlines_value [OF clean_stacks_ok _ s(5), of False] s(4) by (simp add: ds_def parallel_validations_def)
  from sys_start_batch [OF _ _ clean_stacks_ok this, of 1] have step: "sys_step False sample_env s s1"
    by (simp add: s1_def s(2,6))
  have "sy_tasks s1 = [] @ ((sample_req 3, d) # []) # []"
    using s(3,4,7) by (cases creqs) (simp_all add: s1_def ds_def d_def)
  note v = sys_validate [OF this, of False sample_env "{}"]
  have "d = creq_deadline (nd_poc2_start (sy_node s) \<le> req_height (creqs ! 0)) (sample_req 3)"
    using s(3,4) by (simp add: d_def ds_def)
  moreover have "x div 70 < 0xFFFFFFFFFFFFFFFF" for x :: u64
  proof -
    have "unat x < 18446744073709551616" using unsigned_less [of x] by simp
    then have "unat x div 70 < 18446744073709551615" by linarith
    then show ?thesis by (simp add: word_less_nat_alt unat_div)
  qed
  ultimately have "d < 0xFFFFFFFFFFFFFFFF" by (simp add: creq_deadline_def poc_deadline_def sample_req_def)
  moreover from this have "\<not> 0xFFFFFFFFFFFFFFFF < d" by simp
  ultimately have "rpcs (validate_deadline (sample_req 3) d (sy_node s1\<lparr>locked := {}\<rparr>)) = [(''pool:50051'', offer_rpc (sample_req 3, d))]"
    using s(8) by (simp add: s1_def served_start_def sys_start_def served_config_def validate_deadline_def
        update_round_def do_submit_nonce_def answer_defs get_miner_round_def sample_node_def sample_wallet_def sample_round_def
        sample_req_def make_servers_def offer_rpc_def Let_def)
  moreover have "(sys_step False sample_env)\<^sup>*\<^sup>* served_start s"
    using s(1) by (rule rtranclp_mono [THEN predicate2D, rotated]) (auto simp: live_step_def)
  ultimately show ?thesis
    using v step by (intro exI conjI) (erule rtranclp.rtrancl_into_rtrancl [OF rtranclp.rtrancl_into_rtrancl], assumption+, simp)
qed

theorem forwarded_nonces_sound_witness:
  "\<exists>s d. (sys_step False sample_env)\<^sup>*\<^sup>* served_start s \<and> rpcs (sy_node s) = [(''pool:50051'', offer_rpc (sample_req 3, d))] \<and>
     (\<exists>sid. (sid, \<lparr>status = 200, body = success_message d\<rparr>) \<in> set (written (sy_node s))) \<and> d \<le> nd_deadline_limit (sy_node s)"
proof -
  obtain s d where s: "(sys_step False sample_env)\<^sup>*\<^sup>* served_start s" "rpcs (sy_node s) = [(''pool:50051'', offer_rpc (sample_req 3, d))]"
    using served_forwarded by blast
  have h: "length (replicate 4 (sample_req 0)) = parallel_validations False" "list_all gensig_sized (replicate 4 (sample_req 0))"
    "block_shaped (current_block (n_wallet sample_node))"
    by (simp_all add: parallel_validations_def list_all_iff gensig_sized_def sample_req_def block_shaped_def sample_node_def sample_wallet_def)
  have "(\<exists>sid. (sid, \<lparr>status = 200, body = success_message d\<rparr>) \<in> set (written (sy_node s))) \<and> d \<le> nd_deadline_limit (sy_node s)"
    using forwarded_nonces_sound [OF h(1,2) sample_env_ok h(3) s(1) [unfolded served_start_def], of 3] s(2)
    by (auto simp: offer_rpc_def)
  then show ?thesis using s by blast
qed

section \<open>Faults\<close>

text \<open>When the wallet cannot be reached at the start, the constructor leaves a block with base
  target zero, and the deadline computation of every batch that holds a request made from it
  divides by zero.\<close>

theorem unreachable_wallet_faults:
  assumes "\<not> IsObject (parse e [])" "make_wallet e cfg i0 (chunks, False) rows b0 = Some w" "stack4_ok st"
    and "length creqs = 4" "make_deadline_req sid account nonc recip (current_block w) \<in> set creqs"
  shows "blk_base_target (current_block w) = 0 \<and> batch_deadlines_sse4 st creqs poc2_start = None"
proof -
  have c: "current_block (fst (fold (cache_row h) rows wn)) = current_block (fst wn)" for h wn
    by (induction rows arbitrary: wn) (auto simp: cache_row_def Let_def split: prod.split option.split)
  have z: "blk_base_target (current_block w) = 0"
    using assms(1,2)
    by (auto simp: make_wallet_def refresh_block_def get_mining_info_def write_cbs read_mining_info_def c_str_def
        cache_miners_def c)
  obtain r1 r2 r3 r4 where l: "creqs = [r1, r2, r3, r4]"
    using assms(4) by (auto simp: numeral_eq_Suc length_Suc_conv)
  have g: "length (lane4 k (st_gendata st)) = 262160" for k
    using assms(3) lane4_in [of k "st_gendata st"] by (auto simp: stack4_ok_def list_all_iff)
  have "lane_deadline poc2 (req_base_target (make_deadline_req sid account nonc recip (current_block w))) sc gs a n = None"
    for poc2 sc gs a n
    by (simp add: make_deadline_req_def z lane_deadline_zero)
  then have "batch_deadlines_sse4 st creqs poc2_start = None"
    unfolding batch_deadlines_sse4_def sse4_deadlines_lanes [OF g]
    using assms(5) by (auto simp: l quad_of_def lane4_def split: bind_splits)
  then show ?thesis using z by simp
qed

theorem unreachable_wallet_faults_witness:
  "\<exists>w. make_wallet sample_env sample_config_record 0 ([], False) [] (current_block sample_wallet) = Some w \<and>
    batch_deadlines_sse4 (fst clean_stacks) [make_deadline_req 1 3 8 50 (current_block w), sample_req 2, sample_req 3,
      sample_req 4] 7 = None"
proof -
  have n: "\<not> IsObject (parse sample_env [])" by (simp add: sample_env_def)
  obtain w where w: "make_wallet sample_env sample_config_record 0 ([], False) [] (current_block sample_wallet) = Some w"
    using n by (auto simp: make_wallet_def refresh_block_def get_mining_info_def read_mining_info_def c_str_def)
  from unreachable_wallet_faults [OF n w clean_stacks_ok(1), of "[make_deadline_req 1 3 8 50 (current_block w), sample_req 2,
      sample_req 3, sample_req 4]" 1 3 8 50 7] w show ?thesis by simp
qed

section \<open>Concurrent validators of one miner\<close>

text \<open>C11: in every interleaving of validators on a round record the critical section is exclusive,
  and whenever nobody is in it the record and the forwarded deadlines are those of a sequential
  run of the offers that got the mutex, in that order.\<close>

theorem validators_linearise:
  assumes "lock_step\<^sup>*\<^sup>* (lock_start mr) s"
  shows "(\<forall>i j. holds_lock (vpcs s i) \<and> holds_lock (vpcs s j) \<longrightarrow> i = j) \<and>
    (holder s = None \<longrightarrow> (ls_round s, sent s) = offers (tried s) mr)"
proof -
  have "lock_inv mr s" by (rule lock_inv_reach [OF assms])
  then have "holds_lock (vpcs s i) \<Longrightarrow> holder s = Some i" "holder s = None \<Longrightarrow> (ls_round s, sent s) = offers (tried s) mr" for i
    by (simp_all add: lock_inv_def holder_view_def)
  then show ?thesis by (metis option.inject)
qed

text \<open>A run of one validator, up to its answer.\<close>

lemma one_validator:
  assumes "improves off mr"
  shows "lock_step\<^sup>*\<^sup>* (lock_start mr) \<lparr>ls_round = mr\<lparr>mr_deadline := snd off\<rparr>, holder = None,
    vpcs = (\<lambda>i. Finished)(1 := Answer off), sent = [off], tried = [off], refused = [], answered = []\<rparr>"
proof -
  define s0 where "s0 = lock_start mr"
  define s1 where "s1 = s0\<lparr>vpcs := (vpcs s0)(1 := Try_lock off)\<rparr>"
  define s2 where "s2 = s1\<lparr>vpcs := (vpcs s1)(1 := Compare off), holder := Some 1, tried := tried s1 @ [off]\<rparr>"
  define s3 where "s3 = s2\<lparr>vpcs := (vpcs s2)(1 := Submit off)\<rparr>"
  define s4 where "s4 = s3\<lparr>vpcs := (vpcs s3)(1 := Store_deadline off), sent := sent s3 @ [off]\<rparr>"
  define s5 where "s5 = s4\<lparr>vpcs := (vpcs s4)(1 := Unlock off), ls_round := (ls_round s4)\<lparr>mr_deadline := snd off\<rparr>\<rparr>"
  define s6 where "s6 = s5\<lparr>vpcs := (vpcs s5)(1 := Answer off), holder := None\<rparr>"
  note d = s6_def s5_def s4_def s3_def s2_def s1_def s0_def lock_start_def
  have "lock_step s0 s1" unfolding s1_def by (rule ls_begin) (simp add: d)
  moreover have "lock_step s1 s2" unfolding s2_def by (rule ls_lock) (simp_all add: d)
  moreover have "lock_step s2 s3" unfolding s3_def by (rule ls_better) (simp_all add: d assms)
  moreover have "lock_step s3 s4" unfolding s4_def by (rule ls_submit) (simp add: d)
  moreover have "lock_step s4 s5" unfolding s5_def by (rule ls_store) (simp add: d)
  moreover have "lock_step s5 s6" unfolding s6_def by (rule ls_unlock) (simp add: d)
  ultimately have "lock_step\<^sup>*\<^sup>* s0 s6" by (meson converse_rtranclp_into_rtranclp rtranclp.rtrancl_refl)
  then show ?thesis by (simp add: d)
qed

theorem validators_linearise_witness:
  "(sample_round\<lparr>mr_deadline := 9\<rparr>, [(sample_req 1, 9)]) = offers [(sample_req 1, 9)] sample_round"
  using validators_linearise [OF one_validator, of "(sample_req 1, 9)" sample_round]
  by (simp add: improves_def sample_req_def sample_round_def)

text \<open>C12: the deadlines forwarded for a round get strictly smaller, all are for its height, and the
  record keeps the smallest deadline among the offers for its height that got the mutex.\<close>

theorem forwarded_deadlines_improve:
  assumes "lock_step\<^sup>*\<^sup>* (lock_start mr) s" "holder s = None"
  shows "sorted_wrt (>) (map snd (sent s)) \<and> list_all (\<lambda>off. req_height (fst off) = mr_height mr) (sent s) \<and>
    mr_deadline (ls_round s) =
      Min (insert (mr_deadline mr) (snd ` {off \<in> set (tried s). req_height (fst off) = mr_height mr}))"
proof -
  have "(ls_round s, sent s) = offers (tried s) mr"
    using lock_inv_reach [OF assms(1)] assms(2) by (simp add: lock_inv_def holder_view_def)
  then have "ls_round s = fst (offers (tried s) mr)" "sent s = snd (offers (tried s) mr)"
    by (metis fst_conv, metis snd_conv)
  then show ?thesis
    using offers_deadlines [of "tried s" mr] offers_minimum [of "tried s" mr] by (auto simp: list_all_iff)
qed

theorem forwarded_deadlines_improve_witness:
  "mr_deadline (sample_round\<lparr>mr_deadline := 9\<rparr>) =
     Min (insert (mr_deadline sample_round) (snd ` {off \<in> set [(sample_req 1, 9)]. req_height (fst off) = mr_height sample_round}))"
  using forwarded_deadlines_improve [OF one_validator, of "(sample_req 1, 9)" sample_round]
  by (simp add: improves_def sample_req_def sample_round_def)

text \<open>A validator that does not get the mutex answers success without forwarding: for every
  deadline there is a run in which it would improve the round, is answered, and is never sent.\<close>

theorem better_deadline_dropped:
  "\<exists>s off. lock_step\<^sup>*\<^sup>* (lock_start mr) s \<and> holder s = None \<and> snd off = d \<and> off \<in> set (answered s) \<and>
     (mr_height mr = req_height (fst off)) \<and> sent s = [] \<and> ls_round s = mr"
proof -
  define off :: offer where "off = (sample_req 1\<lparr>req_height := mr_height mr\<rparr>, d)"
  define s0 where "s0 = lock_start mr"
  define s1 where "s1 = s0\<lparr>vpcs := (vpcs s0)(1 := Try_lock off)\<rparr>"
  define s2 where "s2 = s1\<lparr>vpcs := (vpcs s1)(1 := Answer off), refused := refused s1 @ [off]\<rparr>"
  define s3 where "s3 = s2\<lparr>vpcs := (vpcs s2)(1 := Finished), answered := answered s2 @ [off]\<rparr>"
  note e = s3_def s2_def s1_def s0_def lock_start_def
  have "lock_step s0 s1" unfolding s1_def by (rule ls_begin) (simp add: e)
  moreover have "lock_step s1 s2" unfolding s2_def by (rule ls_fail) (simp add: e)
  moreover have "lock_step s2 s3" unfolding s3_def by (rule ls_answer) (simp add: e)
  ultimately have "lock_step\<^sup>*\<^sup>* s0 s3" by (meson converse_rtranclp_into_rtranclp rtranclp.rtrancl_refl)
  then show ?thesis
    by (intro exI [of _ s3] exI [of _ off]) (simp add: e off_def)
qed

end
