(* ===== verification/Pool_Client.thy ===== *)
theory Pool_Client
  imports Node_System
begin

text \<open>
  \<open>NodeComClient.hpp\<close> with its heap of calls and the thread that completes them, and the
  constructor of \<open>DeadlineRequestHandler.hpp\<close> with the threads it starts. The node's model keeps
  only what was sent (\<open>do_submit_nonce\<close> in \<open>Node_State\<close>), which this client refines.
\<close>

section \<open>Calls\<close>

text \<open>\<open>AsyncClientCall\<close>, by its address; gRPC has it until it is completed. \<open>None\<close> is a status
  that is \<open>ok\<close>, \<open>Some\<close> an error code and its message.\<close>

record async_call =
  ac_addr :: nat
  ac_target :: string
  ac_request :: submit_nonce_request

type_synonym rpc_status = "(nat \<times> string) option"

record rpc_client =
  rc_servers :: "(u64 \<times> string) list"
  rc_calls :: "async_call list"
  rc_next :: nat
  rc_sent :: "(string \<times> submit_nonce_request) list"
  rc_freed :: "nat list"
  rc_log :: "string list"

definition make_client :: "(u64 \<times> string) list \<Rightarrow> rpc_client" where
  "make_client pools =
     \<lparr>rc_servers = make_servers pools, rc_calls = [], rc_next = 0, rc_sent = [], rc_freed = [], rc_log = []\<rparr>"

definition start_call :: "string \<Rightarrow> submit_nonce_request \<Rightarrow> rpc_client \<Rightarrow> rpc_client" where
  "start_call target req c =
     c\<lparr>rc_calls := rc_calls c @ [\<lparr>ac_addr = rc_next c, ac_target = target, ac_request = req\<rparr>], rc_next := rc_next c + 1,
       rc_sent := rc_sent c @ [(target, req)]\<rparr>"

definition client_submit_nonce :: "u64 \<Rightarrow> submit_nonce_request \<Rightarrow> rpc_client \<Rightarrow> rpc_client" where
  "client_submit_nonce recip req c =
     (case map_of (rc_servers c) recip of
        None \<Rightarrow> c\<lparr>rc_log := rc_log c @ [''no pool server found that serves recip '' @ to_string recip]\<rparr>
      | Some target \<Rightarrow> start_call target req c)"

text \<open>The completion queue hands out a call; one round of the loop logs a failure and deletes it.\<close>

definition complete_call :: "async_call \<times> rpc_status \<Rightarrow> rpc_client \<Rightarrow> rpc_client" where
  "complete_call t c =
     (let (call, st) = t;
          c = (case st of None \<Rightarrow> c
                 | Some (error, msg) \<Rightarrow> c\<lparr>rc_log := rc_log c @ [''rpc failed:  '' @ dec_digits error @ '' '' @ msg]\<rparr>)
      in c\<lparr>rc_calls := remove1 call (rc_calls c), rc_freed := rc_freed c @ [ac_addr call]\<rparr>)"

text \<open>What \<open>cq_.Next\<close> delivers until it returns \<open>false\<close>.\<close>

fun async_complete_rpc :: "(async_call \<times> rpc_status) list \<Rightarrow> rpc_client \<Rightarrow> rpc_client" where
  "async_complete_rpc [] c = c"
| "async_complete_rpc (t # ts) c = async_complete_rpc ts (complete_call t c)"

text \<open>Validators submit while the loop completes; gRPC delivers calls that are under way.\<close>

inductive client_run :: "(u64 \<times> string) list \<Rightarrow> (u64 \<times> submit_nonce_request) list \<Rightarrow> rpc_client \<Rightarrow> bool" for pools where
  client_start: "client_run pools [] (make_client pools)"
| client_submit: "client_run pools reqs c \<Longrightarrow> client_run pools (reqs @ [(recip, req)]) (client_submit_nonce recip req c)"
| client_complete: "client_run pools reqs c \<Longrightarrow> call \<in> set (rc_calls c) \<Longrightarrow> client_run pools reqs (complete_call (call, st) c)"

section \<open>Calls are deleted once, and none is lost\<close>

definition client_ok :: "rpc_client \<Rightarrow> bool" where
  "client_ok c \<longleftrightarrow> distinct (map ac_addr (rc_calls c) @ rc_freed c) \<and>
     set (map ac_addr (rc_calls c) @ rc_freed c) = {..< rc_next c} \<and> length (rc_sent c) = rc_next c"

lemma start_call_ok: "client_ok c \<Longrightarrow> client_ok (start_call target req c)"
  by (auto simp: client_ok_def start_call_def)

lemma complete_call_ok:
  assumes "client_ok c" "call \<in> set (rc_calls c)"
  shows "client_ok (complete_call (call, st) c)"
proof -
  obtain xs ys where s: "rc_calls c = xs @ call # ys" "call \<notin> set xs" using split_list_first [OF assms(2)] by blast
  then have r: "remove1 call (rc_calls c) = xs @ ys" by (simp add: remove1_append)
  have f: "rc_calls (complete_call (call, st) c) = xs @ ys" "rc_freed (complete_call (call, st) c) = rc_freed c @ [ac_addr call]"
    "rc_next (complete_call (call, st) c) = rc_next c" "rc_sent (complete_call (call, st) c) = rc_sent c"
    by (simp_all add: complete_call_def r split: option.split prod.split)
  show ?thesis using assms(1) unfolding client_ok_def f by (auto simp: s(1))
qed

text \<open>What was sent is what the node's model sends.\<close>

definition client_node :: "rpc_client \<Rightarrow> node \<Rightarrow> node" where
  "client_node c n = n\<lparr>servers := rc_servers c, rpcs := rc_sent c\<rparr>"

lemma client_refines: "client_node (client_submit_nonce recip req c) n = do_submit_nonce recip req (client_node c n)"
  by (simp add: client_node_def client_submit_nonce_def do_submit_nonce_def start_call_def split: option.split)

lemma complete_sends_nothing: "client_node (complete_call t c) n = client_node c n"
  by (simp add: client_node_def complete_call_def split: option.split prod.split)

lemma client_run_ok: "client_run pools reqs c \<Longrightarrow> client_ok c \<and>
    client_node c n = fold (\<lambda>(recip, req). do_submit_nonce recip req) reqs (client_node (make_client pools) n)"
proof (induction rule: client_run.induct)
  case (client_submit reqs c recip req)
  then have "client_ok (client_submit_nonce recip req c)"
    using start_call_ok by (auto simp: client_submit_nonce_def client_ok_def split: option.split)
  then show ?case using client_submit by (simp add: client_refines)
qed (simp_all add: complete_sends_nothing complete_call_ok, simp add: client_ok_def make_client_def)

section \<open>The constructor of the deadline request handler\<close>

text \<open>The members it sets and the threads it starts.\<close>

record deadline_handler =
  dh_deadline_limit :: u64
  dh_poc2_start :: u64
  dh_client :: rpc_client
  dh_validators :: nat
  dh_distributors :: nat

function create_threads :: "int \<Rightarrow> int \<Rightarrow> nat" where
  "create_threads i limit = (if i < limit then 1 + create_threads (i + 1) limit else 0)"
  by auto
termination by (relation "measure (\<lambda>(i, limit). nat (limit - i))") auto

declare create_threads.simps [simp del]

definition make_deadline_handler :: "config \<Rightarrow> deadline_handler" where
  "make_deadline_handler cfg =
     \<lparr>dh_deadline_limit = config.deadline_limit cfg, dh_poc2_start = poc2_start_height cfg,
      dh_client = make_client (pool_id_to_addr cfg), dh_validators = create_threads 0 (validator_thread_count cfg),
      dh_distributors = 1\<rparr>"

lemma create_threads_eq: "create_threads i limit = nat (limit - i)"
  by (induction i limit rule: create_threads.induct) (subst create_threads.simps, auto)

text \<open>The node starts with what the constructor sets.\<close>

lemma handler_of_start:
  "client_node (dh_client (make_deadline_handler cfg)) (sy_node (sys_start w rl cfg stale)) = sy_node (sys_start w rl cfg stale)"
  "nd_deadline_limit (sy_node (sys_start w rl cfg stale)) = dh_deadline_limit (make_deadline_handler cfg)"
  "nd_poc2_start (sy_node (sys_start w rl cfg stale)) = dh_poc2_start (make_deadline_handler cfg)"
  "dh_validators (make_deadline_handler cfg) = nat (validator_thread_count cfg)"
  by (simp_all add: client_node_def make_deadline_handler_def make_client_def sys_start_def create_threads_eq)

section \<open>Property\<close>

text \<open>C38: the pool client, whatever the order of submissions and completions: it sends what the node's
  model sends; every call that was started is either under way or was deleted, once; and when none
  is under way all have been deleted.\<close>

theorem calls_freed_once:
  assumes "client_run pools reqs c"
  shows "client_node c n = fold (\<lambda>(recip, req). do_submit_nonce recip req) reqs (client_node (make_client pools) n) \<and>
    distinct (map ac_addr (rc_calls c) @ rc_freed c) \<and> length (rc_calls c) + length (rc_freed c) = length (rc_sent c)"
proof -
  have ok: "client_ok c" using client_run_ok [OF assms] by blast
  then have "card (set (map ac_addr (rc_calls c) @ rc_freed c)) = length (map ac_addr (rc_calls c) @ rc_freed c)"
    unfolding client_ok_def by (intro distinct_card) simp
  then have "length (rc_calls c) + length (rc_freed c) = length (rc_sent c)" using ok by (simp add: client_ok_def)
  then show ?thesis using client_run_ok [OF assms] by (simp add: client_ok_def)
qed

theorem calls_freed_once_witness:
  "\<exists>c :: rpc_client. rc_freed c = [0] \<and> length (rc_calls c) = 1 \<and> length (rc_calls c) + length (rc_freed c) = length (rc_sent c)"
proof -
  let ?req = "\<lparr>rpc_account_id = 1, rpc_nonce = 2, rpc_deadline = 3, rpc_block_height = 4\<rparr>"
  let ?before = "client_submit_nonce 7 ?req (client_submit_nonce 7 ?req (make_client [(7, ''pool'')]))"
  let ?c = "complete_call (\<lparr>ac_addr = 0, ac_target = ''pool'', ac_request = ?req\<rparr>, Some (14, ''unavailable'')) ?before"
  note defs = client_submit_nonce_def start_call_def make_client_def make_servers_id [of "[(7, ''pool'')]"]
  have c0: "rc_calls ?before = [\<lparr>ac_addr = 0, ac_target = ''pool'', ac_request = ?req\<rparr>, \<lparr>ac_addr = 1, ac_target = ''pool'', ac_request = ?req\<rparr>]"
    "rc_freed ?before = []" by (simp_all add: defs omap_ok_def)
  have "client_run [(7, ''pool'')] (([] @ [(7, ?req)]) @ [(7, ?req)]) ?c"
    by (rule client_complete [OF client_submit [OF client_submit [OF client_start]]]) (simp add: c0)
  then have "length (rc_calls ?c) + length (rc_freed ?c) = length (rc_sent ?c)" using calls_freed_once by blast
  moreover have "rc_freed ?c = [0]" "length (rc_calls ?c) = 1" by (simp_all add: complete_call_def c0 split: option.split)
  ultimately show ?thesis by blast
qed

end
