(* ===== verification/Queue_Util.thy ===== *)
theory Queue_Util
  imports Prelude
begin

unbundle bit_operations_syntax

text \<open>
  \<open>concurrentqueue.h\<close>, the helper functions of the queue: the hashes of thread ids, the
  circular comparison of indices, alignment and rounding to powers of two. The hash is a
  bijection, the comparison is the order of indices less than half the index space apart,
  and the rounding yields the least power of two.
\<close>

section \<open>Functions\<close>

definition hash_32 :: "u32 \<Rightarrow> u32" where
  "hash_32 h =
     (let h = h XOR drop_bit 16 h; h = h * 0x85ebca6b; h = h XOR drop_bit 13 h; h = h * 0xc2b2ae35
      in h XOR drop_bit 16 h)"

definition hash_64 :: "u64 \<Rightarrow> u64" where
  "hash_64 h =
     (let h = h XOR drop_bit 33 h; h = h * 0xff51afd7ed558ccd; h = h XOR drop_bit 33 h; h = h * 0xc4ceb9fe1a85ec53
      in h XOR drop_bit 33 h)"

text \<open>Thread ids are addresses (\<open>uintptr_t\<close>), hashed as they are.\<close>

definition hash_thread_id :: "u64 \<Rightarrow> u64" where
  "hash_thread_id t = hash_64 t"

definition circular_less_than :: "u64 \<Rightarrow> u64 \<Rightarrow> bool" where
  "circular_less_than a b \<longleftrightarrow> push_bit 63 1 < a - b"

definition align_for :: "u64 \<Rightarrow> u64 \<Rightarrow> u64" where
  "align_for alignment ptr = ptr + (alignment - ptr mod alignment) mod alignment"

definition ceil_to_pow_2 :: "u64 \<Rightarrow> u64" where
  "ceil_to_pow_2 x =
     (let x = x - 1; x = x OR drop_bit 1 x; x = x OR drop_bit 2 x; x = x OR drop_bit 4 x;
          x = fold (\<lambda>i x. x OR drop_bit (i * 8) x) [1, 2, 4] x
      in x + 1)"

section \<open>The hashes are injective\<close>

text \<open>A right shift by half the width or more is undone by repeating it.\<close>

lemma xorshift_twice: "LENGTH('a :: len) \<le> 2 * n \<Longrightarrow> (x XOR drop_bit n x) XOR drop_bit n (x XOR drop_bit n x) = (x :: 'a word)"
  by (rule bit_word_eqI) (auto simp: bit_xor_iff bit_drop_bit_eq dest: bit_imp_le_length)

lemma xorshift_inj: "LENGTH('a :: len) \<le> 2 * n \<Longrightarrow> x XOR drop_bit n x = y XOR drop_bit n y \<Longrightarrow> x = (y :: 'a word)"
  by (metis xorshift_twice)

lemma xorshift_13: "(x XOR drop_bit 13 x) XOR drop_bit 13 (x XOR drop_bit 13 x) XOR drop_bit 26 (x XOR drop_bit 13 x) = (x :: u32)"
  by (rule bit_word_eqI) (auto simp: bit_xor_iff bit_drop_bit_eq dest: bit_imp_le_length)

lemma xorshift_13_inj: "x XOR drop_bit 13 x = y XOR drop_bit 13 y \<Longrightarrow> x = (y :: u32)"
  by (metis xorshift_13)

lemma mult_inj: "c * d = (1 :: 'a :: comm_ring_1) \<Longrightarrow> x * c = y * c \<Longrightarrow> x = y"
  by (metis mult.assoc mult.right_neutral)

lemma inj_xorshift: "LENGTH('a :: len) \<le> 2 * n \<Longrightarrow> inj (\<lambda>x :: 'a word. x XOR drop_bit n x)"
  by (rule injI) (rule xorshift_inj)

lemma inj_mult: "c * d = (1 :: 'a :: comm_ring_1) \<Longrightarrow> inj (\<lambda>x. x * c)"
  by (rule injI) (rule mult_inj)

lemma hash_64_inj: "inj hash_64"
proof -
  have c: "(0xff51afd7ed558ccd :: u64) * 0x4f74430c22a54005 = 1" "(0xc4ceb9fe1a85ec53 :: u64) * 0x9cb4b2f8129337db = 1"
    by simp_all
  note inj_mult [OF c(1)]
  moreover note inj_mult [OF c(2)]
  moreover have "inj (\<lambda>x :: u64. x XOR drop_bit 33 x)" by (rule inj_xorshift) simp
  moreover have e: "hash_64 = (\<lambda>x. x XOR drop_bit 33 x) \<circ> ((\<lambda>x. x * 0xc4ceb9fe1a85ec53) \<circ> ((\<lambda>x. x XOR drop_bit 33 x) \<circ>
      ((\<lambda>x. x * 0xff51afd7ed558ccd) \<circ> (\<lambda>x. x XOR drop_bit 33 x))))"
    by (rule ext) (simp add: hash_64_def Let_def)
  ultimately show ?thesis unfolding e by (intro inj_compose)
qed

lemma hash_32_inj: "inj hash_32"
proof -
  have c: "(0x85ebca6b :: u32) * 0xa5cb9243 = 1" "(0xc2b2ae35 :: u32) * 0x7ed1b41d = 1" by simp_all
  note inj_mult [OF c(1)]
  moreover note inj_mult [OF c(2)]
  moreover have "inj (\<lambda>x :: u32. x XOR drop_bit 16 x)" by (rule inj_xorshift) simp
  moreover have "inj (\<lambda>x :: u32. x XOR drop_bit 13 x)" by (rule injI) (rule xorshift_13_inj)
  moreover have e: "hash_32 = (\<lambda>x. x XOR drop_bit 16 x) \<circ> ((\<lambda>x. x * 0xc2b2ae35) \<circ> ((\<lambda>x. x XOR drop_bit 13 x) \<circ>
      ((\<lambda>x. x * 0x85ebca6b) \<circ> (\<lambda>x. x XOR drop_bit 16 x))))"
    by (rule ext) (simp add: hash_32_def Let_def)
  ultimately show ?thesis unfolding e by (intro inj_compose)
qed

section \<open>Indices modulo powers of two\<close>

lemma and_capacity: "unat (w AND (2 ^ c - 1 :: u64)) = unat w mod 2 ^ c"
proof -
  have "w AND (2 ^ c - 1) = take_bit c w" by (simp add: take_bit_eq_mask mask_eq_exp_minus_1)
  then show ?thesis by (simp add: unsigned_take_bit_eq take_bit_nat_def)
qed

lemma unat_add_mod_power: "c \<le> 64 \<Longrightarrow> unat (a + b :: u64) mod 2 ^ c = (unat a + unat b) mod 2 ^ c"
proof -
  assume "c \<le> 64"
  then have d: "(2 :: nat) ^ c dvd 2 ^ 64" by (rule le_imp_power_dvd)
  have "unat (a + b) = (unat a + unat b) mod 2 ^ 64" by (simp add: unat_word_ariths)
  then show ?thesis by (simp only: mod_mod_cancel [OF d])
qed

lemma unat_2_power: "c < 64 \<Longrightarrow> unat (2 ^ c :: u64) = 2 ^ c"
proof -
  assume "c < 64"
  then have "(2 :: nat) ^ c < 2 ^ 64" by (simp only: power_strict_increasing_iff)
  moreover have "unat (2 ^ c :: u64) = unat (of_nat (2 ^ c) :: u64)" by simp
  ultimately show ?thesis by (simp only: unat_of_nat) simp
qed

section \<open>The circular order\<close>

lemma unat_minus: "0 < n \<Longrightarrow> n < 2 ^ 64 \<Longrightarrow> unat (- of_nat n :: u64) = 2 ^ 64 - n"
  using unat_sub_if' [of "0 :: u64" "of_nat n"] by (simp add: unat_of_nat take_bit_nat_eq_self_iff)

lemma circular_less_than_iff:
  assumes "n < 2 ^ 64"
  shows "circular_less_than a (a + of_nat n) \<longleftrightarrow> 0 < n \<and> n < 2 ^ 63"
proof (cases "n = 0")
  case False
  then have "unat (a - (a + of_nat n)) = 2 ^ 64 - n" using unat_minus [of n] assms by simp
  then show ?thesis using False by (auto simp: circular_less_than_def word_less_nat_alt)
qed (simp add: circular_less_than_def)

section \<open>Alignment\<close>

lemma align_for_aligned:
  assumes "0 < a" "unat ptr + unat a < 2 ^ 64"
  shows "align_for a ptr mod a = 0 \<and> ptr \<le> align_for a ptr \<and> align_for a ptr - ptr < a"
proof -
  let ?p = "unat ptr" and ?a = "unat a"
  have a: "0 < ?a" using assms(1) by (simp add: word_less_nat_alt)
  let ?d = "(?a - ?p mod ?a) mod ?a"
  have le: "ptr mod a \<le> a" using a by (simp add: word_le_nat_alt unat_mod_distrib)
  have d: "unat ((a - ptr mod a) mod a) = ?d"
    using le by (simp add: unat_mod_distrib unat_sub)
  have dl: "?d < ?a" using a by simp
  have u: "unat (align_for a ptr) = ?p + ?d"
    using d dl assms(2) by (simp add: align_for_def unat_word_ariths)
  have "(?p + ?d) mod ?a = 0"
  proof (cases "?p mod ?a = 0")
    case False
    then have "?a - ?p mod ?a < ?a" using a by simp
    then have "?d = ?a - ?p mod ?a" by (rule mod_less)
    moreover have "?p + (?a - ?p mod ?a) = ?a * (?p div ?a) + ?a"
      using a mod_less_divisor [OF a, of ?p] mult_div_mod_eq [of ?a ?p] by linarith
    ultimately show ?thesis by simp
  qed simp
  then show ?thesis
    using u dl d by (simp add: word_le_nat_alt word_less_nat_alt unat_mod_distrib align_for_def
        word_unat_eq_iff)
qed

section \<open>Powers of two\<close>

text \<open>\<open>smeared k x\<close>: bit \<open>i\<close> is set if one of the \<open>k\<close> bits of \<open>x\<close> from \<open>i\<close> on is.\<close>

definition smeared :: "nat \<Rightarrow> u64 \<Rightarrow> u64 \<Rightarrow> bool" where
  "smeared k x y \<longleftrightarrow> (\<forall>i. bit y i \<longleftrightarrow> (\<exists>j < k. bit x (i + j)))"

lemma smear_step: "smeared k x y \<Longrightarrow> smeared (k + k) x (y OR drop_bit k y)"
proof -
  assume s: "smeared k x y"
  have "(\<exists>j < k. P j) \<or> (\<exists>j < k. P (k + j)) \<longleftrightarrow> (\<exists>j < k + k. P j)" for P
  proof
    assume "\<exists>j < k + k. P j"
    then obtain j where j: "j < k + k" "P j" by blast
    show "(\<exists>j < k. P j) \<or> (\<exists>j < k. P (k + j))"
    proof (cases "j < k")
      case False
      then have "j - k < k \<and> P (k + (j - k))" using j by simp
      then show ?thesis by blast
    qed (use j in blast)
  next
    assume "(\<exists>j < k. P j) \<or> (\<exists>j < k. P (k + j))"
    then show "\<exists>j < k + k. P j" by (metis add_less_cancel_left trans_less_add1)
  qed
  from this [of "\<lambda>j. bit x (i + j)" for i] show ?thesis
    using s by (simp add: smeared_def bit_or_iff bit_drop_bit_eq algebra_simps)
qed

lemma smeared_all:
  "smeared 64 x (let x = x OR drop_bit 1 x; x = x OR drop_bit 2 x; x = x OR drop_bit 4 x
     in fold (\<lambda>i x. x OR drop_bit (i * 8) x) [1, 2, 4] x)"
proof -
  define y1 where "y1 = x OR drop_bit 1 x"
  define y2 where "y2 = y1 OR drop_bit 2 y1"
  define y3 where "y3 = y2 OR drop_bit 4 y2"
  define y4 where "y4 = y3 OR drop_bit 8 y3"
  define y5 where "y5 = y4 OR drop_bit 16 y4"
  have "smeared 1 x x" by (simp add: smeared_def)
  then have "smeared 2 x y1" using smear_step [of 1 x x] by (simp add: y1_def numeral_2_eq_2)
  then have "smeared 4 x y2" using smear_step [of 2 x y1] by (simp add: y2_def)
  then have "smeared 8 x y3" using smear_step [of 4 x y2] by (simp add: y3_def)
  then have "smeared 16 x y4" using smear_step [of 8 x y3] by (simp add: y4_def)
  then have "smeared 32 x y5" using smear_step [of 16 x y4] by (simp add: y5_def)
  then have "smeared 64 x (y5 OR drop_bit 32 y5)" using smear_step [of 32 x y5] by simp
  then show ?thesis by (simp add: y5_def y4_def y3_def y2_def y1_def Let_def)
qed

text \<open>All bits below the topmost one of \<open>x\<close> are set.\<close>

lemma bit_u64: "bit (x :: u64) i \<longleftrightarrow> odd (unat x div 2 ^ i)"
  by (simp add: bit_iff_odd [of "unat x", symmetric] bit_unsigned_iff)

lemma smeared_mask:
  assumes s: "smeared 64 x y" and u: "unat x < 2 ^ n" and l: "n = 0 \<or> 2 ^ (n - 1) \<le> unat x" and n: "n \<le> 64"
  shows "y = mask n"
proof (rule bit_word_eqI)
  fix i assume i: "i < LENGTH(64)"
  have high: "\<not> bit x k" if "n \<le> k" for k
  proof -
    have "unat x < 2 ^ k" using u that by (meson less_le_trans one_le_numeral power_increasing)
    then show ?thesis by (simp add: bit_u64)
  qed
  have top: "bit x (n - 1)" if "0 < n"
  proof -
    have "unat x div 2 ^ (n - 1) = 1"
      using u l that by (intro div_nat_eqI) (auto simp: power_eq_if)
    then show ?thesis by (simp add: bit_u64)
  qed
  show "bit y i \<longleftrightarrow> bit (mask n :: u64) i"
  proof (cases "i < n")
    case True
    then have "bit x (i + (n - 1 - i)) \<and> n - 1 - i < 64" using top n by simp
    then show ?thesis using s True i by (auto simp: smeared_def bit_mask_iff)
  next
    case False
    then show ?thesis using s high by (auto simp: smeared_def bit_mask_iff)
  qed
qed

text \<open>The result is the least power of two that is not smaller.\<close>

lemma ceil_to_pow_2_least:
  assumes "0 < unat x" "unat x \<le> 2 ^ 63"
  shows "\<exists>n \<le> 63. unat (ceil_to_pow_2 x) = 2 ^ n \<and> unat x \<le> 2 ^ n \<and> (\<forall>k. unat x \<le> 2 ^ k \<longrightarrow> n \<le> k)"
proof -
  define n where "n = (LEAST n. unat x \<le> 2 ^ n)"
  have n: "unat x \<le> 2 ^ n" unfolding n_def using assms(2) by (rule LeastI)
  have least: "n \<le> k" if "unat x \<le> 2 ^ k" for k unfolding n_def using that by (rule Least_le)
  have n63: "n \<le> 63" using least assms(2) by blast
  have u: "unat (x - 1) = unat x - 1" using assms(1) by (metis unat_minus_one unat_0 less_irrefl)
  have "n = 0 \<or> 2 ^ (n - 1) \<le> unat (x - 1)"
  proof (cases "n = 0")
    case False
    then have "2 ^ (n - 1) < unat x" using least [of "n - 1"] by force
    then show ?thesis using u by linarith
  qed simp
  moreover have "unat (x - 1) < 2 ^ n" using u n assms(1) by simp
  ultimately have "ceil_to_pow_2 x = mask n + 1"
    using smeared_mask [OF smeared_all, of "x - 1" n] n63 by (simp add: ceil_to_pow_2_def Let_def)
  then have "ceil_to_pow_2 x = 2 ^ n" by (simp add: mask_eq_exp_minus_1)
  then have "unat (ceil_to_pow_2 x) = unat (of_nat (2 ^ n) :: u64)" by simp
  moreover have "(2 :: nat) ^ n < 2 ^ 64" using n63 by (simp only: power_strict_increasing_iff)
  ultimately have "unat (ceil_to_pow_2 x) = 2 ^ n" by (simp only: unat_of_nat) simp
  then show ?thesis using n63 n least by blast
qed

end
