(* ===== verification/Block_Pool.thy ===== *)
theory Block_Pool
  imports Queue_Util
begin

text \<open>
  \<open>concurrentqueue.h\<close>: blocks of thirty-two elements and the pool they come from, which is the
  array allocated with the queue, the free list and the heap. Blocks are addressed by numbers.
  Every block is in one place.
\<close>

section \<open>Blocks and their pool\<close>

definition BLOCK_SIZE :: u64 where "BLOCK_SIZE = 32"

text \<open>\<open>elements\<close>: \<open>None\<close> is memory without an object. An implicit producer counts the elements
  dequeued, an explicit one sets a flag for each; the flags of a new block are not initialised
  (and not read before they are written).\<close>

record 'a qblock =
  elements :: "'a option list"
  elementsCompletelyDequeued :: u64
  emptyFlags :: "bool list"
  blk_next :: "nat option"
  dynamicallyAllocated :: bool

text \<open>\<open>initialBlockPoolIndex\<close> and \<open>initialBlockPoolSize\<close> delimit the blocks allocated with the
  queue, which are the first ones; \<open>next_block\<close> is the number of the next block allocated.\<close>

record 'a pool =
  blocks :: "nat \<Rightarrow> 'a qblock"
  pool_index :: u64
  pool_size :: u64
  free_list :: "nat list"
  next_block :: nat

definition new_qblock :: "'a qblock" where
  "new_qblock = \<lparr>elements = replicate 32 None, elementsCompletelyDequeued = 0, emptyFlags = replicate 32 False,
     blk_next = None, dynamicallyAllocated = True\<rparr>"

text \<open>\<open>(*block)[idx]\<close>.\<close>

definition slot :: "u64 \<Rightarrow> nat" where
  "slot idx = unat (idx AND (BLOCK_SIZE - 1))"

definition reset_empty :: "'a qblock \<Rightarrow> 'a qblock" where
  "reset_empty b = b\<lparr>elementsCompletelyDequeued := 0\<rparr>"

text \<open>\<open>set_empty\<close> and \<open>set_many_empty\<close> in an implicit context: whether the block is now empty, and
  the block.\<close>

definition set_empty :: "'a qblock \<Rightarrow> (bool \<times> 'a qblock) option" where
  "set_empty b =
     (let prevVal = elementsCompletelyDequeued b in
      if \<not> prevVal < BLOCK_SIZE then None
      else Some (prevVal = BLOCK_SIZE - 1, b\<lparr>elementsCompletelyDequeued := prevVal + 1\<rparr>))"

definition set_many_empty :: "u64 \<Rightarrow> 'a qblock \<Rightarrow> (bool \<times> 'a qblock) option" where
  "set_many_empty count b =
     (let prevVal = elementsCompletelyDequeued b in
      if \<not> prevVal + count \<le> BLOCK_SIZE then None
      else Some (prevVal + count = BLOCK_SIZE, b\<lparr>elementsCompletelyDequeued := prevVal + count\<rparr>))"

definition is_empty :: "'a qblock \<Rightarrow> bool" where
  "is_empty b \<longleftrightarrow> elementsCompletelyDequeued b = BLOCK_SIZE"

definition populate_initial_block_list :: "bool \<Rightarrow> u64 \<Rightarrow> 'a pool" where
  "populate_initial_block_list mem blockCount =
     (let blockCount = (if mem then blockCount else 0) in
      \<lparr>blocks = (\<lambda>r. new_qblock\<lparr>dynamicallyAllocated := False\<rparr>), pool_index = 0, pool_size = blockCount, free_list = [], next_block = unat blockCount\<rparr>)"

definition try_get_block_from_initial_pool :: "'a pool \<Rightarrow> nat option \<times> 'a pool" where
  "try_get_block_from_initial_pool q =
     (if pool_size q \<le> pool_index q then (None, q)
      else let index = pool_index q; q = q\<lparr>pool_index := index + 1\<rparr> in
        (if index < pool_size q then Some (unat index) else None, q))"

text \<open>The free list without contention: a stack.\<close>

definition add_block_to_free_list :: "nat \<Rightarrow> 'a pool \<Rightarrow> 'a pool" where
  "add_block_to_free_list r q = q\<lparr>free_list := r # free_list q\<rparr>"

text \<open>The loop over a chain of blocks. It does not end if the chain is a cycle.\<close>

partial_function (option) add_blocks_to_free_list :: "nat option \<Rightarrow> 'a pool \<Rightarrow> 'a pool option" where
  "add_blocks_to_free_list b q =
     (case b of
        None \<Rightarrow> Some q
      | Some r \<Rightarrow> add_blocks_to_free_list (blk_next (blocks q r)) (add_block_to_free_list r q))"

definition try_get_block_from_free_list :: "'a pool \<Rightarrow> nat option \<times> 'a pool" where
  "try_get_block_from_free_list q =
     (case free_list q of [] \<Rightarrow> (None, q) | r # rs \<Rightarrow> (Some r, q\<lparr>free_list := rs\<rparr>))"

text \<open>\<open>create<Block>\<close>; \<open>mem\<close> is whether memory is available.\<close>

definition create_block :: "bool \<Rightarrow> 'a pool \<Rightarrow> nat option \<times> 'a pool" where
  "create_block mem q =
     (if mem then (Some (next_block q), q\<lparr>blocks := (blocks q)(next_block q := new_qblock), next_block := next_block q + 1\<rparr>)
      else (None, q))"

definition requisition_block :: "bool \<Rightarrow> bool \<Rightarrow> 'a pool \<Rightarrow> nat option \<times> 'a pool" where
  "requisition_block can_alloc mem q =
     (case try_get_block_from_initial_pool q of
        (Some r, q) \<Rightarrow> (Some r, q)
      | (None, q) \<Rightarrow>
          (case try_get_block_from_free_list q of
             (Some r, q) \<Rightarrow> (Some r, q)
           | (None, q) \<Rightarrow> if can_alloc then create_block mem q else (None, q)))"

section \<open>The pool\<close>

text \<open>Every allocated block is in use (\<open>U\<close>), in the free list, or among the initial ones not yet
  given out, and in one of these only.\<close>

definition initial_left :: "'a pool \<Rightarrow> nat set" where
  "initial_left q = {unat (pool_index q)..<unat (pool_size q)}"

definition pool_ok :: "'a pool \<Rightarrow> nat set \<Rightarrow> bool" where
  "pool_ok q U \<longleftrightarrow> distinct (free_list q) \<and> U \<inter> set (free_list q) = {} \<and> (U \<union> set (free_list q)) \<inter> initial_left q = {} \<and>
     U \<union> set (free_list q) \<union> initial_left q = {..<next_block q} \<and> unat (pool_size q) \<le> next_block q \<and>
     (\<forall>r < next_block q. length (elements (blocks q r)) = 32 \<and> (dynamicallyAllocated (blocks q r) \<longleftrightarrow> unat (pool_size q) \<le> r))"

lemma pool_ok_used: "pool_ok q U \<Longrightarrow> r \<in> U \<Longrightarrow> r < next_block q \<and> r \<notin> set (free_list q) \<and> length (elements (blocks q r)) = 32"
  unfolding pool_ok_def by blast

lemma populate_pool_ok: "pool_ok (populate_initial_block_list mem n) {}"
  by (auto simp: pool_ok_def populate_initial_block_list_def new_qblock_def initial_left_def Let_def)

lemma initial_pool_block:
  assumes "pool_ok q U" "try_get_block_from_initial_pool q = (r, q')"
  shows "case r of None \<Rightarrow> q' = q | Some r \<Rightarrow> r \<notin> U \<and> pool_ok q' (insert r U) \<and> blocks q' = blocks q"
proof (cases "pool_size q \<le> pool_index q")
  case False
  then have l: "unat (pool_index q) < unat (pool_size q)" by (simp add: word_le_nat_alt)
  then have u: "unat (pool_index q + 1) = unat (pool_index q) + 1"
    using unsigned_less [of "pool_size q", where ?'a = nat] by (simp add: unat_word_ariths)
  have q': "r = Some (unat (pool_index q))" "q' = q\<lparr>pool_index := pool_index q + 1\<rparr>"
    using assms(2) False by (auto simp: try_get_block_from_initial_pool_def Let_def not_le)
  have left: "initial_left q = insert (unat (pool_index q)) (initial_left q')" "unat (pool_index q) \<notin> initial_left q'"
    using l u by (auto simp: initial_left_def q'(2))
  then show ?thesis using assms(1) unfolding pool_ok_def q'(1) by (auto simp: q'(2))
qed (use assms in \<open>simp add: try_get_block_from_initial_pool_def\<close>)

lemma free_list_block:
  assumes "pool_ok q U" "try_get_block_from_free_list q = (r, q')"
  shows "case r of None \<Rightarrow> q' = q | Some r \<Rightarrow> r \<notin> U \<and> pool_ok q' (insert r U) \<and> blocks q' = blocks q"
  using assms by (auto simp: try_get_block_from_free_list_def pool_ok_def initial_left_def split: list.splits)

lemma create_block_ok:
  assumes "pool_ok q U" "create_block mem q = (r, q')"
  shows "case r of None \<Rightarrow> q' = q \<and> \<not> mem
    | Some r \<Rightarrow> r \<notin> U \<and> pool_ok q' (insert r U) \<and> (\<forall>u \<in> U. blocks q' u = blocks q u)"
  using assms
  by (auto simp: create_block_def pool_ok_def new_qblock_def initial_left_def less_Suc_eq split: if_splits)

text \<open>A requisitioned block is in use by nobody else.\<close>

lemma requisition_block_ok:
  assumes ok: "pool_ok q U" and r: "requisition_block can_alloc mem q = (r, q')"
  shows "case r of None \<Rightarrow> q' = q \<and> \<not> (can_alloc \<and> mem)
    | Some r \<Rightarrow> r \<notin> U \<and> pool_ok q' (insert r U) \<and> (\<forall>u \<in> U. blocks q' u = blocks q u)"
proof -
  obtain r1 q1 where 1: "try_get_block_from_initial_pool q = (r1, q1)" by force
  obtain r2 q2 where 2: "try_get_block_from_free_list q1 = (r2, q2)" by force
  obtain r3 q3 where 3: "create_block mem q2 = (r3, q3)" by force
  note k1 = initial_pool_block [OF ok 1]
  show ?thesis
  proof (cases r1)
    case None
    then have q1: "pool_ok q1 U" "q1 = q" using k1 ok by simp_all
    note k2 = free_list_block [OF q1(1) 2]
    show ?thesis
    proof (cases r2)
      case (Some b)
      then show ?thesis using r 1 2 None k2 q1 by (auto simp: requisition_block_def)
    next
      case None2: None
      then have q2: "pool_ok q2 U" "q2 = q" using k2 q1 by simp_all
      show ?thesis
        using r 1 2 3 None None2 q1 q2 create_block_ok [OF q2(1) 3]
        by (auto simp: requisition_block_def split: if_splits option.splits)
    qed
  qed (use r 1 k1 in \<open>auto simp: requisition_block_def\<close>)
qed

lemma pool_ok_release: "pool_ok q U \<Longrightarrow> r \<in> U \<Longrightarrow> pool_ok (add_block_to_free_list r q) (U - {r})"
  by (auto simp: pool_ok_def add_block_to_free_list_def initial_left_def)

text \<open>Writing a block in use.\<close>

lemma pool_ok_update:
  "pool_ok q U \<Longrightarrow> length (elements b) = 32 \<Longrightarrow> dynamicallyAllocated b = dynamicallyAllocated (blocks q r) \<Longrightarrow>
   pool_ok (q\<lparr>blocks := (blocks q)(r := b)\<rparr>) U"
  by (simp add: pool_ok_def initial_left_def)

end
