(* ===== verification/Implicit_Producer.thy ===== *)
theory Implicit_Producer
  imports Block_Pool
begin

text \<open>
  \<open>concurrentqueue.h\<close>, the part of the queue that one producer thread owns: the index that finds
  the block of an element, and enqueueing and dequeueing. A call is executed without
  interruption here; the counters under concurrent consumers are treated in \<open>Queue_Claims\<close>.

  The element type has constructors and assignments that do not throw, so the code for
  exceptions is not compiled. Index entries are addressed by numbers; a failed \<open>assert\<close>, a null
  pointer and an access to a destroyed element are \<open>None\<close>.
\<close>

section \<open>The block index\<close>

definition INVALID_BLOCK_BASE :: u64 where "INVALID_BLOCK_BASE = 1"

text \<open>\<open>BlockIndexHeader\<close>; \<open>bx_index\<close> points into the entries of all headers.\<close>

record block_index =
  bx_capacity :: u64
  bx_tail :: u64
  bx_index :: "nat list"

text \<open>An \<open>ImplicitProducer\<close>. The entries are \<open>(key, value)\<close>; the headers are kept until the
  producer is destroyed, so the entries of all of them form one list.\<close>

record producer =
  tailIndex :: u64
  headIndex :: u64
  dequeueOptimisticCount :: u64
  dequeueOvercommit :: u64
  tailBlock :: "nat option"
  entries :: "(u64 \<times> nat option) list"
  blockIndex :: "block_index option"
  nextBlockIndexCapacity :: u64

text \<open>The loop that copies the old index, starting behind its tail.\<close>

fun copy_index :: "nat \<Rightarrow> u64 \<Rightarrow> block_index \<Rightarrow> nat list" where
  "copy_index 0 prevPos prev = []"
| "copy_index (Suc n) prevPos prev =
     (let prevPos = (prevPos + 1) AND (bx_capacity prev - 1) in
      bx_index prev ! unat prevPos # copy_index n prevPos prev)"

text \<open>New entries have an invalid key and an uninitialised value, here \<open>stale\<close>.\<close>

definition new_block_index :: "bool \<Rightarrow> nat option \<Rightarrow> producer \<Rightarrow> bool \<times> producer" where
  "new_block_index mem stale p =
     (let prevCapacity = (case blockIndex p of None \<Rightarrow> 0 | Some prev \<Rightarrow> bx_capacity prev);
          entryCount = (case blockIndex p of None \<Rightarrow> nextBlockIndexCapacity p | Some prev \<Rightarrow> prevCapacity) in
      if \<not> mem then (False, p)
      else let old = (case blockIndex p of None \<Rightarrow> [] | Some prev \<Rightarrow> copy_index (unat prevCapacity) (bx_tail prev) prev);
               n = length (entries p)
        in (True, p\<lparr>entries := entries p @ replicate (unat entryCount) (INVALID_BLOCK_BASE, stale),
              blockIndex := Some \<lparr>bx_capacity = nextBlockIndexCapacity p,
                bx_tail = (prevCapacity - 1) AND (nextBlockIndexCapacity p - 1),
                bx_index = old @ [n..<n + unat entryCount]\<rparr>,
              nextBlockIndexCapacity := push_bit 1 (nextBlockIndexCapacity p)\<rparr>))"

definition make_producer :: "bool \<Rightarrow> nat option \<Rightarrow> producer" where
  "make_producer mem stale =
     snd (new_block_index mem stale
       \<lparr>tailIndex = 0, headIndex = 0, dequeueOptimisticCount = 0, dequeueOvercommit = 0, tailBlock = None,
        entries = [], blockIndex = None, nextBlockIndexCapacity = 32\<rparr>)"

text \<open>Take the entry behind the tail for the block that starts at \<open>start\<close>.\<close>

definition claim_entry :: "u64 \<Rightarrow> block_index \<Rightarrow> producer \<Rightarrow> nat \<times> producer" where
  "claim_entry start bx p =
     (let newTail = (bx_tail bx + 1) AND (bx_capacity bx - 1); e = bx_index bx ! unat newTail
      in (e, p\<lparr>entries := (entries p)[e := (start, snd (entries p ! e))], blockIndex := Some (bx\<lparr>bx_tail := newTail\<rparr>)\<rparr>))"

definition insert_block_index_entry :: "bool \<Rightarrow> bool \<Rightarrow> nat option \<Rightarrow> u64 \<Rightarrow> producer \<Rightarrow> (nat option \<times> producer) option" where
  "insert_block_index_entry can_alloc mem stale start p =
     (case blockIndex p of
        None \<Rightarrow> Some (None, p)
      | Some bx \<Rightarrow>
          (let newTail = (bx_tail bx + 1) AND (bx_capacity bx - 1); e = bx_index bx ! unat newTail in
           if fst (entries p ! e) = INVALID_BLOCK_BASE \<or> snd (entries p ! e) = None
             then (case claim_entry start bx p of (e, p) \<Rightarrow> Some (Some e, p))
           else if \<not> can_alloc then Some (None, p)
           else (case new_block_index mem stale p of
               (False, p) \<Rightarrow> Some (None, p)
             | (True, p) \<Rightarrow>
                 (case blockIndex p of
                    None \<Rightarrow> None
                  | Some bx \<Rightarrow>
                      (let newTail = (bx_tail bx + 1) AND (bx_capacity bx - 1); e = bx_index bx ! unat newTail in
                       if fst (entries p ! e) \<noteq> INVALID_BLOCK_BASE then None
                       else (case claim_entry start bx p of (e, p) \<Rightarrow> Some (Some e, p)))))))"

definition rewind_block_index_tail :: "producer \<Rightarrow> producer" where
  "rewind_block_index_tail p =
     (case blockIndex p of
        None \<Rightarrow> p
      | Some bx \<Rightarrow> p\<lparr>blockIndex := Some (bx\<lparr>bx_tail := (bx_tail bx - 1) AND (bx_capacity bx - 1)\<rparr>)\<rparr>)"

text \<open>Where the index has the entry of the block that holds an element, and that entry. The division
  is one of unsigned numbers.\<close>

definition get_block_index_index_for_index :: "u64 \<Rightarrow> producer \<Rightarrow> u64 option" where
  "get_block_index_index_for_index idx p =
     (case blockIndex p of
        None \<Rightarrow> None
      | Some bx \<Rightarrow>
          (let idx = idx AND NOT (BLOCK_SIZE - 1); tail = bx_tail bx;
               tailBase = fst (entries p ! (bx_index bx ! unat tail)) in
           if tailBase = INVALID_BLOCK_BASE then None
           else let offset = (idx - tailBase) div BLOCK_SIZE;
                    i = (tail + offset) AND (bx_capacity bx - 1); e = bx_index bx ! unat i
             in if fst (entries p ! e) = idx \<and> snd (entries p ! e) \<noteq> None then Some i else None))"

definition get_block_index_entry_for_index :: "u64 \<Rightarrow> producer \<Rightarrow> nat option" where
  "get_block_index_entry_for_index idx p =
     (case (blockIndex p, get_block_index_index_for_index idx p) of
        (Some bx, Some i) \<Rightarrow> Some (bx_index bx ! unat i)
      | _ \<Rightarrow> None)"

section \<open>Enqueueing and dequeueing\<close>

definition set_value :: "nat \<Rightarrow> nat option \<Rightarrow> producer \<Rightarrow> producer" where
  "set_value e v p = p\<lparr>entries := (entries p)[e := (fst (entries p ! e), v)]\<rparr>"

definition put_element :: "nat \<Rightarrow> u64 \<Rightarrow> 'a option \<Rightarrow> 'a pool \<Rightarrow> 'a pool" where
  "put_element r idx x q = q\<lparr>blocks := (blocks q)(r := (blocks q r)\<lparr>elements := (elements (blocks q r))[slot idx := x]\<rparr>)\<rparr>"

text \<open>Construct the element in the tail block and publish it.\<close>

definition store_element :: "'a \<Rightarrow> 'a pool \<times> producer \<Rightarrow> (bool \<times> 'a pool \<times> producer) option" where
  "store_element x qp =
     (let (q, p) = qp in
      case tailBlock p of
        None \<Rightarrow> None
      | Some r \<Rightarrow> Some (True, put_element r (tailIndex p) (Some x) q, p\<lparr>tailIndex := 1 + tailIndex p\<rparr>))"

text \<open>\<open>max_size\<close> is \<open>MAX_SUBQUEUE_SIZE\<close>, by default the largest \<open>size_t\<close>, which means no limit.\<close>

definition producer_enqueue ::
  "u64 \<Rightarrow> bool \<Rightarrow> bool \<Rightarrow> bool \<Rightarrow> nat option \<Rightarrow> 'a \<Rightarrow> 'a pool \<times> producer \<Rightarrow> (bool \<times> 'a pool \<times> producer) option" where
  "producer_enqueue max_size can_alloc index_mem block_mem stale x qp =
     (let (q, p) = qp; tail = tailIndex p in
      if tail AND (BLOCK_SIZE - 1) \<noteq> 0 then store_element x (q, p)
      else let head = headIndex p in
        if circular_less_than tail head then None
        else if \<not> circular_less_than head (tail + BLOCK_SIZE) \<or>
            (max_size \<noteq> - 1 \<and> (max_size = 0 \<or> max_size - BLOCK_SIZE < tail - head))
          then Some (False, q, p)
        else
          (case insert_block_index_entry can_alloc index_mem stale tail p of
             None \<Rightarrow> None
           | Some (None, p) \<Rightarrow> Some (False, q, p)
           | Some (Some e, p) \<Rightarrow>
               (case requisition_block can_alloc block_mem q of
                  (None, q) \<Rightarrow> Some (False, q, set_value e None (rewind_block_index_tail p))
                | (Some r, q) \<Rightarrow>
                    (let q = q\<lparr>blocks := (blocks q)(r := reset_empty (blocks q r))\<rparr>;
                         p = (set_value e (Some r) p)\<lparr>tailBlock := Some r\<rparr>
                     in store_element x (q, p)))))"

text \<open>The element at \<open>index\<close> is moved out of its block, which is given back when it is empty.\<close>

definition take_element :: "u64 \<Rightarrow> 'a pool \<times> producer \<Rightarrow> ('a \<times> 'a pool \<times> producer) option" where
  "take_element idx qp =
     (let (q, p) = qp in
      case get_block_index_entry_for_index idx p of
        None \<Rightarrow> None
      | Some e \<Rightarrow>
          (case snd (entries p ! e) of
             None \<Rightarrow> None
           | Some r \<Rightarrow>
               (case elements (blocks q r) ! slot idx of
                  None \<Rightarrow> None
                | Some el \<Rightarrow>
                    (let q = put_element r idx None q in
                     case set_empty (blocks q r) of
                       None \<Rightarrow> None
                     | Some (now_empty, b) \<Rightarrow>
                         (let q = q\<lparr>blocks := (blocks q)(r := b)\<rparr> in
                          if now_empty then Some (el, add_block_to_free_list r q, set_value e None p)
                          else Some (el, q, p))))))"

definition producer_dequeue :: "'a pool \<times> producer \<Rightarrow> ('a option \<times> 'a pool \<times> producer) option" where
  "producer_dequeue qp =
     (let (q, p) = qp; overcommit = dequeueOvercommit p in
      if circular_less_than (dequeueOptimisticCount p - overcommit) (tailIndex p)
      then let myDequeueCount = dequeueOptimisticCount p; p = p\<lparr>dequeueOptimisticCount := myDequeueCount + 1\<rparr> in
        if myDequeueCount < overcommit then None
        else if circular_less_than (myDequeueCount - overcommit) (tailIndex p)
        then let idx = headIndex p; p = p\<lparr>headIndex := idx + 1\<rparr> in
          map_option (\<lambda>(el, q, p). (Some el, q, p)) (take_element idx (q, p))
        else Some (None, q, p\<lparr>dequeueOvercommit := dequeueOvercommit p + 1\<rparr>)
      else Some (None, q, p))"

definition producer_size_approx :: "producer \<Rightarrow> u64" where
  "producer_size_approx p =
     (let tail = tailIndex p; head = headIndex p in if circular_less_than head tail then tail - head else 0)"

end
