(* ===== verification/Producer_Refinement.thy ===== *)
theory Producer_Refinement
  imports Implicit_Producer
begin

text \<open>
  The producer's blocks and block index represent a list, and \<open>enqueue\<close> and \<open>dequeue\<close> work on it
  as on a first-in first-out queue. The block index is seen as a ring: the entries behind its
  tail come first, the entries of the blocks in use last.
\<close>

section \<open>Index arithmetic\<close>

lemma and_31: "unat (w AND (BLOCK_SIZE - 1)) = unat w mod 32"
proof -
  have "w AND (BLOCK_SIZE - 1) = take_bit 5 w" by (simp add: BLOCK_SIZE_def take_bit_eq_mask mask_eq_exp_minus_1)
  then show ?thesis by (simp add: unsigned_take_bit_eq take_bit_nat_def)
qed

lemma slot_mod: "slot w = unat w mod 32"
  by (simp add: slot_def and_31)

lemma slot_less [simp]: "slot w < 32"
  by (simp add: slot_mod)

lemma slot_add: "slot (a + of_nat k) = (slot a + k) mod 32"
proof -
  have d: "(32 :: nat) dvd 2 ^ 64" by simp
  have "unat (a + of_nat k) = (unat a + k mod 2 ^ 64) mod 2 ^ 64"
    by (simp add: unat_word_ariths unat_of_nat)
  then have "slot (a + of_nat k) = (unat a + k mod 2 ^ 64) mod 32"
    by (simp only: slot_mod mod_mod_cancel [OF d])
  also have "\<dots> = (unat a + k) mod 32" by (metis mod_mod_cancel [OF d] mod_add_right_eq)
  finally show ?thesis by (simp add: slot_mod mod_add_left_eq)
qed

lemma and_not_31: "w AND NOT (BLOCK_SIZE - 1) = w - of_nat (slot w)"
proof -
  have "w AND NOT (BLOCK_SIZE - 1) = w AND NOT (mask 5)" by (simp add: BLOCK_SIZE_def mask_eq_exp_minus_1)
  also have "\<dots> = push_bit 5 (drop_bit 5 w)"
    by (rule bit_word_eqI) (auto simp: bit_simps)
  also have "\<dots> = w - take_bit 5 w" by (metis add_diff_cancel_right' bits_ident)
  also have "take_bit 5 w = of_nat (slot w)"
    by (simp add: slot_def BLOCK_SIZE_def take_bit_eq_mask mask_eq_exp_minus_1)
  finally show ?thesis .
qed

lemma block_base: "(h + of_nat k) AND NOT (BLOCK_SIZE - 1) = h - of_nat (slot h) + 32 * of_nat ((slot h + k) div 32)"
proof -
  have "of_nat (slot h + k) = (of_nat (32 * ((slot h + k) div 32) + (slot h + k) mod 32) :: u64)"
    by (simp only: mult_div_mod_eq)
  then have "of_nat (slot h) + of_nat k = (32 * of_nat ((slot h + k) div 32) + of_nat ((slot h + k) mod 32) :: u64)"
    by (simp only: of_nat_add of_nat_mult of_nat_numeral)
  then show ?thesis by (simp add: and_not_31 slot_add algebra_simps)
qed

section \<open>The block index as a ring\<close>

definition ring :: "block_index \<Rightarrow> nat list" where
  "ring bx = rotate (unat (bx_tail bx) + 1) (bx_index bx)"

definition index_ok :: "nat \<Rightarrow> block_index \<Rightarrow> producer \<Rightarrow> bool" where
  "index_ok c bx p \<longleftrightarrow> blockIndex p = Some bx \<and> c \<le> 58 \<and> bx_capacity bx = 2 ^ c \<and>
     nextBlockIndexCapacity p = 2 ^ (c + 1) \<and> unat (bx_tail bx) < 2 ^ c \<and> length (bx_index bx) = 2 ^ c \<and>
     distinct (bx_index bx) \<and> set (bx_index bx) \<subseteq> {..< length (entries p)}"

definition entry_free :: "(u64 \<times> nat option) list \<Rightarrow> nat \<Rightarrow> bool" where
  "entry_free es e \<longleftrightarrow> fst (es ! e) = INVALID_BLOCK_BASE \<or> snd (es ! e) = None"

text \<open>The entries of the blocks in use, oldest first, and free entries before them.\<close>

definition index_rep :: "producer \<Rightarrow> (u64 \<times> nat) list \<Rightarrow> bool" where
  "index_rep p L \<longleftrightarrow> (\<exists>c bx fs us. index_ok c bx p \<and> ring bx = fs @ us \<and>
     map ((!) (entries p)) us = map (\<lambda>(b, r). (b, Some r)) L \<and> list_all (entry_free (entries p)) fs)"

lemma ring_length: "index_ok c bx p \<Longrightarrow> length (ring bx) = 2 ^ c \<and> ring bx \<noteq> [] \<and> distinct (ring bx) \<and>
    set (ring bx) \<subseteq> {..< length (entries p)}"
  by (auto simp: index_ok_def ring_def)

lemma tail_step:
  assumes "index_ok c bx p"
  shows "unat ((bx_tail bx + 1) AND (bx_capacity bx - 1)) = (unat (bx_tail bx) + 1) mod 2 ^ c"
proof -
  have "unat (bx_tail bx + 1) mod 2 ^ c = (unat (bx_tail bx) + 1) mod 2 ^ c"
    using unat_add_mod_power [of c "bx_tail bx" 1] assms by (simp add: index_ok_def)
  then show ?thesis using assms by (simp add: index_ok_def and_capacity)
qed

lemma ring_hd:
  assumes "index_ok c bx p"
  shows "bx_index bx ! unat ((bx_tail bx + 1) AND (bx_capacity bx - 1)) = hd (ring bx)"
proof -
  have "length (bx_index bx) = 2 ^ c" using assms by (simp add: index_ok_def)
  moreover from this have "bx_index bx \<noteq> []" by auto
  ultimately show ?thesis
    using hd_rotate_conv_nth [of "bx_index bx" "unat (bx_tail bx) + 1"] tail_step [OF assms] by (simp add: ring_def)
qed

lemma ring_advance:
  assumes "index_ok c bx p"
  shows "ring (bx\<lparr>bx_tail := (bx_tail bx + 1) AND (bx_capacity bx - 1)\<rparr>) = tl (ring bx) @ [hd (ring bx)]"
proof -
  have "ring (bx\<lparr>bx_tail := (bx_tail bx + 1) AND (bx_capacity bx - 1)\<rparr>) =
      rotate1 (rotate ((unat (bx_tail bx) + 1) mod 2 ^ c) (bx_index bx))"
    using tail_step [OF assms] by (simp add: ring_def)
  also have "\<dots> = rotate1 (ring bx)"
    using assms rotate_conv_mod [of "unat (bx_tail bx) + 1" "bx_index bx"] by (simp add: ring_def index_ok_def)
  finally show ?thesis using ring_length [OF assms] by (simp add: rotate1_hd_tl)
qed

lemma map_entries_update: "e \<notin> set us \<Longrightarrow> map ((!) (xs[e := v])) us = map ((!) xs) us"
  by (induction us) auto

lemma entries_free_update: "e \<notin> set fs \<Longrightarrow> list_all (entry_free (xs[e := v])) fs = list_all (entry_free xs) fs"
  by (induction fs) (auto simp: entry_free_def)

text \<open>Claiming the entry at the head of the ring.\<close>

lemma claim_entry_ring:
  assumes ok: "index_ok c bx p" and cl: "claim_entry start bx p = (e, p')"
  shows "e = hd (ring bx)" "\<exists>bx'. index_ok c bx' p' \<and> ring bx' = tl (ring bx) @ [e]"
    "entries p' = (entries p)[e := (start, snd (entries p ! e))]" "e < length (entries p)"
    "tailIndex p' = tailIndex p" "headIndex p' = headIndex p" "dequeueOptimisticCount p' = dequeueOptimisticCount p"
    "dequeueOvercommit p' = dequeueOvercommit p" "tailBlock p' = tailBlock p"
proof -
  have c: "e = bx_index bx ! unat ((bx_tail bx + 1) AND (bx_capacity bx - 1))"
    "p' = p\<lparr>entries := (entries p)[e := (start, snd (entries p ! e))],
       blockIndex := Some (bx\<lparr>bx_tail := (bx_tail bx + 1) AND (bx_capacity bx - 1)\<rparr>)\<rparr>"
    using cl by (auto simp: claim_entry_def Let_def)
  show e: "e = hd (ring bx)" using c(1) ring_hd [OF ok] by simp
  show "e < length (entries p)" using ring_length [OF ok] e by (metis hd_in_set lessThan_iff subsetD)
  have "index_ok c (bx\<lparr>bx_tail := (bx_tail bx + 1) AND (bx_capacity bx - 1)\<rparr>) p'"
    using ok tail_step [OF ok] by (simp add: index_ok_def c(2))
  then show "\<exists>bx'. index_ok c bx' p' \<and> ring bx' = tl (ring bx) @ [e]" using ring_advance [OF ok] e by blast
qed (use cl in \<open>auto simp: claim_entry_def Let_def\<close>)

text \<open>The claimed entry gets its block.\<close>

lemma claim_then_value:
  assumes ok: "index_ok c bx p" and r: "ring bx = f # fs @ us" and cl: "claim_entry start bx p = (e, p')"
    and us: "map ((!) (entries p)) us = map (\<lambda>(b, r). (b, Some r)) L" and fs: "list_all (entry_free (entries p)) fs"
  shows "index_rep (set_value e (Some blk) p') (L @ [(start, blk)])"
proof -
  note k = claim_entry_ring [OF ok cl]
  obtain bx' where bx': "index_ok c bx' p'" "ring bx' = fs @ us @ [e]" using k(2) r by auto
  have ne: "e = f" "f \<notin> set fs" "f \<notin> set us" using k(1) r ring_length [OF ok] by auto
  let ?p = "set_value e (Some blk) p'"
  have "entries ?p = (entries p)[e := (start, Some blk)]" using k(3,4) by (simp add: set_value_def)
  then have en: "entries (set_value f (Some blk) p') = (entries p)[f := (start, Some blk)]" using ne by simp
  have "index_ok c bx' ?p" using bx'(1) by (simp add: index_ok_def set_value_def)
  moreover have "map ((!) (entries ?p)) (us @ [e]) = map (\<lambda>(b, r). (b, Some r)) (L @ [(start, blk)])"
    using us ne k(4) by (simp add: en map_entries_update)
  moreover have "list_all (entry_free (entries ?p)) fs"
    using fs ne by (simp add: en entries_free_update)
  ultimately show ?thesis using bx'(2) unfolding index_rep_def by fastforce
qed

text \<open>A claimed entry that gets no block is given back.\<close>

lemma ring_rewind:
  assumes ok: "index_ok c bx p"
  shows "ring (bx\<lparr>bx_tail := (bx_tail bx - 1) AND (bx_capacity bx - 1)\<rparr>) = last (ring bx) # butlast (ring bx) \<and>
    index_ok c (bx\<lparr>bx_tail := (bx_tail bx - 1) AND (bx_capacity bx - 1)\<rparr>) (rewind_block_index_tail p)"
proof -
  let ?bx = "bx\<lparr>bx_tail := (bx_tail bx - 1) AND (bx_capacity bx - 1)\<rparr>"
  have u: "unat (bx_tail ?bx) < 2 ^ c" using ok by (simp add: index_ok_def and_capacity)
  have o: "index_ok c ?bx (rewind_block_index_tail p)"
    using ok u by (auto simp: index_ok_def rewind_block_index_tail_def)
  have "(bx_tail ?bx + 1) AND (bx_capacity ?bx - 1) = bx_tail bx"
  proof -
    have c: "bx_capacity bx = 2 ^ c" "c \<le> 64" "unat (bx_tail bx) < 2 ^ c" using ok by (simp_all add: index_ok_def)
    have "unat ((bx_tail ?bx + 1) AND (bx_capacity ?bx - 1)) = unat (bx_tail bx)"
      using c(3) unat_add_mod_power [OF c(2), of "bx_tail bx - 1" 1]
      by (simp add: c(1) and_capacity unat_add_mod_power [OF c(2)] mod_Suc_eq)
    then show ?thesis by (simp add: word_unat_eq_iff)
  qed
  then have "bx = ?bx\<lparr>bx_tail := (bx_tail ?bx + 1) AND (bx_capacity ?bx - 1)\<rparr>" by simp
  then have "ring bx = tl (ring ?bx) @ [hd (ring ?bx)]" using ring_advance [OF o] by metis
  then show ?thesis using o ring_length [OF o] by simp
qed

text \<open>A full ring grows: the new entries come in front of the old ones.\<close>

lemma length_copy_index [simp]: "length (copy_index n pos prev) = n"
  by (induction n arbitrary: pos) (simp_all add: Let_def)

lemma copy_index_nth:
  assumes "bx_capacity prev = 2 ^ c" "c \<le> 58"
  shows "k < n \<Longrightarrow> copy_index n pos prev ! k = bx_index prev ! ((unat pos + 1 + k) mod 2 ^ c)"
proof (induction n arbitrary: pos k)
  case (Suc n)
  have u: "unat ((pos + 1) AND (2 ^ c - 1)) = (unat pos + 1) mod 2 ^ c"
    using unat_add_mod_power [of c pos 1] assms by (simp add: and_capacity)
  show ?case
  proof (cases k)
    case (Suc j)
    have "(unat ((pos + 1) AND (2 ^ c - 1)) + 1 + j) mod 2 ^ c = (unat pos + 1 + k) mod 2 ^ c"
      using mod_add_left_eq [of "unat pos + 1" "2 ^ c" "1 + j"] by (simp only: u Suc) (simp add: ac_simps)
    then show ?thesis
      using Suc Suc.prems Suc.IH [of j "(pos + 1) AND (2 ^ c - 1)"] assms by (simp add: Let_def)
  qed (use u assms in \<open>simp add: Let_def\<close>)
qed simp

lemma copy_index_ring:
  assumes "index_ok c bx p"
  shows "copy_index (unat (bx_capacity bx)) (bx_tail bx) bx = ring bx"
proof -
  have c: "bx_capacity bx = 2 ^ c" "c \<le> 58" "length (bx_index bx) = 2 ^ c" using assms by (simp_all add: index_ok_def)
  have u: "unat (bx_capacity bx) = 2 ^ c" using c by (simp add: unat_2_power)
  show ?thesis
    by (rule nth_equalityI) (use c u in \<open>simp_all add: copy_index_nth [OF c(1,2)] ring_def nth_rotate ac_simps del: rotate_Suc\<close>)
qed

lemma new_block_index_ring:
  assumes ok: "index_ok c bx p" and c: "c < 58" and n: "new_block_index True stale p = (True, p')"
  shows "\<exists>bx' news. index_ok (c + 1) bx' p' \<and> blockIndex p' = Some bx' \<and> ring bx' = news @ ring bx \<and>
      news \<noteq> [] \<and> set news \<inter> set (ring bx) = {} \<and> (\<forall>e \<in> set news. fst (entries p' ! e) = INVALID_BLOCK_BASE)"
    "\<forall>e < length (entries p). entries p' ! e = entries p ! e"
    "tailIndex p' = tailIndex p" "headIndex p' = headIndex p" "dequeueOptimisticCount p' = dequeueOptimisticCount p"
    "dequeueOvercommit p' = dequeueOvercommit p" "tailBlock p' = tailBlock p"
proof -
  have k: "blockIndex p = Some bx" "bx_capacity bx = 2 ^ c" "nextBlockIndexCapacity p = 2 ^ (c + 1)"
    "length (bx_index bx) = 2 ^ c" using ok by (simp_all add: index_ok_def)
  let ?n = "length (entries p)"
  let ?news = "[?n ..< ?n + 2 ^ c]"
  let ?tail = "(2 ^ c - 1) AND (2 ^ (c + 1) - 1) :: u64"
  let ?bx = "\<lparr>bx_capacity = 2 ^ (c + 1), bx_tail = ?tail, bx_index = ring bx @ ?news\<rparr>"
  have u: "unat (2 ^ c :: u64) = 2 ^ c" "unat (2 ^ (c + 1) :: u64) = 2 ^ (c + 1)" using c by (simp_all only: unat_2_power)
  have p': "p' = p\<lparr>entries := entries p @ replicate (2 ^ c) (INVALID_BLOCK_BASE, stale), blockIndex := Some ?bx,
      nextBlockIndexCapacity := 2 ^ (c + 2)\<rparr>"
    using n k u copy_index_ring [OF ok] by (auto simp: new_block_index_def Let_def push_bit_eq_mult)
  have t: "unat ?tail = 2 ^ c - 1"
  proof -
    have "unat (2 ^ c - 1 :: u64) = 2 ^ c - 1"
      using u(1) by (metis unat_minus_one power_not_zero zero_neq_numeral unat_0)
    moreover have "(2 :: nat) ^ c - 1 < 2 ^ (c + 1)" by (simp add: less_imp_diff_less)
    ultimately show ?thesis by (simp only: and_capacity mod_less)
  qed
  have "index_ok (c + 1) ?bx p'"
    using c t ring_length [OF ok] unfolding index_ok_def p' by (auto intro: le_less_trans [OF diff_le_self])
  moreover have "ring ?bx = ?news @ ring bx"
    using t rotate_append [of "ring bx" ?news] ring_length [OF ok] by (simp add: ring_def)
  moreover have "set ?news \<inter> set (ring bx) = {}" using ring_length [OF ok] by auto
  moreover have "\<forall>e \<in> set ?news. fst (entries p' ! e) = INVALID_BLOCK_BASE" by (auto simp: p' nth_append)
  moreover have "?news \<noteq> []" by simp
  ultimately show "\<exists>bx' news. index_ok (c + 1) bx' p' \<and> blockIndex p' = Some bx' \<and> ring bx' = news @ ring bx \<and>
      news \<noteq> [] \<and> set news \<inter> set (ring bx) = {} \<and> (\<forall>e \<in> set news. fst (entries p' ! e) = INVALID_BLOCK_BASE)"
    unfolding index_ok_def by blast
qed (use n in \<open>auto simp: new_block_index_def Let_def nth_append split: option.splits\<close>)

section \<open>The index of a list of blocks\<close>

text \<open>What inserting an entry promises: without an entry nothing has changed; with one, it can
  be given a block, or given back.\<close>

definition inserted :: "u64 \<Rightarrow> (u64 \<times> nat) list \<Rightarrow> producer \<Rightarrow> nat option \<times> producer \<Rightarrow> bool" where
  "inserted start L p r \<longleftrightarrow>
     (case r of
        (None, p') \<Rightarrow> p' = p
      | (Some e, p') \<Rightarrow>
          (\<forall>blk. index_rep (set_value e (Some blk) p') (L @ [(start, blk)])) \<and>
          index_rep (set_value e None (rewind_block_index_tail p')) L \<and>
          tailIndex p' = tailIndex p \<and> headIndex p' = headIndex p \<and> dequeueOptimisticCount p' = dequeueOptimisticCount p \<and>
          dequeueOvercommit p' = dequeueOvercommit p \<and> tailBlock p' = tailBlock p)"

text \<open>A claimed entry that gets no block is given back.\<close>

lemma claim_then_rewind:
  assumes ok: "index_ok c bx p" and r: "ring bx = f # fs @ us" and cl: "claim_entry start bx p = (e, p')"
    and us: "map ((!) (entries p)) us = map (\<lambda>(b, r). (b, Some r)) L" and fs: "list_all (entry_free (entries p)) fs"
  shows "index_rep (set_value e None (rewind_block_index_tail p')) L"
proof -
  note k = claim_entry_ring [OF ok cl]
  obtain bx' where bx': "index_ok c bx' p'" "ring bx' = fs @ us @ [e]" using k(2) r by auto
  have ne: "e = f" "f \<notin> set fs" "f \<notin> set us" using k(1) r ring_length [OF ok] by auto
  let ?p = "rewind_block_index_tail p'"
  obtain bx2 where bx2: "index_ok c bx2 ?p" "ring bx2 = e # fs @ us"
    using ring_rewind [OF bx'(1)] bx'(2) by (metis append.assoc append_is_Nil_conv butlast_snoc last_snoc)
  have "entries ?p = entries p'" by (simp add: rewind_block_index_tail_def split: option.split)
  then have en: "entries (set_value e None ?p) = (entries p)[e := (start, None)]"
    using k(3,4) by (simp add: set_value_def)
  have nu: "e \<notin> set us" using ne by simp
  have "index_ok c bx2 (set_value e None ?p)" using bx2(1) by (simp add: index_ok_def set_value_def)
  moreover have "map ((!) (entries (set_value e None ?p))) us = map (\<lambda>(b, r). (b, Some r)) L"
    by (simp only: en map_entries_update [OF nu] us)
  moreover have "list_all (entry_free (entries (set_value e None ?p))) (e # fs)"
    using fs ne(2)[folded ne(1)] k(4) by (simp only: en list.pred_inject(2) entries_free_update not_False_eq_True) (simp add: entry_free_def)
  ultimately show ?thesis using bx2(2) unfolding index_rep_def by (metis append_Cons)
qed

lemma claim_inserted:
  assumes ok: "index_ok c bx p" and r: "ring bx = f # fs @ us"
    and us: "map ((!) (entries p)) us = map (\<lambda>(b, r). (b, Some r)) L" and fs: "list_all (entry_free (entries p)) fs"
    and cl: "claim_entry start bx p = (e, p')"
    and same: "tailIndex p = tailIndex p0" "headIndex p = headIndex p0" "dequeueOptimisticCount p = dequeueOptimisticCount p0"
    "dequeueOvercommit p = dequeueOvercommit p0" "tailBlock p = tailBlock p0"
  shows "inserted start L p0 (Some e, p')"
  using claim_then_value [OF ok r cl us fs] claim_then_rewind [OF ok r cl us fs] claim_entry_ring(5-9) [OF ok cl] same
  by (simp add: inserted_def)

lemma insert_inserted:
  assumes rep: "index_rep p L" and valid: "\<forall>(b, r) \<in> set L. b \<noteq> INVALID_BLOCK_BASE" and len: "length L < 2 ^ 58"
  shows "\<exists>r. insert_block_index_entry can_alloc mem stale start p = Some r \<and> inserted start L p r \<and>
    (can_alloc \<and> mem \<longrightarrow> fst r \<noteq> None)"
proof -
  obtain c bx fs us where ix: "index_ok c bx p" "ring bx = fs @ us"
    "map ((!) (entries p)) us = map (\<lambda>(b, r). (b, Some r)) L" "list_all (entry_free (entries p)) fs"
    using rep by (auto simp: index_rep_def)
  have bx: "blockIndex p = Some bx" using ix(1) by (simp add: index_ok_def)
  note hd = ring_hd [OF ix(1)]
  show ?thesis
  proof (cases fs)
    case (Cons f gs)
    obtain e p' where cl: "claim_entry start bx p = (e, p')" by force
    have "inserted start L p (Some e, p')"
      using claim_inserted [OF ix(1) _ ix(3) _ cl] ix(2,4) Cons by simp
    moreover have "entry_free (entries p) f" using ix(4) Cons by simp
    ultimately show ?thesis
      using hd ix(2) Cons cl by (simp add: insert_block_index_entry_def bx Let_def entry_free_def)
  next
    case Nil
    have u: "us \<noteq> []" "length us = 2 ^ c" using ring_length [OF ix(1)] ix(2) Nil by auto
    have L: "length L = 2 ^ c" using ix(3) u by (metis length_map)
    then have c: "c < 58" using len by (simp only: power_strict_increasing_iff one_less_numeral_iff semiring_norm)
    obtain b r L' where L': "L = (b, r) # L'" using u(1) ix(3) by (cases L) auto
    have h: "entries p ! hd us = (b, Some r)" using ix(3) L' u(1) by (cases us) auto
    have nf: "fst (entries p ! hd (ring bx)) \<noteq> INVALID_BLOCK_BASE" "snd (entries p ! hd (ring bx)) = Some r"
      using h valid L' ix(2) Nil by simp_all
    show ?thesis
    proof (cases "can_alloc \<and> mem")
      case False
      then show ?thesis
        using nf hd by (auto simp: insert_block_index_entry_def bx Let_def entry_free_def inserted_def new_block_index_def)
    next
      case True
      obtain p1 where n: "new_block_index True stale p = (True, p1)" by (simp add: new_block_index_def Let_def)
      note g = new_block_index_ring [OF ix(1) c n]
      obtain bx1 news where b1: "index_ok (c + 1) bx1 p1" "blockIndex p1 = Some bx1" "ring bx1 = news @ ring bx"
        "news \<noteq> []" "set news \<inter> set (ring bx) = {}" "\<forall>e \<in> set news. fst (entries p1 ! e) = INVALID_BLOCK_BASE"
        using g(1) by blast
      obtain e p' where cl: "claim_entry start bx1 p1 = (e, p')" by force
      have "map ((!) (entries p1)) us = map ((!) (entries p)) us"
        using g(2) ring_length [OF ix(1)] ix(2) Nil by auto
      then have us1: "map ((!) (entries p1)) us = map (\<lambda>(b, r). (b, Some r)) L" using ix(3) by simp
      have fr: "list_all (entry_free (entries p1)) (tl news)"
        using b1(6) by (auto simp: list_all_iff entry_free_def dest: list.set_sel(2) [OF b1(4)])
      have "inserted start L p (Some e, p')"
        by (rule claim_inserted [OF b1(1) _ us1 fr cl, of "hd news"]) (use b1(3,4) ix(2) Nil g in simp_all)
      moreover have "fst (entries p1 ! hd (ring bx1)) = INVALID_BLOCK_BASE" using b1(3,4,6) by simp
      ultimately show ?thesis
        using True nf hd n cl b1(2) ring_hd [OF b1(1)]
        by (simp add: insert_block_index_entry_def bx Let_def entry_free_def)
    qed
  qed
qed

text \<open>Blocks that follow each other, from the base of the first.\<close>

fun blocks_from :: "u64 \<Rightarrow> nat list \<Rightarrow> (u64 \<times> nat) list" where
  "blocks_from b [] = []"
| "blocks_from b (r # rs) = (b, r) # blocks_from (b + 32) rs"

lemma length_blocks_from [simp]: "length (blocks_from b rs) = length rs"
  by (induction rs arbitrary: b) simp_all

lemma blocks_from_nth: "j < length rs \<Longrightarrow> blocks_from b rs ! j = (b + 32 * of_nat j, rs ! j)"
  by (induction rs arbitrary: b j) (auto simp: nth_Cons algebra_simps split: nat.split)

lemma blocks_from_append: "blocks_from b (rs @ [r]) = blocks_from b rs @ [(b + 32 * of_nat (length rs), r)]"
  by (induction rs arbitrary: b) (simp_all add: algebra_simps)

lemma slot_plus_32: "slot (b + 32 * of_nat j) = slot b"
  using slot_add [of b "32 * j"] by simp

lemma blocks_from_valid:
  assumes "slot b = 0"
  shows "\<forall>(b', r) \<in> set (blocks_from b rs). b' \<noteq> INVALID_BLOCK_BASE"
proof -
  have i: "slot INVALID_BLOCK_BASE = 1" by (simp add: slot_mod INVALID_BLOCK_BASE_def)
  have "b + 32 * of_nat j \<noteq> INVALID_BLOCK_BASE" for j using assms i slot_plus_32 [of b j] by auto
  then show ?thesis by (auto simp: in_set_conv_nth blocks_from_nth)
qed

text \<open>The offset is the quotient of unsigned numbers; it is right modulo the capacity.\<close>

lemma offset_steps:
  assumes d: "d < 2 ^ 58" and c: "c \<le> 58"
  shows "unat (t + (- (32 * of_nat d :: u64)) div 32) mod 2 ^ c = (unat t + (2 ^ 59 - d)) mod 2 ^ c"
proof (cases "d = 0")
  case True
  have "(2 :: nat) ^ c dvd 2 ^ 59" using c by (intro le_imp_power_dvd) simp
  then show ?thesis using True by (auto elim!: dvdE simp: mod_mult_self2 simp del: power_numeral)
next
  case False
  have "unat (- (32 * of_nat d) :: u64) = 2 ^ 64 - 32 * d" using unat_minus [of "32 * d"] d False by simp
  then have "unat ((- (32 * of_nat d) :: u64) div 32) = 2 ^ 59 - d" using d by (simp add: unat_div)
  then show ?thesis using unat_add_mod_power [of c t] c by simp
qed

lemma offset_between:
  assumes a: "a < 2 ^ 58" and k: "k < 2 ^ 58" and c: "c \<le> 58"
  shows "unat (t + (32 * of_nat k - 32 * of_nat a :: u64) div 32) mod 2 ^ c = (unat t + (k + (2 ^ 59 - a))) mod 2 ^ c"
proof (cases "a \<le> k")
  case True
  have "(32 * of_nat k - 32 * of_nat a :: u64) = of_nat (32 * (k - a))" using True by (simp add: of_nat_diff algebra_simps)
  moreover have "unat (of_nat (32 * (k - a)) :: u64) = 32 * (k - a)"
    using k by (simp add: unat_of_nat take_bit_nat_eq_self del: of_nat_mult)
  ultimately have u: "unat ((32 * of_nat k - 32 * of_nat a :: u64) div 32) = k - a" by (simp add: unat_div)
  have "(2 :: nat) ^ c dvd 2 ^ 59" using c by (intro le_imp_power_dvd) simp
  then obtain m where "(2 :: nat) ^ 59 = 2 ^ c * m" by (rule dvdE)
  then have "unat t + (k + (2 ^ 59 - a)) = unat t + (k - a) + 2 ^ c * m" using True a by simp
  then have "(unat t + (k + (2 ^ 59 - a))) mod 2 ^ c = (unat t + (k - a)) mod 2 ^ c" by (simp only: mod_mult_self2)
  then show ?thesis using unat_add_mod_power [of c t] u c by simp
next
  case False
  then have "(32 * of_nat k - 32 * of_nat a :: u64) = - (32 * of_nat (a - k))" by (simp add: of_nat_diff algebra_simps)
  moreover have "2 ^ 59 - (a - k) = k + (2 ^ 59 - a)" using False a by simp
  ultimately show ?thesis using offset_steps [of "a - k" c t] a c by simp
qed

lemma ring_nth:
  assumes "index_ok c bx p" "k < 2 ^ c"
  shows "ring bx ! k = bx_index bx ! ((unat (bx_tail bx) + 1 + k) mod 2 ^ c)"
  using assms by (simp add: ring_def index_ok_def nth_rotate ac_simps del: rotate_Suc)

lemma valid_base: "slot b = 0 \<Longrightarrow> b + 32 * of_nat k \<noteq> INVALID_BLOCK_BASE"
proof -
  assume "slot b = 0"
  moreover have "slot INVALID_BLOCK_BASE = 1" by (simp add: slot_mod INVALID_BLOCK_BASE_def)
  ultimately show ?thesis using slot_plus_32 [of b k] by auto
qed

text \<open>Looking up block \<open>k\<close> while the tail of the index is at block \<open>a\<close>, counted from the block at \<open>b\<close>.\<close>

lemma lookup_at:
  assumes ok: "index_ok c bx p" and b: "slot b = 0" and a: "a < 2 ^ 58" "k < 2 ^ 58"
    and tl: "fst (entries p ! (bx_index bx ! unat (bx_tail bx))) = b + 32 * of_nat a"
    and idx: "idx AND NOT (BLOCK_SIZE - 1) = b + 32 * of_nat k"
    and e: "entries p ! (bx_index bx ! ((unat (bx_tail bx) + (k + (2 ^ 59 - a))) mod 2 ^ c)) = (b + 32 * of_nat k, Some r)"
  shows "\<exists>i. get_block_index_index_for_index idx p = Some i \<and> unat i = (unat (bx_tail bx) + (k + (2 ^ 59 - a))) mod 2 ^ c"
proof -
  have c: "blockIndex p = Some bx" "bx_capacity bx = 2 ^ c" "c \<le> 58" using ok by (simp_all add: index_ok_def)
  let ?i = "(bx_tail bx + (b + 32 * of_nat k - (b + 32 * of_nat a)) div BLOCK_SIZE) AND (bx_capacity bx - 1)"
  have "b + 32 * of_nat k - (b + 32 * of_nat a) = 32 * of_nat k - (32 * of_nat a :: u64)" by simp
  then have u: "unat ?i = (unat (bx_tail bx) + (k + (2 ^ 59 - a))) mod 2 ^ c"
    using offset_between [OF a c(3), of "bx_tail bx"] by (simp only: c(2) and_capacity BLOCK_SIZE_def)
  have "get_block_index_index_for_index idx p = Some ?i"
    using e valid_base [OF b, of a] unfolding u [symmetric]
    by (simp add: get_block_index_index_for_index_def Let_def c(1) idx tl)
  then show ?thesis using u by blast
qed

text \<open>The position of the oldest block in use. Taking its block out moves it on.\<close>

definition index_at :: "nat \<Rightarrow> block_index \<Rightarrow> u64 \<Rightarrow> producer \<Rightarrow> (u64 \<times> nat) list \<Rightarrow> bool" where
  "index_at c bx i p L \<longleftrightarrow> (\<exists>fs us. index_ok c bx p \<and> ring bx = fs @ us \<and>
     map ((!) (entries p)) us = map (\<lambda>(b, r). (b, Some r)) L \<and> list_all (entry_free (entries p)) fs \<and>
     unat i = (unat (bx_tail bx) + 1 + length fs) mod 2 ^ c)"

lemma index_at_rep: "index_at c bx i p L \<Longrightarrow> index_rep p L"
  unfolding index_at_def index_rep_def by blast

lemma index_at_step:
  assumes "index_at c bx i p ((b, r) # L)"
  shows "entries p ! (bx_index bx ! unat i) = (b, Some r)"
    and "index_at c bx ((i + 1) AND (bx_capacity bx - 1)) (set_value (bx_index bx ! unat i) None p) L"
proof -
  obtain fs us where ix: "index_ok c bx p" "ring bx = fs @ us" "map ((!) (entries p)) us = map (\<lambda>(b, r). (b, Some r)) ((b, r) # L)"
    "list_all (entry_free (entries p)) fs" "unat i = (unat (bx_tail bx) + 1 + length fs) mod 2 ^ c"
    using assms by (auto simp: index_at_def)
  then obtain u vs where u: "us = u # vs" "entries p ! u = (b, Some r)" by (cases us) auto
  have "ring bx ! length fs = u" "length fs < 2 ^ c" using ix(2) u ring_length [OF ix(1)] by auto
  then have e: "bx_index bx ! unat i = u" using ring_nth [OF ix(1)] ix(5) by simp
  then show "entries p ! (bx_index bx ! unat i) = (b, Some r)" using u by simp
  have nv: "u \<notin> set vs" "u \<notin> set fs" "u < length (entries p)" using ring_length [OF ix(1)] ix(2) u by auto
  have en: "entries (set_value u None p) = (entries p)[u := (fst (entries p ! u), None)]" by (simp add: set_value_def)
  have "index_ok c bx (set_value u None p)" using ix(1) by (simp add: index_ok_def set_value_def)
  moreover have "ring bx = (fs @ [u]) @ vs" using ix(2) u by simp
  moreover have "map ((!) (entries (set_value u None p))) vs = map (\<lambda>(b, r). (b, Some r)) L"
    using ix(3) u by (simp add: en map_entries_update [OF nv(1)])
  moreover have "list_all (entry_free (entries (set_value u None p))) (fs @ [u])"
    using ix(4) nv by (simp add: en entries_free_update) (simp add: entry_free_def)
  moreover have "unat ((i + 1) AND (bx_capacity bx - 1)) = (unat (bx_tail bx) + 1 + length (fs @ [u])) mod 2 ^ c"
  proof -
    have "unat (i + 1) mod 2 ^ c = (unat i + 1) mod 2 ^ c"
      using unat_add_mod_power [of c i 1] ix(1) by (simp add: index_ok_def)
    also have "\<dots> = (unat (bx_tail bx) + 1 + length fs + 1) mod 2 ^ c" unfolding ix(5) by (rule mod_add_left_eq)
    finally show ?thesis using ix(1) by (simp add: index_ok_def and_capacity)
  qed
  ultimately show "index_at c bx ((i + 1) AND (bx_capacity bx - 1)) (set_value (bx_index bx ! unat i) None p) L"
    unfolding index_at_def e by blast
qed

lemma index_lookup_position:
  assumes rep: "index_rep p (blocks_from b rs)" and b: "slot b = 0" and j: "j < length rs"
    and len: "length rs \<le> 2 ^ 58" and idx: "idx AND NOT (BLOCK_SIZE - 1) = b + 32 * of_nat j"
  shows "\<exists>c bx i. get_block_index_index_for_index idx p = Some i \<and> blockIndex p = Some bx \<and>
    entries p ! (bx_index bx ! unat i) = (b + 32 * of_nat j, Some (rs ! j)) \<and>
    (j = 0 \<longrightarrow> index_at c bx i p (blocks_from b rs))"
proof -
  obtain c bx fs us where ix: "index_ok c bx p" "ring bx = fs @ us"
    "map ((!) (entries p)) us = map (\<lambda>(b, r). (b, Some r)) (blocks_from b rs)" "list_all (entry_free (entries p)) fs"
    using rep by (auto simp: index_rep_def)
  let ?m = "length rs" and ?t = "unat (bx_tail bx)"
  have m: "length us = ?m" using ix(3) by (metis length_map length_blocks_from)
  have lr: "length fs + ?m = 2 ^ c" using ring_length [OF ix(1)] ix(2) m by simp
  have c: "c \<le> 58" "blockIndex p = Some bx" "?t < 2 ^ c" using ix(1) by (simp_all add: index_ok_def)
  have ent: "entries p ! (bx_index bx ! ((?t + 1 + (length fs + k)) mod 2 ^ c)) = (b + 32 * of_nat k, Some (rs ! k))"
    if "k < ?m" for k
    using arg_cong [OF ix(3), of "\<lambda>xs. xs ! k"] that m ring_nth [OF ix(1), of "length fs + k"] ix(2) lr
    by (simp add: blocks_from_nth)
  have "?t + 1 + (length fs + (?m - 1)) = ?t + 2 ^ c" using lr j by simp
  then have last: "entries p ! (bx_index bx ! ?t) = (b + 32 * of_nat (?m - 1), Some (rs ! (?m - 1)))"
    using ent [of "?m - 1"] j c(3) by simp
  have pos: "(?t + (j + (2 ^ 59 - (?m - 1)))) mod 2 ^ c = (?t + 1 + (length fs + j)) mod 2 ^ c"
  proof -
    have "(2 :: nat) ^ c dvd 2 ^ 59" using c(1) by (intro le_imp_power_dvd) simp
    then obtain q where q: "(2 :: nat) ^ 59 = 2 ^ c * q" by (rule dvdE)
    have "?t + 1 + (length fs + j) + 2 ^ 59 = ?t + (j + (2 ^ 59 - (?m - 1))) + 2 ^ c" using lr j len by simp
    then show ?thesis by (metis q mod_mult_self2 mod_add_self2)
  qed
  have small: "?m - 1 < 2 ^ 58" "j < 2 ^ 58" using j len by linarith+
  obtain i where i: "get_block_index_index_for_index idx p = Some i" "unat i = (?t + 1 + (length fs + j)) mod 2 ^ c"
    using lookup_at [OF ix(1) b small _ idx, of "rs ! j"] ent [OF j] last unfolding pos by auto
  moreover have "index_at c bx i p (blocks_from b rs)" if "j = 0"
    unfolding index_at_def using ix i(2) that by (intro exI [of _ fs] exI [of _ us]) simp
  moreover have "entries p ! (bx_index bx ! unat i) = (b + 32 * of_nat j, Some (rs ! j))" using ent [OF j] i(2) by simp
  ultimately show ?thesis using c(2) by (intro exI [of _ c] exI [of _ bx] exI [of _ i]) simp
qed

lemma index_lookup:
  assumes "index_rep p (blocks_from b rs)" "slot b = 0" "j < length rs" "length rs \<le> 2 ^ 58"
    and "idx AND NOT (BLOCK_SIZE - 1) = b + 32 * of_nat j"
  shows "\<exists>e. get_block_index_entry_for_index idx p = Some e \<and> entries p ! e = (b + 32 * of_nat j, Some (rs ! j)) \<and>
    (j = 0 \<longrightarrow> index_rep (set_value e None p) (blocks_from (b + 32) (tl rs)))"
proof -
  obtain c bx i where i: "get_block_index_index_for_index idx p = Some i" "blockIndex p = Some bx"
    "entries p ! (bx_index bx ! unat i) = (b + 32 * of_nat j, Some (rs ! j))" "j = 0 \<longrightarrow> index_at c bx i p (blocks_from b rs)"
    using index_lookup_position [OF assms] by blast
  have "get_block_index_entry_for_index idx p = Some (bx_index bx ! unat i)"
    by (simp add: get_block_index_entry_for_index_def i)
  moreover have "index_rep (set_value (bx_index bx ! unat i) None p) (blocks_from (b + 32) (tl rs))" if "j = 0"
    using i(4) that assms(3) index_at_rep index_at_step(2) by (cases rs) fastforce+
  ultimately show ?thesis using i(3) by blast
qed

end
