(* ===== verification/Producer_Queue.thy ===== *)
theory Producer_Queue
  imports Producer_Refinement
begin

text \<open>
  One producer of the queue represents a list: \<open>producer_enqueue\<close> appends to it and
  \<open>producer_dequeue\<close> removes its head, over blocks that are taken from the pool of the queue
  and given back to it. Nothing a block of another producer holds is touched.
\<close>

section \<open>The list a producer represents\<close>

definition block_rep :: "'a pool \<Rightarrow> producer \<Rightarrow> nat list \<Rightarrow> 'a list \<Rightarrow> bool" where
  "block_rep q p rs xs \<longleftrightarrow>
     (let off = slot (headIndex p); n = length xs in
      index_rep p (blocks_from (headIndex p - of_nat off) rs) \<and> distinct rs \<and>
      tailIndex p = headIndex p + of_nat n \<and> dequeueOptimisticCount p = headIndex p \<and> dequeueOvercommit p = 0 \<and>
      (\<forall>r \<in> set rs. length (elements (blocks q r)) = 32) \<and>
      (\<forall>j < length rs. elementsCompletelyDequeued (blocks q (rs ! j)) = (if j = 0 then of_nat off else 0)) \<and>
      (\<forall>k < n. elements (blocks q (rs ! ((off + k) div 32))) ! ((off + k) mod 32) = Some (xs ! k)))"

text \<open>There are as many blocks as the elements need, and the index space is at most half full
  when the last block is.\<close>

definition rep :: "'a pool \<Rightarrow> producer \<Rightarrow> nat list \<Rightarrow> 'a list \<Rightarrow> bool" where
  "rep q p rs xs \<longleftrightarrow>
     block_rep q p rs xs \<and>
     (let t = slot (headIndex p) + length xs in
      length rs = (t + 31) div 32 \<and> length xs + (32 - t mod 32) mod 32 < 2 ^ 63 \<and>
      (rs \<noteq> [] \<longrightarrow> tailBlock p = Some (last rs)))"

text \<open>Only the producer's own blocks matter.\<close>

lemma block_index_less: "off < 32 \<Longrightarrow> k < n \<Longrightarrow> (off + n + 31) div 32 \<le> m \<Longrightarrow> (off + k) div 32 < (m :: nat)"
  by (auto simp: div_less_iff_less_mult intro: less_le_trans)

definition same_content :: "'a pool \<Rightarrow> 'a pool \<Rightarrow> nat \<Rightarrow> bool" where
  "same_content q' q r \<longleftrightarrow> elements (blocks q' r) = elements (blocks q r) \<and>
     elementsCompletelyDequeued (blocks q' r) = elementsCompletelyDequeued (blocks q r)"

lemma block_rep_content:
  assumes r: "block_rep q p rs xs" and f: "\<And>r. r \<in> set rs \<Longrightarrow> same_content q' q r"
    and l: "(slot (headIndex p) + length xs + 31) div 32 \<le> length rs"
  shows "block_rep q' p rs xs"
proof -
  have "same_content q' q (rs ! j)" if "j < length rs" for j using f that by simp
  moreover have "(slot (headIndex p) + k) div 32 < length rs" if "k < length xs" for k
    using block_index_less [OF slot_less that l] .
  ultimately show ?thesis using r f by (simp add: block_rep_def Let_def same_content_def)
qed

lemma block_rep_frame:
  assumes "block_rep q p rs xs" "\<And>r. r \<in> set rs \<Longrightarrow> blocks q' r = blocks q r"
    and "(slot (headIndex p) + length xs + 31) div 32 \<le> length rs"
  shows "block_rep q' p rs xs"
  using assms by (intro block_rep_content [OF assms(1)]) (simp_all add: same_content_def)

lemma rep_frame: "rep q p rs xs \<Longrightarrow> (\<And>r. r \<in> set rs \<Longrightarrow> blocks q' r = blocks q r) \<Longrightarrow> rep q' p rs xs"
  unfolding rep_def Let_def by (auto intro: block_rep_frame)

lemma make_producer_rep: "rep q (make_producer True stale) [] []"
proof -
  let ?p = "make_producer True stale"
  obtain bx where b: "blockIndex ?p = Some bx" "bx = \<lparr>bx_capacity = 32, bx_tail = 31, bx_index = [0..<32]\<rparr>"
    by (simp add: make_producer_def new_block_index_def Let_def)
  have "index_ok 5 bx ?p" using b by (auto simp: index_ok_def make_producer_def new_block_index_def Let_def)
  moreover have "list_all (entry_free (entries ?p)) (ring bx)"
  proof -
    have "fst (entries ?p ! e) = INVALID_BLOCK_BASE" if "e < 32" for e
      using that by (simp add: make_producer_def new_block_index_def Let_def)
    then show ?thesis by (auto simp: list_all_iff entry_free_def ring_def b)
  qed
  ultimately have "index_rep ?p []" unfolding index_rep_def by force
  moreover have "headIndex ?p = 0" "tailIndex ?p = 0" "dequeueOptimisticCount ?p = 0" "dequeueOvercommit ?p = 0"
    by (simp_all add: make_producer_def new_block_index_def Let_def)
  ultimately show ?thesis by (simp add: rep_def block_rep_def slot_mod)
qed

lemma rep_fields:
  "rep q p rs xs \<Longrightarrow> index_rep p' (blocks_from (headIndex p - of_nat (slot (headIndex p))) rs) \<Longrightarrow>
   tailIndex p' = tailIndex p \<Longrightarrow> headIndex p' = headIndex p \<Longrightarrow> dequeueOptimisticCount p' = dequeueOptimisticCount p \<Longrightarrow>
   dequeueOvercommit p' = dequeueOvercommit p \<Longrightarrow> tailBlock p' = tailBlock p \<Longrightarrow> rep q p' rs xs"
  by (simp add: rep_def block_rep_def Let_def)

lemma rewind_fields:
  "tailIndex (rewind_block_index_tail p) = tailIndex p" "headIndex (rewind_block_index_tail p) = headIndex p"
  "dequeueOptimisticCount (rewind_block_index_tail p) = dequeueOptimisticCount p"
  "dequeueOvercommit (rewind_block_index_tail p) = dequeueOvercommit p" "tailBlock (rewind_block_index_tail p) = tailBlock p"
  by (simp_all add: rewind_block_index_tail_def split: option.split)

lemma index_rep_fields [simp]:
  "index_rep (p\<lparr>tailBlock := x\<rparr>) L = index_rep p L" "index_rep (p\<lparr>tailIndex := i\<rparr>) L = index_rep p L"
  "index_rep (p\<lparr>headIndex := i\<rparr>) L = index_rep p L" "index_rep (p\<lparr>dequeueOptimisticCount := i\<rparr>) L = index_rep p L"
  by (simp_all add: index_rep_def index_ok_def)

section \<open>Enqueueing\<close>

text \<open>The element goes into the last block.\<close>

lemma put_element_blocks:
  "r' \<noteq> r \<Longrightarrow> blocks (put_element r i x q) r' = blocks q r'"
  "length (elements (blocks (put_element r i x q) r')) = length (elements (blocks q r'))"
  "elementsCompletelyDequeued (blocks (put_element r i x q) r') = elementsCompletelyDequeued (blocks q r')"
  "elements (blocks (put_element r i x q) r) = (elements (blocks q r))[slot i := x]"
  by (simp_all add: put_element_def)

lemma put_element_pool_ok: "pool_ok q U \<Longrightarrow> pool_ok (put_element r i x q) U"
  unfolding pool_ok_def initial_left_def put_element_blocks by (simp add: put_element_def)

lemma put_block_rep:
  assumes r: "block_rep q p rs xs" and l: "(slot (headIndex p) + length xs) div 32 < length rs"
    and b: "b = rs ! ((slot (headIndex p) + length xs) div 32)"
  shows "block_rep (put_element b (tailIndex p) (Some x) q) (p\<lparr>tailIndex := tailIndex p + 1\<rparr>) rs (xs @ [x])"
proof -
  let ?off = "slot (headIndex p)" and ?n = "length xs"
  let ?q = "put_element b (tailIndex p) (Some x) q"
  have tl: "tailIndex p = headIndex p + of_nat ?n" using r by (simp add: block_rep_def Let_def)
  have sl: "slot (tailIndex p) = (?off + ?n) mod 32" by (simp add: tl slot_add)
  have di: "distinct rs" using r by (simp add: block_rep_def Let_def)
  have el: "elements (blocks ?q (rs ! ((?off + k) div 32))) ! ((?off + k) mod 32) = Some ((xs @ [x]) ! k)"
    if k: "k < Suc ?n" for k
  proof (cases "k = ?n")
    case True
    have "length (elements (blocks q b)) = 32" using r l by (simp add: block_rep_def Let_def b)
    then show ?thesis using True by (simp add: b [symmetric] put_element_blocks sl)
  next
    case False
    then have kn: "k < ?n" using k by simp
    have old: "elements (blocks q (rs ! ((?off + k) div 32))) ! ((?off + k) mod 32) = Some (xs ! k)"
      using r kn by (simp add: block_rep_def Let_def)
    show ?thesis
    proof (cases "(?off + k) div 32 = (?off + ?n) div 32")
      case True
      then have "(?off + k) mod 32 \<noteq> (?off + ?n) mod 32" using kn using True by (metis add_left_cancel less_irrefl mult_div_mod_eq)
      then show ?thesis using old kn True by (simp add: b [symmetric] put_element_blocks sl nth_append)
    next
      case False
      moreover have "(?off + k) div 32 \<le> (?off + ?n) div 32" using kn by (intro div_le_mono) simp
      ultimately have "rs ! ((?off + k) div 32) \<noteq> b" using di l by (simp add: b nth_eq_iff_index_eq)
      then show ?thesis using old kn by (simp add: put_element_blocks nth_append)
    qed
  qed
  then show ?thesis using r by (simp add: block_rep_def Let_def put_element_blocks(2,3) add.commute del: One_nat_def)
qed

lemma store_rep:
  assumes r: "block_rep q p rs xs" and l: "length rs = Suc ((slot (headIndex p) + length xs) div 32)"
    and t: "tailBlock p = Some (last rs)"
    and b: "Suc (length xs) + (32 - Suc (slot (headIndex p) + length xs) mod 32) mod 32 < 2 ^ 63"
  shows "\<exists>q' p'. store_element x (q, p) = Some (True, q', p') \<and> rep q' p' rs (xs @ [x]) \<and>
    (\<forall>U. pool_ok q U \<longrightarrow> pool_ok q' U) \<and> (\<forall>r. r \<noteq> last rs \<longrightarrow> blocks q' r = blocks q r)"
proof -
  let ?off = "slot (headIndex p)"
  let ?q = "put_element (last rs) (tailIndex p) (Some x) q" and ?p = "p\<lparr>tailIndex := 1 + tailIndex p\<rparr>"
  have "rs \<noteq> []" using l by auto
  then have "last rs = rs ! ((?off + length xs) div 32)" using l by (simp add: last_conv_nth)
  then have "block_rep ?q ?p rs (xs @ [x])" using put_block_rep [OF r, of "last rs" x] l by (simp add: add.commute)
  moreover have "(?off + Suc (length xs) + 31) div 32 = length rs" using l by simp
  ultimately have "rep ?q ?p rs (xs @ [x])" using b t by (simp add: rep_def Let_def)
  moreover have "store_element x (q, p) = Some (True, ?q, ?p)" by (simp add: store_element_def t)
  ultimately show ?thesis by (auto simp: put_element_pool_ok put_element_blocks)
qed

text \<open>What an enqueue promises, where the blocks \<open>U\<close> are in use by all producers.\<close>

definition enqueued ::
  "'a pool \<Rightarrow> nat list \<Rightarrow> 'a list \<Rightarrow> nat set \<Rightarrow> 'a \<Rightarrow> bool \<times> 'a pool \<times> producer \<Rightarrow> bool" where
  "enqueued q rs xs U x r \<longleftrightarrow>
     (case r of (ok, q', p') \<Rightarrow>
       \<exists>rs'. rep q' p' rs' (if ok then xs @ [x] else xs) \<and> pool_ok q' (U \<union> set rs') \<and>
         set rs \<subseteq> set rs' \<and> set rs' \<inter> U = set rs \<and> (\<forall>u \<in> U - set rs. blocks q' u = blocks q u))"

lemma enqueuedI:
  "rep q' p' rs' (if ok then xs @ [x] else xs) \<Longrightarrow> pool_ok q' (U \<union> set rs') \<Longrightarrow> set rs \<subseteq> set rs' \<Longrightarrow>
   set rs' \<inter> U = set rs \<Longrightarrow> (\<And>u. u \<in> U \<Longrightarrow> u \<notin> set rs \<Longrightarrow> blocks q' u = blocks q u) \<Longrightarrow>
   enqueued q rs xs U x (ok, q', p')"
  by (auto simp: enqueued_def)

lemma slot_base: "slot (h - of_nat (slot h)) = 0"
proof -
  have "slot (h - of_nat (slot h)) = unat ((h AND NOT (BLOCK_SIZE - 1)) AND (BLOCK_SIZE - 1))"
    by (simp add: slot_def and_not_31 flip: slot_def)
  also have "(h AND NOT (BLOCK_SIZE - 1)) AND (BLOCK_SIZE - 1) = 0" by (rule bit_word_eqI) (simp add: bit_simps)
  finally show ?thesis by simp
qed

lemma circular_not_less: "n < 2 ^ 63 \<Longrightarrow> \<not> circular_less_than (a + of_nat n) a"
  by (simp add: circular_less_than_def word_less_nat_alt unat_of_nat take_bit_nat_eq_self)

lemma unat_mod_32: "w AND (BLOCK_SIZE - 1) = 0 \<longleftrightarrow> unat w mod 32 = 0"
  by (metis and_31 unat_eq_zero)

lemma add_31_div: "((t :: nat) + 31) div 32 = (if t mod 32 = 0 then t div 32 else Suc (t div 32))"
proof -
  have "(t + 31) div 32 = (32 * (t div 32) + (t mod 32 + 31)) div 32" by simp
  also have "\<dots> = t div 32 + (t mod 32 + 31) div 32" by (rule div_mult_self4) simp
  also have "(t mod 32 + 31) div 32 = (if t mod 32 = 0 then 0 else 1)"
    using mod_less_divisor [of 32 t] by (auto intro: div_nat_eqI)
  finally show ?thesis by simp
qed

lemma blocks_padding: "32 * (((t :: nat) + 31) div 32) = t + (32 - t mod 32) mod 32"
proof (cases "t mod 32 = 0")
  case False
  have "32 * (t div 32) + t mod 32 = t" "t mod 32 < 32" by simp_all
  moreover have "(t + 31) div 32 = Suc (t div 32)" "(32 - t mod 32) mod 32 = 32 - t mod 32"
    using False by (simp_all add: add_31_div)
  ultimately show ?thesis by linarith
qed (auto simp: add_31_div)

lemma enqueue_in_block:
  assumes r: "rep q p rs xs" and ok: "pool_ok q U" "set rs \<subseteq> U" and t: "(slot (headIndex p) + length xs) mod 32 \<noteq> 0"
  shows "\<exists>q' p'. producer_enqueue ms ca im bm stale x (q, p) = Some (True, q', p') \<and> enqueued q rs xs U x (True, q', p')"
proof -
  let ?t = "slot (headIndex p) + length xs"
  have k: "block_rep q p rs xs" "length rs = (?t + 31) div 32" "length xs + (32 - ?t mod 32) mod 32 < 2 ^ 63"
    "rs \<noteq> [] \<longrightarrow> tailBlock p = Some (last rs)" using r t by (simp_all add: rep_def Let_def)
  have l: "length rs = Suc (?t div 32)" using k(2) add_31_div [of ?t] t by simp
  then have tb: "tailBlock p = Some (last rs)" using k(4) by auto
  have "(32 - ?t mod 32) mod 32 = Suc ((32 - Suc ?t mod 32) mod 32)" using t by (cases "?t mod 32 = 31") (auto simp: mod_Suc)
  then have b: "Suc (length xs) + (32 - Suc ?t mod 32) mod 32 < 2 ^ 63" using k(3) by simp
  have "unat (tailIndex p) mod 32 = ?t mod 32"
    using k(1) slot_add [of "headIndex p" "length xs"] by (simp add: block_rep_def Let_def slot_mod)
  then have na: "tailIndex p AND (BLOCK_SIZE - 1) \<noteq> 0" using t by (simp add: unat_mod_32)
  obtain q' p' where s: "store_element x (q, p) = Some (True, q', p')" "rep q' p' rs (xs @ [x])"
    "\<forall>U. pool_ok q U \<longrightarrow> pool_ok q' U" "\<forall>r. r \<noteq> last rs \<longrightarrow> blocks q' r = blocks q r"
    using store_rep [OF k(1) l tb b] by blast
  have la: "last rs \<in> set rs" using l by (intro last_in_set) auto
  have "U \<union> set rs = U" "set rs \<inter> U = set rs" using ok(2) by blast+
  then have "enqueued q rs xs U x (True, q', p')"
    using s(2,3) ok(1) by (intro enqueuedI [where rs' = rs]) (use s(4) la in \<open>simp, simp, simp, simp, metis\<close>)
  then show ?thesis using s(1) na by (simp add: producer_enqueue_def)
qed

text \<open>One more block behind the others.\<close>

lemma block_rep_append:
  assumes r: "block_rep q p rs xs" and l: "(slot (headIndex p) + length xs + 31) div 32 \<le> length rs"
    and base: "start = headIndex p - of_nat (slot (headIndex p)) + 32 * of_nat (length rs)"
    and ins: "inserted start (blocks_from (headIndex p - of_nat (slot (headIndex p))) rs) p (Some e, p1)"
    and b: "b \<notin> set rs" "length (elements (blocks q' b)) = 32" "elementsCompletelyDequeued (blocks q' b) = 0"
    and same: "\<And>r. r \<in> set rs \<Longrightarrow> same_content q' q r"
  shows "block_rep q' ((set_value e (Some b) p1)\<lparr>tailBlock := t\<rparr>) (rs @ [b]) xs"
proof -
  let ?off = "slot (headIndex p)" and ?n = "length xs" and ?p = "(set_value e (Some b) p1)\<lparr>tailBlock := t\<rparr>"
  have h: "headIndex ?p = headIndex p" "tailIndex ?p = tailIndex p" using ins by (simp_all add: inserted_def set_value_def)
  have ir: "index_rep ?p (blocks_from (headIndex p - of_nat ?off) (rs @ [b]))"
    using ins by (simp add: inserted_def blocks_from_append base)
  note old = block_rep_content [where q' = q', OF r same l]
  have "?off = 0" if "rs = []" using l that by (simp add: div_eq_0_iff)
  then have edc: "elementsCompletelyDequeued (blocks q' ((rs @ [b]) ! j)) = (if j = 0 then of_nat ?off else 0)"
    if "j < length (rs @ [b])" for j
    using old b(3) that by (cases "j < length rs") (auto simp: block_rep_def Let_def nth_append less_Suc_eq)
  have els: "elements (blocks q' ((rs @ [b]) ! ((?off + j) div 32))) ! ((?off + j) mod 32) = Some (xs ! j)" if "j < ?n" for j
    using old block_index_less [OF slot_less that l] that by (simp add: block_rep_def Let_def nth_append)
  show ?thesis
    unfolding block_rep_def Let_def h
  proof (intro conjI allI impI ir edc els)
    show "distinct (rs @ [b])" using old b(1) by (simp add: block_rep_def Let_def)
    show "\<forall>r \<in> set (rs @ [b]). length (elements (blocks q' r)) = 32" using old b(2) by (simp add: block_rep_def Let_def)
  qed (use old ins in \<open>simp_all add: block_rep_def Let_def inserted_def set_value_def\<close>)
qed

text \<open>The position behind the last block, when the elements fill the blocks.\<close>

lemma next_base:
  assumes "tailIndex p = headIndex p + of_nat n" "slot (headIndex p) + n = 32 * m"
  shows "headIndex p - of_nat (slot (headIndex p)) + 32 * of_nat m = tailIndex p"
proof -
  have "(of_nat (slot (headIndex p)) + of_nat n :: u64) = 32 * of_nat m"
    using assms(2) by (metis of_nat_add of_nat_mult of_nat_numeral)
  then show ?thesis using assms(1) by (simp add: algebra_simps)
qed

lemma enqueue_new_block:
  assumes r: "rep q p rs xs" and ok: "pool_ok q U" "set rs \<subseteq> U" and t: "(slot (headIndex p) + length xs) mod 32 = 0"
    and n: "length xs + 32 < 2 ^ 63" and ins: "inserted (tailIndex p) (blocks_from (headIndex p - of_nat (slot (headIndex p))) rs) p (Some e, p1)"
    and req: "requisition_block ca bm q = (Some b, q1)"
  shows "\<exists>q' p'. store_element x (q1\<lparr>blocks := (blocks q1)(b := reset_empty (blocks q1 b))\<rparr>, (set_value e (Some b) p1)\<lparr>tailBlock := Some b\<rparr>) =
      Some (True, q', p') \<and> enqueued q rs xs U x (True, q', p')"
proof -
  let ?off = "slot (headIndex p)" and ?n = "length xs"
  let ?t = "?off + ?n" and ?q = "q1\<lparr>blocks := (blocks q1)(b := reset_empty (blocks q1 b))\<rparr>"
    and ?p = "(set_value e (Some b) p1)\<lparr>tailBlock := Some b\<rparr>"
  have k: "block_rep q p rs xs" "length rs = ?t div 32" "length rs = (?t + 31) div 32" using r t by (auto simp: rep_def Let_def)
  have c: "b \<notin> U" "pool_ok q1 (insert b U)" "\<forall>u \<in> U. blocks q1 u = blocks q u"
    using requisition_block_ok [OF ok(1) req] by auto
  have lb: "length (elements (blocks q1 b)) = 32" using pool_ok_used [OF c(2)] by simp
  have h: "headIndex ?p = headIndex p" "tailIndex ?p = tailIndex p" using ins by (simp_all add: inserted_def set_value_def)
  have "?t = 32 * length rs" using k(2) t by auto
  then have base: "tailIndex p = headIndex p - of_nat ?off + 32 * of_nat (length rs)"
    using next_base [of p ?n "length rs"] k(1) by (simp add: block_rep_def Let_def)
  have nb: "b \<notin> set rs" using c(1) ok(2) by blast
  have same: "blocks ?q u = blocks q u" if "u \<in> U" for u using c that by auto
  have "block_rep ?q ?p (rs @ [b]) xs"
  proof (rule block_rep_append [OF k(1) _ base ins nb])
    show "same_content ?q q r" if "r \<in> set rs" for r unfolding same_content_def same [OF subsetD [OF ok(2) that]] by simp
  qed (use k(3) lb in \<open>simp_all add: reset_empty_def\<close>)
  moreover have "length (rs @ [b]) = Suc (?t div 32)" using k(2) by simp
  moreover have "Suc ?n + (32 - Suc ?t mod 32) mod 32 < 2 ^ 63" using n t by (simp add: mod_Suc)
  ultimately obtain q' p' where s: "store_element x (?q, ?p) = Some (True, q', p')" "rep q' p' (rs @ [b]) (xs @ [x])"
    "\<forall>U. pool_ok ?q U \<longrightarrow> pool_ok q' U" "\<forall>r. r \<noteq> b \<longrightarrow> blocks q' r = blocks ?q r"
    using store_rep [of ?q ?p "rs @ [b]" xs x] h by auto
  have "pool_ok ?q (insert b U)" using c(2) lb by (intro pool_ok_update) (simp_all add: reset_empty_def)
  moreover have "U \<union> set (rs @ [b]) = insert b U" "set (rs @ [b]) \<inter> U = set rs" using ok(2) c(1) by auto
  moreover have "blocks q' u = blocks q u" if "u \<in> U" for u using s(4) same [OF that] that c(1) by metis
  ultimately have "enqueued q rs xs U x (True, q', p')"
    using s(2,3) by (intro enqueuedI [where rs' = "rs @ [b]"]) auto
  then show ?thesis using s(1) by blast
qed

lemma enqueue_nothing:
  assumes "rep q p' rs xs" "pool_ok q U" "set rs \<subseteq> U"
  shows "enqueued q rs xs U x (False, q, p')"
proof -
  have "U \<union> set rs = U" "set rs \<inter> U = set rs" using assms(3) by blast+
  then show ?thesis using assms by (intro enqueuedI [where rs' = rs]) simp_all
qed

text \<open>\<open>enqueue\<close> never fails an assertion. It appends the element, or has no effect; it may
  refuse only for want of memory, by the size limit, or when half the index space is used.\<close>

lemma producer_enqueue_correct:
  assumes r: "rep q p rs xs" and ok: "pool_ok q U" "set rs \<subseteq> U"
  shows "\<exists>r. producer_enqueue ms ca im bm stale x (q, p) = Some r \<and> enqueued q rs xs U x r \<and>
    (ms = - 1 \<and> ca \<and> im \<and> bm \<and> length xs + 32 < 2 ^ 63 \<longrightarrow> fst r)"
proof (cases "(slot (headIndex p) + length xs) mod 32 = 0")
  case False
  then show ?thesis using enqueue_in_block [OF r ok] by fastforce
next
  case True
  let ?n = "length xs" and ?off = "slot (headIndex p)"
  have k: "tailIndex p = headIndex p + of_nat ?n" "?n < 2 ^ 63" "length rs = (?off + ?n) div 32"
    "index_rep p (blocks_from (headIndex p - of_nat ?off) rs)"
    using r True by (auto simp: rep_def block_rep_def Let_def)
  have al: "tailIndex p AND (BLOCK_SIZE - 1) = 0"
    using True slot_add [of "headIndex p" ?n] by (simp add: unat_mod_32 k(1) flip: slot_mod)
  have nl: "\<not> circular_less_than (tailIndex p) (headIndex p)" using circular_not_less [OF k(2)] k(1) by simp
  have "tailIndex p + BLOCK_SIZE = headIndex p + of_nat (?n + 32)" by (simp add: k(1) BLOCK_SIZE_def)
  then have room: "circular_less_than (headIndex p) (tailIndex p + BLOCK_SIZE) \<longleftrightarrow> ?n + 32 < 2 ^ 63"
    using circular_less_than_iff [of "?n + 32" "headIndex p"] k(2) by simp
  let ?full = "\<not> circular_less_than (headIndex p) (tailIndex p + BLOCK_SIZE) \<or>
      (ms \<noteq> - 1 \<and> (ms = 0 \<or> ms - BLOCK_SIZE < tailIndex p - headIndex p))"
  show ?thesis
  proof (cases ?full)
    case True
    then have "producer_enqueue ms ca im bm stale x (q, p) = Some (False, q, p)"
      using al nl by (simp add: producer_enqueue_def Let_def)
    then show ?thesis using enqueue_nothing [OF r ok] True room by auto
  next
    case False
    then have n: "?n + 32 < 2 ^ 63" using room by blast
    have b0: "slot (headIndex p - of_nat ?off) = 0"
      by (rule slot_base)
    have "?off + ?n < 2 ^ 58 * 32" using n slot_less [of "headIndex p"] by (simp del: slot_less)
    then have small: "(?off + ?n) div 32 < 2 ^ 58" by (simp only: div_less_iff_less_mult zero_less_numeral)
    obtain e p1 where ins: "insert_block_index_entry ca im stale (tailIndex p) p = Some (e, p1)"
      "inserted (tailIndex p) (blocks_from (headIndex p - of_nat ?off) rs) p (e, p1)" "ca \<and> im \<longrightarrow> e \<noteq> None"
      using insert_inserted [OF k(4) blocks_from_valid [OF b0], of ca im stale "tailIndex p"] k(3) small by auto
    obtain b q1 where req: "requisition_block ca bm q = (b, q1)" by force
    have eq: "producer_enqueue ms ca im bm stale x (q, p) =
        (case (e, p1) of
             (None, p) \<Rightarrow> Some (False, q, p)
           | (Some e, p) \<Rightarrow>
               (case (b, q1) of
                  (None, q) \<Rightarrow> Some (False, q, set_value e None (rewind_block_index_tail p))
                | (Some r, q) \<Rightarrow> store_element x
                    (q\<lparr>blocks := (blocks q)(r := reset_empty (blocks q r))\<rparr>, (set_value e (Some r) p)\<lparr>tailBlock := Some r\<rparr>)))"
      using False al nl by (cases e; cases b) (auto simp: producer_enqueue_def Let_def ins(1) req)
    show ?thesis
    proof (cases e)
      case None
      then show ?thesis using eq enqueue_nothing [OF r ok] ins(2,3) by (auto simp: inserted_def)
    next
      case e: (Some e')
      show ?thesis
      proof (cases b)
        case None
        then have q1: "q1 = q" "\<not> (ca \<and> bm)" using requisition_block_ok [OF ok(1) req] by simp_all
        let ?p = "set_value e' None (rewind_block_index_tail p1)"
        have "rep q ?p rs xs"
          using ins(2) unfolding e by (intro rep_fields [OF r]) (simp_all add: inserted_def rewind_fields, simp_all add: set_value_def rewind_fields)
        then show ?thesis using eq None e q1 enqueue_nothing [OF _ ok] by auto
      next
        case (Some b')
        then show ?thesis using enqueue_new_block [OF r ok True n] ins(2) e req eq by fastforce
      qed
    qed
  qed
qed

section \<open>Dequeueing\<close>

definition dequeued :: "'a pool \<Rightarrow> nat list \<Rightarrow> 'a list \<Rightarrow> nat set \<Rightarrow> 'a pool \<times> producer \<Rightarrow> bool" where
  "dequeued q rs xs U r \<longleftrightarrow>
     (case r of (q', p') \<Rightarrow>
       \<exists>rs'. rep q' p' rs' xs \<and> set rs' \<subseteq> set rs \<and> pool_ok q' (U - (set rs - set rs')) \<and>
         (\<forall>u \<in> U - set rs. blocks q' u = blocks q u))"

lemma dequeuedI:
  "rep q' p' rs' xs \<Longrightarrow> set rs' \<subseteq> set rs \<Longrightarrow> pool_ok q' (U - (set rs - set rs')) \<Longrightarrow>
   (\<And>u. u \<in> U \<Longrightarrow> u \<notin> set rs \<Longrightarrow> blocks q' u = blocks q u) \<Longrightarrow> dequeued q rs xs U (q', p')"
  by (auto simp: dequeued_def)

text \<open>The first block after an element was taken out of it.\<close>

definition after_take :: "nat \<Rightarrow> u64 \<Rightarrow> 'a pool \<Rightarrow> 'a pool" where
  "after_take r i q =
     (let q = put_element r i None q
      in q\<lparr>blocks := (blocks q)(r := (blocks q r)\<lparr>elementsCompletelyDequeued := elementsCompletelyDequeued (blocks q r) + 1\<rparr>)\<rparr>)"

lemma after_take_blocks:
  "r' \<noteq> r \<Longrightarrow> blocks (after_take r i q) r' = blocks q r'"
  "length (elements (blocks (after_take r i q) r')) = length (elements (blocks q r'))"
  "elementsCompletelyDequeued (blocks (after_take r i q) r) = elementsCompletelyDequeued (blocks q r) + 1"
  "elements (blocks (after_take r i q) r) = (elements (blocks q r))[slot i := None]"
  by (simp_all add: after_take_def put_element_def Let_def)

lemma after_take_pool_ok: "pool_ok q U \<Longrightarrow> pool_ok (after_take r i q) U"
  unfolding pool_ok_def initial_left_def after_take_blocks by (simp add: after_take_def put_element_def Let_def)

lemma take_element_value:
  assumes "get_block_index_entry_for_index idx p = Some e" "entries p ! e = (b, Some r)"
    "elements (blocks q r) ! slot idx = Some x" "elementsCompletelyDequeued (blocks q r) = of_nat off" "off < 32"
  shows "take_element idx (q, p) = Some (x,
    if off = 31 then (add_block_to_free_list r (after_take r idx q), set_value e None p) else (after_take r idx q, p))"
proof -
  have u: "unat (of_nat off :: u64) = off" using assms(5) by (simp add: unat_of_nat take_bit_nat_eq_self)
  have "(of_nat off :: u64) < BLOCK_SIZE" "(of_nat off :: u64) = BLOCK_SIZE - 1 \<longleftrightarrow> off = 31"
    using assms(5) u by (simp_all add: BLOCK_SIZE_def word_less_nat_alt word_unat_eq_iff)
  then show ?thesis
    using assms by (simp add: take_element_def set_empty_def after_take_def put_element_def Let_def)
qed

text \<open>The representation after a take, in the block and at its end.\<close>

lemma take_rep:
  assumes r: "rep q p rs (x # xs)" and p': "headIndex p' = headIndex p + 1" "tailIndex p' = tailIndex p"
    "dequeueOptimisticCount p' = dequeueOptimisticCount p + 1" "dequeueOvercommit p' = dequeueOvercommit p"
    "tailBlock p' = tailBlock p" and off: "slot (headIndex p) < 31" and ix: "index_rep p' (blocks_from (headIndex p - of_nat (slot (headIndex p))) rs)"
  shows "rep (after_take (hd rs) (headIndex p) q) p' rs xs"
proof -
  let ?off = "slot (headIndex p)" and ?q = "after_take (hd rs) (headIndex p) q"
  have k: "block_rep q p rs (x # xs)" "length rs = (?off + Suc (length xs) + 31) div 32" using r by (simp_all add: rep_def Let_def)
  have rs: "rs \<noteq> []" using k(2) by auto
  have hd: "hd rs = rs ! 0" using rs by (rule hd_conv_nth)
  have di: "distinct rs" using k(1) by (simp add: block_rep_def Let_def)
  have sl: "slot (headIndex p + 1) = Suc ?off" using slot_add [of "headIndex p" 1] off by simp
  have ne: "rs ! j \<noteq> hd rs" if "0 < j" "j < length rs" for j using that di rs by (simp add: hd nth_eq_iff_index_eq)
  have "elements (blocks ?q (rs ! ((Suc ?off + j) div 32))) ! ((Suc ?off + j) mod 32) = Some (xs ! j)" if j: "j < length xs" for j
  proof -
    let ?i = "?off + Suc j"
    have lt: "?i div 32 < length rs" using block_index_less [OF slot_less, of "Suc j" "Suc (length xs)"] j k(2) by simp
    have old: "elements (blocks q (rs ! (?i div 32))) ! (?i mod 32) = Some (xs ! j)"
      using k(1) j by (auto simp: block_rep_def Let_def dest: spec [of _ "Suc j"])
    show ?thesis
    proof (cases "?i div 32 = 0")
      case True
      then have "?i mod 32 \<noteq> ?off" by (simp add: div_eq_0_iff)
      then show ?thesis using old True hd by (simp add: after_take_blocks)
    qed (use old ne [OF _ lt] in \<open>simp add: after_take_blocks\<close>)
  qed
  moreover have "elementsCompletelyDequeued (blocks ?q (rs ! j)) = (if j = 0 then of_nat (Suc ?off) else 0)" if "j < length rs" for j
    using k(1) that ne [of j] rs by (cases "j = 0") (auto simp: block_rep_def Let_def after_take_blocks hd)
  ultimately have "block_rep ?q p' rs xs"
    using k(1) p' sl ix by (simp add: block_rep_def Let_def after_take_blocks(2))
  then show ?thesis using r p' sl by (simp add: rep_def Let_def)
qed

lemma take_last_rep:
  assumes r: "rep q p rs (x # xs)" and p': "headIndex p' = headIndex p + 1" "tailIndex p' = tailIndex p"
    "dequeueOptimisticCount p' = dequeueOptimisticCount p + 1" "dequeueOvercommit p' = dequeueOvercommit p"
    "tailBlock p' = tailBlock p" and off: "slot (headIndex p) = 31" and ix: "index_rep p' (blocks_from (headIndex p - 31 + 32) (tl rs))"
  shows "rep (add_block_to_free_list (hd rs) (after_take (hd rs) (headIndex p) q)) p' (tl rs) xs"
proof -
  let ?q = "add_block_to_free_list (hd rs) (after_take (hd rs) (headIndex p) q)"
  have k: "block_rep q p rs (x # xs)" "length rs = (31 + Suc (length xs) + 31) div 32" using r off by (simp_all add: rep_def Let_def)
  then obtain a bs where rs: "rs = a # bs" by (cases rs) auto
  have l: "length bs = (length xs + 31) div 32" using k(2) rs by simp
  have sl: "slot (headIndex p + 1) = 0" using slot_add [of "headIndex p" 1] off by simp
  have same: "blocks ?q b = blocks q b" if "b \<in> set bs" for b
  proof -
    have "b \<noteq> a" using that k(1) rs by (auto simp: block_rep_def Let_def)
    then show ?thesis using rs by (simp add: add_block_to_free_list_def after_take_blocks)
  qed
  have old: "elements (blocks q (rs ! ((31 + Suc j) div 32))) ! ((31 + Suc j) mod 32) = Some (xs ! j)" if "j < length xs" for j
    using k(1) that off by (auto simp: block_rep_def Let_def dest: spec [of _ "Suc j"])
  have "elements (blocks ?q (bs ! (j div 32))) ! (j mod 32) = Some (xs ! j)" if j: "j < length xs" for j
  proof -
    have "j div 32 < length bs" using block_index_less [of 0 j "length xs"] j l by simp
    moreover have "(31 + Suc j) div 32 = Suc (j div 32)" "(31 + Suc j) mod 32 = j mod 32" by simp_all
    ultimately show ?thesis using old [OF j] same rs by simp
  qed
  moreover have "elementsCompletelyDequeued (blocks ?q (bs ! j)) = 0" if "j < length bs" for j
    using k(1) that same [of "bs ! j"] rs by (auto simp: block_rep_def Let_def dest: spec [of _ "Suc j"])
  ultimately have "block_rep ?q p' bs xs"
    using k(1) p' sl ix same rs by (auto simp: block_rep_def Let_def add.commute)
  moreover have "length xs mod 32 \<noteq> 0 \<longrightarrow> bs \<noteq> []" using l by (auto simp: div_eq_0_iff)
  ultimately show ?thesis using r p' sl off l rs by (auto simp: rep_def Let_def)
qed

lemma dequeue_takes:
  assumes r: "rep q p rs (x # xs)" and ok: "pool_ok q U" "set rs \<subseteq> U"
  shows "\<exists>q' p'. take_element (headIndex p) (q, p\<lparr>dequeueOptimisticCount := headIndex p + 1, headIndex := headIndex p + 1\<rparr>) =
      Some (x, q', p') \<and> dequeued q rs xs U (q', p')"
proof -
  let ?off = "slot (headIndex p)" and ?b = "headIndex p - of_nat (slot (headIndex p))"
    and ?p = "p\<lparr>dequeueOptimisticCount := headIndex p + 1, headIndex := headIndex p + 1\<rparr>"
  have k: "block_rep q p rs (x # xs)" "length rs = (?off + Suc (length xs) + 31) div 32" "Suc (length xs) + (32 - (?off + Suc (length xs)) mod 32) mod 32 < 2 ^ 63"
    using r by (simp_all add: rep_def Let_def)
  have rs: "rs \<noteq> []" using k(2) by auto
  have "?off < 32" by (rule slot_less)
  moreover have "32 * length rs = ?off + Suc (length xs) + (32 - (?off + Suc (length xs)) mod 32) mod 32"
    unfolding k(2) by (rule blocks_padding)
  ultimately have len: "length rs \<le> 2 ^ 58" using k(3) by (simp del: slot_less)
  have ix: "index_rep ?p (blocks_from ?b rs)" using k(1) by (simp add: block_rep_def Let_def)
  have base: "headIndex p AND NOT (BLOCK_SIZE - 1) = ?b + 32 * of_nat 0" by (simp add: and_not_31)
  obtain e where e: "get_block_index_entry_for_index (headIndex p) ?p = Some e"
    "entries ?p ! e = (?b + 32 * of_nat 0, Some (rs ! 0))" "index_rep (set_value e None ?p) (blocks_from (?b + 32) (tl rs))"
    using index_lookup [OF ix slot_base _ len base] rs by auto
  have el: "elements (blocks q (hd rs)) ! slot (headIndex p) = Some x"
    "elementsCompletelyDequeued (blocks q (hd rs)) = of_nat ?off"
    using k(1) rs by (auto simp: block_rep_def Let_def hd_conv_nth dest: spec [of _ 0])
  have hd: "rs ! 0 = hd rs" using rs by (simp add: hd_conv_nth)
  have hin: "hd rs \<in> set rs" using rs by (rule hd_in_set)
  have outside: "blocks (after_take (hd rs) (headIndex p) q) u = blocks q u" if "u \<notin> set rs" for u
    using that hin by (intro after_take_blocks(1)) blast
  note t = take_element_value [OF e(1) e(2) [unfolded hd] el slot_less]
  have oc: "dequeueOptimisticCount p = headIndex p" using k(1) by (simp add: block_rep_def Let_def)
  show ?thesis
  proof (cases "?off = 31")
    case True
    let ?q = "add_block_to_free_list (hd rs) (after_take (hd rs) (headIndex p) q)"
    have "rep ?q (set_value e None ?p) (tl rs) xs"
      by (rule take_last_rep [OF r]) (use True e(3) oc in \<open>simp_all add: set_value_def\<close>)
    moreover have "set rs - set (tl rs) = {hd rs}" using k(1) rs by (cases rs) (auto simp: block_rep_def Let_def)
    moreover have "pool_ok ?q (U - {hd rs})" using ok hin by (intro pool_ok_release after_take_pool_ok) auto
    moreover have "blocks ?q u = blocks q u" if "u \<notin> set rs" for u
      using outside [OF that] by (simp add: add_block_to_free_list_def)
    ultimately have "dequeued q rs xs U (?q, set_value e None ?p)"
      using rs by (intro dequeuedI [where rs' = "tl rs"]) (auto dest: list.set_sel(2))
    then show ?thesis using t True by simp
  next
    case False
    then have "?off < 31" using slot_less [of "headIndex p"] by (simp del: slot_less)
    then have "rep (after_take (hd rs) (headIndex p) q) ?p rs xs"
      by (intro take_rep [OF r]) (use ix oc in simp_all)
    moreover have "blocks (after_take (hd rs) (headIndex p) q) u = blocks q u" if "u \<notin> set rs" for u
      using outside [OF that] .
    ultimately have "dequeued q rs xs U (after_take (hd rs) (headIndex p) q, ?p)"
      using ok by (intro dequeuedI [where rs' = rs]) (auto intro: after_take_pool_ok)
    then show ?thesis using t False by simp
  qed
qed

text \<open>\<open>dequeue\<close> never fails an assertion; it returns the head of the list, or nothing if and only
  if the list is empty.\<close>

lemma producer_dequeue_correct:
  assumes r: "rep q p rs xs" and ok: "pool_ok q U" "set rs \<subseteq> U"
  shows "case xs of [] \<Rightarrow> producer_dequeue (q, p) = Some (None, q, p)
    | x # xs \<Rightarrow> \<exists>q' p'. producer_dequeue (q, p) = Some (Some x, q', p') \<and> dequeued q rs xs U (q', p')"
proof -
  have k: "tailIndex p = headIndex p + of_nat (length xs)" "dequeueOptimisticCount p = headIndex p"
    "dequeueOvercommit p = 0" "length xs < 2 ^ 63" using r by (auto simp: rep_def block_rep_def Let_def)
  have c: "circular_less_than (headIndex p) (tailIndex p) \<longleftrightarrow> 0 < length xs"
    using circular_less_than_iff [of "length xs" "headIndex p"] k(1,4) by simp
  show ?thesis
  proof (cases xs)
    case (Cons x ys)
    then show ?thesis
      using c k(2,3) dequeue_takes [OF r [unfolded Cons] ok] by (auto simp: producer_dequeue_def Let_def)
  qed (use c k(2,3) in \<open>simp add: producer_dequeue_def Let_def\<close>)
qed

lemma producer_size_correct: "rep q p rs xs \<Longrightarrow> unat (producer_size_approx p) = length xs"
  using circular_less_than_iff [of "length xs" "headIndex p"]
  by (auto simp: rep_def block_rep_def Let_def producer_size_approx_def unat_of_nat take_bit_nat_eq_self)

end
