(* ===== verification/Implicit_Bulk.thy ===== *)
theory Implicit_Bulk
  imports Producer_Queue
begin

text \<open>
  \<open>concurrentqueue.h\<close>, the bulk operations of an implicit producer. \<open>enqueue_bulk\<close> takes all the
  blocks it needs first, chains them, and gives everything back if that fails; \<open>dequeue_bulk\<close>
  walks along the block index. Both have the effect of the operations on single elements.
\<close>

section \<open>Enqueueing many elements\<close>

text \<open>Giving the entries of the chain \<open>b\<close> back, in the order of the blocks.\<close>

partial_function (option) release_entries :: "u64 \<Rightarrow> nat option \<Rightarrow> 'a pool \<Rightarrow> producer \<Rightarrow> producer option" where
  "release_entries currentTailIndex b q p =
     (case b of
        None \<Rightarrow> Some p
      | Some r \<Rightarrow>
          (let currentTailIndex = currentTailIndex + BLOCK_SIZE in
           case get_block_index_entry_for_index currentTailIndex p of
             None \<Rightarrow> None
           | Some e \<Rightarrow>
               release_entries currentTailIndex (blk_next (blocks q r)) q (rewind_block_index_tail (set_value e None p))))"

definition revert_allocation :: "u64 \<Rightarrow> nat option \<Rightarrow> nat option \<Rightarrow> 'a pool \<Rightarrow> producer \<Rightarrow> ('a pool \<times> producer) option" where
  "revert_allocation startTailIndex startBlock firstAllocatedBlock q p =
     (case release_entries ((startTailIndex - 1) AND NOT (BLOCK_SIZE - 1)) firstAllocatedBlock q p of
        None \<Rightarrow> None
      | Some p \<Rightarrow> map_option (\<lambda>q. (q, p\<lparr>tailBlock := startBlock\<rparr>)) (add_blocks_to_free_list firstAllocatedBlock q))"

definition set_next :: "nat \<Rightarrow> nat option \<Rightarrow> 'a pool \<Rightarrow> 'a pool" where
  "set_next r n q = q\<lparr>blocks := (blocks q)(r := (blocks q r)\<lparr>blk_next := n\<rparr>)\<rparr>"

text \<open>A block was obtained: reset it, put it into the index and append it to the chain.\<close>

definition link_block ::
  "u64 \<Rightarrow> nat option \<Rightarrow> nat \<Rightarrow> nat \<Rightarrow> 'a pool \<Rightarrow> producer \<Rightarrow> ('a pool \<times> producer) option" where
  "link_block startTailIndex firstAllocatedBlock e r q p =
     (let q = set_next r None (q\<lparr>blocks := (blocks q)(r := reset_empty (blocks q r))\<rparr>); p = set_value e (Some r) p in
      if startTailIndex AND (BLOCK_SIZE - 1) \<noteq> 0 \<or> firstAllocatedBlock \<noteq> None
      then (case tailBlock p of
              None \<Rightarrow> None
            | Some t \<Rightarrow> Some (set_next t (Some r) q, p\<lparr>tailBlock := Some r\<rparr>))
      else Some (q, p\<lparr>tailBlock := Some r\<rparr>))"

text \<open>The loop that allocates. \<open>index_mem\<close> and \<open>block_mem\<close> say for every iteration whether memory
  is available.\<close>

partial_function (option) allocate_blocks ::
  "u64 \<Rightarrow> bool \<Rightarrow> (nat \<Rightarrow> bool) \<Rightarrow> (nat \<Rightarrow> bool) \<Rightarrow> nat option \<Rightarrow> u64 \<Rightarrow> nat option \<Rightarrow> nat \<Rightarrow> u64 \<Rightarrow> u64 \<Rightarrow> nat option \<Rightarrow>
   'a pool \<Rightarrow> producer \<Rightarrow> (bool \<times> nat option \<times> 'a pool \<times> producer) option" where
  "allocate_blocks max_size can_alloc index_mem block_mem stale startTailIndex startBlock j blockBaseDiff currentTailIndex
       firstAllocatedBlock q p =
     (let blockBaseDiff = blockBaseDiff - BLOCK_SIZE; currentTailIndex = currentTailIndex + BLOCK_SIZE; head = headIndex p;
          revert = (\<lambda>q p. map_option (\<lambda>(q, p). (False, firstAllocatedBlock, q, p))
            (revert_allocation startTailIndex startBlock firstAllocatedBlock q p)) in
      if circular_less_than currentTailIndex head then None
      else if \<not> circular_less_than head (currentTailIndex + BLOCK_SIZE) \<or>
          (max_size \<noteq> - 1 \<and> (max_size = 0 \<or> max_size - BLOCK_SIZE < currentTailIndex - head))
        then revert q p
      else
        (case insert_block_index_entry can_alloc (index_mem j) stale currentTailIndex p of
           None \<Rightarrow> None
         | Some (None, p) \<Rightarrow> revert q p
         | Some (Some e, p) \<Rightarrow>
             (case requisition_block can_alloc (block_mem j) q of
                (None, q) \<Rightarrow> revert q (set_value e None (rewind_block_index_tail p))
              | (Some r, q) \<Rightarrow>
                  (case link_block startTailIndex firstAllocatedBlock e r q p of
                     None \<Rightarrow> None
                   | Some (q, p) \<Rightarrow>
                       (let firstAllocatedBlock = (if firstAllocatedBlock = None then Some r else firstAllocatedBlock) in
                        if 0 < blockBaseDiff
                        then allocate_blocks max_size can_alloc index_mem block_mem stale startTailIndex startBlock (j + 1)
                               blockBaseDiff currentTailIndex firstAllocatedBlock q p
                        else Some (True, firstAllocatedBlock, q, p))))))"

text \<open>Constructing elements in one block, and block after block along the chain.\<close>

fun construct_run :: "nat \<Rightarrow> u64 \<Rightarrow> 'a list \<Rightarrow> 'a pool \<Rightarrow> 'a pool" where
  "construct_run r i [] q = q"
| "construct_run r i (x # xs) q = construct_run r (i + 1) xs (put_element r i (Some x) q)"

partial_function (option) fill_blocks ::
  "nat option \<Rightarrow> u64 \<Rightarrow> u64 \<Rightarrow> 'a list \<Rightarrow> 'a pool \<Rightarrow> producer \<Rightarrow> ('a pool \<times> producer) option" where
  "fill_blocks endBlock newTailIndex currentTailIndex xs q p =
     (let stopIndex = (currentTailIndex AND NOT (BLOCK_SIZE - 1)) + BLOCK_SIZE;
          stopIndex = (if circular_less_than newTailIndex stopIndex then newTailIndex else stopIndex);
          n = unat (stopIndex - currentTailIndex) in
      if length xs < n \<or> n \<noteq> 0 \<and> tailBlock p = None then None
      else let q = (case tailBlock p of None \<Rightarrow> q | Some r \<Rightarrow> construct_run r currentTailIndex (take n xs) q) in
        if tailBlock p = endBlock then (if stopIndex = newTailIndex then Some (q, p) else None)
        else (case tailBlock p of
                None \<Rightarrow> None
              | Some r \<Rightarrow> fill_blocks endBlock newTailIndex stopIndex (drop n xs) q (p\<lparr>tailBlock := blk_next (blocks q r)\<rparr>)))"

text \<open>Enqueue, one block at a time, when the blocks are there.\<close>

definition fill_allocation ::
  "u64 \<Rightarrow> nat option \<Rightarrow> nat option \<Rightarrow> 'a list \<Rightarrow> 'a pool \<Rightarrow> producer \<Rightarrow> (bool \<times> 'a pool \<times> producer) option" where
  "fill_allocation startTailIndex startBlock firstAllocatedBlock xs q p =
     (let count = of_nat (length xs); endBlock = tailBlock p; newTailIndex = startTailIndex + count;
          aligned = (startTailIndex AND (BLOCK_SIZE - 1) = 0) in
      if aligned \<and> firstAllocatedBlock = None \<and> count \<noteq> 0 then None
      else map_option (\<lambda>(q, p). (True, q, p\<lparr>tailIndex := newTailIndex\<rparr>))
        (fill_blocks endBlock newTailIndex startTailIndex xs q
           (p\<lparr>tailBlock := (if aligned \<and> firstAllocatedBlock \<noteq> None then firstAllocatedBlock else startBlock)\<rparr>)))"

text \<open>The iterator is a list of \<open>count\<close> elements.\<close>

definition producer_enqueue_bulk ::
  "u64 \<Rightarrow> bool \<Rightarrow> (nat \<Rightarrow> bool) \<Rightarrow> (nat \<Rightarrow> bool) \<Rightarrow> nat option \<Rightarrow> 'a list \<Rightarrow> 'a pool \<times> producer \<Rightarrow>
   (bool \<times> 'a pool \<times> producer) option" where
  "producer_enqueue_bulk max_size can_alloc index_mem block_mem stale xs qp =
     (let (q, p) = qp; count = of_nat (length xs); startTailIndex = tailIndex p; startBlock = tailBlock p;
          currentTailIndex = (startTailIndex - 1) AND NOT (BLOCK_SIZE - 1);
          blockBaseDiff = ((startTailIndex + count - 1) AND NOT (BLOCK_SIZE - 1)) - currentTailIndex in
      case (if 0 < blockBaseDiff
            then allocate_blocks max_size can_alloc index_mem block_mem stale startTailIndex startBlock 0 blockBaseDiff
                   currentTailIndex None q p
            else Some (True, None, q, p)) of
        None \<Rightarrow> None
      | Some (False, firstAllocatedBlock, q, p) \<Rightarrow> Some (False, q, p)
      | Some (True, firstAllocatedBlock, q, p) \<Rightarrow> fill_allocation startTailIndex startBlock firstAllocatedBlock xs q p)"

section \<open>Dequeueing many elements\<close>

text \<open>\<open>n\<close> elements of one block are moved out and destroyed.\<close>

fun take_run :: "nat \<Rightarrow> u64 \<Rightarrow> nat \<Rightarrow> 'a pool \<Rightarrow> ('a list \<times> 'a pool) option" where
  "take_run r i 0 q = Some ([], q)"
| "take_run r i (Suc n) q =
     (case elements (blocks q r) ! slot i of
        None \<Rightarrow> None
      | Some x \<Rightarrow> map_option (\<lambda>(xs, q). (x # xs, q)) (take_run r (i + 1) n (put_element r i None q)))"

text \<open>\<open>n\<close> elements of block \<open>r\<close> were taken; if that was the last of it, it is given back.\<close>

definition release_run :: "nat \<Rightarrow> nat \<Rightarrow> u64 \<Rightarrow> 'a pool \<Rightarrow> producer \<Rightarrow> ('a pool \<times> producer) option" where
  "release_run e r n q p =
     map_option (\<lambda>(now_empty, b).
         (let q = q\<lparr>blocks := (blocks q)(r := b)\<rparr> in
          if now_empty then (add_block_to_free_list r q, set_value e None p) else (q, p)))
       (set_many_empty n (blocks q r))"

partial_function (option) take_blocks ::
  "block_index \<Rightarrow> u64 \<Rightarrow> u64 \<Rightarrow> u64 \<Rightarrow> 'a pool \<Rightarrow> producer \<Rightarrow> ('a list \<times> 'a pool \<times> producer) option" where
  "take_blocks bx stopIndex indexIndex i q p =
     (let endIndex = (i AND NOT (BLOCK_SIZE - 1)) + BLOCK_SIZE;
          endIndex = (if circular_less_than stopIndex endIndex then stopIndex else endIndex);
          e = bx_index bx ! unat indexIndex in
      case snd (entries p ! e) of
        None \<Rightarrow> None
      | Some r \<Rightarrow>
          (case take_run r i (unat (endIndex - i)) q of
             None \<Rightarrow> None
           | Some (xs, q) \<Rightarrow>
               (case release_run e r (endIndex - i) q p of
                  None \<Rightarrow> None
                | Some (q, p) \<Rightarrow>
                    (if endIndex = stopIndex then Some (xs, q, p)
                     else Option.bind (take_blocks bx stopIndex ((indexIndex + 1) AND (bx_capacity bx - 1)) endIndex q p)
                       (\<lambda>(ys, q, p). Some (xs @ ys, q, p))))))"

definition producer_dequeue_bulk :: "u64 \<Rightarrow> 'a pool \<times> producer \<Rightarrow> ('a list \<times> 'a pool \<times> producer) option" where
  "producer_dequeue_bulk max_count qp =
     (let (q, p) = qp; overcommit = dequeueOvercommit p; desiredCount = tailIndex p - (dequeueOptimisticCount p - overcommit) in
      if circular_less_than 0 desiredCount
      then let desiredCount = (if desiredCount < max_count then desiredCount else max_count);
               myDequeueCount = dequeueOptimisticCount p; p = p\<lparr>dequeueOptimisticCount := myDequeueCount + desiredCount\<rparr> in
        if myDequeueCount < overcommit then None
        else let actualCount = tailIndex p - (myDequeueCount - overcommit) in
          if circular_less_than 0 actualCount
          then let actualCount = (if desiredCount < actualCount then desiredCount else actualCount);
                   p = (if actualCount < desiredCount
                        then p\<lparr>dequeueOvercommit := dequeueOvercommit p + (desiredCount - actualCount)\<rparr> else p);
                   firstIndex = headIndex p; p = p\<lparr>headIndex := firstIndex + actualCount\<rparr> in
            (case (get_block_index_index_for_index firstIndex p, blockIndex p) of
               (Some indexIndex, Some bx) \<Rightarrow> take_blocks bx (firstIndex + actualCount) indexIndex firstIndex q p
             | _ \<Rightarrow> None)
          else Some ([], q, p\<lparr>dequeueOvercommit := dequeueOvercommit p + desiredCount\<rparr>)
      else Some ([], q, p))"

section \<open>Runs of elements in one block\<close>

lemma put_element_next [simp]: "blk_next (blocks (put_element b i x q) r) = blk_next (blocks q r)"
  by (simp add: put_element_def)

lemma construct_run_frame:
  "r \<noteq> b \<Longrightarrow> blocks (construct_run b i xs q) r = blocks q r"
  "blk_next (blocks (construct_run b i xs q) r) = blk_next (blocks q r)"
  "pool_ok q U \<Longrightarrow> pool_ok (construct_run b i xs q) U"
  by (induction xs arbitrary: i q) (simp_all add: put_element_blocks put_element_pool_ok)

lemma construct_run_rep:
  assumes "block_rep q p rs zs" "(slot (headIndex p) + length zs) mod 32 + length xs \<le> 32"
    and "xs \<noteq> [] \<Longrightarrow> j < length rs" "j = (slot (headIndex p) + length zs) div 32"
  shows "block_rep (construct_run (rs ! j) (tailIndex p) xs q) (p\<lparr>tailIndex := tailIndex p + of_nat (length xs)\<rparr>) rs (zs @ xs)"
  using assms
proof (induction xs arbitrary: q p zs)
  case (Cons x xs)
  let ?i = "slot (headIndex p) + length zs"
  let ?q = "put_element (rs ! j) (tailIndex p) (Some x) q" and ?p = "p\<lparr>tailIndex := tailIndex p + 1\<rparr>"
  have one: "block_rep ?q ?p rs (zs @ [x])"
    using Cons.prems by (intro put_block_rep) simp_all
  have same: "xs = [] \<or> Suc ?i mod 32 = Suc (?i mod 32) \<and> Suc ?i div 32 = ?i div 32"
    using Cons.prems(2) by (cases "?i mod 32 = 31") (auto simp: mod_Suc div_Suc)
  show ?case
  proof (cases "xs = []")
    case False
    have "block_rep (construct_run (rs ! j) (tailIndex ?p) xs ?q) (?p\<lparr>tailIndex := tailIndex ?p + of_nat (length xs)\<rparr>) rs
        ((zs @ [x]) @ xs)"
      by (rule Cons.IH [OF one]) (use Cons.prems same False in simp_all)
    then show ?thesis by (simp add: add.assoc)
  qed (use one in simp)
qed simp

text \<open>Taking elements one after the other is counting them one after the other.\<close>

definition add_count :: "nat \<Rightarrow> u64 \<Rightarrow> 'a pool \<Rightarrow> 'a pool" where
  "add_count r k q = q\<lparr>blocks := (blocks q)(r := (blocks q r)\<lparr>elementsCompletelyDequeued := elementsCompletelyDequeued (blocks q r) + k\<rparr>)\<rparr>"

lemma after_take_add_count: "after_take r i q = add_count r 1 (put_element r i None q)"
  by (simp add: after_take_def add_count_def Let_def)

lemma add_count_add: "add_count r k (add_count r l q) = add_count r (l + k) q"
  by (simp add: add_count_def add.assoc)

lemma put_element_add_count: "put_element r i x (add_count r k q) = add_count r k (put_element r i x q)"
  by (cases "blocks q r") (simp add: add_count_def put_element_def)

lemma take_run_add_count:
  "take_run r i n (add_count r k q) = map_option (\<lambda>(xs, q). (xs, add_count r k q)) (take_run r i n q)"
proof (induction n arbitrary: i q)
  case (Suc n)
  have "elements (blocks (add_count r k q) r) = elements (blocks q r)" by (simp add: add_count_def)
  then show ?case
    using Suc by (simp add: put_element_add_count option.map_comp split: option.split) (auto simp: option.map_comp comp_def split_def)
qed simp

lemma take_run_frame:
  assumes "take_run b i n q = Some (xs, q')"
  shows "r \<noteq> b \<Longrightarrow> blocks q' r = blocks q r" "pool_ok q U \<Longrightarrow> pool_ok q' U"
    "elementsCompletelyDequeued (blocks q' b) = elementsCompletelyDequeued (blocks q b)"
proof -
  have "(r \<noteq> b \<longrightarrow> blocks q' r = blocks q r) \<and> (pool_ok q U \<longrightarrow> pool_ok q' U) \<and>
      elementsCompletelyDequeued (blocks q' b) = elementsCompletelyDequeued (blocks q b)"
    using assms
  proof (induction n arbitrary: i q xs)
    case (Suc n)
    then obtain ys where "take_run b (i + 1) n (put_element b i None q) = Some (ys, q')"
      by (auto split: option.splits)
    from Suc.IH [OF this] show ?case by (auto simp: put_element_blocks put_element_pool_ok)
  qed simp
  then show "r \<noteq> b \<Longrightarrow> blocks q' r = blocks q r" "pool_ok q U \<Longrightarrow> pool_ok q' U"
    "elementsCompletelyDequeued (blocks q' b) = elementsCompletelyDequeued (blocks q b)" by simp_all
qed

abbreviation advance :: "nat \<Rightarrow> producer \<Rightarrow> producer" where
  "advance k p \<equiv> p\<lparr>headIndex := headIndex p + of_nat k, dequeueOptimisticCount := dequeueOptimisticCount p + of_nat k\<rparr>"

text \<open>A run that leaves elements in the first block, or at least its place.\<close>

lemma take_run_rep:
  assumes "rep q p rs xs" "k \<le> length xs" "slot (headIndex p) + k < 32"
  shows "\<exists>q'. take_run (hd rs) (headIndex p) k q = Some (take k xs, q') \<and>
    rep (add_count (hd rs) (of_nat k) q') (advance k p) rs (drop k xs)"
  using assms
proof (induction k arbitrary: q p xs)
  case 0
  then show ?case by (simp add: add_count_def)
next
  case (Suc k)
  then obtain x ys where xs: "xs = x # ys" by (cases xs) auto
  let ?q = "put_element (hd rs) (headIndex p) None q"
  have r: "rep q p rs (x # ys)" using Suc.prems xs by simp
  then have k: "block_rep q p rs (x # ys)" "length rs = (slot (headIndex p) + Suc (length ys) + 31) div 32" by (auto simp: rep_def Let_def)
  then have rs: "rs \<noteq> []" by auto
  have el: "elements (blocks q (hd rs)) ! slot (headIndex p) = Some x"
    using k(1) rs by (auto simp: block_rep_def Let_def hd_conv_nth dest: spec [of _ 0])
  have ix: "index_rep (advance 1 p) (blocks_from (headIndex p - of_nat (slot (headIndex p))) rs)"
    using k(1) by (simp add: block_rep_def Let_def)
  have "rep (after_take (hd rs) (headIndex p) q) (advance 1 p) rs ys"
    by (rule take_rep [OF r]) (use Suc.prems ix in simp_all)
  then have one: "rep (add_count (hd rs) 1 ?q) (advance 1 p) rs ys" by (simp only: after_take_add_count)
  have "slot (headIndex (advance 1 p)) = Suc (slot (headIndex p))"
    using slot_add [of "headIndex p" 1] Suc.prems by simp
  then obtain q' where q': "take_run (hd rs) (headIndex p + 1) k (add_count (hd rs) 1 ?q) = Some (take k ys, q')"
    "rep (add_count (hd rs) (of_nat k) q') (advance k (advance 1 p)) rs (drop k ys)"
    using Suc.IH [OF one] Suc.prems xs by auto
  then obtain q2 where q2: "take_run (hd rs) (headIndex p + 1) k ?q = Some (take k ys, q2)" "q' = add_count (hd rs) 1 q2"
    by (auto simp: take_run_add_count)
  then show ?case using q'(2) el xs by (simp add: add_count_add add.assoc)
qed

lemma take_run_add:
  "take_run r i (m + n) q = (case take_run r i m q of None \<Rightarrow> None
     | Some (xs, q) \<Rightarrow> map_option (\<lambda>(ys, q). (xs @ ys, q)) (take_run r (i + of_nat m) n q))"
  by (induction m arbitrary: i q)
    (auto simp: option.map_comp option.map_ident comp_def split_def add.assoc split: option.split)

text \<open>A run that empties the first block.\<close>

lemma take_run_all_rep:
  assumes "rep q p rs xs" "k \<le> length xs" "slot (headIndex p) + k = 32"
    and ix: "index_rep p' (blocks_from (headIndex p - of_nat (slot (headIndex p)) + 32) (tl rs))"
    and p': "headIndex p' = headIndex p + of_nat k" "tailIndex p' = tailIndex p" "tailBlock p' = tailBlock p"
    "dequeueOptimisticCount p' = dequeueOptimisticCount p + of_nat k" "dequeueOvercommit p' = dequeueOvercommit p"
  shows "\<exists>q'. take_run (hd rs) (headIndex p) k q = Some (take k xs, q') \<and>
    rep (add_block_to_free_list (hd rs) (add_count (hd rs) (of_nat k) q')) p' (tl rs) (drop k xs)"
proof -
  obtain m where k: "k = Suc m" using assms(3) slot_less [of "headIndex p"] by (cases k) (auto simp del: slot_less)
  obtain q1 where q1: "take_run (hd rs) (headIndex p) m q = Some (take m xs, q1)"
    "rep (add_count (hd rs) (of_nat m) q1) (advance m p) rs (drop m xs)"
    using take_run_rep [OF assms(1), of m] assms(2,3) k by auto
  obtain x ys where x: "drop m xs = x # ys" using assms(2) k by (cases "drop m xs") auto
  let ?p = "advance m p"
  have sl: "slot (headIndex ?p) = 31" using slot_add [of "headIndex p" m] assms(3) k by simp
  have "rep (add_block_to_free_list (hd rs) (after_take (hd rs) (headIndex ?p) (add_count (hd rs) (of_nat m) q1))) p' (tl rs) ys"
  proof (rule take_last_rep [OF q1(2) [unfolded x] _ _ _ _ _ sl])
    have eq: "headIndex ?p - 31 + 32 = headIndex p - of_nat (slot (headIndex p)) + 32"
    proof -
      have "(of_nat (slot (headIndex p)) + of_nat m :: u64) = of_nat (slot (headIndex p) + m)" by simp
      also have "\<dots> = 31" using assms(3) k by simp
      finally show ?thesis by (simp add: algebra_simps)
    qed
    show "index_rep p' (blocks_from (headIndex ?p - 31 + 32) (tl rs))" unfolding eq by (rule ix)
  qed (use p' k in \<open>simp_all add: add.assoc add.commute\<close>)
  moreover have "elements (blocks q1 (hd rs)) ! slot (headIndex ?p) = Some x"
  proof -
    have b: "block_rep (add_count (hd rs) (of_nat m) q1) ?p rs (x # ys)" "rs \<noteq> []"
      using q1(2) x by (auto simp: rep_def Let_def)
    then have "elements (blocks (add_count (hd rs) (of_nat m) q1) (hd rs)) ! slot (headIndex ?p) = Some x"
      by (auto simp: block_rep_def Let_def hd_conv_nth dest: spec [of _ 0])
    then show ?thesis by (simp add: add_count_def)
  qed
  moreover have "take (Suc m) xs = take m xs @ [x]"
  proof -
    have "xs ! m = x" using x by (metis hd_drop_conv_nth list.sel(1) drop_all list.distinct(1) linorder_not_less)
    then show ?thesis using assms(2) k by (simp add: take_Suc_conv_app_nth)
  qed
  moreover have "drop (Suc m) xs = ys" using x by (metis drop_Suc list.sel(3) tl_drop)
  ultimately show ?thesis
    using q1(1) take_run_add [of "hd rs" "headIndex p" m 1 q] unfolding k
    by (simp add: after_take_add_count put_element_add_count add_count_add add.commute [of 1 "of_nat m"])
qed


section \<open>Dequeueing in bulk\<close>

lemma circular_between:
  assumes "k < 2 ^ 63" "m \<le> 32"
  shows "circular_less_than (i + of_nat k) (i + of_nat m) \<longleftrightarrow> k < m"
proof (cases "k < m")
  case True
  then have "i + of_nat m = i + of_nat k + of_nat (m - k)" by simp
  then show ?thesis using True assms circular_less_than_iff [of "m - k" "i + of_nat k"] by simp
next
  case False
  then have "i + of_nat k = i + of_nat m + of_nat (k - m)" by simp
  then show ?thesis using False assms circular_not_less [of "k - m" "i + of_nat m"] by simp
qed

lemma block_end: "(i AND NOT (BLOCK_SIZE - 1)) + BLOCK_SIZE = i + of_nat (32 - slot i)"
  unfolding and_not_31 using slot_less [of i] by (simp add: BLOCK_SIZE_def of_nat_diff less_imp_le del: slot_less)

text \<open>The end of the run in this block.\<close>

lemma run_end:
  assumes "k < 2 ^ 63"
  shows "(if circular_less_than (i + of_nat k) ((i AND NOT (BLOCK_SIZE - 1)) + BLOCK_SIZE) then i + of_nat k
      else (i AND NOT (BLOCK_SIZE - 1)) + BLOCK_SIZE) = i + of_nat (min k (32 - slot i))"
    "unat (of_nat (min k (32 - slot i)) :: u64) = min k (32 - slot i)"
    "i + of_nat (min k (32 - slot i)) = i + of_nat k \<longleftrightarrow> k \<le> 32 - slot i"
proof -
  have u: "unat (of_nat j :: u64) = j" if "j \<le> k" for j using that assms by (simp add: unat_of_nat take_bit_nat_eq_self)
  show "(if circular_less_than (i + of_nat k) ((i AND NOT (BLOCK_SIZE - 1)) + BLOCK_SIZE) then i + of_nat k
      else (i AND NOT (BLOCK_SIZE - 1)) + BLOCK_SIZE) = i + of_nat (min k (32 - slot i))"
    unfolding block_end using circular_between [OF assms, of "32 - slot i" i] by (simp add: min_def)
  show "unat (of_nat (min k (32 - slot i)) :: u64) = min k (32 - slot i)" by (rule u) simp
  show "i + of_nat (min k (32 - slot i)) = i + of_nat k \<longleftrightarrow> k \<le> 32 - slot i"
    using u [of "min k (32 - slot i)"] u [of k] by (metis add_left_cancel min.absorb1 min.cobounded1 order_refl min.cobounded2)
qed

text \<open>The first block is marked, and given back if it was emptied.\<close>

lemma mark_run:
  assumes "elementsCompletelyDequeued (blocks q' r) = of_nat off" "off + n \<le> 32"
  shows "set_many_empty (of_nat n) (blocks q' r) =
    Some (off + n = 32, (blocks q' r)\<lparr>elementsCompletelyDequeued := elementsCompletelyDequeued (blocks q' r) + of_nat n\<rparr>)"
proof -
  have u: "unat (of_nat (off + n) :: u64) = off + n" using assms(2) by (simp add: unat_of_nat take_bit_nat_eq_self del: of_nat_add)
  then have "(of_nat (off + n) :: u64) \<le> BLOCK_SIZE" "(of_nat (off + n) :: u64) = BLOCK_SIZE \<longleftrightarrow> off + n = 32"
    using assms(2) by (simp_all add: BLOCK_SIZE_def word_le_nat_alt word_unat_eq_iff del: of_nat_add)
  then show ?thesis by (simp add: set_many_empty_def assms(1))
qed

abbreviation positioned :: "u64 \<Rightarrow> producer \<Rightarrow> producer" where
  "positioned i p \<equiv> p\<lparr>headIndex := i, dequeueOptimisticCount := i\<rparr>"


lemma dequeued_step:
  assumes d: "dequeued q2 (tl rs) xs (U - {hd rs}) r" and rs: "rs \<noteq> []" "distinct rs" "set rs \<subseteq> U"
    and f: "\<And>u. u \<noteq> hd rs \<Longrightarrow> blocks q2 u = blocks q u"
  shows "dequeued q rs xs U r"
proof -
  obtain a bs where ab: "rs = a # bs" "a \<notin> set bs" using rs by (cases rs) auto
  obtain q' p' where r: "r = (q', p')" by (cases r)
  obtain rs' where k: "rep q' p' rs' xs" "set rs' \<subseteq> set bs" "pool_ok q' (U - {a} - (set bs - set rs'))"
    "\<forall>u \<in> U - {a} - set bs. blocks q' u = blocks q2 u" using d ab by (auto simp: dequeued_def r)
  have "U - {a} - (set bs - set rs') = U - (set rs - set rs')" using ab k(2) by auto
  then show ?thesis unfolding r using k ab f by (intro dequeuedI [where rs' = rs']) auto
qed

lemma take_blocks_rep:
  assumes "rep q (positioned i p) rs xs" "k \<le> length xs" "xs \<noteq> []" "index_at c bx ii p (blocks_from (i - of_nat (slot i)) rs)"
    "headIndex p = i + of_nat k" "dequeueOptimisticCount p = i + of_nat k" "pool_ok q U" "set rs \<subseteq> U"
  shows "\<exists>r. take_blocks bx (i + of_nat k) ii i q p = Some (take k xs, r) \<and> dequeued q rs (drop k xs) U r"
  using assms
proof (induction rs arbitrary: q p xs k i ii U)
  case Nil
  then show ?case by (auto simp: rep_def Let_def div_eq_0_iff)
next
  case (Cons a bs)
  let ?n = "min k (32 - slot i)" and ?p = "positioned i p" and ?e = "bx_index bx ! unat ii"
  have br: "block_rep q ?p (a # bs) xs" "length xs < 2 ^ 63" using Cons.prems(1) by (auto simp: rep_def Let_def)
  have k: "k < 2 ^ 63" using br(2) Cons.prems(2) by simp
  have sl: "slot i < 32" by simp
  note re = run_end [OF k, of i]
  note st = index_at_step [OF Cons.prems(4) [unfolded blocks_from.simps]]
  have eq: "take_blocks bx (i + of_nat k) ii i q p =
      (case take_run a i ?n q of None \<Rightarrow> None
       | Some (ys, q) \<Rightarrow> (case release_run ?e a (of_nat ?n) q p of None \<Rightarrow> None
         | Some (q, p) \<Rightarrow>
            (if k \<le> 32 - slot i then Some (ys, q, p)
             else Option.bind (take_blocks bx (i + of_nat k) ((ii + 1) AND (bx_capacity bx - 1)) (i + of_nat ?n) q p)
               (\<lambda>(zs, q, p). Some (ys @ zs, q, p)))))"
    by (subst take_blocks.simps) (simp only: re Let_def st(1) snd_conv option.case add_diff_cancel_left')
  have edc: "elementsCompletelyDequeued (blocks q a) = of_nat (slot i)"
    using br(1) by (auto simp: block_rep_def Let_def)
  have rsU: "a \<in> U" "a \<notin> set bs" "set bs \<subseteq> U - {a}" using Cons.prems(8) br(1) by (auto simp: block_rep_def Let_def)
  show ?case
  proof (cases "slot i + k < 32")
    case True
    then have n: "?n = k" "k \<le> 32 - slot i" by simp_all
    obtain q' where q': "take_run a i k q = Some (take k xs, q')" "rep (add_count a (of_nat k) q') (advance k ?p) (a # bs) (drop k xs)"
      using take_run_rep [OF Cons.prems(1), of k] Cons.prems(2) True by auto
    have p: "advance k ?p = p" using Cons.prems(5,6) by simp
    note fr = take_run_frame [OF q'(1)]
    have "take_blocks bx (i + of_nat k) ii i q p = Some (take k xs, add_count a (of_nat k) q', p)"
      unfolding eq n(1) using q'(1) mark_run [of q' a "slot i" k] fr(3) edc True n(2) by (simp add: release_run_def add_count_def Let_def)
    moreover have "dequeued q (a # bs) (drop k xs) U (add_count a (of_nat k) q', p)"
    proof (rule dequeuedI [where rs' = "a # bs"])
      have "pool_ok q' U" by (rule fr(2) [OF Cons.prems(7)])
      then show "pool_ok (add_count a (of_nat k) q') (U - (set (a # bs) - set (a # bs)))"
        using rsU(1) pool_ok_used [of q' U a] by (auto simp: add_count_def intro!: pool_ok_update)
      show "blocks (add_count a (of_nat k) q') u = blocks q u" if "u \<notin> set (a # bs)" for u
        using that fr(1) by (simp add: add_count_def)
    qed (use q'(2) p in simp_all)
    ultimately show ?thesis by blast
  next
    case False
    let ?m = "32 - slot i" and ?p1 = "set_value ?e None p"
    have n: "?n = ?m" "slot i + ?m = 32" "?m \<le> k" using False sl by (auto simp del: slot_less)
    have base: "i + of_nat ?m = i - of_nat (slot i) + 32" using sl by (simp add: of_nat_diff less_imp_le)
    have ix: "index_rep (positioned (i + of_nat ?m) ?p1) (blocks_from (i - of_nat (slot i) + 32) bs)"
      using index_at_rep [OF st(2)] by simp
    obtain q' where q': "take_run a i ?m q = Some (take ?m xs, q')"
      "rep (add_block_to_free_list a (add_count a (of_nat ?m) q')) (positioned (i + of_nat ?m) ?p1) bs (drop ?m xs)"
      using take_run_all_rep [OF Cons.prems(1), of ?m "positioned (i + of_nat ?m) ?p1"] Cons.prems(2) n ix
      by (auto simp: set_value_def)
    let ?q = "add_block_to_free_list a (add_count a (of_nat ?m) q')"
    note fr = take_run_frame [OF q'(1)]
    have same: "blocks ?q u = blocks q u" if "u \<noteq> a" for u
      using that fr(1) by (simp add: add_block_to_free_list_def add_count_def)
    have "pool_ok (add_count a (of_nat ?m) q') U"
      using fr(2) [OF Cons.prems(7)] rsU(1) pool_ok_used [of q' U a] by (auto simp: add_count_def intro!: pool_ok_update)
    then have ok: "pool_ok ?q (U - {a})" using rsU(1) by (rule pool_ok_release)
    have eq2: "take_blocks bx (i + of_nat k) ii i q p =
        (if k = ?m then Some (take ?m xs, ?q, ?p1)
         else Option.bind (take_blocks bx (i + of_nat k) ((ii + 1) AND (bx_capacity bx - 1)) (i + of_nat ?m) ?q ?p1)
               (\<lambda>(zs, q, p). Some (take ?m xs @ zs, q, p)))"
      unfolding eq n(1) using q'(1) mark_run [of q' a "slot i" ?m] fr(3) edc n by (simp add: release_run_def add_count_def Let_def)
    have step: "dequeued q (a # bs) ys U r" if "dequeued ?q bs ys (U - {a}) r" for ys r
      by (rule dequeued_step [of ?q "a # bs"]) (use that same rsU Cons.prems(8) br(1) in \<open>auto simp: block_rep_def Let_def\<close>)
    show ?thesis
    proof (cases "k = ?m")
      case True
      have "positioned (i + of_nat ?m) ?p1 = ?p1" using Cons.prems(5,6) True by (simp add: set_value_def)
      then have "dequeued ?q bs (drop ?m xs) (U - {a}) (?q, ?p1)"
        using q'(2) ok by (intro dequeuedI [where rs' = bs]) simp_all
      then show ?thesis using eq2 True step by metis
    next
      case k': False
      have s0: "slot (i + of_nat ?m) = 0" using slot_add [of i ?m] n by simp
      have eqk: "i + of_nat ?m + of_nat (k - ?m) = i + of_nat k" using n(3) by simp
      have IH: "\<exists>r. take_blocks bx (i + of_nat ?m + of_nat (k - ?m)) ((ii + 1) AND (bx_capacity bx - 1)) (i + of_nat ?m) ?q ?p1 =
            Some (take (k - ?m) (drop ?m xs), r) \<and> dequeued ?q bs (drop (k - ?m) (drop ?m xs)) (U - {a}) r"
      proof (rule Cons.IH [OF q'(2)])
        show "index_at c bx ((ii + 1) AND (bx_capacity bx - 1)) ?p1 (blocks_from (i + of_nat ?m - of_nat (slot (i + of_nat ?m))) bs)"
          unfolding s0 using st(2) by (simp only: base) simp
      qed (use Cons.prems k' n ok rsU eqk in \<open>simp_all add: set_value_def\<close>)
      then obtain r where r: "take_blocks bx (i + of_nat k) ((ii + 1) AND (bx_capacity bx - 1)) (i + of_nat ?m) ?q ?p1 =
            Some (take (k - ?m) (drop ?m xs), r)" "dequeued ?q bs (drop (k - ?m) (drop ?m xs)) (U - {a}) r"
        unfolding eqk by blast
      have "take ?m xs @ take (k - ?m) (drop ?m xs) = take k xs" "drop (k - ?m) (drop ?m xs) = drop k xs"
        using n(3) by (simp_all add: take_add [symmetric])
      then show ?thesis using eq2 k' r step by (cases r) auto
    qed
  qed
qed

lemma dequeue_bulk_some:
  assumes "tailIndex p = headIndex p + n" "dequeueOptimisticCount p = headIndex p" "dequeueOvercommit p = 0"
    and "circular_less_than 0 n" "(if n < m then n else m) = d"
  shows "producer_dequeue_bulk m (q, p) =
    (case (get_block_index_index_for_index (headIndex p) (positioned (headIndex p + d) p), blockIndex p) of
       (Some ii, Some bx) \<Rightarrow> take_blocks bx (headIndex p + d) ii (headIndex p) q (positioned (headIndex p + d) p)
     | _ \<Rightarrow> None)"
proof -
  have n: "tailIndex p - (dequeueOptimisticCount p - dequeueOvercommit p) = n" using assms(1-3) by simp
  have "d \<le> n" using assms(5) by (auto split: if_splits)
  then have d: "\<not> n < d" "(if d < n then d else n) = d" by auto
  have sw: "p\<lparr>dequeueOptimisticCount := i, headIndex := j\<rparr> = p\<lparr>headIndex := j, dequeueOptimisticCount := i\<rparr>" for i j by simp
  show ?thesis
    unfolding producer_dequeue_bulk_def case_prod_conv Let_def n assms(5)
    using assms(1-4) d by (cases "blockIndex p") (auto simp: sw split: option.split)
qed

text \<open>\<open>dequeue_bulk\<close> takes as many elements as there are, up to \<open>max\<close>, in order.\<close>

lemma producer_dequeue_bulk_correct:
  assumes r: "rep q p rs xs" and ok: "pool_ok q U" "set rs \<subseteq> U"
  shows "\<exists>r. producer_dequeue_bulk m (q, p) = Some (take (unat m) xs, r) \<and> dequeued q rs (drop (unat m) xs) U r"
proof -
  let ?n = "length xs" and ?b = "headIndex p - of_nat (slot (headIndex p))"
  have k: "block_rep q p rs xs" "?n < 2 ^ 63" "length rs = (slot (headIndex p) + ?n + 31) div 32"
    using r by (auto simp: rep_def Let_def)
  then have h: "tailIndex p = headIndex p + of_nat ?n" "dequeueOptimisticCount p = headIndex p" "dequeueOvercommit p = 0"
    "index_rep p (blocks_from ?b rs)" by (simp_all add: block_rep_def Let_def)
  have u: "unat (of_nat j :: u64) = j" if "j \<le> ?n" for j using that k(2) by (simp add: unat_of_nat take_bit_nat_eq_self)
  have pos: "circular_less_than 0 (of_nat ?n) \<longleftrightarrow> xs \<noteq> []" using circular_less_than_iff [of ?n 0] k(2) by simp
  show ?thesis
  proof (cases "xs = []")
    case True
    then have "producer_dequeue_bulk m (q, p) = Some ([], q, p)" using pos h by (simp add: producer_dequeue_bulk_def Let_def)
    moreover have "dequeued q rs xs U (q, p)" using r ok by (intro dequeuedI [where rs' = rs]) simp_all
    ultimately show ?thesis using True by auto
  next
    case False
    let ?k = "min ?n (unat m)"
    have mn: "(if of_nat ?n < m then of_nat ?n else m) = (of_nat ?k :: u64)"
      using u [of ?n] by (auto simp: word_less_nat_alt min_def)
    let ?p = "p\<lparr>headIndex := headIndex p + of_nat ?k, dequeueOptimisticCount := headIndex p + of_nat ?k\<rparr>"
    have ne: "0 < length rs" using k(3) False by (cases xs) auto
    have small: "length rs \<le> 2 ^ 58"
      using r blocks_padding [of "slot (headIndex p) + ?n"] slot_less [of "headIndex p"]
      by (simp add: rep_def Let_def del: slot_less)
    have "index_rep ?p (blocks_from ?b rs)" using h(4) by simp
    then obtain c bx ii where ix: "get_block_index_index_for_index (headIndex p) ?p = Some ii" "blockIndex ?p = Some bx"
      "index_at c bx ii ?p (blocks_from ?b rs)"
      using index_lookup_position [OF _ slot_base ne small, of ?p "headIndex p" "headIndex p"]
      by (simp add: and_not_31 del: index_rep_fields) blast
    have "producer_dequeue_bulk m (q, p) = take_blocks bx (headIndex p + of_nat ?k) ii (headIndex p) q ?p"
      using dequeue_bulk_some [of p "of_nat ?n" m "of_nat ?k" q] False pos h mn ix(1,2) by (simp del: of_nat_min)
    moreover have "positioned (headIndex p) ?p = p" using h(2) by (cases p) simp
    then have "\<exists>r. take_blocks bx (headIndex p + of_nat ?k) ii (headIndex p) q ?p = Some (take ?k xs, r) \<and>
        dequeued q rs (drop ?k xs) U r"
      using ix(3) False ok r by (intro take_blocks_rep [where c = c]) simp_all
    moreover have "take ?k xs = take (unat m) xs" "drop ?k xs = drop (unat m) xs" by (simp_all add: min_def)
    ultimately show ?thesis by simp
  qed
qed

end
