(* ===== verification/Bulk_Enqueue.thy ===== *)
theory Bulk_Enqueue
  imports Implicit_Bulk
begin

text \<open>
  \<open>concurrentqueue.h\<close>, \<open>enqueue_bulk\<close> of an implicit producer: the blocks are allocated and
  chained, all or none of them, and then filled. The producer's list is extended by all elements
  or not at all.
\<close>

section \<open>Chains of blocks\<close>

definition first_of :: "nat list \<Rightarrow> nat option" where
  "first_of rs = (if rs = [] then None else Some (hd rs))"

lemma first_of_simps [simp]: "first_of [] = None" "first_of (r # rs) = Some r" "first_of rs = None \<longleftrightarrow> rs = []"
  by (simp_all add: first_of_def)

lemma first_of_append: "first_of (rs @ [r]) = (if first_of rs = None then Some r else first_of rs)"
  by (cases rs) simp_all

text \<open>A chain ends with a null pointer.\<close>

fun chain :: "'a pool \<Rightarrow> nat list \<Rightarrow> bool" where
  "chain q [] \<longleftrightarrow> True"
| "chain q (r # rs) \<longleftrightarrow> blk_next (blocks q r) = first_of rs \<and> chain q rs"

lemma chain_cong: "(\<And>r. r \<in> set rs \<Longrightarrow> blk_next (blocks q' r) = blk_next (blocks q r)) \<Longrightarrow> chain q' rs = chain q rs"
  by (induction rs) simp_all

lemma chain_append:
  assumes "chain q rs" "distinct (rs @ [r])" "blk_next (blocks q' r) = None" "rs \<noteq> [] \<Longrightarrow> blk_next (blocks q' (last rs)) = Some r"
    and "\<And>u. u \<in> set rs \<Longrightarrow> u \<noteq> last rs \<Longrightarrow> blk_next (blocks q' u) = blk_next (blocks q u)"
  shows "chain q' (rs @ [r])"
  using assms
proof (induction rs)
  case (Cons a rs)
  have "rs \<noteq> [] \<Longrightarrow> a \<noteq> last rs" using Cons.prems(2) last_in_set by auto
  then show ?case using Cons by (cases "rs = []") (simp_all add: first_of_append)
qed simp

lemma chain_nth: "chain q rs \<Longrightarrow> Suc j < length rs \<Longrightarrow> blk_next (blocks q (rs ! j)) = Some (rs ! Suc j)"
  by (induction rs arbitrary: j) (auto simp: nth_Cons first_of_def hd_conv_nth split: nat.split)

lemma add_blocks_chain:
  "chain q rs \<Longrightarrow> add_blocks_to_free_list (first_of rs) q = Some (q\<lparr>free_list := rev rs @ free_list q\<rparr>)"
proof (induction rs arbitrary: q)
  case (Cons r rs)
  let ?q = "add_block_to_free_list r q"
  have "chain ?q rs" using Cons.prems chain_cong [of rs ?q q] by (simp add: add_block_to_free_list_def)
  from Cons.IH [OF this] Cons.prems show ?case
    by (subst add_blocks_to_free_list.simps) (simp add: add_block_to_free_list_def)
qed (simp add: add_blocks_to_free_list.simps)

lemma pool_ok_release_chain:
  assumes "pool_ok q (U \<union> set rs)" "distinct rs" "set rs \<inter> U = {}"
  shows "pool_ok (q\<lparr>free_list := rev rs @ free_list q\<rparr>) U"
  using assms by (auto simp: pool_ok_def initial_left_def)

section \<open>Giving the blocks back\<close>

lemma ring_position:
  fixes C E :: nat
  assumes "a < C" "E = C * m" "a \<le> E"
  shows "j \<le> a \<Longrightarrow> (t + 1 + (C - 1 - a + j)) mod C = (t + (j + (E - a))) mod C"
    and "a < j \<Longrightarrow> (t + 1 + (j - a - 1)) mod C = (t + (j + (E - a))) mod C"
proof -
  show "(t + 1 + (C - 1 - a + j)) mod C = (t + (j + (E - a))) mod C" if "j \<le> a"
  proof -
    have "t + 1 + (C - 1 - a + j) + C * m = t + (j + (E - a)) + C" using assms that by linarith
    then show ?thesis by (metis mod_mult_self2 mod_add_self2)
  qed
  show "(t + 1 + (j - a - 1)) mod C = (t + (j + (E - a))) mod C" if "a < j"
  proof -
    have "t + 1 + (j - a - 1) + C * m = t + (j + (E - a))" using assms that by linarith
    then show ?thesis by (metis mod_mult_self2)
  qed
qed

text \<open>One entry is found while the tail of the index is at block \<open>a\<close>, and the tail goes back.\<close>

lemma release_step:
  assumes ok: "index_ok c bx p" and r: "ring bx = drop (Suc a) us @ fs @ take (Suc a) us" and b: "slot b = 0"
    and l: "a < length us" "k < length us" "length us \<le> 2 ^ 58"
    and e: "entries p ! (us ! a) = (b + 32 * of_nat a, v)" "entries p ! (us ! k) = (b + 32 * of_nat k, Some d)"
  shows "get_block_index_entry_for_index (b + 32 * of_nat k) p = Some (us ! k)"
    and "\<exists>bx'. index_ok c bx' (rewind_block_index_tail (set_value (us ! k) None p)) \<and> ring bx' = drop a us @ fs @ take a us"
proof -
  have c: "blockIndex p = Some bx" "c \<le> 58" "unat (bx_tail bx) < 2 ^ c" using ok by (simp_all add: index_ok_def)
  have "length (drop (Suc a) us @ fs @ take (Suc a) us) = 2 ^ c" using ring_length [OF ok] r by simp
  then have lr: "length us + length fs = 2 ^ c" using l(1) unfolding length_append length_drop length_take by linarith
  let ?t = "unat (bx_tail bx)"
  have "(2 :: nat) ^ c dvd 2 ^ 59" using c(2) by (intro le_imp_power_dvd) simp
  then obtain m where m: "(2 :: nat) ^ 59 = 2 ^ c * m" by (rule dvdE)
  have at: "bx_index bx ! ((?t + (j + (2 ^ 59 - a))) mod 2 ^ c) = us ! j" if j: "j < length us" for j
  proof -
    have a: "a \<le> 2 ^ 59" "a < 2 ^ c" using l lr by simp_all
    show ?thesis
    proof (cases "j \<le> a")
      case True
      let ?pos = "2 ^ c - 1 - a + j"
      have ls: "length (drop (Suc a) us) + length fs = 2 ^ c - 1 - a" using lr l(1) by simp
      have "ring bx ! ?pos = take (Suc a) us ! j"
        unfolding r ls [symmetric] by (simp add: nth_append)
      then have n: "ring bx ! ?pos = us ! j" using True by simp
      have "?pos < 2 ^ c" using True l lr by simp
      then have "us ! j = bx_index bx ! ((?t + 1 + ?pos) mod 2 ^ c)" using ring_nth [OF ok] n by simp
      then show ?thesis by (simp only: ring_position(1) [OF a(2) m a(1) True])
    next
      case False
      let ?pos = "j - a - 1"
      have "j - Suc a < length us - Suc a" using False j by linarith
      then have n: "ring bx ! ?pos = us ! j" unfolding r using False j by (simp add: nth_append)
      have "?pos < 2 ^ c" using j lr by simp
      then have "us ! j = bx_index bx ! ((?t + 1 + ?pos) mod 2 ^ c)" using ring_nth [OF ok] n by simp
      then show ?thesis using False by (simp only: ring_position(2) [OF a(2) m a(1)] linorder_not_le)
    qed
  qed
  have "bx_index bx ! ?t = us ! a"
  proof -
    have "?t + (a + (2 ^ 59 - a)) = ?t + 2 ^ c * m" using m l by simp
    then show ?thesis using at [OF l(1)] c(3) by simp
  qed
  then have tl: "fst (entries p ! (bx_index bx ! unat (bx_tail bx))) = b + 32 * of_nat a" using e(1) by simp
  have idx: "(b + 32 * of_nat k) AND NOT (BLOCK_SIZE - 1) = b + 32 * of_nat k" using slot_plus_32 [of b k] b by (simp add: and_not_31)
  have small: "a < 2 ^ 58" "k < 2 ^ 58" using l by simp_all
  obtain i where i: "get_block_index_index_for_index (b + 32 * of_nat k) p = Some i"
    "unat i = (unat (bx_tail bx) + (k + (2 ^ 59 - a))) mod 2 ^ c"
    using lookup_at [OF ok b small tl idx, of d] e(2) at [OF l(2)] by auto
  then show "get_block_index_entry_for_index (b + 32 * of_nat k) p = Some (us ! k)"
    using at [OF l(2)] c(1) by (simp add: get_block_index_entry_for_index_def)
  have ok': "index_ok c bx (set_value (us ! k) None p)" using ok by (simp add: index_ok_def set_value_def)
  have "last (ring bx) = us ! a" "butlast (ring bx) = drop (Suc a) us @ fs @ take a us"
    using l(1) by (simp_all add: r take_Suc_conv_app_nth butlast_append)
  then show "\<exists>bx'. index_ok c bx' (rewind_block_index_tail (set_value (us ! k) None p)) \<and> ring bx' = drop a us @ fs @ take a us"
    using ring_rewind [OF ok'] Cons_nth_drop_Suc [OF l(1)]
    by (intro exI [of _ "bx\<lparr>bx_tail := (bx_tail bx - 1) AND (bx_capacity bx - 1)\<rparr>"]) (simp flip: append_Cons)
qed

lemma rotated_distinct:
  assumes "distinct (drop k us @ fs @ take k us)"
  shows "distinct us" "set us \<inter> set fs = {}" "set us = set (drop k us) \<union> set (take k us)"
proof -
  have "distinct (take k us @ drop k us)" using assms unfolding distinct_append by (simp del: append_take_drop_id) blast
  then show "distinct us" by (simp only: append_take_drop_id)
  show s: "set us = set (drop k us) \<union> set (take k us)" by (metis append_take_drop_id set_append Un_commute)
  show "set us \<inter> set fs = {}" using assms unfolding s by auto
qed

text \<open>The entries of the blocks \<open>us3\<close> are given back from the first on, those of \<open>us2\<close> already
  are, and those of \<open>us1\<close> stay.\<close>

lemma release_entries_rep:
  assumes "index_ok c bx p" "ring bx = drop (length us1 + length us3) us @ fs @ take (length us1 + length us3) us"
    and "us = us1 @ us2 @ us3" "length us \<le> 2 ^ 58" "slot b = 0" "cur + BLOCK_SIZE = b + 32 * of_nat (length us1 + length us2)"
    and "list_all (entry_free (entries p)) fs" "\<And>e. e \<in> set us2 \<Longrightarrow> snd (entries p ! e) = None"
    and "\<And>j. j < length us \<Longrightarrow> fst (entries p ! (us ! j)) = b + 32 * of_nat j"
    and "map (\<lambda>e. snd (entries p ! e)) us1 = map Some rs" "map (\<lambda>e. snd (entries p ! e)) us3 = map Some ns" "chain q ns"
  shows "\<exists>p'. release_entries cur (first_of ns) q p = Some p' \<and> index_rep p' (blocks_from b rs) \<and>
    headIndex p' = headIndex p \<and> tailIndex p' = tailIndex p \<and> dequeueOptimisticCount p' = dequeueOptimisticCount p \<and>
    dequeueOvercommit p' = dequeueOvercommit p"
  using assms
proof (induction ns arbitrary: bx p us2 us3 cur)
  case Nil
  then have e: "us3 = []" by simp
  have "map ((!) (entries p)) us1 = map (\<lambda>(b, r). (b, Some r)) (blocks_from b rs)"
  proof (rule nth_equalityI)
    have l: "length us1 = length rs" using Nil.prems(10) by (metis length_map)
    then show "length (map ((!) (entries p)) us1) = length (map (\<lambda>(b, r). (b, Some r)) (blocks_from b rs))" by simp
    fix j assume "j < length (map ((!) (entries p)) us1)"
    then have j: "j < length us1" "j < length rs" using l by simp_all
    have "snd (entries p ! (us1 ! j)) = Some (rs ! j)" using arg_cong [OF Nil.prems(10), of "\<lambda>xs. xs ! j"] j by simp
    moreover have "fst (entries p ! (us1 ! j)) = b + 32 * of_nat j" using Nil.prems(9) [of j] j Nil.prems(3) by (simp add: nth_append)
    ultimately show "map ((!) (entries p)) us1 ! j = map (\<lambda>(b, r). (b, Some r)) (blocks_from b rs) ! j"
      using j by (simp add: blocks_from_nth prod_eq_iff)
  qed
  moreover have "ring bx = (us2 @ fs) @ us1" using Nil.prems(2,3) e by simp
  moreover have "list_all (entry_free (entries p)) (us2 @ fs)"
    using Nil.prems(7,8) by (auto simp: list_all_iff entry_free_def)
  ultimately have "index_rep p (blocks_from b rs)" using Nil.prems(1) unfolding index_rep_def by blast
  then show ?case by (simp add: release_entries.simps)
next
  case (Cons d ns)
  then obtain u vs where us3: "us3 = u # vs" "snd (entries p ! u) = Some d" "map (\<lambda>e. snd (entries p ! e)) vs = map Some ns"
    by (cases us3) auto
  let ?a = "length us1 + length vs" and ?k = "length us1 + length us2"
  let ?p = "rewind_block_index_tail (set_value (us ! ?k) None p)"
  have r: "ring bx = drop (Suc ?a) us @ fs @ take (Suc ?a) us" using Cons.prems(2) us3(1) by simp
  have l: "?a < length us" "?k < length us" using Cons.prems(3) us3(1) by simp_all
  have uk: "us ! ?k = u" using Cons.prems(3) us3(1) by (simp add: nth_append)
  have e: "entries p ! (us ! ?a) = (b + 32 * of_nat ?a, snd (entries p ! (us ! ?a)))"
    "entries p ! (us ! ?k) = (b + 32 * of_nat ?k, Some d)"
    using Cons.prems(9) [OF l(1)] Cons.prems(9) [OF l(2)] us3(2) uk by (simp_all add: prod_eq_iff)
  note st = release_step [OF Cons.prems(1) r Cons.prems(5) l Cons.prems(4) e]
  obtain bx' where bx': "index_ok c bx' ?p" "ring bx' = drop ?a us @ fs @ take ?a us" using st(2) by blast
  have di: "distinct (drop (Suc ?a) us @ fs @ take (Suc ?a) us)" using ring_length [OF Cons.prems(1)] r by metis
  note rd = rotated_distinct [OF di]
  have nu: "u \<notin> set us1" "u \<notin> set us2" "u \<notin> set vs" "u \<notin> set fs" using rd(1,2) Cons.prems(3) us3(1) by auto
  have ul: "u < length (entries p)"
  proof -
    have "u \<in> set (ring bx)" unfolding r using rd(3) Cons.prems(3) us3(1) by auto
    then show ?thesis using ring_length [OF Cons.prems(1)] by auto
  qed
  have en: "entries ?p = (entries p)[u := (b + 32 * of_nat ?k, None)]"
    using e(2) unfolding uk by (simp add: rewind_block_index_tail_def set_value_def split: option.split)
  have fn: "fst (entries ?p ! e) = fst (entries p ! e)" for e using e(2) uk en ul by (cases "e = u") simp_all
  have sn: "e \<noteq> u \<Longrightarrow> snd (entries ?p ! e) = snd (entries p ! e)" for e using en by simp
  have us: "us = us1 @ (us2 @ [u]) @ vs" using Cons.prems(3) us3(1) by simp
  have cur: "cur + BLOCK_SIZE + BLOCK_SIZE = b + 32 * of_nat (length us1 + length (us2 @ [u]))"
    using Cons.prems(6) by (simp add: BLOCK_SIZE_def algebra_simps)
  have IH: "\<exists>p'. release_entries (cur + BLOCK_SIZE) (first_of ns) q ?p = Some p' \<and> index_rep p' (blocks_from b rs) \<and>
      headIndex p' = headIndex ?p \<and> tailIndex p' = tailIndex ?p \<and> dequeueOptimisticCount p' = dequeueOptimisticCount ?p \<and>
      dequeueOvercommit p' = dequeueOvercommit ?p"
  proof (rule Cons.IH [OF bx' us Cons.prems(4,5) cur])
    show "list_all (entry_free (entries ?p)) fs" using Cons.prems(7) nu(4) by (simp only: en entries_free_update not_False_eq_True)
    show "snd (entries ?p ! e) = None" if "e \<in> set (us2 @ [u])" for e
      using that Cons.prems(8) sn ul by (cases "e = u") (auto simp: en)
    show "fst (entries ?p ! (us ! j)) = b + 32 * of_nat j" if "j < length us" for j using Cons.prems(9) [OF that] fn by simp
    have "map (\<lambda>e. snd (entries ?p ! e)) us1 = map (\<lambda>e. snd (entries p ! e)) us1" using nu(1) by (intro map_cong refl sn) auto
    then show "map (\<lambda>e. snd (entries ?p ! e)) us1 = map Some rs" using Cons.prems(10) by simp
    have "map (\<lambda>e. snd (entries ?p ! e)) vs = map (\<lambda>e. snd (entries p ! e)) vs" using nu(3) by (intro map_cong refl sn) auto
    then show "map (\<lambda>e. snd (entries ?p ! e)) vs = map Some ns" using us3(3) by simp
  qed (use Cons.prems(12) in simp)
  have "release_entries cur (first_of (d # ns)) q p = release_entries (cur + BLOCK_SIZE) (first_of ns) q ?p"
    using st(1) Cons.prems(6,12) by (subst release_entries.simps) (simp add: Let_def del: of_nat_add)
  then show ?case using IH by (simp add: rewind_fields set_value_def)
qed

lemma block_rep_prefix:
  assumes r: "block_rep q p (rs @ news) xs" and ix: "index_rep p' (blocks_from (headIndex p - of_nat (slot (headIndex p))) rs)"
    and p': "headIndex p' = headIndex p" "tailIndex p' = tailIndex p" "dequeueOptimisticCount p' = dequeueOptimisticCount p"
    "dequeueOvercommit p' = dequeueOvercommit p" and l: "(slot (headIndex p) + length xs + 31) div 32 \<le> length rs"
  shows "block_rep q p' rs xs"
proof -
  have "elementsCompletelyDequeued (blocks q (rs ! j)) = (if j = 0 then of_nat (slot (headIndex p)) else 0)" if "j < length rs" for j
    using r that by (auto simp: block_rep_def Let_def nth_append dest: spec [of _ j])
  moreover have "elements (blocks q (rs ! ((slot (headIndex p) + k) div 32))) ! ((slot (headIndex p) + k) mod 32) = Some (xs ! k)"
    if "k < length xs" for k
    using r that block_index_less [OF slot_less that l] by (auto simp: block_rep_def Let_def nth_append dest: spec [of _ k])
  ultimately show ?thesis using r ix p' by (simp add: block_rep_def Let_def)
qed

lemma revert_rep:
  assumes r: "block_rep q p (rs @ news) xs" and ch: "chain q news" and ok: "pool_ok q (U \<union> set news)" "set news \<inter> U = {}"
    and l: "(slot (headIndex p) + length xs + 31) div 32 \<le> length rs" "length (rs @ news) \<le> 2 ^ 58"
    and cur: "((start - 1) AND NOT (BLOCK_SIZE - 1)) + BLOCK_SIZE =
      headIndex p - of_nat (slot (headIndex p)) + 32 * of_nat (length rs)"
  shows "\<exists>q' p'. revert_allocation start sb (first_of news) q p = Some (q', p') \<and> block_rep q' p' rs xs \<and>
    tailBlock p' = sb \<and> headIndex p' = headIndex p \<and> pool_ok q' U \<and> blocks q' = blocks q"
proof -
  let ?b = "headIndex p - of_nat (slot (headIndex p))" and ?q = "q\<lparr>free_list := rev news @ free_list q\<rparr>"
  have "index_rep p (blocks_from ?b (rs @ news))" using r by (simp add: block_rep_def Let_def)
  then obtain c bx fs us where ix: "index_ok c bx p" "ring bx = fs @ us"
    "map ((!) (entries p)) us = map (\<lambda>(b, r). (b, Some r)) (blocks_from ?b (rs @ news))" "list_all (entry_free (entries p)) fs"
    by (auto simp: index_rep_def)
  have lu: "length us = length rs + length news" using ix(3) by (metis length_map length_blocks_from length_append)
  have en: "entries p ! (us ! j) = (?b + 32 * of_nat j, Some ((rs @ news) ! j))" if "j < length us" for j
    using arg_cong [OF ix(3), of "\<lambda>xs. xs ! j"] that lu by (simp add: blocks_from_nth)
  let ?us1 = "take (length rs) us" and ?us3 = "drop (length rs) us"
  have us: "us = ?us1 @ [] @ ?us3" "length ?us1 + length ?us3 = length us" using lu by simp_all
  have "\<exists>p'. release_entries ((start - 1) AND NOT (BLOCK_SIZE - 1)) (first_of news) q p = Some p' \<and> index_rep p' (blocks_from ?b rs) \<and>
      headIndex p' = headIndex p \<and> tailIndex p' = tailIndex p \<and> dequeueOptimisticCount p' = dequeueOptimisticCount p \<and>
      dequeueOvercommit p' = dequeueOvercommit p"
  proof (rule release_entries_rep [OF ix(1) _ us(1) _ slot_base _ ix(4) _ _ _ _ ch])
    show "ring bx = drop (length ?us1 + length ?us3) us @ fs @ take (length ?us1 + length ?us3) us" using ix(2) us(2) by simp
    show "map (\<lambda>e. snd (entries p ! e)) ?us1 = map Some rs" by (rule nth_equalityI) (use lu en in \<open>simp_all add: nth_append\<close>)
    show "map (\<lambda>e. snd (entries p ! e)) ?us3 = map Some news" by (rule nth_equalityI) (use lu en in \<open>simp_all add: nth_append\<close>)
  qed (use cur l(2) lu en in simp_all)
  then obtain p' where p': "release_entries ((start - 1) AND NOT (BLOCK_SIZE - 1)) (first_of news) q p = Some p'"
    "index_rep p' (blocks_from ?b rs)" "headIndex p' = headIndex p" "tailIndex p' = tailIndex p"
    "dequeueOptimisticCount p' = dequeueOptimisticCount p" "dequeueOvercommit p' = dequeueOvercommit p" by blast
  have "revert_allocation start sb (first_of news) q p = Some (?q, p'\<lparr>tailBlock := sb\<rparr>)"
    by (simp add: revert_allocation_def p'(1) add_blocks_chain [OF ch])
  moreover have "block_rep q (p'\<lparr>tailBlock := sb\<rparr>) rs xs" by (rule block_rep_prefix [OF r _ _ _ _ _ l(1)]) (use p' in simp_all)
  then have "block_rep ?q (p'\<lparr>tailBlock := sb\<rparr>) rs xs" by (rule block_rep_frame) (use l(1) p'(3) in simp_all)
  moreover have "distinct news" using r by (simp add: block_rep_def Let_def)
  then have "pool_ok ?q U" using ok by (intro pool_ok_release_chain) simp_all
  ultimately show ?thesis using p'(3) by (intro exI [of _ ?q] exI [of _ "p'\<lparr>tailBlock := sb\<rparr>"]) simp
qed

section \<open>Allocating the blocks\<close>

text \<open>The blocks \<open>news\<close> have been allocated for a producer that was in the state \<open>q0\<close>, \<open>p0\<close>.\<close>

definition allocated ::
  "'a pool \<Rightarrow> producer \<Rightarrow> nat list \<Rightarrow> 'a list \<Rightarrow> nat set \<Rightarrow> nat list \<Rightarrow> 'a pool \<Rightarrow> producer \<Rightarrow> bool" where
  "allocated q0 p0 rs xs U news q p \<longleftrightarrow>
     block_rep q p (rs @ news) xs \<and> pool_ok q (U \<union> set news) \<and> set news \<inter> U = {} \<and> chain q news \<and>
     tailBlock p = (if news = [] then tailBlock p0 else Some (last news)) \<and>
     headIndex p = headIndex p0 \<and> tailIndex p = tailIndex p0 \<and>
     (news \<noteq> [] \<and> (slot (headIndex p0) + length xs) mod 32 \<noteq> 0 \<longrightarrow> blk_next (blocks q (last rs)) = Some (hd news)) \<and>
     (\<forall>u \<in> U - set rs. blocks q u = blocks q0 u) \<and> 32 * length (rs @ news) < 2 ^ 63 + slot (headIndex p0)"

lemma set_next_blocks:
  "u \<noteq> r \<Longrightarrow> blocks (set_next r n q) u = blocks q u" "same_content (set_next r n q) q u"
  "blk_next (blocks (set_next r n q) r) = n" "length (elements (blocks (set_next r n q) u)) = length (elements (blocks q u))"
  by (simp_all add: set_next_def same_content_def)

lemma set_next_pool_ok: "pool_ok q U \<Longrightarrow> pool_ok (set_next r n q) U"
  by (simp add: set_next_def pool_ok_def initial_left_def)

lemma allocated_start:
  assumes "rep q p rs xs" "pool_ok q U"
  shows "allocated q p rs xs U [] q p"
proof -
  have "32 * length rs < 2 ^ 63 + slot (headIndex p)"
    using assms(1) blocks_padding [of "slot (headIndex p) + length xs"] by (simp add: rep_def Let_def)
  then show ?thesis using assms by (simp add: allocated_def rep_def Let_def)
qed

text \<open>One more block.\<close>

lemma link_block_allocated:
  assumes al: "allocated q0 p0 rs xs U news q p" and l: "(slot (headIndex p0) + length xs + 31) div 32 \<le> length rs"
    and tb: "(slot (headIndex p0) + length xs) mod 32 \<noteq> 0 \<Longrightarrow> tailBlock p0 = Some (last rs) \<and> rs \<noteq> []" and U: "set rs \<subseteq> U"
    and st: "start AND (BLOCK_SIZE - 1) \<noteq> 0 \<longleftrightarrow> (slot (headIndex p0) + length xs) mod 32 \<noteq> 0"
    and ins: "inserted (headIndex p0 - of_nat (slot (headIndex p0)) + 32 * of_nat (length (rs @ news)))
      (blocks_from (headIndex p0 - of_nat (slot (headIndex p0))) (rs @ news)) p (Some e, p1)"
    and req: "requisition_block ca bm q = (Some d, q1)"
    and fit: "32 * Suc (length (rs @ news)) < 2 ^ 63 + slot (headIndex p0)"
  shows "\<exists>q' p'. link_block start (first_of news) e d q1 p1 = Some (q', p') \<and> allocated q0 p0 rs xs U (news @ [d]) q' p'"
proof -
  let ?off = "slot (headIndex p0)"
  have k: "block_rep q p (rs @ news) xs" "pool_ok q (U \<union> set news)" "set news \<inter> U = {}" "chain q news"
    "tailBlock p = (if news = [] then tailBlock p0 else Some (last news))" "headIndex p = headIndex p0" "tailIndex p = tailIndex p0"
    "news \<noteq> [] \<and> (?off + length xs) mod 32 \<noteq> 0 \<longrightarrow> blk_next (blocks q (last rs)) = Some (hd news)"
    "\<forall>u \<in> U - set rs. blocks q u = blocks q0 u" using al by (simp_all add: allocated_def)
  have d: "d \<notin> U \<union> set news" "pool_ok q1 (insert d (U \<union> set news))" "\<forall>u \<in> U \<union> set news. blocks q1 u = blocks q u"
    using requisition_block_ok [OF k(2) req] by simp_all
  have p1: "headIndex p1 = headIndex p" "tailIndex p1 = tailIndex p" "tailBlock p1 = tailBlock p"
    using ins by (simp_all add: inserted_def)
  let ?q = "set_next d None (q1\<lparr>blocks := (blocks q1)(d := reset_empty (blocks q1 d))\<rparr>)"
    and ?p = "(set_value e (Some d) p1)\<lparr>tailBlock := Some d\<rparr>"
  let ?link = "news \<noteq> [] \<or> (?off + length xs) mod 32 \<noteq> 0"
  let ?t = "if news = [] then last rs else last news"
  let ?q2 = "if ?link then set_next ?t (Some d) ?q else ?q"
  have t1: "?t \<in> set rs \<union> set news" if ?link using that tb by (auto dest: last_in_set)
  then have t: "?t \<noteq> d" if ?link using that d(1) U by blast
  have "link_block start (first_of news) e d q1 p1 = Some (?q2, ?p)"
    using st tb by (auto simp: link_block_def Let_def p1 k(5) set_value_def)
  moreover have "allocated q0 p0 rs xs U (news @ [d]) ?q2 ?p"
  proof -
    have same: "blocks ?q u = blocks q u" if "u \<in> U \<union> set news" for u
      using that d by (auto simp: set_next_def)
    have same2: "blocks ?q2 u = blocks q u" if "u \<in> U \<union> set news" "?link \<Longrightarrow> u \<noteq> ?t" for u
      using that same by (auto simp: set_next_blocks)
    have dq: "elements (blocks ?q2 d) = elements (blocks q1 d)" "elementsCompletelyDequeued (blocks ?q2 d) = 0"
      "blk_next (blocks ?q2 d) = None" using t by (cases ?link; simp add: set_next_def reset_empty_def; fail)+
    have content: "same_content ?q2 q u" if "u \<in> set (rs @ news)" for u
    proof -
      have "same_content ?q2 ?q u" by (simp add: set_next_blocks(2)) (simp add: same_content_def)
      moreover have "blocks ?q u = blocks q u" using same that U by auto
      ultimately show ?thesis by (simp add: same_content_def)
    qed
    have l': "(slot (headIndex p) + length xs + 31) div 32 \<le> length (rs @ news)" using l k(6) by simp
    have ld: "length (elements (blocks q1 d)) = 32" using pool_ok_used [OF d(2)] by simp
    have nd: "d \<notin> set (rs @ news)" using d(1) U by auto
    have br: "block_rep ?q2 ?p ((rs @ news) @ [d]) xs"
      by (rule block_rep_append [OF k(1) l' _ _ nd _ _ content, where start = "headIndex p - of_nat ?off + 32 * of_nat (length (rs @ news))"])
        (use ins k(6) dq(1,2) ld in simp_all)
    have "pool_ok (q1\<lparr>blocks := (blocks q1)(d := reset_empty (blocks q1 d))\<rparr>) (insert d (U \<union> set news))"
      using d(2) ld by (intro pool_ok_update) (simp_all add: reset_empty_def)
    then have okq: "pool_ok ?q (U \<union> set (news @ [d]))" using set_next_pool_ok by auto
    have ok: "pool_ok ?q2 (U \<union> set (news @ [d]))"
    proof (cases ?link)
      case True
      show ?thesis unfolding if_P [OF True] by (rule set_next_pool_ok [OF okq])
    next
      case False
      show ?thesis unfolding if_not_P [OF False] by (rule okq)
    qed
    have "distinct (news @ [d])" using br by (simp add: block_rep_def Let_def)
    then have ch: "chain ?q2 (news @ [d])"
    proof (rule chain_append [OF k(4)])
      show "blk_next (blocks ?q2 (last news)) = Some d" if "news \<noteq> []" using that by (simp add: set_next_blocks(3))
      show "blk_next (blocks ?q2 u) = blk_next (blocks q u)" if "u \<in> set news" "u \<noteq> last news" for u
        using same2 [of u] that by auto
    qed (use dq in simp)
    have first: "blk_next (blocks ?q2 (last rs)) = Some (hd (news @ [d]))" if "(?off + length xs) mod 32 \<noteq> 0"
    proof (cases "news = []")
      case True
      then show ?thesis using that by (simp add: set_next_blocks(3))
    next
      case False
      have u: "last rs \<in> U" using tb [OF that] last_in_set [of rs] U by auto
      then have "last rs \<noteq> ?t" using k(3) False last_in_set [OF False] by (auto simp: disjoint_iff)
      then have "blocks ?q2 (last rs) = blocks q (last rs)" using u by (intro same2) simp_all
      then show ?thesis using k(8) that False by simp
    qed
    have other: "blocks ?q2 u = blocks q0 u" if u: "u \<in> U - set rs" for u
    proof -
      have "u \<noteq> ?t" if ?link using t1 [OF that] u k(3) that tb by (cases "news = []") (auto simp: disjoint_iff)
      then have "blocks ?q2 u = blocks q u" using u by (intro same2) simp_all
      then show ?thesis using u k(9) by simp
    qed
    have "tailBlock ?p = (if news @ [d] = [] then tailBlock p0 else Some (last (news @ [d])))" "headIndex ?p = headIndex p0"
      "tailIndex ?p = tailIndex p0" "set (news @ [d]) \<inter> U = {}" "block_rep ?q2 ?p (rs @ news @ [d]) xs"
      "32 * length (rs @ news @ [d]) < 2 ^ 63 + slot (headIndex p0)"
      using p1 k(3,6,7) d(1) br fit by (simp_all add: set_value_def)
    then show ?thesis unfolding allocated_def using ok ch first other by blast
  qed
  ultimately show ?thesis by blast
qed

text \<open>What the allocation of \<open>n\<close> blocks promises.\<close>

definition allocation ::
  "'a pool \<Rightarrow> producer \<Rightarrow> nat list \<Rightarrow> 'a list \<Rightarrow> nat set \<Rightarrow> nat \<Rightarrow> bool \<times> nat option \<times> 'a pool \<times> producer \<Rightarrow> bool" where
  "allocation q0 p0 rs xs U n r \<longleftrightarrow>
     (case r of (okay, first, q, p) \<Rightarrow>
        if okay then \<exists>news. length news = n \<and> first = first_of news \<and> allocated q0 p0 rs xs U news q p
        else block_rep q p rs xs \<and> tailBlock p = tailBlock p0 \<and> headIndex p = headIndex p0 \<and> pool_ok q U \<and>
          (\<forall>u \<in> U - set rs. blocks q u = blocks q0 u))"

lemma revert_allocated:
  assumes al: "allocated q0 p0 rs xs U news q p" and p': "index_rep p' (blocks_from (headIndex p - of_nat (slot (headIndex p))) (rs @ news))"
    "headIndex p' = headIndex p" "tailIndex p' = tailIndex p" "dequeueOptimisticCount p' = dequeueOptimisticCount p"
    "dequeueOvercommit p' = dequeueOvercommit p"
    and l: "(slot (headIndex p0) + length xs + 31) div 32 \<le> length rs"
    and cur: "((start - 1) AND NOT (BLOCK_SIZE - 1)) + BLOCK_SIZE =
      headIndex p0 - of_nat (slot (headIndex p0)) + 32 * of_nat (length rs)"
  shows "\<exists>q2 p2. revert_allocation start (tailBlock p0) (first_of news) q p' = Some (q2, p2) \<and>
    allocation q0 p0 rs xs U n (False, f, q2, p2)"
proof -
  have k: "block_rep q p (rs @ news) xs" "chain q news" "pool_ok q (U \<union> set news)" "set news \<inter> U = {}"
    "headIndex p = headIndex p0" "32 * length (rs @ news) < 2 ^ 63 + slot (headIndex p0)"
    "\<forall>u \<in> U - set rs. blocks q u = blocks q0 u"
    using al by (simp_all add: allocated_def)
  have "32 * length (rs @ news) < 2 ^ 63 + 32" using k(6) slot_less [of "headIndex p0"] by (simp del: slot_less)
  then have small: "length (rs @ news) \<le> 2 ^ 58" by simp
  have "block_rep q p ((rs @ news) @ []) xs" using k(1) by simp
  then have br: "block_rep q p' (rs @ news) xs" by (rule block_rep_prefix [OF _ p']) (use l k(5) in simp)
  have h: "headIndex p' = headIndex p0" using p'(2) k(5) by simp
  obtain q2 p2 where r: "revert_allocation start (tailBlock p0) (first_of news) q p' = Some (q2, p2)" "block_rep q2 p2 rs xs"
    "tailBlock p2 = tailBlock p0" "headIndex p2 = headIndex p'" "pool_ok q2 U" "blocks q2 = blocks q"
    using revert_rep [OF br k(2-4) _ small, of start "tailBlock p0"] l cur unfolding h by blast
  then show ?thesis using h k(7) by (intro exI [of _ q2] exI [of _ p2]) (simp add: allocation_def)
qed

lemma blocks_pos:
  assumes "k < 2 ^ 59"
  shows "(0 :: u64) < 32 * of_nat k \<longleftrightarrow> 0 < k"
proof -
  have "unat (of_nat (32 * k) :: u64) = 32 * k" using assms by (simp add: unat_of_nat take_bit_nat_eq_self del: of_nat_mult)
  then show ?thesis by (simp add: word_less_nat_alt)
qed

lemma allocate_blocks_step:
  assumes "cur + BLOCK_SIZE = c" "\<not> circular_less_than c (headIndex p)"
    and "\<not> (\<not> circular_less_than (headIndex p) (c + BLOCK_SIZE) \<or> (ms \<noteq> - 1 \<and> (ms = 0 \<or> ms - BLOCK_SIZE < c - headIndex p)))"
    and "insert_block_index_entry ca (im i) stale c p = Some (e, p1)" "requisition_block ca (bm i) q = (d, q1)"
  shows "allocate_blocks ms ca im bm stale start sb i diff cur first q p =
    (case (e, p1) of
       (None, p) \<Rightarrow> map_option (\<lambda>(q, p). (False, first, q, p)) (revert_allocation start sb first q p)
     | (Some e, p) \<Rightarrow>
         (case (d, q1) of
            (None, q) \<Rightarrow> map_option (\<lambda>(q, p). (False, first, q, p))
              (revert_allocation start sb first q (set_value e None (rewind_block_index_tail p)))
          | (Some r, q) \<Rightarrow>
              (case link_block start first e r q p of
                 None \<Rightarrow> None
               | Some (q, p) \<Rightarrow>
                   (let f = (if first = None then Some r else first) in
                    if 0 < diff - BLOCK_SIZE
                    then allocate_blocks ms ca im bm stale start sb (i + 1) (diff - BLOCK_SIZE) c f q p
                    else Some (True, f, q, p)))))"
  by (subst allocate_blocks.simps)
    (simp only: Let_def assms(1) if_not_P [OF assms(2)] if_not_P [OF assms(3)] assms(4) option.case prod.case assms(5))

lemma allocate_blocks_rep:
  assumes l: "(slot (headIndex p0) + length xs + 31) div 32 \<le> length rs"
    and tb: "(slot (headIndex p0) + length xs) mod 32 \<noteq> 0 \<Longrightarrow> tailBlock p0 = Some (last rs) \<and> rs \<noteq> []" and U: "set rs \<subseteq> U"
    and st: "start AND (BLOCK_SIZE - 1) \<noteq> 0 \<longleftrightarrow> (slot (headIndex p0) + length xs) mod 32 \<noteq> 0"
    and start: "((start - 1) AND NOT (BLOCK_SIZE - 1)) + BLOCK_SIZE =
      headIndex p0 - of_nat (slot (headIndex p0)) + 32 * of_nat (length rs)"
  shows "allocated q0 p0 rs xs U news q p \<Longrightarrow> 0 < k \<Longrightarrow> k < 2 ^ 59 \<Longrightarrow> diff = 32 * of_nat k \<Longrightarrow>
    cur + BLOCK_SIZE = headIndex p0 - of_nat (slot (headIndex p0)) + 32 * of_nat (length (rs @ news)) \<Longrightarrow>
    \<exists>r. allocate_blocks ms ca im bm stale start (tailBlock p0) i diff cur (first_of news) q p = Some r \<and>
      allocation q0 p0 rs xs U (length news + k) r \<and>
      (ms = - 1 \<and> ca \<and> (\<forall>i. im i \<and> bm i) \<and> 32 * (length (rs @ news) + k) < 2 ^ 63 + slot (headIndex p0) \<longrightarrow> fst r)"
proof (induction k arbitrary: news q p i diff cur)
  case (Suc k)
  note al = Suc.prems(1)
  let ?off = "slot (headIndex p0)" and ?m = "length (rs @ news)" and ?b = "headIndex p0 - of_nat (slot (headIndex p0))"
  have kk: "block_rep q p (rs @ news) xs" "headIndex p = headIndex p0" "32 * ?m < 2 ^ 63 + ?off" "pool_ok q (U \<union> set news)"
    using al by (simp_all add: allocated_def)
  have le: "?off \<le> 32 * ?m" "?off \<le> 32 * Suc ?m"
    using l blocks_padding [of "?off + length xs"] by simp_all
  let ?cur = "?b + 32 * of_nat ?m"
  have at: "?b + 32 * of_nat j = headIndex p0 + of_nat (32 * j - ?off)" if "?off \<le> 32 * j" for j
    using that by (simp add: of_nat_diff algebra_simps)
  have nl: "\<not> circular_less_than ?cur (headIndex p)"
    unfolding kk(2) at [OF le(1)] by (rule circular_not_less) (simp only: less_diff_conv2 [OF le(1)] kk(3))
  have cur2: "?cur + BLOCK_SIZE = ?b + 32 * of_nat (Suc ?m)" by (simp add: BLOCK_SIZE_def algebra_simps)
  have room: "circular_less_than (headIndex p) (?cur + BLOCK_SIZE) \<longleftrightarrow> 32 * Suc ?m < 2 ^ 63 + ?off"
  proof -
    have "32 * Suc ?m - ?off < 2 ^ 64" "0 < 32 * Suc ?m - ?off" using kk(3) slot_less [of "headIndex p0"] by (simp_all del: slot_less)
    then show ?thesis unfolding cur2 kk(2) at [OF le(2)] using circular_less_than_iff [of "32 * Suc ?m - ?off" "headIndex p0"] le(2) by linarith
  qed
  let ?full = "\<not> circular_less_than (headIndex p) (?cur + BLOCK_SIZE) \<or>
      (ms \<noteq> - 1 \<and> (ms = 0 \<or> ms - BLOCK_SIZE < ?cur - headIndex p))"
  let ?revert = "\<lambda>q p. map_option (\<lambda>(q, p). (False, first_of news, q, p)) (revert_allocation start (tailBlock p0) (first_of news) q p)"
  let ?g = "ms = - 1 \<and> ca \<and> (\<forall>i. im i \<and> bm i) \<and> 32 * (?m + Suc k) < 2 ^ 63 + ?off"
  have ix: "index_rep p (blocks_from (headIndex p - of_nat (slot (headIndex p))) (rs @ news))" using kk(1) by (simp add: block_rep_def Let_def)
  have rev: "\<exists>r. ?revert q p' = Some r \<and> allocation q0 p0 rs xs U (length news + Suc k) r"
    if "index_rep p' (blocks_from (headIndex p - of_nat (slot (headIndex p))) (rs @ news))"
    "headIndex p' = headIndex p" "tailIndex p' = tailIndex p" "dequeueOptimisticCount p' = dequeueOptimisticCount p"
    "dequeueOvercommit p' = dequeueOvercommit p" for p'
    using revert_allocated [OF al that l start, of "length news + Suc k" "first_of news"] by auto
  show ?case
  proof (cases ?full)
    case True
    have "allocate_blocks ms ca im bm stale start (tailBlock p0) i diff cur (first_of news) q p = ?revert q p"
      using True nl by (subst allocate_blocks.simps) (simp add: Let_def Suc.prems(5))
    moreover have "\<not> ?g" using True room by auto
    ultimately show ?thesis using rev [OF ix] by auto
  next
    case False
    then have fit: "32 * Suc ?m < 2 ^ 63 + ?off" using room by blast
    have "32 * Suc ?m < 2 ^ 63 + 32" using fit slot_less [of "headIndex p0"] by (simp del: slot_less)
    then have small: "?m < 2 ^ 58" by simp
    obtain e p1 where ins: "insert_block_index_entry ca (im i) stale ?cur p = Some (e, p1)"
      "inserted ?cur (blocks_from ?b (rs @ news)) p (e, p1)" "ca \<and> im i \<longrightarrow> e \<noteq> None"
      using insert_inserted [OF ix [unfolded kk(2)] blocks_from_valid [OF slot_base], of ca "im i" stale ?cur] small by auto
    obtain d q1 where req: "requisition_block ca (bm i) q = (d, q1)" by force
    have eq: "allocate_blocks ms ca im bm stale start (tailBlock p0) i diff cur (first_of news) q p =
        (case (e, p1) of
           (None, p) \<Rightarrow> ?revert q p
         | (Some e, p) \<Rightarrow>
             (case (d, q1) of
                (None, q) \<Rightarrow> ?revert q (set_value e None (rewind_block_index_tail p))
              | (Some r, q) \<Rightarrow>
                  (case link_block start (first_of news) e r q p of
                     None \<Rightarrow> None
                   | Some (q, p) \<Rightarrow>
                       (let f = (if first_of news = None then Some r else first_of news) in
                        if 0 < diff - BLOCK_SIZE
                        then allocate_blocks ms ca im bm stale start (tailBlock p0) (i + 1) (diff - BLOCK_SIZE) ?cur f q p
                        else Some (True, f, q, p)))))"
      by (rule allocate_blocks_step [where im = im and bm = bm, OF Suc.prems(5) nl False ins(1) req])
    show ?thesis
    proof (cases "e = None \<or> d = None")
      case True
      then have "\<not> ?g" using ins(3) requisition_block_ok [OF kk(4) req] by (auto split: option.splits)
      moreover have "\<exists>r. allocate_blocks ms ca im bm stale start (tailBlock p0) i diff cur (first_of news) q p = Some r \<and>
          allocation q0 p0 rs xs U (length news + Suc k) r"
      proof (cases e)
        case None
        then show ?thesis unfolding eq using rev [OF ix] ins(2) by (simp add: inserted_def)
      next
        case (Some e')
        then have "q1 = q" "d = None" using True requisition_block_ok [OF kk(4) req] by auto
        then show ?thesis unfolding eq using Some rev [of "set_value e' None (rewind_block_index_tail p1)"] ins(2) kk(2)
          by (simp add: inserted_def rewind_fields) (simp add: set_value_def rewind_fields)
      qed
      ultimately show ?thesis by blast
    next
      case False
      then obtain e' d' where ed: "e = Some e'" "d = Some d'" by auto
      obtain q2 p2 where lk: "link_block start (first_of news) e' d' q1 p1 = Some (q2, p2)" "allocated q0 p0 rs xs U (news @ [d']) q2 p2"
        using link_block_allocated [OF al l tb U st _ req [unfolded ed] fit] ins(2) unfolding ed by blast
      have f: "(if first_of news = None then Some d' else first_of news) = first_of (news @ [d'])" by (simp only: first_of_append)
      have dd: "diff - BLOCK_SIZE = 32 * of_nat k" using Suc.prems(4) by (simp add: BLOCK_SIZE_def algebra_simps)
      have pos: "(0 :: u64) < 32 * of_nat k \<longleftrightarrow> 0 < k" by (rule blocks_pos) (use Suc.prems(3) in simp)
      have step: "allocate_blocks ms ca im bm stale start (tailBlock p0) i diff cur (first_of news) q p =
          (if 0 < k then allocate_blocks ms ca im bm stale start (tailBlock p0) (i + 1) (32 * of_nat k) ?cur (first_of (news @ [d'])) q2 p2
           else Some (True, first_of (news @ [d']), q2, p2))"
        unfolding eq ed prod.case option.case lk(1) f Let_def dd pos ..
      show ?thesis
      proof (cases "0 < k")
        case False
        then show ?thesis unfolding step using lk(2)
          by (simp add: allocation_def) (metis length_append_singleton)
      next
        case True
        have "?cur + BLOCK_SIZE = ?b + 32 * of_nat (length (rs @ news @ [d']))" unfolding cur2 by simp
        then have "\<exists>r. allocate_blocks ms ca im bm stale start (tailBlock p0) (i + 1) (32 * of_nat k) ?cur (first_of (news @ [d'])) q2 p2 = Some r \<and>
            allocation q0 p0 rs xs U (length (news @ [d']) + k) r \<and>
            (ms = - 1 \<and> ca \<and> (\<forall>i. im i \<and> bm i) \<and> 32 * (length (rs @ news @ [d']) + k) < 2 ^ 63 + ?off \<longrightarrow> fst r)"
          by (intro Suc.IH [OF lk(2) True _ refl]) (use Suc.prems(3) in simp)
        then show ?thesis unfolding step using True by simp
      qed
    qed
  qed
qed simp

section \<open>Filling the blocks\<close>

lemma block_rep_tailBlock [simp]:
  "block_rep q (p\<lparr>tailBlock := t\<rparr>) rs xs = block_rep q p rs xs"
  "block_rep q (p\<lparr>tailBlock := t, tailIndex := i\<rparr>) rs xs = block_rep q (p\<lparr>tailIndex := i\<rparr>) rs xs"
  by (simp_all add: block_rep_def)

lemma fill_blocks_step:
  assumes k: "length ys < 2 ^ 63" and t: "tailBlock p = Some r" and n: "n = min (length ys) (32 - slot cur)"
  shows "fill_blocks e (cur + of_nat (length ys)) cur ys q p =
    (let q = construct_run r cur (take n ys) q in
     if Some r = e then (if length ys \<le> 32 - slot cur then Some (q, p) else None)
     else fill_blocks e (cur + of_nat (length ys)) (cur + of_nat n) (drop n ys) q (p\<lparr>tailBlock := blk_next (blocks q r)\<rparr>))"
proof -
  note re = run_end [OF k, of cur]
  have u: "unat (cur + of_nat n - cur) = n" using re(2) by (simp add: n)
  have le: "\<not> length ys < n" by (simp add: n)
  show ?thesis
    by (subst fill_blocks.simps) (simp only: Let_def re(1) t option.case n [symmetric] u le re(3) [folded n] option.distinct simp_thms if_False)
qed

lemma run_blocks: "s < 32 \<Longrightarrow> 1 \<le> y \<Longrightarrow> (s + y + 31) div 32 = 1 \<longleftrightarrow> y \<le> 32 - (s :: nat)"
proof (cases "y \<le> 32 - s")
  case True
  assume "s < 32" "1 \<le> y"
  then have "(s + y + 31) div 32 = 1" using True by (intro div_nat_eqI) simp_all
  then show ?thesis using True by simp
next
  case False
  assume "s < 32"
  then have "64 div 32 \<le> (s + y + 31) div 32" using False by (intro div_le_mono) simp
  then show ?thesis using False by simp
qed

lemma one_more: "n = a + b \<Longrightarrow> (b = 1 \<longleftrightarrow> P) \<Longrightarrow> (Suc a = n \<longleftrightarrow> P)"
  by auto

lemma fill_blocks_rep:
  assumes "block_rep q (p\<lparr>tailIndex := cur\<rparr>) bs zs" "ys \<noteq> []" "length ys < 2 ^ 63"
    and "(slot (headIndex p) + length zs + length ys + 31) div 32 = length bs"
    and "tailBlock p = Some (bs ! ((slot (headIndex p) + length zs) div 32))"
    and "\<And>j. (slot (headIndex p) + length zs) div 32 \<le> j \<Longrightarrow> Suc j < length bs \<Longrightarrow> blk_next (blocks q (bs ! j)) = Some (bs ! Suc j)"
  shows "\<exists>q'. fill_blocks (Some (last bs)) (cur + of_nat (length ys)) cur ys q p = Some (q', p\<lparr>tailBlock := Some (last bs)\<rparr>) \<and>
    block_rep q' (p\<lparr>tailIndex := cur + of_nat (length ys)\<rparr>) bs (zs @ ys) \<and>
    (\<forall>V. pool_ok q V \<longrightarrow> pool_ok q' V) \<and> (\<forall>r. r \<notin> set bs \<longrightarrow> blocks q' r = blocks q r)"
  using assms
proof (induction "length ys" arbitrary: ys zs cur q p rule: less_induct)
  case less
  let ?x = "slot (headIndex p) + length zs" and ?n = "min (length ys) (32 - slot cur)"
  let ?j = "?x div 32"
  let ?q = "construct_run (bs ! ?j) cur (take ?n ys) q"
  have br: "tailIndex (p\<lparr>tailIndex := cur\<rparr>) = headIndex p + of_nat (length zs)" "distinct bs"
    using less.prems(1) by (simp_all add: block_rep_def Let_def)
  have sl: "slot cur = ?x mod 32" using br(1) by (simp add: slot_add)
  have ny: "1 \<le> length ys" using less.prems(2) by (cases ys) auto
  have x: "?x = 32 * ?j + slot cur" unfolding sl by simp
  have s32: "slot cur < 32" by simp
  have jl: "?j < length bs"
    using block_index_less [of "slot (headIndex p)" "length zs" "length zs + length ys" "length bs"] less.prems(4) ny
    by (simp add: add.assoc)
  have "length bs = (32 * ?j + (slot cur + length ys + 31)) div 32" using less.prems(4) x by (simp only: add.assoc)
  also have "\<dots> = ?j + (slot cur + length ys + 31) div 32" by (rule div_mult_self4) simp
  finally have lb: "Suc ?j = length bs \<longleftrightarrow> length ys \<le> 32 - slot cur"
    by (rule one_more [OF _ run_blocks [OF s32 ny]])
  have one: "block_rep ?q (p\<lparr>tailIndex := cur + of_nat ?n\<rparr>) bs (zs @ take ?n ys)"
  proof -
    let ?p = "p\<lparr>tailIndex := cur\<rparr>"
    have ln: "length (take ?n ys) = ?n" by simp
    have "slot cur + ?n \<le> 32" using s32 min.cobounded2 [of "length ys" "32 - slot cur"] by linarith
    then have room: "(slot (headIndex ?p) + length zs) mod 32 + length (take ?n ys) \<le> 32" unfolding ln by (simp add: sl [symmetric])
    have "block_rep (construct_run (bs ! ?j) (tailIndex ?p) (take ?n ys) q)
        (?p\<lparr>tailIndex := tailIndex ?p + of_nat (length (take ?n ys))\<rparr>) bs (zs @ take ?n ys)"
      using construct_run_rep [OF less.prems(1) room jl] by simp
    then show ?thesis unfolding ln by simp
  qed
  note st = fill_blocks_step [OF less.prems(3) less.prems(5) refl, of "Some (last bs)" cur q]
  have end_at: "bs ! ?j = last bs \<longleftrightarrow> Suc ?j = length bs"
  proof -
    have "last bs = bs ! (length bs - 1)" using jl by (intro last_conv_nth) auto
    then show ?thesis using br(2) jl by (auto simp: nth_eq_iff_index_eq)
  qed
  note fr = construct_run_frame
  have frame: "(\<forall>V. pool_ok q V \<longrightarrow> pool_ok ?q V) \<and> (\<forall>r. r \<notin> set bs \<longrightarrow> blocks ?q r = blocks q r)"
    using jl fr(1,3) by (metis nth_mem)
  show ?case
  proof (cases "length ys \<le> 32 - slot cur")
    case True
    then have n: "?n = length ys" by simp
    have "p\<lparr>tailBlock := Some (last bs)\<rparr> = p" using less.prems(5) end_at lb True by (cases p) simp
    moreover have "bs ! ?j = last bs" using end_at lb True by blast
    ultimately show ?thesis using st True one frame unfolding n Let_def by simp
  next
    case False
    then have n: "?n = 32 - slot cur" by simp
    let ?p = "p\<lparr>tailBlock := blk_next (blocks ?q (bs ! ?j))\<rparr>"
    have j': "(slot (headIndex ?p) + length (zs @ take ?n ys)) div 32 = Suc ?j"
    proof -
      have "slot (headIndex ?p) + length (zs @ take ?n ys) = 32 * Suc ?j" using x s32 n by (simp del: slot_less)
      then show ?thesis by (simp only:) simp
    qed
    have "Suc ?j < length bs" using jl lb False by linarith
    then have nx: "blk_next (blocks q (bs ! ?j)) = Some (bs ! Suc ?j)" by (intro less.prems(6)) simp_all
    have "\<exists>q'. fill_blocks (Some (last bs)) (cur + of_nat ?n + of_nat (length (drop ?n ys))) (cur + of_nat ?n) (drop ?n ys) ?q ?p =
          Some (q', ?p\<lparr>tailBlock := Some (last bs)\<rparr>) \<and>
        block_rep q' (?p\<lparr>tailIndex := cur + of_nat ?n + of_nat (length (drop ?n ys))\<rparr>) bs ((zs @ take ?n ys) @ drop ?n ys) \<and>
        (\<forall>V. pool_ok ?q V \<longrightarrow> pool_ok q' V) \<and> (\<forall>r. r \<notin> set bs \<longrightarrow> blocks q' r = blocks ?q r)"
    proof (rule less.hyps)
      show "length (drop ?n ys) < length ys" using ny s32 n by (simp del: slot_less)
      show "block_rep ?q (?p\<lparr>tailIndex := cur + of_nat ?n\<rparr>) bs (zs @ take ?n ys)"
        using one by simp
      show "drop ?n ys \<noteq> []" using False n by simp
      show "length (drop ?n ys) < 2 ^ 63" using less.prems(3) by simp
      show "(slot (headIndex ?p) + length (zs @ take ?n ys) + length (drop ?n ys) + 31) div 32 = length bs"
        using less.prems(4) by (simp add: min_def ac_simps)
      show "tailBlock ?p = Some (bs ! ((slot (headIndex ?p) + length (zs @ take ?n ys)) div 32))" unfolding j' using nx by (simp add: fr(2))
      show "blk_next (blocks ?q (bs ! j)) = Some (bs ! Suc j)"
        if "(slot (headIndex ?p) + length (zs @ take ?n ys)) div 32 \<le> j" "Suc j < length bs" for j
        using that(1) unfolding j' fr(2) by (intro less.prems(6)) (use that(2) in simp_all)
    qed
    moreover have "cur + of_nat ?n + of_nat (length (drop ?n ys)) = cur + of_nat (length ys)"
    proof -
      have "length ys = ?n + length (drop ?n ys)" by simp
      then show ?thesis by (metis add.assoc of_nat_add)
    qed
    moreover have "bs ! ?j \<noteq> last bs" using end_at lb False by blast
    ultimately show ?thesis using st frame unfolding Let_def by auto
  qed
qed

section \<open>Enqueueing in bulk\<close>

text \<open>As for one element, but for a list of them.\<close>

definition enqueued_bulk ::
  "'a pool \<Rightarrow> nat list \<Rightarrow> 'a list \<Rightarrow> nat set \<Rightarrow> 'a list \<Rightarrow> bool \<times> 'a pool \<times> producer \<Rightarrow> bool" where
  "enqueued_bulk q rs xs U ys r \<longleftrightarrow>
     (case r of (ok, q', p') \<Rightarrow>
       \<exists>rs'. rep q' p' rs' (if ok then xs @ ys else xs) \<and> pool_ok q' (U \<union> set rs') \<and>
         set rs \<subseteq> set rs' \<and> set rs' \<inter> U = set rs \<and> (\<forall>u \<in> U - set rs. blocks q' u = blocks q u))"

lemma enqueued_bulkI:
  "rep q' p' rs' (if ok then xs @ ys else xs) \<Longrightarrow> pool_ok q' (U \<union> set rs') \<Longrightarrow> set rs \<subseteq> set rs' \<Longrightarrow>
   set rs' \<inter> U = set rs \<Longrightarrow> (\<And>u. u \<in> U \<Longrightarrow> u \<notin> set rs \<Longrightarrow> blocks q' u = blocks q u) \<Longrightarrow>
   enqueued_bulk q rs xs U ys (ok, q', p')"
  by (auto simp: enqueued_bulk_def)

lemma bulk_base:
  assumes "slot b = 0"
  shows "((b + of_nat s - 1) AND NOT (BLOCK_SIZE - 1)) + BLOCK_SIZE = b + 32 * of_nat ((s + 31) div 32)"
proof -
  have s0: "slot (b - 32) = 0" using slot_plus_32 [of "b - 32" 1] assms by simp
  have "b + of_nat s - 1 = (b - 32) + of_nat (s + 31)" by simp
  then show ?thesis using block_base [of "b - 32" "s + 31"] by (simp only: s0 BLOCK_SIZE_def) simp
qed

text \<open>The blocks for all elements are there.\<close>

lemma fill_allocated:
  assumes al: "allocated q0 p0 rs xs U news q p" and r: "rep q0 p0 rs xs" and U: "set rs \<subseteq> U"
    and ys: "ys \<noteq> []" "length ys < 2 ^ 63"
    and len: "length rs + length news = (slot (headIndex p0) + length xs + length ys + 31) div 32"
    and aligned: "tailIndex p0 AND (BLOCK_SIZE - 1) = 0 \<longleftrightarrow> (slot (headIndex p0) + length xs) mod 32 = 0"
  shows "\<exists>r. fill_allocation (tailIndex p0) (tailBlock p0) (first_of news) ys q p = Some r \<and> enqueued_bulk q0 rs xs U ys r \<and> fst r"
proof -
  let ?t = "slot (headIndex p0) + length xs" and ?bs = "rs @ news" and ?aligned = "tailIndex p0 AND (BLOCK_SIZE - 1) = 0"
  let ?p = "p\<lparr>tailBlock := (if ?aligned \<and> first_of news \<noteq> None then first_of news else tailBlock p0)\<rparr>"
  have k: "block_rep q p ?bs xs" "pool_ok q (U \<union> set news)" "set news \<inter> U = {}" "chain q news"
    "tailBlock p = (if news = [] then tailBlock p0 else Some (last news))" "headIndex p = headIndex p0" "tailIndex p = tailIndex p0"
    "news \<noteq> [] \<and> ?t mod 32 \<noteq> 0 \<longrightarrow> blk_next (blocks q (last rs)) = Some (hd news)"
    "\<forall>u \<in> U - set rs. blocks q u = blocks q0 u" "32 * length ?bs < 2 ^ 63 + slot (headIndex p0)" using al by (simp_all add: allocated_def)
  have m: "length rs = (?t + 31) div 32" "rs \<noteq> [] \<longrightarrow> tailBlock p0 = Some (last rs)" using r by (simp_all add: rep_def Let_def)
  have ny: "1 \<le> length ys" using ys by (cases ys) auto
  have start: "\<not> (?aligned \<and> news = []) \<and> tailBlock ?p = Some (?bs ! (?t div 32)) \<and> tailBlock p = Some (last ?bs) \<and>
      (\<forall>j. ?t div 32 \<le> j \<and> Suc j < length ?bs \<longrightarrow> blk_next (blocks q (?bs ! j)) = Some (?bs ! Suc j))"
  proof (cases "?t mod 32 = 0")
    case True
    then have d: "?t div 32 = length rs" using m(1) by (simp add: add_31_div)
    have "length rs < length ?bs" using block_index_less [of 0 ?t "?t + length ys" "length ?bs"] len ny d by simp
    then have nn: "news \<noteq> []" by auto
    have "blk_next (blocks q (?bs ! j)) = Some (?bs ! Suc j)" if "length rs \<le> j" "Suc j < length ?bs" for j
      using chain_nth [OF k(4), of "j - length rs"] that by (simp add: nth_append Suc_diff_le)
    then show ?thesis using True aligned nn k(5) d by (simp add: nth_append first_of_def hd_conv_nth)
  next
    case False
    then have d: "length rs = Suc (?t div 32)" using m(1) by (simp add: add_31_div)
    then have "rs \<noteq> []" by auto
    then have rs: "rs \<noteq> []" "last rs = rs ! (?t div 32)" using d by (simp_all add: last_conv_nth)
    have "blk_next (blocks q (?bs ! j)) = Some (?bs ! Suc j)" if j: "?t div 32 \<le> j" "Suc j < length ?bs" for j
    proof (cases "j = ?t div 32")
      case True
      then have "news \<noteq> []" using j d by auto
      then show ?thesis using k(8) False True d rs by (simp add: nth_append hd_conv_nth)
    next
      case ne: False
      then have "length rs \<le> j" using j d by simp
      then show ?thesis using chain_nth [OF k(4), of "j - length rs"] j by (simp add: nth_append Suc_diff_le)
    qed
    then show ?thesis using False aligned m(2) k(5) d rs by (simp add: nth_append)
  qed
  have tl: "tailIndex p0 = headIndex p0 + of_nat (length xs)" using k(1,6,7) by (simp add: block_rep_def Let_def)
  have "?p\<lparr>tailIndex := tailIndex p0\<rparr> = ?p" using k(7) by (cases p) simp
  then have br: "block_rep q (?p\<lparr>tailIndex := tailIndex p0\<rparr>) ?bs xs" using k(1) by (simp del: append_assoc)
  obtain q' where q': "fill_blocks (Some (last ?bs)) (tailIndex p0 + of_nat (length ys)) (tailIndex p0) ys q ?p =
      Some (q', ?p\<lparr>tailBlock := Some (last ?bs)\<rparr>)"
    "block_rep q' (?p\<lparr>tailIndex := tailIndex p0 + of_nat (length ys)\<rparr>) ?bs (xs @ ys)"
    "\<forall>V. pool_ok q V \<longrightarrow> pool_ok q' V" "\<forall>r. r \<notin> set ?bs \<longrightarrow> blocks q' r = blocks q r"
    using fill_blocks_rep [OF br ys] start len k(6) by auto
  let ?p' = "?p\<lparr>tailBlock := Some (last ?bs)\<rparr>\<lparr>tailIndex := tailIndex p0 + of_nat (length ys)\<rparr>"
  have "rep q' ?p' ?bs (xs @ ys)"
    using q'(2) len k(6,10) blocks_padding [of "?t + length ys"] by (simp add: rep_def block_rep_def Let_def add.assoc)
  moreover have "U \<union> set ?bs = U \<union> set news" "set ?bs \<inter> U = set rs" using U k(3) by auto
  moreover have "blocks q' u = blocks q0 u" if "u \<in> U" "u \<notin> set rs" for u
  proof -
    have "u \<notin> set ?bs" using that k(3) by auto
    then show ?thesis using q'(4) k(9) that by simp
  qed
  ultimately have "enqueued_bulk q0 rs xs U ys (True, q', ?p')"
    using q'(3) k(2) by (intro enqueued_bulkI [where rs' = ?bs]) simp_all
  moreover have "fill_allocation (tailIndex p0) (tailBlock p0) (first_of news) ys q p = Some (True, q', ?p')"
    using q'(1) start by (auto simp: fill_allocation_def Let_def)
  ultimately show ?thesis by auto
qed

text \<open>\<open>enqueue_bulk\<close> never fails an assertion. It appends all elements or has no effect; it may
  refuse only for want of memory, by the size limit, or when half the index space is used.\<close>

lemma producer_enqueue_bulk_correct:
  assumes r: "rep q p rs xs" and ok: "pool_ok q U" "set rs \<subseteq> U" and ys: "length ys < 2 ^ 63"
  shows "\<exists>r. producer_enqueue_bulk ms ca im bm stale ys (q, p) = Some r \<and> enqueued_bulk q rs xs U ys r \<and>
    (ms = - 1 \<and> ca \<and> (\<forall>i. im i \<and> bm i) \<and> length xs + length ys + 32 < 2 ^ 63 \<longrightarrow> fst r)"
proof -
  let ?t = "slot (headIndex p) + length xs" and ?b = "headIndex p - of_nat (slot (headIndex p))"
  let ?N = "(?t + length ys + 31) div 32" and ?M = "(?t + 31) div 32"
  let ?k = "?N - ?M" and ?cur = "(tailIndex p - 1) AND NOT (BLOCK_SIZE - 1)"
  have k: "block_rep q p rs xs" "length rs = ?M" "rs \<noteq> [] \<longrightarrow> tailBlock p = Some (last rs)"
    using r by (simp_all add: rep_def Let_def)
  have tb: "tailBlock p = Some (last rs) \<and> rs \<noteq> []" if "?t mod 32 \<noteq> 0"
    using that k(2,3) by (auto simp: add_31_div)
  have tl: "tailIndex p = ?b + of_nat ?t" using k(1) by (simp add: block_rep_def Let_def)
  have "slot (?b + of_nat ?t) = ?t mod 32" by (simp add: slot_add slot_base)
  then have al: "tailIndex p AND (BLOCK_SIZE - 1) = 0 \<longleftrightarrow> ?t mod 32 = 0" by (simp add: unat_mod_32 tl flip: slot_mod)
  have cur: "?cur + BLOCK_SIZE = ?b + 32 * of_nat (length rs)" unfolding tl k(2) by (rule bulk_base [OF slot_base])
  have "tailIndex p + of_nat (length ys) - 1 = ?b + of_nat (?t + length ys) - 1" by (simp add: tl)
  then have cur': "((tailIndex p + of_nat (length ys) - 1) AND NOT (BLOCK_SIZE - 1)) + BLOCK_SIZE = ?b + 32 * of_nat ?N"
    using bulk_base [OF slot_base, of "headIndex p" "?t + length ys"] by (simp only: add.assoc)
  have le: "?M \<le> ?N" by (intro div_le_mono) simp
  have diff: "((tailIndex p + of_nat (length ys) - 1) AND NOT (BLOCK_SIZE - 1)) - ?cur = 32 * of_nat ?k"
  proof -
    have "?M + ?k = ?N" using le by linarith
    from arg_cong [OF this, of "of_nat :: nat \<Rightarrow> u64"] have n: "of_nat ?N = (of_nat ?M + of_nat ?k :: u64)"
      unfolding of_nat_add by (rule sym)
    have "((tailIndex p + of_nat (length ys) - 1) AND NOT (BLOCK_SIZE - 1)) - ?cur =
        (((tailIndex p + of_nat (length ys) - 1) AND NOT (BLOCK_SIZE - 1)) + BLOCK_SIZE) - (?cur + BLOCK_SIZE)"
      by (simp only: add_diff_cancel_right)
    also have "\<dots> = (?b + 32 * of_nat ?N) - (?b + 32 * of_nat ?M)" by (simp only: cur cur' k(2))
    also have "\<dots> = 32 * of_nat ?k" unfolding n by (simp only: distrib_left add_diff_cancel_left add_diff_cancel_left')
    finally show ?thesis .
  qed
  have up: "32 * ?N \<le> ?t + length ys + 31" "?t \<le> 32 * ?M" using blocks_padding [of ?t] by simp_all
  then have small: "32 * ?k \<le> length ys + 31" by linarith
  then have k59: "?k < 2 ^ 59" using ys by simp
  note pos = blocks_pos [OF k59]
  have aux: "32 * length rs + 32 * ?k < 2 ^ 63 + slot (headIndex p)" if "length xs + length ys + 32 < 2 ^ 63"
  proof -
    have "32 * length rs + 32 * ?k = 32 * ?N" unfolding k(2) using le by linarith
    then show ?thesis using that up by linarith
  qed
  have eq: "producer_enqueue_bulk ms ca im bm stale ys (q, p) =
      (case (if 0 < ?k then allocate_blocks ms ca im bm stale (tailIndex p) (tailBlock p) 0 (32 * of_nat ?k) ?cur None q p
             else Some (True, None, q, p)) of
         None \<Rightarrow> None
       | Some (False, first, q, p) \<Rightarrow> Some (False, q, p)
       | Some (True, first, q, p') \<Rightarrow> fill_allocation (tailIndex p) (tailBlock p) first ys q p')"
    unfolding producer_enqueue_bulk_def Let_def prod.case diff pos ..
  show ?thesis
  proof (cases "ys = []")
    case True
    have "fill_blocks (tailBlock p) (tailIndex p) (tailIndex p) [] q p = Some (q, p)"
    proof -
      have "circular_less_than (tailIndex p) ((tailIndex p AND NOT (BLOCK_SIZE - 1)) + BLOCK_SIZE)"
        unfolding block_end using circular_between [of 0 "32 - slot (tailIndex p)" "tailIndex p"] by simp
      then show ?thesis by (subst fill_blocks.simps) (simp add: Let_def split: option.split)
    qed
    then have "producer_enqueue_bulk ms ca im bm stale ys (q, p) = Some (True, q, p)"
      unfolding eq using True by (simp add: fill_allocation_def)
    moreover have "enqueued_bulk q rs xs U ys (True, q, p)"
      using r ok True by (intro enqueued_bulkI [where rs' = rs]) (auto simp: Un_absorb2)
    ultimately show ?thesis by auto
  next
    case ne: False
    have filled: "\<exists>r. fill_allocation (tailIndex p) (tailBlock p) (first_of news) ys q' p' = Some r \<and>
        enqueued_bulk q rs xs U ys r \<and> fst r"
      if a: "allocated q p rs xs U news q' p'" "length news = ?k" for news q' p'
      using a(2) le k(2) al by (intro fill_allocated [OF a(1) r ok(2) ne ys]) simp_all
    show ?thesis
    proof (cases "0 < ?k")
      case False
      then have "producer_enqueue_bulk ms ca im bm stale ys (q, p) = fill_allocation (tailIndex p) (tailBlock p) (first_of []) ys q p"
        unfolding eq if_not_P [OF False] by simp
      then show ?thesis using filled [OF allocated_start [OF r ok(1)]] False by auto
    next
      case True
      have l: "?M \<le> length rs" and st: "tailIndex p AND (BLOCK_SIZE - 1) \<noteq> 0 \<longleftrightarrow> ?t mod 32 \<noteq> 0"
        and cur0: "?cur + BLOCK_SIZE = ?b + 32 * of_nat (length (rs @ []))" using k(2) al cur by simp_all
      from allocate_blocks_rep [where ms = ms and ca = ca and im = im and bm = bm and stale = stale and i = 0,
          OF l tb ok(2) st cur allocated_start [OF r ok(1)] True k59 refl cur0]
      obtain r where a: "allocate_blocks ms ca im bm stale (tailIndex p) (tailBlock p) 0 (32 * of_nat ?k) ?cur None q p = Some r"
        "allocation q p rs xs U ?k r"
        "ms = - 1 \<and> ca \<and> (\<forall>i. im i \<and> bm i) \<and> 32 * (length rs + ?k) < 2 ^ 63 + slot (headIndex p) \<longrightarrow> fst r"
        by (simp only: first_of_simps(1) list.size(3) add_0 append_Nil2) blast
      obtain okay f q' p' where rr: "r = (okay, f, q', p')" by (cases r)
      show ?thesis
      proof (cases okay)
        case okay: True
        then obtain news where n: "length news = ?k" "f = first_of news" "allocated q p rs xs U news q' p'"
          using a(2) rr by (auto simp: allocation_def)
        have "producer_enqueue_bulk ms ca im bm stale ys (q, p) = fill_allocation (tailIndex p) (tailBlock p) (first_of news) ys q' p'"
          unfolding eq if_P [OF True] a(1) rr using okay n(2) by simp
        then show ?thesis using filled [OF n(3,1)] by auto
      next
        case False
        then have b: "block_rep q' p' rs xs" "tailBlock p' = tailBlock p" "headIndex p' = headIndex p" "pool_ok q' U"
          "\<forall>u \<in> U - set rs. blocks q' u = blocks q u" using a(2) rr by (simp_all add: allocation_def)
        then have "rep q' p' rs xs" using r by (simp add: rep_def Let_def)
        then have "enqueued_bulk q rs xs U ys (False, q', p')"
          using b ok by (intro enqueued_bulkI [where rs' = rs]) (auto simp: Un_absorb2)
        moreover have "producer_enqueue_bulk ms ca im bm stale ys (q, p) = Some (False, q', p')"
          unfolding eq if_P [OF True] a(1) rr using False by simp
        ultimately show ?thesis using a(3) aux False rr by (auto simp: distrib_left)
      qed
    qed
  qed
qed

end
