(* ===== verification/Producer_Hash.thy ===== *)
theory Producer_Hash
  imports Queue_Util
begin

text \<open>
  \<open>concurrentqueue.h\<close>, the hash tables that map thread ids to producers: a chain of tables
  with linear probing, the newest first. A table is never removed; a thread found in an older
  table is copied to the newest. The probing loops have no bound in the code; they are partial
  functions here (\<open>None\<close>: the loop does not end), and end because a slot is always free.
\<close>

section \<open>Tables\<close>

definition invalid_thread_id :: u64 where "invalid_thread_id = 0"

definition INITIAL_IMPLICIT_PRODUCER_HASH_SIZE :: u64 where "INITIAL_IMPLICIT_PRODUCER_HASH_SIZE = 32"

text \<open>\<open>ImplicitProducerKVP\<close>: a key and the producer, here its number.\<close>

type_synonym kvp = "u64 \<times> nat option"

record hash_table =
  ht_capacity :: u64
  ht_entries :: "kvp list"

definition new_hash :: "u64 \<Rightarrow> hash_table" where
  "new_hash newCapacity = \<lparr>ht_capacity = newCapacity, ht_entries = replicate (unat newCapacity) (invalid_thread_id, None)\<rparr>"

text \<open>Look for a thread: \<open>Some (Some index)\<close> if it is found, \<open>Some None\<close> at a free slot.\<close>

partial_function (option) probe :: "u64 \<Rightarrow> hash_table \<Rightarrow> u64 \<Rightarrow> nat option option" where
  "probe i hash index =
     (let index = index AND (ht_capacity hash - 1); probedKey = fst (ht_entries hash ! unat index) in
      if probedKey = i then Some (Some (unat index))
      else if probedKey = invalid_thread_id then Some None
      else probe i hash (index + 1))"

text \<open>Take the first free slot.\<close>

partial_function (option) insert_kvp :: "u64 \<Rightarrow> nat option \<Rightarrow> hash_table \<Rightarrow> u64 \<Rightarrow> hash_table option" where
  "insert_kvp i v hash index =
     (let index = index AND (ht_capacity hash - 1); probedKey = fst (ht_entries hash ! unat index) in
      if probedKey = invalid_thread_id then Some (hash\<lparr>ht_entries := (ht_entries hash)[unat index := (i, v)]\<rparr>)
      else insert_kvp i v hash (index + 1))"

text \<open>The search through the chain: the producer and whether it was found in the newest table.\<close>

fun find_thread :: "u64 \<Rightarrow> u64 \<Rightarrow> hash_table list \<Rightarrow> nat option option option" where
  "find_thread i hashedId [] = Some None"
| "find_thread i hashedId (hash # hs) =
     (case probe i hash hashedId of
        None \<Rightarrow> None
      | Some (Some index) \<Rightarrow> Some (Some (snd (ht_entries hash ! index)))
      | Some None \<Rightarrow> find_thread i hashedId hs)"

text \<open>The search, which adds a thread of an older table to the newest.\<close>

definition lookup_thread :: "u64 \<Rightarrow> hash_table list \<Rightarrow> (nat option option \<times> hash_table list) option" where
  "lookup_thread i hashes =
     (let hashedId = hash_thread_id i in
      case hashes of
        [] \<Rightarrow> Some (None, [])
      | mainHash # prev \<Rightarrow>
          (case probe i mainHash hashedId of
             None \<Rightarrow> None
           | Some (Some index) \<Rightarrow> Some (Some (snd (ht_entries mainHash ! index)), hashes)
           | Some None \<Rightarrow>
               (case find_thread i hashedId prev of
                  None \<Rightarrow> None
                | Some None \<Rightarrow> Some (None, hashes)
                | Some (Some v) \<Rightarrow>
                    map_option (\<lambda>h. (Some v, h # prev)) (insert_kvp i v mainHash hashedId))))"

partial_function (option) grow_capacity :: "u64 \<Rightarrow> u64 \<Rightarrow> u64 option" where
  "grow_capacity newCount newCapacity =
     (if drop_bit 1 newCapacity \<le> newCount then grow_capacity newCount (push_bit 1 newCapacity) else Some newCapacity)"

text \<open>The part of the insertion loop that allocates a larger table; \<open>busy\<close> is the flag of another
  resize. The result says whether the allocation succeeded, if one was needed.\<close>

definition resize_hash :: "u64 \<Rightarrow> bool \<Rightarrow> bool \<Rightarrow> hash_table list \<Rightarrow> (bool \<times> hash_table list) option" where
  "resize_hash newCount busy mem hashes =
     (if drop_bit 1 (ht_capacity (hd hashes)) \<le> newCount \<and> \<not> busy
      then (case grow_capacity newCount (push_bit 1 (ht_capacity (hd hashes))) of
          None \<Rightarrow> None
        | Some newCapacity \<Rightarrow> if mem then Some (True, new_hash newCapacity # hashes) else Some (False, hashes))
      else Some (True, hashes))"

text \<open>\<open>newCount < (capacity >> 1) + (capacity >> 2)\<close>.\<close>

definition has_room :: "u64 \<Rightarrow> hash_table \<Rightarrow> bool" where
  "has_room newCount h \<longleftrightarrow> newCount < drop_bit 1 (ht_capacity h) + drop_bit 2 (ht_capacity h)"

section \<open>Probing\<close>

text \<open>The \<open>j\<close>-th slot that is probed.\<close>

definition probed :: "nat \<Rightarrow> u64 \<Rightarrow> nat \<Rightarrow> nat" where
  "probed k index j = (unat index + j) mod 2 ^ k"

definition table_size :: "nat \<Rightarrow> hash_table \<Rightarrow> bool" where
  "table_size k h \<longleftrightarrow> k < 64 \<and> ht_capacity h = 2 ^ k \<and> length (ht_entries h) = 2 ^ k"

abbreviation key_at :: "hash_table \<Rightarrow> nat \<Rightarrow> u64" where
  "key_at h s \<equiv> fst (ht_entries h ! s)"

lemma probed_0: "table_size k h \<Longrightarrow> unat (index AND (ht_capacity h - 1)) = probed k index 0"
  by (simp add: table_size_def and_capacity probed_def)

lemma probed_Suc: "table_size k h \<Longrightarrow> probed k ((index AND (ht_capacity h - 1)) + 1) j = probed k index (Suc j)"
proof -
  assume t: "table_size k h"
  then have k: "k \<le> 64" by (simp add: table_size_def)
  have "(unat ((index AND (ht_capacity h - 1)) + 1) + j) mod 2 ^ k =
      (unat ((index AND (ht_capacity h - 1)) + 1) mod 2 ^ k + j) mod 2 ^ k" by (rule mod_add_left_eq [symmetric])
  also have "\<dots> = (unat index + 1 + j) mod 2 ^ k"
    using t by (simp add: unat_add_mod_power [OF k] table_size_def and_capacity mod_simps)
  finally show ?thesis by (simp add: probed_def)
qed

lemma probed_less: "probed k index j < 2 ^ k"
  by (simp add: probed_def)

text \<open>The loops run to the first slot that stops them.\<close>

lemma probe_runs:
  assumes t: "table_size k h"
  shows "(\<forall>l < j. key_at h (probed k index l) \<noteq> i \<and> key_at h (probed k index l) \<noteq> invalid_thread_id) \<Longrightarrow>
    key_at h (probed k index j) = i \<or> key_at h (probed k index j) = invalid_thread_id \<Longrightarrow>
    probe i h index = Some (if key_at h (probed k index j) = i then Some (probed k index j) else None)"
proof (induction j arbitrary: index)
  case 0
  then show ?case using probed_0 [OF t, of index] by (auto simp: probe.simps [of i h index] Let_def)
next
  case (Suc j)
  have "key_at h (probed k index 0) \<noteq> i \<and> key_at h (probed k index 0) \<noteq> invalid_thread_id" using Suc.prems(1) by blast
  moreover have "probe i h ((index AND (ht_capacity h - 1)) + 1) =
      Some (if key_at h (probed k index (Suc j)) = i then Some (probed k index (Suc j)) else None)"
    using Suc.IH [of "(index AND (ht_capacity h - 1)) + 1"] Suc.prems by (simp add: probed_Suc [OF t])
  ultimately show ?case using probed_0 [OF t, of index] by (simp add: probe.simps [of i h index] Let_def)
qed

lemma insert_runs:
  assumes t: "table_size k h"
  shows "(\<forall>l < j. key_at h (probed k index l) \<noteq> invalid_thread_id) \<Longrightarrow> key_at h (probed k index j) = invalid_thread_id \<Longrightarrow>
    insert_kvp i v h index = Some (h\<lparr>ht_entries := (ht_entries h)[probed k index j := (i, v)]\<rparr>)"
proof (induction j arbitrary: index)
  case 0
  then show ?case using probed_0 [OF t, of index] by (simp add: insert_kvp.simps [of i v h index] Let_def)
next
  case (Suc j)
  have "key_at h (probed k index 0) \<noteq> invalid_thread_id" using Suc.prems(1) by blast
  moreover have "insert_kvp i v h ((index AND (ht_capacity h - 1)) + 1) =
      Some (h\<lparr>ht_entries := (ht_entries h)[probed k index (Suc j) := (i, v)]\<rparr>)"
    using Suc.IH [of "(index AND (ht_capacity h - 1)) + 1"] Suc.prems by (simp add: probed_Suc [OF t])
  ultimately show ?case using probed_0 [OF t, of index] by (simp add: insert_kvp.simps [of i v h index] Let_def)
qed

text \<open>Probing reaches every slot.\<close>

lemma probed_all: "s < 2 ^ k \<Longrightarrow> \<exists>j < 2 ^ k. probed k index j = s"
proof -
  assume s: "s < 2 ^ k"
  let ?j = "(s + (2 ^ k - unat index mod 2 ^ k)) mod 2 ^ k"
  have "probed k index ?j = (unat index mod 2 ^ k + (s + (2 ^ k - unat index mod 2 ^ k))) mod 2 ^ k"
    by (simp add: probed_def mod_simps)
  also have "unat index mod 2 ^ k + (s + (2 ^ k - unat index mod 2 ^ k)) = s + 2 ^ k"
  proof -
    have "unat index mod 2 ^ k < 2 ^ k" by simp
    then show ?thesis by linarith
  qed
  finally have "probed k index ?j = s" using s by simp
  then show ?thesis by (intro exI [of _ ?j]) simp
qed

section \<open>What a table stores\<close>

text \<open>Every key is reached by probing from its hash, stands once and has its value of \<open>m\<close>; a free
  slot has no value, and there is one.\<close>

definition used :: "nat \<Rightarrow> hash_table \<Rightarrow> nat set" where
  "used k h = {s. s < 2 ^ k \<and> key_at h s \<noteq> invalid_thread_id}"

definition placed :: "nat \<Rightarrow> hash_table \<Rightarrow> nat \<Rightarrow> bool" where
  "placed k h s \<longleftrightarrow> (\<exists>j. probed k (hash_thread_id (key_at h s)) j = s \<and>
     (\<forall>l < j. key_at h (probed k (hash_thread_id (key_at h s)) l) \<noteq> invalid_thread_id))"

definition table_ok :: "nat \<Rightarrow> hash_table \<Rightarrow> (u64 \<rightharpoonup> nat) \<Rightarrow> bool" where
  "table_ok k h m \<longleftrightarrow> table_size k h \<and> (\<forall>s \<in> used k h. placed k h s \<and> key_at h s \<in> dom m) \<and> inj_on (key_at h) (used k h) \<and>
     (\<forall>s < 2 ^ k. snd (ht_entries h ! s) = m (key_at h s)) \<and> card (used k h) < 2 ^ k"

lemma used_finite [simp]: "finite (used k h)"
  by (simp add: used_def)

lemma free_slot: "table_ok k h m \<Longrightarrow> \<exists>s < 2 ^ k. key_at h s = invalid_thread_id"
proof (rule ccontr)
  assume t: "table_ok k h m" and "\<not> (\<exists>s < 2 ^ k. key_at h s = invalid_thread_id)"
  then have "used k h = {..< 2 ^ k}" by (auto simp: used_def)
  then show False using t by (simp add: table_ok_def)
qed

text \<open>The first probed slot with a property, if a slot has it.\<close>

lemma first_probed:
  assumes "s < 2 ^ k" "P s"
  obtains j where "P (probed k index j)" "\<forall>l < j. \<not> P (probed k index l)"
proof -
  obtain j where "P (probed k index j)" using probed_all [OF assms(1)] assms(2) by metis
  then show ?thesis using that [of "LEAST j. P (probed k index j)"] LeastI [of "\<lambda>j. P (probed k index j)" j] not_less_Least by blast
qed

lemma probe_finds:
  assumes t: "table_ok k h m" and i: "i \<noteq> invalid_thread_id"
  shows "case m i of
      None \<Rightarrow> probe i h (hash_thread_id i) = Some None
    | Some v \<Rightarrow>
        if i \<in> key_at h ` used k h
        then \<exists>s \<in> used k h. probe i h (hash_thread_id i) = Some (Some s) \<and> snd (ht_entries h ! s) = Some v
        else probe i h (hash_thread_id i) = Some None"
proof -
  have ts: "table_size k h" using t by (simp add: table_ok_def)
  let ?p = "probed k (hash_thread_id i)"
  obtain f where f: "f < 2 ^ k" "key_at h f = invalid_thread_id" using free_slot [OF t] by blast
  obtain j where j: "key_at h (?p j) = i \<or> key_at h (?p j) = invalid_thread_id"
    "\<forall>l < j. \<not> (key_at h (?p l) = i \<or> key_at h (?p l) = invalid_thread_id)"
    using first_probed [of f k "\<lambda>s. key_at h s = i \<or> key_at h s = invalid_thread_id" "hash_thread_id i"] f by auto
  have r: "probe i h (hash_thread_id i) = Some (if key_at h (?p j) = i then Some (?p j) else None)"
    using probe_runs [OF ts, where j = j and i = i and index = "hash_thread_id i"] j by blast
  have u: "?p j \<in> used k h" if "key_at h (?p j) = i" using that i by (simp add: used_def probed_less)
  have k1: "key_at h (?p j) = i" if s: "s \<in> used k h" "key_at h s = i" for s
  proof (rule ccontr)
    assume n: "key_at h (?p j) \<noteq> i"
    obtain j' where j': "?p j' = s" "\<forall>l < j'. key_at h (?p l) \<noteq> invalid_thread_id"
      using t s by (auto simp: table_ok_def placed_def)
    have "j < j' \<or> j' < j \<or> j' = j" by linarith
    then show False using j j' n s by auto
  qed
  show ?thesis
  proof (cases "i \<in> key_at h ` used k h")
    case True
    then have k: "key_at h (?p j) = i" using k1 by auto
    moreover have "snd (ht_entries h ! ?p j) = m i" using t k by (auto simp: table_ok_def probed_less)
    moreover have "i \<in> dom m" using t u [OF k] k by (auto simp: table_ok_def)
    ultimately show ?thesis using r u [OF k] True by auto
  next
    case False
    then have "key_at h (?p j) \<noteq> i" using u by (metis imageI)
    then show ?thesis using r False by (auto split: option.split)
  qed
qed

lemma probe_invalid:
  assumes "table_ok k h m" "m invalid_thread_id = None"
  shows "\<exists>s. probe invalid_thread_id h index = Some (Some s) \<and> snd (ht_entries h ! s) = None"
proof -
  have ts: "table_size k h" using assms by (simp add: table_ok_def)
  obtain f where f: "f < 2 ^ k" "key_at h f = invalid_thread_id" using free_slot [OF assms(1)] by blast
  obtain j where j: "key_at h (probed k index j) = invalid_thread_id" "\<forall>l < j. key_at h (probed k index l) \<noteq> invalid_thread_id"
    using first_probed [of f k "\<lambda>s. key_at h s = invalid_thread_id" index] f by auto
  then have "snd (ht_entries h ! probed k index j) = None" using assms probed_less by (auto simp: table_ok_def)
  then show ?thesis using probe_runs [OF ts, where j = j and i = invalid_thread_id and index = index] j by auto
qed

text \<open>A thread that the map gets new, or an old one that this table has not, is inserted.\<close>

lemma insert_table:
  assumes t: "table_ok k h m" and i: "i \<noteq> invalid_thread_id" "i \<notin> key_at h ` used k h" and m': "m i = None \<or> m i = Some v"
    and c: "Suc (card (used k h)) < 2 ^ k"
  shows "\<exists>h'. insert_kvp i (Some v) h (hash_thread_id i) = Some h' \<and> table_ok k h' (m(i \<mapsto> v)) \<and>
    key_at h' ` used k h' = insert i (key_at h ` used k h)"
proof -
  have ts: "table_size k h" using t by (simp add: table_ok_def)
  let ?p = "probed k (hash_thread_id i)"
  obtain f where f: "f < 2 ^ k" "key_at h f = invalid_thread_id" using free_slot [OF t] by blast
  obtain j where j: "key_at h (?p j) = invalid_thread_id" "\<forall>l < j. key_at h (?p l) \<noteq> invalid_thread_id"
    using first_probed [of f k "\<lambda>s. key_at h s = invalid_thread_id" "hash_thread_id i"] f by auto
  define h' where "h' = h\<lparr>ht_entries := (ht_entries h)[?p j := (i, Some v)]\<rparr>"
  have r: "insert_kvp i (Some v) h (hash_thread_id i) = Some h'" using insert_runs [OF ts j(2) j(1)] by (simp add: h'_def)
  have l: "?p j < length (ht_entries h)" using ts probed_less by (simp add: table_size_def)
  have key: "key_at h' s = (if s = ?p j then i else key_at h s)" for s using l by (simp add: h'_def nth_list_update)
  have u: "used k h' = insert (?p j) (used k h)" using i(1) l by (auto simp: used_def key probed_less)
  have nu: "?p j \<notin> used k h" using j(1) by (simp add: used_def)
  have pl: "placed k h' s" if s: "s \<in> used k h'" for s
  proof (cases "s = ?p j")
    case True
    then show ?thesis unfolding placed_def key using j(2) i(1) by (intro exI [of _ j]) auto
  next
    case False
    then have "placed k h s" using s t u by (auto simp: table_ok_def)
    then show ?thesis unfolding placed_def key using False i(1) by auto
  qed
  have im: "key_at h' ` used k h' = insert i (key_at h ` used k h)"
    using nu unfolding u by (auto simp: key image_iff)
  have inj: "inj_on (key_at h') (used k h')"
  proof -
    have "inj_on (key_at h') (used k h)" using t nu by (auto simp: table_ok_def inj_on_def key)
    moreover have "key_at h' ` used k h = key_at h ` used k h" using nu by (intro image_cong) (auto simp: key)
    ultimately show ?thesis using i(2) nu unfolding u by (simp add: key)
  qed
  have "snd (ht_entries h' ! s) = (m(i \<mapsto> v)) (key_at h' s)" if "s < 2 ^ k" for s
  proof (cases "s = ?p j")
    case False
    have "key_at h s \<noteq> i" using that i by (auto simp: used_def)
    then show ?thesis using t that False by (auto simp: table_ok_def key) (simp add: h'_def)
  qed (use l key in \<open>simp add: h'_def\<close>)
  moreover have "key_at h' s \<in> dom (m(i \<mapsto> v))" if "s \<in> used k h'" for s
    using that t unfolding u by (auto simp: table_ok_def key)
  moreover have "table_size k h'" using ts by (simp add: table_size_def h'_def)
  moreover have "card (used k h') < 2 ^ k" using c nu unfolding u by simp
  ultimately have "table_ok k h' (m(i \<mapsto> v))" using pl inj by (simp add: table_ok_def)
  then show ?thesis using r im by blast
qed

text \<open>A table that does not know a thread is not concerned by it.\<close>

lemma table_ok_new:
  assumes "table_ok k h m" "m i = None" "i \<noteq> invalid_thread_id"
  shows "table_ok k h (m(i \<mapsto> v))"
proof -
  have "key_at h s \<noteq> i" if "s < 2 ^ k" for s
    using assms that by (cases "s \<in> used k h") (auto simp: table_ok_def used_def)
  then show ?thesis using assms(1) by (auto simp: table_ok_def)
qed

lemma new_hash_ok:
  assumes "k < 64" "m invalid_thread_id = None"
  shows "table_ok k (new_hash (2 ^ k)) m \<and> used k (new_hash (2 ^ k)) = {}"
proof -
  have "used k (new_hash (2 ^ k)) = {}" using assms by (auto simp: new_hash_def used_def unat_2_power)
  then show ?thesis using assms by (auto simp: table_ok_def table_size_def new_hash_def unat_2_power)
qed

lemma used_le: "table_ok k h m \<Longrightarrow> finite (dom m) \<Longrightarrow> card (used k h) \<le> card (dom m)"
  by (rule card_inj_on_le [of "key_at h"]) (auto simp: table_ok_def)

section \<open>The chain\<close>

definition known :: "hash_table \<Rightarrow> u64 set" where
  "known h = fst ` set (ht_entries h) - {invalid_thread_id}"

lemma known_used: "table_ok k h m \<Longrightarrow> known h = key_at h ` used k h"
  by (force simp: known_def used_def table_ok_def table_size_def set_conv_nth)

text \<open>The tables agree with \<open>m\<close> and together know every thread; the newest one has room for all
  threads and is at most three quarters full.\<close>

definition hashes_ok :: "hash_table list \<Rightarrow> (u64 \<rightharpoonup> nat) \<Rightarrow> bool" where
  "hashes_ok hs m \<longleftrightarrow> hs \<noteq> [] \<and> (\<forall>h \<in> set hs. \<exists>k. table_ok k h m) \<and> dom m \<subseteq> (\<Union>h \<in> set hs. known h) \<and> finite (dom m) \<and>
     invalid_thread_id \<notin> dom m \<and>
     (\<exists>k \<ge> 2. ht_capacity (hd hs) = 2 ^ k \<and> k < 64 \<and> 4 * card (dom m) < 3 * 2 ^ k)"

lemma find_thread_ok:
  assumes "\<forall>h \<in> set hs. \<exists>k. table_ok k h m" "i \<noteq> invalid_thread_id"
  shows "find_thread i (hash_thread_id i) hs = Some (if i \<in> (\<Union>h \<in> set hs. known h) then Some (m i) else None) \<and>
    (i \<in> (\<Union>h \<in> set hs. known h) \<longrightarrow> m i \<noteq> None)"
  using assms(1)
proof (induction hs)
  case (Cons h hs)
  obtain k where k: "table_ok k h m" using Cons.prems by auto
  note p = probe_finds [OF k assms(2)] and u = known_used [OF k]
  show ?case
  proof (cases "i \<in> known h")
    case True
    then obtain v where "m i = Some v" using k u by (auto simp: table_ok_def)
    then show ?thesis using p True u by auto
  next
    case False
    then have "probe i h (hash_thread_id i) = Some None" using p u by (auto split: option.splits)
    then show ?thesis using Cons False by simp
  qed
qed simp

lemma table_size_unique: "table_size k h \<Longrightarrow> ht_capacity h = 2 ^ l \<Longrightarrow> l < 64 \<Longrightarrow> k = l"
proof -
  assume a: "table_size k h" "ht_capacity h = 2 ^ l" "l < 64"
  then have "(2 :: nat) ^ k = 2 ^ l" using unat_2_power [of k] unat_2_power [of l] by (simp add: table_size_def)
  then show ?thesis by simp
qed

text \<open>A thread that is known is found; it is in the newest table from then on.\<close>

lemma lookup_known:
  assumes ok: "hashes_ok hs m" and v: "m i = Some v"
  shows "\<exists>hs'. lookup_thread i hs = Some (Some (Some v), hs') \<and> hashes_ok hs' m \<and> i \<in> known (hd hs') \<and>
    (i \<in> known (hd hs) \<longrightarrow> hs' = hs)"
proof -
  obtain h prev where hs: "hs = h # prev" using ok by (cases hs) (auto simp: hashes_ok_def)
  obtain k where k: "table_ok k h m" using ok hs by (auto simp: hashes_ok_def)
  have i: "i \<noteq> invalid_thread_id" using ok v by (auto simp: hashes_ok_def)
  note p = probe_finds [OF k i] and u = known_used [OF k]
  show ?thesis
  proof (cases "i \<in> known h")
    case True
    then show ?thesis using p v u ok hs by (auto simp: lookup_thread_def Let_def)
  next
    case False
    then have pn: "probe i h (hash_thread_id i) = Some None" using p v u by auto
    have all: "\<forall>h \<in> set prev. \<exists>k. table_ok k h m" using ok hs by (auto simp: hashes_ok_def)
    have "i \<in> (\<Union>h \<in> set prev. known h)" using ok hs v False by (auto simp: hashes_ok_def)
    then have f: "find_thread i (hash_thread_id i) prev = Some (Some (Some v))"
      using find_thread_ok [OF all i] v by simp
    obtain k' where k': "2 \<le> k'" "ht_capacity h = 2 ^ k'" "k' < 64" "4 * card (dom m) < 3 * 2 ^ k'"
      using ok hs by (auto simp: hashes_ok_def)
    have kk: "k = k'" using table_size_unique [of k h k'] k k' by (simp add: table_ok_def)
    have fin: "finite (dom m)" using ok by (simp add: hashes_ok_def)
    have "insert i (key_at h ` used k h) \<subseteq> dom m" using k v by (auto simp: table_ok_def)
    then have "card (insert i (key_at h ` used k h)) \<le> card (dom m)" using fin by (rule card_mono [rotated])
    then have "Suc (card (used k h)) \<le> card (dom m)"
      using False u k by (simp add: card_image table_ok_def)
    then have "Suc (card (used k h)) < 2 ^ k" using k'(4) kk by simp
    then obtain h' where h': "insert_kvp i (Some v) h (hash_thread_id i) = Some h'" "table_ok k h' (m(i \<mapsto> v))"
      "key_at h' ` used k h' = insert i (key_at h ` used k h)"
      using insert_table [OF k i, of v] False u v by auto
    have m: "m(i \<mapsto> v) = m" using v by (rule fun_upd_idem)
    have kn: "known h' = insert i (known h)" using known_used [OF h'(2)] h'(3) u by simp
    have "ht_capacity h' = ht_capacity h" using h'(2) k by (simp add: table_ok_def table_size_def)
    then have "hashes_ok (h' # prev) m" using ok hs h'(2) m kn by (auto simp: hashes_ok_def)
    then show ?thesis using pn f h'(1) hs False kn by (auto simp: lookup_thread_def Let_def)
  qed
qed

lemma lookup_unknown:
  assumes ok: "hashes_ok hs m" and n: "m i = None" and i: "i \<noteq> invalid_thread_id"
  shows "lookup_thread i hs = Some (None, hs)"
proof -
  obtain h prev where hs: "hs = h # prev" using ok by (cases hs) (auto simp: hashes_ok_def)
  obtain k where k: "table_ok k h m" using ok hs by (auto simp: hashes_ok_def)
  have "probe i h (hash_thread_id i) = Some None" using probe_finds [OF k i] n by simp
  moreover have "find_thread i (hash_thread_id i) prev = Some None"
    using find_thread_ok [of prev m i] ok hs i n by (auto simp: hashes_ok_def)
  ultimately show ?thesis using hs by (simp add: lookup_thread_def Let_def)
qed

text \<open>The invalid id is \<^emph>\<open>found\<close>, in a free slot, without a producer.\<close>

lemma lookup_invalid:
  assumes ok: "hashes_ok hs m"
  shows "lookup_thread invalid_thread_id hs = Some (Some None, hs)"
proof -
  obtain h prev where hs: "hs = h # prev" using ok by (cases hs) (auto simp: hashes_ok_def)
  obtain k where k: "table_ok k h m" using ok hs by (auto simp: hashes_ok_def)
  have "m invalid_thread_id = None" using ok by (auto simp: hashes_ok_def)
  then show ?thesis using probe_invalid [OF k, of "hash_thread_id invalid_thread_id"] hs by (auto simp: lookup_thread_def Let_def)
qed

section \<open>Adding a thread\<close>

lemma unat_drop_power: "j \<le> k \<Longrightarrow> k < 64 \<Longrightarrow> unat (drop_bit j (2 ^ k :: u64)) = 2 ^ (k - j)"
proof -
  assume "j \<le> k" "k < 64"
  moreover have "unat (drop_bit j w) = unat w div 2 ^ j" for w :: u64
    by (rule trans [OF unat_drop_bit_eq drop_bit_eq_div])
  ultimately show ?thesis by (simp only: unat_2_power) (simp add: power_diff)
qed

lemma has_room_iff:
  assumes "ht_capacity h = 2 ^ k" "2 \<le> k" "k < 64" "n < 2 ^ 64"
  shows "has_room (of_nat n) h \<longleftrightarrow> 4 * n < 3 * 2 ^ k"
proof -
  obtain j where j: "k = j + 2" using assms(2) by (metis add.commute le_Suc_ex)
  have "(2 :: nat) ^ j \<le> 2 ^ 61" using assms(3) j by (intro power_increasing) auto
  then have "unat (drop_bit 1 (2 ^ k :: u64) + drop_bit 2 (2 ^ k)) = 2 ^ (k - 1) + 2 ^ (k - 2)"
    using assms(2,3) by (simp only: unat_word_ariths unat_drop_power) (simp add: j)
  then show ?thesis
    using assms(4) by (simp add: has_room_def assms(1) word_less_nat_alt unat_of_nat take_bit_nat_eq_self j)
qed

lemma resize_ok:
  assumes ok: "hashes_ok hs m" and n: "Suc (card (dom m)) < 2 ^ 60"
  shows "\<exists>done hs'. resize_hash (of_nat (Suc (card (dom m)))) False mem hs = Some (done, hs') \<and> hashes_ok hs' m \<and> (mem \<longrightarrow> done) \<and>
    (if done then has_room (of_nat (Suc (card (dom m)))) (hd hs') else hs' = hs)"
proof -
  let ?n = "Suc (card (dom m))"
  obtain k where k: "2 \<le> k" "ht_capacity (hd hs) = 2 ^ k" "k < 64" "4 * card (dom m) < 3 * 2 ^ k"
    using ok by (auto simp: hashes_ok_def)
  have un: "unat (of_nat ?n :: u64) = ?n" using n by (simp add: unat_of_nat take_bit_nat_eq_self del: of_nat_Suc)
  have half: "drop_bit 1 (2 ^ j) \<le> (of_nat ?n :: u64) \<longleftrightarrow> 2 ^ (j - 1) \<le> ?n" if "1 \<le> j" "j < 64" for j
    using that un by (simp only: word_le_nat_alt unat_drop_power)
  show ?thesis
  proof (cases "2 ^ (k - 1) \<le> ?n")
    case False
    then have "resize_hash (of_nat ?n) False mem hs = Some (True, hs)"
      using half [of k] k by (simp add: resize_hash_def del: of_nat_Suc)
    moreover have "4 * ?n < 3 * 2 ^ k" using False k(1) by (cases k) auto
    then have "has_room (of_nat ?n) (hd hs)" using has_room_iff [of "hd hs" k ?n] k n by (simp del: of_nat_Suc)
    ultimately show ?thesis using ok by auto
  next
    case True
    then have "(2 :: nat) ^ (k - 1) < 2 ^ 60" using n by linarith
    then have k61: "k - 1 < 60" by (simp only: power_strict_increasing_iff one_less_numeral_iff semiring_norm)
    have c: "push_bit 1 (2 ^ k) = (2 ^ (k + 1) :: u64)" by (simp add: push_bit_eq_mult)
    have "2 ^ 2 \<le> (2 :: nat) ^ k" using k(1) by (intro power_increasing) auto
    then have nk: "?n < 2 ^ k" using k(4) by simp
    then have "\<not> drop_bit 1 (2 ^ (k + 1)) \<le> (of_nat ?n :: u64)" using half [of "k + 1"] k61 by simp
    then have g: "grow_capacity (of_nat ?n) (2 ^ (k + 1)) = Some (2 ^ (k + 1))"
      by (subst grow_capacity.simps) (simp del: of_nat_Suc)
    have r: "resize_hash (of_nat ?n) False mem hs =
        (if mem then Some (True, new_hash (2 ^ (k + 1)) # hs) else Some (False, hs))"
      using True half [of k] k g by (simp only: resize_hash_def c) (simp del: of_nat_Suc)
    have "hashes_ok (new_hash (2 ^ (k + 1)) # hs) m"
    proof -
      have "m invalid_thread_id = None" using ok by (auto simp: hashes_ok_def)
      then have "\<exists>l. table_ok l (new_hash (2 ^ (k + 1))) m" using new_hash_ok [of "k + 1" m] k61 by (intro exI [of _ "k + 1"]) linarith
      then have "\<forall>h \<in> set (new_hash (2 ^ (k + 1)) # hs). \<exists>l. table_ok l h m" using ok by (simp add: hashes_ok_def)
      moreover have "dom m \<subseteq> (\<Union>h \<in> set (new_hash (2 ^ (k + 1)) # hs). known h)" using ok by (auto simp: hashes_ok_def)
      moreover have "\<exists>l \<ge> 2. ht_capacity (hd (new_hash (2 ^ (k + 1)) # hs)) = 2 ^ l \<and> l < 64 \<and> 4 * card (dom m) < 3 * 2 ^ l"
        using k k61 by (intro exI [of _ "k + 1"]) (simp add: new_hash_def)
      ultimately show ?thesis using ok by (simp only: hashes_ok_def) simp
    qed
    moreover have "has_room (of_nat ?n) (new_hash (2 ^ (k + 1)))"
    proof -
      have "4 * ?n < 3 * 2 ^ (k + 1)" using nk by simp
      moreover have "2 \<le> k + 1" "k + 1 < 64" "?n < 2 ^ 64" using k61 k(1) n by simp_all
      ultimately show ?thesis using has_room_iff [of "new_hash (2 ^ (k + 1))" "k + 1" ?n] by (simp add: new_hash_def del: of_nat_Suc)
    qed
    ultimately show ?thesis using r ok by auto
  qed
qed

lemma register_ok:
  assumes ok: "hashes_ok hs m" and new: "m i = None" "i \<noteq> invalid_thread_id" and n: "Suc (card (dom m)) < 2 ^ 60"
    and room: "has_room (of_nat (Suc (card (dom m)))) (hd hs)"
  shows "\<exists>h'. insert_kvp i (Some v) (hd hs) (hash_thread_id i) = Some h' \<and> hashes_ok (h' # tl hs) (m(i \<mapsto> v))"
proof -
  obtain h prev where hs: "hs = h # prev" using ok by (cases hs) (auto simp: hashes_ok_def)
  obtain l where l: "table_ok l h m" using ok hs by (auto simp: hashes_ok_def)
  obtain k where k: "2 \<le> k" "ht_capacity h = 2 ^ k" "k < 64" using ok hs by (auto simp: hashes_ok_def)
  have lk: "l = k" using table_size_unique [of l h k] l k by (simp add: table_ok_def)
  have r: "4 * Suc (card (dom m)) < 3 * 2 ^ k"
    using room has_room_iff [of h k "Suc (card (dom m))"] k n hs by (simp del: of_nat_Suc)
  have fin: "finite (dom m)" using ok by (simp add: hashes_ok_def)
  have nk: "i \<notin> key_at h ` used l h" using l new by (auto simp: table_ok_def)
  have "Suc (card (used l h)) < 2 ^ l" using used_le [OF l fin] r lk by simp
  then obtain h' where h': "insert_kvp i (Some v) h (hash_thread_id i) = Some h'" "table_ok l h' (m(i \<mapsto> v))"
    "key_at h' ` used l h' = insert i (key_at h ` used l h)"
    using insert_table [OF l new(2) nk, of v] new(1) by auto
  have kn: "known h' = insert i (known h)" using known_used [OF h'(2)] h'(3) known_used [OF l] by simp
  have "\<exists>k. table_ok k g (m(i \<mapsto> v))" if "g \<in> set prev" for g
    using ok hs that table_ok_new [where i = i and m = m, OF _ new(1) new(2)] by (fastforce simp: hashes_ok_def)
  moreover have "ht_capacity h' = ht_capacity h" using h'(2) l by (simp add: table_ok_def table_size_def)
  moreover have "card (dom (m(i \<mapsto> v))) = Suc (card (dom m))" using new(1) fin by (simp add: domIff)
  ultimately have "hashes_ok (h' # prev) (m(i \<mapsto> v))"
    using ok hs h'(2) kn new k r unfolding hashes_ok_def by auto
  then show ?thesis using h'(1) hs by simp
qed

end
