(* ===== verification/Concurrent_Queue.thy ===== *)
theory Concurrent_Queue
  imports Bulk_Enqueue Producer_Hash
begin

text \<open>
  \<open>concurrentqueue.h\<close>, the whole queue: the list of producers, the thread's own producer, and
  enqueueing and dequeueing for threads that take turns. It keeps one first-in first-out list
  per thread, and \<open>try_dequeue\<close> serves them all.
\<close>

section \<open>State\<close>

text \<open>The producers are numbered in the order of their creation; the linked list starts at the
  newest. A number is an address. All producers are implicit ones.\<close>

record 'a cqueue =
  block_pool :: "'a pool"
  prods :: "producer list"
  inactive :: "bool list"
  producerCount :: u32
  hashes :: "hash_table list"
  hash_count :: u64
  resize_in_progress :: bool

text \<open>What the allocator answers during a call.\<close>

record memory =
  m_hash :: bool
  m_producer :: bool
  m_first_index :: bool
  m_index :: bool
  m_block :: bool
  m_stale :: "nat option"

definition ConcurrentQueue :: "bool \<Rightarrow> u64 \<Rightarrow> 'a cqueue" where
  "ConcurrentQueue mem capacity =
     \<lparr>block_pool = populate_initial_block_list mem
        (capacity div BLOCK_SIZE + (if capacity AND (BLOCK_SIZE - 1) = 0 then 0 else 1)),
      prods = [], inactive = [], producerCount = 0, hashes = [new_hash INITIAL_IMPLICIT_PRODUCER_HASH_SIZE],
      hash_count = 0, resize_in_progress = False\<rparr>"

text \<open>The order of \<open>next_prod\<close>.\<close>

definition producer_list :: "'a cqueue \<Rightarrow> nat list" where
  "producer_list Q = rev [0..<length (prods Q)]"

section \<open>Producers\<close>

definition add_producer :: "producer option \<Rightarrow> 'a cqueue \<Rightarrow> nat option \<times> 'a cqueue" where
  "add_producer new Q =
     (case new of
        None \<Rightarrow> (None, Q)
      | Some p \<Rightarrow> (Some (length (prods Q)),
          Q\<lparr>producerCount := producerCount Q + 1, prods := prods Q @ [p], inactive := inactive Q @ [False]\<rparr>))"

definition recycle_or_create_producer :: "memory \<Rightarrow> 'a cqueue \<Rightarrow> nat option \<times> bool \<times> 'a cqueue" where
  "recycle_or_create_producer e Q =
     (case find (\<lambda>r. inactive Q ! r) (producer_list Q) of
        Some r \<Rightarrow> (Some r, True, Q\<lparr>inactive := (inactive Q)[r := False]\<rparr>)
      | None \<Rightarrow>
          (case add_producer (if m_producer e then Some (make_producer (m_first_index e) (m_stale e)) else None) Q of
             (r, Q) \<Rightarrow> (r, False, Q)))"

text \<open>The insertion loop of \<open>get_or_add_implicit_producer\<close>.\<close>

partial_function (option) add_implicit_producer ::
  "memory \<Rightarrow> u64 \<Rightarrow> u64 \<Rightarrow> 'a cqueue \<Rightarrow> (nat option \<times> 'a cqueue) option" where
  "add_implicit_producer e i newCount Q =
     (case resize_hash newCount (resize_in_progress Q) (m_hash e) (hashes Q) of
        None \<Rightarrow> None
      | Some (done, hs) \<Rightarrow>
          if \<not> done then Some (None, Q\<lparr>hash_count := hash_count Q - 1\<rparr>)
          else if has_room newCount (hd hs) then
            (case recycle_or_create_producer e (Q\<lparr>hashes := hs\<rparr>) of
               (None, recycled, Q) \<Rightarrow> Some (None, Q\<lparr>hash_count := hash_count Q - 1\<rparr>)
             | (Some r, recycled, Q) \<Rightarrow>
                 map_option (\<lambda>h. (Some r, Q\<lparr>hash_count := (if recycled then hash_count Q - 1 else hash_count Q), hashes := h # tl hs\<rparr>))
                   (insert_kvp i (Some r) (hd hs) (hash_thread_id i)))
          else add_implicit_producer e i newCount (Q\<lparr>hashes := hs\<rparr>))"

text \<open>The producer of the calling thread \<open>i\<close>.\<close>

definition get_or_add_implicit_producer :: "memory \<Rightarrow> u64 \<Rightarrow> 'a cqueue \<Rightarrow> (nat option \<times> 'a cqueue) option" where
  "get_or_add_implicit_producer e i Q =
     (case lookup_thread i (hashes Q) of
        None \<Rightarrow> None
      | Some (Some v, hs) \<Rightarrow> Some (v, Q\<lparr>hashes := hs\<rparr>)
      | Some (None, hs) \<Rightarrow> add_implicit_producer e i (1 + hash_count Q) (Q\<lparr>hash_count := hash_count Q + 1\<rparr>))"

section \<open>Enqueueing and dequeueing\<close>

definition MAX_SUBQUEUE_SIZE :: u64 where "MAX_SUBQUEUE_SIZE = - 1"

text \<open>\<open>producer == nullptr ? false : producer->op(...)\<close>.\<close>

definition on_own_producer ::
  "('a pool \<times> producer \<Rightarrow> (bool \<times> 'a pool \<times> producer) option) \<Rightarrow> memory \<Rightarrow> u64 \<Rightarrow> 'a cqueue \<Rightarrow> (bool \<times> 'a cqueue) option" where
  "on_own_producer op e i Q =
     (case get_or_add_implicit_producer e i Q of
        None \<Rightarrow> None
      | Some (None, Q) \<Rightarrow> Some (False, Q)
      | Some (Some r, Q) \<Rightarrow>
          map_option (\<lambda>(ok, q, p). (ok, Q\<lparr>block_pool := q, prods := (prods Q)[r := p]\<rparr>)) (op (block_pool Q, prods Q ! r)))"

definition inner_enqueue :: "bool \<Rightarrow> memory \<Rightarrow> u64 \<Rightarrow> 'a \<Rightarrow> 'a cqueue \<Rightarrow> (bool \<times> 'a cqueue) option" where
  "inner_enqueue can_alloc e i x =
     on_own_producer (producer_enqueue MAX_SUBQUEUE_SIZE can_alloc (m_index e) (m_block e) (m_stale e) x) e i"

text \<open>For many elements \<open>im\<close> and \<open>bm\<close> say of every iteration whether there is memory for a larger
  index and for a block.\<close>

definition inner_enqueue_bulk ::
  "bool \<Rightarrow> (nat \<Rightarrow> bool) \<Rightarrow> (nat \<Rightarrow> bool) \<Rightarrow> memory \<Rightarrow> u64 \<Rightarrow> 'a list \<Rightarrow> 'a cqueue \<Rightarrow> (bool \<times> 'a cqueue) option" where
  "inner_enqueue_bulk can_alloc im bm e i xs =
     on_own_producer (producer_enqueue_bulk MAX_SUBQUEUE_SIZE can_alloc im bm (m_stale e) xs) e i"

definition enqueue :: "memory \<Rightarrow> u64 \<Rightarrow> 'a \<Rightarrow> 'a cqueue \<Rightarrow> (bool \<times> 'a cqueue) option" where
  "enqueue e i x Q =
     (if INITIAL_IMPLICIT_PRODUCER_HASH_SIZE = 0 then Some (False, Q) else inner_enqueue True e i x Q)"

definition try_enqueue :: "memory \<Rightarrow> u64 \<Rightarrow> 'a \<Rightarrow> 'a cqueue \<Rightarrow> (bool \<times> 'a cqueue) option" where
  "try_enqueue e i x Q =
     (if INITIAL_IMPLICIT_PRODUCER_HASH_SIZE = 0 then Some (False, Q) else inner_enqueue False e i x Q)"

definition enqueue_bulk ::
  "(nat \<Rightarrow> bool) \<Rightarrow> (nat \<Rightarrow> bool) \<Rightarrow> memory \<Rightarrow> u64 \<Rightarrow> 'a list \<Rightarrow> 'a cqueue \<Rightarrow> (bool \<times> 'a cqueue) option" where
  "enqueue_bulk im bm e i xs Q =
     (if INITIAL_IMPLICIT_PRODUCER_HASH_SIZE = 0 then Some (False, Q) else inner_enqueue_bulk True im bm e i xs Q)"

definition try_enqueue_bulk ::
  "(nat \<Rightarrow> bool) \<Rightarrow> (nat \<Rightarrow> bool) \<Rightarrow> memory \<Rightarrow> u64 \<Rightarrow> 'a list \<Rightarrow> 'a cqueue \<Rightarrow> (bool \<times> 'a cqueue) option" where
  "try_enqueue_bulk im bm e i xs Q =
     (if INITIAL_IMPLICIT_PRODUCER_HASH_SIZE = 0 then Some (False, Q) else inner_enqueue_bulk False im bm e i xs Q)"

definition dequeue_producer :: "nat \<Rightarrow> 'a cqueue \<Rightarrow> ('a option \<times> 'a cqueue) option" where
  "dequeue_producer r Q =
     map_option (\<lambda>(f, q, p). (f, Q\<lparr>block_pool := q, prods := (prods Q)[r := p]\<rparr>))
       (producer_dequeue (block_pool Q, prods Q ! r))"

text \<open>The scores: how many of the first producers are not empty (at most three), the fullest of
  them and its size.\<close>

fun score :: "producer list \<Rightarrow> nat list \<Rightarrow> nat \<times> nat option \<times> u64 \<Rightarrow> nat \<times> nat option \<times> u64" where
  "score ps [] s = s"
| "score ps (r # rs) (nonEmptyCount, best, bestSize) =
     (if \<not> nonEmptyCount < 3 then (nonEmptyCount, best, bestSize)
      else let size = producer_size_approx (ps ! r) in
        if 0 < size
        then if bestSize < size then score ps rs (nonEmptyCount + 1, Some r, size)
          else score ps rs (nonEmptyCount + 1, best, bestSize)
        else score ps rs (nonEmptyCount, best, bestSize))"

text \<open>Try the producers in turn, except \<open>best\<close>.\<close>

fun dequeue_others :: "nat option \<Rightarrow> nat list \<Rightarrow> 'a cqueue \<Rightarrow> ('a option \<times> 'a cqueue) option" where
  "dequeue_others best [] Q = Some (None, Q)"
| "dequeue_others best (r # rs) Q =
     (if Some r = best then dequeue_others best rs Q
      else case dequeue_producer r Q of
          None \<Rightarrow> None
        | Some (Some x, Q) \<Rightarrow> Some (Some x, Q)
        | Some (None, Q) \<Rightarrow> dequeue_others best rs Q)"

definition try_dequeue :: "'a cqueue \<Rightarrow> ('a option \<times> 'a cqueue) option" where
  "try_dequeue Q =
     (case score (prods Q) (producer_list Q) (0, None, 0) of
        (nonEmptyCount, best, bestSize) \<Rightarrow>
          if 0 < nonEmptyCount
          then (case best of
              None \<Rightarrow> None
            | Some b \<Rightarrow>
                (case dequeue_producer b Q of
                   None \<Rightarrow> None
                 | Some (Some x, Q) \<Rightarrow> Some (Some x, Q)
                 | Some (None, Q) \<Rightarrow> dequeue_others best (producer_list Q) Q))
          else Some (None, Q))"

definition try_dequeue_non_interleaved :: "'a cqueue \<Rightarrow> ('a option \<times> 'a cqueue) option" where
  "try_dequeue_non_interleaved Q = dequeue_others None (producer_list Q) Q"

definition size_approx :: "'a cqueue \<Rightarrow> u64" where
  "size_approx Q = fold (\<lambda>r size. size + producer_size_approx (prods Q ! r)) (producer_list Q) 0"

text \<open>The list is what is written through the iterator; the count returned is its length.\<close>

fun dequeue_bulk_all :: "u64 \<Rightarrow> u64 \<Rightarrow> nat list \<Rightarrow> 'a cqueue \<Rightarrow> ('a list \<times> 'a cqueue) option" where
  "dequeue_bulk_all m count [] Q = Some ([], Q)"
| "dequeue_bulk_all m count (r # rs) Q =
     (case producer_dequeue_bulk (m - count) (block_pool Q, prods Q ! r) of
        None \<Rightarrow> None
      | Some (xs, q, p) \<Rightarrow>
          (let Q = Q\<lparr>block_pool := q, prods := (prods Q)[r := p]\<rparr>; count = count + of_nat (length xs) in
           if count = m then Some (xs, Q)
           else map_option (\<lambda>(ys, Q). (xs @ ys, Q)) (dequeue_bulk_all m count rs Q)))"

definition try_dequeue_bulk :: "u64 \<Rightarrow> 'a cqueue \<Rightarrow> ('a list \<times> 'a cqueue) option" where
  "try_dequeue_bulk m Q = dequeue_bulk_all m 0 (producer_list Q) Q"

text \<open>The constructor for a minimum capacity and numbers of producers.\<close>

definition ConcurrentQueue_for :: "bool \<Rightarrow> u64 \<Rightarrow> u64 \<Rightarrow> u64 \<Rightarrow> 'a cqueue" where
  "ConcurrentQueue_for mem minCapacity maxExplicitProducers maxImplicitProducers =
     (let blocks = ((minCapacity + BLOCK_SIZE - 1) div BLOCK_SIZE - 1) * (maxExplicitProducers + 1) +
                   2 * (maxExplicitProducers + maxImplicitProducers)
      in (ConcurrentQueue mem 0)\<lparr>block_pool := populate_initial_block_list mem blocks\<rparr>)"

end
