(* ===== verification/Queue_Refinement.thy ===== *)
theory Queue_Refinement
  imports Concurrent_Queue
begin

text \<open>
  The queue represents a list per producer and a map from threads to producers: \<open>enqueue\<close>
  appends to the list of the calling thread, \<open>try_dequeue\<close> removes the head of one of the
  lists and fails only if all are empty. From this follow the contract of the whole queue as a
  multiset and the order of the elements of one thread.
\<close>

section \<open>Representation\<close>

text \<open>A producer whose first index could not be allocated never takes an element.\<close>

definition dead :: "producer \<Rightarrow> bool" where
  "dead p \<longleftrightarrow> blockIndex p = None \<and> tailIndex p = 0 \<and> headIndex p = 0 \<and> dequeueOptimisticCount p = 0 \<and> dequeueOvercommit p = 0"

definition prod_rep :: "'a pool \<Rightarrow> producer \<Rightarrow> nat list \<Rightarrow> 'a list \<Rightarrow> bool" where
  "prod_rep q p rs xs \<longleftrightarrow> rep q p rs xs \<or> (dead p \<and> rs = [] \<and> xs = [])"

lemma prod_rep_frame: "prod_rep q p rs xs \<Longrightarrow> (\<And>r. r \<in> set rs \<Longrightarrow> blocks q' r = blocks q r) \<Longrightarrow> prod_rep q' p rs xs"
  unfolding prod_rep_def by (auto intro: rep_frame)

lemma make_producer_prod_rep: "prod_rep q (make_producer mem stale) [] []"
proof (cases mem)
  case False
  then have "dead (make_producer mem stale)" by (simp add: dead_def make_producer_def new_block_index_def Let_def)
  then show ?thesis by (simp add: prod_rep_def)
qed (simp add: prod_rep_def make_producer_rep)

lemma rep_alive: "rep q p rs xs \<Longrightarrow> \<not> dead p"
  by (auto simp: rep_def block_rep_def Let_def index_rep_def index_ok_def dead_def)

lemma prod_enqueue:
  assumes r: "prod_rep q p rs xs" and ok: "pool_ok q U" "set rs \<subseteq> U"
  shows "\<exists>okay q' p' rs'. producer_enqueue ms ca im bm stale x (q, p) = Some (okay, q', p') \<and>
    prod_rep q' p' rs' (if okay then xs @ [x] else xs) \<and> pool_ok q' (U \<union> set rs') \<and>
    set rs \<subseteq> set rs' \<and> set rs' \<inter> U = set rs \<and> (\<forall>u \<in> U - set rs. blocks q' u = blocks q u) \<and>
    (\<not> dead p \<longrightarrow> \<not> dead p' \<and> (ms = - 1 \<and> ca \<and> im \<and> bm \<and> length xs + 32 < 2 ^ 63 \<longrightarrow> okay))"
proof (cases "dead p \<and> rs = [] \<and> xs = []")
  case True
  have "\<not> circular_less_than 0 0" "circular_less_than 0 BLOCK_SIZE"
    using circular_less_than_iff [of 0 0] circular_less_than_iff [of 32 0] by (simp_all add: BLOCK_SIZE_def)
  then have "producer_enqueue ms ca im bm stale x (q, p) = Some (False, q, p)"
    using True by (simp add: producer_enqueue_def dead_def insert_block_index_entry_def Let_def)
  then show ?thesis
    using True ok by (intro exI [of _ False] exI [of _ q] exI [of _ p] exI [of _ "[]"]) (simp add: prod_rep_def)
next
  case False
  then have "rep q p rs xs" using r by (auto simp: prod_rep_def)
  from producer_enqueue_correct [OF this ok, of ms ca im bm stale x]
  obtain okay q' p' where e: "producer_enqueue ms ca im bm stale x (q, p) = Some (okay, q', p')"
    "enqueued q rs xs U x (okay, q', p')" "ms = - 1 \<and> ca \<and> im \<and> bm \<and> length xs + 32 < 2 ^ 63 \<longrightarrow> okay"
    by (metis fst_conv prod_cases3)
  from e(2) obtain rs' where "rep q' p' rs' (if okay then xs @ [x] else xs)" "pool_ok q' (U \<union> set rs')"
    "set rs \<subseteq> set rs'" "set rs' \<inter> U = set rs" "\<forall>u \<in> U - set rs. blocks q' u = blocks q u"
    unfolding enqueued_def case_prod_conv by blast
  then show ?thesis using e(1,3) rep_alive unfolding prod_rep_def by blast
qed

lemma prod_dequeue:
  assumes r: "prod_rep q p rs xs" and ok: "pool_ok q U" "set rs \<subseteq> U"
  shows "case xs of [] \<Rightarrow> producer_dequeue (q, p) = Some (None, q, p)
    | x # xs \<Rightarrow> \<exists>q' p' rs'. producer_dequeue (q, p) = Some (Some x, q', p') \<and> prod_rep q' p' rs' xs \<and>
        set rs' \<subseteq> set rs \<and> pool_ok q' (U - (set rs - set rs')) \<and> (\<forall>u \<in> U - set rs. blocks q' u = blocks q u) \<and> \<not> dead p'"
proof (cases "dead p \<and> rs = [] \<and> xs = []")
  case True
  have "\<not> circular_less_than 0 0" using circular_less_than_iff [of 0 0] by simp
  then show ?thesis using True by (simp add: producer_dequeue_def dead_def Let_def)
next
  case False
  then have "rep q p rs xs" using r by (auto simp: prod_rep_def)
  from producer_dequeue_correct [OF this ok] show ?thesis
    by (cases xs) (auto simp: dequeued_def prod_rep_def dest: rep_alive)
qed

lemma prod_size: "prod_rep q p rs xs \<Longrightarrow> unat (producer_size_approx p) = length xs"
  using producer_size_correct [of q p rs xs] circular_less_than_iff [of 0 0]
  by (auto simp: prod_rep_def dead_def producer_size_approx_def)

text \<open>A producer without an index accepts nothing.\<close>

lemma dead_enqueue_bulk:
  assumes d: "dead p" and ys: "length ys < 2 ^ 63"
  shows "\<exists>okay. producer_enqueue_bulk ms ca im bm stale ys (q, p) = Some (okay, q, p) \<and> (okay \<longrightarrow> ys = [])"
proof -
  have p: "blockIndex p = None" "tailIndex p = 0" "headIndex p = 0" using d by (simp_all add: dead_def)
  have same: "p\<lparr>tailBlock := tailBlock p\<rparr> = p" "p\<lparr>tailIndex := 0\<rparr> = p" using p(2) by (cases p; simp)+
  have cur: "((- 1 :: u64) AND NOT (BLOCK_SIZE - 1)) + BLOCK_SIZE = 0" by (simp add: BLOCK_SIZE_def)
  let ?k = "(length ys + 31) div 32"
  have "((of_nat (length ys) - 1 :: u64) AND NOT (BLOCK_SIZE - 1)) + BLOCK_SIZE = 32 * of_nat ?k"
    using bulk_base [of 0 "length ys"] by (simp add: slot_mod)
  then have diff: "((of_nat (length ys) - 1 :: u64) AND NOT (BLOCK_SIZE - 1)) - ((- 1) AND NOT (BLOCK_SIZE - 1)) = 32 * of_nat ?k"
    using cur by (metis add_diff_cancel_right diff_zero)
  have "32 * ?k \<le> length ys + 31" by simp
  then have "?k < 2 ^ 59" using ys by simp
  note pos = blocks_pos [OF this]
  show ?thesis
  proof (cases "ys = []")
    case True
    have "circular_less_than 0 ((0 AND NOT (BLOCK_SIZE - 1)) + BLOCK_SIZE)"
      using circular_less_than_iff [of 32 0] by (simp add: BLOCK_SIZE_def)
    then have "fill_blocks (tailBlock p) 0 0 [] q p = Some (q, p)"
      by (subst fill_blocks.simps) (simp add: Let_def split: option.split)
    then show ?thesis using True by (intro exI [of _ True]) (simp add: producer_enqueue_bulk_def fill_allocation_def p same)
  next
    case False
    then have "0 < ?k" by (cases ys) simp_all
    moreover have "\<not> circular_less_than 0 0" using circular_less_than_iff [of 0 0] by simp
    then have "allocate_blocks ms ca im bm stale 0 (tailBlock p) 0 d c None q p = Some (False, None, q, p)"
      if "c + BLOCK_SIZE = 0" for c d
      using that by (subst allocate_blocks.simps)
        (simp add: Let_def p insert_block_index_entry_def revert_allocation_def release_entries.simps add_blocks_to_free_list.simps same)
    from this [OF cur] have "allocate_blocks ms ca im bm stale 0 (tailBlock p) 0 d (NOT (BLOCK_SIZE - 1)) None q p = Some (False, None, q, p)" for d
      by simp
    ultimately show ?thesis using pos by (intro exI [of _ False]) (simp add: producer_enqueue_bulk_def p Let_def diff [simplified])
  qed
qed

text \<open>The blocks of the producers are disjoint; every thread in \<open>m\<close> has a producer of its own.\<close>

definition used_blocks :: "nat list list \<Rightarrow> nat set" where
  "used_blocks rss = (\<Union>s < length rss. set (rss ! s))"

definition lists_rep :: "'a pool \<Rightarrow> producer list \<Rightarrow> nat list list \<Rightarrow> 'a list list \<Rightarrow> bool" where
  "lists_rep q ps rss xss \<longleftrightarrow> length rss = length ps \<and> length xss = length ps \<and> pool_ok q (used_blocks rss) \<and>
     (\<forall>r < length ps. prod_rep q (ps ! r) (rss ! r) (xss ! r)) \<and>
     (\<forall>r < length ps. \<forall>s < length ps. r \<noteq> s \<longrightarrow> set (rss ! r) \<inter> set (rss ! s) = {})"

definition threads_rep :: "'a cqueue \<Rightarrow> (u64 \<rightharpoonup> nat) \<Rightarrow> bool" where
  "threads_rep Q m \<longleftrightarrow> hashes_ok (hashes Q) m \<and> hash_count Q = of_nat (card (dom m)) \<and> \<not> resize_in_progress Q \<and>
     ran m = {..< length (prods Q)} \<and> inj_on m (dom m) \<and> inactive Q = replicate (length (prods Q)) False"

definition queue_rep :: "'a cqueue \<Rightarrow> (u64 \<rightharpoonup> nat) \<Rightarrow> 'a list list \<Rightarrow> bool" where
  "queue_rep Q m xss \<longleftrightarrow> threads_rep Q m \<and> (\<exists>rss. lists_rep (block_pool Q) (prods Q) rss xss)"

lemma block_not_of_others:
  "lists_rep q ps rss xss \<Longrightarrow> r < length ps \<Longrightarrow> s < length ps \<Longrightarrow> s \<noteq> r \<Longrightarrow> u \<in> set (rss ! s) \<Longrightarrow> u \<in> used_blocks rss - set (rss ! r)"
  by (auto simp: lists_rep_def used_blocks_def)

text \<open>One producer changes, within its own blocks and fresh ones.\<close>

lemma lists_rep_update:
  assumes l: "lists_rep q ps rss xss" and r: "r < length ps" and p: "prod_rep q' p' rs' xs'"
    and pool: "pool_ok q' (used_blocks (rss[r := rs']))" and own: "set rs' \<inter> used_blocks rss \<subseteq> set (rss ! r)"
    and frame: "\<forall>u \<in> used_blocks rss - set (rss ! r). blocks q' u = blocks q u"
  shows "lists_rep q' (ps[r := p']) (rss[r := rs']) (xss[r := xs'])"
proof -
  have len: "length rss = length ps" "length xss = length ps" using l by (simp_all add: lists_rep_def)
  have other: "prod_rep q' (ps ! s) (rss ! s) (xss ! s)" if "s < length ps" "s \<noteq> r" for s
  proof (rule prod_rep_frame)
    show "prod_rep q (ps ! s) (rss ! s) (xss ! s)" using l that by (simp add: lists_rep_def)
    show "blocks q' u = blocks q u" if "u \<in> set (rss ! s)" for u
      using frame block_not_of_others [OF l r \<open>s < length ps\<close> \<open>s \<noteq> r\<close> that] by blast
  qed
  have disj: "set rs' \<inter> set (rss ! s) = {}" if "s < length ps" "s \<noteq> r" for s
    using own block_not_of_others [OF l r that] by blast
  show ?thesis
    unfolding lists_rep_def
  proof (intro conjI allI impI)
    fix s assume s: "s < length (ps[r := p'])"
    show "prod_rep q' (ps[r := p'] ! s) (rss[r := rs'] ! s) (xss[r := xs'] ! s)"
      using s other [of s] p len r by (cases "s = r") simp_all
    fix t assume t: "t < length (ps[r := p'])" "s \<noteq> t"
    show "set (rss[r := rs'] ! s) \<inter> set (rss[r := rs'] ! t) = {}"
    proof (cases "s = r \<or> t = r")
      case True
      then show ?thesis using disj [of s] disj [of t] s t len r by (auto simp: nth_list_update Int_commute)
    next
      case False
      then show ?thesis using l s t by (simp add: lists_rep_def)
    qed
  qed (use len pool in simp_all)
qed

lemma used_blocks_at:
  "r < length rss \<Longrightarrow> used_blocks rss = set (rss ! r) \<union> (\<Union>s \<in> {..< length rss} - {r}. set (rss ! s))"
  by (auto simp: used_blocks_def)

lemma used_blocks_update:
  "r < length rss \<Longrightarrow> used_blocks (rss[r := rs]) = set rs \<union> (\<Union>s \<in> {..< length rss} - {r}. set (rss ! s))"
  using used_blocks_at [of r "rss[r := rs]"] by simp

lemma used_blocks_grow:
  "r < length rss \<Longrightarrow> set (rss ! r) \<subseteq> set rs \<Longrightarrow> used_blocks (rss[r := rs]) = used_blocks rss \<union> set rs"
  by (auto simp: used_blocks_update used_blocks_at)

lemma used_blocks_shrink:
  assumes l: "lists_rep q ps rss xss" and r: "r < length ps" and s: "set rs \<subseteq> set (rss ! r)"
  shows "used_blocks (rss[r := rs]) = used_blocks rss - (set (rss ! r) - set rs)"
proof -
  have len: "length rss = length ps" using l by (simp add: lists_rep_def)
  have "(\<Union>s \<in> {..< length rss} - {r}. set (rss ! s)) \<inter> set (rss ! r) = {}"
    using l r len by (auto simp: lists_rep_def)
  then show ?thesis using used_blocks_at [of r rss] used_blocks_update [of r rss rs] r len s by auto
qed

section \<open>The producer of a thread\<close>

lemma lists_rep_add:
  "lists_rep q ps rss xss \<Longrightarrow> prod_rep q p [] [] \<Longrightarrow> lists_rep q (ps @ [p]) (rss @ [[]]) (xss @ [[]])"
  by (auto simp: lists_rep_def nth_append used_blocks_def less_Suc_eq lessThan_Suc)

lemma recycle_or_create:
  assumes "inactive Q = replicate (length (prods Q)) False"
  shows "recycle_or_create_producer e Q = (if m_producer e
    then (Some (length (prods Q)), False, Q\<lparr>producerCount := producerCount Q + 1,
      prods := prods Q @ [make_producer (m_first_index e) (m_stale e)], inactive := replicate (Suc (length (prods Q))) False\<rparr>)
    else (None, False, Q))"
proof -
  have "find (\<lambda>r. inactive Q ! r) (producer_list Q) = None" using assms by (simp add: find_None_iff producer_list_def)
  then show ?thesis using assms by (simp add: recycle_or_create_producer_def add_producer_def replicate_append_same)
qed

text \<open>No producer failed to get its first index.\<close>

definition all_alive :: "'a cqueue \<Rightarrow> bool" where
  "all_alive Q \<longleftrightarrow> (\<forall>p \<in> set (prods Q). \<not> dead p)"

lemma make_producer_alive: "\<not> dead (make_producer True stale)"
  using rep_alive [OF make_producer_rep] .

text \<open>The number of threads is what the queue counts.\<close>

lemma hash_count_threads:
  assumes "threads_rep Q m"
  shows "unat (hash_count Q) = card (dom m)"
proof -
  have "dom m \<subseteq> UNIV - {invalid_thread_id}" using assms by (auto simp: threads_rep_def hashes_ok_def)
  then have "card (dom m) \<le> card (UNIV - {invalid_thread_id} :: u64 set)" by (intro card_mono) simp_all
  also have "\<dots> = 2 ^ 64 - 1" by (simp add: card_Diff_singleton card_word)
  finally show ?thesis using assms by (simp add: threads_rep_def unat_of_nat take_bit_nat_eq_self)
qed

text \<open>The insertion loop runs once: after a resize there is room, and without one there was.\<close>

lemma add_implicit_producer_ok:
  assumes r: "queue_rep Q m xss" and new: "m i = None" "i \<noteq> invalid_thread_id" and n: "Suc (card (dom m)) < 2 ^ 60"
  shows "\<exists>v Q'. add_implicit_producer e i (1 + hash_count Q) (Q\<lparr>hash_count := hash_count Q + 1\<rparr>) = Some (v, Q') \<and>
    (case v of None \<Rightarrow> queue_rep Q' m xss | Some k \<Rightarrow> k = length xss \<and> queue_rep Q' (m(i \<mapsto> k)) (xss @ [[]])) \<and>
    (m_hash e \<and> m_producer e \<longrightarrow> v \<noteq> None) \<and> (all_alive Q \<and> m_first_index e \<longrightarrow> all_alive Q')"
proof -
  let ?n = "of_nat (Suc (card (dom m))) :: u64" and ?Q = "Q\<lparr>hash_count := hash_count Q + 1\<rparr>"
  have t: "hashes_ok (hashes Q) m" "hash_count Q = of_nat (card (dom m))" "\<not> resize_in_progress Q"
    "ran m = {..< length (prods Q)}" "inj_on m (dom m)" "inactive Q = replicate (length (prods Q)) False"
    using r by (simp_all add: queue_rep_def threads_rep_def)
  obtain rss where l: "lists_rep (block_pool Q) (prods Q) rss xss" using r by (auto simp: queue_rep_def)
  have lx: "length xss = length (prods Q)" using l by (simp add: lists_rep_def)
  have cnt: "1 + hash_count Q = ?n" by (simp add: t(2))
  obtain dn hs where h: "resize_hash ?n False (m_hash e) (hashes Q) = Some (dn, hs)" "hashes_ok hs m" "m_hash e \<longrightarrow> dn"
    "if dn then has_room ?n (hd hs) else hs = hashes Q"
    using resize_ok [OF t(1) n, of "m_hash e"] by blast
  note step = add_implicit_producer.simps [of e i "1 + hash_count Q" ?Q]
  show ?thesis
  proof (cases "dn \<and> m_producer e")
    case True
    let ?Q1 = "?Q\<lparr>hashes := hs\<rparr>"
    have rc: "recycle_or_create_producer e ?Q1 = (Some (length (prods Q)), False, ?Q1\<lparr>producerCount := producerCount Q + 1,
        prods := prods Q @ [make_producer (m_first_index e) (m_stale e)], inactive := replicate (Suc (length (prods Q))) False\<rparr>)"
      using recycle_or_create [of ?Q1 e] t(6) True by simp
    obtain h' where h': "insert_kvp i (Some (length (prods Q))) (hd hs) (hash_thread_id i) = Some h'"
      "hashes_ok (h' # tl hs) (m(i \<mapsto> length (prods Q)))"
      using register_ok [OF h(2) new n, of "length (prods Q)"] h(4) True by auto
    let ?Q2 = "?Q1\<lparr>producerCount := producerCount Q + 1, prods := prods Q @ [make_producer (m_first_index e) (m_stale e)],
        inactive := replicate (Suc (length (prods Q))) False, hashes := h' # tl hs\<rparr>"
    have eq: "add_implicit_producer e i (1 + hash_count Q) ?Q = Some (Some (length (prods Q)), ?Q2)"
      using step h True t(3) rc h'(1) by (simp add: cnt)
    have fin: "finite (dom m)" using t(1) by (simp add: hashes_ok_def)
    have "card (dom (m(i \<mapsto> length (prods Q)))) = Suc (card (dom m))" using new(1) fin by (simp add: domIff)
    moreover have "ran (m(i \<mapsto> length (prods Q))) = {..< Suc (length (prods Q))}"
      using t(4) new(1) by (simp add: lessThan_Suc)
    moreover have "inj_on (m(i \<mapsto> length (prods Q))) (dom (m(i \<mapsto> length (prods Q))))"
    proof -
      have "m j \<noteq> Some (length (prods Q))" for j using t(4) by (metis lessThan_iff less_irrefl ranI)
      then show ?thesis using t(5) by (auto simp: inj_on_def)
    qed
    ultimately have "threads_rep ?Q2 (m(i \<mapsto> length (prods Q)))"
      using h'(2) t(2,3) by (simp add: threads_rep_def)
    moreover have "lists_rep (block_pool ?Q2) (prods ?Q2) (rss @ [[]]) (xss @ [[]])"
      using lists_rep_add [OF l make_producer_prod_rep] by simp
    ultimately have "queue_rep ?Q2 (m(i \<mapsto> length (prods Q))) (xss @ [[]])" unfolding queue_rep_def by blast
    moreover have "all_alive Q \<and> m_first_index e \<longrightarrow> all_alive ?Q2" using make_producer_alive by (auto simp: all_alive_def)
    ultimately show ?thesis using eq lx by auto
  next
    case False
    have rc: "recycle_or_create_producer e (?Q\<lparr>hashes := hs\<rparr>) = (None, False, ?Q\<lparr>hashes := hs\<rparr>)" if "\<not> m_producer e"
      using recycle_or_create [of "?Q\<lparr>hashes := hs\<rparr>" e] t(6) that by simp
    let ?Q2 = "Q\<lparr>hashes := hs\<rparr>"
    have "add_implicit_producer e i (1 + hash_count Q) ?Q = Some (None, ?Q2)"
      using step h False t(3) rc by (auto simp: cnt split: if_splits)
    moreover have "queue_rep ?Q2 m xss" using r h(2) by (simp add: queue_rep_def threads_rep_def)
    moreover have "all_alive Q \<longrightarrow> all_alive ?Q2" by (simp add: all_alive_def)
    ultimately show ?thesis using h(3) False by auto
  qed
qed

lemma get_or_add_ok:
  assumes r: "queue_rep Q m xss" and i: "i \<noteq> invalid_thread_id" and n: "m i = None \<Longrightarrow> Suc (card (dom m)) < 2 ^ 60"
  shows "\<exists>v Q'. get_or_add_implicit_producer e i Q = Some (v, Q') \<and>
    (case v of
       None \<Rightarrow> m i = None \<and> queue_rep Q' m xss
     | Some k \<Rightarrow> if m i = None then k = length xss \<and> queue_rep Q' (m(i \<mapsto> k)) (xss @ [[]]) else m i = Some k \<and> queue_rep Q' m xss) \<and>
    (m_hash e \<and> m_producer e \<longrightarrow> v \<noteq> None) \<and> (all_alive Q \<and> m_first_index e \<longrightarrow> all_alive Q')"
proof (cases "m i")
  case None
  have "lookup_thread i (hashes Q) = Some (None, hashes Q)"
    using lookup_unknown [of "hashes Q" m i] None i r by (simp add: queue_rep_def threads_rep_def)
  then have "get_or_add_implicit_producer e i Q =
      add_implicit_producer e i (1 + hash_count Q) (Q\<lparr>hash_count := hash_count Q + 1\<rparr>)"
    by (simp add: get_or_add_implicit_producer_def)
  moreover obtain v Q' where "add_implicit_producer e i (1 + hash_count Q) (Q\<lparr>hash_count := hash_count Q + 1\<rparr>) = Some (v, Q')"
    "case v of None \<Rightarrow> queue_rep Q' m xss | Some k \<Rightarrow> k = length xss \<and> queue_rep Q' (m(i \<mapsto> k)) (xss @ [[]])"
    "m_hash e \<and> m_producer e \<longrightarrow> v \<noteq> None" "all_alive Q \<and> m_first_index e \<longrightarrow> all_alive Q'"
    using add_implicit_producer_ok [OF r None i n [OF None], of e] by blast
  ultimately show ?thesis using None by (intro exI [of _ v] exI [of _ Q']) (cases v; simp)
next
  case (Some k)
  obtain hs where "lookup_thread i (hashes Q) = Some (Some (Some k), hs)" "hashes_ok hs m"
    using lookup_known [of "hashes Q" m i k] Some r by (auto simp: queue_rep_def threads_rep_def)
  then show ?thesis using r Some
    by (auto simp: get_or_add_implicit_producer_def queue_rep_def threads_rep_def all_alive_def)
qed

text \<open>The invalid id gets no producer, and nothing changes.\<close>

lemma get_or_add_invalid: "queue_rep Q m xss \<Longrightarrow> get_or_add_implicit_producer e invalid_thread_id Q = Some (None, Q)"
  using lookup_invalid [of "hashes Q" m] by (simp add: get_or_add_implicit_producer_def queue_rep_def threads_rep_def)

section \<open>Enqueueing\<close>

text \<open>The lists of the threads.\<close>

definition queue_state :: "'a cqueue \<Rightarrow> (u64 \<Rightarrow> 'a list) \<Rightarrow> bool" where
  "queue_state Q tq \<longleftrightarrow> (\<exists>m xss. queue_rep Q m xss \<and> tq = (\<lambda>i. case m i of None \<Rightarrow> [] | Some k \<Rightarrow> xss ! k))"

lemma queue_rep_bound: "queue_rep Q m xss \<Longrightarrow> m i = Some k \<Longrightarrow> k < length xss"
proof -
  assume q: "queue_rep Q m xss" and k: "m i = Some k"
  then have "k \<in> {..< length (prods Q)}" by (metis queue_rep_def ranI threads_rep_def)
  then show ?thesis using q by (auto simp: queue_rep_def lists_rep_def)
qed

text \<open>Every list is some thread's.\<close>

lemma queue_rep_owner:
  assumes "queue_rep Q m xss" "k < length xss"
  obtains i where "m i = Some k"
proof -
  have "k \<in> ran m" using assms by (auto simp: queue_rep_def threads_rep_def lists_rep_def)
  then show thesis using that by (auto simp: ran_def)
qed

text \<open>Another list for one thread.\<close>

lemma queue_state_update:
  assumes "queue_rep Q' m (xss[k := xs])" "m i = Some k" "k < length xss"
  shows "(\<lambda>j. case m j of None \<Rightarrow> [] | Some k' \<Rightarrow> xss[k := xs] ! k') = (\<lambda>j. case m j of None \<Rightarrow> [] | Some k' \<Rightarrow> xss ! k')(i := xs)"
proof
  fix j
  have "inj_on m (dom m)" using assms(1) by (simp add: queue_rep_def threads_rep_def)
  then have "m j = Some k \<Longrightarrow> j = i" using assms(2) by (metis domI inj_onD)
  then show "(case m j of None \<Rightarrow> [] | Some k' \<Rightarrow> xss[k := xs] ! k') = ((\<lambda>j. case m j of None \<Rightarrow> [] | Some k' \<Rightarrow> xss ! k')(i := xs)) j"
    using assms(2,3) by (cases "m j") (auto simp: nth_list_update)
qed

text \<open>A thread that gets a producer still has the empty list.\<close>

lemma queue_lists_new:
  assumes "queue_rep Q m xss" "m i = None"
  shows "(\<lambda>j. case m j of None \<Rightarrow> [] | Some k \<Rightarrow> xss ! k) =
    (\<lambda>j. case (m(i \<mapsto> length xss)) j of None \<Rightarrow> [] | Some k \<Rightarrow> (xss @ [[]]) ! k)"
  using queue_rep_bound [OF assms(1)] assms(2) by (fastforce simp: nth_append split: option.split)

section \<open>Operations that append\<close>

text \<open>\<open>enqueue\<close> and \<open>enqueue_bulk\<close> have the same contract on a producer; \<open>ready\<close> is what it takes
  for them to accept.\<close>

locale producer_append =
  fixes op :: "'a pool \<times> producer \<Rightarrow> (bool \<times> 'a pool \<times> producer) option" and ys :: "'a list" and ready :: "'a list \<Rightarrow> bool"
  assumes append: "prod_rep q p rs xs \<Longrightarrow> pool_ok q U \<Longrightarrow> set rs \<subseteq> U \<Longrightarrow>
    \<exists>okay q' p' rs'. op (q, p) = Some (okay, q', p') \<and> prod_rep q' p' rs' (if okay then xs @ ys else xs) \<and>
      pool_ok q' (U \<union> set rs') \<and> set rs \<subseteq> set rs' \<and> set rs' \<inter> U = set rs \<and>
      (\<forall>u \<in> U - set rs. blocks q' u = blocks q u) \<and> (\<not> dead p \<longrightarrow> \<not> dead p' \<and> (ready xs \<longrightarrow> okay))"
begin

lemma append_at:
  assumes r: "queue_rep Q m xss" and k: "k < length xss"
  shows "\<exists>okay q p. op (block_pool Q, prods Q ! k) = Some (okay, q, p) \<and>
    queue_rep (Q\<lparr>block_pool := q, prods := (prods Q)[k := p]\<rparr>) m (if okay then xss[k := xss ! k @ ys] else xss) \<and>
    (all_alive Q \<longrightarrow> all_alive (Q\<lparr>block_pool := q, prods := (prods Q)[k := p]\<rparr>) \<and>
      (ready (xss ! k) \<longrightarrow> okay))"
proof -
  obtain rss where l: "lists_rep (block_pool Q) (prods Q) rss xss" using r by (auto simp: queue_rep_def)
  have len: "length rss = length (prods Q)" "length xss = length (prods Q)" using l by (simp_all add: lists_rep_def)
  have kp: "k < length (prods Q)" using k len by simp
  have sub: "set (rss ! k) \<subseteq> used_blocks rss" using kp len used_blocks_at [of k rss] by simp
  have pool: "pool_ok (block_pool Q) (used_blocks rss)" and pr: "prod_rep (block_pool Q) (prods Q ! k) (rss ! k) (xss ! k)"
    using l kp by (simp_all add: lists_rep_def)
  obtain okay q p rs where e: "op (block_pool Q, prods Q ! k) = Some (okay, q, p)"
    "prod_rep q p rs (if okay then xss ! k @ ys else xss ! k)" "pool_ok q (used_blocks rss \<union> set rs)"
    "set (rss ! k) \<subseteq> set rs" "set rs \<inter> used_blocks rss = set (rss ! k)"
    "\<forall>u \<in> used_blocks rss - set (rss ! k). blocks q u = blocks (block_pool Q) u"
    "\<not> dead (prods Q ! k) \<longrightarrow> \<not> dead p \<and> (ready (xss ! k) \<longrightarrow> okay)"
    using append [OF pr pool sub] by blast
  have "used_blocks (rss[k := rs]) = used_blocks rss \<union> set rs" using used_blocks_grow e(4) kp len by simp
  then have "lists_rep q ((prods Q)[k := p]) (rss[k := rs]) (xss[k := if okay then xss ! k @ ys else xss ! k])"
    using lists_rep_update [OF l kp e(2) _ _ e(6)] e(3,5) by simp
  moreover have "xss[k := if okay then xss ! k @ ys else xss ! k] = (if okay then xss[k := xss ! k @ ys] else xss)" by simp
  moreover have "threads_rep (Q\<lparr>block_pool := q, prods := (prods Q)[k := p]\<rparr>) m" using r by (simp add: queue_rep_def threads_rep_def)
  ultimately have "queue_rep (Q\<lparr>block_pool := q, prods := (prods Q)[k := p]\<rparr>) m (if okay then xss[k := xss ! k @ ys] else xss)"
    unfolding queue_rep_def by (intro conjI exI [of _ "rss[k := rs]"]) simp_all
  moreover have "all_alive Q \<longrightarrow> \<not> dead (prods Q ! k)" using kp by (simp add: all_alive_def)
  moreover have "all_alive Q \<and> \<not> dead p \<longrightarrow> all_alive (Q\<lparr>block_pool := q, prods := (prods Q)[k := p]\<rparr>)"
    by (auto simp: all_alive_def dest: set_update_subset_insert [THEN subsetD])
  ultimately show ?thesis using e(1,7) by blast
qed

text \<open>Enqueueing on the level of the producers: the thread gets a producer if it had none, and the
  element is appended to that producer's list or refused.\<close>

lemma on_own_producer_rep:
  assumes r: "queue_rep Q m xss" and i: "i \<noteq> invalid_thread_id" and n: "m i = None \<Longrightarrow> Suc (card (dom m)) < 2 ^ 60"
  shows "\<exists>okay Q' m' yss k. on_own_producer op e i Q = Some (okay, Q') \<and>
    queue_rep Q' m' (if okay then yss[k := yss ! k @ ys] else yss) \<and> (okay \<longrightarrow> m' i = Some k) \<and>
    (m' = m \<and> yss = xss \<or> m i = None \<and> m' = m(i \<mapsto> length xss) \<and> yss = xss @ [[]]) \<and>
    (okay \<longrightarrow> k < length yss) \<and>
    (all_alive Q \<and> m_first_index e \<longrightarrow> all_alive Q' \<and>
      (m_hash e \<and> m_producer e \<and> ready (case m i of None \<Rightarrow> [] | Some k \<Rightarrow> xss ! k) \<longrightarrow> okay))"
proof -
  obtain v Q1 where g: "get_or_add_implicit_producer e i Q = Some (v, Q1)"
    "case v of None \<Rightarrow> m i = None \<and> queue_rep Q1 m xss
     | Some k \<Rightarrow> if m i = None then k = length xss \<and> queue_rep Q1 (m(i \<mapsto> k)) (xss @ [[]]) else m i = Some k \<and> queue_rep Q1 m xss"
    "m_hash e \<and> m_producer e \<longrightarrow> v \<noteq> None" "all_alive Q \<and> m_first_index e \<longrightarrow> all_alive Q1"
    using get_or_add_ok [OF r i n, of e] by blast
  show ?thesis
  proof (cases v)
    case None
    then have "on_own_producer op e i Q = Some (False, Q1)" "queue_rep Q1 m xss" using g(1,2) by (simp_all add: on_own_producer_def)
    then show ?thesis using r g(3,4) None
      by (intro exI [of _ False] exI [of _ Q1] exI [of _ m] exI [of _ xss]) auto
  next
    case (Some k)
    obtain m' yss where m': "m' i = Some k" "queue_rep Q1 m' yss"
      "m' = m \<and> yss = xss \<or> m i = None \<and> m' = m(i \<mapsto> length xss) \<and> yss = xss @ [[]]"
    proof (cases "m i")
      case None
      then have "k = length xss" "queue_rep Q1 (m(i \<mapsto> k)) (xss @ [[]])" using g(2) by (auto simp: Some None)
      then show ?thesis using that [of "m(i \<mapsto> k)" "xss @ [[]]"] None by simp
    qed (use that [of m xss] g(2) Some in auto)
    note kb = queue_rep_bound [OF m'(2,1)]
    obtain okay q p where e: "op (block_pool Q1, prods Q1 ! k) = Some (okay, q, p)"
      "queue_rep (Q1\<lparr>block_pool := q, prods := (prods Q1)[k := p]\<rparr>) m' (if okay then yss[k := yss ! k @ ys] else yss)"
      "all_alive Q1 \<longrightarrow> all_alive (Q1\<lparr>block_pool := q, prods := (prods Q1)[k := p]\<rparr>) \<and>
       (ready (yss ! k) \<longrightarrow> okay)"
      using append_at [OF m'(2) kb] by blast
    let ?Q = "Q1\<lparr>block_pool := q, prods := (prods Q1)[k := p]\<rparr>"
    have inner: "on_own_producer op e i Q = Some (okay, ?Q)" using g(1) Some e(1) by (simp add: on_own_producer_def)
    have "yss ! k = (case m i of None \<Rightarrow> [] | Some k \<Rightarrow> xss ! k)" using m'(1,3) by auto
    then have alive: "all_alive Q \<and> m_first_index e \<longrightarrow> all_alive ?Q \<and>
        (m_hash e \<and> m_producer e \<and> ready (case m i of None \<Rightarrow> [] | Some k \<Rightarrow> xss ! k) \<longrightarrow> okay)"
      using e(3) g(4) by simp
    have "okay \<longrightarrow> m' i = Some k" "okay \<longrightarrow> k < length yss" using m'(1) kb by simp_all
    then show ?thesis
      using inner e(2) m'(3) alive
      by (intro exI [of _ okay] exI [of _ ?Q] exI [of _ m'] exI [of _ yss] exI [of _ k] conjI) assumption+
  qed
qed

text \<open>On the level of the threads.\<close>

lemma on_own_producer_state:
  assumes s: "queue_state Q tq" and i: "i \<noteq> invalid_thread_id" and n: "unat (hash_count Q) + 1 < 2 ^ 60"
  shows "\<exists>okay Q'. on_own_producer op e i Q = Some (okay, Q') \<and> queue_state Q' (if okay then tq(i := tq i @ ys) else tq) \<and>
    unat (hash_count Q') \<le> unat (hash_count Q) + 1 \<and>
    (all_alive Q \<and> m_first_index e \<longrightarrow> all_alive Q' \<and>
      (m_hash e \<and> m_producer e \<and> ready (tq i) \<longrightarrow> okay))"
proof -
  obtain m xss where r: "queue_rep Q m xss" "tq = (\<lambda>i. case m i of None \<Rightarrow> [] | Some k \<Rightarrow> xss ! k)"
    using s by (auto simp: queue_state_def)
  have c: "Suc (card (dom m)) < 2 ^ 60" using n hash_count_threads [of Q m] r(1) by (simp add: queue_rep_def)
  obtain okay Q' m' yss k where e: "on_own_producer op e i Q = Some (okay, Q')"
    "queue_rep Q' m' (if okay then yss[k := yss ! k @ ys] else yss)" "okay \<longrightarrow> m' i = Some k"
    "m' = m \<and> yss = xss \<or> m i = None \<and> m' = m(i \<mapsto> length xss) \<and> yss = xss @ [[]]" "okay \<longrightarrow> k < length yss"
    "all_alive Q \<and> m_first_index e \<longrightarrow> all_alive Q' \<and>
      (m_hash e \<and> m_producer e \<and> ready (case m i of None \<Rightarrow> [] | Some k \<Rightarrow> xss ! k) \<longrightarrow> okay)"
    using on_own_producer_rep [OF r(1) i c, of e] by blast
  have tq: "tq = (\<lambda>i. case m' i of None \<Rightarrow> [] | Some k \<Rightarrow> yss ! k)"
    using e(4) r(2) queue_lists_new [OF r(1)] by metis
  have "queue_state Q' (if okay then tq(i := tq i @ ys) else tq)"
  proof (cases okay)
    case True
    then have "queue_rep Q' m' (yss[k := yss ! k @ ys])" "m' i = Some k" "k < length yss" using e by simp_all
    moreover from queue_state_update [OF this]
    have "tq(i := tq i @ ys) = (\<lambda>j. case m' j of None \<Rightarrow> [] | Some k' \<Rightarrow> yss[k := yss ! k @ ys] ! k')"
      using tq \<open>m' i = Some k\<close> by simp
    ultimately show ?thesis unfolding queue_state_def using True by auto
  next
    case False
    then show ?thesis unfolding queue_state_def using e(2) tq by auto
  qed
  moreover have "unat (hash_count Q') \<le> unat (hash_count Q) + 1"
  proof -
    have "finite (dom m)" using r(1) by (simp add: queue_rep_def threads_rep_def hashes_ok_def)
    then have "card (dom m') \<le> Suc (card (dom m))" using e(4) by (auto simp: card_insert_if)
    then show ?thesis using hash_count_threads [of Q m] hash_count_threads [of Q' m'] r(1) e(2) by (simp add: queue_rep_def)
  qed
  moreover have "tq i = (case m i of None \<Rightarrow> [] | Some k \<Rightarrow> xss ! k)" using r(2) by simp
  ultimately show ?thesis using e(1,6) by (intro exI [of _ okay] exI [of _ Q']) simp
qed

end

interpretation single: producer_append "producer_enqueue MAX_SUBQUEUE_SIZE ca im bm stale x" "[x]"
  "\<lambda>xs. ca \<and> im \<and> bm \<and> length xs + 32 < 2 ^ 63" for ca im bm stale x
  by unfold_locales (use prod_enqueue [of _ _ _ _ _ MAX_SUBQUEUE_SIZE ca im bm stale x] in \<open>simp add: MAX_SUBQUEUE_SIZE_def\<close>)

lemma prod_enqueue_bulk:
  assumes r: "prod_rep q p rs xs" and ok: "pool_ok q U" "set rs \<subseteq> U" and ys: "length ys < 2 ^ 63"
  shows "\<exists>okay q' p' rs'. producer_enqueue_bulk ms ca im bm stale ys (q, p) = Some (okay, q', p') \<and>
    prod_rep q' p' rs' (if okay then xs @ ys else xs) \<and> pool_ok q' (U \<union> set rs') \<and>
    set rs \<subseteq> set rs' \<and> set rs' \<inter> U = set rs \<and> (\<forall>u \<in> U - set rs. blocks q' u = blocks q u) \<and>
    (\<not> dead p \<longrightarrow> \<not> dead p' \<and> (ms = - 1 \<and> ca \<and> (\<forall>i. im i \<and> bm i) \<and> length xs + length ys + 32 < 2 ^ 63 \<longrightarrow> okay))"
proof (cases "dead p \<and> rs = [] \<and> xs = []")
  case True
  then obtain okay where "producer_enqueue_bulk ms ca im bm stale ys (q, p) = Some (okay, q, p)" "okay \<longrightarrow> ys = []"
    using dead_enqueue_bulk [OF _ ys] by blast
  then show ?thesis
    using True ok by (intro exI [of _ okay] exI [of _ q] exI [of _ p] exI [of _ "[]"]) (auto simp: prod_rep_def)
next
  case False
  then have "rep q p rs xs" using r by (auto simp: prod_rep_def)
  from producer_enqueue_bulk_correct [OF this ok ys, of ms ca im bm stale]
  obtain okay q' p' where e: "producer_enqueue_bulk ms ca im bm stale ys (q, p) = Some (okay, q', p')"
    "enqueued_bulk q rs xs U ys (okay, q', p')"
    "ms = - 1 \<and> ca \<and> (\<forall>i. im i \<and> bm i) \<and> length xs + length ys + 32 < 2 ^ 63 \<longrightarrow> okay"
    by (metis fst_conv prod_cases3)
  from e(2) obtain rs' where "rep q' p' rs' (if okay then xs @ ys else xs)" "pool_ok q' (U \<union> set rs')"
    "set rs \<subseteq> set rs'" "set rs' \<inter> U = set rs" "\<forall>u \<in> U - set rs. blocks q' u = blocks q u"
    unfolding enqueued_bulk_def case_prod_conv by blast
  then show ?thesis using e(1,3) rep_alive unfolding prod_rep_def by blast
qed

lemma inner_enqueue_state:
  assumes "queue_state Q tq" "i \<noteq> invalid_thread_id" "unat (hash_count Q) + 1 < 2 ^ 60"
  shows "\<exists>okay Q'. inner_enqueue ca e i x Q = Some (okay, Q') \<and> queue_state Q' (if okay then tq(i := tq i @ [x]) else tq) \<and>
    unat (hash_count Q') \<le> unat (hash_count Q) + 1 \<and>
    (all_alive Q \<and> m_first_index e \<longrightarrow> all_alive Q' \<and>
      (ca \<and> m_hash e \<and> m_producer e \<and> m_index e \<and> m_block e \<and> (\<forall>i. length (tq i) + 32 < 2 ^ 63) \<longrightarrow> okay))"
  using single.on_own_producer_state [OF assms, of ca "m_index e" "m_block e" "m_stale e" x e] unfolding inner_enqueue_def by blast

lemma bulk_append:
  assumes "length ys < 2 ^ 63"
  shows "producer_append (producer_enqueue_bulk MAX_SUBQUEUE_SIZE ca im bm stale ys) ys
    (\<lambda>xs. ca \<and> (\<forall>k. im k \<and> bm k) \<and> length xs + length ys + 32 < 2 ^ 63)"
  by unfold_locales (use prod_enqueue_bulk [OF _ _ _ assms, of _ _ _ _ _ MAX_SUBQUEUE_SIZE ca im bm stale] in \<open>simp add: MAX_SUBQUEUE_SIZE_def\<close>)

lemma inner_enqueue_bulk_state:
  assumes "queue_state Q tq" "i \<noteq> invalid_thread_id" "unat (hash_count Q) + 1 < 2 ^ 60" "length ys < 2 ^ 63"
  shows "\<exists>okay Q'. inner_enqueue_bulk ca im bm e i ys Q = Some (okay, Q') \<and> queue_state Q' (if okay then tq(i := tq i @ ys) else tq) \<and>
    unat (hash_count Q') \<le> unat (hash_count Q) + 1 \<and>
    (all_alive Q \<and> m_first_index e \<longrightarrow> all_alive Q' \<and>
      (m_hash e \<and> m_producer e \<and> ca \<and> (\<forall>k. im k \<and> bm k) \<and> length (tq i) + length ys + 32 < 2 ^ 63 \<longrightarrow> okay))"
  using producer_append.on_own_producer_state [OF bulk_append [OF assms(4)] assms(1-3), of ca im bm "m_stale e" e]
  unfolding inner_enqueue_bulk_def .

section \<open>Dequeueing\<close>

lemma dequeue_at:
  assumes r: "queue_rep Q m xss" and k: "k < length xss"
  shows "case xss ! k of
      [] \<Rightarrow> dequeue_producer k Q = Some (None, Q)
    | x # xs \<Rightarrow> \<exists>Q'. dequeue_producer k Q = Some (Some x, Q') \<and> queue_rep Q' m (xss[k := xs]) \<and>
        hash_count Q' = hash_count Q \<and> (all_alive Q \<longrightarrow> all_alive Q')"
proof -
  obtain rss where l: "lists_rep (block_pool Q) (prods Q) rss xss" using r by (auto simp: queue_rep_def)
  have len: "length rss = length (prods Q)" "length xss = length (prods Q)" using l by (simp_all add: lists_rep_def)
  have kp: "k < length (prods Q)" using k len by simp
  have sub: "set (rss ! k) \<subseteq> used_blocks rss" using kp len used_blocks_at [of k rss] by simp
  have pool: "pool_ok (block_pool Q) (used_blocks rss)" and pr: "prod_rep (block_pool Q) (prods Q ! k) (rss ! k) (xss ! k)"
    using l kp by (simp_all add: lists_rep_def)
  note d = prod_dequeue [OF pr pool sub]
  show ?thesis
  proof (cases "xss ! k")
    case Nil
    then show ?thesis using d by (simp add: dequeue_producer_def)
  next
    case (Cons x xs)
    then obtain q p rs where e: "producer_dequeue (block_pool Q, prods Q ! k) = Some (Some x, q, p)" "prod_rep q p rs xs"
      "set rs \<subseteq> set (rss ! k)" "pool_ok q (used_blocks rss - (set (rss ! k) - set rs))"
      "\<forall>u \<in> used_blocks rss - set (rss ! k). blocks q u = blocks (block_pool Q) u" "\<not> dead p"
      using d by auto
    let ?Q = "Q\<lparr>block_pool := q, prods := (prods Q)[k := p]\<rparr>"
    have "lists_rep q ((prods Q)[k := p]) (rss[k := rs]) (xss[k := xs])"
      using lists_rep_update [OF l kp e(2) _ _ e(5)] e(3,4) used_blocks_shrink [OF l kp e(3)] by auto
    moreover have "threads_rep ?Q m" using r by (simp add: queue_rep_def threads_rep_def)
    ultimately have "queue_rep ?Q m (xss[k := xs])"
      unfolding queue_rep_def by (intro conjI exI [of _ "rss[k := rs]"]) simp_all
    moreover have "all_alive Q \<longrightarrow> all_alive ?Q"
      using e(6) by (auto simp: all_alive_def dest: set_update_subset_insert [THEN subsetD])
    ultimately show ?thesis using e(1) Cons by (simp add: dequeue_producer_def)
  qed
qed

text \<open>The best producer is one that is not empty, and there is one unless all are empty.\<close>

lemma score_best:
  assumes "score ps rs (n, b, bs) = (n', b', bs')" "n = 0 \<longrightarrow> bs = 0"
    "0 < n \<longrightarrow> (\<exists>r. b = Some r \<and> r \<in> R \<and> 0 < producer_size_approx (ps ! r))" "set rs \<subseteq> R"
  shows "(0 < n' \<longrightarrow> (\<exists>r. b' = Some r \<and> r \<in> R \<and> 0 < producer_size_approx (ps ! r))) \<and>
    (n' = 0 \<longrightarrow> n = 0 \<and> (\<forall>r \<in> set rs. producer_size_approx (ps ! r) = 0))"
  using assms
proof (induction rs arbitrary: n b bs)
  case (Cons r rs)
  let ?size = "producer_size_approx (ps ! r)"
  have rR: "r \<in> R" "set rs \<subseteq> R" using Cons.prems(4) by auto
  consider "\<not> n < 3" | "n < 3" "?size = 0" | "n < 3" "0 < ?size" "bs < ?size" | "n < 3" "0 < ?size" "\<not> bs < ?size"
    by (auto simp: word_gt_0)
  then show ?case
  proof cases
    case 1
    then show ?thesis using Cons.prems(1-3) by auto
  next
    case 2
    then show ?thesis using Cons.IH [OF _ Cons.prems(2,3) rR(2)] Cons.prems(1) by simp
  next
    case 3
    then have "score ps rs (n + 1, Some r, ?size) = (n', b', bs')" using Cons.prems(1) by (simp add: Let_def)
    from Cons.IH [OF this _ _ rR(2)] show ?thesis using 3 rR(1) by simp
  next
    case 4
    then have "0 < n" using Cons.prems(2) by auto
    moreover have "score ps rs (n + 1, b, bs) = (n', b', bs')" using 4 Cons.prems(1) by (simp add: Let_def)
    ultimately show ?thesis using Cons.IH [OF _ _ _ rR(2), of "n + 1" b bs] Cons.prems(3) by simp
  qed
qed simp

lemma size_pos: "queue_rep Q m xss \<Longrightarrow> k < length xss \<Longrightarrow> 0 < producer_size_approx (prods Q ! k) \<longleftrightarrow> xss ! k \<noteq> []"
proof -
  assume q: "queue_rep Q m xss" and k: "k < length xss"
  then obtain rss where "lists_rep (block_pool Q) (prods Q) rss xss" by (auto simp: queue_rep_def)
  then have "unat (producer_size_approx (prods Q ! k)) = length (xss ! k)" using k prod_size by (fastforce simp: lists_rep_def)
  then show ?thesis by (metis length_greater_0_conv unat_gt_0 word_gt_0)
qed

lemma try_dequeue_rep:
  assumes r: "queue_rep Q m xss"
  shows "\<exists>f Q'. try_dequeue Q = Some (f, Q') \<and>
    (case f of
       None \<Rightarrow> Q' = Q \<and> (\<forall>xs \<in> set xss. xs = [])
     | Some x \<Rightarrow> \<exists>k xs. k < length xss \<and> xss ! k = x # xs \<and> queue_rep Q' m (xss[k := xs]) \<and> hash_count Q' = hash_count Q \<and>
         (all_alive Q \<longrightarrow> all_alive Q'))"
proof -
  have len: "length (prods Q) = length xss" using r by (auto simp: queue_rep_def lists_rep_def)
  obtain n b bs where sc: "score (prods Q) (producer_list Q) (0, None, 0) = (n, b, bs)" by (metis prod_cases3)
  have best: "0 < n \<Longrightarrow> \<exists>k. b = Some k \<and> k < length xss \<and> 0 < producer_size_approx (prods Q ! k)"
    "n = 0 \<Longrightarrow> \<forall>k < length xss. producer_size_approx (prods Q ! k) = 0"
    using score_best [OF sc, of "{0..< length xss}"] len by (auto simp: producer_list_def)
  show ?thesis
  proof (cases "0 < n")
    case True
    then obtain k where k: "b = Some k" "k < length xss" "xss ! k \<noteq> []" using best(1) size_pos [OF r] by blast
    then obtain x xs where x: "xss ! k = x # xs" by (cases "xss ! k") auto
    then obtain Q' where Q': "dequeue_producer k Q = Some (Some x, Q')" "queue_rep Q' m (xss[k := xs])" "hash_count Q' = hash_count Q"
      "all_alive Q \<longrightarrow> all_alive Q'" using dequeue_at [OF r k(2)] by auto
    moreover have "try_dequeue Q = Some (Some x, Q')" using sc True k(1) Q'(1) by (simp add: try_dequeue_def)
    ultimately show ?thesis using k(2) x by auto
  next
    case False
    then have "xss ! k = []" if "k < length xss" for k using best(2) size_pos [OF r that] that by auto
    then have "\<forall>xs \<in> set xss. xs = []" by (auto simp: in_set_conv_nth)
    moreover have "try_dequeue Q = Some (None, Q)" using sc False by (simp add: try_dequeue_def)
    ultimately show ?thesis by auto
  qed
qed

text \<open>A producer is served, or all are empty; then the same of the threads.\<close>

lemma served_threads:
  assumes r: "queue_rep Q m xss" and tq: "tq = (\<lambda>i. case m i of None \<Rightarrow> [] | Some k \<Rightarrow> xss ! k)"
    and f: "case f of
       None \<Rightarrow> Q' = Q \<and> (\<forall>xs \<in> set xss. xs = [])
     | Some x \<Rightarrow> \<exists>k xs. k < length xss \<and> xss ! k = x # xs \<and> queue_rep Q' m (xss[k := xs]) \<and> hash_count Q' = hash_count Q \<and>
         (all_alive Q \<longrightarrow> all_alive Q')"
  shows "case f of
       None \<Rightarrow> Q' = Q \<and> (\<forall>i. tq i = [])
     | Some x \<Rightarrow> \<exists>i xs. tq i = x # xs \<and> queue_state Q' (tq(i := xs)) \<and> hash_count Q' = hash_count Q \<and>
         (all_alive Q \<longrightarrow> all_alive Q')"
proof (cases f)
  case None
  then show ?thesis using f tq queue_rep_bound [OF r] by (auto split: option.split)
next
  case (Some x)
  then obtain k xs where k: "k < length xss" "xss ! k = x # xs" "queue_rep Q' m (xss[k := xs])" "hash_count Q' = hash_count Q"
    "all_alive Q \<longrightarrow> all_alive Q'" using f by auto
  obtain i where i: "m i = Some k" using queue_rep_owner [OF r k(1)] .
  have "queue_state Q' (tq(i := xs))"
    using k(3) queue_state_update [OF k(3) i k(1)] tq unfolding queue_state_def by metis
  moreover have "tq i = x # xs" using tq i k(2) by simp
  ultimately show ?thesis using Some k(4,5) by auto
qed

lemma try_dequeue_state:
  assumes s: "queue_state Q tq"
  shows "\<exists>f Q'. try_dequeue Q = Some (f, Q') \<and>
    (case f of
       None \<Rightarrow> Q' = Q \<and> (\<forall>i. tq i = [])
     | Some x \<Rightarrow> \<exists>i xs. tq i = x # xs \<and> queue_state Q' (tq(i := xs)) \<and> hash_count Q' = hash_count Q \<and>
         (all_alive Q \<longrightarrow> all_alive Q'))"
proof -
  obtain m xss where r: "queue_rep Q m xss" "tq = (\<lambda>i. case m i of None \<Rightarrow> [] | Some k \<Rightarrow> xss ! k)"
    using s by (auto simp: queue_state_def)
  show ?thesis using try_dequeue_rep [OF r(1)] served_threads [OF r] by blast
qed

lemma dequeue_others_rep:
  assumes r: "queue_rep Q m xss"
  shows "set ks \<subseteq> {..< length xss} \<Longrightarrow> \<exists>f Q'. dequeue_others None ks Q = Some (f, Q') \<and>
    (case f of
       None \<Rightarrow> Q' = Q \<and> (\<forall>k \<in> set ks. xss ! k = [])
     | Some x \<Rightarrow> \<exists>k xs. k < length xss \<and> xss ! k = x # xs \<and> queue_rep Q' m (xss[k := xs]) \<and> hash_count Q' = hash_count Q \<and>
         (all_alive Q \<longrightarrow> all_alive Q'))"
proof (induction ks)
  case (Cons k ks)
  then have k: "k < length xss" "set ks \<subseteq> {..< length xss}" by simp_all
  show ?case
  proof (cases "xss ! k")
    case Nil
    have "dequeue_producer k Q = Some (None, Q)" using dequeue_at [OF r k(1)] Nil by simp
    then have "dequeue_others None (k # ks) Q = dequeue_others None ks Q" by simp
    moreover obtain f Q' where f: "dequeue_others None ks Q = Some (f, Q')" "case f of
         None \<Rightarrow> Q' = Q \<and> (\<forall>k \<in> set ks. xss ! k = [])
       | Some x \<Rightarrow> \<exists>k xs. k < length xss \<and> xss ! k = x # xs \<and> queue_rep Q' m (xss[k := xs]) \<and> hash_count Q' = hash_count Q \<and>
           (all_alive Q \<longrightarrow> all_alive Q')" using Cons.IH [OF k(2)] by blast
    ultimately show ?thesis using Nil by (intro exI [of _ f] exI [of _ Q']) (cases f; simp)
  next
    case (Cons x xs)
    then obtain Q' where Q': "dequeue_producer k Q = Some (Some x, Q')" "queue_rep Q' m (xss[k := xs])" "hash_count Q' = hash_count Q"
      "all_alive Q \<longrightarrow> all_alive Q'" using dequeue_at [OF r k(1)] by auto
    then have "dequeue_others None (k # ks) Q = Some (Some x, Q')" by simp
    then show ?thesis using Q'(2-4) Cons k(1) by auto
  qed
qed simp

lemma try_dequeue_non_interleaved_state:
  assumes s: "queue_state Q tq"
  shows "\<exists>f Q'. try_dequeue_non_interleaved Q = Some (f, Q') \<and>
    (case f of
       None \<Rightarrow> Q' = Q \<and> (\<forall>i. tq i = [])
     | Some x \<Rightarrow> \<exists>i xs. tq i = x # xs \<and> queue_state Q' (tq(i := xs)) \<and> hash_count Q' = hash_count Q \<and>
         (all_alive Q \<longrightarrow> all_alive Q'))"
proof -
  obtain m xss where r: "queue_rep Q m xss" "tq = (\<lambda>i. case m i of None \<Rightarrow> [] | Some k \<Rightarrow> xss ! k)"
    using s by (auto simp: queue_state_def)
  have ks: "set (producer_list Q) = {..< length xss}" using r(1) by (auto simp: queue_rep_def lists_rep_def producer_list_def)
  have all: "(\<forall>k \<in> set (producer_list Q). xss ! k = []) \<longleftrightarrow> (\<forall>xs \<in> set xss. xs = [])" unfolding ks all_set_conv_all_nth by auto
  have "set (producer_list Q) \<subseteq> {..< length xss}" by (simp add: ks)
  from dequeue_others_rep [OF r(1) this, unfolded all, folded try_dequeue_non_interleaved_def]
  show ?thesis using served_threads [OF r] by blast
qed

text \<open>The size is exact when no call is under way.\<close>

lemma size_approx_rep:
  assumes r: "queue_rep Q m xss"
  shows "size_approx Q = of_nat (length (concat xss))"
proof -
  obtain rss where l: "lists_rep (block_pool Q) (prods Q) rss xss" using r by (auto simp: queue_rep_def)
  have len: "length xss = length (prods Q)" using l by (simp add: lists_rep_def)
  have "producer_size_approx (prods Q ! k) = of_nat (length (xss ! k))" if "k < length xss" for k
  proof -
    have "unat (producer_size_approx (prods Q ! k)) = length (xss ! k)" using l that prod_size by (fastforce simp: lists_rep_def)
    from arg_cong [OF this, of "of_nat :: nat \<Rightarrow> u64"] show ?thesis by simp
  qed
  then have "fold (\<lambda>r size. size + producer_size_approx (prods Q ! r)) ks s = s + of_nat (length (concat (map ((!) xss) ks)))"
    if "set ks \<subseteq> {..< length xss}" for ks s
    using that by (induction ks arbitrary: s) simp_all
  moreover have "set (producer_list Q) \<subseteq> {..< length xss}" by (auto simp: producer_list_def len)
  ultimately have "size_approx Q = of_nat (length (concat (map ((!) xss) (rev [0..< length xss]))))"
    by (simp add: size_approx_def producer_list_def len)
  also have "length (concat (map ((!) xss) (rev [0..< length xss]))) = length (concat (map ((!) xss) [0..< length xss]))"
    by (simp add: length_concat comp_def rev_map [symmetric] sum_list_rev)
  finally show ?thesis by (simp add: map_nth)
qed

section \<open>Dequeueing in bulk\<close>

lemma prod_dequeue_bulk:
  assumes r: "prod_rep q p rs xs" and ok: "pool_ok q U" "set rs \<subseteq> U"
  shows "\<exists>q' p' rs'. producer_dequeue_bulk n (q, p) = Some (take (unat n) xs, q', p') \<and> prod_rep q' p' rs' (drop (unat n) xs) \<and>
    set rs' \<subseteq> set rs \<and> pool_ok q' (U - (set rs - set rs')) \<and> (\<forall>u \<in> U - set rs. blocks q' u = blocks q u) \<and> (dead p' \<longrightarrow> dead p)"
proof (cases "dead p \<and> rs = [] \<and> xs = []")
  case True
  have "\<not> circular_less_than 0 0" using circular_less_than_iff [of 0 0] by simp
  then have "producer_dequeue_bulk n (q, p) = Some ([], q, p)" using True by (simp add: producer_dequeue_bulk_def dead_def Let_def)
  then show ?thesis using True ok by (intro exI [of _ q] exI [of _ p] exI [of _ "[]"]) (simp add: prod_rep_def)
next
  case False
  then have "rep q p rs xs" using r by (auto simp: prod_rep_def)
  from producer_dequeue_bulk_correct [OF this ok, of n] obtain q' p' where
    "producer_dequeue_bulk n (q, p) = Some (take (unat n) xs, q', p')" "dequeued q rs (drop (unat n) xs) U (q', p')" by auto
  then show ?thesis by (auto simp: dequeued_def prod_rep_def dest: rep_alive)
qed

lemma dequeue_bulk_at:
  assumes r: "queue_rep Q m xss" and k: "k < length xss"
  shows "\<exists>q p. producer_dequeue_bulk n (block_pool Q, prods Q ! k) = Some (take (unat n) (xss ! k), q, p) \<and>
    queue_rep (Q\<lparr>block_pool := q, prods := (prods Q)[k := p]\<rparr>) m (xss[k := drop (unat n) (xss ! k)]) \<and>
    (all_alive Q \<longrightarrow> all_alive (Q\<lparr>block_pool := q, prods := (prods Q)[k := p]\<rparr>))"
proof -
  obtain rss where l: "lists_rep (block_pool Q) (prods Q) rss xss" using r by (auto simp: queue_rep_def)
  have len: "length rss = length (prods Q)" "length xss = length (prods Q)" using l by (simp_all add: lists_rep_def)
  have kp: "k < length (prods Q)" using k len by simp
  have sub: "set (rss ! k) \<subseteq> used_blocks rss" using kp len used_blocks_at [of k rss] by simp
  have pool: "pool_ok (block_pool Q) (used_blocks rss)" and pr: "prod_rep (block_pool Q) (prods Q ! k) (rss ! k) (xss ! k)"
    using l kp by (simp_all add: lists_rep_def)
  obtain q p rs where e: "producer_dequeue_bulk n (block_pool Q, prods Q ! k) = Some (take (unat n) (xss ! k), q, p)"
    "prod_rep q p rs (drop (unat n) (xss ! k))" "set rs \<subseteq> set (rss ! k)" "pool_ok q (used_blocks rss - (set (rss ! k) - set rs))"
    "\<forall>u \<in> used_blocks rss - set (rss ! k). blocks q u = blocks (block_pool Q) u" "dead p \<longrightarrow> dead (prods Q ! k)"
    using prod_dequeue_bulk [OF pr pool sub, of n] by blast
  let ?Q = "Q\<lparr>block_pool := q, prods := (prods Q)[k := p]\<rparr>"
  have "lists_rep q ((prods Q)[k := p]) (rss[k := rs]) (xss[k := drop (unat n) (xss ! k)])"
    using lists_rep_update [OF l kp e(2) _ _ e(5)] e(3,4) used_blocks_shrink [OF l kp e(3)] by auto
  moreover have "threads_rep ?Q m" using r by (simp add: queue_rep_def threads_rep_def)
  ultimately have "queue_rep ?Q m (xss[k := drop (unat n) (xss ! k)])"
    unfolding queue_rep_def by (intro conjI exI [of _ "rss[k := rs]"]) simp_all
  moreover have "all_alive Q \<longrightarrow> all_alive ?Q"
    using e(6) kp by (auto simp: all_alive_def dest: set_update_subset_insert [THEN subsetD])
  ultimately show ?thesis using e(1) by blast
qed

text \<open>Taking from several lists in turn, \<open>n\<close> elements altogether.\<close>

fun take_each :: "nat \<Rightarrow> nat list \<Rightarrow> 'a list list \<Rightarrow> 'a list \<times> 'a list list" where
  "take_each n [] xss = ([], xss)"
| "take_each n (k # ks) xss =
     (let xs = xss ! k in
      case take_each (n - length (take n xs)) ks (xss[k := drop n xs]) of (ys, xss) \<Rightarrow> (take n xs @ ys, xss))"

lemma take_each_Cons:
  "take_each n (k # ks) xss = (let xs = xss ! k; r = take_each (n - length (take n xs)) ks (xss[k := drop n xs]) in (take n xs @ fst r, snd r))"
  by (simp add: Let_def split: prod.split)

declare take_each.simps(2) [simp del]

lemma take_each_0 [simp]: "take_each 0 ks xss = ([], xss)"
  by (induction ks arbitrary: xss) (simp_all add: take_each_Cons Let_def)

lemma length_take_each [simp]: "length (snd (take_each n ks xss)) = length xss"
  by (induction n ks xss rule: take_each.induct) (simp_all add: take_each_Cons Let_def)

lemma take_each_other: "k \<notin> set ks \<Longrightarrow> snd (take_each n ks xss) ! k = xss ! k"
  by (induction n ks xss rule: take_each.induct) (simp_all add: take_each_Cons Let_def)

lemma take_each_spec:
  "distinct ks \<Longrightarrow> set ks \<subseteq> {..< length xss} \<Longrightarrow>
   fst (take_each n ks xss) = take n (concat (map ((!) xss) ks)) \<and>
   (\<exists>zs. fst (take_each n ks xss) = concat (map zs ks) \<and> (\<forall>k \<in> set ks. xss ! k = zs k @ snd (take_each n ks xss) ! k))"
proof (induction n ks xss rule: take_each.induct)
  case (2 n k ks xss)
  let ?xs = "xss ! k" and ?xss = "xss[k := drop n (xss ! k)]"
  let ?r = "take_each (n - length (take n ?xs)) ks ?xss"
  have d: "k \<notin> set ks" "distinct ks" "set ks \<subseteq> {..< length ?xss}" "k < length xss" using "2.prems" by auto
  obtain zs where z: "fst ?r = take (n - length (take n ?xs)) (concat (map ((!) ?xss) ks))" "fst ?r = concat (map zs ks)"
    "\<forall>k \<in> set ks. ?xss ! k = zs k @ snd ?r ! k" using "2.IH" [OF refl d(2,3)] by blast
  have r: "take_each n (k # ks) xss = (take n ?xs @ fst ?r, snd ?r)" by (simp add: take_each_Cons Let_def)
  have m: "map ((!) ?xss) ks = map ((!) xss) ks" using d(1) by (intro map_cong refl nth_list_update_neq) auto
  have l: "n - length (take n ?xs) = n - length ?xs" by simp
  have "fst (take_each n (k # ks) xss) = take n (concat (map ((!) xss) (k # ks)))" unfolding r l using z(1) [unfolded m l] by simp
  moreover have "fst (take_each n (k # ks) xss) = concat (map (zs(k := take n ?xs)) (k # ks))"
  proof -
    have m: "map (zs(k := take n ?xs)) ks = map zs ks" using d(1) by auto
    show ?thesis unfolding r list.map m using z(2) by simp
  qed
  moreover have "snd ?r ! k = drop n ?xs" by (simp add: take_each_other [OF d(1)] d(4))
  then have "\<forall>j \<in> set (k # ks). xss ! j = (zs(k := take n ?xs)) j @ snd (take_each n (k # ks) xss) ! j"
    unfolding r using z(3) d(1) by (auto simp: nth_list_update split: if_splits)
  ultimately show ?case by blast
qed simp

lemma dequeue_bulk_all_rep:
  "queue_rep Q m xss \<Longrightarrow> set ks \<subseteq> {..< length xss} \<Longrightarrow> unat count + n = unat mx \<Longrightarrow>
   \<exists>Q'. dequeue_bulk_all mx count ks Q = Some (fst (take_each n ks xss), Q') \<and> queue_rep Q' m (snd (take_each n ks xss)) \<and>
     hash_count Q' = hash_count Q \<and> (all_alive Q \<longrightarrow> all_alive Q')"
proof (induction ks arbitrary: Q xss count n)
  case (Cons k ks)
  let ?xs = "xss ! k"
  have n: "unat (mx - count) = n"
  proof -
    have "count \<le> mx" using Cons.prems(3) by (simp add: word_le_nat_alt)
    then show ?thesis using Cons.prems(3) by (simp add: unat_sub_if')
  qed
  obtain q p where d: "producer_dequeue_bulk (mx - count) (block_pool Q, prods Q ! k) = Some (take n ?xs, q, p)"
    "queue_rep (Q\<lparr>block_pool := q, prods := (prods Q)[k := p]\<rparr>) m (xss[k := drop n ?xs])"
    "all_alive Q \<longrightarrow> all_alive (Q\<lparr>block_pool := q, prods := (prods Q)[k := p]\<rparr>)"
    using dequeue_bulk_at [OF Cons.prems(1), of k "mx - count"] Cons.prems(2) n by auto
  let ?Q = "Q\<lparr>block_pool := q, prods := (prods Q)[k := p]\<rparr>" and ?l = "length (take n ?xs)"
  let ?c = "count + of_nat ?l"
  have l: "?l \<le> n" by simp
  then have "unat count + ?l < 2 ^ 64" using Cons.prems(3) unsigned_less [of mx, where ?'a = nat] by simp
  then have c: "unat ?c = unat count + ?l" by (simp add: unat_word_ariths unat_of_nat)
  have r: "take_each n (k # ks) xss =
      (take n ?xs @ fst (take_each (n - ?l) ks (xss[k := drop n ?xs])), snd (take_each (n - ?l) ks (xss[k := drop n ?xs])))"
    by (simp add: take_each_Cons Let_def)
  have full: "?c = mx \<longleftrightarrow> ?l = n" using c Cons.prems(3) by (metis add_left_cancel word_unat_eq_iff)
  show ?case
  proof (cases "?l = n")
    case True
    then have "dequeue_bulk_all mx count (k # ks) Q = Some (take n ?xs, ?Q)" using d(1) full by (simp add: Let_def)
    then show ?thesis unfolding r using d(2,3) True by simp
  next
    case False
    have "unat ?c + (n - ?l) = unat mx" using c l Cons.prems(3) by simp
    then obtain Q' where Q': "dequeue_bulk_all mx ?c ks ?Q = Some (fst (take_each (n - ?l) ks (xss[k := drop n ?xs])), Q')"
      "queue_rep Q' m (snd (take_each (n - ?l) ks (xss[k := drop n ?xs])))" "hash_count Q' = hash_count ?Q" "all_alive ?Q \<longrightarrow> all_alive Q'"
      using Cons.IH [OF d(2), of ?c "n - ?l"] Cons.prems(2) by auto
    have "dequeue_bulk_all mx count (k # ks) Q = Some (take n ?xs @ fst (take_each (n - ?l) ks (xss[k := drop n ?xs])), Q')"
      using d(1) full False Q'(1) by (simp add: Let_def)
    then show ?thesis unfolding r using Q'(2-4) d(3) by simp
  qed
qed simp

text \<open>On the level of the threads: \<open>ts\<close> is the order in which they are served, \<open>zs\<close> what is taken.\<close>

lemma try_dequeue_bulk_state:
  assumes s: "queue_state Q tq"
  shows "\<exists>ys Q' tq' ts zs. try_dequeue_bulk mx Q = Some (ys, Q') \<and> queue_state Q' tq' \<and> distinct ts \<and>
    (\<forall>i. i \<notin> set ts \<longrightarrow> tq i = []) \<and> (\<forall>i. tq i = zs i @ tq' i) \<and> ys = concat (map zs ts) \<and>
    ys = take (unat mx) (concat (map tq ts)) \<and> hash_count Q' = hash_count Q \<and> (all_alive Q \<longrightarrow> all_alive Q')"
proof -
  obtain m xss where r: "queue_rep Q m xss" "tq = (\<lambda>i. case m i of None \<Rightarrow> [] | Some k \<Rightarrow> xss ! k)"
    using s by (auto simp: queue_state_def)
  have len: "length (prods Q) = length xss" using r(1) by (auto simp: queue_rep_def lists_rep_def)
  let ?ks = "producer_list Q" and ?n = "unat mx"
  have ks: "distinct ?ks" "set ?ks = {..< length xss}" using len by (auto simp: producer_list_def)
  let ?xss = "snd (take_each ?n ?ks xss)"
  obtain Q' where Q': "try_dequeue_bulk mx Q = Some (fst (take_each ?n ?ks xss), Q')" "queue_rep Q' m ?xss"
    "hash_count Q' = hash_count Q" "all_alive Q \<longrightarrow> all_alive Q'"
    using dequeue_bulk_all_rep [OF r(1), of ?ks 0 ?n mx] ks by (auto simp: try_dequeue_bulk_def)
  obtain z where z: "fst (take_each ?n ?ks xss) = take ?n (concat (map ((!) xss) ?ks))"
    "fst (take_each ?n ?ks xss) = concat (map z ?ks)" "\<forall>k \<in> set ?ks. xss ! k = z k @ ?xss ! k"
    using take_each_spec [OF ks(1), of xss ?n] ks(2) by blast
  have "\<exists>i. m i = Some k" if "k < length xss" for k using queue_rep_owner [OF r(1) that] by metis
  then obtain own where own: "\<And>k. k < length xss \<Longrightarrow> m (own k) = Some k" by metis
  let ?ts = "map own ?ks" and ?zs = "\<lambda>i. case m i of None \<Rightarrow> [] | Some k \<Rightarrow> z k"
    and ?tq = "\<lambda>i. case m i of None \<Rightarrow> [] | Some k \<Rightarrow> ?xss ! k"
  have inj: "inj_on own (set ?ks)" using own ks(2) by (metis inj_onI lessThan_iff option.inject)
  have st: "queue_state Q' ?tq" using Q'(2) by (auto simp: queue_state_def)
  have di: "distinct ?ts" using ks(1) inj by (simp add: distinct_map)
  have rest: "tq i = []" if i: "i \<notin> set ?ts" for i
  proof (cases "m i")
    case (Some k)
    then have k: "k < length xss" by (rule queue_rep_bound [OF r(1)])
    have "inj_on m (dom m)" using r(1) by (simp add: queue_rep_def threads_rep_def)
    then have "i = own k" using own [OF k] Some by (metis domI inj_onD)
    then show ?thesis using i ks(2) k by auto
  qed (simp add: r(2))
  have split: "tq i = ?zs i @ ?tq i" for i
    using z(3) queue_rep_bound [OF r(1)] ks(2) by (auto simp: r(2) split: option.split)
  have "map ?zs ?ts = map z ?ks" "map tq ?ts = map ((!) xss) ?ks" using own ks(2) by (auto simp: r(2))
  then have ys: "fst (take_each ?n ?ks xss) = concat (map ?zs ?ts)" "fst (take_each ?n ?ks xss) = take ?n (concat (map tq ?ts))"
    using z(1,2) by (simp_all only:)
  show ?thesis
    by (intro exI conjI allI) (rule Q'(1) st di split ys Q'(3,4) | use rest in blast)+
qed

text \<open>The empty queue.\<close>

lemma ConcurrentQueue_rep: "queue_rep (ConcurrentQueue mem capacity) (\<lambda>i. None) []"
proof -
  have "hashes_ok [new_hash 32] (\<lambda>i. None)"
    using new_hash_ok [of 5 "\<lambda>i. None"] by (auto simp: hashes_ok_def new_hash_def intro!: exI [of _ 5])
  then have "threads_rep (ConcurrentQueue mem capacity) (\<lambda>i. None)"
    by (simp add: threads_rep_def ConcurrentQueue_def INITIAL_IMPLICIT_PRODUCER_HASH_SIZE_def)
  moreover have "lists_rep (block_pool (ConcurrentQueue mem capacity)) (prods (ConcurrentQueue mem capacity)) [] []"
    by (simp add: lists_rep_def ConcurrentQueue_def used_blocks_def populate_pool_ok)
  ultimately show ?thesis unfolding queue_rep_def by blast
qed

lemma ConcurrentQueue_state: "queue_state (ConcurrentQueue mem capacity) (\<lambda>i. [])"
  unfolding queue_state_def using ConcurrentQueue_rep by (intro exI [of _ "\<lambda>i. None"] exI [of _ "[]"]) simp

end
