(* ===== verification/Queue_Destruction.thy ===== *)
theory Queue_Destruction
  imports Queue_Refinement
begin

text \<open>
  \<open>concurrentqueue.h\<close>, the destructors of a producer and of the queue: what is destroyed, and in
  which order. Every element left is destroyed once, and every block that was ever allocated is
  freed once.
\<close>

section \<open>The destructors\<close>

text \<open>The loop over the elements left. \<open>block\<close> is the block of the previous element.\<close>

partial_function (option) destroy_elements ::
  "u64 \<Rightarrow> producer \<Rightarrow> u64 \<Rightarrow> nat option \<Rightarrow> 'a pool \<Rightarrow> ('a list \<times> 'a pool) option" where
  "destroy_elements tail p idx block q =
     (if idx = tail then Some ([], q)
      else case
          (if idx AND (BLOCK_SIZE - 1) = 0 \<or> block = None
           then (let q = (case block of None \<Rightarrow> q | Some b \<Rightarrow> add_block_to_free_list b q) in
             case get_block_index_entry_for_index idx p of
               None \<Rightarrow> None
             | Some e \<Rightarrow> map_option (\<lambda>r. (r, q)) (snd (entries p ! e)))
           else map_option (\<lambda>r. (r, q)) block) of
        None \<Rightarrow> None
      | Some (r, q) \<Rightarrow>
          (case elements (blocks q r) ! slot idx of
             None \<Rightarrow> None
           | Some x \<Rightarrow>
               Option.bind (destroy_elements tail p (idx + 1) (Some r) (put_element r idx None q)) (\<lambda>(xs, q). Some (x # xs, q))))"

text \<open>The destructor of an implicit producer gives its blocks back. The index dies with it.\<close>

definition destroy_implicit_producer :: "'a pool \<times> producer \<Rightarrow> ('a list \<times> 'a pool) option" where
  "destroy_implicit_producer qp =
     (let (q, p) = qp; tail = tailIndex p; idx = headIndex p; forceFreeLastBlock = (idx \<noteq> tail) in
      if \<not> (idx = tail \<or> circular_less_than idx tail) then None
      else map_option (\<lambda>(xs, q). (xs,
          (case tailBlock p of
             None \<Rightarrow> q
           | Some b \<Rightarrow> if forceFreeLastBlock \<or> tail AND (BLOCK_SIZE - 1) \<noteq> 0 then add_block_to_free_list b q else q)))
        (destroy_elements tail p idx None q))"

fun destroy_producers :: "producer list \<Rightarrow> nat list \<Rightarrow> 'a pool \<Rightarrow> ('a list \<times> 'a pool) option" where
  "destroy_producers ps [] q = Some ([], q)"
| "destroy_producers ps (r # rs) q =
     (case destroy_implicit_producer (q, ps ! r) of
        None \<Rightarrow> None
      | Some (xs, q) \<Rightarrow> map_option (\<lambda>(ys, q). (xs @ ys, q)) (destroy_producers ps rs q))"

text \<open>The destructor of the queue: the elements destroyed and the blocks destroyed, each in order.
  The blocks allocated with the queue are destroyed as an array, from its end.\<close>

definition destroy_queue :: "'a cqueue \<Rightarrow> ('a list \<times> nat list) option" where
  "destroy_queue Q =
     (case destroy_producers (prods Q) (producer_list Q) (block_pool Q) of
        None \<Rightarrow> None
      | Some (xs, q) \<Rightarrow> Some (xs, filter (\<lambda>r. dynamicallyAllocated (blocks q r)) (free_list q) @ rev [0..<unat (pool_size q)]))"

section \<open>A producer\<close>

lemma put_element_free_list [simp]:
  "free_list (put_element r i x q) = free_list q" "dynamicallyAllocated (blocks (put_element r i x q) u) = dynamicallyAllocated (blocks q u)"
  by (simp_all add: put_element_def)

text \<open>No block is created.\<close>

definition same_blocks :: "'a pool \<Rightarrow> 'a pool \<Rightarrow> bool" where
  "same_blocks q' q \<longleftrightarrow> next_block q' = next_block q \<and> pool_size q' = pool_size q"

lemma take_less_Suc: "j < length rs \<Longrightarrow> distinct rs \<Longrightarrow> U - set (take j rs) - {rs ! j} = U - set (take (Suc j) rs)"
  by (auto simp: take_Suc_conv_app_nth)

lemma same_slot: "(a :: nat) div 32 = b div 32 \<Longrightarrow> a mod 32 = b mod 32 \<Longrightarrow> a = b"
  by (metis mult_div_mod_eq)

lemma destroy_elements_rep:
  assumes br: "block_rep q0 p rs xs" and n: "length xs < 2 ^ 63" and len: "length rs = (slot (headIndex p) + length xs + 31) div 32"
    and small: "length rs \<le> 2 ^ 58" and U: "set rs \<subseteq> U"
  shows "k \<le> length xs \<Longrightarrow> c = (if k = 0 then 0 else (slot (headIndex p) + k - 1) div 32) \<Longrightarrow>
    pool_ok q (U - set (take c rs)) \<Longrightarrow>
    (\<And>j. k \<le> j \<Longrightarrow> j < length xs \<Longrightarrow>
      elements (blocks q (rs ! ((slot (headIndex p) + j) div 32))) ! ((slot (headIndex p) + j) mod 32) = Some (xs ! j)) \<Longrightarrow>
    \<exists>q'. destroy_elements (tailIndex p) p (headIndex p + of_nat k) (if k = 0 then None else Some (rs ! c)) q = Some (drop k xs, q') \<and>
      pool_ok q' (U - set (if length xs = 0 then [] else butlast rs)) \<and> (\<forall>u. u \<notin> set rs \<longrightarrow> blocks q' u = blocks q u) \<and>
      same_blocks q' q"
proof (induction "length xs - k" arbitrary: k c q)
  case 0
  then have k: "k = length xs" by simp
  have tl: "tailIndex p = headIndex p + of_nat (length xs)" using br by (simp add: block_rep_def Let_def)
  have "take c rs = butlast rs" if "xs \<noteq> []"
  proof -
    have x: "0 < length xs" using that by simp
    have "(slot (headIndex p) + length xs + 31) = (slot (headIndex p) + length xs - 1) + 32" using x by simp
    then have "length rs = Suc ((slot (headIndex p) + length xs - 1) div 32)" unfolding len by (simp only: div_add_self2)
    then have "c = length rs - 1" using "0.prems"(2) k x by simp
    then show ?thesis by (simp add: butlast_conv_take)
  qed
  then show ?case
    using "0.prems"(2,3) k tl by (subst destroy_elements.simps) (cases "xs = []"; simp add: same_blocks_def)
next
  case (Suc m)
  let ?off = "slot (headIndex p)" and ?i = "headIndex p + of_nat k"
  have k: "k < length xs" using Suc.hyps(2) by simp
  let ?j = "(?off + k) div 32"
  have tl: "tailIndex p = headIndex p + of_nat (length xs)" using br by (simp add: block_rep_def Let_def)
  have ne: "?i \<noteq> tailIndex p"
  proof -
    have u: "unat (of_nat j :: u64) = j" if "j \<le> length xs" for j using that n by (simp add: unat_of_nat take_bit_nat_eq_self)
    show ?thesis using u [of k] u [of "length xs"] k unfolding tl by (metis add_left_cancel less_irrefl less_imp_le order_refl)
  qed
  have jl: "?j < length rs" by (rule block_index_less [OF slot_less k]) (simp add: len)
  have sl: "slot ?i = (?off + k) mod 32" by (simp add: slot_add)
  have ix: "index_rep p (blocks_from (headIndex p - of_nat ?off) rs)" using br by (simp add: block_rep_def Let_def)
  obtain e where e: "get_block_index_entry_for_index ?i p = Some e" "snd (entries p ! e) = Some (rs ! ?j)"
    using index_lookup [OF ix slot_base jl small block_base] by auto
  let ?boundary = "k = 0 \<or> (?off + k) mod 32 = 0"
  let ?q = "if 0 < k \<and> (?off + k) mod 32 = 0 then add_block_to_free_list (rs ! c) q else q"
  have di: "distinct rs" using br by (simp add: block_rep_def Let_def)
  have step: "(if ?i AND (BLOCK_SIZE - 1) = 0 \<or> (if k = 0 then None else Some (rs ! c)) = None
      then (let q = (case (if k = 0 then None else Some (rs ! c)) of None \<Rightarrow> q | Some b \<Rightarrow> add_block_to_free_list b q) in
        case get_block_index_entry_for_index ?i p of None \<Rightarrow> None | Some e \<Rightarrow> map_option (\<lambda>r. (r, q)) (snd (entries p ! e)))
      else map_option (\<lambda>r. (r, q)) (if k = 0 then None else Some (rs ! c))) = Some (rs ! ?j, ?q)"
    and pool: "pool_ok ?q (U - set (take ?j rs))"
  proof -
    have al: "?i AND (BLOCK_SIZE - 1) = 0 \<longleftrightarrow> (?off + k) mod 32 = 0" using sl by (simp add: unat_mod_32 flip: slot_mod)
    have cj: "c = (if 0 < k \<and> (?off + k) mod 32 = 0 then ?j - 1 else ?j) \<and> (0 < k \<and> (?off + k) mod 32 = 0 \<longrightarrow> 0 < ?j)"
    proof (cases "k = 0")
      case False
      then have p1: "Suc (?off + k - 1) = ?off + k" by simp
      have "(?off + k) div 32 = (if (?off + k) mod 32 = 0 then Suc ((?off + k - 1) div 32) else (?off + k - 1) div 32)"
        using div_Suc [of "?off + k - 1" 32] mod_Suc [of "?off + k - 1" 32] p1 by (simp split: if_splits)
      then show ?thesis using Suc.prems(2) False by auto
    qed (use Suc.prems(2) in \<open>simp add: div_eq_0_iff\<close>)
    show "(if ?i AND (BLOCK_SIZE - 1) = 0 \<or> (if k = 0 then None else Some (rs ! c)) = None
        then (let q = (case (if k = 0 then None else Some (rs ! c)) of None \<Rightarrow> q | Some b \<Rightarrow> add_block_to_free_list b q) in
          case get_block_index_entry_for_index ?i p of None \<Rightarrow> None | Some e \<Rightarrow> map_option (\<lambda>r. (r, q)) (snd (entries p ! e)))
        else map_option (\<lambda>r. (r, q)) (if k = 0 then None else Some (rs ! c))) = Some (rs ! ?j, ?q)"
      using al e cj by (cases "k = 0"; cases "(?off + k) mod 32 = 0") simp_all
    show "pool_ok ?q (U - set (take ?j rs))"
    proof (cases "0 < k \<and> (?off + k) mod 32 = 0")
      case True
      then have c: "Suc c = ?j" using cj by auto
      then have cl: "c < length rs" using jl by simp
      then have "rs ! c \<in> set rs" "rs ! c \<notin> set (take c rs)" using di by (auto simp: in_set_conv_nth nth_eq_iff_index_eq)
      then have "rs ! c \<in> U - set (take c rs)" using U by auto
      then have "pool_ok (add_block_to_free_list (rs ! c) q) (U - set (take c rs) - {rs ! c})" by (rule pool_ok_release [OF Suc.prems(3)])
      then show ?thesis using True c jl take_less_Suc [of c rs U] di by simp
    next
      case False
      then show ?thesis using Suc.prems(3) cj by auto
    qed
  qed
  have same: "blocks ?q = blocks q" by (simp add: add_block_to_free_list_def)
  have el: "elements (blocks ?q (rs ! ?j)) ! slot ?i = Some (xs ! k)"
    unfolding sl same using Suc.prems(4) [OF le_refl k] .
  let ?q2 = "put_element (rs ! ?j) ?i None ?q"
  have later: "elements (blocks ?q2 (rs ! ((?off + j) div 32))) ! ((?off + j) mod 32) = Some (xs ! j)"
    if j: "Suc k \<le> j" "j < length xs" for j
  proof -
    have old: "elements (blocks ?q (rs ! ((?off + j) div 32))) ! ((?off + j) mod 32) = Some (xs ! j)"
      unfolding same using Suc.prems(4) [of j] j by simp
    have jl2: "(?off + j) div 32 < length rs" by (rule block_index_less [OF slot_less j(2)]) (simp add: len)
    show ?thesis
    proof (cases "(?off + j) div 32 = ?j")
      case True
      then have "(?off + j) mod 32 \<noteq> slot ?i" unfolding sl using same_slot [OF True] j(1) by auto
      then show ?thesis using old True by (simp add: put_element_blocks(4))
    next
      case False
      then have "rs ! ((?off + j) div 32) \<noteq> rs ! ?j" using di jl jl2 by (simp add: nth_eq_iff_index_eq)
      then show ?thesis using old by (simp add: put_element_blocks(1))
    qed
  qed
  have nx: "headIndex p + of_nat (Suc k) = ?i + 1" by simp
  have "\<exists>q'. destroy_elements (tailIndex p) p (headIndex p + of_nat (Suc k)) (if Suc k = 0 then None else Some (rs ! ?j)) ?q2 = Some (drop (Suc k) xs, q') \<and>
      pool_ok q' (U - set (if length xs = 0 then [] else butlast rs)) \<and> (\<forall>u. u \<notin> set rs \<longrightarrow> blocks q' u = blocks ?q2 u) \<and>
      same_blocks q' ?q2"
    by (rule Suc.hyps(1)) (use Suc.hyps(2) k pool later in \<open>simp_all add: put_element_pool_ok\<close>)
  then obtain q' where q': "destroy_elements (tailIndex p) p (?i + 1) (Some (rs ! ?j)) ?q2 = Some (drop (Suc k) xs, q')"
    "pool_ok q' (U - set (if length xs = 0 then [] else butlast rs))" "\<forall>u. u \<notin> set rs \<longrightarrow> blocks q' u = blocks ?q2 u"
    "same_blocks q' ?q2"
    unfolding nx by (simp only: nat.distinct if_False) blast
  have "destroy_elements (tailIndex p) p ?i (if k = 0 then None else Some (rs ! c)) q = Some (drop k xs, q')"
    by (subst destroy_elements.simps, subst step) (simp add: ne el q'(1) Cons_nth_drop_Suc [OF k])
  moreover have "blocks q' u = blocks q u" if "u \<notin> set rs" for u
  proof -
    have "u \<noteq> rs ! ?j" using that jl by auto
    then show ?thesis using q'(3) that by (simp add: put_element_blocks(1) add_block_to_free_list_def)
  qed
  moreover have "same_blocks q' q" using q'(4) by (simp add: same_blocks_def add_block_to_free_list_def put_element_def split: if_splits)
  ultimately show ?case using q'(2) by blast
qed

lemma destroy_producer_rep:
  assumes r: "prod_rep q p rs xs" and ok: "pool_ok q U" "set rs \<subseteq> U"
  shows "\<exists>q'. destroy_implicit_producer (q, p) = Some (xs, q') \<and> pool_ok q' (U - set rs) \<and>
    (\<forall>u. u \<notin> set rs \<longrightarrow> blocks q' u = blocks q u) \<and> same_blocks q' q"
proof (cases "dead p \<and> rs = [] \<and> xs = []")
  case True
  then have "destroy_implicit_producer (q, p) = Some ([], q)"
    by (simp add: destroy_implicit_producer_def dead_def destroy_elements.simps split: option.split)
  then show ?thesis using True ok by (simp add: same_blocks_def)
next
  case False
  then have rep: "rep q p rs xs" using r by (auto simp: prod_rep_def)
  let ?off = "slot (headIndex p)" and ?n = "length xs"
  have k: "block_rep q p rs xs" "?n < 2 ^ 63" "length rs = (?off + ?n + 31) div 32" "rs \<noteq> [] \<longrightarrow> tailBlock p = Some (last rs)"
    using rep by (auto simp: rep_def Let_def)
  have tl: "tailIndex p = headIndex p + of_nat ?n" using k(1) by (simp add: block_rep_def Let_def)
  have small: "length rs \<le> 2 ^ 58"
    using rep blocks_padding [of "?off + ?n"] slot_less [of "headIndex p"] by (simp add: rep_def Let_def del: slot_less)
  have ne: "headIndex p = tailIndex p \<longleftrightarrow> xs = []"
  proof -
    have "unat (of_nat ?n :: u64) = ?n" using k(2) by (simp add: unat_of_nat take_bit_nat_eq_self)
    then have "(of_nat ?n :: u64) = 0 \<longleftrightarrow> ?n = 0" by (simp add: word_unat_eq_iff)
    then show ?thesis unfolding tl by simp
  qed
  have circ: "circular_less_than (headIndex p) (tailIndex p) \<longleftrightarrow> xs \<noteq> []" using circular_less_than_iff [of ?n "headIndex p"] k(2) tl by simp
  have al: "tailIndex p AND (BLOCK_SIZE - 1) = 0 \<longleftrightarrow> (?off + ?n) mod 32 = 0"
    using slot_add [of "headIndex p" ?n] by (simp add: unat_mod_32 tl flip: slot_mod)
  obtain q1 where q1: "destroy_elements (tailIndex p) p (headIndex p) None q = Some (xs, q1)"
    "pool_ok q1 (U - set (if ?n = 0 then [] else butlast rs))" "\<forall>u. u \<notin> set rs \<longrightarrow> blocks q1 u = blocks q u" "same_blocks q1 q"
    using destroy_elements_rep [OF k(1-3) small ok(2), of 0 0 q] ok(1) k(1) by (auto simp: block_rep_def Let_def)
  show ?thesis
  proof (cases "rs = []")
    case True
    then have "?off + ?n = 0" using k(3) by (simp add: div_eq_0_iff)
    then have "xs = []" "destroy_implicit_producer (q, p) = Some (xs, q1)"
      using q1(1) ne al by (auto simp: destroy_implicit_producer_def Let_def split: option.split)
    then show ?thesis using q1(2-4) True by auto
  next
    case False
    let ?q = "add_block_to_free_list (last rs) q1"
    have "xs \<noteq> [] \<or> (?off + ?n) mod 32 \<noteq> 0"
    proof (rule ccontr)
      assume "\<not> (xs \<noteq> [] \<or> (?off + ?n) mod 32 \<noteq> 0)"
      then have "?off mod 32 = 0" "?n = 0" by auto
      then show False using k(3) False by simp
    qed
    then have d: "destroy_implicit_producer (q, p) = Some (xs, ?q)"
      using q1(1) ne al circ k(4) False by (auto simp: destroy_implicit_producer_def Let_def)
    have last: "last rs \<in> U - set (if ?n = 0 then [] else butlast rs)" "U - set (if ?n = 0 then [] else butlast rs) - {last rs} = U - set rs"
    proof -
      have di: "distinct rs" using k(1) by (simp add: block_rep_def Let_def)
      obtain bs b where bs: "rs = bs @ [b]" using False by (cases rs rule: rev_cases) auto
      have "bs = []" if "?n = 0"
      proof -
        have "length rs \<le> 1" using k(3) that slot_less [of "headIndex p"] by (simp add: less_Suc_eq_le add_31_div div_eq_0_iff del: slot_less)
        then show ?thesis using bs by simp
      qed
      then show "last rs \<in> U - set (if ?n = 0 then [] else butlast rs)" "U - set (if ?n = 0 then [] else butlast rs) - {last rs} = U - set rs"
        using di ok(2) bs by auto
    qed
    have "pool_ok ?q (U - set rs)" using pool_ok_release [OF q1(2) last(1)] last(2) by simp
    moreover have "same_blocks ?q q" using q1(4) by (simp add: same_blocks_def add_block_to_free_list_def)
    ultimately show ?thesis using d q1(3) by (auto simp: add_block_to_free_list_def)
  qed
qed

section \<open>The queue\<close>

lemma destroy_producers_rep:
  assumes "distinct ks" "pool_ok q (\<Union>k \<in> set ks. set (rss ! k))" "\<And>k. k \<in> set ks \<Longrightarrow> prod_rep q (ps ! k) (rss ! k) (xss ! k)"
    and "\<And>k j. k \<in> set ks \<Longrightarrow> j \<in> set ks \<Longrightarrow> k \<noteq> j \<Longrightarrow> set (rss ! k) \<inter> set (rss ! j) = {}"
  shows "\<exists>q'. destroy_producers ps ks q = Some (concat (map ((!) xss) ks), q') \<and> pool_ok q' {} \<and> same_blocks q' q"
  using assms
proof (induction ks arbitrary: q)
  case (Cons k ks)
  obtain q1 where q1: "destroy_implicit_producer (q, ps ! k) = Some (xss ! k, q1)"
    "pool_ok q1 ((\<Union>k \<in> set (k # ks). set (rss ! k)) - set (rss ! k))" "\<forall>u. u \<notin> set (rss ! k) \<longrightarrow> blocks q1 u = blocks q u" "same_blocks q1 q"
    using destroy_producer_rep [OF Cons.prems(3) Cons.prems(2), of k] by auto
  have distinct: "distinct ks" using Cons.prems(1) by simp
  have dj: "set (rss ! k) \<inter> set (rss ! j) = {}" if "j \<in> set ks" for j using Cons.prems(1) Cons.prems(4) [of k j] that by auto
  then have "(\<Union>k \<in> set (k # ks). set (rss ! k)) - set (rss ! k) = (\<Union>k \<in> set ks. set (rss ! k))" by auto
  then have p: "pool_ok q1 (\<Union>k \<in> set ks. set (rss ! k))" using q1(2) by simp
  have r: "prod_rep q1 (ps ! j) (rss ! j) (xss ! j)" if "j \<in> set ks" for j
  proof (rule prod_rep_frame [where q = q])
    show "prod_rep q (ps ! j) (rss ! j) (xss ! j)" using Cons.prems(3) [of j] that by simp
    show "blocks q1 u = blocks q u" if "u \<in> set (rss ! j)" for u using q1(3) dj [OF \<open>j \<in> set ks\<close>] that by blast
  qed
  have disj: "set (rss ! i) \<inter> set (rss ! j) = {}" if "i \<in> set ks" "j \<in> set ks" "i \<noteq> j" for i j using Cons.prems(4) [of i j] that by simp
  obtain q' where "destroy_producers ps ks q1 = Some (concat (map ((!) xss) ks), q')" "pool_ok q' {}" "same_blocks q' q1"
    using Cons.IH [OF distinct p r disj] by blast
  then show ?case using q1(1,4) by (auto simp: same_blocks_def)
qed (simp add: same_blocks_def)

text \<open>The elements left are destroyed, every one once, and every block once.\<close>

lemma destroy_queue_rep:
  assumes r: "queue_rep Q m xss"
  shows "\<exists>bs. destroy_queue Q = Some (concat (rev xss), bs) \<and> distinct bs \<and> set bs = {..< next_block (block_pool Q)}"
proof -
  obtain rss where l: "lists_rep (block_pool Q) (prods Q) rss xss" using r by (auto simp: queue_rep_def)
  have len: "length rss = length (prods Q)" "length xss = length (prods Q)" using l by (simp_all add: lists_rep_def)
  have ks: "distinct (producer_list Q)" "set (producer_list Q) = {..< length rss}" using len by (auto simp: producer_list_def)
  have "pool_ok (block_pool Q) (\<Union>k \<in> set (producer_list Q). set (rss ! k))" using l by (simp add: lists_rep_def used_blocks_def ks(2) len)
  moreover have "prod_rep (block_pool Q) (prods Q ! k) (rss ! k) (xss ! k)" if "k \<in> set (producer_list Q)" for k
    using l that ks(2) len by (simp add: lists_rep_def)
  moreover have "set (rss ! k) \<inter> set (rss ! j) = {}" if "k \<in> set (producer_list Q)" "j \<in> set (producer_list Q)" "k \<noteq> j" for k j
    using l that ks(2) len by (simp add: lists_rep_def)
  ultimately obtain q where q: "destroy_producers (prods Q) (producer_list Q) (block_pool Q) = Some (concat (map ((!) xss) (producer_list Q)), q)"
    "pool_ok q {}" "same_blocks q (block_pool Q)"
    using destroy_producers_rep [OF ks(1), of "block_pool Q" rss "prods Q" xss] by blast
  let ?bs = "filter (\<lambda>r. dynamicallyAllocated (blocks q r)) (free_list q) @ rev [0..<unat (pool_size q)]"
  have all: "set (free_list q) \<union> initial_left q = {..< next_block q}" "unat (pool_size q) \<le> next_block q"
    "\<And>r. r < next_block q \<Longrightarrow> dynamicallyAllocated (blocks q r) \<longleftrightarrow> unat (pool_size q) \<le> r" "distinct (free_list q)"
    using q(2) by (simp_all add: pool_ok_def)
  have dyn: "set (filter (\<lambda>r. dynamicallyAllocated (blocks q r)) (free_list q)) = {unat (pool_size q)..< next_block q}"
  proof -
    have lt: "r < next_block q" if "r \<in> set (free_list q)" for r using all(1) that by blast
    have mem: "r \<in> set (free_list q)" if "unat (pool_size q) \<le> r" "r < next_block q" for r
    proof -
      have "r \<in> set (free_list q) \<union> initial_left q" using all(1) that by blast
      then show ?thesis using that by (simp add: initial_left_def)
    qed
    show ?thesis
    proof (intro equalityI subsetI)
      fix r assume "r \<in> set (filter (\<lambda>r. dynamicallyAllocated (blocks q r)) (free_list q))"
      then show "r \<in> {unat (pool_size q)..< next_block q}" using lt [of r] all(3) [of r] by simp
    next
      fix r assume "r \<in> {unat (pool_size q)..< next_block q}"
      then show "r \<in> set (filter (\<lambda>r. dynamicallyAllocated (blocks q r)) (free_list q))" using mem [of r] all(3) [of r] by simp
    qed
  qed
  have "set ?bs = {..< next_block q}" unfolding set_append dyn using all(2) by (simp add: ivl_disj_un atLeast0LessThan Un_commute)
  moreover have "distinct ?bs" unfolding distinct_append dyn using all(4) by simp
  moreover have "map ((!) xss) (producer_list Q) = rev xss"
    by (simp only: producer_list_def rev_map [symmetric] len(2) [symmetric] map_nth)
  ultimately show ?thesis using q(1,3) by (simp add: destroy_queue_def same_blocks_def)
qed

end
