(* ===== verification/Queue_Runs.thy ===== *)
theory Queue_Runs
  imports Queue_Destruction "HOL-Library.Multiset"
begin

text \<open>
  The calls of the concurrent queue and their runs, from the constructor to the destructor. The
  contents of the queue are read off its state by the same lookups that \<open>dequeue\<close> makes.
\<close>

section \<open>The contents of the state\<close>

definition element_at :: "'a pool \<Rightarrow> producer \<Rightarrow> u64 \<Rightarrow> 'a option" where
  "element_at q p i =
     (case get_block_index_entry_for_index i p of
        None \<Rightarrow> None
      | Some e \<Rightarrow> (case snd (entries p ! e) of None \<Rightarrow> None | Some r \<Rightarrow> elements (blocks q r) ! slot i))"

definition producer_contents :: "'a pool \<Rightarrow> producer \<Rightarrow> 'a list" where
  "producer_contents q p =
     map (\<lambda>k. the (element_at q p (headIndex p + of_nat k))) [0..<unat (tailIndex p - headIndex p)]"

definition queue_contents :: "'a cqueue \<Rightarrow> 'a multiset" where
  "queue_contents Q = (\<Sum>r \<leftarrow> producer_list Q. mset (producer_contents (block_pool Q) (prods Q ! r)))"

lemma rep_contents: "rep q p rs xs \<Longrightarrow> producer_contents q p = xs"
proof -
  assume r: "rep q p rs xs"
  let ?off = "slot (headIndex p)" and ?b = "headIndex p - of_nat (slot (headIndex p))"
  let ?t = "?off + length xs"
  have k: "block_rep q p rs xs" "length rs = (?t + 31) div 32" "length xs + (32 - ?t mod 32) mod 32 < 2 ^ 63"
    using r by (simp_all add: rep_def Let_def)
  have ir: "index_rep p (blocks_from ?b rs)" and tl: "tailIndex p = headIndex p + of_nat (length xs)"
    using k(1) by (simp_all add: block_rep_def Let_def)
  have "?off < 32" by (rule slot_less)
  moreover have "32 * length rs = ?t + (32 - ?t mod 32) mod 32" unfolding k(2) by (rule blocks_padding)
  ultimately have len: "length rs \<le> 2 ^ 58" using k(3) by (simp del: slot_less)
  have n: "unat (tailIndex p - headIndex p) = length xs" using k(3) by (simp add: tl unat_of_nat take_bit_nat_eq_self)
  have "element_at q p (headIndex p + of_nat j) = Some (xs ! j)" if j: "j < length xs" for j
  proof -
    have lt: "(?off + j) div 32 < length rs" using block_index_less [OF slot_less j] k(2) by simp
    obtain e where "get_block_index_entry_for_index (headIndex p + of_nat j) p = Some e"
      "entries p ! e = (?b + 32 * of_nat ((?off + j) div 32), Some (rs ! ((?off + j) div 32)))"
      using index_lookup [OF ir slot_base lt len block_base] by blast
    then show ?thesis using k(1) j by (simp add: element_at_def slot_add block_rep_def Let_def)
  qed
  then show ?thesis by (intro nth_equalityI) (simp_all add: producer_contents_def n)
qed

lemma prod_rep_contents: "prod_rep q p rs xs \<Longrightarrow> producer_contents q p = xs"
  using rep_contents by (auto simp: prod_rep_def dead_def producer_contents_def)

lemma queue_rep_contents: "queue_rep Q m xss \<Longrightarrow> queue_contents Q = (\<Sum>xs \<leftarrow> xss. mset xs)"
proof -
  assume q: "queue_rep Q m xss"
  then obtain rss where l: "lists_rep (block_pool Q) (prods Q) rss xss" by (auto simp: queue_rep_def)
  then have c: "producer_contents (block_pool Q) (prods Q ! k) = xss ! k" if "k < length xss" for k
    using that prod_rep_contents by (fastforce simp: lists_rep_def)
  have "map (\<lambda>k. mset (producer_contents (block_pool Q) (prods Q ! k))) [0..<length xss] = map (\<lambda>k. mset (xss ! k)) [0..<length xss]"
    using c by simp
  moreover have "queue_contents Q = sum_list (map (\<lambda>k. mset (producer_contents (block_pool Q) (prods Q ! k))) [0..<length xss])"
    using l by (simp add: queue_contents_def producer_list_def lists_rep_def rev_map [symmetric])
  ultimately have "queue_contents Q = (\<Sum>k \<leftarrow> [0..<length xss]. mset (xss ! k))" by (simp only:)
  also have "\<dots> = (\<Sum>xs \<leftarrow> map ((!) xss) [0..<length xss]. mset xs)" by (simp only: map_map comp_def)
  finally show ?thesis by (simp only: map_nth)
qed

lemma sum_list_update_mset:
  "k < length xss \<Longrightarrow> (\<Sum>xs \<leftarrow> xss[k := ys]. mset xs) + mset (xss ! k) = (\<Sum>xs \<leftarrow> xss. mset xs) + mset ys"
  by (induction xss arbitrary: k) (auto simp: nth_Cons split: nat.splits)

section \<open>Calls\<close>

lemma enqueue_inner: "enqueue e i x Q = inner_enqueue True e i x Q"
  by (simp add: enqueue_def INITIAL_IMPLICIT_PRODUCER_HASH_SIZE_def)

lemma enqueue_bulk_inner: "enqueue_bulk im bm e i xs Q = inner_enqueue_bulk True im bm e i xs Q"
  by (simp add: enqueue_bulk_def INITIAL_IMPLICIT_PRODUCER_HASH_SIZE_def)

lemma try_enqueue_inner: "try_enqueue e i x Q = inner_enqueue False e i x Q"
  by (simp add: try_enqueue_def INITIAL_IMPLICIT_PRODUCER_HASH_SIZE_def)

lemma try_enqueue_bulk_inner: "try_enqueue_bulk im bm e i xs Q = inner_enqueue_bulk False im bm e i xs Q"
  by (simp add: try_enqueue_bulk_def INITIAL_IMPLICIT_PRODUCER_HASH_SIZE_def)

lemmas inner_calls = enqueue_inner try_enqueue_inner enqueue_bulk_inner try_enqueue_bulk_inner

text \<open>The size and the destructor on the level of the threads.\<close>

lemma queue_state_size: "queue_state Q tq \<Longrightarrow> size_approx Q = of_nat (size (queue_contents Q))"
proof -
  assume "queue_state Q tq"
  then obtain m xss where r: "queue_rep Q m xss" by (auto simp: queue_state_def)
  have "size (\<Sum>xs \<leftarrow> xss. mset xs) = length (concat xss)" by (induction xss) simp_all
  then show ?thesis by (simp add: size_approx_rep [OF r] queue_rep_contents [OF r])
qed

lemma queue_state_contents:
  assumes "queue_state Q tq"
  obtains ts where "distinct ts" "\<forall>i. i \<notin> set ts \<longrightarrow> tq i = []" "queue_contents Q = mset (concat (map tq ts))"
    "\<exists>bs. destroy_queue Q = Some (concat (map tq ts), bs) \<and> distinct bs \<and> set bs = {..< next_block (block_pool Q)}"
proof -
  obtain m xss where r: "queue_rep Q m xss" "tq = (\<lambda>i. case m i of None \<Rightarrow> [] | Some k \<Rightarrow> xss ! k)"
    using assms by (auto simp: queue_state_def)
  have "\<exists>i. m i = Some k" if "k < length xss" for k using queue_rep_owner [OF r(1) that] by metis
  then obtain own where own: "\<And>k. k < length xss \<Longrightarrow> m (own k) = Some k" by metis
  let ?ts = "map own (rev [0..< length xss])"
  have inj: "inj_on own {0..< length xss}" using own by (metis inj_onI atLeastLessThan_iff option.inject)
  then have "distinct ?ts" by (simp add: distinct_map)
  moreover have "tq i = []" if i: "i \<notin> set ?ts" for i
  proof (cases "m i")
    case (Some k)
    then have k: "k < length xss" by (rule queue_rep_bound [OF r(1)])
    have "inj_on m (dom m)" using r(1) by (simp add: queue_rep_def threads_rep_def)
    then have "i = own k" using own [OF k] Some by (metis domI inj_onD)
    then show ?thesis using i k by auto
  qed (simp add: r(2))
  moreover have "map tq ?ts = rev xss"
  proof -
    have "map tq ?ts = map ((!) xss) (rev [0..< length xss])" using own by (auto simp: r(2))
    then show ?thesis by (simp add: map_nth flip: rev_map)
  qed
  moreover have "queue_contents Q = mset (concat (rev xss))"
    unfolding queue_rep_contents [OF r(1)] mset_concat by (simp add: rev_map [symmetric] sum_list_rev)
  ultimately show ?thesis using that [of ?ts] destroy_queue_rep [OF r(1)] by simp
qed

lemma concat_of_thread:
  "distinct ts \<Longrightarrow> \<forall>i. \<forall>y \<in> set (f i). fst y = i \<Longrightarrow> filter (\<lambda>y. fst y = i) (concat (map f ts)) = (if i \<in> set ts then f i else [])"
proof (induction ts)
  case (Cons t ts)
  have "filter (\<lambda>y. fst y = i) (f t) = (if i = t then f i else [])" using Cons.prems(2) by (auto intro: filter_True filter_False)
  then show ?case using Cons by auto
qed simp

section \<open>Runs\<close>

text \<open>The calls that threads make; an element is marked with the thread that enqueues it. The \<open>bool\<close> says
  whether the call may allocate: \<open>enqueue\<close> or \<open>try_enqueue\<close>.\<close>

datatype 'b call =
    Enqueue bool memory u64 'b
  | Enqueue_bulk bool "nat \<Rightarrow> bool" "nat \<Rightarrow> bool" memory u64 "'b list"
  | Dequeue
  | Dequeue_non_interleaved
  | Dequeue_bulk u64

text \<open>The elements accepted and the elements delivered.\<close>

definition accepted :: "'a list \<Rightarrow> (bool \<times> 'a cqueue) option \<Rightarrow> ('a list \<times> 'a list \<times> 'a cqueue) option" where
  "accepted xs = map_option (\<lambda>(okay, Q). (if okay then xs else [], [], Q))"

definition delivered :: "('a option \<times> 'a cqueue) option \<Rightarrow> ('a list \<times> 'a list \<times> 'a cqueue) option" where
  "delivered = map_option (\<lambda>(f, Q). ([], (case f of None \<Rightarrow> [] | Some x \<Rightarrow> [x]), Q))"

fun queue_call :: "'b call \<Rightarrow> (u64 \<times> 'b) cqueue \<Rightarrow> ((u64 \<times> 'b) list \<times> (u64 \<times> 'b) list \<times> (u64 \<times> 'b) cqueue) option" where
  "queue_call (Enqueue ca e i x) Q = accepted [(i, x)] (if ca then enqueue e i (i, x) Q else try_enqueue e i (i, x) Q)"
| "queue_call (Enqueue_bulk ca im bm e i xs) Q =
     accepted (map (Pair i) xs)
       (if ca then enqueue_bulk im bm e i (map (Pair i) xs) Q else try_enqueue_bulk im bm e i (map (Pair i) xs) Q)"
| "queue_call Dequeue Q = delivered (try_dequeue Q)"
| "queue_call Dequeue_non_interleaved Q = delivered (try_dequeue_non_interleaved Q)"
| "queue_call (Dequeue_bulk m) Q = map_option (\<lambda>(xs, Q). ([], xs, Q)) (try_dequeue_bulk m Q)"

fun queue_run :: "'b call list \<Rightarrow> (u64 \<times> 'b) cqueue \<Rightarrow> ((u64 \<times> 'b) list \<times> (u64 \<times> 'b) list \<times> (u64 \<times> 'b) cqueue) option" where
  "queue_run [] Q = Some ([], [], Q)"
| "queue_run (c # cs) Q =
     (case queue_call c Q of
        None \<Rightarrow> None
      | Some (acc, got, Q) \<Rightarrow> map_option (\<lambda>(acc', got', Q). (acc @ acc', got @ got', Q)) (queue_run cs Q))"

fun call_valid :: "'b call \<Rightarrow> bool" where
  "call_valid (Enqueue ca e i x) \<longleftrightarrow> i \<noteq> invalid_thread_id"
| "call_valid (Enqueue_bulk ca im bm e i xs) \<longleftrightarrow> i \<noteq> invalid_thread_id \<and> length xs < 2 ^ 63"
| "call_valid c \<longleftrightarrow> True"

abbreviation of_thread :: "u64 \<Rightarrow> (u64 \<times> 'b) list \<Rightarrow> (u64 \<times> 'b) list" where
  "of_thread i \<equiv> filter (\<lambda>y. fst y = i)"

definition marked :: "(u64 \<Rightarrow> (u64 \<times> 'b) list) \<Rightarrow> bool" where
  "marked tq \<longleftrightarrow> (\<forall>i. \<forall>y \<in> set (tq i). fst y = i)"

text \<open>A call conserves the elements of every thread and their order.\<close>

definition conserves ::
  "(u64 \<times> 'b) cqueue \<Rightarrow> (u64 \<Rightarrow> (u64 \<times> 'b) list) \<Rightarrow> nat \<Rightarrow> ((u64 \<times> 'b) list \<times> (u64 \<times> 'b) list \<times> (u64 \<times> 'b) cqueue) option \<Rightarrow> bool" where
  "conserves Q tq n r \<longleftrightarrow> (\<exists>acc got Q' tq'. r = Some (acc, got, Q') \<and> queue_state Q' tq' \<and> marked tq' \<and>
     (\<forall>i. tq i @ of_thread i acc = of_thread i got @ tq' i) \<and> unat (hash_count Q') \<le> unat (hash_count Q) + n)"

lemma conserves_accepted:
  assumes tq: "marked tq" and xs: "\<forall>y \<in> set xs. fst y = i"
    and r: "\<exists>okay Q'. r = Some (okay, Q') \<and> queue_state Q' (if okay then tq(i := tq i @ xs) else tq) \<and>
      unat (hash_count Q') \<le> unat (hash_count Q) + 1 \<and> P okay Q'"
  shows "conserves Q tq 1 (accepted xs r)"
proof -
  obtain okay Q' where e: "r = Some (okay, Q')" "queue_state Q' (if okay then tq(i := tq i @ xs) else tq)"
    "unat (hash_count Q') \<le> unat (hash_count Q) + 1" using r by blast
  let ?tq = "if okay then tq(i := tq i @ xs) else tq" and ?acc = "if okay then xs else []"
  have "of_thread j ?acc = (if okay \<and> j = i then xs else [])" for j using xs by (auto intro: filter_True filter_False)
  then have "tq j @ of_thread j ?acc = of_thread j [] @ ?tq j" for j by simp
  moreover have "marked ?tq" using tq xs by (auto simp: marked_def)
  ultimately show ?thesis unfolding conserves_def accepted_def using e
    by (intro exI [of _ ?acc] exI [of _ "[]"] exI [of _ Q'] exI [of _ ?tq]) simp
qed

lemma conserves_delivered:
  assumes tq: "marked tq" and s: "queue_state Q tq" and r: "\<exists>f Q'. r = Some (f, Q') \<and>
    (case f of
       None \<Rightarrow> Q' = Q \<and> (\<forall>i. tq i = [])
     | Some x \<Rightarrow> \<exists>i xs. tq i = x # xs \<and> queue_state Q' (tq(i := xs)) \<and> hash_count Q' = hash_count Q \<and>
         (all_alive Q \<longrightarrow> all_alive Q'))"
  shows "conserves Q tq 1 (delivered r)"
proof -
  obtain f Q' where d: "r = Some (f, Q')" "case f of
       None \<Rightarrow> Q' = Q \<and> (\<forall>i. tq i = [])
     | Some x \<Rightarrow> \<exists>i xs. tq i = x # xs \<and> queue_state Q' (tq(i := xs)) \<and> hash_count Q' = hash_count Q \<and>
         (all_alive Q \<longrightarrow> all_alive Q')" using r by blast
  show ?thesis
  proof (cases f)
    case None
    then show ?thesis unfolding conserves_def delivered_def using d tq s
      by (intro exI [of _ "[]"] exI [of _ Q] exI [of _ tq]) simp
  next
    case (Some x)
    then obtain i xs where i: "tq i = x # xs" "queue_state Q' (tq(i := xs))" "hash_count Q' = hash_count Q" using d(2) by auto
    have x: "fst x = i" and m: "marked (tq(i := xs))" using tq i(1) by (force simp: marked_def)+
    have "tq j @ of_thread j [] = of_thread j [x] @ (tq(i := xs)) j" for j using i(1) x by simp
    then show ?thesis unfolding conserves_def delivered_def using d(1) Some i(2,3) m
      by (intro exI [of _ "[]"] exI [of _ "[x]"] exI [of _ Q'] exI [of _ "tq(i := xs)"]) simp
  qed
qed

lemma conserves_bulk:
  assumes tq: "marked tq" and s: "queue_state Q tq"
  shows "conserves Q tq 1 (map_option (\<lambda>(xs, Q). ([], xs, Q)) (try_dequeue_bulk m Q))"
proof -
  obtain ys Q' tq' ts zs where d: "try_dequeue_bulk m Q = Some (ys, Q')" "queue_state Q' tq'" "distinct ts"
    "\<forall>i. i \<notin> set ts \<longrightarrow> tq i = []" "\<forall>i. tq i = zs i @ tq' i" "ys = concat (map zs ts)" "hash_count Q' = hash_count Q"
    using try_dequeue_bulk_state [OF s, of m] by blast
  have m: "\<forall>i. \<forall>y \<in> set (zs i). fst y = i" "marked tq'" using tq d(5) by (auto simp: marked_def)
  have "of_thread i ys = zs i" for i using concat_of_thread [OF d(3) m(1), of i] d(4-6) by (auto split: if_splits)
  then show ?thesis unfolding conserves_def using d(1,2,5,7) m(2)
    by (intro exI [of _ "[]"] exI [of _ ys] exI [of _ Q'] exI [of _ tq']) simp
qed

lemma queue_call_conserves:
  assumes s: "queue_state Q tq" and tq: "marked tq" and n: "unat (hash_count Q) + 1 < 2 ^ 60" and v: "call_valid c"
  shows "conserves Q tq 1 (queue_call c Q)"
proof (cases c)
  case (Enqueue ca e i x)
  have "conserves Q tq 1 (accepted [(i, x)] (inner_enqueue ca e i (i, x) Q))"
    using inner_enqueue_state [OF s _ n, of i ca e "(i, x)"] v Enqueue by (intro conserves_accepted [OF tq]) auto
  then show ?thesis by (cases ca) (simp_all add: Enqueue inner_calls)
next
  case (Enqueue_bulk ca im bm e i xs)
  have "conserves Q tq 1 (accepted (map (Pair i) xs) (inner_enqueue_bulk ca im bm e i (map (Pair i) xs) Q))"
    using inner_enqueue_bulk_state [OF s _ n, of i "map (Pair i) xs" ca im bm e] v Enqueue_bulk by (intro conserves_accepted [OF tq]) auto
  then show ?thesis by (cases ca) (simp_all add: Enqueue_bulk inner_calls)
qed (simp_all only: queue_call.simps conserves_delivered [OF tq s] conserves_bulk [OF tq s] try_dequeue_state [OF s]
  try_dequeue_non_interleaved_state [OF s])

lemma queue_run_conserves:
  "queue_state Q tq \<Longrightarrow> marked tq \<Longrightarrow> unat (hash_count Q) + length cs < 2 ^ 60 \<Longrightarrow> \<forall>c \<in> set cs. call_valid c \<Longrightarrow>
   conserves Q tq (length cs) (queue_run cs Q)"
proof (induction cs arbitrary: Q tq)
  case (Cons c cs)
  obtain acc got Q1 tq1 where c: "queue_call c Q = Some (acc, got, Q1)" "queue_state Q1 tq1" "marked tq1"
    "\<forall>i. tq i @ of_thread i acc = of_thread i got @ tq1 i" "unat (hash_count Q1) \<le> unat (hash_count Q) + 1"
    using queue_call_conserves [OF Cons.prems(1,2), of c] Cons.prems(3,4) unfolding conserves_def by auto
  obtain acc' got' Q2 tq2 where r: "queue_run cs Q1 = Some (acc', got', Q2)" "queue_state Q2 tq2" "marked tq2"
    "\<forall>i. tq1 i @ of_thread i acc' = of_thread i got' @ tq2 i" "unat (hash_count Q2) \<le> unat (hash_count Q1) + length cs"
    using Cons.IH [OF c(2,3)] Cons.prems(3,4) c(5) unfolding conserves_def by auto
  have "tq i @ of_thread i (acc @ acc') = of_thread i (got @ got') @ tq2 i" for i
  proof -
    have "tq i @ of_thread i (acc @ acc') = of_thread i got @ tq1 i @ of_thread i acc'" using c(4) by (metis append.assoc filter_append)
    then show ?thesis using r(4) by simp
  qed
  then show ?case unfolding conserves_def using c(1,5) r(1-3,5)
    by (intro exI [of _ "acc @ acc'"] exI [of _ "got @ got'"] exI [of _ Q2] exI [of _ tq2]) simp
qed (auto simp: conserves_def)

section \<open>Properties\<close>

text \<open>C17: \<open>enqueue\<close> of a thread always returns, fails no assertion and ends every probing loop. If
  it returns \<open>true\<close> the element is the last of the thread's list, otherwise no list has changed;
  with memory available, less than about \<open>2 ^ 63\<close> elements waiting and no producer that failed to get
  its first index when it was made (such a producer refuses for ever) it returns \<open>true\<close>.\<close>

theorem enqueue_appends:
  assumes "queue_state Q tq" "i \<noteq> invalid_thread_id" "unat (hash_count Q) + 1 < 2 ^ 60"
  shows "\<exists>okay Q'. enqueue e i x Q = Some (okay, Q') \<and> queue_state Q' (if okay then tq(i := tq i @ [x]) else tq) \<and>
    (all_alive Q \<and> m_first_index e \<and> m_hash e \<and> m_producer e \<and> m_index e \<and> m_block e \<and>
      (\<forall>i. length (tq i) + 32 < 2 ^ 63) \<longrightarrow> okay)"
  using inner_enqueue_state [OF assms, of True e x] unfolding enqueue_inner by blast

definition plenty :: memory where
  "plenty = \<lparr>m_hash = True, m_producer = True, m_first_index = True, m_index = True, m_block = True, m_stale = None\<rparr>"

lemma new_queue_count: "hash_count (ConcurrentQueue mem capacity) = 0" "all_alive (ConcurrentQueue mem capacity)"
  by (simp_all add: ConcurrentQueue_def all_alive_def)

theorem enqueue_appends_witness:
  "\<exists>Q'. enqueue plenty 4096 (7 :: nat) (ConcurrentQueue True 192) = Some (True, Q') \<and> queue_state Q' ((\<lambda>i. [])(4096 := [7]))"
proof -
  have "\<exists>okay Q'. enqueue plenty 4096 (7 :: nat) (ConcurrentQueue True 192) = Some (okay, Q') \<and>
      queue_state Q' (if okay then (\<lambda>i. [])(4096 := (\<lambda>i. []) 4096 @ [7]) else (\<lambda>i. [])) \<and>
      (all_alive (ConcurrentQueue True 192 :: nat cqueue) \<and> m_first_index plenty \<and> m_hash plenty \<and> m_producer plenty \<and>
        m_index plenty \<and> m_block plenty \<and> (\<forall>i. length ((\<lambda>i. [] :: nat list) (i :: u64)) + 32 < 2 ^ 63) \<longrightarrow> okay)"
    by (rule enqueue_appends [OF ConcurrentQueue_state])
      (simp_all add: invalid_thread_id_def new_queue_count)
  then show ?thesis by (auto simp: plenty_def new_queue_count)
qed

text \<open>C18: \<open>enqueue_bulk\<close> of less than \<open>2 ^ 63\<close> elements always returns, fails no assertion and accepts
  all of the elements, in their order at the end of the thread's list, or none, in which case no list
  has changed. With memory available, and no producer that failed to get its first index, it accepts
  them.\<close>

theorem enqueue_bulk_all_or_nothing:
  assumes "queue_state Q tq" "i \<noteq> invalid_thread_id" "unat (hash_count Q) + 1 < 2 ^ 60" "length xs < 2 ^ 63"
  shows "\<exists>okay Q'. enqueue_bulk im bm e i xs Q = Some (okay, Q') \<and> queue_state Q' (if okay then tq(i := tq i @ xs) else tq) \<and>
    (all_alive Q \<and> m_first_index e \<and> m_hash e \<and> m_producer e \<and> (\<forall>k. im k \<and> bm k) \<and>
      length (tq i) + length xs + 32 < 2 ^ 63 \<longrightarrow> okay)"
  using inner_enqueue_bulk_state [OF assms, of True im bm e] unfolding enqueue_bulk_inner by blast

theorem enqueue_bulk_all_or_nothing_witness:
  "\<exists>Q'. enqueue_bulk (\<lambda>k. True) (\<lambda>k. True) plenty 4096 [0 ..< (100 :: nat)] (ConcurrentQueue True 32) = Some (True, Q') \<and>
    queue_state Q' ((\<lambda>i. [])(4096 := [0 ..< 100]))"
proof -
  have "\<exists>okay Q'. enqueue_bulk (\<lambda>k. True) (\<lambda>k. True) plenty 4096 [0 ..< (100 :: nat)] (ConcurrentQueue True 32) = Some (okay, Q') \<and>
      queue_state Q' (if okay then (\<lambda>i. [])(4096 := (\<lambda>i. []) 4096 @ [0 ..< 100]) else (\<lambda>i. [])) \<and>
      (all_alive (ConcurrentQueue True 32 :: nat cqueue) \<and> m_first_index plenty \<and> m_hash plenty \<and> m_producer plenty \<and>
        (\<forall>k :: nat. True \<and> True) \<and> length ((\<lambda>i. [] :: nat list) (4096 :: u64)) + length [0 ..< (100 :: nat)] + 32 < 2 ^ 63 \<longrightarrow> okay)"
    by (rule enqueue_bulk_all_or_nothing [OF ConcurrentQueue_state])
      (simp_all add: invalid_thread_id_def new_queue_count)
  then show ?thesis by (auto simp: plenty_def new_queue_count)
qed

text \<open>C19: \<open>try_dequeue\<close> always returns and fails no assertion. It returns \<open>false\<close> only if every
  thread's list is empty, and otherwise delivers the head of one of the lists.\<close>

theorem try_dequeue_serves:
  assumes "queue_state Q tq"
  shows "\<exists>f Q'. try_dequeue Q = Some (f, Q') \<and>
    (case f of
       None \<Rightarrow> Q' = Q \<and> (\<forall>i. tq i = [])
     | Some x \<Rightarrow> \<exists>i xs. tq i = x # xs \<and> queue_state Q' (tq(i := xs)))"
  using try_dequeue_state [OF assms] by (fastforce split: option.splits)

theorem try_dequeue_serves_witness:
  "\<exists>Q :: nat cqueue. queue_state Q ((\<lambda>i. [])(4096 := [7])) \<and> (\<exists>Q'. try_dequeue Q = Some (Some 7, Q'))"
proof -
  obtain Q' where Q': "queue_state Q' ((\<lambda>i. [])(4096 := [7 :: nat]))"
    using inner_enqueue_state [OF ConcurrentQueue_state [of True 192], of 4096 True plenty "7 :: nat"]
    by (auto simp: plenty_def new_queue_count invalid_thread_id_def)
  from try_dequeue_serves [OF this] obtain f Q2 where "try_dequeue Q' = Some (f, Q2)"
    "case f of None \<Rightarrow> Q2 = Q' \<and> (\<forall>i. ((\<lambda>i. [])(4096 := [7 :: nat])) (i :: u64) = [])
     | Some x \<Rightarrow> \<exists>i xs. ((\<lambda>i. [])(4096 := [7 :: nat])) (i :: u64) = x # xs \<and> queue_state Q2 (((\<lambda>i. [])(4096 := [7]))(i := xs))"
    by blast
  then have "\<exists>Q2. try_dequeue Q' = Some (Some 7, Q2)" by (auto split: option.splits if_splits dest: spec [of _ 4096])
  then show ?thesis using Q' by blast
qed

text \<open>C20: \<open>try_dequeue_bulk\<close> always returns and fails no assertion: it delivers the first \<open>m\<close> elements
  of the threads' lists put one after the other in some order (all of them if there are no more) and
  leaves the rest of every list.\<close>

theorem try_dequeue_bulk_serves:
  assumes "queue_state Q tq"
  shows "\<exists>Q' tq' ts zs. try_dequeue_bulk m Q = Some (take (unat m) (concat (map tq ts)), Q') \<and> queue_state Q' tq' \<and>
    distinct ts \<and> (\<forall>i. i \<in> set ts \<or> tq i = []) \<and> (\<forall>i. tq i = zs i @ tq' i) \<and>
    take (unat m) (concat (map tq ts)) = concat (map zs ts)"
  using try_dequeue_bulk_state [OF assms, of m] by metis

theorem try_dequeue_bulk_serves_witness:
  "\<exists>Q :: nat cqueue. queue_state Q ((\<lambda>i. [])(4096 := [0 ..< 100])) \<and> (\<exists>Q'. try_dequeue_bulk 40 Q = Some ([0 ..< 40], Q'))"
proof -
  let ?tq = "(\<lambda>i. [])(4096 := [0 ..< (100 :: nat)]) :: u64 \<Rightarrow> nat list"
  obtain Q where Q: "queue_state Q ?tq"
    using inner_enqueue_bulk_state [OF ConcurrentQueue_state [of True 32], of 4096 "[0 ..< (100 :: nat)]" True "\<lambda>k. True" "\<lambda>k. True" plenty]
    by (auto simp: plenty_def new_queue_count invalid_thread_id_def)
  obtain Q' ts where d: "try_dequeue_bulk 40 Q = Some (take (unat (40 :: u64)) (concat (map ?tq ts)), Q')" "distinct ts"
    "\<forall>i. i \<in> set ts \<or> ?tq i = []" using try_dequeue_bulk_serves [OF Q, of 40] by blast
  have "4096 \<in> set ts" using spec [OF d(3), of 4096] by (simp add: upt_conv_Cons)
  then obtain as bs where ts: "ts = as @ 4096 # bs" by (meson split_list)
  then have "4096 \<notin> set as" "4096 \<notin> set bs" using d(2) by auto
  then have "concat (map ?tq as) = []" "concat (map ?tq bs) = []" by (auto simp: concat_eq_Nil_conv)
  then have "concat (map ?tq ts) = [0 ..< 100]" by (simp only: ts list.map map_append concat_append concat.simps) simp
  then have "take (unat (40 :: u64)) (concat (map ?tq ts)) = [0 ..< 40]" by (simp add: take_upt)
  then show ?thesis using Q d(1) by metis
qed

text \<open>C21: in every run of less than \<open>2 ^ 60\<close> calls from the constructor, whichever they are, every call
  returns and fails no assertion. The elements of each thread are delivered once and in the order in
  which they were accepted; the destructor destroys those still waiting, and every block once.\<close>

theorem fifo_per_thread:
  assumes "\<forall>c \<in> set cs. call_valid c" "length cs < 2 ^ 60"
  shows "\<exists>acc got Q left bs. queue_run cs (ConcurrentQueue mem capacity) = Some (acc, got, Q) \<and>
    size_approx Q = of_nat (length left) \<and> destroy_queue Q = Some (left, bs) \<and>
    (\<forall>i. of_thread i acc = of_thread i got @ of_thread i left) \<and> distinct bs \<and> set bs = {..< next_block (block_pool Q)}"
proof -
  have "conserves (ConcurrentQueue mem capacity) (\<lambda>i. []) (length cs) (queue_run cs (ConcurrentQueue mem capacity))"
    by (rule queue_run_conserves [OF ConcurrentQueue_state]) (use assms in \<open>simp_all add: new_queue_count marked_def\<close>)
  then obtain acc got Q tq where r: "queue_run cs (ConcurrentQueue mem capacity) = Some (acc, got, Q)" "queue_state Q tq" "marked tq"
    "\<forall>i. of_thread i acc = of_thread i got @ tq i" by (auto simp: conserves_def)
  obtain ts where ts: "distinct ts" "\<forall>i. i \<notin> set ts \<longrightarrow> tq i = []" "queue_contents Q = mset (concat (map tq ts))"
    "\<exists>bs. destroy_queue Q = Some (concat (map tq ts), bs) \<and> distinct bs \<and> set bs = {..< next_block (block_pool Q)}"
    using queue_state_contents [OF r(2)] .
  have "size_approx Q = of_nat (length (concat (map tq ts)))" using queue_state_size [OF r(2)] ts(3) by simp
  moreover have "of_thread i (concat (map tq ts)) = tq i" for i
    using concat_of_thread [OF ts(1), of tq i] r(3) ts(2) by (auto simp: marked_def)
  ultimately show ?thesis using r(1,4) ts(4) by metis
qed

theorem fifo_per_thread_witness:
  "\<exists>acc got Q left bs. queue_run
      [Enqueue True plenty 4096 1, Enqueue_bulk True (\<lambda>k. True) (\<lambda>k. True) plenty 8192 [2, 3, 4], Dequeue,
       Enqueue False plenty 4096 (5 :: nat), Dequeue_bulk 2, Dequeue_non_interleaved]
      (ConcurrentQueue True 192) = Some (acc, got, Q) \<and>
    size_approx Q = of_nat (length left) \<and> destroy_queue Q = Some (left, bs) \<and>
    (\<forall>i. of_thread i acc = of_thread i got @ of_thread i left) \<and> distinct bs \<and> set bs = {..< next_block (block_pool Q)}"
  by (rule fifo_per_thread) (auto simp: invalid_thread_id_def)

end
