(* ===== verification/Queue_Properties.thy ===== *)
theory Queue_Properties
  imports Queue_Runs Node_Properties
begin

text \<open>
  The concurrent queue provides the contract of the node's queue: the interpretation \<open>cqueue\<close>.
\<close>

section \<open>The contract\<close>

text \<open>Threads of a set of less than \<open>2 ^ 60\<close> use the queue.\<close>

definition cqueue_ok :: "u64 set \<Rightarrow> 'a cqueue \<Rightarrow> bool" where
  "cqueue_ok T Q \<longleftrightarrow> finite T \<and> card T < 2 ^ 60 \<and> (\<exists>m xss. queue_rep Q m xss \<and> dom m \<subseteq> T)"

definition cqueue_enqueue :: "memory \<times> u64 \<Rightarrow> 'a \<Rightarrow> 'a cqueue \<Rightarrow> bool \<times> 'a cqueue" where
  "cqueue_enqueue c x Q = (case enqueue (fst c) (snd c) x Q of None \<Rightarrow> (False, Q) | Some r \<Rightarrow> r)"

definition cqueue_dequeue :: "'a cqueue \<Rightarrow> 'a option \<times> 'a cqueue" where
  "cqueue_dequeue Q = (case try_dequeue Q of None \<Rightarrow> (None, Q) | Some r \<Rightarrow> r)"

lemma cqueue_enqueue_law:
  assumes ok: "cqueue_ok T Q" and i: "snd c \<in> T" and e: "cqueue_enqueue c x Q = (okay, Q')"
  shows "cqueue_ok T Q' \<and> queue_contents Q' = (if okay then add_mset x (queue_contents Q) else queue_contents Q)"
proof -
  obtain m xss where q: "queue_rep Q m xss" "dom m \<subseteq> T" and T: "finite T" "card T < 2 ^ 60"
    using ok by (auto simp: cqueue_ok_def)
  have en: "enqueue (fst c) (snd c) x Q = inner_enqueue True (fst c) (snd c) x Q"
    by (rule enqueue_inner)
  show ?thesis
  proof (cases "snd c = invalid_thread_id")
    case True
    then have "enqueue (fst c) (snd c) x Q = Some (False, Q)"
      unfolding en inner_enqueue_def on_own_producer_def using get_or_add_invalid [OF q(1)] by simp
    then show ?thesis using e ok by (auto simp: cqueue_enqueue_def)
  next
    case False
    have small: "Suc (card (dom m)) < 2 ^ 60" if "m (snd c) = None"
    proof -
      have "insert (snd c) (dom m) \<subseteq> T" using q(2) i by simp
      then have "card (insert (snd c) (dom m)) \<le> card T" using T(1) by (rule card_mono [rotated])
      moreover have "finite (dom m)" using q(2) T(1) by (rule finite_subset)
      ultimately show ?thesis using that T(2) by (simp add: domIff)
    qed
    obtain ok2 Q2 m' yss k where r: "inner_enqueue True (fst c) (snd c) x Q = Some (ok2, Q2)"
      "queue_rep Q2 m' (if ok2 then yss[k := yss ! k @ [x]] else yss)"
      "m' = m \<and> yss = xss \<or> m (snd c) = None \<and> m' = m(snd c \<mapsto> length xss) \<and> yss = xss @ [[]]" "ok2 \<longrightarrow> k < length yss"
      using single.on_own_producer_rep [OF q(1) False small, of True "m_index (fst c)" "m_block (fst c)" "m_stale (fst c)" x "fst c"]
      unfolding inner_enqueue_def by blast
    have eq: "okay = ok2" "Q' = Q2" using e r(1) by (simp_all add: cqueue_enqueue_def en)
    have "dom m' = dom m \<or> dom m' = insert (snd c) (dom m)" using r(3) by (metis dom_fun_upd option.distinct(1))
    then have "dom m' \<subseteq> T" using q(2) i by (metis insert_subset)
    then have "cqueue_ok T Q'" using r(2) T eq unfolding cqueue_ok_def by blast
    moreover have "(\<Sum>xs \<leftarrow> yss. mset xs) = queue_contents Q" using r(3) queue_rep_contents [OF q(1)] by auto
    ultimately show ?thesis
      using queue_rep_contents [OF r(2)] sum_list_update_mset [of k yss "yss ! k @ [x]"] r(4) eq by (cases ok2) auto
  qed
qed

lemma cqueue_dequeue_law:
  assumes ok: "cqueue_ok T Q" and d: "cqueue_dequeue Q = (f, Q')"
  shows "cqueue_ok T Q' \<and> queue_contents Q = (case f of None \<Rightarrow> queue_contents Q' | Some x \<Rightarrow> add_mset x (queue_contents Q'))"
proof -
  obtain m xss where q: "queue_rep Q m xss" "dom m \<subseteq> T" and T: "finite T" "card T < 2 ^ 60"
    using ok by (auto simp: cqueue_ok_def)
  obtain f2 Q2 where r: "try_dequeue Q = Some (f2, Q2)"
    "case f2 of None \<Rightarrow> Q2 = Q \<and> (\<forall>xs \<in> set xss. xs = [])
     | Some x \<Rightarrow> \<exists>k xs. k < length xss \<and> xss ! k = x # xs \<and> queue_rep Q2 m (xss[k := xs]) \<and> hash_count Q2 = hash_count Q \<and>
         (all_alive Q \<longrightarrow> all_alive Q2)"
    using try_dequeue_rep [OF q(1)] by blast
  have eq: "f = f2" "Q' = Q2" using d r(1) by (simp_all add: cqueue_dequeue_def)
  show ?thesis
  proof (cases f2)
    case (Some x)
    then obtain k xs where k: "k < length xss" "xss ! k = x # xs" "queue_rep Q2 m (xss[k := xs])" using r(2) by auto
    then have "cqueue_ok T Q'" using q(2) T eq unfolding cqueue_ok_def by blast
    then show ?thesis
      using queue_rep_contents [OF q(1)] queue_rep_contents [OF k(3)] sum_list_update_mset [OF k(1), of xs] k(2) eq Some by simp
  qed (use ok r(2) eq in simp)
qed

text \<open>\<open>T\<close> are the threads that handle connections.\<close>

interpretation cqueue: request_queue queue_contents cqueue_enqueue cqueue_dequeue "cqueue_ok T" "\<lambda>c. snd c \<in> T" for T
  by unfold_locales (rule cqueue_enqueue_law cqueue_dequeue_law; assumption)+

section \<open>Properties\<close>

text \<open>With memory available every request is accepted.\<close>

lemma cqueue_accepts:
  assumes "queue_state Q tq" "all_alive Q" "unat (hash_count Q) + length es < 2 ^ 60" "\<forall>i. length (tq i) + length es + 32 < 2 ^ 63"
    "\<forall>e i r. Some ((e, i), r) \<in> set es \<longrightarrow> e = plenty \<and> i \<noteq> invalid_thread_id" "cqueue.serve es (Q, d) = (acc, Q', d')"
  shows "acc = map snd (map the (filter (\<lambda>x. x \<noteq> None) es))"
  using assms
proof (induction es "(Q, d)" arbitrary: Q d tq acc rule: cqueue.serve.induct)
  case (2 c r es Q d)
  have i: "snd c \<noteq> invalid_thread_id" "fst c = plenty" using 2(6) by (cases c; auto)+
  obtain okay Q1 where e: "inner_enqueue True plenty (snd c) r Q = Some (okay, Q1)"
    "queue_state Q1 (if okay then tq(snd c := tq (snd c) @ [r]) else tq)" "unat (hash_count Q1) \<le> unat (hash_count Q) + 1"
    "all_alive Q \<and> m_first_index plenty \<longrightarrow> all_alive Q1 \<and> (True \<and> m_hash plenty \<and> m_producer plenty \<and> m_index plenty \<and>
      m_block plenty \<and> (\<forall>i. length (tq i) + 32 < 2 ^ 63) \<longrightarrow> okay)"
    using inner_enqueue_state [OF 2(2) i(1), of True plenty r] 2(4) by auto
  have "\<forall>i. length (tq i) + 32 < 2 ^ 63" using 2(5) by (meson add_lessD1 add_less_cancel_right le_add1 le_less_trans add_right_mono)
  then have ok: okay "all_alive Q1" using e(4) 2(3) by (simp_all add: plenty_def)
  have en: "cqueue_enqueue c r Q = (True, Q1)" using e(1) ok i(2) by (simp add: cqueue_enqueue_def enqueue_inner)
  obtain acc1 where s: "cqueue.serve es (Q1, d) = (acc1, Q', d')" "acc = r # acc1"
    using 2(7) en by (auto split: prod.splits)
  have q1: "queue_state Q1 (tq(snd c := tq (snd c) @ [r]))" using e(2) ok by simp
  have n1: "unat (hash_count Q1) + length es < 2 ^ 60" using e(3) 2(4) by simp
  have all: "\<forall>e i r. Some ((e, i), r) \<in> set es \<longrightarrow> e = plenty \<and> i \<noteq> invalid_thread_id" using 2(6) by simp
  have l1: "\<forall>i. length ((tq(snd c := tq (snd c) @ [r])) i) + length es + 32 < 2 ^ 63"
  proof
    fix i show "length ((tq(snd c := tq (snd c) @ [r])) i) + length es + 32 < 2 ^ 63" using spec [OF 2(5), of i] by auto
  qed
  have "acc1 = map snd (map the (filter (\<lambda>x. x \<noteq> None) es))"
    by (rule 2(1) [OF en [symmetric] q1 ok(2) n1 l1 all s(1)])
  then show ?case using s(2) by simp
next
  case (3 es Q d)
  obtain f Q1 where t: "try_dequeue Q = Some (f, Q1)"
    "case f of None \<Rightarrow> Q1 = Q \<and> (\<forall>i. tq i = [])
     | Some x \<Rightarrow> \<exists>i xs. tq i = x # xs \<and> queue_state Q1 (tq(i := xs)) \<and> hash_count Q1 = hash_count Q \<and>
         (all_alive Q \<longrightarrow> all_alive Q1)"
    using try_dequeue_state [OF 3(2)] by blast
  have de: "cqueue_dequeue Q = (f, Q1)" using t(1) by (simp add: cqueue_dequeue_def)
  have s: "cqueue.serve es (Q1, dist_iteration f d) = (acc, Q', d')" using 3(7) de by simp
  obtain tq1 where q: "queue_state Q1 tq1" "all_alive Q1" "hash_count Q1 = hash_count Q" "\<forall>i. length (tq1 i) \<le> length (tq i)"
  proof (cases f)
    case None
    then have "Q1 = Q" using t(2) by simp
    then show ?thesis using that [of tq] 3(2,3) by simp
  next
    case (Some x)
    then obtain i xs where "tq i = x # xs" "queue_state Q1 (tq(i := xs))" "hash_count Q1 = hash_count Q" "all_alive Q1"
      using t(2) 3(3) by auto
    then show ?thesis using that [of "tq(i := xs)"] by auto
  qed
  have "unat (hash_count Q1) + length es < 2 ^ 60" using q(3) 3(4) by simp
  moreover have "\<forall>i. length (tq1 i) + length es + 32 < 2 ^ 63"
  proof
    fix i show "length (tq1 i) + length es + 32 < 2 ^ 63" using spec [OF q(4), of i] spec [OF 3(5), of i] by simp
  qed
  ultimately show ?case using 3(1) [OF de [symmetric] q(1,2) _ _ _ s] 3(6) by auto
qed simp

text \<open>C22: the distribution loop on the concurrent queue: however the threads' calls and its
  iterations are ordered, every accepted request is, once, still in the queue, among the
  collected ones or in a posted batch; and with memory available every request is accepted.\<close>

theorem accepted_requests_served:
  assumes "cqueue.serve es (ConcurrentQueue mem capacity, dist_start stale) = (acc, Q, d)" "stale \<noteq> []"
    and "finite T" "card T < 2 ^ 60" "\<forall>e i r. Some ((e, i), r) \<in> set es \<longrightarrow> i \<in> T"
  shows "mset (dist_taken d) + queue_contents Q = mset acc \<and>
    (length es < 2 ^ 59 \<and> (\<forall>e i r. Some ((e, i), r) \<in> set es \<longrightarrow> e = plenty \<and> i \<noteq> invalid_thread_id) \<longrightarrow>
      acc = map snd (map the (filter (\<lambda>x. x \<noteq> None) es)))"
proof -
  let ?Q = "ConcurrentQueue mem capacity :: calc_deadline_req cqueue"
  have r: "queue_rep ?Q (\<lambda>i. None) []" by (rule ConcurrentQueue_rep)
  then have "cqueue_ok T ?Q" using assms(3,4) unfolding cqueue_ok_def by fastforce
  moreover have "\<forall>x \<in> set es. case x of None \<Rightarrow> True | Some (c, r) \<Rightarrow> snd c \<in> T" using assms(5) by (fastforce split: option.split)
  moreover have "length es < 2 ^ 59 \<and> (\<forall>e i r. Some ((e, i), r) \<in> set es \<longrightarrow> e = plenty \<and> i \<noteq> invalid_thread_id) \<longrightarrow>
      acc = map snd (map the (filter (\<lambda>x. x \<noteq> None) es))"
    using cqueue_accepts [OF ConcurrentQueue_state _ _ _ _ assms(1)] by (auto simp: new_queue_count)
  ultimately show ?thesis
    using cqueue.serve_conserves [OF _ _ _ assms(1), of T "length stale"] dist_start_ok [OF assms(2)] queue_rep_contents [OF r]
    by simp
qed

theorem accepted_requests_served_witness:
  "\<exists>acc Q d. cqueue.serve [Some ((plenty, 4096), sample_req 1), None, Some ((plenty, 8192), sample_req 2), None]
      (ConcurrentQueue True 192, dist_start (replicate 4 (sample_req 0))) = (acc, Q, d) \<and>
    acc = [sample_req 1, sample_req 2] \<and> mset (dist_taken d) + queue_contents Q = {#sample_req 1, sample_req 2#}"
proof -
  let ?es = "[Some ((plenty, 4096 :: u64), sample_req 1), None, Some ((plenty, 8192), sample_req 2), None]"
  obtain acc Q d where s: "cqueue.serve ?es (ConcurrentQueue True 192, dist_start (replicate 4 (sample_req 0))) = (acc, Q, d)"
    by (metis prod_cases3)
  have "mset (dist_taken d) + queue_contents Q = mset acc \<and>
    (length ?es < 2 ^ 59 \<and> (\<forall>e i r. Some ((e, i), r) \<in> set ?es \<longrightarrow> e = plenty \<and> i \<noteq> invalid_thread_id) \<longrightarrow>
      acc = map snd (map the (filter (\<lambda>x. x \<noteq> None) ?es)))"
    by (rule accepted_requests_served [OF s, of "{4096, 8192}"]) auto
  then show ?thesis using s by (auto simp: invalid_thread_id_def)
qed

end
