(* ===== verification/Queue_Claims.thy ===== *)
theory Queue_Claims
  imports Implicit_Producer
begin

text \<open>
  \<open>concurrentqueue.h\<close>, consumers that overlap: any number of threads run \<open>dequeue\<close> on one
  implicit producer while its thread goes on storing elements. Each access to a shared counter
  is a step. No element is handed out twice or before it is stored, and a block is given back
  only after its thirty-two elements were destroyed.
\<close>

section \<open>State\<close>

text \<open>Where a consumer stands in \<open>dequeue\<close>, with its local variables; the second component of
  \<open>C_index\<close> (a ghost) is the number of elements whose construction happens before. \<open>C_abort\<close> is
  a failed \<open>assert\<close> or the read of an element whose construction does not happen before.\<close>

datatype consumer =
    C_idle
  | C_tail nat
  | C_over nat nat
  | C_try nat
  | C_ticket nat nat
  | C_claim nat nat nat
  | C_miss nat
  | C_index nat nat
  | C_moved nat
  | C_free nat
  | C_return bool
  | C_abort

text \<open>A counter is given by the number of its increments: its value is \<open>counter_value\<close> of that number.
  The blocks are numbered by the elements they take; \<open>emptied\<close> is the counter of each. Ghosts:
  the tickets (\<open>myDequeueCount\<close>) that claimed an element, those that were given back, the elements
  whose construction happens before the last claim, and the elements destroyed.\<close>

definition counter_value :: "nat \<Rightarrow> u64" where "counter_value n = of_nat n"

record claims =
  tail_count :: nat
  opt_count :: nat
  over_count :: nat
  head_count :: nat
  consumers :: "nat \<Rightarrow> consumer"
  emptied :: "nat \<Rightarrow> nat"
  freed :: "nat list"
  claimed :: "nat set"
  failed :: "nat set"
  seen :: nat
  destroyed :: "nat set"

definition claims_start :: claims where
  "claims_start = \<lparr>tail_count = 0, opt_count = 0, over_count = 0, head_count = 0, consumers = (\<lambda>i. C_idle),
     emptied = (\<lambda>b. 0), freed = [], claimed = {}, failed = {}, seen = 0, destroyed = {}\<rparr>"

section \<open>Steps\<close>

definition move :: "nat \<Rightarrow> consumer \<Rightarrow> claims \<Rightarrow> claims" where
  [simp]: "move i c s = s\<lparr>consumers := (consumers s)(i := c)\<rparr>"

text \<open>\<open>fetch_add\<close> on the optimistic count, and the assertion after it.\<close>

definition take_ticket :: "nat \<Rightarrow> nat \<Rightarrow> claims \<Rightarrow> claims" where
  "take_ticket i v s =
     (let m = opt_count s in
      move i (if counter_value v \<le> counter_value m then C_ticket v m else C_abort) (s\<lparr>opt_count := m + 1\<rparr>))"

definition give_back :: "nat \<Rightarrow> nat \<Rightarrow> claims \<Rightarrow> claims" where
  "give_back i m s = move i (C_return False) (s\<lparr>over_count := over_count s + 1, failed := insert m (failed s)\<rparr>)"

text \<open>\<open>fetch_add\<close> on the head index; it acquires what the earlier claims released.\<close>

definition claim_index :: "nat \<Rightarrow> nat \<Rightarrow> nat \<Rightarrow> claims \<Rightarrow> claims" where
  "claim_index i m t s =
     (let n = head_count s; v = max (seen s) t in
      move i (C_index n v) (s\<lparr>head_count := n + 1, claimed := insert m (claimed s), seen := v\<rparr>))"

definition destroy_element :: "nat \<Rightarrow> nat \<Rightarrow> nat \<Rightarrow> claims \<Rightarrow> claims" where
  "destroy_element i n v s = move i (if n < v then C_moved n else C_abort) s"

text \<open>\<open>set_empty\<close> on the block of element \<open>n\<close>.\<close>

definition count_empty :: "nat \<Rightarrow> nat \<Rightarrow> claims \<Rightarrow> claims" where
  "count_empty i n s =
     (let b = n div 32; prevVal = counter_value (emptied s b) in
      move i (if \<not> prevVal < BLOCK_SIZE then C_abort else if prevVal = BLOCK_SIZE - 1 then C_free b else C_return True)
        (s\<lparr>emptied := (emptied s)(b := emptied s b + 1), destroyed := insert n (destroyed s)\<rparr>))"

definition free_block :: "nat \<Rightarrow> nat \<Rightarrow> claims \<Rightarrow> claims" where
  "free_block i b s = move i (C_return True) (s\<lparr>freed := freed s @ [b]\<rparr>)"

text \<open>A load yields any value the counter had so far (the loads are relaxed, or acquire loads
  that need not see the latest store); \<open>fetch_add\<close> acts on the latest value. The fence keeps the
  load of the overcommit before the ticket is taken. The order of the steps says nothing about
  what the destruction of an element happens before: \<open>set_empty\<close> only releases, so the consumer
  that frees a block does not acquire what the other consumers of the block did.\<close>

inductive claim_step :: "claims \<Rightarrow> claims \<Rightarrow> bool" where
  cs_publish: "claim_step s (s\<lparr>tail_count := tail_count s + 1\<rparr>)"
| cs_tail: "consumers s i = C_idle \<Longrightarrow> t \<le> tail_count s \<Longrightarrow> claim_step s (move i (C_tail t) s)"
| cs_over: "consumers s i = C_tail t \<Longrightarrow> v \<le> over_count s \<Longrightarrow> claim_step s (move i (C_over t v) s)"
| cs_check: "consumers s i = C_over t v \<Longrightarrow> d \<le> opt_count s \<Longrightarrow>
    claim_step s (move i (if circular_less_than (counter_value d - counter_value v) (counter_value t) then C_try v else C_return False) s)"
| cs_ticket: "consumers s i = C_try v \<Longrightarrow> claim_step s (take_ticket i v s)"
| cs_recheck: "consumers s i = C_ticket v m \<Longrightarrow> t \<le> tail_count s \<Longrightarrow>
    claim_step s (move i (if circular_less_than (counter_value m - counter_value v) (counter_value t) then C_claim v m t else C_miss m) s)"
| cs_miss: "consumers s i = C_miss m \<Longrightarrow> claim_step s (give_back i m s)"
| cs_claim: "consumers s i = C_claim v m t \<Longrightarrow> claim_step s (claim_index i m t s)"
| cs_destroy: "consumers s i = C_index n v \<Longrightarrow> claim_step s (destroy_element i n v s)"
| cs_empty: "consumers s i = C_moved n \<Longrightarrow> claim_step s (count_empty i n s)"
| cs_free: "consumers s i = C_free b \<Longrightarrow> claim_step s (free_block i b s)"
| cs_return: "consumers s i = C_return r \<Longrightarrow> claim_step s (move i C_idle s)"

section \<open>Arithmetic of the counters\<close>

text \<open>If every claim saw enough elements for its ticket, then there are at most as many claims as
  elements seen: the tickets up to the largest are claims or were given back.\<close>

lemma card_claims:
  fixes K F :: "nat set"
  assumes "finite K" "K \<inter> F = {}" "\<forall>n \<in> K. n + 1 \<le> S + card {f \<in> F. f < n}"
  shows "card K \<le> S"
proof (cases "K = {}")
  case False
  let ?M = "Max K" and ?G = "{f \<in> F. f < Max K}"
  have "K \<union> ?G \<subseteq> {..?M}" using assms(1) by auto
  then have "card (K \<union> ?G) \<le> ?M + 1" using card_mono [of "{..?M}" "K \<union> ?G"] by simp
  moreover have "card (K \<union> ?G) = card K + card ?G"
    using assms(1,2) by (intro card_Un_disjoint) (auto intro: finite_subset [of _ "{..<?M}"])
  moreover have "?M + 1 \<le> S + card ?G" using assms(1,3) False by simp
  ultimately show ?thesis by simp
qed simp

lemma value_diff: "v \<le> m \<Longrightarrow> counter_value m - counter_value v = counter_value (m - v)"
  by (simp add: counter_value_def of_nat_diff)

lemma unat_value: "n < 2 ^ 64 \<Longrightarrow> unat (counter_value n) = n"
  by (simp add: counter_value_def unat_of_nat take_bit_nat_eq_self)

lemma circular_value:
  assumes "a < 2 ^ 63" "b < 2 ^ 63"
  shows "circular_less_than (counter_value a) (counter_value b) \<longleftrightarrow> a < b"
proof (cases "a < b")
  case True
  then have "counter_value b = counter_value a + of_nat (b - a)" by (simp add: counter_value_def of_nat_diff)
  then show ?thesis using True assms circular_less_than_iff [of "b - a" "counter_value a"] by simp
next
  case False
  then have "unat (counter_value a - counter_value b) = a - b" using assms by (simp add: value_diff unat_value)
  then show ?thesis using False assms(1) by (simp add: circular_less_than_def word_less_nat_alt)
qed

section \<open>Invariant\<close>

text \<open>What a consumer holds: a ticket, an element, or a block to be freed. No two consumers hold
  the same one.\<close>

datatype holding = Ticket nat | Element nat | Block nat

fun held :: "consumer \<Rightarrow> holding option" where
  "held (C_ticket v m) = Some (Ticket m)"
| "held (C_claim v m t) = Some (Ticket m)"
| "held (C_miss m) = Some (Ticket m)"
| "held (C_index n v) = Some (Element n)"
| "held (C_moved n) = Some (Element n)"
| "held (C_free b) = Some (Block b)"
| "held _ = None"

definition below :: "claims \<Rightarrow> nat \<Rightarrow> nat" where
  "below s m = card {f \<in> failed s. f < m}"

definition gone :: "claims \<Rightarrow> nat \<Rightarrow> nat set" where
  "gone s b = {n \<in> destroyed s. n div 32 = b}"

fun valid_holding :: "claims \<Rightarrow> holding \<Rightarrow> bool" where
  "valid_holding s (Ticket m) \<longleftrightarrow> m < opt_count s \<and> m \<notin> claimed s \<and> m \<notin> failed s"
| "valid_holding s (Element n) \<longleftrightarrow> n < head_count s \<and> n \<notin> destroyed s"
| "valid_holding s (Block b) \<longleftrightarrow> b \<notin> set (freed s) \<and> card (gone s b) = 32"

fun locals_ok :: "claims \<Rightarrow> consumer \<Rightarrow> bool" where
  "locals_ok s (C_over t v) \<longleftrightarrow> v \<le> over_count s"
| "locals_ok s (C_try v) \<longleftrightarrow> v \<le> over_count s"
| "locals_ok s (C_ticket v m) \<longleftrightarrow> v \<le> below s m"
| "locals_ok s (C_claim v m t) \<longleftrightarrow> m + 1 \<le> t + below s m \<and> t \<le> tail_count s"
| "locals_ok s (C_index n v) \<longleftrightarrow> n < v"
| "locals_ok s C_abort \<longleftrightarrow> False"
| "locals_ok s _ \<longleftrightarrow> True"

definition claims_ok :: "claims \<Rightarrow> bool" where
  "claims_ok s \<longleftrightarrow> claimed s \<union> failed s \<subseteq> {..<opt_count s} \<and> claimed s \<inter> failed s = {} \<and>
     card (claimed s) = head_count s \<and> card (failed s) = over_count s \<and>
     (\<forall>n \<in> claimed s. n + 1 \<le> seen s + below s n) \<and> seen s \<le> tail_count s"

definition blocks_ok :: "claims \<Rightarrow> bool" where
  "blocks_ok s \<longleftrightarrow> destroyed s \<subseteq> {..<head_count s} \<and> (\<forall>b. emptied s b = card (gone s b)) \<and> distinct (freed s) \<and>
     (\<forall>b \<in> set (freed s). card (gone s b) = 32)"

definition tickets_ok :: "claims \<Rightarrow> bool" where
  "tickets_ok s \<longleftrightarrow> (\<forall>m < opt_count s. m \<in> claimed s \<or> m \<in> failed s \<or> (\<exists>i. held (consumers s i) = Some (Ticket m)))"

definition consumers_ok :: "claims \<Rightarrow> bool" where
  "consumers_ok s \<longleftrightarrow> (\<forall>i. locals_ok s (consumers s i) \<and> (\<forall>h. held (consumers s i) = Some h \<longrightarrow> valid_holding s h)) \<and>
     (\<forall>i j h. held (consumers s i) = Some h \<longrightarrow> held (consumers s j) = Some h \<longrightarrow> i = j)"

lemma views_move [simp]: "below (s\<lparr>consumers := f\<rparr>) = below s" "gone (s\<lparr>consumers := f\<rparr>) = gone s"
  by (simp_all add: below_def gone_def fun_eq_iff)

text \<open>One consumer moves, the others keep what they know and hold.\<close>

lemma consumers_moved:
  assumes ok: "consumers_ok s" and t: "consumers t = (consumers s)(i := c)"
    and mono: "\<And>d. locals_ok s d \<Longrightarrow> locals_ok t d"
    and keep: "\<And>h. valid_holding s h \<Longrightarrow> held (consumers s i) \<noteq> Some h \<Longrightarrow> valid_holding t h"
    and here: "locals_ok t c" "\<And>h. held c = Some h \<Longrightarrow> valid_holding t h"
    and new: "\<And>h. held c = Some h \<Longrightarrow> held (consumers s i) = Some h \<or> \<not> valid_holding s h"
  shows "consumers_ok t"
proof -
  have valid: "held (consumers s j) = Some h \<Longrightarrow> valid_holding s h" for j h
    using ok by (simp add: consumers_ok_def)
  have unique: "held (consumers s j) = Some h \<Longrightarrow> held (consumers s k) = Some h \<Longrightarrow> j = k" for j k h
    using ok unfolding consumers_ok_def by metis
  have at: "consumers t i = c" "j \<noteq> i \<Longrightarrow> consumers t j = consumers s j" for j by (simp_all add: t)
  have "held (consumers t j) = Some h \<Longrightarrow> valid_holding t h" for j h
    using here(2) keep valid unique [of j h i] at by (metis (no_types))
  moreover have "locals_ok t (consumers t j)" for j
    using ok here(1) mono at by (metis consumers_ok_def)
  moreover have "held (consumers t j) = Some h \<Longrightarrow> held (consumers t k) = Some h \<Longrightarrow> j = k" for j k h
    using valid [of _ h] unique [of _ h] new [of h] at by (metis (no_types))
  ultimately show ?thesis unfolding consumers_ok_def by (intro conjI allI impI) assumption+
qed

definition claim_inv :: "claims \<Rightarrow> bool" where
  "claim_inv s \<longleftrightarrow> claims_ok s \<and> blocks_ok s \<and> tickets_ok s \<and> consumers_ok s"

lemma claim_inv_start: "claim_inv claims_start"
  by (simp add: claim_inv_def claims_ok_def blocks_ok_def tickets_ok_def consumers_ok_def claims_start_def below_def gone_def)

lemma claim_inv_at:
  "claim_inv s \<Longrightarrow> locals_ok s (consumers s i)"
  "claim_inv s \<Longrightarrow> held (consumers s i) = Some h \<Longrightarrow> valid_holding s h"
  by (simp_all add: claim_inv_def consumers_ok_def)

lemma claim_inv_finite: "claim_inv s \<Longrightarrow> finite (claimed s) \<and> finite (failed s) \<and> finite (destroyed s)"
  by (auto simp: claim_inv_def claims_ok_def blocks_ok_def intro: finite_subset [OF _ finite_lessThan])

lemma below_mono: "finite (failed t) \<Longrightarrow> failed s \<subseteq> failed t \<Longrightarrow> below s m \<le> below t m"
  by (auto simp: below_def intro!: card_mono)

lemma tickets_moved:
  assumes "tickets_ok s" "consumers t = (consumers s)(i := c)" "opt_count t = opt_count s"
    and "claimed s \<subseteq> claimed t" "failed s \<subseteq> failed t"
    and "\<And>m. held (consumers s i) = Some (Ticket m) \<Longrightarrow> m \<in> claimed t \<or> m \<in> failed t \<or> held c = Some (Ticket m)"
  shows "tickets_ok t"
  unfolding tickets_ok_def
proof (intro allI impI)
  fix m assume "m < opt_count t"
  then consider "m \<in> claimed s" | "m \<in> failed s" | j where "held (consumers s j) = Some (Ticket m)"
    using assms(1,3) unfolding tickets_ok_def by metis
  then show "m \<in> claimed t \<or> m \<in> failed t \<or> (\<exists>j. held (consumers t j) = Some (Ticket m))"
  proof cases
    case (3 j)
    then show ?thesis using assms(2,6) by (cases "j = i") (metis fun_upd_same, metis fun_upd_other)
  qed (use assms(4,5) in auto)
qed

text \<open>A consumer moves on what it knows.\<close>

lemma inv_move:
  assumes "claim_inv s" "locals_ok s c" "held c = held (consumers s i)"
  shows "claim_inv (move i c s)"
proof -
  have frame: "locals_ok (s\<lparr>consumers := f\<rparr>) d = locals_ok s d" "valid_holding (s\<lparr>consumers := f\<rparr>) h = valid_holding s h"
    for f d h
    by (cases d; simp) (cases h; simp)
  have "consumers_ok s" using assms(1) by (simp add: claim_inv_def)
  then have "consumers_ok (move i c s)"
    by (rule consumers_moved [where i = i and c = c])
      (use assms claim_inv_at(2) [OF assms(1), of i] in \<open>simp_all add: frame\<close>)
  moreover have "tickets_ok (move i c s)"
    by (rule tickets_moved [of s _ i c]) (use assms in \<open>simp_all add: claim_inv_def\<close>)
  ultimately show ?thesis using assms(1) by (simp add: claim_inv_def claims_ok_def blocks_ok_def below_def gone_def)
qed

lemma inv_publish:
  assumes "claim_inv s"
  shows "claim_inv (s\<lparr>tail_count := tail_count s + 1\<rparr>)" (is "claim_inv ?t")
proof -
  have "locals_ok s d \<Longrightarrow> locals_ok ?t d" "valid_holding s h \<Longrightarrow> valid_holding ?t h" for d h
    by (cases d; simp add: below_def) (cases h; simp add: gone_def)
  moreover have "consumers ?t = consumers s" by simp
  ultimately have "consumers_ok ?t" using assms unfolding claim_inv_def consumers_ok_def by metis
  then show ?thesis using assms
    by (simp add: claim_inv_def claims_ok_def blocks_ok_def tickets_ok_def below_def gone_def)
qed

lemma inv_ticket:
  assumes inv: "claim_inv s" and at: "consumers s i = C_try v" and bound: "opt_count s < 2 ^ 63"
  shows "claim_inv (take_ticket i v s)"
proof -
  let ?t = "take_ticket i v s" and ?m = "opt_count s"
  have v: "v \<le> over_count s" using claim_inv_at(1) [OF inv, of i] at by simp
  have F: "card (failed s) = over_count s" "failed s \<subseteq> {..<?m}" "claimed s \<subseteq> {..<?m}"
    using inv by (simp_all add: claim_inv_def claims_ok_def)
  have "over_count s \<le> ?m" using F(1) card_mono [OF _ F(2)] by simp
  then have vm: "counter_value v \<le> counter_value ?m" using v bound by (simp add: word_le_nat_alt unat_value)
  have "{f \<in> failed s. f < ?m} = failed s" using F(2) by auto
  then have b: "below s ?m = over_count s" using F(1) by (simp add: below_def)
  have t: "?t = move i (C_ticket v ?m) (s\<lparr>opt_count := ?m + 1\<rparr>)" using vm by (simp add: take_ticket_def Let_def)
  have "below ?t = below s" "gone ?t = gone s" by (simp_all add: t below_def gone_def fun_eq_iff)
  note frame = this
  have "consumers_ok ?t"
  proof (rule consumers_moved [where i = i and c = "C_ticket v ?m"])
    show "consumers_ok s" using inv by (simp add: claim_inv_def)
    show "consumers ?t = (consumers s)(i := C_ticket v ?m)" by (simp add: t)
    show "locals_ok s d \<Longrightarrow> locals_ok ?t d" for d using frame(1) by (cases d) (simp_all add: t)
    show "valid_holding s h \<Longrightarrow> valid_holding ?t h" for h using frame(2) by (cases h) (simp_all add: t)
    show "locals_ok ?t (C_ticket v ?m)" using frame v b by simp
    show "valid_holding ?t h" if "held (C_ticket v ?m) = Some h" for h using that F by (auto simp: t)
    show "held (consumers s i) = Some h \<or> \<not> valid_holding s h" if "held (C_ticket v ?m) = Some h" for h using that by auto
  qed
  moreover have "tickets_ok ?t"
    using inv at by (auto simp: claim_inv_def tickets_ok_def t less_Suc_eq) (metis held.simps(10) option.distinct(1))
  moreover have "claims_ok ?t" using inv frame by (auto simp: claim_inv_def claims_ok_def t less_Suc_eq)
  moreover have "blocks_ok ?t" using inv frame by (simp add: claim_inv_def blocks_ok_def t)
  ultimately show ?thesis by (simp add: claim_inv_def)
qed

lemma inv_give_back:
  assumes inv: "claim_inv s" and at: "consumers s i = C_miss m"
  shows "claim_inv (give_back i m s)"
proof -
  let ?t = "give_back i m s"
  have m: "m < opt_count s" "m \<notin> claimed s" "m \<notin> failed s" using claim_inv_at(2) [OF inv, of i "Ticket m"] at by simp_all
  have ok: "claims_ok s" "finite (failed s)" using inv claim_inv_finite [OF inv] by (simp_all add: claim_inv_def)
  have b: "below s n \<le> below ?t n" for n by (rule below_mono) (use ok(2) in \<open>auto simp: give_back_def\<close>)
  have g: "gone ?t = gone s" by (simp add: gone_def give_back_def fun_eq_iff)
  have "consumers_ok ?t"
  proof (rule consumers_moved [where i = i and c = "C_return False"])
    show "consumers_ok s" using inv by (simp add: claim_inv_def)
    show "consumers ?t = (consumers s)(i := C_return False)" by (simp add: give_back_def)
    show "locals_ok s d \<Longrightarrow> locals_ok ?t d" for d
      using b by (cases d) (auto simp: give_back_def intro: order_trans le_trans [OF _ add_left_mono])
    show "valid_holding s h \<Longrightarrow> held (consumers s i) \<noteq> Some h \<Longrightarrow> valid_holding ?t h" for h
      using g at by (cases h) (auto simp: give_back_def)
  qed simp_all
  moreover have "tickets_ok ?t"
    by (rule tickets_moved [of s _ i]) (use inv at in \<open>auto simp: claim_inv_def give_back_def\<close>)
  moreover have "claims_ok ?t"
  proof -
    have "n + 1 \<le> seen s + below ?t n" if "n \<in> claimed s" for n
      using ok(1) that b [of n] by (auto simp: claims_ok_def intro: order_trans)
    then show ?thesis using ok m by (auto simp: claims_ok_def give_back_def)
  qed
  moreover have "blocks_ok ?t" using inv g by (simp add: claim_inv_def blocks_ok_def give_back_def)
  ultimately show ?thesis by (simp add: claim_inv_def)
qed

lemma inv_claim:
  assumes inv: "claim_inv s" and at: "consumers s i = C_claim v m t"
  shows "claim_inv (claim_index i m t s)"
proof -
  let ?t = "claim_index i m t s" and ?v = "max (seen s) t"
  have m: "m < opt_count s" "m \<notin> claimed s" "m \<notin> failed s" using claim_inv_at(2) [OF inv, of i "Ticket m"] at by simp_all
  have mt: "m + 1 \<le> t + below s m" "t \<le> tail_count s" using claim_inv_at(1) [OF inv, of i] at by simp_all
  have ok: "claims_ok s" "finite (claimed s)" using inv claim_inv_finite [OF inv] by (simp_all add: claim_inv_def)
  have frame: "below ?t = below s" "gone ?t = gone s" by (simp_all add: claim_index_def Let_def below_def gone_def fun_eq_iff)
  have all: "\<forall>n \<in> insert m (claimed s). n + 1 \<le> ?v + below s n" using ok(1) mt by (fastforce simp: claims_ok_def)
  have "card (insert m (claimed s)) \<le> ?v"
    by (rule card_claims [where F = "failed s"]) (use ok m all in \<open>auto simp: claims_ok_def below_def\<close>)
  then have n: "head_count s < ?v" using ok m(2) by (simp add: claims_ok_def)
  have "consumers_ok ?t"
  proof (rule consumers_moved [where i = i and c = "C_index (head_count s) ?v"])
    show "consumers_ok s" using inv by (simp add: claim_inv_def)
    show "consumers ?t = (consumers s)(i := C_index (head_count s) ?v)" by (simp add: claim_index_def Let_def)
    show "locals_ok s d \<Longrightarrow> locals_ok ?t d" for d using frame by (cases d) (simp_all add: claim_index_def Let_def)
    show "valid_holding s h \<Longrightarrow> held (consumers s i) \<noteq> Some h \<Longrightarrow> valid_holding ?t h" for h
      using frame at by (cases h) (auto simp: claim_index_def Let_def)
    show "locals_ok ?t (C_index (head_count s) ?v)" using n by simp
    show "valid_holding ?t h" if "held (C_index (head_count s) ?v) = Some h" for h
      using that inv by (auto simp: claim_index_def Let_def claim_inv_def blocks_ok_def)
    show "held (consumers s i) = Some h \<or> \<not> valid_holding s h" if "held (C_index (head_count s) ?v) = Some h" for h
      using that by auto
  qed
  moreover have "tickets_ok ?t"
    by (rule tickets_moved [of s _ i]) (use inv at in \<open>auto simp: claim_inv_def claim_index_def Let_def\<close>)
  moreover have "claims_ok ?t"
    using ok m mt(2) all frame(1) by (auto simp: claims_ok_def claim_index_def Let_def)
  moreover have "blocks_ok ?t"
    using inv frame(2) by (auto simp: claim_inv_def blocks_ok_def claim_index_def Let_def)
  ultimately show ?thesis by (simp add: claim_inv_def)
qed

lemma emptied_bound: "claim_inv s \<Longrightarrow> n \<notin> destroyed s \<Longrightarrow> emptied s (n div 32) < 32"
proof -
  assume inv: "claim_inv s" and n: "n \<notin> destroyed s"
  let ?B = "{n div 32 * 32..<n div 32 * 32 + 32}"
  have "gone s (n div 32) \<subseteq> ?B - {n}" using n by (auto simp: gone_def)
  then have "card (gone s (n div 32)) \<le> card (?B - {n})" by (intro card_mono) simp_all
  also have "n \<in> ?B" by (simp; presburger)
  then have "card (?B - {n}) = 31" by simp
  finally show ?thesis using inv by (simp add: claim_inv_def blocks_ok_def)
qed

lemma inv_empty:
  assumes inv: "claim_inv s" and at: "consumers s i = C_moved n"
  shows "claim_inv (count_empty i n s)"
proof -
  let ?b = "n div 32"
  let ?c = "if emptied s ?b = 31 then C_free ?b else C_return True"
  let ?t = "move i ?c (s\<lparr>emptied := (emptied s)(?b := emptied s ?b + 1), destroyed := insert n (destroyed s)\<rparr>)"
  have n: "n < head_count s" "n \<notin> destroyed s" using claim_inv_at(2) [OF inv, of i "Element n"] at by simp_all
  have e: "emptied s ?b < 32" by (rule emptied_bound [OF inv n(2)])
  then have "unat (counter_value (emptied s ?b)) = emptied s ?b" by (simp add: unat_value)
  then have t: "count_empty i n s = ?t"
    using e by (simp add: count_empty_def Let_def BLOCK_SIZE_def word_less_nat_alt word_unat_eq_iff)
  have g: "gone ?t ?b = insert n (gone s ?b)" "b \<noteq> ?b \<Longrightarrow> gone ?t b = gone s b" for b by (auto simp: gone_def)
  have fin: "finite (gone s b)" for b using claim_inv_finite [OF inv] by (simp add: gone_def)
  have card: "card (gone ?t ?b) = card (gone s ?b) + 1" unfolding g(1) using fin n(2) by (simp add: gone_def)
  have ok: "blocks_ok s" using inv by (simp add: claim_inv_def)
  then have not_full: "card (gone s ?b) \<noteq> 32" using e by (simp add: blocks_ok_def)
  have b: "below ?t = below s" by (simp add: below_def fun_eq_iff)
  have full: "card (gone s b) = 32 \<Longrightarrow> card (gone ?t b) = 32" for b using g(2) [of b] not_full by (cases "b = ?b") auto
  have "consumers_ok ?t"
  proof (rule consumers_moved [where i = i and c = ?c])
    show "consumers_ok s" using inv by (simp add: claim_inv_def)
    show "consumers ?t = (consumers s)(i := ?c)" by simp
    show "locals_ok s d \<Longrightarrow> locals_ok ?t d" for d using b by (cases d) simp_all
    show "valid_holding ?t h" if "valid_holding s h" "held (consumers s i) \<noteq> Some h" for h
      using that full at by (cases h) auto
    show "locals_ok ?t ?c" by simp
    show "valid_holding ?t h" if "held ?c = Some h" for h
      using that ok card not_full by (auto simp: blocks_ok_def split: if_splits)
    show "held (consumers s i) = Some h \<or> \<not> valid_holding s h" if "held ?c = Some h" for h
      using that not_full by (auto split: if_splits)
  qed
  moreover have "tickets_ok ?t"
    by (rule tickets_moved [of s _ i]) (use inv at in \<open>auto simp: claim_inv_def\<close>)
  moreover have "claims_ok ?t" using inv b by (simp add: claim_inv_def claims_ok_def)
  moreover have "blocks_ok ?t"
    using ok n(1) card g(2) full unfolding blocks_ok_def by (auto simp del: views_move)
  ultimately show ?thesis unfolding t by (simp add: claim_inv_def)
qed

lemma inv_free:
  assumes inv: "claim_inv s" and at: "consumers s i = C_free b"
  shows "claim_inv (free_block i b s)"
proof -
  let ?t = "free_block i b s"
  have b: "b \<notin> set (freed s)" "card (gone s b) = 32" using claim_inv_at(2) [OF inv, of i "Block b"] at by simp_all
  have frame: "below ?t = below s" "gone ?t = gone s" by (simp_all add: free_block_def below_def gone_def fun_eq_iff)
  have "consumers_ok ?t"
  proof (rule consumers_moved [where i = i and c = "C_return True"])
    show "consumers_ok s" using inv by (simp add: claim_inv_def)
    show "consumers ?t = (consumers s)(i := C_return True)" by (simp add: free_block_def)
    show "locals_ok s d \<Longrightarrow> locals_ok ?t d" for d using frame by (cases d) (simp_all add: free_block_def)
    show "valid_holding s h \<Longrightarrow> held (consumers s i) \<noteq> Some h \<Longrightarrow> valid_holding ?t h" for h
      using frame at by (cases h) (auto simp: free_block_def)
  qed simp_all
  moreover have "tickets_ok ?t"
    by (rule tickets_moved [of s _ i]) (use inv at in \<open>auto simp: claim_inv_def free_block_def\<close>)
  moreover have "claims_ok ?t" using inv frame by (simp add: claim_inv_def claims_ok_def free_block_def)
  moreover have "blocks_ok ?t" using inv b frame by (auto simp: claim_inv_def blocks_ok_def free_block_def)
  ultimately show ?thesis by (simp add: claim_inv_def)
qed

lemmas claim_step_defs = take_ticket_def give_back_def claim_index_def destroy_element_def count_empty_def free_block_def Let_def

lemma claim_step_mono: "claim_step s t \<Longrightarrow> opt_count s \<le> opt_count t \<and> tail_count s \<le> tail_count t"
  by (induction rule: claim_step.induct) (simp_all add: claim_step_defs)

lemma inv_step:
  assumes "claim_step s t" "claim_inv s" and bound: "opt_count s < 2 ^ 63" "tail_count s < 2 ^ 63"
  shows "claim_inv t"
  using assms(1)
proof (cases rule: claim_step.cases)
  case cs_publish
  then show ?thesis using inv_publish [OF assms(2)] by simp
next
  case (cs_tail i t)
  then show ?thesis using inv_move [OF assms(2), of "C_tail t" i] by simp
next
  case (cs_over i t v)
  then show ?thesis using inv_move [OF assms(2), of "C_over t v" i] by simp
next
  case (cs_check i t v d)
  then have "v \<le> over_count s" using claim_inv_at(1) [OF assms(2), of i] by simp
  then show ?thesis using cs_check inv_move [OF assms(2), of _ i] by (auto split: if_split)
next
  case (cs_ticket i v)
  then show ?thesis using inv_ticket [OF assms(2)] bound(1) by simp
next
  case (cs_recheck i v m t)
  have m: "v \<le> below s m" "m < opt_count s"
    using claim_inv_at [OF assms(2), of i] cs_recheck(2) by auto
  have "below s m \<le> card {..<m}" unfolding below_def by (rule card_mono) auto
  then have "v \<le> m" using m(1) by simp
  then have "circular_less_than (counter_value m - counter_value v) (counter_value t) \<longleftrightarrow> m - v < t"
    using m(2) cs_recheck(3) bound by (simp add: value_diff circular_value)
  then have "circular_less_than (counter_value m - counter_value v) (counter_value t) \<Longrightarrow> locals_ok s (C_claim v m t)"
    using m(1) cs_recheck(3) by simp
  then show ?thesis using cs_recheck inv_move [OF assms(2), of _ i] by (auto split: if_split)
next
  case (cs_miss i m)
  then show ?thesis using inv_give_back [OF assms(2)] by simp
next
  case (cs_claim i v m t)
  then show ?thesis using inv_claim [OF assms(2)] by simp
next
  case (cs_destroy i n v)
  then have "n < v" using claim_inv_at(1) [OF assms(2), of i] by simp
  then show ?thesis using cs_destroy inv_move [OF assms(2), of "C_moved n" i] by (simp add: destroy_element_def)
next
  case (cs_empty i n)
  then show ?thesis using inv_empty [OF assms(2)] by simp
next
  case (cs_free i b)
  then show ?thesis using inv_free [OF assms(2)] by simp
next
  case (cs_return i r)
  then show ?thesis using inv_move [OF assms(2), of C_idle i] by simp
qed

lemma claim_inv_reach:
  "claim_step\<^sup>*\<^sup>* claims_start s \<Longrightarrow> opt_count s < 2 ^ 63 \<Longrightarrow> tail_count s < 2 ^ 63 \<Longrightarrow> claim_inv s"
proof (induction rule: rtranclp_induct)
  case (step s t)
  then show ?case using claim_step_mono [of s t] inv_step [of s t] by simp
qed (rule claim_inv_start)

section \<open>Properties\<close>

fun working_on :: "consumer \<Rightarrow> nat option" where
  "working_on (C_index n v) = Some n"
| "working_on (C_moved n) = Some n"
| "working_on _ = None"

lemma working_on_held: "working_on c = Some n \<longleftrightarrow> held c = Some (Element n)"
  by (cases c) auto

lemma full_block:
  assumes "card (gone s b) = 32" "n div 32 = b"
  shows "n \<in> destroyed s"
proof -
  have "gone s b \<subseteq> {b * 32..<b * 32 + 32}" by (auto simp: gone_def)
  then have "gone s b = {b * 32..<b * 32 + 32}" using assms(1) by (intro card_subset_eq) simp_all
  moreover have "n \<in> {b * 32..<b * 32 + 32}" using assms(2) by auto
  ultimately have "n \<in> gone s b" by simp
  then show ?thesis by (simp add: gone_def)
qed

lemma quiet_counters:
  assumes "claim_inv s" "\<forall>i. held (consumers s i) = None"
  shows "opt_count s = head_count s + over_count s"
proof -
  have "claimed s \<union> failed s = {..<opt_count s}"
    using assms by (auto simp: claim_inv_def claims_ok_def tickets_ok_def)
  then have "card (claimed s \<union> failed s) = opt_count s" by simp
  then show ?thesis
    using assms(1) claim_inv_finite [OF assms(1)] by (simp add: claim_inv_def claims_ok_def card_Un_disjoint)
qed

text \<open>C29: any number of consumers dequeue from one producer at the same time, while it stores
  elements, with loads that may return old values. As long as fewer than \<open>2 ^ 63\<close> elements are
  stored and tickets taken, no \<open>assert\<close> fails and no consumer reads an element whose
  construction does not happen before; the element a consumer works on is stored, not yet
  destroyed, and nobody else works on it; a block is given back at most once, and only when its
  thirty-two elements are destroyed; and when no call is under way, the difference of the two
  dequeue counters is the head index, so that nothing is lost.\<close>

theorem overlapping_dequeues:
  assumes "claim_step\<^sup>*\<^sup>* claims_start s" "opt_count s < 2 ^ 63" "tail_count s < 2 ^ 63"
  shows "(\<forall>i. consumers s i \<noteq> C_abort) \<and>
    (\<forall>i n. working_on (consumers s i) = Some n \<longrightarrow>
       n < tail_count s \<and> n \<notin> destroyed s \<and> (\<forall>j. working_on (consumers s j) = Some n \<longrightarrow> j = i)) \<and>
    distinct (freed s) \<and> (\<forall>n. n div 32 \<in> set (freed s) \<longrightarrow> n \<in> destroyed s) \<and>
    ((\<forall>i. consumers s i = C_idle) \<longrightarrow> counter_value (opt_count s) - counter_value (over_count s) = counter_value (head_count s))"
proof -
  have inv: "claim_inv s" using assms by (rule claim_inv_reach)
  have "consumers s i \<noteq> C_abort" for i using claim_inv_at(1) [OF inv, of i] by auto
  moreover have "head_count s \<le> seen s"
    using card_claims [of "claimed s" "failed s" "seen s"] claim_inv_finite [OF inv] inv
    by (simp add: claim_inv_def claims_ok_def below_def)
  then have "head_count s \<le> tail_count s" using inv by (simp add: claim_inv_def claims_ok_def)
  then have "working_on (consumers s i) = Some n \<Longrightarrow> n < tail_count s \<and> n \<notin> destroyed s" for i n
    using claim_inv_at(2) [OF inv, of i "Element n"] by (simp add: working_on_held)
  moreover have "working_on (consumers s i) = Some n \<Longrightarrow> working_on (consumers s j) = Some n \<Longrightarrow> j = i" for i j n
    using inv unfolding claim_inv_def consumers_ok_def working_on_held by metis
  moreover have "distinct (freed s) \<and> (\<forall>n. n div 32 \<in> set (freed s) \<longrightarrow> n \<in> destroyed s)"
    using inv full_block by (auto simp: claim_inv_def blocks_ok_def)
  moreover have "counter_value (opt_count s) - counter_value (over_count s) = counter_value (head_count s)" if "\<forall>i. consumers s i = C_idle"
    using quiet_counters [OF inv] that by (simp add: counter_value_def)
  ultimately show ?thesis by blast
qed

text \<open>One element and two consumers that both pass the first check: the first gets the element,
  the second gives its ticket back.\<close>

definition two_consumers :: claims where
  "two_consumers =
     (let s = claims_start\<lparr>tail_count := tail_count claims_start + 1\<rparr>;
          s = move 1 (C_over 1 0) (move 1 (C_tail 1) (move 0 (C_over 1 0) (move 0 (C_tail 1) s)));
          s = take_ticket 1 0 (take_ticket 0 0 (move 1 (C_try 0) (move 0 (C_try 0) s)))
      in claim_index 0 0 1 (move 1 (C_miss 1) (move 0 (C_claim 0 0 1) s)))"

lemma cs_ready:
  "consumers s i = C_over t v \<Longrightarrow> d \<le> opt_count s \<Longrightarrow> circular_less_than (counter_value d - counter_value v) (counter_value t) \<Longrightarrow>
   claim_step s (move i (C_try v) s)"
  using cs_check [of s i t v d] by simp

lemma cs_win:
  "consumers s i = C_ticket v m \<Longrightarrow> t \<le> tail_count s \<Longrightarrow> circular_less_than (counter_value m - counter_value v) (counter_value t) \<Longrightarrow>
   claim_step s (move i (C_claim v m t) s)"
  using cs_recheck [of s i v m t] by simp

lemma cs_lose:
  "consumers s i = C_ticket v m \<Longrightarrow> t \<le> tail_count s \<Longrightarrow> \<not> circular_less_than (counter_value m - counter_value v) (counter_value t) \<Longrightarrow>
   claim_step s (move i (C_miss m) s)"
  using cs_recheck [of s i v m t] by simp

lemma two_consumers_reached: "claim_step\<^sup>*\<^sup>* claims_start two_consumers"
proof -
  have c: "circular_less_than (counter_value 0 - counter_value 0) (counter_value 1)" "\<not> circular_less_than (counter_value 1 - counter_value 0) (counter_value 1)"
    using circular_value [of 0 1] circular_value [of 1 1] value_diff [of 0 1] by (simp_all add: counter_value_def)
  note one = rtranclp.rtrancl_into_rtrancl [of claim_step]
  show ?thesis
    unfolding two_consumers_def Let_def
    by (rule one [OF _ cs_claim [of _ 0 0 0 1]], rule one [OF _ cs_lose [of _ 1 0 1 1]], rule one [OF _ cs_win [of _ 0 0 0 1]],
        rule one [OF _ cs_ticket], rule one [OF _ cs_ticket], rule one [OF _ cs_ready [of _ 1 1 0 0]],
        rule one [OF _ cs_ready [of _ 0 1 0 0]], rule one [OF _ cs_over], rule one [OF _ cs_tail], rule one [OF _ cs_over],
        rule one [OF _ cs_tail], rule one [OF _ cs_publish], rule rtranclp.rtrancl_refl)
      (use c in \<open>simp_all add: claims_start_def take_ticket_def Let_def counter_value_def\<close>)
qed

lemma two_consumers_eq:
  "opt_count two_consumers = 2" "tail_count two_consumers = 1" "consumers two_consumers 0 = C_index 0 1"
  "consumers two_consumers 1 = C_miss 1"
  by (simp_all add: two_consumers_def Let_def claims_start_def take_ticket_def claim_index_def counter_value_def)

theorem overlapping_dequeues_witness:
  "working_on (consumers two_consumers 0) = Some 0 \<and> working_on (consumers two_consumers 1) \<noteq> Some 0 \<and> 0 < tail_count two_consumers"
proof -
  have w: "working_on (consumers two_consumers 0) = Some 0" by (simp add: two_consumers_eq)
  have "opt_count two_consumers < 2 ^ 63" "tail_count two_consumers < 2 ^ 63" by (simp_all add: two_consumers_eq)
  then have "\<forall>j. working_on (consumers two_consumers j) = Some 0 \<longrightarrow> j = 0" "0 < tail_count two_consumers"
    using overlapping_dequeues [OF two_consumers_reached] w by blast+
  then show ?thesis using w by fastforce
qed

end
