(* ===== verification/Free_List.thy ===== *)
theory Free_List
  imports Implicit_Producer
begin

text \<open>
  \<open>concurrentqueue.h\<close>, the lock-free list of free blocks: \<open>FreeList::add\<close>, \<open>FreeList::try_get\<close> and
  \<open>add_knowing_refcount_is_zero\<close> access by access, for up to \<open>2 ^ 31 - 2\<close> threads that interleave in
  any order. Every node has a reference count whose top bit says that the node is to be put
  on the list by whoever drops the last reference. The list is a stack, no node is handed out
  twice, and none is lost.
\<close>

section \<open>State\<close>

definition REFS_MASK :: u32 where "REFS_MASK = 0x7FFFFFFF"
definition SHOULD_BE_ON_FREELIST :: u32 where "SHOULD_BE_ON_FREELIST = 0x80000000"

text \<open>Where a thread stands, with its local variables; a null pointer is \<open>None\<close>. The last argument
  of the steps of \<open>add_knowing_refcount_is_zero\<close> says how to go on after it: \<open>None\<close> is the return
  from \<open>add\<close>, otherwise it is the variable \<open>head\<close> with which \<open>try_get\<close> continues its loop.\<close>

datatype fl_pc =
    L_idle
  | L_add nat
  | L_load nat "nat option option"
  | L_next nat "nat option" "nat option option"
  | L_refs nat "nat option" "nat option option"
  | L_push nat "nat option" "nat option option"
  | L_retry nat "nat option" "nat option option"
  | L_get
  | L_test "nat option"
  | L_peek nat
  | L_take nat u32
  | L_read nat
  | L_pop nat "nat option"
  | L_check nat
  | L_drop2 nat
  | L_got nat
  | L_drop nat "nat option"
  | L_abort

text \<open>Ghosts: the list as a stack, and where every node is. A node is out of the list in the hands
  of the queue, on the list, waiting for its last reference to be dropped, or in the hands of
  one thread.\<close>

datatype place = Out | Listed | Waiting | Owned nat

record free_nodes =
  freeListHead :: "nat option"
  freeListRefs :: "nat \<Rightarrow> u32"
  freeListNext :: "nat \<Rightarrow> nat option"
  fl_pcs :: "nat \<Rightarrow> fl_pc"
  stack :: "nat list"
  place :: "nat \<Rightarrow> place"

definition free_start :: free_nodes where
  "free_start = \<lparr>freeListHead = None, freeListRefs = (\<lambda>n. 0), freeListNext = (\<lambda>n. None), fl_pcs = (\<lambda>i. L_idle),
     stack = [], place = (\<lambda>n. Out)\<rparr>"

section \<open>Steps\<close>

definition go :: "nat \<Rightarrow> fl_pc \<Rightarrow> free_nodes \<Rightarrow> free_nodes" where
  "go i c s = s\<lparr>fl_pcs := (fl_pcs s)(i := c)\<rparr>"

definition put :: "nat \<Rightarrow> place \<Rightarrow> free_nodes \<Rightarrow> free_nodes" where
  "put n x s = s\<lparr>place := (place s)(n := x)\<rparr>"

definition set_refs :: "nat \<Rightarrow> u32 \<Rightarrow> free_nodes \<Rightarrow> free_nodes" where
  "set_refs n r s = s\<lparr>freeListRefs := (freeListRefs s)(n := r)\<rparr>"

fun resume :: "nat option option \<Rightarrow> fl_pc" where
  "resume None = L_idle"
| "resume (Some h) = L_test h"

text \<open>\<open>add\<close>.\<close>

definition fl_add :: "nat \<Rightarrow> nat \<Rightarrow> free_nodes \<Rightarrow> free_nodes" where
  "fl_add i n s =
     (let old = freeListRefs s n; s = set_refs n (old + SHOULD_BE_ON_FREELIST) s in
      if old = 0 then go i (L_load n None) s else put n Waiting (go i L_idle s))"

text \<open>\<open>add_knowing_refcount_is_zero\<close>.\<close>

definition fl_store_next :: "nat \<Rightarrow> nat \<Rightarrow> nat option \<Rightarrow> nat option option \<Rightarrow> free_nodes \<Rightarrow> free_nodes" where
  "fl_store_next i n h k s = go i (L_refs n h k) (s\<lparr>freeListNext := (freeListNext s)(n := h)\<rparr>)"

definition fl_push :: "nat \<Rightarrow> nat \<Rightarrow> nat option \<Rightarrow> nat option option \<Rightarrow> free_nodes \<Rightarrow> free_nodes" where
  "fl_push i n h k s =
     (if freeListHead s = h then put n Listed (go i (resume k) (s\<lparr>freeListHead := Some n, stack := n # stack s\<rparr>))
      else go i (L_retry n (freeListHead s) k) s)"

definition fl_retry :: "nat \<Rightarrow> nat \<Rightarrow> nat option \<Rightarrow> nat option option \<Rightarrow> free_nodes \<Rightarrow> free_nodes" where
  "fl_retry i n h k s =
     (let old = freeListRefs s n; s = set_refs n (old + (SHOULD_BE_ON_FREELIST - 1)) s in
      if old = 1 then go i (L_next n h k) s else put n Waiting (go i (resume k) s))"

text \<open>\<open>try_get\<close>.\<close>

definition fl_peek :: "nat \<Rightarrow> nat \<Rightarrow> free_nodes \<Rightarrow> free_nodes" where
  "fl_peek i n s = go i (if freeListRefs s n AND REFS_MASK = 0 then L_get else L_take n (freeListRefs s n)) s"

definition fl_take :: "nat \<Rightarrow> nat \<Rightarrow> u32 \<Rightarrow> free_nodes \<Rightarrow> free_nodes" where
  "fl_take i n r s = (if freeListRefs s n = r then go i (L_read n) (set_refs n (r + 1) s) else go i L_get s)"

definition fl_pop :: "nat \<Rightarrow> nat \<Rightarrow> nat option \<Rightarrow> free_nodes \<Rightarrow> free_nodes" where
  "fl_pop i n x s =
     (if freeListHead s = Some n then put n (Owned i) (go i (L_check n) (s\<lparr>freeListHead := x, stack := tl (stack s)\<rparr>))
      else go i (L_drop n (freeListHead s)) s)"

definition fl_check :: "nat \<Rightarrow> nat \<Rightarrow> free_nodes \<Rightarrow> free_nodes" where
  "fl_check i n s = go i (if freeListRefs s n AND SHOULD_BE_ON_FREELIST = 0 then L_drop2 n else L_abort) s"

definition fl_drop2 :: "nat \<Rightarrow> nat \<Rightarrow> free_nodes \<Rightarrow> free_nodes" where
  "fl_drop2 i n s = go i (L_got n) (set_refs n (freeListRefs s n - 2) s)"

definition fl_drop :: "nat \<Rightarrow> nat \<Rightarrow> nat option \<Rightarrow> free_nodes \<Rightarrow> free_nodes" where
  "fl_drop i n h s =
     (let old = freeListRefs s n; s = set_refs n (old - 1) s in
      if old = SHOULD_BE_ON_FREELIST + 1 then put n (Owned i) (go i (L_load n (Some h)) s) else go i (L_test h) s)"

text \<open>\<open>N\<close> is the number of threads. A thread adds nodes that are out of the list.\<close>

inductive fl_step :: "nat \<Rightarrow> free_nodes \<Rightarrow> free_nodes \<Rightarrow> bool" for N where
  fs_call_add: "i < N \<Longrightarrow> fl_pcs s i = L_idle \<Longrightarrow> place s n = Out \<Longrightarrow> fl_step N s (put n (Owned i) (go i (L_add n) s))"
| fs_add: "fl_pcs s i = L_add n \<Longrightarrow> fl_step N s (fl_add i n s)"
| fs_load: "fl_pcs s i = L_load n k \<Longrightarrow> fl_step N s (go i (L_next n (freeListHead s) k) s)"
| fs_store_next: "fl_pcs s i = L_next n h k \<Longrightarrow> fl_step N s (fl_store_next i n h k s)"
| fs_store_refs: "fl_pcs s i = L_refs n h k \<Longrightarrow> fl_step N s (go i (L_push n h k) (set_refs n 1 s))"
| fs_push: "fl_pcs s i = L_push n h k \<Longrightarrow> fl_step N s (fl_push i n h k s)"
| fs_retry: "fl_pcs s i = L_retry n h k \<Longrightarrow> fl_step N s (fl_retry i n h k s)"
| fs_call_get: "i < N \<Longrightarrow> fl_pcs s i = L_idle \<Longrightarrow> fl_step N s (go i L_get s)"
| fs_get: "fl_pcs s i = L_get \<Longrightarrow> fl_step N s (go i (L_test (freeListHead s)) s)"
| fs_none: "fl_pcs s i = L_test None \<Longrightarrow> fl_step N s (go i L_idle s)"
| fs_some: "fl_pcs s i = L_test (Some n) \<Longrightarrow> fl_step N s (go i (L_peek n) s)"
| fs_peek: "fl_pcs s i = L_peek n \<Longrightarrow> fl_step N s (fl_peek i n s)"
| fs_take: "fl_pcs s i = L_take n r \<Longrightarrow> fl_step N s (fl_take i n r s)"
| fs_read: "fl_pcs s i = L_read n \<Longrightarrow> fl_step N s (go i (L_pop n (freeListNext s n)) s)"
| fs_pop: "fl_pcs s i = L_pop n x \<Longrightarrow> fl_step N s (fl_pop i n x s)"
| fs_check: "fl_pcs s i = L_check n \<Longrightarrow> fl_step N s (fl_check i n s)"
| fs_drop2: "fl_pcs s i = L_drop2 n \<Longrightarrow> fl_step N s (fl_drop2 i n s)"
| fs_got: "fl_pcs s i = L_got n \<Longrightarrow> fl_step N s (put n Out (go i L_idle s))"
| fs_drop: "fl_pcs s i = L_drop n h \<Longrightarrow> fl_step N s (fl_drop i n h s)"

section \<open>Reference counts as words\<close>

definition refs_word :: "nat \<Rightarrow> bool \<Rightarrow> u32" where
  "refs_word c f = of_nat c + (if f then SHOULD_BE_ON_FREELIST else 0)"

lemma refs_word_unat: "c < 2 ^ 31 \<Longrightarrow> unat (refs_word c f) = c + (if f then 2 ^ 31 else 0)"
  by (simp add: refs_word_def SHOULD_BE_ON_FREELIST_def unat_word_ariths unat_of_nat take_bit_nat_eq_self)

lemma refs_word_eq:
  assumes "c < 2 ^ 31" "d < 2 ^ 31"
  shows "refs_word c f = refs_word d g \<longleftrightarrow> c = d \<and> f = g"
  using refs_word_unat [OF assms(1), of f] refs_word_unat [OF assms(2), of g] assms
  by (auto simp: word_unat_eq_iff split: if_splits)

lemma refs_word_mask: "c < 2 ^ 31 \<Longrightarrow> refs_word c f AND REFS_MASK = 0 \<longleftrightarrow> c = 0"
proof -
  assume c: "c < 2 ^ 31"
  have "refs_word c f AND REFS_MASK = take_bit 31 (refs_word c f)"
    by (simp add: REFS_MASK_def take_bit_eq_mask mask_eq_exp_minus_1)
  then have "unat (refs_word c f AND REFS_MASK) = c"
    using c by (simp add: unsigned_take_bit_eq take_bit_nat_def refs_word_unat)
  then show ?thesis by (metis unat_eq_zero)
qed

lemma refs_word_flag: "c < 2 ^ 31 \<Longrightarrow> refs_word c False AND SHOULD_BE_ON_FREELIST = 0"
proof -
  assume "c < 2 ^ 31"
  then have "take_bit 31 (refs_word c False) = refs_word c False"
    by (simp add: word_unat_eq_iff unsigned_take_bit_eq take_bit_nat_def refs_word_unat)
  moreover have "take_bit m w AND push_bit m v = 0" for m and w v :: u32
    by (rule bit_word_eqI) (auto simp: bit_simps)
  from this [of 31 _ 1] have "take_bit 31 w AND SHOULD_BE_ON_FREELIST = 0" for w
    by (simp add: SHOULD_BE_ON_FREELIST_def)
  ultimately show ?thesis by metis
qed

lemma refs_word_steps:
  "refs_word c False + SHOULD_BE_ON_FREELIST = refs_word c True"
  "refs_word (Suc c) False + (SHOULD_BE_ON_FREELIST - 1) = refs_word c True"
  "refs_word c f + 1 = refs_word (Suc c) f" "refs_word (Suc c) f - 1 = refs_word c f"
  "refs_word (Suc (Suc c)) f - 2 = refs_word c f" "0 = refs_word 0 False" "1 = refs_word 1 False"
  "SHOULD_BE_ON_FREELIST + 1 = refs_word 1 True"
  by (simp_all add: refs_word_def)

section \<open>Invariant\<close>

text \<open>The node a thread is responsible for; the node it holds a reference to.\<close>

fun owned :: "fl_pc \<Rightarrow> nat option" where
  "owned (L_add n) = Some n"
| "owned (L_load n k) = Some n"
| "owned (L_next n h k) = Some n"
| "owned (L_refs n h k) = Some n"
| "owned (L_push n h k) = Some n"
| "owned (L_retry n h k) = Some n"
| "owned (L_check n) = Some n"
| "owned (L_drop2 n) = Some n"
| "owned (L_got n) = Some n"
| "owned _ = None"

fun referenced :: "fl_pc \<Rightarrow> nat option" where
  "referenced (L_read n) = Some n"
| "referenced (L_pop n x) = Some n"
| "referenced (L_check n) = Some n"
| "referenced (L_drop2 n) = Some n"
| "referenced (L_drop n h) = Some n"
| "referenced _ = None"

text \<open>Between taking the node over and storing its count, the flag is set and nobody has a reference;
  then the list's own reference is counted.\<close>

fun taking_over :: "fl_pc \<Rightarrow> bool" where
  "taking_over (L_load n k) = True"
| "taking_over (L_next n h k) = True"
| "taking_over (L_refs n h k) = True"
| "taking_over _ = False"

fun counted :: "fl_pc \<Rightarrow> bool" where
  "counted (L_push n h k) = True"
| "counted (L_retry n h k) = True"
| "counted (L_check n) = True"
| "counted (L_drop2 n) = True"
| "counted _ = False"

definition holders :: "free_nodes \<Rightarrow> nat \<Rightarrow> nat set" where
  "holders s n = {i. referenced (fl_pcs s i) = Some n}"

definition flagged :: "free_nodes \<Rightarrow> nat \<Rightarrow> bool" where
  "flagged s n \<longleftrightarrow> (case place s n of Waiting \<Rightarrow> True | Owned i \<Rightarrow> taking_over (fl_pcs s i) | _ \<Rightarrow> False)"

definition list_ref :: "free_nodes \<Rightarrow> nat \<Rightarrow> nat" where
  "list_ref s n = (case place s n of Listed \<Rightarrow> 1 | Owned i \<Rightarrow> if counted (fl_pcs s i) then 1 else 0 | _ \<Rightarrow> 0)"

definition node_ok :: "free_nodes \<Rightarrow> nat \<Rightarrow> bool" where
  "node_ok s n \<longleftrightarrow> freeListRefs s n = refs_word (card (holders s n) + list_ref s n) (flagged s n) \<and>
     (place s n = Waiting \<longrightarrow> holders s n \<noteq> {}) \<and>
     (\<forall>i. place s n = Owned i \<longrightarrow> owned (fl_pcs s i) = Some n \<and> (taking_over (fl_pcs s i) \<longrightarrow> holders s n = {}))"

fun fl_locals :: "free_nodes \<Rightarrow> fl_pc \<Rightarrow> bool" where
  "fl_locals s (L_refs n h k) \<longleftrightarrow> freeListNext s n = h"
| "fl_locals s (L_push n h k) \<longleftrightarrow> freeListNext s n = h"
| "fl_locals s (L_pop n x) \<longleftrightarrow> freeListNext s n = x"
| "fl_locals s (L_take n r) \<longleftrightarrow> r AND REFS_MASK \<noteq> 0"
| "fl_locals s L_abort \<longleftrightarrow> False"
| "fl_locals s _ \<longleftrightarrow> True"

definition thread_ok :: "nat \<Rightarrow> free_nodes \<Rightarrow> nat \<Rightarrow> bool" where
  "thread_ok N s i \<longleftrightarrow> (\<forall>n. owned (fl_pcs s i) = Some n \<longrightarrow> place s n = Owned i) \<and> fl_locals s (fl_pcs s i) \<and>
     (N \<le> i \<longrightarrow> fl_pcs s i = L_idle)"

fun chain :: "(nat \<Rightarrow> nat option) \<Rightarrow> nat option \<Rightarrow> nat list \<Rightarrow> bool" where
  "chain nx h [] \<longleftrightarrow> h = None"
| "chain nx h (n # ns) \<longleftrightarrow> h = Some n \<and> chain nx (nx n) ns"

definition list_ok :: "free_nodes \<Rightarrow> bool" where
  "list_ok s \<longleftrightarrow> distinct (stack s) \<and> set (stack s) = {n. place s n = Listed} \<and>
     chain (freeListNext s) (freeListHead s) (stack s)"

definition free_inv :: "nat \<Rightarrow> free_nodes \<Rightarrow> bool" where
  "free_inv N s \<longleftrightarrow> (\<forall>n. node_ok s n) \<and> (\<forall>i. thread_ok N s i) \<and> list_ok s"

lemma free_inv_start: "free_inv N free_start"
  by (simp add: free_inv_def node_ok_def thread_ok_def list_ok_def free_start_def holders_def list_ref_def
      flagged_def refs_word_def)

lemma chain_other: "n \<notin> set ns \<Longrightarrow> chain (nx(n := h)) a ns = chain nx a ns"
  by (induction ns arbitrary: a) auto

lemma holders_bound:
  assumes "free_inv N s"
  shows "finite (holders s n)" "card (holders s n) \<le> N"
proof -
  have "fl_pcs s i = L_idle" if "N \<le> i" for i using assms that by (simp add: free_inv_def thread_ok_def)
  then have *: "holders s n \<subseteq> {..<N}" by (force simp: holders_def not_le [symmetric])
  then show "finite (holders s n)" by (rule finite_subset) simp
  show "card (holders s n) \<le> N" using card_mono [OF _ *] by simp
qed

text \<open>One thread moves and works on one node; it is enough to look at the two.\<close>

lemma free_inv_local:
  assumes inv: "free_inv N s"
    and pcs: "fl_pcs t = (fl_pcs s)(i := c)"
    and other: "\<And>m. m \<noteq> n \<Longrightarrow> freeListRefs t m = freeListRefs s m \<and> place t m = place s m \<and> freeListNext t m = freeListNext s m"
    and old: "\<And>m. owned (fl_pcs s i) = Some m \<or> referenced (fl_pcs s i) = Some m \<Longrightarrow> m = n"
    and new: "\<And>m. owned c = Some m \<or> referenced c = Some m \<Longrightarrow> m = n"
    and places: "place t n = place s n \<or> (\<forall>j. place s n = Owned j \<longrightarrow> j = i)"
    and nexts: "freeListNext t n = freeListNext s n \<or> place s n = Owned i \<and> holders s n = {}"
    and ok: "node_ok t n" "thread_ok N t i" "list_ok t"
  shows "free_inv N t"
proof -
  have at: "fl_pcs t i = c" "j \<noteq> i \<Longrightarrow> fl_pcs t j = fl_pcs s j" for j by (simp_all add: pcs)
  have nodes: "node_ok s m" and threads: "thread_ok N s j" for m j using inv by (simp_all add: free_inv_def)
  have "node_ok t m" for m
  proof (cases "m = n")
    case False
    have h: "holders t m = holders s m"
    proof -
      have "referenced (fl_pcs t j) = Some m \<longleftrightarrow> referenced (fl_pcs s j) = Some m" for j
        using old [of m] new [of m] False at by (cases "j = i") auto
      then show ?thesis by (simp add: holders_def)
    qed
    have "place s m \<noteq> Owned i" using nodes [of m] old [of m] False by (auto simp: node_ok_def)
    then have "flagged t m = flagged s m" "list_ref t m = list_ref s m"
      "place s m = Owned j \<Longrightarrow> fl_pcs t j = fl_pcs s j" for j
      using other [OF False] at(2) by (auto simp: flagged_def list_ref_def split: place.split)
    then show ?thesis using nodes [of m] other [OF False] h by (simp add: node_ok_def)
  qed (use ok(1) in simp)
  moreover have "thread_ok N t j" for j
  proof (cases "j = i")
    case False
    have own: "place t m = Owned j" if "owned (fl_pcs s j) = Some m" for m
      using threads [of j] that other [of m] places False by (cases "m = n") (auto simp: thread_ok_def)
    have nx: "freeListNext t m = freeListNext s m" if "owned (fl_pcs s j) = Some m \<or> referenced (fl_pcs s j) = Some m" for m
    proof (cases "m = n")
      case True
      have "\<not> (place s n = Owned i \<and> holders s n = {})"
        using that True threads [of j] False by (auto simp: thread_ok_def holders_def)
      then show ?thesis using nexts True by metis
    qed (use other in simp)
    have "fl_locals s (fl_pcs s j)" using threads [of j] by (simp add: thread_ok_def)
    then have "fl_locals t (fl_pcs s j)" using nx by (cases "fl_pcs s j") simp_all
    then show ?thesis using own at(2) [OF False] threads [of j] by (simp add: thread_ok_def)
  qed (use ok(2) in simp)
  ultimately show ?thesis using ok(3) by (simp add: free_inv_def)
qed

lemma free_inv_at:
  assumes "free_inv N s"
  shows "node_ok s n" "thread_ok N s i" "list_ok s"
  using assms by (simp_all add: free_inv_def)

text \<open>A thread moves without touching a node.\<close>

lemma inv_go:
  assumes inv: "free_inv N s" and "owned c = owned (fl_pcs s i)" "referenced c = referenced (fl_pcs s i)"
    and "taking_over c = taking_over (fl_pcs s i)" "counted c = counted (fl_pcs s i)" "fl_locals s c" "i < N"
  shows "free_inv N (go i c s)"
proof -
  let ?t = "go i c s"
  have same: "owned (fl_pcs ?t j) = owned (fl_pcs s j)" "referenced (fl_pcs ?t j) = referenced (fl_pcs s j)"
    "taking_over (fl_pcs ?t j) = taking_over (fl_pcs s j)" "counted (fl_pcs ?t j) = counted (fl_pcs s j)" for j
    using assms by (simp_all add: go_def)
  have rest: "place ?t = place s" "freeListRefs ?t = freeListRefs s" "freeListNext ?t = freeListNext s"
    "freeListHead ?t = freeListHead s" "stack ?t = stack s"
    by (simp_all add: go_def)
  have views: "holders ?t = holders s" "flagged ?t = flagged s" "list_ref ?t = list_ref s"
    by (simp_all add: holders_def flagged_def list_ref_def same rest fun_eq_iff split: place.split)
  have "node_ok ?t n" for n
    using free_inv_at(1) [OF inv, of n] by (auto simp: node_ok_def views same rest)
  moreover have "fl_locals ?t d = fl_locals s d" for d by (cases d) (simp_all add: rest)
  then have "thread_ok N ?t j" for j
    using free_inv_at(2) [OF inv, of j] assms(6,7)
    by (cases "j = i") (simp_all add: thread_ok_def rest same, simp_all add: go_def)
  moreover have "list_ok ?t" using free_inv_at(3) [OF inv] by (simp only: list_ok_def rest)
  ultimately show ?thesis by (simp add: free_inv_def)
qed

lemma holders_moved:
  "fl_pcs t = (fl_pcs s)(i := c) \<Longrightarrow>
   holders t n = (if referenced c = Some n then insert i (holders s n) else holders s n - {i})"
  by (auto simp: holders_def)

lemmas fl_defs = go_def put_def set_refs_def fl_add_def fl_store_next_def fl_push_def fl_retry_def fl_take_def fl_pop_def
  fl_drop2_def fl_drop_def Let_def

lemma running: "free_inv N s \<Longrightarrow> fl_pcs s i \<noteq> L_idle \<Longrightarrow> i < N"
  using free_inv_at(2) [of N s i] by (auto simp: thread_ok_def not_less [symmetric])

text \<open>What is known of the node a thread owns, and of its counter.\<close>

lemma owned_node:
  assumes "free_inv N s" "owned (fl_pcs s i) = Some n"
  shows "place s n = Owned i" "n \<notin> set (stack s)"
    "freeListRefs s n = refs_word (card (holders s n) + (if counted (fl_pcs s i) then 1 else 0)) (taking_over (fl_pcs s i))"
    "taking_over (fl_pcs s i) \<Longrightarrow> holders s n = {}"
proof -
  show p: "place s n = Owned i" using free_inv_at(2) [OF assms(1), of i] assms(2) by (simp add: thread_ok_def)
  then show "n \<notin> set (stack s)" using free_inv_at(3) [OF assms(1)] by (simp add: list_ok_def)
  show "freeListRefs s n = refs_word (card (holders s n) + (if counted (fl_pcs s i) then 1 else 0)) (taking_over (fl_pcs s i))"
    "taking_over (fl_pcs s i) \<Longrightarrow> holders s n = {}"
    using free_inv_at(1) [OF assms(1), of n] p by (simp_all add: node_ok_def list_ref_def flagged_def)
qed

lemma unowned: "free_inv N s \<Longrightarrow> place s n = Owned i \<Longrightarrow> owned (fl_pcs s i) = Some n"
  using free_inv_at(1) [of N s n] by (simp add: node_ok_def)

lemma list_ok_same:
  assumes "list_ok s" "stack t = stack s" "freeListHead t = freeListHead s" "n \<notin> set (stack s)" "place t n \<noteq> Listed"
    and "\<And>m. m \<noteq> n \<Longrightarrow> place t m = place s m" "freeListNext t = (freeListNext s)(n := h)"
  shows "list_ok t"
proof -
  have "place s n \<noteq> Listed" using assms(1,4) by (simp add: list_ok_def)
  then have "{m. place t m = Listed} = {m. place s m = Listed}" using assms(5,6) by (metis)
  then show ?thesis using assms(1-4,7) chain_other by (simp add: list_ok_def)
qed

section \<open>Every step preserves the invariant\<close>

lemma inv_call_add:
  assumes inv: "free_inv N s" and at: "i < N" "fl_pcs s i = L_idle" "place s n = Out"
  shows "free_inv N (put n (Owned i) (go i (L_add n) s))" (is "free_inv N ?t")
proof (rule free_inv_local [OF inv, where i = i and n = n and c = "L_add n"])
  have h: "holders ?t n = holders s n" using at by (auto simp: holders_def fl_defs)
  show "node_ok ?t n" using free_inv_at(1) [OF inv, of n] at h
    by (simp add: node_ok_def flagged_def list_ref_def fl_defs)
  show "list_ok ?t"
    by (rule list_ok_same [OF free_inv_at(3) [OF inv], where n = n and h = "freeListNext s n"])
      (use free_inv_at(3) [OF inv] at in \<open>auto simp: fl_defs list_ok_def\<close>)
qed (use at in \<open>auto simp: fl_defs thread_ok_def\<close>)

lemma inv_got:
  assumes inv: "free_inv N s" and at: "fl_pcs s i = L_got n"
  shows "free_inv N (put n Out (go i L_idle s))" (is "free_inv N ?t")
proof (rule free_inv_local [OF inv, where i = i and n = n and c = L_idle])
  note o = owned_node [OF inv, of i n]
  have h: "holders ?t n = holders s n" using at by (auto simp: holders_def fl_defs)
  show "node_ok ?t n" using o(3) at h by (simp add: node_ok_def flagged_def list_ref_def fl_defs)
  show "list_ok ?t"
    by (rule list_ok_same [OF free_inv_at(3) [OF inv], where n = n and h = "freeListNext s n"])
      (use o(1,2) at in \<open>auto simp: fl_defs\<close>)
  show "place ?t n = place s n \<or> (\<forall>j. place s n = Owned j \<longrightarrow> j = i)" using o(1) at by simp
qed (use at in \<open>auto simp: fl_defs thread_ok_def\<close>)

lemma inv_add:
  assumes inv: "free_inv N s" and at: "fl_pcs s i = L_add n" and N: "N + 1 < 2 ^ 31"
  shows "free_inv N (fl_add i n s)" (is "free_inv N ?t")
proof -
  note o = owned_node [OF inv, of i n]
  let ?c = "if holders s n = {} then L_load n None else L_idle"
  have fin: "finite (holders s n)" "card (holders s n) < 2 ^ 31" using holders_bound [OF inv, of n] N by simp_all
  have r: "freeListRefs s n = refs_word (card (holders s n)) False" using o(3) at by simp
  have zero: "freeListRefs s n = 0 \<longleftrightarrow> holders s n = {}"
    unfolding r refs_word_steps(6) using fin refs_word_eq [of "card (holders s n)" 0] by simp
  have t: "fl_pcs ?t = (fl_pcs s)(i := ?c)" "place ?t n = (if holders s n = {} then Owned i else Waiting)"
    "freeListRefs ?t n = refs_word (card (holders s n)) True"
    using zero o(1) at by (simp_all add: fl_defs) (simp_all add: r refs_word_steps)
  have h: "holders ?t n = holders s n" using at by (simp add: holders_moved [OF t(1)]) (auto simp: holders_def)
  show ?thesis
  proof (rule free_inv_local [OF inv, where i = i and n = n and c = ?c])
    show "node_ok ?t n" using h t by (auto simp: node_ok_def flagged_def list_ref_def)
    show "list_ok ?t"
      by (rule list_ok_same [OF free_inv_at(3) [OF inv], where n = n and h = "freeListNext s n"])
        (use o(1,2) at in \<open>auto simp: fl_defs\<close>)
    show "place ?t n = place s n \<or> (\<forall>j. place s n = Owned j \<longrightarrow> j = i)" using o(1) at by simp
    show "thread_ok N ?t i" using t running [OF inv, of i] at by (auto simp: thread_ok_def)
  qed (use at t(1) in \<open>auto simp: fl_defs split: if_splits\<close>)
qed

lemma inv_store_next:
  assumes inv: "free_inv N s" and at: "fl_pcs s i = L_next n h k"
  shows "free_inv N (fl_store_next i n h k s)" (is "free_inv N ?t")
proof (rule free_inv_local [OF inv, where i = i and n = n and c = "L_refs n h k"])
  note o = owned_node [OF inv, of i n]
  have hs: "holders ?t n = {}" using o(4) at by (auto simp: holders_def fl_defs)
  show "node_ok ?t n" using o(1,3,4) at hs by (simp add: node_ok_def flagged_def list_ref_def fl_defs)
  show "list_ok ?t"
    by (rule list_ok_same [OF free_inv_at(3) [OF inv], where n = n and h = h])
      (use o(1,2) at in \<open>auto simp: fl_defs\<close>)
  show "thread_ok N ?t i" using o(1) running [OF inv, of i] at by (auto simp: thread_ok_def fl_defs)
  show "freeListNext ?t n = freeListNext s n \<or> place s n = Owned i \<and> holders s n = {}" using o(1,4) at by simp
qed (use at in \<open>auto simp: fl_defs\<close>)

lemma inv_store_refs:
  assumes inv: "free_inv N s" and at: "fl_pcs s i = L_refs n h k"
  shows "free_inv N (go i (L_push n h k) (set_refs n 1 s))" (is "free_inv N ?t")
proof (rule free_inv_local [OF inv, where i = i and n = n and c = "L_push n h k"])
  note o = owned_node [OF inv, of i n]
  have hs: "holders ?t n = {}" using o(4) at by (auto simp: holders_def fl_defs)
  show "node_ok ?t n" using o(1) at hs by (simp add: node_ok_def flagged_def list_ref_def fl_defs refs_word_steps)
  show "list_ok ?t"
    by (rule list_ok_same [OF free_inv_at(3) [OF inv], where n = n and h = "freeListNext s n"])
      (use o(1,2) at in \<open>auto simp: fl_defs\<close>)
  have "fl_locals s (fl_pcs s i)" using free_inv_at(2) [OF inv, of i] by (simp add: thread_ok_def)
  then show "thread_ok N ?t i" using o(1) running [OF inv, of i] at by (auto simp: thread_ok_def fl_defs)
qed (use at in \<open>auto simp: fl_defs\<close>)

lemma resume_neutral [simp]:
  "owned (resume k) = None" "referenced (resume k) = None" "\<not> taking_over (resume k)" "\<not> counted (resume k)"
  "fl_locals s (resume k)"
  by (cases k; simp)+

lemma inv_push:
  assumes inv: "free_inv N s" and at: "fl_pcs s i = L_push n h k"
  shows "free_inv N (fl_push i n h k s)"
proof (cases "freeListHead s = h")
  case True
  let ?t = "put n Listed (go i (resume k) (s\<lparr>freeListHead := Some n, stack := n # stack s\<rparr>))"
  note o = owned_node [OF inv, of i n]
  have "freeListNext s n = h" using free_inv_at(2) [OF inv, of i] at by (simp add: thread_ok_def)
  have "free_inv N ?t"
  proof (rule free_inv_local [OF inv, where i = i and n = n and c = "resume k"])
    have hs: "holders ?t n = holders s n" using at by (auto simp: holders_def fl_defs)
    show "node_ok ?t n" using o(3) at hs by (simp add: node_ok_def flagged_def list_ref_def fl_defs)
    show "list_ok ?t"
      using free_inv_at(3) [OF inv] o(1,2) at True \<open>freeListNext s n = h\<close> by (auto simp: list_ok_def fl_defs)
    show "thread_ok N ?t i" using running [OF inv, of i] at by (auto simp: thread_ok_def fl_defs)
    show "place ?t n = place s n \<or> (\<forall>j. place s n = Owned j \<longrightarrow> j = i)" using o(1) at by simp
  qed (use at in \<open>auto simp: fl_defs\<close>)
  then show ?thesis using True by (simp add: fl_push_def)
next
  case False
  then show ?thesis
    using inv_go [OF inv, of "L_retry n (freeListHead s) k" i] running [OF inv, of i] at by (simp add: fl_push_def)
qed

lemma inv_retry:
  assumes inv: "free_inv N s" and at: "fl_pcs s i = L_retry n h k" and N: "N + 1 < 2 ^ 31"
  shows "free_inv N (fl_retry i n h k s)" (is "free_inv N ?t")
proof -
  note o = owned_node [OF inv, of i n]
  let ?c = "if holders s n = {} then L_next n h k else resume k"
  have fin: "finite (holders s n)" "card (holders s n) + 1 < 2 ^ 31" using holders_bound [OF inv, of n] N by simp_all
  have r: "freeListRefs s n = refs_word (Suc (card (holders s n))) False" using o(3) at by simp
  have one: "freeListRefs s n = 1 \<longleftrightarrow> holders s n = {}"
    unfolding r refs_word_steps(7) using fin refs_word_eq [of "Suc (card (holders s n))" 1] by simp
  have t: "fl_pcs ?t = (fl_pcs s)(i := ?c)" "place ?t n = (if holders s n = {} then Owned i else Waiting)"
    using one o(1) at by (simp_all add: fl_defs)
  have w: "freeListRefs ?t n = freeListRefs s n + (SHOULD_BE_ON_FREELIST - 1)" by (simp add: fl_defs)
  have hs: "holders ?t n = holders s n" using at by (simp add: holders_moved [OF t(1)]) (auto simp: holders_def)
  show ?thesis
  proof (rule free_inv_local [OF inv, where i = i and n = n and c = ?c])
    show "node_ok ?t n" using hs t w [unfolded r refs_word_steps(2)] by (auto simp: node_ok_def flagged_def list_ref_def)
    show "list_ok ?t"
      by (rule list_ok_same [OF free_inv_at(3) [OF inv], where n = n and h = "freeListNext s n"])
        (use o(1,2) at in \<open>auto simp: fl_defs\<close>)
    show "place ?t n = place s n \<or> (\<forall>j. place s n = Owned j \<longrightarrow> j = i)" using o(1) at by simp
    show "thread_ok N ?t i" using t running [OF inv, of i] at by (auto simp: thread_ok_def)
  qed (use at t(1) in \<open>auto simp: fl_defs split: if_splits\<close>)
qed

text \<open>A reference is taken, or dropped, by a thread that owns no node.\<close>

lemma reference_counts:
  assumes inv: "free_inv N s" and "owned (fl_pcs s i) = None" and N: "N + 1 < 2 ^ 31"
  shows "list_ref s n \<le> 1" "card (holders s n) + list_ref s n < 2 ^ 31"
    "freeListRefs s n = refs_word (card (holders s n) + list_ref s n) (flagged s n)"
    "place s n \<noteq> Owned i" "taking_over c = False \<Longrightarrow> counted c = False \<Longrightarrow> fl_pcs t = (fl_pcs s)(i := c) \<Longrightarrow>
      place t n = place s n \<Longrightarrow> flagged t n = flagged s n \<and> list_ref t n = list_ref s n"
proof -
  show l: "list_ref s n \<le> 1" by (simp add: list_ref_def split: place.split)
  then show "card (holders s n) + list_ref s n < 2 ^ 31" using holders_bound(2) [OF inv, of n] N by linarith
  show "freeListRefs s n = refs_word (card (holders s n) + list_ref s n) (flagged s n)"
    using free_inv_at(1) [OF inv, of n] by (simp add: node_ok_def)
  show p: "place s n \<noteq> Owned i" using unowned [OF inv, of n i] assms(2) by auto
  assume "fl_pcs t = (fl_pcs s)(i := c)" "place t n = place s n"
  then show "flagged t n = flagged s n \<and> list_ref t n = list_ref s n"
    using p by (auto simp: flagged_def list_ref_def split: place.split)
qed

lemma inv_take:
  assumes inv: "free_inv N s" and at: "fl_pcs s i = L_take n r" "r AND REFS_MASK \<noteq> 0" and N: "N + 1 < 2 ^ 31"
  shows "free_inv N (fl_take i n r s)"
proof (cases "freeListRefs s n = r")
  case True
  let ?t = "go i (L_read n) (set_refs n (r + 1) s)"
  have own: "owned (fl_pcs s i) = None" using at by simp
  note rc = reference_counts [OF inv own N, where n = n]
  have t: "fl_pcs ?t = (fl_pcs s)(i := L_read n)" "place ?t = place s" by (simp_all add: fl_defs)
  have views: "flagged ?t n = flagged s n" "list_ref ?t n = list_ref s n"
    using rc(5) [OF _ _ t(1)] t(2) by simp_all
  have new: "i \<notin> holders s n" using at by (simp add: holders_def)
  have hs: "holders ?t n = insert i (holders s n)" using holders_moved [OF t(1), of n] by simp
  have c: "card (holders ?t n) = Suc (card (holders s n))" using new holders_bound(1) [OF inv, of n] by (simp add: hs)
  have nz: "card (holders s n) + list_ref s n \<noteq> 0" using at(2) True rc(2,3) refs_word_mask by metis
  have idle: "\<not> taking_over (fl_pcs s j)" if "place s n = Owned j" for j
    using free_inv_at(1) [OF inv, of n] that nz by (cases "fl_pcs s j") (auto simp: node_ok_def list_ref_def)
  have "free_inv N ?t"
  proof (rule free_inv_local [OF inv, where i = i and n = n and c = "L_read n"])
    have "freeListRefs ?t n = r + 1" by (simp add: fl_defs)
    then have "freeListRefs ?t n = refs_word (card (holders ?t n) + list_ref ?t n) (flagged ?t n)"
      unfolding c views using rc(3) True by (metis add_Suc refs_word_steps(3))
    moreover have "owned (fl_pcs ?t j) = Some n \<and> \<not> taking_over (fl_pcs ?t j)" if "place s n = Owned j" for j
      using idle [OF that] unowned [OF inv that] rc(4) that by (cases "j = i") (auto simp: fl_defs)
    ultimately show "node_ok ?t n" using t(2) hs by (auto simp: node_ok_def)
    show "list_ok ?t" using free_inv_at(3) [OF inv] by (simp add: list_ok_def fl_defs)
    show "thread_ok N ?t i" using running [OF inv, of i] at by (auto simp: thread_ok_def fl_defs)
  qed (use at in \<open>auto simp: fl_defs\<close>)
  then show ?thesis using True by (simp add: fl_take_def)
next
  case False
  then show ?thesis using inv_go [OF inv, of L_get i] running [OF inv, of i] at by (simp add: fl_take_def)
qed

lemma inv_pop:
  assumes inv: "free_inv N s" and at: "fl_pcs s i = L_pop n x"
  shows "free_inv N (fl_pop i n x s)"
proof (cases "freeListHead s = Some n")
  case True
  let ?t = "put n (Owned i) (go i (L_check n) (s\<lparr>freeListHead := x, stack := tl (stack s)\<rparr>))"
  have x: "freeListNext s n = x" using free_inv_at(2) [OF inv, of i] at by (simp add: thread_ok_def)
  have l: "list_ok s" by (rule free_inv_at(3) [OF inv])
  then obtain ns where ns: "stack s = n # ns" using True by (cases "stack s") (auto simp: list_ok_def)
  then have p: "place s n = Listed" using l by (auto simp: list_ok_def)
  have hs: "holders ?t n = holders s n" using at by (auto simp: holders_def fl_defs)
  have "free_inv N ?t"
  proof (rule free_inv_local [OF inv, where i = i and n = n and c = "L_check n"])
    show "node_ok ?t n" using free_inv_at(1) [OF inv, of n] hs p by (simp add: node_ok_def flagged_def list_ref_def fl_defs)
    show "list_ok ?t" using l ns x by (auto simp: list_ok_def fl_defs)
    show "thread_ok N ?t i" using running [OF inv, of i] at by (auto simp: thread_ok_def fl_defs)
    show "place ?t n = place s n \<or> (\<forall>j. place s n = Owned j \<longrightarrow> j = i)" using p by simp
  qed (use at in \<open>auto simp: fl_defs\<close>)
  then show ?thesis using True by (simp add: fl_pop_def)
next
  case False
  then show ?thesis
    using inv_go [OF inv, of "L_drop n (freeListHead s)" i] running [OF inv, of i] at by (simp add: fl_pop_def)
qed

lemma inv_drop2:
  assumes inv: "free_inv N s" and at: "fl_pcs s i = L_drop2 n"
  shows "free_inv N (fl_drop2 i n s)" (is "free_inv N ?t")
proof (rule free_inv_local [OF inv, where i = i and n = n and c = "L_got n"])
  note o = owned_node [OF inv, of i n]
  have t: "fl_pcs ?t = (fl_pcs s)(i := L_got n)" by (simp add: fl_defs)
  have "i \<in> holders s n" using at by (simp add: holders_def)
  from card.remove [OF holders_bound(1) [OF inv] this]
  have c: "card (holders s n) = Suc (card (holders ?t n))" using holders_moved [OF t, of n] by simp
  have "freeListRefs ?t n = freeListRefs s n - 2" by (simp add: fl_defs)
  then have "freeListRefs ?t n = refs_word (card (holders ?t n)) False" using o(3) at c refs_word_steps(5) by simp
  then show "node_ok ?t n" using o(1) at by (simp add: node_ok_def flagged_def list_ref_def fl_defs)
  show "list_ok ?t" using free_inv_at(3) [OF inv] by (simp add: list_ok_def fl_defs)
  show "thread_ok N ?t i" using o(1) running [OF inv, of i] at by (auto simp: thread_ok_def fl_defs)
qed (use at in \<open>auto simp: fl_defs\<close>)

lemma inv_drop:
  assumes inv: "free_inv N s" and at: "fl_pcs s i = L_drop n h" and N: "N + 1 < 2 ^ 31"
  shows "free_inv N (fl_drop i n h s)" (is "free_inv N ?t")
proof -
  have own: "owned (fl_pcs s i) = None" using at by simp
  note rc = reference_counts [OF inv own N, where n = n]
  let ?last = "place s n = Waiting \<and> holders s n = {i}"
  let ?c = "if ?last then L_load n (Some h) else L_test h"
  have i: "i \<in> holders s n" using at by (simp add: holders_def)
  have fin: "finite (holders s n)" by (rule holders_bound(1) [OF inv])
  then obtain c where c: "card (holders s n) = Suc c" "c = 0 \<longleftrightarrow> holders s n = {i}" "card (holders s n - {i}) = c"
    using i by (metis card.remove card_0_eq finite_Diff insert_Diff Diff_eq_empty_iff subset_singletonD empty_iff order_refl)
  have waiting: "flagged s n \<longleftrightarrow> place s n = Waiting" "place s n = Waiting \<Longrightarrow> list_ref s n = 0"
    using free_inv_at(1) [OF inv, of n] i by (auto simp: node_ok_def flagged_def list_ref_def split: place.splits)
  have "freeListRefs s n = refs_word 1 True \<longleftrightarrow> card (holders s n) + list_ref s n = 1 \<and> flagged s n"
    using rc(2,3) refs_word_eq [of _ 1 _ True] by simp
  then have last: "freeListRefs s n = SHOULD_BE_ON_FREELIST + 1 \<longleftrightarrow> ?last"
    unfolding refs_word_steps(8) using waiting c(1,2) by auto
  have t: "fl_pcs ?t = (fl_pcs s)(i := ?c)" "place ?t n = (if ?last then Owned i else place s n)"
    using last by (simp_all add: fl_defs)
  have "freeListRefs ?t n = freeListRefs s n - 1" by (simp add: fl_defs)
  then have r: "freeListRefs ?t n = refs_word (c + list_ref s n) (flagged s n)"
    using rc(3) c(1) refs_word_steps(4) by (metis add_Suc)
  have hs: "holders ?t n = holders s n - {i}" using holders_moved [OF t(1), of n] by simp
  show ?thesis
  proof (rule free_inv_local [OF inv, where i = i and n = n and c = ?c])
    show "node_ok ?t n"
    proof (cases ?last)
      case True
      then have "freeListRefs ?t n = refs_word 0 True" "holders ?t n = {}" using r waiting c(2) hs by simp_all
      then show ?thesis using t True by (simp add: node_ok_def flagged_def list_ref_def)
    next
      case False
      then have views: "flagged ?t n = flagged s n" "list_ref ?t n = list_ref s n" "place ?t n = place s n"
        using rc(5) [OF _ _ t(1)] t(2) by simp_all
      have "holders ?t n \<noteq> {}" if "place s n = Waiting" using that False i hs by auto
      moreover have "fl_pcs ?t j = fl_pcs s j" if "place s n = Owned j" for j using rc(4) that t(1) by auto
      ultimately show ?thesis
        using free_inv_at(1) [OF inv, of n] r c(3) i unfolding node_ok_def views hs by auto
    qed
    have "place ?t m = Listed \<longleftrightarrow> place s m = Listed" for m
      using t(2) by (cases "m = n") (auto simp: fl_defs)
    moreover have "stack ?t = stack s" "freeListHead ?t = freeListHead s" "freeListNext ?t = freeListNext s"
      by (simp_all add: fl_defs)
    ultimately show "list_ok ?t" using free_inv_at(3) [OF inv] by (simp add: list_ok_def)
    show "place ?t n = place s n \<or> (\<forall>j. place s n = Owned j \<longrightarrow> j = i)" using t(2) by auto
    show "thread_ok N ?t i" using t running [OF inv, of i] at by (auto simp: thread_ok_def)
  qed (use at t(1) in \<open>auto simp: fl_defs split: if_splits\<close>)
qed

lemma inv_fl_step:
  assumes "fl_step N s t" "free_inv N s" and N: "N + 1 < 2 ^ 31"
  shows "free_inv N t"
  using assms(1)
proof (cases rule: fl_step.cases)
  case (fs_check i n)
  have "freeListRefs s n AND SHOULD_BE_ON_FREELIST = 0"
    using owned_node(3) [OF assms(2), of i n] fs_check(2) holders_bound(2) [OF assms(2), of n] N by (simp add: refs_word_flag)
  then show ?thesis
    using fs_check inv_go [OF assms(2), of "L_drop2 n" i] running [OF assms(2), of i] by (simp add: fl_check_def)
next
  case (fs_peek i n)
  then show ?thesis
    using inv_go [OF assms(2), of _ i] running [OF assms(2), of i] by (auto simp: fl_peek_def)
next
  case (fs_take i n r)
  then have "r AND REFS_MASK \<noteq> 0" using free_inv_at(2) [OF assms(2), of i] by (simp add: thread_ok_def)
  then show ?thesis using fs_take inv_take [OF assms(2) _ _ N] by simp
qed (use inv_go [OF assms(2)] running [OF assms(2)] N in
    \<open>auto intro: inv_call_add [OF assms(2)] inv_add [OF assms(2)] inv_store_next [OF assms(2)] inv_store_refs [OF assms(2)]
      inv_push [OF assms(2)] inv_retry [OF assms(2)] inv_pop [OF assms(2)] inv_drop2 [OF assms(2)] inv_got [OF assms(2)]
      inv_drop [OF assms(2)]\<close>)

lemma free_inv_reach: "(fl_step N)\<^sup>*\<^sup>* free_start s \<Longrightarrow> N + 1 < 2 ^ 31 \<Longrightarrow> free_inv N s"
  by (induction rule: rtranclp_induct) (auto intro: free_inv_start inv_fl_step)

section \<open>Calls that are not overlapped\<close>

lemma quiet_refs:
  assumes "free_inv N s" "\<forall>i. fl_pcs s i = L_idle"
  shows "place s n = Out \<Longrightarrow> freeListRefs s n = 0" "place s n = Listed \<Longrightarrow> freeListRefs s n = 1"
  using free_inv_at(1) [OF assms(1), of n] assms(2)
  by (simp_all add: node_ok_def holders_def list_ref_def flagged_def refs_word_def)

lemma solo_add:
  assumes at: "i < N" "fl_pcs s i = L_idle" "place s n = Out" "freeListRefs s n = 0"
  shows "\<exists>t. (fl_step N)\<^sup>*\<^sup>* s t \<and> stack t = n # stack s \<and> fl_pcs t = fl_pcs s"
proof -
  note one = rtranclp.rtrancl_into_rtrancl [of "fl_step N"]
  let ?h = "freeListHead s"
  let ?a = "fl_add i n (put n (Owned i) (go i (L_add n) s))"
  let ?b = "fl_store_next i n ?h None (go i (L_next n (freeListHead ?a) None) ?a)"
  let ?t = "fl_push i n ?h None (go i (L_push n ?h None) (set_refs n 1 ?b))"
  have "(fl_step N)\<^sup>*\<^sup>* s ?t"
    by (rule one [OF _ fs_push], rule one [OF _ fs_store_refs], rule one [OF _ fs_store_next], rule one [OF _ fs_load],
        rule one [OF _ fs_add], rule one [OF _ fs_call_add], rule rtranclp.rtrancl_refl)
      (use at in \<open>simp_all add: fl_defs\<close>)
  moreover have "stack ?t = n # stack s \<and> fl_pcs ?t = fl_pcs s" using at by (auto simp: fl_defs)
  ultimately show ?thesis by blast
qed

lemma solo_get:
  assumes at: "i < N" "fl_pcs s i = L_idle" "freeListHead s = Some n" "freeListRefs s n = 1"
  shows "\<exists>t. (fl_step N)\<^sup>*\<^sup>* s t \<and> stack t = tl (stack s) \<and> fl_pcs t = fl_pcs s \<and> place t n = Out"
proof -
  note one = rtranclp.rtrancl_into_rtrancl [of "fl_step N"]
  let ?x = "freeListNext s n"
  let ?a = "go i (L_peek n) (go i (L_test (freeListHead (go i L_get s))) (go i L_get s))"
  let ?b = "fl_take i n 1 (fl_peek i n ?a)"
  let ?c = "fl_check i n (fl_pop i n ?x (go i (L_pop n (freeListNext ?b n)) ?b))"
  let ?t = "put n Out (go i L_idle (fl_drop2 i n ?c))"
  have m: "(1 :: u32) AND REFS_MASK \<noteq> 0" "(2 :: u32) AND SHOULD_BE_ON_FREELIST = 0"
    by (simp_all add: REFS_MASK_def SHOULD_BE_ON_FREELIST_def)
  have "(fl_step N)\<^sup>*\<^sup>* s ?t"
    by (rule one [OF _ fs_got], rule one [OF _ fs_drop2], rule one [OF _ fs_check], rule one [OF _ fs_pop],
        rule one [OF _ fs_read], rule one [OF _ fs_take], rule one [OF _ fs_peek], rule one [OF _ fs_some],
        rule one [OF _ fs_get], rule one [OF _ fs_call_get], rule rtranclp.rtrancl_refl)
      (use at m in \<open>simp_all add: fl_defs fl_peek_def fl_check_def\<close>)
  moreover have "stack ?t = tl (stack s) \<and> fl_pcs ?t = fl_pcs s \<and> place ?t n = Out"
    using at m by (auto simp: fl_defs fl_peek_def fl_check_def)
  ultimately show ?thesis by blast
qed

section \<open>Properties\<close>

text \<open>C30: for every interleaving of fewer than \<open>2 ^ 31 - 1\<close> threads: the assertion of \<open>try_get\<close> holds;
  the pointers form the stack, without a cycle; a node some thread is adding or has just taken is
  not on the list, not in the hands of another thread, and not yet given out; every step leaves
  the stack alone, or is a successful exchange in \<open>add\<close> that pushes a node, or one in \<open>try_get\<close>
  that pops the node it returns; \<open>try_get\<close> sees a null head only when the stack is empty; and when
  no call is under way, every node that is not out is on the list, so none is lost.\<close>

theorem free_list_is_stack:
  assumes "(fl_step N)\<^sup>*\<^sup>* free_start s" "N + 1 < 2 ^ 31"
  shows "(\<forall>i. fl_pcs s i \<noteq> L_abort) \<and> distinct (stack s) \<and> chain (freeListNext s) (freeListHead s) (stack s) \<and>
    (\<forall>i n. owned (fl_pcs s i) = Some n \<longrightarrow>
       n \<notin> set (stack s) \<and> place s n \<noteq> Out \<and> (\<forall>j. owned (fl_pcs s j) = Some n \<longrightarrow> j = i)) \<and>
    (\<forall>t. fl_step N s t \<longrightarrow> stack t = stack s \<or>
       (\<exists>i n h k. fl_pcs s i = L_push n h k \<and> stack t = n # stack s) \<or>
       (\<exists>i n x. fl_pcs s i = L_pop n x \<and> fl_pcs t i = L_check n \<and> stack s = n # stack t)) \<and>
    (freeListHead s = None \<longleftrightarrow> stack s = []) \<and>
    ((\<forall>i. fl_pcs s i = L_idle) \<longrightarrow> (\<forall>n. place s n = Out \<or> n \<in> set (stack s)))"
proof -
  have inv: "free_inv N s" using assms by (rule free_inv_reach)
  have l: "list_ok s" by (rule free_inv_at(3) [OF inv])
  have "fl_pcs s i \<noteq> L_abort" for i using free_inv_at(2) [OF inv, of i] by (auto simp: thread_ok_def)
  moreover have "n \<notin> set (stack s) \<and> place s n \<noteq> Out" if "owned (fl_pcs s i) = Some n" for i n
    using owned_node(1,2) [OF inv that] by simp
  moreover have "j = i" if "owned (fl_pcs s i) = Some n" "owned (fl_pcs s j) = Some n" for i j n
    using owned_node(1) [OF inv that(1)] owned_node(1) [OF inv that(2)] by simp
  moreover have head: "freeListHead s = None \<longleftrightarrow> stack s = []" using l by (cases "stack s") (simp_all add: list_ok_def)
  moreover have "stack t = stack s \<or> (\<exists>i n h k. fl_pcs s i = L_push n h k \<and> stack t = n # stack s) \<or>
       (\<exists>i n x. fl_pcs s i = L_pop n x \<and> fl_pcs t i = L_check n \<and> stack s = n # stack t)" if "fl_step N s t" for t
    using that
  proof (cases rule: fl_step.cases)
    case (fs_pop i n x)
    then show ?thesis using l by (cases "stack s") (auto simp: fl_defs list_ok_def)
  next
    case (fs_push i n h k)
    then show ?thesis by (auto simp: fl_defs)
  qed (simp_all add: fl_defs fl_peek_def fl_check_def)
  moreover have "place s n = Out \<or> n \<in> set (stack s)" if "\<forall>i. fl_pcs s i = L_idle" for n
  proof (cases "place s n")
    case Waiting
    then have "holders s n \<noteq> {}" using free_inv_at(1) [OF inv, of n] by (simp add: node_ok_def)
    then show ?thesis using that by (simp add: holders_def)
  next
    case (Owned i)
    then show ?thesis using unowned [OF inv Owned] that by simp
  qed (use l in \<open>simp_all add: list_ok_def\<close>)
  ultimately show ?thesis using l unfolding list_ok_def by blast
qed

theorem free_list_is_stack_witness:
  "\<exists>s. (fl_step 2)\<^sup>*\<^sup>* free_start s \<and> stack s = [7] \<and> freeListHead s \<noteq> None \<and> (\<forall>i. fl_pcs s i \<noteq> L_abort)"
proof -
  obtain s where s: "(fl_step 2)\<^sup>*\<^sup>* free_start s" "stack s = [7]" "fl_pcs s = fl_pcs free_start"
    using solo_add [of 0 2 free_start 7] by (auto simp: free_start_def)
  from free_list_is_stack [OF s(1)] have "freeListHead s \<noteq> None" "\<forall>i. fl_pcs s i \<noteq> L_abort"
    using s(2) by simp_all
  then show ?thesis using s(1,2) by blast
qed

text \<open>Calls that are not overlapped do what \<open>add_block_to_free_list\<close> and
  \<open>try_get_block_from_free_list\<close> do to the pool of the queue, for every state that any
  interleaving of earlier calls can leave behind.\<close>

theorem free_list_refines_pool:
  assumes "(fl_step N)\<^sup>*\<^sup>* free_start s" "N + 1 < 2 ^ 31" "\<forall>i. fl_pcs s i = L_idle" "i < N" "free_list q = stack s"
  shows "(place s n = Out \<longrightarrow>
      (\<exists>t. (fl_step N)\<^sup>*\<^sup>* s t \<and> fl_pcs t = fl_pcs s \<and> stack t = free_list (add_block_to_free_list n q))) \<and>
    (\<exists>t. (fl_step N)\<^sup>*\<^sup>* s t \<and> fl_pcs t = fl_pcs s \<and> stack t = free_list (snd (try_get_block_from_free_list q)) \<and>
      (\<forall>m. fst (try_get_block_from_free_list q) = Some m \<longrightarrow> place s m = Listed \<and> place t m = Out))"
proof (intro conjI impI)
  have inv: "free_inv N s" using assms(1,2) by (rule free_inv_reach)
  have l: "list_ok s" by (rule free_inv_at(3) [OF inv])
  {
    assume "place s n = Out"
    then show "\<exists>t. (fl_step N)\<^sup>*\<^sup>* s t \<and> fl_pcs t = fl_pcs s \<and> stack t = free_list (add_block_to_free_list n q)"
      using solo_add [of i N s n] quiet_refs(1) [OF inv assms(3), of n] assms(3-5)
      by (auto simp: add_block_to_free_list_def)
  }
  show "\<exists>t. (fl_step N)\<^sup>*\<^sup>* s t \<and> fl_pcs t = fl_pcs s \<and> stack t = free_list (snd (try_get_block_from_free_list q)) \<and>
      (\<forall>m. fst (try_get_block_from_free_list q) = Some m \<longrightarrow> place s m = Listed \<and> place t m = Out)"
  proof (cases "stack s")
    case Nil
    then show ?thesis using assms(5) by (intro exI [of _ s]) (simp add: try_get_block_from_free_list_def)
  next
    case (Cons m ns)
    then have h: "freeListHead s = Some m" "place s m = Listed" using l by (auto simp: list_ok_def)
    have idle: "fl_pcs s i = L_idle" using assms(3) by simp
    obtain t where "(fl_step N)\<^sup>*\<^sup>* s t" "stack t = ns" "fl_pcs t = fl_pcs s" "place t m = Out"
      using solo_get [OF assms(4) idle h(1) quiet_refs(2) [OF inv assms(3) h(2)]] Cons by auto
    then show ?thesis using Cons assms(5) h(2) by (intro exI [of _ t]) (simp add: try_get_block_from_free_list_def)
  qed
qed

theorem free_list_refines_pool_witness:
  "\<exists>t. (fl_step 1)\<^sup>*\<^sup>* free_start t \<and>
     stack t = free_list (add_block_to_free_list 7 (populate_initial_block_list True 6 :: nat pool))"
proof -
  have "free_list (populate_initial_block_list True 6 :: nat pool) = stack free_start"
    "\<forall>i. fl_pcs free_start i = L_idle" "place free_start 7 = Out"
    by (simp_all add: populate_initial_block_list_def free_start_def)
  with free_list_refines_pool [OF rtranclp.rtrancl_refl, of 1 0 "populate_initial_block_list True 6 :: nat pool" 7]
  show ?thesis by auto
qed

end
