(* ===== verification/Explicit_Producer.thy ===== *)
theory Explicit_Producer
  imports Implicit_Bulk
begin

text \<open>
  \<open>concurrentqueue.h\<close>, the producer behind a producer token. Its blocks form a ring that only grows:
  a block that was emptied is used again when the tail comes round to it, and the blocks are given
  back by the destructor. The elements dequeued are marked by one flag each, because the flags fit
  (\<open>BLOCK_SIZE \<le> EXPLICIT_BLOCK_EMPTY_COUNTER_THRESHOLD\<close>). The index is an array of the blocks' bases
  that is copied to one of twice the size when it is full.

  As for the implicit producer a call is executed without interruption, the element type does not
  throw, and a failed \<open>assert\<close>, a null pointer or an access out of bounds is \<open>None\<close>.
\<close>

section \<open>Flags\<close>

definition all_empty :: "'a qblock \<Rightarrow> bool" where
  "all_empty b \<longleftrightarrow> list_all id (emptyFlags b)"

definition reset_flags :: "'a qblock \<Rightarrow> 'a qblock" where
  "reset_flags b = b\<lparr>emptyFlags := replicate 32 False\<rparr>"

definition set_all_flags :: "'a qblock \<Rightarrow> 'a qblock" where
  "set_all_flags b = b\<lparr>emptyFlags := replicate 32 True\<rparr>"

definition set_flag :: "u64 \<Rightarrow> 'a qblock \<Rightarrow> 'a qblock option" where
  "set_flag i b =
     (let f = 31 - slot i in
      if emptyFlags b ! f then None else Some (b\<lparr>emptyFlags := (emptyFlags b)[f := True]\<rparr>))"

fun set_flags_from :: "nat \<Rightarrow> nat \<Rightarrow> 'a qblock \<Rightarrow> 'a qblock option" where
  "set_flags_from 0 i b = Some b"
| "set_flags_from (Suc n) i b =
     (if length (emptyFlags b) \<le> i \<or> emptyFlags b ! i then None
      else set_flags_from n (i + 1) (b\<lparr>emptyFlags := (emptyFlags b)[i := True]\<rparr>))"

definition set_many_flags :: "u64 \<Rightarrow> u64 \<Rightarrow> 'a qblock \<Rightarrow> 'a qblock option" where
  "set_many_flags i count b =
     (let i = BLOCK_SIZE - 1 - (i AND (BLOCK_SIZE - 1)) - count + 1 in set_flags_from (unat count) (unat i) b)"

definition update_block :: "nat \<Rightarrow> ('a qblock \<Rightarrow> 'a qblock) \<Rightarrow> 'a pool \<Rightarrow> 'a pool" where
  "update_block r f q = q\<lparr>blocks := (blocks q)(r := f (blocks q r))\<rparr>"

section \<open>The state\<close>

text \<open>\<open>BlockIndexHeader\<close>. An entry that was not written has no block.\<close>

record explicit_index =
  xi_size :: u64
  xi_front :: u64
  xi_entries :: "(u64 \<times> nat option) list"

text \<open>The members of \<open>ProducerBase\<close>, the header that \<open>blockIndex\<close> and \<open>pr_blockIndexRaw\<close> point to, and
  the producer's own counts \<open>pr_blockIndexSlotsUsed\<close>, \<open>pr_blockIndexSize\<close> and \<open>pr_blockIndexFront\<close>.\<close>

record explicit_producer =
  x_tailIndex :: u64
  x_headIndex :: u64
  x_optimistic :: u64
  x_overcommit :: u64
  x_tailBlock :: "nat option"
  x_index :: "explicit_index option"
  x_slotsUsed :: u64
  x_indexSize :: u64
  x_indexFront :: u64

section \<open>The block index\<close>

text \<open>The loop that copies the slots in use.\<close>

partial_function (option) x_copy_index :: "u64 \<Rightarrow> u64 \<Rightarrow> (u64 \<times> nat option) list \<Rightarrow> u64 \<Rightarrow> (u64 \<times> nat option) list option" where
  "x_copy_index idx_mask front es i =
     (if length es \<le> unat i then None
      else let next = (i + 1) AND idx_mask in
        if next \<noteq> front then Option.bind (x_copy_index idx_mask front es next) (\<lambda>l. Some (es ! unat i # l)) else Some [es ! unat i])"

definition x_new_block_index :: "bool \<Rightarrow> u64 \<Rightarrow> explicit_producer \<Rightarrow> (bool \<times> explicit_producer) option" where
  "x_new_block_index mem numberOfFilledSlotsToExpose p =
     (let prevBlockSizeMask = x_indexSize p - 1; p = p\<lparr>x_indexSize := push_bit 1 (x_indexSize p)\<rparr> in
      if \<not> mem then Some (False, p\<lparr>x_indexSize := drop_bit 1 (x_indexSize p)\<rparr>)
      else case (if x_slotsUsed p \<noteq> 0
                 then (case x_index p of
                         None \<Rightarrow> None
                       | Some ix \<Rightarrow> x_copy_index prevBlockSizeMask (x_indexFront p) (xi_entries ix)
                           ((x_indexFront p - x_slotsUsed p) AND prevBlockSizeMask))
                 else Some []) of
          None \<Rightarrow> None
        | Some old \<Rightarrow>
            if unat (x_indexSize p) < length old then None
            else Some (True, p\<lparr>x_index := Some \<lparr>xi_size = x_indexSize p, xi_front = numberOfFilledSlotsToExpose - 1,
                   xi_entries = old @ replicate (unat (x_indexSize p) - length old) (0, None)\<rparr>, x_indexFront := of_nat (length old)\<rparr>))"

definition EXPLICIT_INITIAL_INDEX_SIZE :: u64 where "EXPLICIT_INITIAL_INDEX_SIZE = 32"

definition make_explicit :: "bool \<Rightarrow> 'a pool \<Rightarrow> explicit_producer option" where
  "make_explicit mem q =
     (let p = \<lparr>x_tailIndex = 0, x_headIndex = 0, x_optimistic = 0, x_overcommit = 0, x_tailBlock = None, x_index = None,
               x_slotsUsed = 0, x_indexSize = drop_bit 1 EXPLICIT_INITIAL_INDEX_SIZE, x_indexFront = 0\<rparr>;
          poolBasedIndexSize = drop_bit 1 (ceil_to_pow_2 (pool_size q));
          p = (if x_indexSize p < poolBasedIndexSize then p\<lparr>x_indexSize := poolBasedIndexSize\<rparr> else p)
      in map_option snd (x_new_block_index mem 0 p))"

text \<open>Writing the entry at the front, moving the front on, and showing it to consumers.\<close>

definition x_set_entry :: "u64 \<Rightarrow> explicit_producer \<Rightarrow> explicit_producer option" where
  "x_set_entry base p =
     (case x_index p of
        None \<Rightarrow> None
      | Some ix \<Rightarrow>
          if length (xi_entries ix) \<le> unat (x_indexFront p) then None
          else Some (p\<lparr>x_index := Some (ix\<lparr>xi_entries := (xi_entries ix)[unat (x_indexFront p) := (base, x_tailBlock p)]\<rparr>)\<rparr>))"

definition x_advance_front :: "explicit_producer \<Rightarrow> explicit_producer" where
  "x_advance_front p = p\<lparr>x_indexFront := (x_indexFront p + 1) AND (x_indexSize p - 1)\<rparr>"

definition x_expose :: "u64 \<Rightarrow> explicit_producer \<Rightarrow> explicit_producer option" where
  "x_expose f p = (case x_index p of None \<Rightarrow> None | Some ix \<Rightarrow> Some (p\<lparr>x_index := Some (ix\<lparr>xi_front := f\<rparr>)\<rparr>))"

text \<open>Where the index has the block of an element; the division is one of unsigned numbers.\<close>

definition x_index_of :: "u64 \<Rightarrow> explicit_producer \<Rightarrow> u64 option" where
  "x_index_of idx p =
     (case x_index p of
        None \<Rightarrow> None
      | Some ix \<Rightarrow>
          if length (xi_entries ix) \<le> unat (xi_front ix) then None
          else let headBase = fst (xi_entries ix ! unat (xi_front ix)); blockBaseIndex = idx AND NOT (BLOCK_SIZE - 1);
                   offset = (blockBaseIndex - headBase) div BLOCK_SIZE
            in Some ((xi_front ix + offset) AND (xi_size ix - 1)))"

definition x_block_at :: "u64 \<Rightarrow> explicit_producer \<Rightarrow> nat option" where
  "x_block_at i p =
     (case x_index p of
        None \<Rightarrow> None
      | Some ix \<Rightarrow> if length (xi_entries ix) \<le> unat i then None else snd (xi_entries ix ! unat i))"

section \<open>Enqueueing\<close>

text \<open>A new block goes into the ring behind the tail block.\<close>

definition x_insert_block :: "nat \<Rightarrow> 'a pool \<Rightarrow> explicit_producer \<Rightarrow> 'a pool \<times> explicit_producer" where
  "x_insert_block r q p =
     (let q = (case x_tailBlock p of
                 None \<Rightarrow> set_next r (Some r) q
               | Some t \<Rightarrow> set_next t (Some r) (set_next r (blk_next (blocks q t)) q))
      in (q, p\<lparr>x_tailBlock := Some r\<rparr>))"

text \<open>No leeway between tail and head, or the size limit.\<close>

definition x_full :: "u64 \<Rightarrow> u64 \<Rightarrow> u64 \<Rightarrow> bool" where
  "x_full max_size head currentTailIndex \<longleftrightarrow>
     \<not> circular_less_than head (currentTailIndex + BLOCK_SIZE) \<or>
     (max_size \<noteq> - 1 \<and> (max_size = 0 \<or> max_size - BLOCK_SIZE < currentTailIndex - head))"

definition x_add_block :: "bool \<Rightarrow> bool \<Rightarrow> 'a pool \<Rightarrow> explicit_producer \<Rightarrow> bool \<times> 'a pool \<times> explicit_producer" where
  "x_add_block can_alloc block_mem q p =
     (case requisition_block can_alloc block_mem q of
        (None, q) \<Rightarrow> (False, q, p)
      | (Some r, q) \<Rightarrow>
          (case x_insert_block r (update_block r reset_flags q) p of (q, p) \<Rightarrow> (True, q, p\<lparr>x_slotsUsed := x_slotsUsed p + 1\<rparr>)))"

definition x_new_block :: "u64 \<Rightarrow> bool \<Rightarrow> bool \<Rightarrow> bool \<Rightarrow> 'a pool \<Rightarrow> explicit_producer \<Rightarrow> (bool \<times> 'a pool \<times> explicit_producer) option" where
  "x_new_block max_size can_alloc index_mem block_mem q p =
     (let head = x_headIndex p; currentTailIndex = x_tailIndex p in
      if circular_less_than currentTailIndex head then None
      else if x_full max_size head currentTailIndex then Some (False, q, p)
      else if x_index p = None \<or> x_slotsUsed p = x_indexSize p
        then if \<not> can_alloc then Some (False, q, p)
          else (case x_new_block_index index_mem (x_slotsUsed p) p of
                  None \<Rightarrow> None
                | Some (False, p) \<Rightarrow> Some (False, q, p)
                | Some (True, p) \<Rightarrow> Some (x_add_block can_alloc block_mem q p))
      else Some (x_add_block can_alloc block_mem q p))"

text \<open>The block ahead is used again if it is empty.\<close>

definition x_next_block :: "u64 \<Rightarrow> bool \<Rightarrow> bool \<Rightarrow> bool \<Rightarrow> 'a pool \<Rightarrow> explicit_producer \<Rightarrow> (bool \<times> 'a pool \<times> explicit_producer) option" where
  "x_next_block max_size can_alloc index_mem block_mem q p =
     (case x_tailBlock p of
        None \<Rightarrow> x_new_block max_size can_alloc index_mem block_mem q p
      | Some t \<Rightarrow>
          (case blk_next (blocks q t) of
             None \<Rightarrow> None
           | Some n \<Rightarrow>
               if all_empty (blocks q n) then Some (True, update_block n reset_flags q, p\<lparr>x_tailBlock := Some n\<rparr>)
               else x_new_block max_size can_alloc index_mem block_mem q p))"

definition x_store_element :: "'a \<Rightarrow> 'a pool \<Rightarrow> explicit_producer \<Rightarrow> (bool \<times> 'a pool \<times> explicit_producer) option" where
  "x_store_element x q p =
     (case x_tailBlock p of
        None \<Rightarrow> None
      | Some r \<Rightarrow> Some (True, put_element r (x_tailIndex p) (Some x) q, p\<lparr>x_tailIndex := 1 + x_tailIndex p\<rparr>))"

definition explicit_enqueue ::
  "u64 \<Rightarrow> bool \<Rightarrow> bool \<Rightarrow> bool \<Rightarrow> 'a \<Rightarrow> 'a pool \<times> explicit_producer \<Rightarrow> (bool \<times> 'a pool \<times> explicit_producer) option" where
  "explicit_enqueue max_size can_alloc index_mem block_mem x qp =
     (let (q, p) = qp in
      if x_tailIndex p AND (BLOCK_SIZE - 1) = 0
      then (case x_next_block max_size can_alloc index_mem block_mem q p of
              None \<Rightarrow> None
            | Some (False, q, p) \<Rightarrow> Some (False, q, p)
            | Some (True, q, p) \<Rightarrow>
                (case x_set_entry (x_tailIndex p) p of
                   None \<Rightarrow> None
                 | Some p \<Rightarrow>
                     (case x_expose (x_indexFront p) p of
                        None \<Rightarrow> None
                      | Some p \<Rightarrow> x_store_element x q (x_advance_front p))))
      else x_store_element x q p)"

section \<open>Dequeueing\<close>

definition x_take_element :: "u64 \<Rightarrow> 'a pool \<Rightarrow> explicit_producer \<Rightarrow> ('a \<times> 'a pool) option" where
  "x_take_element idx q p =
     (case Option.bind (x_index_of idx p) (\<lambda>i. x_block_at i p) of
        None \<Rightarrow> None
      | Some r \<Rightarrow>
          (case elements (blocks q r) ! slot idx of
             None \<Rightarrow> None
           | Some el \<Rightarrow>
               (let q = put_element r idx None q in
                map_option (\<lambda>b. (el, q\<lparr>blocks := (blocks q)(r := b)\<rparr>)) (set_flag idx (blocks q r)))))"

definition explicit_dequeue :: "'a pool \<times> explicit_producer \<Rightarrow> ('a option \<times> 'a pool \<times> explicit_producer) option" where
  "explicit_dequeue qp =
     (let (q, p) = qp; overcommit = x_overcommit p in
      if circular_less_than (x_optimistic p - overcommit) (x_tailIndex p)
      then let myDequeueCount = x_optimistic p; p = p\<lparr>x_optimistic := myDequeueCount + 1\<rparr> in
        if myDequeueCount < overcommit then None
        else if circular_less_than (myDequeueCount - overcommit) (x_tailIndex p)
        then let idx = x_headIndex p; p = p\<lparr>x_headIndex := idx + 1\<rparr> in
          map_option (\<lambda>(el, q). (Some el, q, p)) (x_take_element idx q p)
        else Some (None, q, p\<lparr>x_overcommit := x_overcommit p + 1\<rparr>)
      else Some (None, q, p))"

definition explicit_size_approx :: "explicit_producer \<Rightarrow> u64" where
  "explicit_size_approx p =
     (let tail = x_tailIndex p; head = x_headIndex p in if circular_less_than head tail then tail - head else 0)"

section \<open>Enqueueing many elements\<close>

text \<open>As many blocks as possible from ahead.\<close>

partial_function (option) x_reuse_blocks ::
  "'a pool \<Rightarrow> u64 \<Rightarrow> u64 \<Rightarrow> nat option \<Rightarrow> explicit_producer \<Rightarrow> (u64 \<times> u64 \<times> nat option \<times> explicit_producer) option" where
  "x_reuse_blocks q blockBaseDiff currentTailIndex firstAllocatedBlock p =
     (case x_tailBlock p of
        None \<Rightarrow> Some (blockBaseDiff, currentTailIndex, firstAllocatedBlock, p)
      | Some t \<Rightarrow>
          if \<not> 0 < blockBaseDiff \<or> blk_next (blocks q t) = firstAllocatedBlock
          then Some (blockBaseDiff, currentTailIndex, firstAllocatedBlock, p)
          else (case blk_next (blocks q t) of
              None \<Rightarrow> None
            | Some n \<Rightarrow>
                if \<not> all_empty (blocks q n) then Some (blockBaseDiff, currentTailIndex, firstAllocatedBlock, p)
                else let blockBaseDiff = blockBaseDiff - BLOCK_SIZE; currentTailIndex = currentTailIndex + BLOCK_SIZE;
                         p = p\<lparr>x_tailBlock := Some n\<rparr>;
                         firstAllocatedBlock = (if firstAllocatedBlock = None then Some n else firstAllocatedBlock)
                  in (case x_set_entry currentTailIndex p of
                        None \<Rightarrow> None
                      | Some p \<Rightarrow> x_reuse_blocks q blockBaseDiff currentTailIndex firstAllocatedBlock (x_advance_front p))))"

text \<open>Failed: the changes are undone, but the blocks stay in the ring.\<close>

definition x_undo :: "u64 \<Rightarrow> u64 \<Rightarrow> nat option \<Rightarrow> nat option \<Rightarrow> explicit_producer \<Rightarrow> explicit_producer" where
  "x_undo originalFront originalSlotsUsed startBlock firstAllocatedBlock p =
     p\<lparr>x_indexFront := originalFront, x_slotsUsed := originalSlotsUsed,
       x_tailBlock := (if startBlock = None then firstAllocatedBlock else startBlock)\<rparr>"

text \<open>A new block of the bulk operation: it is marked empty until all blocks are there.\<close>

definition x_add_bulk_block :: "u64 \<Rightarrow> nat \<Rightarrow> 'a pool \<Rightarrow> explicit_producer \<Rightarrow> ('a pool \<times> explicit_producer) option" where
  "x_add_bulk_block currentTailIndex r q p =
     (case x_insert_block r (update_block r set_all_flags q) p of
        (q, p) \<Rightarrow> map_option (\<lambda>p. (q, x_advance_front p)) (x_set_entry currentTailIndex (p\<lparr>x_slotsUsed := x_slotsUsed p + 1\<rparr>)))"

text \<open>Room in the index for one more block. The fallback for the front changes with a new index.\<close>

definition x_make_room :: "bool \<Rightarrow> bool \<Rightarrow> bool \<Rightarrow> u64 \<Rightarrow> u64 \<Rightarrow> explicit_producer \<Rightarrow> (bool \<times> u64 \<times> explicit_producer) option" where
  "x_make_room can_alloc full mem originalSlotsUsed originalFront p =
     (if x_index p = None \<or> x_slotsUsed p = x_indexSize p \<or> full
      then if \<not> can_alloc \<or> full then Some (False, originalFront, p)
        else (case x_new_block_index mem originalSlotsUsed p of
                None \<Rightarrow> None
              | Some (False, p) \<Rightarrow> Some (False, originalFront, p)
              | Some (True, p) \<Rightarrow> Some (True, originalSlotsUsed, p))
      else Some (True, originalFront, p))"

text \<open>The loop that allocates the rest. \<open>index_mem\<close> and \<open>block_mem\<close> say for every iteration whether
  memory is available.\<close>

partial_function (option) x_allocate_blocks ::
  "u64 \<Rightarrow> bool \<Rightarrow> (nat \<Rightarrow> bool) \<Rightarrow> (nat \<Rightarrow> bool) \<Rightarrow> nat option \<Rightarrow> u64 \<Rightarrow> nat \<Rightarrow> u64 \<Rightarrow> u64 \<Rightarrow> u64 \<Rightarrow> nat option \<Rightarrow>
   'a pool \<Rightarrow> explicit_producer \<Rightarrow> (bool \<times> nat option \<times> 'a pool \<times> explicit_producer) option" where
  "x_allocate_blocks max_size can_alloc index_mem block_mem startBlock originalSlotsUsed j originalFront blockBaseDiff
       currentTailIndex firstAllocatedBlock q p =
     (if \<not> 0 < blockBaseDiff then Some (True, firstAllocatedBlock, q, p)
      else let blockBaseDiff = blockBaseDiff - BLOCK_SIZE; currentTailIndex = currentTailIndex + BLOCK_SIZE; head = x_headIndex p in
        if circular_less_than currentTailIndex head then None
        else case x_make_room can_alloc (x_full max_size head currentTailIndex) (index_mem j) originalSlotsUsed originalFront p of
            None \<Rightarrow> None
          | Some (ok, originalFront, p) \<Rightarrow>
              if \<not> ok then Some (False, firstAllocatedBlock, q, x_undo originalFront originalSlotsUsed startBlock firstAllocatedBlock p)
              else (case requisition_block can_alloc (block_mem j) q of
                 (None, q) \<Rightarrow> Some (False, firstAllocatedBlock, q, x_undo originalFront originalSlotsUsed startBlock firstAllocatedBlock p)
               | (Some r, q) \<Rightarrow>
                   (case x_add_bulk_block currentTailIndex r q p of
                      None \<Rightarrow> None
                    | Some (q, p) \<Rightarrow>
                        x_allocate_blocks max_size can_alloc index_mem block_mem startBlock originalSlotsUsed (j + 1) originalFront
                          blockBaseDiff currentTailIndex (if firstAllocatedBlock = None then Some r else firstAllocatedBlock) q p)))"

text \<open>The emptiness of the blocks is reset from the first one to the tail block.\<close>

partial_function (option) x_reset_blocks :: "nat \<Rightarrow> nat option \<Rightarrow> 'a pool \<Rightarrow> 'a pool option" where
  "x_reset_blocks r tail q =
     (let q = update_block r reset_flags q in
      if Some r = tail then Some q
      else (case blk_next (blocks q r) of None \<Rightarrow> None | Some n \<Rightarrow> x_reset_blocks n tail q))"

partial_function (option) x_fill_blocks ::
  "nat option \<Rightarrow> u64 \<Rightarrow> u64 \<Rightarrow> 'a list \<Rightarrow> 'a pool \<Rightarrow> nat option \<Rightarrow> 'a pool option" where
  "x_fill_blocks endBlock newTailIndex currentTailIndex xs q b =
     (let stopIndex = (currentTailIndex AND NOT (BLOCK_SIZE - 1)) + BLOCK_SIZE;
          stopIndex = (if circular_less_than newTailIndex stopIndex then newTailIndex else stopIndex);
          n = unat (stopIndex - currentTailIndex) in
      if length xs < n \<or> n \<noteq> 0 \<and> b = None then None
      else let q = (case b of None \<Rightarrow> q | Some r \<Rightarrow> construct_run r currentTailIndex (take n xs) q) in
        if b = endBlock then (if stopIndex = newTailIndex then Some q else None)
        else (case b of
                None \<Rightarrow> None
              | Some r \<Rightarrow> x_fill_blocks endBlock newTailIndex stopIndex (drop n xs) q (blk_next (blocks q r))))"

text \<open>All blocks are there: publish the front of the index and fill the blocks.\<close>

definition x_fill_allocation ::
  "u64 \<Rightarrow> nat option \<Rightarrow> nat option \<Rightarrow> 'a list \<Rightarrow> 'a pool \<Rightarrow> explicit_producer \<Rightarrow> (bool \<times> 'a pool \<times> explicit_producer) option" where
  "x_fill_allocation startTailIndex startBlock firstAllocatedBlock xs q p =
     (let newTailIndex = startTailIndex + of_nat (length xs); endBlock = x_tailBlock p;
          aligned = (startTailIndex AND (BLOCK_SIZE - 1) = 0) in
      if aligned \<and> firstAllocatedBlock = None \<and> (of_nat (length xs) :: u64) \<noteq> 0 then None
      else map_option (\<lambda>q. (True, q, p\<lparr>x_tailIndex := newTailIndex\<rparr>))
        (x_fill_blocks endBlock newTailIndex startTailIndex xs q
           (if aligned \<and> firstAllocatedBlock \<noteq> None then firstAllocatedBlock else startBlock)))"

definition x_publish_blocks :: "nat option \<Rightarrow> 'a pool \<Rightarrow> explicit_producer \<Rightarrow> ('a pool \<times> explicit_producer) option" where
  "x_publish_blocks firstAllocatedBlock q p =
     (case firstAllocatedBlock of
        None \<Rightarrow> None
      | Some r \<Rightarrow>
          (case x_reset_blocks r (x_tailBlock p) q of
             None \<Rightarrow> None
           | Some q \<Rightarrow> map_option (\<lambda>p. (q, p)) (x_expose ((x_indexFront p - 1) AND (x_indexSize p - 1)) p)))"

definition explicit_enqueue_bulk ::
  "u64 \<Rightarrow> bool \<Rightarrow> (nat \<Rightarrow> bool) \<Rightarrow> (nat \<Rightarrow> bool) \<Rightarrow> 'a list \<Rightarrow> 'a pool \<times> explicit_producer \<Rightarrow>
   (bool \<times> 'a pool \<times> explicit_producer) option" where
  "explicit_enqueue_bulk max_size can_alloc index_mem block_mem xs qp =
     (let (q, p) = qp; count = of_nat (length xs); startTailIndex = x_tailIndex p; startBlock = x_tailBlock p;
          currentTailIndex = (startTailIndex - 1) AND NOT (BLOCK_SIZE - 1);
          blockBaseDiff = ((startTailIndex + count - 1) AND NOT (BLOCK_SIZE - 1)) - currentTailIndex in
      if 0 < blockBaseDiff
      then (case x_reuse_blocks q blockBaseDiff currentTailIndex None p of
              None \<Rightarrow> None
            | Some (blockBaseDiff, currentTailIndex, firstAllocatedBlock, p2) \<Rightarrow>
                (case x_allocate_blocks max_size can_alloc index_mem block_mem startBlock (x_slotsUsed p) 0 (x_indexFront p)
                        blockBaseDiff currentTailIndex firstAllocatedBlock q p2 of
                   None \<Rightarrow> None
                 | Some (False, firstAllocatedBlock, q, p) \<Rightarrow> Some (False, q, p)
                 | Some (True, firstAllocatedBlock, q, p) \<Rightarrow>
                     (case x_publish_blocks firstAllocatedBlock q p of
                        None \<Rightarrow> None
                      | Some (q, p) \<Rightarrow> x_fill_allocation startTailIndex startBlock firstAllocatedBlock xs q p)))
      else x_fill_allocation startTailIndex startBlock None xs q p)"

section \<open>Dequeueing many elements\<close>

partial_function (option) x_take_blocks ::
  "explicit_index \<Rightarrow> u64 \<Rightarrow> u64 \<Rightarrow> u64 \<Rightarrow> 'a pool \<Rightarrow> ('a list \<times> 'a pool) option" where
  "x_take_blocks ix stopIndex indexIndex i q =
     (let endIndex = (i AND NOT (BLOCK_SIZE - 1)) + BLOCK_SIZE;
          endIndex = (if circular_less_than stopIndex endIndex then stopIndex else endIndex) in
      case (if length (xi_entries ix) \<le> unat indexIndex then None else snd (xi_entries ix ! unat indexIndex)) of
        None \<Rightarrow> None
      | Some r \<Rightarrow>
          (case take_run r i (unat (endIndex - i)) q of
             None \<Rightarrow> None
           | Some (xs, q) \<Rightarrow>
               (case set_many_flags i (endIndex - i) (blocks q r) of
                  None \<Rightarrow> None
                | Some b \<Rightarrow>
                    (let q = q\<lparr>blocks := (blocks q)(r := b)\<rparr> in
                     if endIndex = stopIndex then Some (xs, q)
                     else Option.bind (x_take_blocks ix stopIndex ((indexIndex + 1) AND (xi_size ix - 1)) endIndex q)
                       (\<lambda>(ys, q). Some (xs @ ys, q))))))"

definition explicit_dequeue_bulk :: "u64 \<Rightarrow> 'a pool \<times> explicit_producer \<Rightarrow> ('a list \<times> 'a pool \<times> explicit_producer) option" where
  "explicit_dequeue_bulk max_count qp =
     (let (q, p) = qp; overcommit = x_overcommit p; desiredCount = x_tailIndex p - (x_optimistic p - overcommit) in
      if circular_less_than 0 desiredCount
      then let desiredCount = (if desiredCount < max_count then desiredCount else max_count);
               myDequeueCount = x_optimistic p; p = p\<lparr>x_optimistic := myDequeueCount + desiredCount\<rparr> in
        if myDequeueCount < overcommit then None
        else let actualCount = x_tailIndex p - (myDequeueCount - overcommit) in
          if circular_less_than 0 actualCount
          then let actualCount = (if desiredCount < actualCount then desiredCount else actualCount);
                   p = (if actualCount < desiredCount then p\<lparr>x_overcommit := x_overcommit p + (desiredCount - actualCount)\<rparr> else p);
                   firstIndex = x_headIndex p; p = p\<lparr>x_headIndex := firstIndex + actualCount\<rparr> in
            (case (x_index_of firstIndex p, x_index p) of
               (Some indexIndex, Some ix) \<Rightarrow>
                 map_option (\<lambda>(xs, q). (xs, q, p)) (x_take_blocks ix (firstIndex + actualCount) indexIndex firstIndex q)
             | _ \<Rightarrow> None)
          else Some ([], q, p\<lparr>x_overcommit := x_overcommit p + desiredCount\<rparr>)
      else Some ([], q, p))"

section \<open>The destructor\<close>

text \<open>The block that is partly dequeued.\<close>

partial_function (option) x_find_half :: "explicit_index \<Rightarrow> u64 \<Rightarrow> u64 \<Rightarrow> u64 \<Rightarrow> nat option option" where
  "x_find_half ix idx_mask head i =
     (if length (xi_entries ix) \<le> unat i then None
      else if circular_less_than (fst (xi_entries ix ! unat i) + BLOCK_SIZE) head then x_find_half ix idx_mask head ((i + 1) AND idx_mask)
      else if \<not> circular_less_than (fst (xi_entries ix ! unat i)) head then None
      else Some (snd (xi_entries ix ! unat i)))"

text \<open>The elements of block \<open>r\<close> from slot \<open>i\<close> on are destroyed, up to \<open>stop\<close>.\<close>

fun x_destroy_slots :: "nat \<Rightarrow> nat \<Rightarrow> nat \<Rightarrow> 'a pool \<Rightarrow> ('a list \<times> 'a pool) option" where
  "x_destroy_slots r i 0 q = Some ([], q)"
| "x_destroy_slots r i (Suc n) q =
     (case elements (blocks q r) ! i of
        None \<Rightarrow> None
      | Some x \<Rightarrow> map_option (\<lambda>(xs, q). (x # xs, q)) (x_destroy_slots r (i + 1) n (put_element r (of_nat i) None q)))"

partial_function (option) x_destroy_ring ::
  "nat option \<Rightarrow> nat \<Rightarrow> explicit_producer \<Rightarrow> nat \<Rightarrow> 'a pool \<Rightarrow> ('a list \<times> 'a pool) option" where
  "x_destroy_ring half tail p b q =
     (case blk_next (blocks q b) of
        None \<Rightarrow> None
      | Some r \<Rightarrow>
          (let i = (if Some r = half then slot (x_headIndex p) else 0);
               lastValidIndex = (if slot (x_tailIndex p) = 0 then 32 else slot (x_tailIndex p));
               n = (if r = tail then lastValidIndex - i else 32 - i) in
           if \<not> all_empty (blocks q r) \<and> r = tail \<and> lastValidIndex < i then None
           else case (if all_empty (blocks q r) then Some ([], q) else x_destroy_slots r i n q) of
               None \<Rightarrow> None
             | Some (xs, q) \<Rightarrow>
                 if r = tail then Some (xs, q)
                 else Option.bind (x_destroy_ring half tail p r q) (\<lambda>(ys, q). Some (xs @ ys, q))))"

text \<open>The blocks are destroyed or, if they belong to the queue's array, put on the free list.\<close>

partial_function (option) x_destroy_blocks :: "nat \<Rightarrow> nat \<Rightarrow> 'a pool \<Rightarrow> (nat list \<times> 'a pool) option" where
  "x_destroy_blocks tail b q =
     (let nextBlock = blk_next (blocks q b);
          (gone, q) = (if dynamicallyAllocated (blocks q b) then ([b], q) else ([], add_block_to_free_list b q)) in
      case nextBlock of
        None \<Rightarrow> None
      | Some n \<Rightarrow>
          if n = tail then Some (gone, q)
          else Option.bind (x_destroy_blocks tail n q) (\<lambda>(rs, q). Some (gone @ rs, q)))"

text \<open>The elements destroyed and the blocks destroyed.\<close>

definition destroy_explicit_producer :: "'a pool \<times> explicit_producer \<Rightarrow> ('a list \<times> nat list \<times> 'a pool) option" where
  "destroy_explicit_producer qp =
     (let (q, p) = qp in
      case x_tailBlock p of
        None \<Rightarrow> Some ([], [], q)
      | Some t \<Rightarrow>
          (case (if x_headIndex p AND (BLOCK_SIZE - 1) \<noteq> 0
                 then (case x_index p of
                         None \<Rightarrow> None
                       | Some ix \<Rightarrow> x_find_half ix (x_indexSize p - 1) (x_headIndex p)
                           ((x_indexFront p - x_slotsUsed p) AND (x_indexSize p - 1)))
                 else Some None) of
             None \<Rightarrow> None
           | Some half \<Rightarrow>
               (case x_destroy_ring half t p t q of
                  None \<Rightarrow> None
                | Some (xs, q) \<Rightarrow> map_option (\<lambda>(bs, q). (xs, bs, q)) (x_destroy_blocks t t q))))"

end
