(* ===== verification/Explicit_Refinement.thy ===== *)
theory Explicit_Refinement
  imports Explicit_Producer
begin

text \<open>
  The explicit producer represents a list, too. Its index, read from the front on, holds the blocks
  of the ring in the order of their bases, the tail block last; its blocks are linked in a circle;
  and the flags of a block say how far it has been dequeued.
\<close>

section \<open>Flags\<close>

text \<open>The flags of block \<open>k\<close> when the first \<open>h\<close> slots of the ring have been dequeued.\<close>

definition flags_at :: "nat \<Rightarrow> nat \<Rightarrow> bool list" where
  "flags_at k h = map (\<lambda>f. 32 * k + (31 - f) < h) [0..<32]"

lemma length_flags_at [simp]: "length (flags_at k h) = 32"
  by (simp add: flags_at_def)

lemma flags_at_nth [simp]: "f < 32 \<Longrightarrow> flags_at k h ! f \<longleftrightarrow> 32 * k + (31 - f) < h"
  by (simp add: flags_at_def)

lemma flags_at_none: "h \<le> 32 * k \<Longrightarrow> flags_at k h = replicate 32 False"
  by (rule nth_equalityI) simp_all

lemma flags_at_all: "32 * (k + 1) \<le> h \<Longrightarrow> flags_at k h = replicate 32 True"
  by (rule nth_equalityI) auto

lemma all_empty_flags: "emptyFlags b = flags_at k h \<Longrightarrow> all_empty b \<longleftrightarrow> 32 * (k + 1) \<le> h"
proof -
  assume f: "emptyFlags b = flags_at k h"
  have "list_all id (flags_at k h) \<longleftrightarrow> (\<forall>f < 32. 32 * k + (31 - f) < h)" by (simp add: list_all_length)
  also have "\<dots> \<longleftrightarrow> 32 * (k + 1) \<le> h" by (auto dest: spec [of _ 0])
  finally show ?thesis by (simp add: all_empty_def f)
qed

lemma set_flag_at:
  assumes "emptyFlags b = flags_at k h" "h = 32 * k + slot i"
  shows "set_flag i b = Some (b\<lparr>emptyFlags := flags_at k (h + 1)\<rparr>)"
proof -
  have s: "slot i < 32" by simp
  have "(flags_at k h)[31 - slot i := True] = flags_at k (h + 1)"
    by (rule nth_equalityI) (use s assms(2) in \<open>auto simp: nth_list_update simp del: slot_less\<close>)
  then show ?thesis using assms s by (simp add: set_flag_def Let_def del: slot_less)
qed

lemma set_flags_from_at:
  "emptyFlags b = flags_at k h \<Longrightarrow> h = 32 * k + s \<Longrightarrow> s + n \<le> 32 \<Longrightarrow>
   i = 32 - (s + n) + j \<Longrightarrow> j \<le> n \<Longrightarrow> fs = (\<lambda>f. if i - j \<le> f \<and> f < i then True else flags_at k h ! f) \<Longrightarrow>
   set_flags_from (n - j) i (b\<lparr>emptyFlags := map fs [0..<32]\<rparr>) = Some (b\<lparr>emptyFlags := flags_at k (h + n)\<rparr>)"
proof (induction "n - j" arbitrary: i j fs)
  case 0
  then have "j = n" "i = 32 - s" by simp_all
  then have "map fs [0..<32] = flags_at k (h + n)" using 0 by (intro nth_equalityI) (auto simp del: flags_at_nth simp: flags_at_def)
  then show ?case using 0(1) by simp
next
  case (Suc m)
  have i: "i < 32" "32 * k + (31 - i) \<ge> h" using Suc by auto
  let ?fs = "\<lambda>f. if i + 1 - (j + 1) \<le> f \<and> f < i + 1 then True else flags_at k h ! f"
  have "fs i \<longleftrightarrow> False" using Suc.prems i by simp
  moreover have "(map fs [0..<32])[i := True] = map ?fs [0..<32]"
    using Suc.prems i by (intro nth_equalityI) (auto simp: nth_list_update)
  moreover have "n - j = Suc (n - (j + 1))" "m = n - (j + 1)" using Suc.hyps(2) by simp_all
  moreover have "set_flags_from (n - (j + 1)) (i + 1) (b\<lparr>emptyFlags := map ?fs [0..<32]\<rparr>) = Some (b\<lparr>emptyFlags := flags_at k (h + n)\<rparr>)"
    by (rule Suc.hyps(1)) (use Suc in auto)
  ultimately show ?case using i(1) by simp
qed

lemma set_many_flags_at:
  assumes "emptyFlags b = flags_at k h" "h = 32 * k + slot i" "slot i + n \<le> 32"
  shows "set_many_flags i (of_nat n) b = Some (b\<lparr>emptyFlags := flags_at k (h + n)\<rparr>)"
proof -
  have a: "i AND 31 = of_nat (slot i)" by (simp add: slot_def BLOCK_SIZE_def)
  have u: "unat (of_nat n :: u64) = n" using assms(3) by (simp add: unat_of_nat take_bit_nat_eq_self)
  have "BLOCK_SIZE - 1 - (i AND (BLOCK_SIZE - 1)) - of_nat n + 1 = (of_nat (32 - (slot i + n)) :: u64)"
    using assms(3) by (simp add: a BLOCK_SIZE_def of_nat_diff)
  moreover have "unat (of_nat (32 - (slot i + n)) :: u64) = 32 - (slot i + n)" by (simp add: unat_of_nat take_bit_nat_eq_self)
  moreover have "b\<lparr>emptyFlags := map ((!) (flags_at k h)) [0..<32]\<rparr> = b" using assms(1) by (metis length_flags_at map_nth qblock.surjective qblock.update_convs(3))
  ultimately show ?thesis
    using set_flags_from_at [OF assms, of "32 - (slot i + n)" 0 "(!) (flags_at k h)"] u by (simp add: set_many_flags_def Let_def fun_eq_iff)
qed

section \<open>The index as a ring\<close>

text \<open>The entries from the front on; the blocks of the ring come last.\<close>

definition x_entries :: "(u64 \<times> nat) list \<Rightarrow> (u64 \<times> nat option) list" where
  "x_entries L = map (\<lambda>(b, r). (b, Some r)) L"

definition x_sizes :: "nat \<Rightarrow> explicit_index \<Rightarrow> explicit_producer \<Rightarrow> bool" where
  "x_sizes c ix p \<longleftrightarrow> x_index p = Some ix \<and> c \<le> 58 \<and> xi_size ix = 2 ^ c \<and> x_indexSize p = 2 ^ c \<and>
     length (xi_entries ix) = 2 ^ c \<and> unat (x_indexFront p) < 2 ^ c"

definition x_window :: "explicit_producer \<Rightarrow> u64 \<Rightarrow> nat list \<Rightarrow> bool" where
  "x_window p F rs \<longleftrightarrow> (\<exists>c ix fs. x_sizes c ix p \<and>
     rotate (unat (x_indexFront p)) (xi_entries ix) = fs @ x_entries (blocks_from F rs))"

lemma x_entries_length [simp]: "length (x_entries L) = length L"
  by (simp add: x_entries_def)

lemma x_entries_append: "x_entries (L @ [(b, r)]) = x_entries L @ [(b, Some r)]"
  by (simp add: x_entries_def)

lemma x_entries_nth: "k < length rs \<Longrightarrow> x_entries (blocks_from F rs) ! k = (F + 32 * of_nat k, Some (rs ! k))"
  by (simp add: x_entries_def blocks_from_nth)

lemma rotate_nonempty: "length xs = 2 ^ c \<Longrightarrow> rotate n xs \<noteq> []"
  by auto

text \<open>Writing the entry at the front and moving on: the oldest entry goes.\<close>

lemma x_slide:
  assumes s: "x_sizes c ix p" and p': "x_set_entry base p = Some p'"
  shows "\<exists>ix'. x_sizes c ix' (x_advance_front p') \<and> xi_front ix' = xi_front ix \<and>
    rotate (unat (x_indexFront (x_advance_front p'))) (xi_entries ix') =
      tl (rotate (unat (x_indexFront p)) (xi_entries ix)) @ [(base, x_tailBlock p)]"
proof -
  let ?f = "unat (x_indexFront p)" and ?es = "(xi_entries ix)[unat (x_indexFront p) := (base, x_tailBlock p)]"
  let ?ix = "ix\<lparr>xi_entries := ?es\<rparr>"
  have c: "c \<le> 58" "length (xi_entries ix) = 2 ^ c" "?f < 2 ^ c" "x_indexSize p = 2 ^ c" "x_index p = Some ix"
    using s by (simp_all add: x_sizes_def)
  have e: "p' = p\<lparr>x_index := Some ?ix\<rparr>" using p' c by (simp add: x_set_entry_def)
  have u: "unat ((x_indexFront p + 1) AND (2 ^ c - 1)) = (?f + 1) mod 2 ^ c"
    using unat_add_mod_power [of c "x_indexFront p" 1] c(1) by (simp add: and_capacity)
  have "rotate ((?f + 1) mod 2 ^ c) ?es = rotate1 (rotate ?f ?es)"
    using rotate_conv_mod [of "?f + 1" ?es] c(2) by simp
  also have "rotate ?f ?es = (base, x_tailBlock p) # tl (rotate ?f (xi_entries ix))"
  proof (rule nth_equalityI)
    fix k assume k: "k < length (rotate ?f ?es)"
    have "(?f + k) mod 2 ^ c = ?f \<longleftrightarrow> k = 0" using k c(2,3) by (cases "?f + k < 2 ^ c") (auto simp: mod_if)
    then show "rotate ?f ?es ! k = ((base, x_tailBlock p) # tl (rotate ?f (xi_entries ix))) ! k"
      using k c(2,3) by (cases k) (auto simp: nth_rotate nth_tl nth_list_update)
  qed (use c(2) in simp)
  finally have "rotate ((?f + 1) mod 2 ^ c) ?es = tl (rotate ?f (xi_entries ix)) @ [(base, x_tailBlock p)]" by simp
  moreover have "x_sizes c ?ix (x_advance_front p')"
    using s u by (simp add: x_sizes_def e x_advance_front_def)
  ultimately show ?thesis using u c(4) by (intro exI [of _ ?ix]) (simp add: e x_advance_front_def)
qed

lemma x_set_entry_some: "x_sizes c ix p \<Longrightarrow> \<exists>p'. x_set_entry base p = Some p'"
  by (simp add: x_sizes_def x_set_entry_def)

lemma x_set_entry_fields:
  "x_set_entry base p = Some p' \<Longrightarrow> x_tailIndex p' = x_tailIndex p \<and> x_headIndex p' = x_headIndex p \<and> x_optimistic p' = x_optimistic p \<and>
     x_overcommit p' = x_overcommit p \<and> x_tailBlock p' = x_tailBlock p \<and> x_slotsUsed p' = x_slotsUsed p \<and> x_indexFront p' = x_indexFront p \<and>
     x_indexSize p' = x_indexSize p"
  by (auto simp: x_set_entry_def split: option.splits if_splits)

lemma x_advance_fields [simp]:
  "x_tailIndex (x_advance_front p) = x_tailIndex p" "x_headIndex (x_advance_front p) = x_headIndex p"
  "x_optimistic (x_advance_front p) = x_optimistic p" "x_overcommit (x_advance_front p) = x_overcommit p"
  "x_tailBlock (x_advance_front p) = x_tailBlock p" "x_slotsUsed (x_advance_front p) = x_slotsUsed p"
  "x_index (x_advance_front p) = x_index p" "x_indexSize (x_advance_front p) = x_indexSize p"
  by (simp_all add: x_advance_front_def)

text \<open>The block ahead is entered again at the end.\<close>

lemma x_window_rotate:
  assumes w: "x_window p F (r # rs)" and t: "x_tailBlock p = Some r" and p': "x_set_entry (F + 32 * of_nat (Suc (length rs))) p = Some p'"
  shows "x_window (x_advance_front p') (F + 32) (rs @ [r])"
proof -
  obtain c ix fs where s: "x_sizes c ix p" "rotate (unat (x_indexFront p)) (xi_entries ix) = fs @ x_entries (blocks_from F (r # rs))"
    using w by (auto simp: x_window_def)
  have "F + 32 + 32 * of_nat (length rs) = F + 32 * of_nat (Suc (length rs))" by (simp add: algebra_simps)
  then have "x_entries (blocks_from (F + 32) (rs @ [r])) = tl (x_entries (blocks_from F (r # rs))) @ [(F + 32 * of_nat (Suc (length rs)), Some r)]"
    by (simp add: blocks_from_append x_entries_def)
  moreover have "x_entries (blocks_from F (r # rs)) \<noteq> []" by (simp add: x_entries_def)
  ultimately have "tl (fs @ x_entries (blocks_from F (r # rs))) @ [(F + 32 * of_nat (Suc (length rs)), Some r)] =
      (if fs = [] then [] else tl fs @ [hd (x_entries (blocks_from F (r # rs)))]) @ x_entries (blocks_from (F + 32) (rs @ [r]))"
    by (cases fs) (simp_all add: x_entries_def)
  then show ?thesis using x_slide [OF s(1) p'] unfolding x_window_def s(2) t by metis
qed

text \<open>A new block is entered at the end if there is room.\<close>

lemma x_window_append:
  assumes s: "x_sizes c ix p" "rotate (unat (x_indexFront p)) (xi_entries ix) = fs @ x_entries (blocks_from F rs)" and room: "length rs < 2 ^ c"
    and t: "x_tailBlock p = Some r" and p': "x_set_entry (F + 32 * of_nat (length rs)) p = Some p'"
  shows "x_window (x_advance_front p') F (rs @ [r])"
proof -
  have "fs \<noteq> []" using arg_cong [OF s(2), of length] s(1) room by (auto simp: x_sizes_def)
  then have "tl (fs @ x_entries (blocks_from F rs)) @ [(F + 32 * of_nat (length rs), Some r)] = tl fs @ x_entries (blocks_from F (rs @ [r]))"
    by (cases fs) (simp_all add: blocks_from_append x_entries_append)
  then show ?thesis using x_slide [OF s(1) p'] unfolding x_window_def s(2) t by metis
qed

section \<open>A larger index\<close>

lemma x_copy_index_drop:
  assumes c: "c \<le> 58" "length es = 2 ^ c" "unat front < 2 ^ c"
  shows "0 < k \<Longrightarrow> k \<le> 2 ^ c \<Longrightarrow> unat i = (unat front + (2 ^ c - k)) mod 2 ^ c \<Longrightarrow>
    x_copy_index (2 ^ c - 1) front es i = Some (drop (2 ^ c - k) (rotate (unat front) es))"
proof (induction k arbitrary: i)
  case (Suc k)
  let ?i = "(i + 1) AND (2 ^ c - 1)"
  have u: "unat ?i = (unat front + (2 ^ c - k)) mod 2 ^ c"
  proof -
    have "unat ?i = (unat i + 1) mod 2 ^ c" using unat_add_mod_power [of c i 1] c(1) by (simp add: and_capacity)
    also have "\<dots> = (unat front + (2 ^ c - Suc k) + 1) mod 2 ^ c" using Suc.prems(3) by (simp only: mod_add_left_eq)
    also have "unat front + (2 ^ c - Suc k) + 1 = unat front + (2 ^ c - k)" using Suc.prems(2) by simp
    finally show ?thesis .
  qed
  have last: "?i = front \<longleftrightarrow> k = 0"
  proof -
    have "?i = front \<longleftrightarrow> (unat front + (2 ^ c - k)) mod 2 ^ c = unat front" using u by (metis word_unat_eq_iff)
    also have "\<dots> \<longleftrightarrow> k = 0"
      using c(3) Suc.prems(2) by (cases "unat front + (2 ^ c - k) < 2 ^ c") (auto simp: mod_if)
    finally show ?thesis .
  qed
  have i: "unat i < 2 ^ c" using Suc.prems(3) by simp
  have "drop (2 ^ c - Suc k) (rotate (unat front) es) = es ! unat i # drop (2 ^ c - k) (rotate (unat front) es)"
  proof -
    have "drop (2 ^ c - Suc k) (rotate (unat front) es) =
        rotate (unat front) es ! (2 ^ c - Suc k) # drop (Suc (2 ^ c - Suc k)) (rotate (unat front) es)"
      using c(2) Suc.prems(2) by (intro Cons_nth_drop_Suc [symmetric]) simp
    moreover have "Suc (2 ^ c - Suc k) = 2 ^ c - k" using Suc.prems(2) by simp
    moreover have "rotate (unat front) es ! (2 ^ c - Suc k) = es ! unat i"
      using c(2) Suc.prems(2,3) by (simp add: nth_rotate)
    ultimately show ?thesis by simp
  qed
  then show ?case
  proof (cases "k = 0")
    case True
    then show ?thesis using last i c(2) \<open>drop (2 ^ c - Suc k) _ = _\<close> by (subst x_copy_index.simps) (simp add: Let_def)
  next
    case False
    then have "x_copy_index (2 ^ c - 1) front es ?i = Some (drop (2 ^ c - k) (rotate (unat front) es))"
      using Suc.IH [OF _ _ u] Suc.prems(2) by simp
    then show ?thesis
      using last i c(2) False \<open>drop (2 ^ c - Suc k) _ = _\<close> by (subst x_copy_index.simps) (simp add: Let_def)
  qed
qed simp

section \<open>Positions in the index\<close>

lemma unat_pred_power: "c < 64 \<Longrightarrow> unat (2 ^ c - 1 :: u64) = 2 ^ c - 1"
proof -
  assume "c < 64"
  then have u: "unat (2 ^ c :: u64) = 2 ^ c" by (rule unat_2_power)
  then have "(2 ^ c :: u64) \<noteq> 0" by (metis power_not_zero unat_0 zero_neq_numeral)
  then show ?thesis using u by (simp add: unat_minus_one)
qed

text \<open>The index has block \<open>k\<close> of the ring \<open>k\<close> slots behind slot \<open>o\<close>.\<close>

definition x_positions :: "nat \<Rightarrow> explicit_index \<Rightarrow> nat \<Rightarrow> u64 \<Rightarrow> nat list \<Rightarrow> bool" where
  "x_positions c ix at F rs \<longleftrightarrow> c \<le> 58 \<and> xi_size ix = 2 ^ c \<and> length (xi_entries ix) = 2 ^ c \<and>
     (\<forall>k < length rs. xi_entries ix ! ((at + k) mod 2 ^ c) = (F + 32 * of_nat k, Some (rs ! k)))"

lemma x_window_positions:
  assumes s: "x_sizes c ix p" "rotate (unat (x_indexFront p)) (xi_entries ix) = fs @ x_entries (blocks_from F rs)"
  shows "x_positions c ix (unat (x_indexFront p) + length fs) F rs" "length fs + length rs = 2 ^ c"
proof -
  let ?f = "unat (x_indexFront p)"
  have c: "length (xi_entries ix) = 2 ^ c" using s(1) by (simp add: x_sizes_def)
  show l: "length fs + length rs = 2 ^ c" using arg_cong [OF s(2), of length] c by simp
  have "xi_entries ix ! ((?f + length fs + k) mod 2 ^ c) = (F + 32 * of_nat k, Some (rs ! k))" if "k < length rs" for k
  proof -
    have "rotate ?f (xi_entries ix) ! (length fs + k) = xi_entries ix ! ((?f + (length fs + k)) mod 2 ^ c)"
      using l that c by (simp add: nth_rotate)
    then show ?thesis using that unfolding s(2) by (simp add: nth_append x_entries_nth add.assoc)
  qed
  then show "x_positions c ix (?f + length fs) F rs" using s(1) by (simp add: x_positions_def x_sizes_def)
qed

lemma x_positions_block:
  assumes "x_positions c ix at F rs" "k < length rs" "unat i = (at + k) mod 2 ^ c"
  shows "unat i < length (xi_entries ix)" "snd (xi_entries ix ! unat i) = Some (rs ! k)"
  using assms by (simp_all add: x_positions_def)

lemma x_positions_next:
  assumes "x_positions c ix at F rs" "unat i = (at + k) mod 2 ^ c"
  shows "unat ((i + 1) AND (xi_size ix - 1)) = (at + Suc k) mod 2 ^ c"
proof -
  have c: "c \<le> 64" "xi_size ix = 2 ^ c" using assms(1) by (simp_all add: x_positions_def)
  have "unat ((i + 1) AND (xi_size ix - 1)) = (unat i + 1) mod 2 ^ c" using unat_add_mod_power [OF c(1), of i 1] by (simp add: c(2) and_capacity)
  also have "\<dots> = (at + k + 1) mod 2 ^ c" unfolding assms(2) by (rule mod_add_left_eq)
  finally show ?thesis by simp
qed

text \<open>The tail block is at the front that consumers see; the others are found by their distance from it.\<close>

definition x_exposed :: "explicit_producer \<Rightarrow> bool" where
  "x_exposed p \<longleftrightarrow> (\<forall>ix. x_index p = Some ix \<longrightarrow> xi_front ix = (x_indexFront p - 1) AND (x_indexSize p - 1))"

lemma x_lookup:
  assumes s: "x_sizes c ix p" "rotate (unat (x_indexFront p)) (xi_entries ix) = fs @ x_entries (blocks_from F rs)" and ex: "x_exposed p"
    and k: "k < length rs" "length rs \<le> 2 ^ 58" and idx: "idx AND NOT (BLOCK_SIZE - 1) = F + 32 * of_nat k"
  shows "\<exists>i. x_index_of idx p = Some i \<and> unat i = (unat (x_indexFront p) + length fs + k) mod 2 ^ c"
proof -
  let ?f = "unat (x_indexFront p)" and ?m = "length rs"
  note w = x_window_positions [OF s]
  have c: "x_index p = Some ix" "c \<le> 58" "xi_size ix = 2 ^ c" "x_indexSize p = 2 ^ c" "length (xi_entries ix) = 2 ^ c"
    using s(1) by (simp_all add: x_sizes_def)
  have fr: "unat (xi_front ix) = (?f + length fs + (?m - 1)) mod 2 ^ c"
  proof -
    have e: "?f + length fs + (?m - 1) = ?f + (2 ^ c - 1)" using w(2) k by simp
    have "unat (2 ^ c - 1 :: u64) = 2 ^ c - 1" using unat_pred_power [of c] c(2) by simp
    then have "unat (x_indexFront p + (2 ^ c - 1)) mod 2 ^ c = (?f + (2 ^ c - 1)) mod 2 ^ c"
      using unat_add_mod_power [of c "x_indexFront p" "2 ^ c - 1"] c(2) by simp
    moreover have "unat (x_indexFront p - 1) mod 2 ^ c = unat (x_indexFront p + (2 ^ c - 1)) mod 2 ^ c"
    proof -
      have e: "x_indexFront p + (2 ^ c - 1) = x_indexFront p - 1 + 2 ^ c" by simp
      show ?thesis unfolding e using unat_add_mod_power [of c "x_indexFront p - 1" "2 ^ c"] unat_2_power [of c] c(2) by simp
    qed
    moreover have "xi_front ix = (x_indexFront p - 1) AND (2 ^ c - 1)" using ex c(1,4) by (simp add: x_exposed_def)
    ultimately show ?thesis unfolding e by (simp add: and_capacity)
  qed
  have pos: "xi_entries ix ! ((?f + length fs + j) mod 2 ^ c) = (F + 32 * of_nat j, Some (rs ! j))" if "j < ?m" for j
    using w(1) that by (simp add: x_positions_def)
  have base: "fst (xi_entries ix ! unat (xi_front ix)) = F + 32 * of_nat (?m - 1)" using pos [of "?m - 1"] k(1) fr by simp
  let ?i = "(xi_front ix + (F + 32 * of_nat k - (F + 32 * of_nat (?m - 1))) div BLOCK_SIZE) AND (xi_size ix - 1)"
  have "F + 32 * of_nat k - (F + 32 * of_nat (?m - 1)) = 32 * of_nat k - (32 * of_nat (?m - 1) :: u64)" by simp
  moreover have "?m - 1 < 2 ^ 58" "k < 2 ^ 58" using k by linarith+
  ultimately have "unat ?i = (unat (xi_front ix) + (k + (2 ^ 59 - (?m - 1)))) mod 2 ^ c"
    using offset_between [of "?m - 1" k c "xi_front ix"] c(2) by (simp only: c(3) and_capacity BLOCK_SIZE_def)
  also have "\<dots> = (?f + length fs + (?m - 1) + (k + (2 ^ 59 - (?m - 1)))) mod 2 ^ c" unfolding fr by (rule mod_add_left_eq)
  also have "?f + length fs + (?m - 1) + (k + (2 ^ 59 - (?m - 1))) = ?f + length fs + k + 2 ^ 59" using k by simp
  also have "(?f + length fs + k + 2 ^ 59) mod 2 ^ c = (?f + length fs + k) mod 2 ^ c"
  proof -
    have "(2 :: nat) ^ c dvd 2 ^ 59" using c(2) by (intro le_imp_power_dvd) simp
    then obtain q where q: "(2 :: nat) ^ 59 = 2 ^ c * q" by (rule dvdE)
    show ?thesis by (simp only: q mod_mult_self2)
  qed
  finally have u: "unat ?i = (?f + length fs + k) mod 2 ^ c" .
  have "unat (xi_front ix) < length (xi_entries ix)" using fr c(5) by simp
  then have "x_index_of idx p = Some ?i" using base by (simp add: x_index_of_def c(1) Let_def idx)
  then show ?thesis using u by blast
qed

text \<open>The copied entries come first in a larger index, and the rest is free.\<close>

lemma x_new_index_window:
  assumes c: "c < 58" "x_indexSize p = 2 ^ c"
    and old: "(if x_slotsUsed p \<noteq> 0
      then (case x_index p of None \<Rightarrow> None
            | Some ix \<Rightarrow> x_copy_index (2 ^ c - 1) (x_indexFront p) (xi_entries ix) ((x_indexFront p - x_slotsUsed p) AND (2 ^ c - 1)))
      else Some []) = Some (x_entries (blocks_from F rs))" and l: "length rs \<le> 2 ^ c"
  shows "\<exists>ix. x_new_block_index True e p = Some (True, p\<lparr>x_indexSize := 2 ^ (c + 1), x_index := Some ix, x_indexFront := of_nat (length rs)\<rparr>) \<and>
    xi_front ix = e - 1 \<and> x_window (p\<lparr>x_indexSize := 2 ^ (c + 1), x_index := Some ix, x_indexFront := of_nat (length rs)\<rparr>) F rs"
proof -
  let ?old = "x_entries (blocks_from F rs)"
  have l': "length rs < 2 ^ (c + 1)" using l by (simp add: le_less_trans)
  have s: "push_bit 1 (2 ^ c :: u64) = 2 ^ (c + 1)" by (simp add: push_bit_eq_mult)
  have u: "unat (2 ^ (c + 1) :: u64) = 2 ^ (c + 1)" using c(1) by (intro unat_2_power) simp
  have lu: "unat (of_nat (length rs) :: u64) = length rs"
  proof -
    have "(2 :: nat) ^ (c + 1) \<le> 2 ^ 63" using c(1) by (intro power_increasing) simp_all
    then show ?thesis using l' by (simp add: unat_of_nat take_bit_nat_eq_self)
  qed
  let ?es = "?old @ replicate (2 ^ (c + 1) - length rs) (0, None)"
  let ?ix = "\<lparr>xi_size = 2 ^ (c + 1), xi_front = e - 1, xi_entries = ?es\<rparr>"
  let ?p = "p\<lparr>x_indexSize := 2 ^ (c + 1), x_index := Some ?ix, x_indexFront := of_nat (length rs)\<rparr>"
  have "x_new_block_index True e p = Some (True, ?p)"
  proof -
    have sel: "x_slotsUsed (p\<lparr>x_indexSize := z\<rparr>) = x_slotsUsed p" "x_index (p\<lparr>x_indexSize := z\<rparr>) = x_index p"
      "x_indexFront (p\<lparr>x_indexSize := z\<rparr>) = x_indexFront p" "x_indexSize (p\<lparr>x_indexSize := z\<rparr>) = z" for z by simp_all
    have "\<not> 2 ^ (c + 1) < length ?old" using l' by simp
    then show ?thesis
      by (simp only: x_new_block_index_def Let_def c(2) s sel old if_False not_True_eq_False option.case u x_entries_length length_blocks_from)
  qed
  moreover have "x_sizes (c + 1) ?ix ?p" using c l' by (simp add: x_sizes_def lu)
  moreover have "rotate (unat (x_indexFront ?p)) (xi_entries ?ix) = replicate (2 ^ (c + 1) - length rs) (0, None) @ ?old"
    using rotate_append [of ?old "replicate (2 ^ (c + 1) - length rs) (0, None)"] by (simp add: lu)
  then have "x_window ?p F rs" using \<open>x_sizes (c + 1) ?ix ?p\<close> unfolding x_window_def by blast
  ultimately show ?thesis by (intro exI [of _ ?ix]) simp
qed

end
