(* ===== verification/Explicit_Queue.thy ===== *)
theory Explicit_Queue
  imports Explicit_Refinement
begin

text \<open>
  An explicit producer represents a list: the ring of its blocks holds the elements one after the
  other from the \<open>h\<close>-th slot on, and \<open>enqueue\<close> and \<open>dequeue\<close> work on it as on a first-in first-out
  queue.
\<close>

section \<open>The circle of blocks\<close>

definition x_links :: "(nat \<Rightarrow> nat option) \<Rightarrow> nat list \<Rightarrow> bool" where
  "x_links nx rs \<longleftrightarrow> (\<forall>k < length rs. nx (rs ! k) = Some (rs ! (Suc k mod length rs)))"

lemma x_links_cong: "(\<And>r. r \<in> set rs \<Longrightarrow> nx' r = nx r) \<Longrightarrow> x_links nx' rs = x_links nx rs"
  by (simp add: x_links_def)

lemma x_links_last: "x_links nx rs \<Longrightarrow> rs \<noteq> [] \<Longrightarrow> nx (last rs) = Some (hd rs)"
  by (cases "length rs") (auto simp: x_links_def last_conv_nth hd_conv_nth dest: spec [of _ "length rs - 1"])

lemma x_links_rotate: "x_links nx (r # rs) \<Longrightarrow> x_links nx (rs @ [r])"
proof -
  assume l: "x_links nx (r # rs)"
  have "nx (rotate1 (r # rs) ! k) = Some (rotate1 (r # rs) ! (Suc k mod length (r # rs)))" if "k < length (r # rs)" for k
  proof -
    have "rotate1 (r # rs) ! k = (r # rs) ! (Suc k mod length (r # rs))" using that by (rule nth_rotate1)
    moreover have "rotate1 (r # rs) ! (Suc k mod length (r # rs)) = (r # rs) ! (Suc (Suc k mod length (r # rs)) mod length (r # rs))"
      by (rule nth_rotate1) simp
    ultimately show ?thesis using l by (simp add: x_links_def del: nth_Cons_Suc)
  qed
  then show ?thesis by (simp add: x_links_def)
qed

lemma x_links_append:
  assumes l: "x_links nx rs" and d: "distinct (rs @ [r])" and ne: "rs \<noteq> []"
  shows "x_links (nx(r := nx (last rs), last rs := Some r)) (rs @ [r])"
proof -
  let ?n = "length rs" and ?nx = "nx(r := nx (last rs), last rs := Some r)"
  have la: "last rs = rs ! (?n - 1)" "?n \<noteq> 0" using ne by (simp_all add: last_conv_nth)
  have "?nx ((rs @ [r]) ! k) = Some ((rs @ [r]) ! (Suc k mod Suc ?n))" if "k < Suc ?n" for k
  proof (cases "Suc k < ?n")
    case True
    then have "rs ! k \<noteq> rs ! (?n - 1)" "rs ! k \<noteq> r" using d la(2) by (auto simp: nth_eq_iff_index_eq)
    then show ?thesis using l True la(1) by (simp add: x_links_def nth_append)
  next
    case False
    show ?thesis
    proof (cases "k = ?n")
      case True
      have "r \<noteq> last rs" using d ne by (metis last_in_set distinct_append disjoint_iff list.set_intros(1))
      then show ?thesis using True x_links_last [OF l ne] ne by (simp add: nth_append hd_conv_nth)
    next
      case F: False
      then have k: "Suc k = ?n" using False that by simp
      then have "rs ! k = last rs" using la(1) by (metis diff_Suc_1)
      then show ?thesis using k by (auto simp: nth_append)
    qed
  qed
  then show ?thesis by (simp add: x_links_def)
qed

text \<open>The last \<open>g\<close> blocks are reserved: all their flags are set. In the others the flags say which of
  the first \<open>h\<close> slots have been dequeued.\<close>

definition x_ring :: "'a pool \<Rightarrow> nat list \<Rightarrow> nat \<Rightarrow> nat \<Rightarrow> bool" where
  "x_ring q rs g h \<longleftrightarrow> distinct rs \<and> x_links (\<lambda>r. blk_next (blocks q r)) rs \<and>
     (\<forall>k < length rs. length (elements (blocks q (rs ! k))) = 32 \<and>
        emptyFlags (blocks q (rs ! k)) = (if k < length rs - g then flags_at k h else replicate 32 True))"

lemma x_ring_block:
  "x_ring q rs g h \<Longrightarrow> k < length rs \<Longrightarrow> length (elements (blocks q (rs ! k))) = 32 \<and>
     emptyFlags (blocks q (rs ! k)) = (if k < length rs - g then flags_at k h else replicate 32 True)"
  by (simp add: x_ring_def)

definition x_content :: "'a pool \<Rightarrow> nat list \<Rightarrow> nat \<Rightarrow> 'a list \<Rightarrow> bool" where
  "x_content q rs h xs \<longleftrightarrow> h + length xs \<le> 32 * length rs \<and>
     (\<forall>j < length xs. elements (blocks q (rs ! ((h + j) div 32))) ! ((h + j) mod 32) = Some (xs ! j))"

text \<open>Without an index there are no blocks.\<close>

definition x_indexed :: "explicit_producer \<Rightarrow> u64 \<Rightarrow> nat list \<Rightarrow> bool" where
  "x_indexed p F rs \<longleftrightarrow> x_index p = None \<and> rs = [] \<and> (\<exists>c < 58. x_indexSize p = 2 ^ c) \<or> x_window p F rs"

text \<open>\<open>slotsUsed\<close> may be \<open>u\<close> less than the number of blocks.\<close>

definition x_state ::
  "'a pool \<Rightarrow> explicit_producer \<Rightarrow> u64 \<Rightarrow> nat \<Rightarrow> nat list \<Rightarrow> nat \<Rightarrow> 'a list \<Rightarrow> nat \<Rightarrow> bool" where
  "x_state q p F h rs g xs u \<longleftrightarrow> x_ring q rs g h \<and> x_content q rs h xs \<and> x_indexed p F rs \<and> slot F = 0 \<and>
     x_headIndex p = F + of_nat h \<and> x_tailIndex p = F + of_nat (h + length xs) \<and> x_optimistic p = x_headIndex p \<and>
     x_overcommit p = 0 \<and> x_tailBlock p = (if rs = [] then None else Some (last rs)) \<and> u \<le> length rs \<and>
     x_slotsUsed p = of_nat (length rs - u) \<and> length rs < 2 ^ 58"

definition x_rep :: "'a pool \<Rightarrow> explicit_producer \<Rightarrow> u64 \<Rightarrow> nat \<Rightarrow> nat list \<Rightarrow> 'a list \<Rightarrow> nat \<Rightarrow> bool" where
  "x_rep q p F h rs xs u \<longleftrightarrow> x_state q p F h rs 0 xs u \<and> length rs = (h + length xs + 31) div 32 \<and> (rs \<noteq> [] \<longrightarrow> x_exposed p)"

lemma x_window_fields [simp]:
  "x_window (p\<lparr>x_tailBlock := b\<rparr>) F rs = x_window p F rs" "x_window (p\<lparr>x_slotsUsed := i\<rparr>) F rs = x_window p F rs"
  "x_window (p\<lparr>x_tailIndex := i\<rparr>) F rs = x_window p F rs" "x_window (p\<lparr>x_headIndex := i\<rparr>) F rs = x_window p F rs"
  "x_window (p\<lparr>x_optimistic := i\<rparr>) F rs = x_window p F rs" "x_window (p\<lparr>x_overcommit := i\<rparr>) F rs = x_window p F rs"
  by (simp_all add: x_window_def x_sizes_def)

lemma x_exposed_fields [simp]:
  "x_exposed (p\<lparr>x_tailBlock := b\<rparr>) = x_exposed p" "x_exposed (p\<lparr>x_slotsUsed := i\<rparr>) = x_exposed p"
  "x_exposed (p\<lparr>x_tailIndex := i\<rparr>) = x_exposed p" "x_exposed (p\<lparr>x_headIndex := i\<rparr>) = x_exposed p"
  "x_exposed (p\<lparr>x_optimistic := i\<rparr>) = x_exposed p" "x_exposed (p\<lparr>x_overcommit := i\<rparr>) = x_exposed p"
  by (simp_all add: x_exposed_def)

lemma x_indexed_fields [simp]:
  "x_indexed (p\<lparr>x_tailBlock := b\<rparr>) F rs = x_indexed p F rs" "x_indexed (p\<lparr>x_slotsUsed := i\<rparr>) F rs = x_indexed p F rs"
  "x_indexed (p\<lparr>x_tailIndex := i\<rparr>) F rs = x_indexed p F rs" "x_indexed (p\<lparr>x_headIndex := i\<rparr>) F rs = x_indexed p F rs"
  "x_indexed (p\<lparr>x_optimistic := i\<rparr>) F rs = x_indexed p F rs" "x_indexed (p\<lparr>x_overcommit := i\<rparr>) F rs = x_indexed p F rs"
  by (simp_all add: x_indexed_def)

text \<open>Only the blocks of the ring matter.\<close>

lemma x_ring_cong:
  assumes "x_ring q rs g h"
    and "\<And>r. r \<in> set rs \<Longrightarrow> blk_next (blocks q' r) = blk_next (blocks q r) \<and> emptyFlags (blocks q' r) = emptyFlags (blocks q r) \<and>
      length (elements (blocks q' r)) = length (elements (blocks q r))"
  shows "x_ring q' rs g h"
  using assms x_links_cong [of rs "\<lambda>r. blk_next (blocks q' r)" "\<lambda>r. blk_next (blocks q r)"] by (simp add: x_ring_def)

lemma x_content_cong:
  assumes "x_content q rs h xs" and "\<And>r. r \<in> set rs \<Longrightarrow> elements (blocks q' r) = elements (blocks q r)"
  shows "x_content q' rs h xs"
  using assms by (auto simp: x_content_def intro!: assms(2) nth_mem)

lemma x_state_frame:
  assumes "x_state q p F h rs g xs u" and "\<And>r. r \<in> set rs \<Longrightarrow> blocks q' r = blocks q r"
  shows "x_state q' p F h rs g xs u"
  using assms x_ring_cong [of q rs g h q'] x_content_cong [of q rs h xs q'] by (simp add: x_state_def)

lemma x_rep_frame: "x_rep q p F h rs xs u \<Longrightarrow> (\<And>r. r \<in> set rs \<Longrightarrow> blocks q' r = blocks q r) \<Longrightarrow> x_rep q' p F h rs xs u"
  unfolding x_rep_def using x_state_frame by blast

lemma x_fill_bound: "h + n \<le> 32 * m \<Longrightarrow> j < n \<Longrightarrow> (h + j) div 32 < (m :: nat)"
  by (simp add: div_less_iff_less_mult)

section \<open>Blocks join the ring\<close>

text \<open>There is room in the index for one more block.\<close>

definition x_room :: "explicit_producer \<Rightarrow> u64 \<Rightarrow> nat list \<Rightarrow> bool" where
  "x_room p F rs \<longleftrightarrow> (\<exists>c ix fs. x_sizes c ix p \<and> rotate (unat (x_indexFront p)) (xi_entries ix) = fs @ x_entries (blocks_from F rs) \<and>
     length rs < 2 ^ c)"

lemma x_room_enter:
  assumes "x_room p F rs" "x_tailBlock p = Some r"
  shows "\<exists>p'. x_set_entry (F + 32 * of_nat (length rs)) p = Some p' \<and> x_window (x_advance_front p') F (rs @ [r])"
proof -
  obtain c ix fs where s: "x_sizes c ix p" "rotate (unat (x_indexFront p)) (xi_entries ix) = fs @ x_entries (blocks_from F rs)" "length rs < 2 ^ c"
    using assms(1) by (auto simp: x_room_def)
  obtain p' where "x_set_entry (F + 32 * of_nat (length rs)) p = Some p'" using x_set_entry_some [OF s(1)] by blast
  then show ?thesis using x_window_append [OF s assms(2)] by blast
qed

lemma x_room_fields [simp]:
  "x_room (p\<lparr>x_tailBlock := b\<rparr>) F rs = x_room p F rs" "x_room (p\<lparr>x_slotsUsed := i\<rparr>) F rs = x_room p F rs"
  by (simp_all add: x_room_def x_sizes_def)

definition keeps :: "('a qblock \<Rightarrow> 'a qblock) \<Rightarrow> bool list \<Rightarrow> bool" where
  "keeps f fl \<longleftrightarrow> (\<forall>b. f b = b\<lparr>emptyFlags := fl\<rparr>)"

lemma keeps_flags: "keeps reset_flags (replicate 32 False)" "keeps set_all_flags (replicate 32 True)"
  by (simp_all add: keeps_def reset_flags_def set_all_flags_def)

lemma x_insert_block_fields:
  assumes "x_insert_block r (update_block r f q) p = (q', p')" "keeps f fl"
  shows "p' = p\<lparr>x_tailBlock := Some r\<rparr>" "elements (blocks q' x) = elements (blocks q x)"
    "emptyFlags (blocks q' x) = (if x = r then fl else emptyFlags (blocks q x))"
    "dynamicallyAllocated (blocks q' x) = dynamicallyAllocated (blocks q x)"
    "(\<lambda>x. blk_next (blocks q' x)) = (case x_tailBlock p of None \<Rightarrow> (\<lambda>x. blk_next (blocks q x))(r := Some r)
      | Some t \<Rightarrow> (\<lambda>x. blk_next (blocks q x))(r := blk_next (blocks q t), t := Some r))"
    "x \<noteq> r \<Longrightarrow> Some x \<noteq> x_tailBlock p \<Longrightarrow> blocks q' x = blocks q x"
    "free_list q' = free_list q" "next_block q' = next_block q" "pool_index q' = pool_index q" "pool_size q' = pool_size q"
  using assms by (auto simp: x_insert_block_def update_block_def set_next_def keeps_def Let_def fun_eq_iff split: option.splits if_splits)

lemma x_insert_block_pool:
  assumes "x_insert_block r (update_block r f q) p = (q', p')" "keeps f fl"
  shows "pool_ok q' U = pool_ok q U"
  using x_insert_block_fields [OF assms] by (simp add: pool_ok_def initial_left_def)

lemma x_append:
  assumes st: "x_state q p F h rs g xs u" and room: "x_room p F rs" and fresh: "r \<notin> set rs" "length (elements (blocks q r)) = 32"
    and f: "keeps f (replicate 32 (g' \<noteq> 0))" "g' = Suc g \<or> g = 0 \<and> g' = 0" and n: "Suc (length rs) < 2 ^ 58"
    and ins: "x_insert_block r (update_block r f q) p = (q', p1)"
  shows "\<exists>p2. x_set_entry (F + 32 * of_nat (length rs)) (p1\<lparr>x_slotsUsed := x_slotsUsed p1 + 1\<rparr>) = Some p2 \<and>
    x_state q' (x_advance_front p2) F h (rs @ [r]) g' xs u \<and> x_headIndex p2 = x_headIndex p \<and> x_tailIndex p2 = x_tailIndex p"
proof -
  note i = x_insert_block_fields [OF ins f(1)]
  let ?p = "p1\<lparr>x_slotsUsed := x_slotsUsed p1 + 1\<rparr>"
  have k: "x_ring q rs g h" "x_content q rs h xs" "u \<le> length rs" "x_slotsUsed p = of_nat (length rs - u)"
    "x_tailBlock p = (if rs = [] then None else Some (last rs))" using st by (simp_all add: x_state_def)
  obtain p2 where p2: "x_set_entry (F + 32 * of_nat (length rs)) ?p = Some p2" "x_window (x_advance_front p2) F (rs @ [r])"
    using x_room_enter [of ?p F rs r] room i(1) by auto
  note fs = x_set_entry_fields [OF p2(1)]
  have sl: "x_slotsUsed (x_advance_front p2) = of_nat (length (rs @ [r]) - u)" using fs i(1) k(3,4) by (simp add: Suc_diff_le)
  have ring: "x_ring q' (rs @ [r]) g' h"
  proof -
    have "distinct (rs @ [r])" using k(1) fresh by (simp add: x_ring_def)
    moreover have "x_links (\<lambda>x. blk_next (blocks q' x)) (rs @ [r])"
    proof (cases "rs = []")
      case True
      then show ?thesis using i(5) k(5) by (simp add: x_links_def)
    next
      case False
      then show ?thesis using i(5) k(1,5) x_links_append [of "\<lambda>x. blk_next (blocks q x)" rs r] fresh(1) by (simp add: x_ring_def)
    qed
    moreover have "length (elements (blocks q' ((rs @ [r]) ! j))) = 32 \<and> emptyFlags (blocks q' ((rs @ [r]) ! j)) =
        (if j < length (rs @ [r]) - g' then flags_at j h else replicate 32 True)" if "j < length (rs @ [r])" for j
    proof (cases "j < length rs")
      case True
      then have "rs ! j \<noteq> r" using fresh(1) nth_mem by blast
      then show ?thesis using True k(1) f(2) i(2,3) by (auto simp: x_ring_def nth_append)
    next
      case False
      then have "j = length rs" using that by simp
      moreover have "h \<le> 32 * length rs" using k(2) by (simp add: x_content_def)
      ultimately show ?thesis using fresh(2) f(2) i(2,3) by (auto simp: flags_at_none)
    qed
    ultimately show ?thesis by (simp add: x_ring_def)
  qed
  have con: "x_content q' (rs @ [r]) h xs"
    using k(2) i(2) x_fill_bound [of h "length xs" "length rs"] by (auto simp: x_content_def nth_append)
  have "x_state q' (x_advance_front p2) F h (rs @ [r]) g' xs u"
    using st ring con p2(2) sl fs i(1) n by (simp add: x_state_def x_indexed_def)
  then show ?thesis using p2(1) fs i(1) by auto
qed

text \<open>The block ahead becomes the last one.\<close>

lemma x_reuse:
  assumes st: "x_state q p F h (r # rs) g xs u" and h: "32 \<le> h" "g \<le> length rs"
    and f: "keeps f (replicate 32 (g' \<noteq> 0))" "g' = Suc g \<or> g = 0 \<and> g' = 0"
  shows "\<exists>p2. x_set_entry (F + 32 * of_nat (Suc (length rs))) (p\<lparr>x_tailBlock := Some r\<rparr>) = Some p2 \<and>
    x_state (update_block r f q) (x_advance_front p2) (F + 32) (h - 32) (rs @ [r]) g' xs u \<and>
    x_headIndex p2 = x_headIndex p \<and> x_tailIndex p2 = x_tailIndex p"
proof -
  let ?p = "p\<lparr>x_tailBlock := Some r\<rparr>" and ?q = "update_block r f q" and ?base = "F + 32 * of_nat (Suc (length rs))"
  have k: "x_ring q (r # rs) g h" "x_content q (r # rs) h xs" "x_window p F (r # rs)" "slot F = 0" using st by (auto simp: x_state_def x_indexed_def)
  have b: "elements (blocks ?q x) = elements (blocks q x)" "blk_next (blocks ?q x) = blk_next (blocks q x)"
    "emptyFlags (blocks ?q x) = (if x = r then replicate 32 (g' \<noteq> 0) else emptyFlags (blocks q x))" for x
    using f(1) by (simp_all add: update_block_def keeps_def)
  have w: "x_window ?p F (r # rs)" using k(3) by simp
  then obtain c ix where "x_sizes c ix ?p" unfolding x_window_def by blast
  from x_set_entry_some [OF this] obtain p2 where p2: "x_set_entry ?base ?p = Some p2" by blast
  have w2: "x_window (x_advance_front p2) (F + 32) (rs @ [r])" by (rule x_window_rotate [OF w _ p2]) simp
  note fs = x_set_entry_fields [OF p2]
  have ring: "x_ring ?q (rs @ [r]) g' (h - 32)"
  proof -
    have d: "distinct (rs @ [r])" "r \<notin> set rs" using k(1) by (simp_all add: x_ring_def)
    moreover have "x_links (\<lambda>x. blk_next (blocks ?q x)) (rs @ [r])" using k(1) b(2) x_links_rotate by (simp add: x_ring_def)
    moreover have "length (elements (blocks ?q ((rs @ [r]) ! j))) = 32 \<and> emptyFlags (blocks ?q ((rs @ [r]) ! j)) =
        (if j < length (rs @ [r]) - g' then flags_at j (h - 32) else replicate 32 True)" if "j < length (rs @ [r])" for j
    proof (cases "j < length rs")
      case True
      then have ne: "rs ! j \<noteq> r" using d(2) nth_mem by blast
      have "length (elements (blocks q ((r # rs) ! Suc j))) = 32 \<and> emptyFlags (blocks q ((r # rs) ! Suc j)) =
          (if Suc j < length (r # rs) - g then flags_at (Suc j) h else replicate 32 True)" using True by (intro x_ring_block [OF k(1)]) simp
      moreover have "flags_at (Suc j) h = flags_at j (h - 32)" using h(1) by (auto simp: flags_at_def)
      ultimately show ?thesis using True ne f(2) h(2) b by (auto simp: nth_append)
    next
      case False
      then have "j = length rs" using that by simp
      moreover have "length (elements (blocks q r)) = 32" using k(1) by (auto simp: x_ring_def dest: spec [of _ 0])
      moreover have "h - 32 \<le> 32 * length rs" using conjunct1 [OF k(2) [unfolded x_content_def]] by simp
      ultimately show ?thesis using f(2) b by (auto simp: flags_at_none)
    qed
    ultimately show ?thesis by (simp add: x_ring_def)
  qed
  have len: "h - 32 + length xs \<le> 32 * length rs" using conjunct1 [OF k(2) [unfolded x_content_def]] h(1) by simp
  have con: "x_content ?q (rs @ [r]) (h - 32) xs"
  proof -
    have "elements (blocks q ((rs @ [r]) ! ((h - 32 + j) div 32))) ! ((h - 32 + j) mod 32) = Some (xs ! j)" if j: "j < length xs" for j
    proof -
      have "h + j = 32 + (h - 32 + j)" using h(1) by simp
      then have "(h + j) div 32 = Suc ((h - 32 + j) div 32)" "(h + j) mod 32 = (h - 32 + j) mod 32" by (simp_all only: div_add_self1 mod_add_self1)
      moreover have "(h - 32 + j) div 32 < length rs" using len j by (rule x_fill_bound)
      ultimately show ?thesis using k(2) j by (auto simp: x_content_def nth_append)
    qed
    then show ?thesis using len b(1) by (simp add: x_content_def)
  qed
  have "x_state ?q (x_advance_front p2) (F + 32) (h - 32) (rs @ [r]) g' xs u"
  proof -
    have "F + of_nat h = F + 32 + of_nat (h - 32)" "F + of_nat (h + length xs) = F + 32 + of_nat (h - 32 + length xs)"
      using h(1) by (simp_all add: of_nat_diff)
    moreover have "slot (F + 32) = 0" using slot_plus_32 [of F 1] k(4) by simp
    ultimately show ?thesis using st ring con w2 fs by (simp add: x_state_def x_indexed_def)
  qed
  then show ?thesis using p2 fs by auto
qed

text \<open>With every block counted, the index is full or has room, and a new one has room.\<close>

lemma x_state_window: "x_state q p F h rs g xs u \<Longrightarrow> x_index p \<noteq> None \<Longrightarrow> x_window p F rs"
  by (simp add: x_state_def x_indexed_def)

lemma x_room_counted:
  assumes st: "x_state q p F h rs g xs 0" and n: "x_index p \<noteq> None" "x_slotsUsed p \<noteq> x_indexSize p"
  shows "x_room p F rs"
proof -
  obtain c ix fs where s: "x_sizes c ix p" "rotate (unat (x_indexFront p)) (xi_entries ix) = fs @ x_entries (blocks_from F rs)"
    using x_state_window [OF st n(1)] by (auto simp: x_window_def)
  have "length rs \<noteq> 2 ^ c" using n(2) st s(1) by (auto simp: x_state_def x_sizes_def)
  then have "length rs < 2 ^ c" using x_window_positions(2) [OF s] by simp
  then show ?thesis using s by (auto simp: x_room_def)
qed

lemma x_index_no_memory:
  assumes "x_state q p F h rs g xs u"
  shows "x_new_block_index False e p = Some (False, p)"
proof -
  obtain c where c: "c \<le> 58" "x_indexSize p = 2 ^ c" using assms by (auto simp: x_state_def x_indexed_def x_window_def x_sizes_def dest: less_imp_le)
  have s: "push_bit 1 (2 ^ c :: u64) = 2 ^ (c + 1)" by (simp add: push_bit_eq_mult)
  have "unat (drop_bit 1 (2 ^ (c + 1) :: u64)) = 2 ^ c"
    unfolding unat_drop_bit_eq using unat_2_power [of "c + 1"] c(1) by (simp add: drop_bit_eq_div)
  then have "drop_bit 1 (2 ^ (c + 1)) = (2 ^ c :: u64)" using unat_2_power [of c] c(1) by (simp add: word_unat_eq_iff)
  then have "p\<lparr>x_indexSize := drop_bit 1 (push_bit 1 (x_indexSize p))\<rparr> = p" unfolding s c(2) by (simp add: c(2) [symmetric])
  then show ?thesis by (simp add: x_new_block_index_def Let_def)
qed

lemma x_grow:
  assumes st: "x_state q p F h rs g xs 0" and full: "x_index p = None \<or> x_slotsUsed p = x_indexSize p" and n: "Suc (length rs) < 2 ^ 58"
  shows "\<exists>p'. x_new_block_index True e p = Some (True, p') \<and> x_state q p' F h rs g xs 0 \<and> x_room p' F rs \<and> x_index p' \<noteq> None \<and>
    (rs \<noteq> [] \<and> e = of_nat (length rs) \<longrightarrow> x_exposed p') \<and> x_headIndex p' = x_headIndex p \<and> x_tailIndex p' = x_tailIndex p \<and>
    x_tailBlock p' = x_tailBlock p \<and> x_slotsUsed p' = x_slotsUsed p"
proof -
  have su: "x_slotsUsed p = of_nat (length rs)" "length rs < 2 ^ 58" using st by (simp_all add: x_state_def)
  then have u0: "unat (x_slotsUsed p) = length rs" by (simp add: unat_of_nat take_bit_nat_eq_self)
  obtain c where c: "c < 58" "x_indexSize p = 2 ^ c" "length rs \<le> 2 ^ c"
    "(if x_slotsUsed p \<noteq> 0
      then (case x_index p of None \<Rightarrow> None
            | Some ix \<Rightarrow> x_copy_index (2 ^ c - 1) (x_indexFront p) (xi_entries ix) ((x_indexFront p - x_slotsUsed p) AND (2 ^ c - 1)))
      else Some []) = Some (x_entries (blocks_from F rs))"
  proof (cases "x_index p")
    case None
    then have "rs = []" "\<exists>c < 58. x_indexSize p = 2 ^ c" using st by (auto simp: x_state_def x_indexed_def x_window_def x_sizes_def)
    then show ?thesis using that su(1) by (auto simp: x_entries_def)
  next
    case (Some ix0)
    then obtain c ix fs where s: "x_sizes c ix p" "rotate (unat (x_indexFront p)) (xi_entries ix) = fs @ x_entries (blocks_from F rs)"
      using x_state_window [OF st] by (auto simp: x_window_def)
    have z: "c \<le> 58" "x_index p = Some ix" "x_indexSize p = 2 ^ c" "length (xi_entries ix) = 2 ^ c" "unat (x_indexFront p) < 2 ^ c"
      using s(1) by (simp_all add: x_sizes_def)
    have eq: "x_slotsUsed p = 2 ^ c" using full Some z(3) by simp
    then have l: "length rs = 2 ^ c" using u0 unat_2_power [of c] z(1) by simp
    then have "(2 :: nat) ^ c < 2 ^ 58" using su(2) by simp
    then have c58: "c < 58" by (simp only: power_strict_increasing_iff one_less_numeral_iff semiring_norm)
    have "fs = []" using x_window_positions(2) [OF s] l by simp
    moreover have "x_copy_index (2 ^ c - 1) (x_indexFront p) (xi_entries ix) ((x_indexFront p - x_slotsUsed p) AND (2 ^ c - 1)) =
        Some (drop (2 ^ c - 2 ^ c) (rotate (unat (x_indexFront p)) (xi_entries ix)))"
    proof (rule x_copy_index_drop [OF z(1,4,5)])
      have "unat (x_indexFront p - 2 ^ c + 2 ^ c) mod 2 ^ c = (unat (x_indexFront p - 2 ^ c) + unat (2 ^ c :: u64)) mod 2 ^ c"
        using z(1) by (intro unat_add_mod_power) simp
      then show "unat ((x_indexFront p - x_slotsUsed p) AND (2 ^ c - 1)) = (unat (x_indexFront p) + (2 ^ c - 2 ^ c)) mod 2 ^ c"
        unfolding eq and_capacity using z(1) by (simp add: unat_2_power)
    qed simp_all
    moreover have "x_slotsUsed p \<noteq> 0" using u0 l by (metis power_not_zero unat_0 zero_neq_numeral)
    ultimately show ?thesis using that [OF c58 z(3)] z(2) l s(2) by simp
  qed
  obtain ix where ix: "x_new_block_index True e p = Some (True, p\<lparr>x_indexSize := 2 ^ (c + 1), x_index := Some ix, x_indexFront := of_nat (length rs)\<rparr>)"
    "xi_front ix = e - 1" "x_window (p\<lparr>x_indexSize := 2 ^ (c + 1), x_index := Some ix, x_indexFront := of_nat (length rs)\<rparr>) F rs"
    using x_new_index_window [OF c(1,2,4,3), of e] by blast
  let ?p = "p\<lparr>x_indexSize := 2 ^ (c + 1), x_index := Some ix, x_indexFront := of_nat (length rs)\<rparr>"
  have "x_state q ?p F h rs g xs 0" using st ix(3) by (simp add: x_state_def x_indexed_def)
  moreover have "x_room ?p F rs"
  proof -
    obtain d iy fs where s: "x_sizes d iy ?p" "rotate (unat (x_indexFront ?p)) (xi_entries iy) = fs @ x_entries (blocks_from F rs)"
      using ix(3) by (auto simp: x_window_def)
    have "d = c + 1"
    proof -
      have "(2 :: u64) ^ d = 2 ^ (c + 1)" "d < 64" "c + 1 < 64" using s(1) c(1) by (auto simp: x_sizes_def)
      then have "(2 :: nat) ^ d = 2 ^ (c + 1)" using unat_2_power [of d] unat_2_power [of "c + 1"] by simp
      then show ?thesis by (subst (asm) power_inject_exp) simp_all
    qed
    then have "length rs < 2 ^ d" using c(3) by (simp add: le_less_trans)
    then show ?thesis unfolding x_room_def using s by blast
  qed
  moreover have "x_exposed ?p" if "rs \<noteq> []" "e = of_nat (length rs)"
  proof -
    have w: "of_nat (length rs) - 1 = (of_nat (length rs - 1) :: u64)" using that(1) by (cases rs) simp_all
    have "length rs - 1 < 2 ^ (c + 1)" using c(3) by (simp add: le_less_trans less_imp_diff_less)
    moreover have "unat (of_nat (length rs - 1) :: u64) = length rs - 1" using su(2) by (simp add: unat_of_nat take_bit_nat_eq_self)
    ultimately have "(of_nat (length rs) - 1) AND (2 ^ (c + 1) - 1) = (of_nat (length rs) - 1 :: u64)"
      unfolding w word_unat_eq_iff and_capacity by (simp only: mod_less)
    then show ?thesis using ix(2) that(2) by (simp add: x_exposed_def)
  qed
  ultimately show ?thesis using ix(1) by (intro exI [of _ ?p]) auto
qed

section \<open>Enqueueing\<close>

lemma x_position_unique:
  fixes t :: nat
  assumes "distinct rs" "s div 32 < length rs" "t div 32 < length rs" "rs ! (s div 32) = rs ! (t div 32)" "s mod 32 = t mod 32"
  shows "s = t"
  using assms by (metis div_mod_decomp nth_eq_iff_index_eq)

lemma x_tail_slot: "x_state q p F h rs g xs u \<Longrightarrow> slot (x_tailIndex p) = (h + length xs) mod 32"
  using slot_add [of F "h + length xs"] by (simp add: x_state_def)

lemma x_head_slot: "x_state q p F h rs g xs u \<Longrightarrow> slot (x_headIndex p) = h mod 32"
  using slot_add [of F h] by (simp add: x_state_def)

lemma put_element_flags [simp]: "emptyFlags (blocks (put_element b i x q) r) = emptyFlags (blocks q r)"
  by (simp add: put_element_def)

lemma x_put:
  assumes st: "x_state q p F h rs 0 xs u" and b: "b = rs ! ((h + length xs) div 32)" and t: "h + length xs < 32 * length rs"
  shows "x_state (put_element b (x_tailIndex p) (Some x) q) (p\<lparr>x_tailIndex := 1 + x_tailIndex p\<rparr>) F h rs 0 (xs @ [x]) u"
proof -
  let ?t = "h + length xs" and ?q = "put_element b (x_tailIndex p) (Some x) q"
  have k: "x_ring q rs 0 h" "x_content q rs h xs" using st by (simp_all add: x_state_def)
  have lt: "?t div 32 < length rs" using t by (simp add: div_less_iff_less_mult)
  have "elements (blocks ?q (rs ! ((h + j) div 32))) ! ((h + j) mod 32) = Some ((xs @ [x]) ! j)" if j: "j < Suc (length xs)" for j
  proof (cases "j = length xs")
    case True
    have "length (elements (blocks q b)) = 32" using x_ring_block [OF k(1) lt] b by simp
    then show ?thesis using True x_tail_slot [OF st] by (simp add: b [symmetric] put_element_blocks)
  next
    case False
    then have jl: "j < length xs" using j by simp
    have old: "elements (blocks q (rs ! ((h + j) div 32))) ! ((h + j) mod 32) = Some (xs ! j)"
      using k(2) jl by (simp add: x_content_def)
    show ?thesis
    proof (cases "rs ! ((h + j) div 32) = b")
      case True
      have "(h + j) div 32 < length rs" using k(2) jl by (auto simp: x_content_def intro: x_fill_bound)
      then have "(h + j) mod 32 \<noteq> ?t mod 32" using x_position_unique [of rs "h + j" ?t] k(1) lt True b jl by (auto simp: x_ring_def)
      then show ?thesis using old jl True x_tail_slot [OF st] by (simp add: put_element_blocks nth_append)
    next
      case F: False
      then show ?thesis using old jl by (simp add: put_element_blocks nth_append)
    qed
  qed
  then have "x_content ?q rs h (xs @ [x])" using t by (simp add: x_content_def)
  moreover have "x_ring ?q rs 0 h" by (rule x_ring_cong [OF k(1)]) (simp add: put_element_blocks(2))
  ultimately show ?thesis using st by (simp add: x_state_def)
qed

lemma x_store:
  assumes st: "x_state q p F h rs 0 xs u" and l: "length rs = Suc ((h + length xs) div 32)" and ex: "x_exposed p"
  shows "\<exists>q' p'. x_store_element x q p = Some (True, q', p') \<and> x_rep q' p' F h rs (xs @ [x]) u \<and>
    (\<forall>v. v \<noteq> last rs \<longrightarrow> blocks q' v = blocks q v) \<and> (\<forall>U. pool_ok q U \<longrightarrow> pool_ok q' U)"
proof -
  have "h + length xs = 32 * ((h + length xs) div 32) + (h + length xs) mod 32" by simp
  moreover have "(h + length xs) mod 32 < 32" by simp
  ultimately have t: "h + length xs < 32 * length rs" using l by linarith
  have ne: "rs \<noteq> []" using l by auto
  have b: "last rs = rs ! ((h + length xs) div 32)" using l last_conv_nth [OF ne] by simp
  let ?q = "put_element (last rs) (x_tailIndex p) (Some x) q" and ?p = "p\<lparr>x_tailIndex := 1 + x_tailIndex p\<rparr>"
  have "x_store_element x q p = Some (True, ?q, ?p)" using st ne by (simp add: x_store_element_def x_state_def)
  moreover have "x_rep ?q ?p F h rs (xs @ [x]) u" using x_put [OF st b t] l ex by (simp add: x_rep_def)
  ultimately show ?thesis by (auto simp: put_element_blocks(1) put_element_pool_ok)
qed

text \<open>What \<open>enqueue\<close> promises: the ring has the old blocks and perhaps one more, which was in use by
  nobody.\<close>

definition x_enqueued :: "'a pool \<Rightarrow> nat list \<Rightarrow> 'a list \<Rightarrow> nat set \<Rightarrow> 'a list \<Rightarrow> nat \<Rightarrow> bool \<times> 'a pool \<times> explicit_producer \<Rightarrow> bool" where
  "x_enqueued q rs xs U ys u r \<longleftrightarrow>
     (case r of (ok, q', p') \<Rightarrow>
       \<exists>F h rs'. x_rep q' p' F h rs' (if ok then xs @ ys else xs) u \<and> pool_ok q' (U \<union> set rs') \<and> set rs \<subseteq> set rs' \<and>
         set rs' \<inter> U = set rs \<and> (\<forall>v \<in> U. v \<notin> set rs \<longrightarrow> blocks q' v = blocks q v) \<and>
         length rs' \<le> length rs + (length ys + 31) div 32)"

lemma x_enqueuedI:
  "x_rep q' p' F h rs' (if ok then xs @ ys else xs) u \<Longrightarrow> pool_ok q' (U \<union> set rs') \<Longrightarrow> set rs \<subseteq> set rs' \<Longrightarrow>
   set rs' \<inter> U = set rs \<Longrightarrow> (\<And>v. v \<in> U \<Longrightarrow> v \<notin> set rs \<Longrightarrow> blocks q' v = blocks q v) \<Longrightarrow>
   length rs' \<le> length rs + (length ys + 31) div 32 \<Longrightarrow> x_enqueued q rs xs U ys u (ok, q', p')"
  unfolding x_enqueued_def prod.case by blast

lemma x_enqueue_in_block:
  assumes r: "x_rep q p F h rs xs u" and ok: "pool_ok q U" "set rs \<subseteq> U" and t: "(h + length xs) mod 32 \<noteq> 0"
  shows "\<exists>q' p'. explicit_enqueue ms ca im bm x (q, p) = Some (True, q', p') \<and> x_enqueued q rs xs U [x] u (True, q', p')"
proof -
  have st: "x_state q p F h rs 0 xs u" and l: "length rs = Suc ((h + length xs) div 32)" and ex: "rs \<noteq> [] \<longrightarrow> x_exposed p"
    using r t add_31_div [of "h + length xs"] by (simp_all add: x_rep_def)
  have ne: "rs \<noteq> []" using l by auto
  have nz: "x_tailIndex p AND (BLOCK_SIZE - 1) \<noteq> 0" using x_tail_slot [OF st] t by (auto simp: slot_def)
  obtain q' p' where s: "x_store_element x q p = Some (True, q', p')" "x_rep q' p' F h rs (xs @ [x]) u"
    "\<forall>v. v \<noteq> last rs \<longrightarrow> blocks q' v = blocks q v" "\<forall>U. pool_ok q U \<longrightarrow> pool_ok q' U"
    using x_store [OF st l] ex ne by blast
  have "x_enqueued q rs xs U [x] u (True, q', p')"
  proof (rule x_enqueuedI [where rs' = rs])
    have "U \<union> set rs = U" using ok(2) by auto
    then show "pool_ok q' (U \<union> set rs)" using s(4) ok(1) by simp
    show "blocks q' v = blocks q v" if "v \<in> U" "v \<notin> set rs" for v using s(3) that ne by (metis last_in_set)
  qed (use s(2) ok(2) in auto)
  then show ?thesis using s(1) nz by (simp add: explicit_enqueue_def)
qed

text \<open>Showing the new front to consumers.\<close>

lemma front_before:
  assumes "c \<le> 64" "unat f < 2 ^ c"
  shows "(((f + 1) AND (2 ^ c - 1)) - 1) AND (2 ^ c - 1) = (f :: u64)"
proof -
  have d: "(2 :: nat) ^ c dvd 2 ^ 64" using assms(1) by (rule le_imp_power_dvd)
  then obtain m where m: "(2 :: nat) ^ 64 = 2 ^ c * m" by (rule dvdE)
  let ?g = "(f + 1) AND (2 ^ c - 1)"
  have g: "unat ?g = (unat f + 1) mod 2 ^ c" using unat_add_mod_power [OF assms(1), of f 1] by (simp add: and_capacity)
  have w: "(0 :: u64) - 1 = - 1" by simp
  have "unat (- 1 :: u64) = 2 ^ 64 - 1" using unat_minus [of 1] by simp
  then have "unat (?g + - 1) mod 2 ^ c = ((unat f + 1) mod 2 ^ c + (2 ^ 64 - 1)) mod 2 ^ c"
    using unat_add_mod_power [OF assms(1), of ?g "- 1"] g by simp
  also have "\<dots> = (unat f + 1 + (2 ^ 64 - 1)) mod 2 ^ c" by (rule mod_add_left_eq)
  also have "unat f + 1 + (2 ^ 64 - 1) = unat f + 2 ^ c * m" by (simp add: m [symmetric])
  also have "(unat f + 2 ^ c * m) mod 2 ^ c = unat f" using assms(2) by simp
  finally show ?thesis by (simp add: word_unat_eq_iff and_capacity)
qed

lemma x_expose_front:
  assumes "x_state q (x_advance_front p) F h rs g xs u" "rs \<noteq> []" "x_set_entry b p0 = Some p"
  shows "\<exists>p'. x_expose (x_indexFront p) p = Some p' \<and> x_state q (x_advance_front p') F h rs g xs u \<and> x_exposed (x_advance_front p') \<and>
    x_tailIndex p' = x_tailIndex p"
proof -
  have "x_window (x_advance_front p) F rs" using assms by (auto simp: x_state_def x_indexed_def)
  then obtain c ix fs where s: "x_sizes c ix (x_advance_front p)"
    "rotate (unat (x_indexFront (x_advance_front p))) (xi_entries ix) = fs @ x_entries (blocks_from F rs)" by (auto simp: x_window_def)
  let ?ix = "ix\<lparr>xi_front := x_indexFront p\<rparr>" and ?p = "p\<lparr>x_index := Some (ix\<lparr>xi_front := x_indexFront p\<rparr>)\<rparr>"
  have z: "x_index p = Some ix" "c \<le> 58" "x_indexSize p = 2 ^ c" "length (xi_entries ix) = 2 ^ c" using s(1) by (simp_all add: x_sizes_def)
  have e: "x_expose (x_indexFront p) p = Some ?p" by (simp add: x_expose_def z)
  have "unat (x_indexFront p) < 2 ^ c" using assms(3) z(1,4) by (auto simp: x_set_entry_def split: option.splits if_splits)
  then have "x_exposed (x_advance_front ?p)" using z by (simp add: x_exposed_def x_advance_front_def front_before)
  moreover have "x_sizes c ?ix (x_advance_front ?p)" using s(1) z(3) by (simp add: x_sizes_def x_advance_front_def)
  then have "x_window (x_advance_front ?p) F rs" unfolding x_window_def using s(2) by (intro exI [of _ c] exI [of _ ?ix]) (simp add: x_advance_front_def)
  then have "x_state q (x_advance_front ?p) F h rs g xs u" using assms(1) by (simp add: x_state_def x_indexed_def)
  ultimately show ?thesis using e by auto
qed

text \<open>A block is there for the element, and goes into the index next.\<close>

definition x_ready :: "'a pool \<Rightarrow> explicit_producer \<Rightarrow> nat list \<Rightarrow> 'a list \<Rightarrow> nat set \<Rightarrow> nat \<Rightarrow> 'a pool \<Rightarrow> explicit_producer \<Rightarrow> bool" where
  "x_ready q p rs xs U u q' p' \<longleftrightarrow>
     (\<exists>F h rs' p2. x_set_entry (x_tailIndex p) p' = Some p2 \<and> x_state q' (x_advance_front p2) F h rs' 0 xs u \<and>
        length rs' = Suc ((h + length xs) div 32) \<and> pool_ok q' (U \<union> set rs') \<and> set rs \<subseteq> set rs' \<and> set rs' \<inter> U = set rs \<and>
        (\<forall>v \<in> U. v \<notin> set rs \<longrightarrow> blocks q' v = blocks q v) \<and> x_tailIndex p' = x_tailIndex p \<and>
        length rs' \<le> Suc (length rs))"

lemma x_tail_base:
  assumes "x_state q p F h rs g xs u" "h + length xs = 32 * m"
  shows "x_tailIndex p = F + 32 * of_nat m"
  using assms by (simp add: x_state_def)

lemma x_add_block_ready:
  assumes st: "x_state q p F h rs 0 xs u" and room: "x_room p F rs" and ok: "pool_ok q U" "set rs \<subseteq> U"
    and t: "h + length xs = 32 * length rs" and n: "Suc (length rs) < 2 ^ 58"
  shows "case x_add_block ca bm q p of
      (False, q', p') \<Rightarrow> q' = q \<and> p' = p \<and> \<not> (ca \<and> bm)
    | (True, q', p') \<Rightarrow> x_ready q p rs xs U u q' p'"
proof (cases "requisition_block ca bm q")
  case (Pair ro q1)
  note rq = requisition_block_ok [OF ok(1) Pair]
  show ?thesis
  proof (cases ro)
    case None
    then show ?thesis using Pair rq by (simp add: x_add_block_def)
  next
    case (Some r)
    then have fresh: "r \<notin> U" "pool_ok q1 (insert r U)" "\<forall>v \<in> U. blocks q1 v = blocks q v" using rq by simp_all
    have st1: "x_state q1 p F h rs 0 xs u" using st fresh(3) ok(2) by (intro x_state_frame [OF st]) auto
    have l32: "length (elements (blocks q1 r)) = 32" using pool_ok_used [OF fresh(2)] by simp
    obtain q2 p1 where ins: "x_insert_block r (update_block r reset_flags q1) p = (q2, p1)" by force
    have kf: "keeps reset_flags (replicate 32 ((0 :: nat) \<noteq> 0))" using keeps_flags(1) by simp
    have nr: "r \<notin> set rs" using fresh(1) ok(2) by auto
    obtain p2 where p2: "x_set_entry (F + 32 * of_nat (length rs)) (p1\<lparr>x_slotsUsed := x_slotsUsed p1 + 1\<rparr>) = Some p2"
      "x_state q2 (x_advance_front p2) F h (rs @ [r]) 0 xs u" "x_tailIndex p2 = x_tailIndex p"
      using x_append [OF st1 room nr l32 kf _ n ins] by blast
    note i = x_insert_block_fields [OF ins kf]
    have "blocks q2 v = blocks q v" if "v \<in> U" "v \<notin> set rs" for v
    proof -
      have "v \<noteq> r" using that(1) fresh(1) by auto
      moreover have "Some v \<noteq> x_tailBlock p" using that st by (auto simp: x_state_def split: if_splits)
      ultimately show ?thesis using i(6) fresh(3) that(1) by simp
    qed
    moreover have "pool_ok q2 (U \<union> set (rs @ [r]))"
      using fresh(2) x_insert_block_pool [OF ins kf] ok(2) by (simp add: Un_absorb2 insert_absorb)
    moreover have "set (rs @ [r]) \<inter> U = set rs" using ok(2) fresh(1) by auto
    ultimately have "x_ready q p rs xs U u q2 (p1\<lparr>x_slotsUsed := x_slotsUsed p1 + 1\<rparr>)"
      unfolding x_ready_def using p2(1,2) t x_tail_base [OF st t] i(1)
      by (intro exI [of _ F] exI [of _ h] exI [of _ "rs @ [r]"] exI [of _ p2]) (simp add: subset_insertI)
    then show ?thesis using Pair Some ins by (simp add: x_add_block_def)
  qed
qed

lemma x_rep_grown:
  assumes "x_rep q p F h rs xs u" "x_state q p' F h rs 0 xs u" "rs \<noteq> [] \<longrightarrow> x_exposed p'"
  shows "x_rep q p' F h rs xs u"
  using assms by (simp add: x_rep_def)

text \<open>A block from the pool. If some blocks are not counted, there has to be room in the index.\<close>

lemma x_new_block_ready:
  assumes r: "x_rep q p F h rs xs u" and hu: "u = 0 \<or> x_room p F rs" and ok: "pool_ok q U" "set rs \<subseteq> U"
    and t: "h + length xs = 32 * length rs" and n: "Suc (length rs) < 2 ^ 58"
  shows "\<exists>b q' p'. x_new_block ms ca im bm q p = Some (b, q', p') \<and>
    (if b then x_ready q p rs xs U u q' p' else q' = q \<and> x_rep q p' F h rs xs u) \<and> (ms = - 1 \<and> ca \<and> im \<and> bm \<longrightarrow> b)"
proof -
  have st: "x_state q p F h rs 0 xs u" using r by (simp add: x_rep_def)
  have z: "x_tailIndex p = x_headIndex p + of_nat (length xs)" "x_slotsUsed p = of_nat (length rs - u)" using st by (simp_all add: x_state_def)
  have nl: "\<not> circular_less_than (x_tailIndex p) (x_headIndex p)" using circular_not_less [of "length xs" "x_headIndex p"] z(1) t n by simp
  have nf: "\<not> x_full (- 1) (x_headIndex p) (x_tailIndex p)"
  proof -
    have "x_tailIndex p + BLOCK_SIZE = x_headIndex p + of_nat (length xs + 32)" using z(1) by (simp add: BLOCK_SIZE_def)
    moreover have "length xs + 32 < 2 ^ 63" using t n by simp
    ultimately show ?thesis using circular_less_than_iff [of "length xs + 32" "x_headIndex p"] by (simp add: x_full_def)
  qed
  let ?full = "x_index p = None \<or> x_slotsUsed p = x_indexSize p"
  consider "x_full ms (x_headIndex p) (x_tailIndex p)" | "\<not> x_full ms (x_headIndex p) (x_tailIndex p)" "?full" "\<not> (ca \<and> im)"
    | "\<not> x_full ms (x_headIndex p) (x_tailIndex p)" "?full" "ca" "im" | "\<not> x_full ms (x_headIndex p) (x_tailIndex p)" "\<not> ?full" by blast
  then show ?thesis
  proof cases
    case 1
    then show ?thesis using r nl nf by (auto simp: x_new_block_def Let_def)
  next
    case 2
    then show ?thesis using r nl x_index_no_memory [OF st] by (cases ca; cases im) (auto simp: x_new_block_def Let_def)
  next
    case 3
    have u0: "u = 0"
    proof (rule ccontr)
      assume "u \<noteq> 0"
      then obtain c ix where s: "x_sizes c ix p" "length rs < 2 ^ c" using hu by (auto simp: x_room_def)
      then have "x_slotsUsed p = 2 ^ c" "c \<le> 58" using 3(2) by (auto simp: x_sizes_def)
      moreover have "unat (x_slotsUsed p) = length rs - u" using z(2) n by (simp add: unat_of_nat take_bit_nat_eq_self)
      ultimately show False using unat_2_power [of c] s(2) by simp
    qed
    then have st0: "x_state q p F h rs 0 xs 0" and su: "x_slotsUsed p = of_nat (length rs)" using st z(2) by simp_all
    obtain p1 where g: "x_new_block_index True (x_slotsUsed p) p = Some (True, p1)" "x_state q p1 F h rs 0 xs 0" "x_room p1 F rs"
      "rs \<noteq> [] \<longrightarrow> x_exposed p1" "x_tailIndex p1 = x_tailIndex p"
      using x_grow [OF st0 3(2) n, of "x_slotsUsed p"] su by auto
    have "x_new_block ms ca im bm q p = Some (x_add_block ca bm q p1)" using 3 nl g(1) by (simp add: x_new_block_def Let_def)
    then show ?thesis
      using x_add_block_ready [OF g(2,3) ok t n, of ca bm] x_rep_grown [OF r _ g(4)] g(2,5) u0
      by (cases "x_add_block ca bm q p1") (auto simp: x_ready_def split: bool.splits)
  next
    case 4
    have room: "x_room p F rs" using hu x_room_counted [of q p F h rs 0 xs] st 4 by auto
    have "x_new_block ms ca im bm q p = Some (x_add_block ca bm q p)" using 4 nl by (auto simp: x_new_block_def Let_def)
    then show ?thesis
      using x_add_block_ready [OF st room ok t n, of ca bm] r by (cases "x_add_block ca bm q p") (auto split: bool.splits)
  qed
qed

lemma x_next_block_ready:
  assumes r: "x_rep q p F h rs xs u" and hu: "u = 0 \<or> x_room p F rs" and ok: "pool_ok q U" "set rs \<subseteq> U"
    and t: "(h + length xs) mod 32 = 0" and n: "Suc (length rs) < 2 ^ 58"
  shows "\<exists>b q' p'. x_next_block ms ca im bm q p = Some (b, q', p') \<and>
    (if b then x_ready q p rs xs U u q' p' else q' = q \<and> x_rep q p' F h rs xs u) \<and> (ms = - 1 \<and> ca \<and> im \<and> bm \<longrightarrow> b)"
proof -
  have st: "x_state q p F h rs 0 xs u" and l: "length rs = (h + length xs) div 32" and t32: "h + length xs = 32 * length rs"
    using r t add_31_div [of "h + length xs"] by (auto simp: x_rep_def)
  note nb = x_new_block_ready [OF r hu ok t32 n, of ms ca im bm]
  show ?thesis
  proof (cases rs)
    case Nil
    then show ?thesis using nb st by (simp add: x_next_block_def x_state_def)
  next
    case (Cons a ss)
    have k: "x_ring q rs 0 h" "x_tailBlock p = Some (last rs)" using st Cons by (simp_all add: x_state_def)
    have nx: "blk_next (blocks q (last rs)) = Some a" using k(1) x_links_last [of "\<lambda>r. blk_next (blocks q r)" rs] Cons by (simp add: x_ring_def)
    have em: "all_empty (blocks q a) \<longleftrightarrow> 32 \<le> h" using x_ring_block [OF k(1), of 0] Cons all_empty_flags [of "blocks q a" 0 h] by simp
    show ?thesis
    proof (cases "32 \<le> h")
      case False
      then show ?thesis using nb k(2) nx em by (simp add: x_next_block_def)
    next
      case True
      let ?p = "p\<lparr>x_tailBlock := Some a\<rparr>" and ?q = "update_block a reset_flags q"
      have kf: "keeps reset_flags (replicate 32 ((0 :: nat) \<noteq> 0))" using keeps_flags(1) by simp
      obtain p2 where p2: "x_set_entry (F + 32 * of_nat (Suc (length ss))) ?p = Some p2"
        "x_state ?q (x_advance_front p2) (F + 32) (h - 32) (ss @ [a]) 0 xs u"
        using x_reuse [OF st [unfolded Cons] True _ kf] by auto
      have "x_tailIndex p = F + 32 * of_nat (Suc (length ss))" using x_tail_base [OF st t32] Cons by simp
      moreover have "length (ss @ [a]) = Suc ((h - 32 + length xs) div 32)"
      proof -
        have "h - 32 + length xs = 32 * length ss" using t32 True Cons by simp
        then show ?thesis by simp
      qed
      moreover have "pool_ok ?q U"
        using ok pool_ok_used [OF ok(1), of a] Cons by (auto simp: update_block_def reset_flags_def intro!: pool_ok_update)
      ultimately have "x_ready q p rs xs U u ?q ?p"
        unfolding x_ready_def using p2 ok(2) Cons
        by (intro exI [of _ "F + 32"] exI [of _ "h - 32"] exI [of _ "ss @ [a]"] exI [of _ p2]) (auto simp: update_block_def insert_absorb Un_absorb2)
      then show ?thesis using k(2) nx em True by (intro exI [of _ True]) (simp add: x_next_block_def)
    qed
  qed
qed

text \<open>\<open>enqueue\<close> always returns and appends the element or changes nothing of the list.\<close>

lemma explicit_enqueue_correct:
  assumes r: "x_rep q p F h rs xs u" and hu: "u = 0 \<or> x_room p F rs" and ok: "pool_ok q U" "set rs \<subseteq> U"
    and n: "Suc (length rs) < 2 ^ 58"
  shows "\<exists>r. explicit_enqueue ms ca im bm x (q, p) = Some r \<and> x_enqueued q rs xs U [x] u r \<and> (ms = - 1 \<and> ca \<and> im \<and> bm \<longrightarrow> fst r)"
proof (cases "(h + length xs) mod 32 = 0")
  case False
  from x_enqueue_in_block [OF r ok this] show ?thesis by fastforce
next
  case True
  have st: "x_state q p F h rs 0 xs u" using r by (simp add: x_rep_def)
  have z: "x_tailIndex p AND (BLOCK_SIZE - 1) = 0"
    using x_tail_slot [OF st] True unat_mod_32 [of "x_tailIndex p"] by (simp add: slot_mod)
  obtain b q1 p1 where nb: "x_next_block ms ca im bm q p = Some (b, q1, p1)"
    "if b then x_ready q p rs xs U u q1 p1 else q1 = q \<and> x_rep q p1 F h rs xs u" "ms = - 1 \<and> ca \<and> im \<and> bm \<longrightarrow> b"
    using x_next_block_ready [OF r hu ok True n, of ms ca im bm] by (elim exE conjE) (rule that, assumption+)
  show ?thesis
  proof (cases b)
    case False
    then have q1: "q1 = q" "x_rep q p1 F h rs xs u" using nb(2) by simp_all
    have "x_enqueued q rs xs U [x] u (False, q, p1)"
    proof (rule x_enqueuedI [where F = F and h = h and rs' = rs])
      show "pool_ok q (U \<union> set rs)" "set rs \<inter> U = set rs" using ok by (simp_all add: Un_absorb2 Int_absorb2)
    qed (simp_all add: q1(2))
    moreover have "explicit_enqueue ms ca im bm x (q, p) = Some (False, q, p1)" using nb(1) False z q1(1) by (simp add: explicit_enqueue_def)
    ultimately show ?thesis using nb(3) False by auto
  next
    case b: True
    obtain F' h' rs' p2 where k: "x_set_entry (x_tailIndex p) p1 = Some p2" "x_state q1 (x_advance_front p2) F' h' rs' 0 xs u"
      "length rs' = Suc ((h' + length xs) div 32)" "pool_ok q1 (U \<union> set rs')" "set rs \<subseteq> set rs'" "set rs' \<inter> U = set rs"
      "\<forall>v \<in> U. v \<notin> set rs \<longrightarrow> blocks q1 v = blocks q v" "x_tailIndex p1 = x_tailIndex p"
      "length rs' \<le> Suc (length rs)" using nb(2) b by (auto simp: x_ready_def)
    have ne: "rs' \<noteq> []" using k(3) by auto
    obtain p3 where p3: "x_expose (x_indexFront p2) p2 = Some p3" "x_state q1 (x_advance_front p3) F' h' rs' 0 xs u"
      "x_exposed (x_advance_front p3)" using x_expose_front [OF k(2) ne k(1)] by blast
    obtain q4 p4 where s: "x_store_element x q1 (x_advance_front p3) = Some (True, q4, p4)" "x_rep q4 p4 F' h' rs' (xs @ [x]) u"
      "\<forall>v. v \<noteq> last rs' \<longrightarrow> blocks q4 v = blocks q1 v" "\<forall>U. pool_ok q1 U \<longrightarrow> pool_ok q4 U"
      using x_store [OF p3(2) k(3) p3(3)] by blast
    have "x_enqueued q rs xs U [x] u (True, q4, p4)"
    proof (rule x_enqueuedI [where rs' = rs'])
      show "blocks q4 v = blocks q v" if "v \<in> U" "v \<notin> set rs" for v
      proof -
        have "v \<noteq> last rs'" using that k(6) ne last_in_set [OF ne] by blast
        then show ?thesis using s(3) k(7) that by simp
      qed
    qed (use s k in auto)
    moreover have "explicit_enqueue ms ca im bm x (q, p) = Some (True, q4, p4)"
      using nb(1) b z k(1,8) p3(1) s(1) by (simp add: explicit_enqueue_def)
    ultimately show ?thesis by auto
  qed
qed

section \<open>Dequeueing\<close>

lemma x_find_block:
  assumes w: "x_window p F rs" "x_exposed p" and k: "k < length rs" "length rs \<le> 2 ^ 58" and idx: "idx AND NOT (BLOCK_SIZE - 1) = F + 32 * of_nat k"
  shows "\<exists>c ix at i. x_index_of idx p = Some i \<and> x_index p = Some ix \<and> x_positions c ix at F rs \<and> unat i = (at + k) mod 2 ^ c"
proof -
  obtain c ix fs where s: "x_sizes c ix p" "rotate (unat (x_indexFront p)) (xi_entries ix) = fs @ x_entries (blocks_from F rs)"
    using w(1) by (auto simp: x_window_def)
  from x_lookup [OF s w(2) k idx] obtain i where "x_index_of idx p = Some i" "unat i = (unat (x_indexFront p) + length fs + k) mod 2 ^ c" by blast
  then show ?thesis using x_window_positions(1) [OF s] s(1) by (auto simp: x_sizes_def)
qed

lemma x_block_found:
  assumes "x_window p F rs" "x_exposed p" "k < length rs" "length rs \<le> 2 ^ 58" "idx AND NOT (BLOCK_SIZE - 1) = F + 32 * of_nat k"
  shows "Option.bind (x_index_of idx p) (\<lambda>i. x_block_at i p) = Some (rs ! k)"
proof -
  obtain c ix at i where i: "x_index_of idx p = Some i" "x_index p = Some ix" "x_positions c ix at F rs" "unat i = (at + k) mod 2 ^ c"
    using x_find_block [OF assms] by blast
  then show ?thesis using x_positions_block [OF i(3) assms(3) i(4)] by (simp add: x_block_at_def)
qed

lemma x_index_base: "slot F = 0 \<Longrightarrow> (F + of_nat i) AND NOT (BLOCK_SIZE - 1) = F + 32 * of_nat (i div 32)"
  using block_base [of F i] by simp

text \<open>The flags once the first slot that was not is dequeued.\<close>

lemma flags_at_other: "k \<noteq> h div 32 \<Longrightarrow> flags_at k (h + 1) = flags_at k h"
  by (rule nth_equalityI) (auto simp: less_Suc_eq)

lemma x_taken:
  assumes st: "x_state q p F h rs 0 (x # xs) u"
  shows "\<exists>b q'. set_flag (x_headIndex p) (blocks (put_element (rs ! (h div 32)) (x_headIndex p) None q) (rs ! (h div 32))) = Some b \<and>
    q' = (put_element (rs ! (h div 32)) (x_headIndex p) None q)\<lparr>blocks := (blocks (put_element (rs ! (h div 32)) (x_headIndex p) None q))(rs ! (h div 32) := b)\<rparr> \<and>
    x_ring q' rs 0 (h + 1) \<and> x_content q' rs (h + 1) xs \<and> (\<forall>v. v \<noteq> rs ! (h div 32) \<longrightarrow> blocks q' v = blocks q v) \<and>
    (\<forall>U. rs ! (h div 32) \<in> U \<longrightarrow> pool_ok q U \<longrightarrow> pool_ok q' U)"
proof -
  let ?k = "h div 32" let ?r = "rs ! ?k" let ?q1 = "put_element ?r (x_headIndex p) None q"
  have k: "x_ring q rs 0 h" "x_content q rs h (x # xs)" using st by (simp_all add: x_state_def)
  have kl: "?k < length rs" using k(2) x_fill_bound [of h "length (x # xs)" "length rs" 0] by (simp add: x_content_def)
  have d: "distinct rs" using k(1) by (simp add: x_ring_def)
  note b = x_ring_block [OF k(1) kl]
  have fl: "emptyFlags (blocks ?q1 ?r) = flags_at ?k h" "h = 32 * ?k + slot (x_headIndex p)" using b kl x_head_slot [OF st] by simp_all
  note sf = set_flag_at [OF fl]
  let ?b = "(blocks ?q1 ?r)\<lparr>emptyFlags := flags_at ?k (h + 1)\<rparr>" let ?q = "?q1\<lparr>blocks := (blocks ?q1)(?r := ?b)\<rparr>"
  have eb: "elements (blocks ?q v) = elements (blocks ?q1 v)" "blk_next (blocks ?q v) = blk_next (blocks q v)"
    "emptyFlags (blocks ?q v) = (if v = ?r then flags_at ?k (h + 1) else emptyFlags (blocks q v))" for v by simp_all
  have ring: "x_ring ?q rs 0 (h + 1)"
  proof -
    have "length (elements (blocks ?q (rs ! j))) = 32 \<and> emptyFlags (blocks ?q (rs ! j)) = flags_at j (h + 1)" if j: "j < length rs" for j
    proof -
      have "rs ! j = ?r \<longleftrightarrow> j = ?k" using d j kl by (simp add: nth_eq_iff_index_eq)
      then show ?thesis unfolding eb using x_ring_block [OF k(1) j] j flags_at_other [of j h] by (cases "j = ?k") (simp_all add: put_element_blocks(2))
    qed
    moreover have "x_links (\<lambda>v. blk_next (blocks ?q v)) rs" using k(1) unfolding x_ring_def eb by simp
    ultimately show ?thesis using d unfolding x_ring_def by simp
  qed
  have con: "x_content ?q rs (h + 1) xs"
  proof -
    have "elements (blocks ?q1 (rs ! ((h + 1 + j) div 32))) ! ((h + 1 + j) mod 32) = Some (xs ! j)" if j: "j < length xs" for j
    proof -
      let ?s = "h + 1 + j"
      have old: "elements (blocks q (rs ! (?s div 32))) ! (?s mod 32) = Some (xs ! j)"
        using k(2) j unfolding x_content_def by (auto dest: spec [of _ "Suc j"])
      have "?s div 32 < length rs" using k(2) j x_fill_bound [of h "length (x # xs)" "length rs" "Suc j"] by (simp add: x_content_def)
      then have "rs ! (?s div 32) = ?r \<Longrightarrow> ?s mod 32 \<noteq> h mod 32" using x_position_unique [OF d _ kl, of ?s] by auto
      then show ?thesis using old x_head_slot [OF st] by (cases "rs ! (?s div 32) = ?r") (simp_all add: put_element_blocks)
    qed
    moreover have "h + 1 + length xs \<le> 32 * length rs" using k(2) by (simp add: x_content_def)
    ultimately show ?thesis unfolding x_content_def eb by blast
  qed
  have "pool_ok ?q U" if "?r \<in> U" "pool_ok q U" for U
  proof -
    have "pool_ok ?q1 U" using that(2) by (rule put_element_pool_ok)
    then show ?thesis using pool_ok_used [OF _ that(1)] by (intro pool_ok_update) auto
  qed
  then show ?thesis using sf ring con by (intro exI [of _ ?b] exI [of _ ?q]) (simp add: put_element_blocks(1))
qed

lemma x_length_bound: "x_state q p F h rs g xs u \<Longrightarrow> length xs < 2 ^ 63"
proof -
  assume st: "x_state q p F h rs g xs u"
  then have "h + length xs \<le> 32 * length rs" "length rs < 2 ^ 58" by (simp_all add: x_state_def x_content_def)
  then show ?thesis by simp
qed

text \<open>\<open>dequeue\<close> takes the first element.\<close>

lemma explicit_dequeue_correct:
  assumes r: "x_rep q p F h rs xs u"
  shows "case xs of [] \<Rightarrow> explicit_dequeue (q, p) = Some (None, q, p)
    | x # ys \<Rightarrow> \<exists>q' p'. explicit_dequeue (q, p) = Some (Some x, q', p') \<and> x_rep q' p' F (h + 1) rs ys u \<and>
        (\<forall>v. v \<notin> set rs \<longrightarrow> blocks q' v = blocks q v) \<and> (\<forall>U. set rs \<subseteq> U \<longrightarrow> pool_ok q U \<longrightarrow> pool_ok q' U)"
proof -
  have st: "x_state q p F h rs 0 xs u" and ex: "rs \<noteq> [] \<longrightarrow> x_exposed p" and l: "length rs = (h + length xs + 31) div 32"
    using r by (simp_all add: x_rep_def)
  have z: "x_optimistic p = x_headIndex p" "x_overcommit p = 0" "x_tailIndex p = x_headIndex p + of_nat (length xs)"
    "x_headIndex p = F + of_nat h" "slot F = 0" "length rs < 2 ^ 58" using st by (simp_all add: x_state_def)
  have pos: "circular_less_than (x_headIndex p) (x_tailIndex p) \<longleftrightarrow> xs \<noteq> []"
    unfolding z(3) using circular_less_than_iff [of "length xs" "x_headIndex p"] x_length_bound [OF st] by simp
  show ?thesis
  proof (cases xs)
    case Nil
    then show ?thesis using pos z by (simp add: explicit_dequeue_def)
  next
    case (Cons x ys)
    let ?k = "h div 32" let ?r = "rs ! ?k" let ?p = "p\<lparr>x_optimistic := x_headIndex p + 1, x_headIndex := x_headIndex p + 1\<rparr>"
    have ne: "rs \<noteq> []" and kl: "?k < length rs" using l Cons by (auto simp: div_less_iff_less_mult)
    have w: "x_window ?p F rs" "x_exposed ?p" using st ex ne by (simp_all add: x_state_def x_indexed_def)
    have idx: "x_headIndex p AND NOT (BLOCK_SIZE - 1) = F + 32 * of_nat ?k" unfolding z(4) using z(5) by (rule x_index_base)
    have "length rs \<le> 2 ^ 58" using z(6) by simp
    note found = x_block_found [OF w kl this idx]
    have st': "x_state q p F h rs 0 (x # ys) u" using st Cons by simp
    obtain b q' where t: "set_flag (x_headIndex p) (blocks (put_element ?r (x_headIndex p) None q) ?r) = Some b"
      "q' = (put_element ?r (x_headIndex p) None q)\<lparr>blocks := (blocks (put_element ?r (x_headIndex p) None q))(?r := b)\<rparr>"
      "x_ring q' rs 0 (h + 1)" "x_content q' rs (h + 1) ys" "\<forall>v. v \<noteq> ?r \<longrightarrow> blocks q' v = blocks q v"
      "\<forall>U. ?r \<in> U \<longrightarrow> pool_ok q U \<longrightarrow> pool_ok q' U"
      using x_taken [OF st'] by (elim exE conjE) (rule that)
    have "elements (blocks q ?r) ! slot (x_headIndex p) = Some x"
      using st' x_head_slot [OF st'] by (auto simp: x_state_def x_content_def dest: spec [of _ 0])
    then have "x_take_element (x_headIndex p) q ?p = Some (x, q')" using found t(1,2) by (simp add: x_take_element_def Let_def)
    then have "explicit_dequeue (q, p) = Some (Some x, q', ?p)" using pos z Cons by (simp add: explicit_dequeue_def Let_def)
    moreover have "x_rep q' ?p F (h + 1) rs ys u" using st' t(3,4) l Cons w by (simp add: x_rep_def x_state_def x_indexed_def)
    moreover have rin: "?r \<in> set rs" using kl by simp
    have "blocks q' v = blocks q v" if "v \<notin> set rs" for v
    proof -
      have "v \<noteq> ?r" using that rin by metis
      then show ?thesis using t(5) by simp
    qed
    moreover have "pool_ok q' U" if "set rs \<subseteq> U" "pool_ok q U" for U using t(6) that subsetD [OF that(1) rin] by simp
    ultimately show ?thesis using Cons by (simp add: exI)
  qed
qed

lemma explicit_size_correct:
  assumes "x_rep q p F h rs xs u"
  shows "unat (explicit_size_approx p) = length xs"
proof -
  have st: "x_state q p F h rs 0 xs u" using assms by (simp add: x_rep_def)
  then have t: "x_tailIndex p = x_headIndex p + of_nat (length xs)" by (simp add: x_state_def)
  show ?thesis
    unfolding explicit_size_approx_def Let_def t
    using circular_less_than_iff [of "length xs" "x_headIndex p"] x_length_bound [OF st]
    by (simp add: unat_of_nat take_bit_nat_eq_self)
qed

section \<open>The constructor\<close>

lemma make_explicit_rep:
  assumes n: "unat (pool_size q) \<le> 2 ^ 58"
  shows "\<exists>p. make_explicit mem q = Some p \<and> x_rep q p 0 0 [] [] 0"
proof -
  have "\<exists>c < 58. (let s = drop_bit 1 (ceil_to_pow_2 (pool_size q)) in if (16 :: u64) < s then s else 16) = 2 ^ c"
  proof (cases "unat (pool_size q) = 0")
    case True
    then have "pool_size q = 0" by (simp add: unat_eq_zero)
    moreover have "drop_bit 1 (ceil_to_pow_2 0) = (0 :: u64)" by code_simp
    ultimately show ?thesis by (intro exI [of _ 4]) simp
  next
    case False
    then obtain m where m: "m \<le> 63" "unat (ceil_to_pow_2 (pool_size q)) = 2 ^ m" "\<forall>k. unat (pool_size q) \<le> 2 ^ k \<longrightarrow> m \<le> k"
      using ceil_to_pow_2_least [of "pool_size q"] n by auto
    have m58: "m \<le> 58" using m(3) n by blast
    show ?thesis
    proof (cases m)
      case 0
      then have "unat (drop_bit 1 (ceil_to_pow_2 (pool_size q))) = 0" using m(2) unfolding unat_drop_bit_eq by (simp add: drop_bit_eq_div)
      then have "drop_bit 1 (ceil_to_pow_2 (pool_size q)) = 0" by (simp add: unat_eq_zero)
      then show ?thesis by (intro exI [of _ 4]) (simp add: Let_def)
    next
      case (Suc c)
      have "unat (drop_bit 1 (ceil_to_pow_2 (pool_size q))) = 2 ^ c" using m(2) Suc unfolding unat_drop_bit_eq by (simp add: drop_bit_eq_div)
      then have "drop_bit 1 (ceil_to_pow_2 (pool_size q)) = 2 ^ c" using unat_2_power [of c] m58 Suc by (simp add: word_unat_eq_iff)
      then show ?thesis using m58 Suc by (cases "(16 :: u64) < 2 ^ c") (auto intro: exI [of _ c] exI [of _ 4])
    qed
  qed
  then obtain c where c: "c < 58" "(if (16 :: u64) < drop_bit 1 (ceil_to_pow_2 (pool_size q)) then drop_bit 1 (ceil_to_pow_2 (pool_size q)) else 16) = 2 ^ c"
    unfolding Let_def by blast
  let ?p = "\<lparr>x_tailIndex = 0, x_headIndex = 0, x_optimistic = 0, x_overcommit = 0, x_tailBlock = None, x_index = None,
               x_slotsUsed = 0, x_indexSize = 2 ^ c, x_indexFront = 0\<rparr>"
  have "make_explicit mem q = map_option snd (x_new_block_index mem 0 ?p)"
    using c(2) by (simp add: make_explicit_def Let_def EXPLICIT_INITIAL_INDEX_SIZE_def split: if_splits)
  moreover have st: "x_state q ?p 0 0 [] 0 [] 0" using c(1)
    by (auto simp: x_state_def x_ring_def x_links_def x_content_def x_indexed_def slot_mod)
  ultimately show ?thesis
    using x_index_no_memory [OF st, of 0] x_grow [OF st, of 0] by (cases mem) (auto simp: x_rep_def)
qed

end
