(* ===== verification/Explicit_Bulk.thy ===== *)
theory Explicit_Bulk
  imports Explicit_Queue
begin

text \<open>
  The bulk operations of an explicit producer. \<open>dequeue_bulk\<close> walks along the index, \<open>enqueue_bulk\<close>
  reserves blocks, empty ones from ahead first, and fills them when all are there.
\<close>

section \<open>Dequeueing in bulk\<close>

lemma x_take_run:
  assumes "\<forall>j < m. elements (blocks q r) ! (slot i + j) = Some (ys ! j)" "length ys = m" "slot i + m \<le> 32"
  shows "\<exists>q'. take_run r i m q = Some (ys, q') \<and> (\<forall>j. j < slot i \<or> slot i + m \<le> j \<longrightarrow> elements (blocks q' r) ! j = elements (blocks q r) ! j) \<and>
    (\<forall>v. length (elements (blocks q' v)) = length (elements (blocks q v)) \<and> blk_next (blocks q' v) = blk_next (blocks q v) \<and>
      emptyFlags (blocks q' v) = emptyFlags (blocks q v) \<and> dynamicallyAllocated (blocks q' v) = dynamicallyAllocated (blocks q v))"
  using assms
proof (induction m arbitrary: i q ys)
  case 0
  then show ?case by simp
next
  case (Suc m)
  then obtain y zs where ys: "ys = y # zs" "length zs = m" by (cases ys) auto
  let ?q = "put_element r i None q"
  have hd: "elements (blocks q r) ! slot i = Some y" using Suc.prems(1) ys by (auto dest: spec [of _ 0])
  have same: "length (elements (blocks ?q v)) = length (elements (blocks q v)) \<and> blk_next (blocks ?q v) = blk_next (blocks q v) \<and>
      emptyFlags (blocks ?q v) = emptyFlags (blocks q v) \<and> dynamicallyAllocated (blocks ?q v) = dynamicallyAllocated (blocks q v)" for v
    by (simp add: put_element_def)
  show ?case
  proof (cases "m = 0")
    case True
    then have "take_run r i (Suc m) q = Some (ys, ?q)" using hd ys by simp
    then show ?thesis using same True by (intro exI [of _ ?q]) (auto simp: put_element_blocks)
  next
    case False
    then have s: "slot (i + 1) = Suc (slot i)" using slot_add [of i 1] Suc.prems(3) by simp
    have "\<forall>j < m. elements (blocks ?q r) ! (slot (i + 1) + j) = Some (zs ! j)"
      using Suc.prems(1) ys s by (auto simp: put_element_blocks dest: spec [of _ "Suc _"])
    then obtain q' where q': "take_run r (i + 1) m ?q = Some (zs, q')"
      "\<forall>j. j < slot (i + 1) \<or> slot (i + 1) + m \<le> j \<longrightarrow> elements (blocks q' r) ! j = elements (blocks ?q r) ! j"
      "\<forall>v. length (elements (blocks q' v)) = length (elements (blocks ?q v)) \<and> blk_next (blocks q' v) = blk_next (blocks ?q v) \<and>
        emptyFlags (blocks q' v) = emptyFlags (blocks ?q v) \<and> dynamicallyAllocated (blocks q' v) = dynamicallyAllocated (blocks ?q v)"
      using Suc.IH [of ?q "i + 1" zs] ys(2) s Suc.prems(3) by auto
    have "elements (blocks q' r) ! j = elements (blocks q r) ! j" if "j < slot i \<or> slot i + Suc m \<le> j" for j
      using q'(2) that s by (auto simp: put_element_blocks)
    then show ?thesis using q'(1,3) same hd ys by (intro exI [of _ q']) simp
  qed
qed

lemma flags_at_run:
  assumes k: "k \<noteq> h div 32" "h mod 32 + m \<le> 32"
  shows "flags_at k (h + m) = flags_at k h"
proof (rule nth_equalityI)
  fix f assume f: "f < length (flags_at k (h + m))"
  define d r where "d = h div 32" and "r = h mod 32"
  have h: "h = 32 * d + r" by (simp add: d_def r_def)
  have "32 * k + (31 - f) < h + m \<longleftrightarrow> 32 * k + (31 - f) < h"
  proof (cases "k < d")
    case True
    then show ?thesis using h by arith
  next
    case False
    then have "d < k" using k(1) by (simp add: d_def)
    then show ?thesis using h k(2) [folded r_def] by arith
  qed
  then show "flags_at k (h + m) ! f = flags_at k h ! f" using f by simp
qed simp

text \<open>A run of elements of one block is taken and marked.\<close>

lemma x_took:
  assumes k: "x_ring q rs 0 h" "x_content q rs h xs" and m: "m \<le> length xs" "h mod 32 + m \<le> 32" and kl: "h div 32 < length rs"
    and i: "slot i = h mod 32"
  shows "\<exists>q1 b q'. take_run (rs ! (h div 32)) i m q = Some (take m xs, q1) \<and>
    set_many_flags i (of_nat m) (blocks q1 (rs ! (h div 32))) = Some b \<and> q' = q1\<lparr>blocks := (blocks q1)(rs ! (h div 32) := b)\<rparr> \<and>
    x_ring q' rs 0 (h + m) \<and> x_content q' rs (h + m) (drop m xs) \<and> (\<forall>v. v \<notin> set rs \<longrightarrow> blocks q' v = blocks q v) \<and>
    (\<forall>U. set rs \<subseteq> U \<longrightarrow> pool_ok q U \<longrightarrow> pool_ok q' U)"
proof -
  let ?k = "h div 32" let ?r = "rs ! ?k"
  have rin: "?r \<in> set rs" using kl by simp
  have d: "distinct rs" using k(1) by (simp add: x_ring_def)
  have run: "(h + j) div 32 = ?k" "(h + j) mod 32 = h mod 32 + j" if "j < m" for j
  proof -
    have "h + j = 32 * ?k + (h mod 32 + j)" "h mod 32 + j < 32" using that m(2) by simp_all
    then show "(h + j) div 32 = ?k" "(h + j) mod 32 = h mod 32 + j" by (metis div_mult_self4 div_less add_0_right zero_neq_numeral) (metis mod_mult_self4 mod_less \<open>h + j = _\<close> \<open>h mod 32 + j < 32\<close>)
  qed
  have el: "elements (blocks q ?r) ! (slot i + j) = Some (take m xs ! j)" if "j < m" for j
    using k(2) m(1) that run [OF that] i by (auto simp: x_content_def dest: spec [of _ j])
  obtain q1 where q1: "take_run ?r i m q = Some (take m xs, q1)"
    "\<forall>j. j < slot i \<or> slot i + m \<le> j \<longrightarrow> elements (blocks q1 ?r) ! j = elements (blocks q ?r) ! j"
    "\<forall>v. length (elements (blocks q1 v)) = length (elements (blocks q v)) \<and> blk_next (blocks q1 v) = blk_next (blocks q v) \<and>
      emptyFlags (blocks q1 v) = emptyFlags (blocks q v) \<and> dynamicallyAllocated (blocks q1 v) = dynamicallyAllocated (blocks q v)"
    using x_take_run [of m q ?r i "take m xs"] el m i by auto
  note fr = take_run_frame [OF q1(1)]
  have fl: "emptyFlags (blocks q1 ?r) = flags_at ?k h" "h = 32 * ?k + slot i" "slot i + m \<le> 32"
    using q1(3) x_ring_block [OF k(1) kl] kl i m(2) by simp_all
  note sf = set_many_flags_at [OF fl]
  let ?b = "(blocks q1 ?r)\<lparr>emptyFlags := flags_at ?k (h + m)\<rparr>" let ?q = "q1\<lparr>blocks := (blocks q1)(?r := ?b)\<rparr>"
  have eb: "elements (blocks ?q v) = elements (blocks q1 v)" "blk_next (blocks ?q v) = blk_next (blocks q v)"
    "emptyFlags (blocks ?q v) = (if v = ?r then flags_at ?k (h + m) else emptyFlags (blocks q v))" for v using q1(3) by simp_all
  have ring: "x_ring ?q rs 0 (h + m)"
  proof -
    have "length (elements (blocks ?q (rs ! j))) = 32 \<and> emptyFlags (blocks ?q (rs ! j)) = flags_at j (h + m)" if j: "j < length rs" for j
    proof -
      have "rs ! j = ?r \<longleftrightarrow> j = ?k" using d j kl by (simp add: nth_eq_iff_index_eq)
      then show ?thesis unfolding eb using x_ring_block [OF k(1) j] j flags_at_run [OF _ m(2), of j] q1(3) by (cases "j = ?k") simp_all
    qed
    moreover have "x_links (\<lambda>v. blk_next (blocks ?q v)) rs" using k(1) unfolding x_ring_def eb by simp
    ultimately show ?thesis using d unfolding x_ring_def by simp
  qed
  have con: "x_content ?q rs (h + m) (drop m xs)"
  proof -
    have "elements (blocks q1 (rs ! ((h + m + j) div 32))) ! ((h + m + j) mod 32) = Some (drop m xs ! j)" if j: "j < length (drop m xs)" for j
    proof -
      let ?s = "h + m + j"
      have old: "elements (blocks q (rs ! (?s div 32))) ! (?s mod 32) = Some (drop m xs ! j)"
        using k(2) j unfolding x_content_def by (auto simp: add.assoc dest: spec [of _ "m + j"])
      have sl: "?s div 32 < length rs" using k(2) j x_fill_bound [of h "length xs" "length rs" "m + j"] by (simp add: x_content_def add.assoc)
      show ?thesis
      proof (cases "rs ! (?s div 32) = ?r")
        case True
        then have "?s div 32 = ?k" using d sl kl by (simp add: nth_eq_iff_index_eq)
        then have "?s mod 32 = h mod 32 + m + j" using mult_div_mod_eq [of 32 ?s] mult_div_mod_eq [of 32 h] by linarith
        then show ?thesis using old True q1(2) i by simp
      next
        case False
        then show ?thesis using old fr(1) by simp
      qed
    qed
    moreover have "h + m + length (drop m xs) \<le> 32 * length rs" using k(2) m(1) by (simp add: x_content_def)
    ultimately show ?thesis unfolding x_content_def eb by blast
  qed
  have "pool_ok ?q U" if "set rs \<subseteq> U" "pool_ok q U" for U
  proof -
    have "pool_ok q1 U" using that(2) by (rule fr(2))
    then show ?thesis using pool_ok_used [of q1 U ?r] subsetD [OF that(1) rin] by (intro pool_ok_update) auto
  qed
  moreover have "blocks ?q v = blocks q v" if "v \<notin> set rs" for v using that rin fr(1) [of v] by (cases "v = ?r") simp_all
  ultimately show ?thesis using q1(1) sf ring con by (intro exI [of _ q1] exI [of _ ?b] exI [of _ ?q]) simp
qed

lemma x_slot_at: "slot F = 0 \<Longrightarrow> slot (F + of_nat h) = h mod 32"
  using slot_add [of F h] by simp

lemma x_take_blocks_correct:
  assumes "x_positions c ix at F rs" "slot F = 0"
  shows "x_ring q rs 0 h \<Longrightarrow> x_content q rs h xs \<Longrightarrow> k \<le> length xs \<Longrightarrow> xs \<noteq> [] \<Longrightarrow> k < 2 ^ 63 \<Longrightarrow> unat ii = (at + h div 32) mod 2 ^ c \<Longrightarrow>
    \<exists>q'. x_take_blocks ix (F + of_nat h + of_nat k) ii (F + of_nat h) q = Some (take k xs, q') \<and>
      x_ring q' rs 0 (h + k) \<and> x_content q' rs (h + k) (drop k xs) \<and> (\<forall>v. v \<notin> set rs \<longrightarrow> blocks q' v = blocks q v) \<and>
      (\<forall>U. set rs \<subseteq> U \<longrightarrow> pool_ok q U \<longrightarrow> pool_ok q' U)"
proof (induction k arbitrary: q h xs ii rule: less_induct)
  case (less k)
  let ?i = "F + of_nat h" let ?n = "min k (32 - slot ?i)" let ?r = "rs ! (h div 32)"
  have sl: "slot ?i = h mod 32" using assms(2) by (rule x_slot_at)
  have kl: "h div 32 < length rs" using less.prems(2,4) x_fill_bound [of h "length xs" "length rs" 0] by (simp add: x_content_def)
  note re = run_end [OF less.prems(5), of ?i]
  note pb = x_positions_block [OF assms(1) kl less.prems(6)]
  have n: "?n \<le> length xs" "h mod 32 + ?n \<le> 32"
  proof -
    have "?n \<le> 32 - h mod 32" "h mod 32 < 32" by (simp_all add: sl)
    then show "h mod 32 + ?n \<le> 32" by arith
  qed (use less.prems(3) in simp)
  obtain q1 b q2 where t: "take_run ?r ?i ?n q = Some (take ?n xs, q1)" "set_many_flags ?i (of_nat ?n) (blocks q1 ?r) = Some b"
    "q2 = q1\<lparr>blocks := (blocks q1)(?r := b)\<rparr>" "x_ring q2 rs 0 (h + ?n)" "x_content q2 rs (h + ?n) (drop ?n xs)"
    "\<forall>v. v \<notin> set rs \<longrightarrow> blocks q2 v = blocks q v" "\<forall>U. set rs \<subseteq> U \<longrightarrow> pool_ok q U \<longrightarrow> pool_ok q2 U"
    using x_took [OF less.prems(1,2) n kl sl] by (elim exE conjE) (rule that)
  have eq: "x_take_blocks ix (?i + of_nat k) ii ?i q =
      (if k \<le> 32 - slot ?i then Some (take ?n xs, q2)
       else Option.bind (x_take_blocks ix (?i + of_nat k) ((ii + 1) AND (xi_size ix - 1)) (?i + of_nat ?n) q2) (\<lambda>(ys, q). Some (take ?n xs @ ys, q)))"
    using pb t(1,2) by (subst x_take_blocks.simps) (simp only: re Let_def not_le if_False pb option.case add_diff_cancel_left' prod.case t(3) [symmetric] not_less [symmetric] if_P if_not_P simp_thms)
  show ?case
  proof (cases "k \<le> 32 - slot ?i")
    case True
    then have "?n = k" by simp
    then show ?thesis using eq t(4-7) True by (simp only: if_True) blast
  next
    case False
    let ?m = "32 - slot ?i"
    have m: "?n = ?m" "?m < k" "0 < ?m" using False sl by (simp_all add: min_def)
    have hd: "(h + ?m) div 32 = Suc (h div 32)" using mult_div_mod_eq [of 32 h] sl mod_less_divisor [of 32 h] by linarith
    have next_i: "unat ((ii + 1) AND (xi_size ix - 1)) = (at + (h + ?m) div 32) mod 2 ^ c"
      using x_positions_next [OF assms(1) less.prems(6)] unfolding hd .
    have "k - ?m < k" using m by simp
    moreover have "k - ?m \<le> length (drop ?m xs)" "drop ?m xs \<noteq> []" "k - ?m < 2 ^ 63" using less.prems(3,5) m(2) by simp_all
    ultimately obtain q3 where q3: "x_take_blocks ix (F + of_nat (h + ?m) + of_nat (k - ?m)) ((ii + 1) AND (xi_size ix - 1)) (F + of_nat (h + ?m)) q2 =
        Some (take (k - ?m) (drop ?m xs), q3)" "x_ring q3 rs 0 (h + ?m + (k - ?m))" "x_content q3 rs (h + ?m + (k - ?m)) (drop (k - ?m) (drop ?m xs))"
      "\<forall>v. v \<notin> set rs \<longrightarrow> blocks q3 v = blocks q2 v" "\<forall>U. set rs \<subseteq> U \<longrightarrow> pool_ok q2 U \<longrightarrow> pool_ok q3 U"
      using less.IH [of "k - ?m" q2 "h + ?m" "drop ?m xs"] t(4,5) next_i unfolding m(1) by blast
    have st: "F + of_nat (h + ?m) + of_nat (k - ?m) = ?i + of_nat k" "F + of_nat (h + ?m) = ?i + of_nat ?m"
      using m(2) by (simp_all add: of_nat_diff)
    have "take ?m xs @ take (k - ?m) (drop ?m xs) = take k xs" "drop (k - ?m) (drop ?m xs) = drop k xs" "h + ?m + (k - ?m) = h + k"
      using m(2) by (simp_all add: take_add [symmetric])
    moreover note q3(1) [unfolded st(1), unfolded st(2)]
    ultimately have "x_take_blocks ix (?i + of_nat k) ii ?i q = Some (take k xs, q3)" "x_ring q3 rs 0 (h + k)" "x_content q3 rs (h + k) (drop k xs)"
      using q3(2,3) False unfolding eq m(1) by simp_all
    then show ?thesis using q3(4,5) t(6,7) by auto
  qed
qed

lemma x_dequeue_bulk_some:
  assumes "x_tailIndex p = x_headIndex p + n" "x_optimistic p = x_headIndex p" "x_overcommit p = 0"
    and "circular_less_than 0 n" "(if n < m then n else m) = d"
  shows "explicit_dequeue_bulk m (q, p) =
    (case (x_index_of (x_headIndex p) (p\<lparr>x_optimistic := x_headIndex p + d, x_headIndex := x_headIndex p + d\<rparr>), x_index p) of
       (Some ii, Some ix) \<Rightarrow> map_option (\<lambda>(xs, q). (xs, q, p\<lparr>x_optimistic := x_headIndex p + d, x_headIndex := x_headIndex p + d\<rparr>))
         (x_take_blocks ix (x_headIndex p + d) ii (x_headIndex p) q)
     | _ \<Rightarrow> None)"
proof -
  have n: "x_tailIndex p - (x_optimistic p - x_overcommit p) = n" using assms(1-3) by simp
  have "d \<le> n" using assms(5) by (auto split: if_splits)
  then have d: "\<not> n < d" "(if d < n then d else n) = d" by auto
  show ?thesis
    unfolding explicit_dequeue_bulk_def case_prod_conv Let_def n assms(5)
    using assms(1-4) d by (cases "x_index p") (auto split: option.split)
qed

text \<open>\<open>dequeue_bulk\<close> takes as many elements as there are, up to \<open>max\<close>, in order.\<close>

lemma explicit_dequeue_bulk_correct:
  assumes r: "x_rep q p F h rs xs u"
  shows "\<exists>q' p' h'. explicit_dequeue_bulk m (q, p) = Some (take (unat m) xs, q', p') \<and> x_rep q' p' F h' rs (drop (unat m) xs) u \<and>
    (\<forall>v. v \<notin> set rs \<longrightarrow> blocks q' v = blocks q v) \<and> (\<forall>U. set rs \<subseteq> U \<longrightarrow> pool_ok q U \<longrightarrow> pool_ok q' U)"
proof -
  let ?n = "length xs"
  have st: "x_state q p F h rs 0 xs u" and ex: "rs \<noteq> [] \<longrightarrow> x_exposed p" and l: "length rs = (h + ?n + 31) div 32"
    using r by (simp_all add: x_rep_def)
  have z: "x_optimistic p = x_headIndex p" "x_overcommit p = 0" "x_tailIndex p = x_headIndex p + of_nat ?n"
    "x_headIndex p = F + of_nat h" "slot F = 0" "length rs < 2 ^ 58" "x_ring q rs 0 h" "x_content q rs h xs" using st by (simp_all add: x_state_def)
  have b: "?n < 2 ^ 63" by (rule x_length_bound [OF st])
  have u: "unat (of_nat j :: u64) = j" if "j \<le> ?n" for j using that b by (simp add: unat_of_nat take_bit_nat_eq_self)
  have pos: "circular_less_than 0 (of_nat ?n) \<longleftrightarrow> xs \<noteq> []" using circular_less_than_iff [of ?n 0] b by simp
  have dn: "x_tailIndex p - (x_optimistic p - x_overcommit p) = of_nat ?n" using z(1-3) by simp
  show ?thesis
  proof (cases "xs = []")
    case True
    then have "explicit_dequeue_bulk m (q, p) = Some ([], q, p)" using pos dn by (simp add: explicit_dequeue_bulk_def Let_def)
    then show ?thesis using True r by auto
  next
    case False
    let ?k = "min ?n (unat m)" let ?p = "p\<lparr>x_optimistic := x_headIndex p + of_nat ?k, x_headIndex := x_headIndex p + of_nat ?k\<rparr>"
    have mn: "(if of_nat ?n < m then of_nat ?n else m) = (of_nat ?k :: u64)" using u [of ?n] by (auto simp: word_less_nat_alt min_def)
    have ne: "rs \<noteq> []" and kl: "h div 32 < length rs" using l False by (cases xs; auto simp: div_less_iff_less_mult)+
    have w: "x_window ?p F rs" "x_exposed ?p" using st ex ne by (simp_all add: x_state_def x_indexed_def)
    have idx: "x_headIndex p AND NOT (BLOCK_SIZE - 1) = F + 32 * of_nat (h div 32)" unfolding z(4) using z(5) by (rule x_index_base)
    have "length rs \<le> 2 ^ 58" using z(6) by simp
    then obtain c ix at i where i: "x_index_of (x_headIndex p) ?p = Some i" "x_index ?p = Some ix" "x_positions c ix at F rs"
      "unat i = (at + h div 32) mod 2 ^ c" using x_find_block [OF w kl _ idx] by blast
    obtain q' where q': "x_take_blocks ix (F + of_nat h + of_nat ?k) i (F + of_nat h) q = Some (take ?k xs, q')"
      "x_ring q' rs 0 (h + ?k)" "x_content q' rs (h + ?k) (drop ?k xs)" "\<forall>v. v \<notin> set rs \<longrightarrow> blocks q' v = blocks q v"
      "\<forall>U. set rs \<subseteq> U \<longrightarrow> pool_ok q U \<longrightarrow> pool_ok q' U"
    proof -
      have "?k \<le> ?n" "?k < 2 ^ 63" using b by (simp_all add: min_def)
      from x_take_blocks_correct [OF i(3) z(5) z(7,8) this(1) False this(2) i(4)] show ?thesis by (elim exE conjE) (rule that)
    qed
    have "explicit_dequeue_bulk m (q, p) = Some (take ?k xs, q', ?p)"
      using x_dequeue_bulk_some [OF z(3,1,2) _ mn, of q] pos False i(1,2) q'(1) by (simp add: z(4) del: of_nat_min)
    moreover have "x_rep q' ?p F (h + ?k) rs (drop ?k xs) u"
      using st q'(2,3) l ne w by (simp add: x_rep_def x_state_def x_indexed_def del: of_nat_min)
    moreover have "take ?k xs = take (unat m) xs" "drop ?k xs = drop (unat m) xs" by (simp_all add: min_def)
    ultimately show ?thesis using q'(4,5) by (intro exI [of _ q'] exI [of _ ?p] exI [of _ "h + ?k"]) simp
  qed
qed

end
