(* ===== verification/Explicit_Enqueue_Bulk.thy ===== *)
theory Explicit_Enqueue_Bulk
  imports Explicit_Queue Bulk_Enqueue
begin

text \<open>
  \<open>enqueue_bulk\<close> of an explicit producer reserves the blocks it needs at the end of the ring, empty
  ones from ahead first, and fills them when all are there.
\<close>

section \<open>Reserving blocks\<close>

text \<open>The last \<open>g\<close> blocks of the ring are reserved, \<open>first\<close> is the first of them, and \<open>startBlock\<close> the one
  before.\<close>

definition x_reserved ::
  "'a pool \<Rightarrow> explicit_producer \<Rightarrow> u64 \<Rightarrow> nat \<Rightarrow> nat list \<Rightarrow> nat \<Rightarrow> 'a list \<Rightarrow> nat option \<Rightarrow> nat option \<Rightarrow> bool" where
  "x_reserved q p F h rs g xs startBlock first \<longleftrightarrow> x_state q p F h rs g xs 0 \<and> g \<le> length rs \<and>
     length rs - g = (h + length xs + 31) div 32 \<and> first = (if g = 0 then None else Some (rs ! (length rs - g))) \<and>
     (length rs - g \<noteq> 0 \<longrightarrow> startBlock = Some (rs ! (length rs - g - 1)))"

lemma x_reservedD:
  assumes "x_reserved q p F h rs g xs startBlock first" "g \<noteq> 0"
  shows "g \<le> length rs" "length rs - g = (h + length xs + 31) div 32" "first = Some (rs ! ((h + length xs + 31) div 32))"
    "(h + length xs + 31) div 32 \<noteq> 0 \<longrightarrow> startBlock = Some (rs ! ((h + length xs + 31) div 32 - 1))"
  using assms unfolding x_reserved_def by (metis (full_types))+

lemma x_reserved_start:
  assumes "x_rep q p F h rs xs 0"
  shows "x_reserved q p F h rs 0 xs (x_tailBlock p) None"
  using assms last_conv_nth [of rs] by (auto simp: x_reserved_def x_rep_def x_state_def)

lemma set_all_flags_id: "emptyFlags (blocks q r) = replicate 32 True \<Longrightarrow> update_block r set_all_flags q = q"
proof -
  assume "emptyFlags (blocks q r) = replicate 32 True"
  then have "set_all_flags (blocks q r) = blocks q r" by (simp add: set_all_flags_def)
  then show ?thesis by (simp add: update_block_def)
qed

lemma blocks_diff: "0 < d \<Longrightarrow> 32 * of_nat d - BLOCK_SIZE = (32 * of_nat (d - 1) :: u64)"
  by (cases d) (simp_all add: BLOCK_SIZE_def)

lemma x_reuse_reserved:
  assumes r: "x_reserved q p F h (a # rs) g xs sb first" and h: "32 \<le> h" "g \<le> length rs"
  shows "\<exists>p2. x_set_entry (F + 32 * of_nat (Suc (length rs))) (p\<lparr>x_tailBlock := Some a\<rparr>) = Some p2 \<and>
    x_reserved q (x_advance_front p2) (F + 32) (h - 32) (rs @ [a]) (Suc g) xs sb (if first = None then Some a else first) \<and>
    x_tailIndex p2 = x_tailIndex p"
proof -
  have st: "x_state q p F h (a # rs) g xs 0" and l: "length (a # rs) - g = (h + length xs + 31) div 32" using r by (simp_all add: x_reserved_def)
  have em: "emptyFlags (blocks q a) = replicate 32 True"
    using st h flags_at_all [of 0 h] by (auto simp: x_state_def x_ring_def dest: spec [of _ 0])
  obtain p2 where p2: "x_set_entry (F + 32 * of_nat (Suc (length rs))) (p\<lparr>x_tailBlock := Some a\<rparr>) = Some p2"
    "x_state (update_block a set_all_flags q) (x_advance_front p2) (F + 32) (h - 32) (rs @ [a]) (Suc g) xs 0" "x_tailIndex p2 = x_tailIndex p"
    using x_reuse [OF st h, of set_all_flags "Suc g"] keeps_flags(2) by auto
  have "length (rs @ [a]) - Suc g = (h - 32 + length xs + 31) div 32"
  proof -
    have "h + length xs + 31 = 32 + (h - 32 + length xs + 31)" using h(1) by simp
    then have "(h + length xs + 31) div 32 = Suc ((h - 32 + length xs + 31) div 32)" by (simp only: div_add_self1)
    then show ?thesis using l h(2) by simp
  qed
  moreover have "length (rs @ [a]) - Suc g \<noteq> 0 \<longrightarrow> sb = Some ((rs @ [a]) ! (length (rs @ [a]) - Suc g - 1))"
  proof
    assume nz: "length (rs @ [a]) - Suc g \<noteq> 0"
    then have "length (a # rs) - g \<noteq> 0" by simp
    then have "sb = Some ((a # rs) ! (length (a # rs) - g - 1))" using r unfolding x_reserved_def by blast
    moreover have "length (a # rs) - g - 1 = Suc (length (rs @ [a]) - Suc g - 1)" "length (rs @ [a]) - Suc g - 1 < length rs"
      using nz h(2) by auto
    ultimately show "sb = Some ((rs @ [a]) ! (length (rs @ [a]) - Suc g - 1))" by (simp only: nth_append nth_Cons_Suc if_True)
  qed
  moreover have "(if first = None then Some a else first) = Some ((rs @ [a]) ! (length (rs @ [a]) - Suc g))"
  proof (cases "g = 0")
    case True
    then have "first = None" using r by (simp add: x_reserved_def)
    then show ?thesis using True by simp
  next
    case False
    then have "first = Some ((a # rs) ! (length (a # rs) - g))" using r by (simp add: x_reserved_def)
    moreover have "length (a # rs) - g = Suc (length rs - g)" "length rs - g < length rs" using False h(2) by simp_all
    ultimately show ?thesis by (simp add: nth_append)
  qed
  ultimately show ?thesis using p2 h(2) by (simp add: x_reserved_def set_all_flags_id [OF em])
qed

lemma x_reuse_blocks_correct:
  "x_reserved q p F h rs g xs sb first \<Longrightarrow> d < 2 ^ 58 \<Longrightarrow>
   \<exists>F' h' rs' g' first' p'. x_reuse_blocks q (32 * of_nat d) (F + 32 * of_nat (length rs) - 32) first p =
       Some (32 * of_nat (d + g - g'), F' + 32 * of_nat (length rs') - 32, first', p') \<and>
     x_reserved q p' F' h' rs' g' xs sb first' \<and> g \<le> g' \<and> g' \<le> d + g \<and> set rs' = set rs \<and> length rs' = length rs \<and>
     (g' = d + g \<or> h' < 32) \<and> x_tailIndex p' = x_tailIndex p"
proof (induction d arbitrary: p F h rs g first)
  case 0
  then show ?case by (intro exI [of _ F] exI [of _ h] exI [of _ rs] exI [of _ g] exI [of _ first] exI [of _ p])
      (subst x_reuse_blocks.simps, simp split: option.split)
next
  case (Suc d)
  have st: "x_state q p F h rs g xs 0" "length rs - g = (h + length xs + 31) div 32" "first = (if g = 0 then None else Some (rs ! (length rs - g)))"
    and g: "g \<le> length rs" using Suc.prems(1) by (simp_all add: x_reserved_def)
  have pos: "\<not> \<not> (0 :: u64) < 32 * of_nat (Suc d)" using blocks_pos [of "Suc d"] Suc.prems(2) by simp
  have stop: ?case if "x_reuse_blocks q (32 * of_nat (Suc d)) (F + 32 * of_nat (length rs) - 32) first p =
      Some (32 * of_nat (Suc d), F + 32 * of_nat (length rs) - 32, first, p)" "h < 32"
    using that Suc.prems(1)
    by (intro exI [of _ F] exI [of _ h] exI [of _ rs] exI [of _ g] exI [of _ first] exI [of _ p]) simp
  show ?case
  proof (cases rs)
    case Nil
    then have "h = 0" using st(2) by (cases h) auto
    then show ?thesis using Nil st(1) by (intro stop) (subst x_reuse_blocks.simps, simp_all add: x_state_def)
  next
    case (Cons a ss)
    have k: "x_ring q rs g h" "x_tailBlock p = Some (last rs)" "distinct rs" using st(1) Cons by (simp_all add: x_state_def x_ring_def)
    have nx: "blk_next (blocks q (last rs)) = Some a" using k(1) x_links_last [of "\<lambda>r. blk_next (blocks q r)" rs] Cons by (simp add: x_ring_def)
    show ?thesis
    proof (cases "g = length rs")
      case True
      then have "h = 0" "first = Some a" using st(2,3) Cons by auto
      then show ?thesis using k(2) nx by (intro stop) (subst x_reuse_blocks.simps, simp_all)
    next
      case F: False
      then have gl: "g \<le> length ss" using g Cons by simp
      have nf: "Some a \<noteq> first"
      proof (cases "g = 0")
        case False
        then have "rs ! (length rs - g) \<noteq> rs ! 0" using k(3) F g Cons by (subst nth_eq_iff_index_eq) auto
        then show ?thesis using False st(3) Cons by simp
      qed (use st(3) in simp)
      have em: "all_empty (blocks q a) \<longleftrightarrow> 32 \<le> h"
        using x_ring_block [OF k(1), of 0] Cons gl all_empty_flags [of "blocks q a" 0 h] by simp
      show ?thesis
      proof (cases "32 \<le> h")
        case False
        then show ?thesis using k(2) nx em nf by (intro stop) (subst x_reuse_blocks.simps, simp_all)
      next
        case True
        let ?first = "if first = None then Some a else first"
        obtain p2 where p2: "x_set_entry (F + 32 * of_nat (Suc (length ss))) (p\<lparr>x_tailBlock := Some a\<rparr>) = Some p2"
          "x_reserved q (x_advance_front p2) (F + 32) (h - 32) (ss @ [a]) (Suc g) xs sb ?first" "x_tailIndex p2 = x_tailIndex p"
          using x_reuse_reserved [OF Suc.prems(1) [unfolded Cons] True gl] by blast
        have cur: "F + 32 * of_nat (length rs) - 32 + BLOCK_SIZE = F + 32 * of_nat (Suc (length ss))" using Cons by (simp add: BLOCK_SIZE_def)
        have bd: "32 * of_nat (Suc d) - BLOCK_SIZE = (32 * of_nat d :: u64)" by (simp add: BLOCK_SIZE_def algebra_simps)
        have cur2: "F + 32 * of_nat (Suc (length ss)) = F + 32 + 32 * of_nat (length (ss @ [a])) - 32" by simp
        have eq: "x_reuse_blocks q (32 * of_nat (Suc d)) (F + 32 * of_nat (length rs) - 32) first p =
            x_reuse_blocks q (32 * of_nat d) (F + 32 + 32 * of_nat (length (ss @ [a])) - 32) ?first (x_advance_front p2)"
          using k(2) nx em nf True p2(1) pos
          by (subst x_reuse_blocks.simps) (simp only: option.case Let_def cur bd cur2 simp_thms if_False if_True)
        have "d < 2 ^ 58" using Suc.prems(2) by simp
        from Suc.IH [OF p2(2) this] obtain F' h' rs' g' first' p' where i:
          "x_reuse_blocks q (32 * of_nat d) (F + 32 + 32 * of_nat (length (ss @ [a])) - 32) ?first (x_advance_front p2) =
             Some (32 * of_nat (d + Suc g - g'), F' + 32 * of_nat (length rs') - 32, first', p')"
          "x_reserved q p' F' h' rs' g' xs sb first'" "Suc g \<le> g'" "g' \<le> d + Suc g" "set rs' = set (ss @ [a])" "length rs' = length (ss @ [a])"
          "g' = d + Suc g \<or> h' < 32" "x_tailIndex p' = x_tailIndex (x_advance_front p2)" by (elim exE conjE) (rule that)
        have "set rs' = set rs" "length rs' = length rs" "x_tailIndex p' = x_tailIndex p" "d + Suc g - g' = Suc d + g - g'" "g' = Suc d + g \<or> h' < 32"
          "g \<le> g'" "g' \<le> Suc d + g" using i(3-8) Cons p2(3) by auto
        then show ?thesis using i(1,2) unfolding eq
          by (intro exI [of _ F'] exI [of _ h'] exI [of _ rs'] exI [of _ g'] exI [of _ first'] exI [of _ p']) simp
      qed
    qed
  qed
qed

text \<open>New blocks.\<close>

lemma x_add_bulk_block_reserved:
  assumes r: "x_reserved q p F h rs g xs sb first" and room: "x_room p F rs" and fresh: "b \<notin> set rs" "length (elements (blocks q b)) = 32"
    and n: "Suc (length rs) < 2 ^ 58"
  shows "\<exists>q' p'. x_add_bulk_block (F + 32 * of_nat (length rs)) b q p = Some (q', p') \<and>
    x_reserved q' p' F h (rs @ [b]) (Suc g) xs sb (if first = None then Some b else first) \<and> x_tailIndex p' = x_tailIndex p \<and>
    (\<forall>v. v \<noteq> b \<longrightarrow> v \<notin> set rs \<longrightarrow> blocks q' v = blocks q v) \<and> (\<forall>U. pool_ok q U \<longrightarrow> pool_ok q' U)"
proof -
  have st: "x_state q p F h rs g xs 0" and l: "length rs - g = (h + length xs + 31) div 32" "g \<le> length rs" using r by (simp_all add: x_reserved_def)
  obtain q' p1 where ins: "x_insert_block b (update_block b set_all_flags q) p = (q', p1)" by force
  have kf: "keeps set_all_flags (replicate 32 (Suc g \<noteq> 0))" using keeps_flags(2) by simp
  obtain p2 where p2: "x_set_entry (F + 32 * of_nat (length rs)) (p1\<lparr>x_slotsUsed := x_slotsUsed p1 + 1\<rparr>) = Some p2"
    "x_state q' (x_advance_front p2) F h (rs @ [b]) (Suc g) xs 0" "x_tailIndex p2 = x_tailIndex p"
    using x_append [OF st room fresh kf _ n ins] by blast
  have "x_reserved q' (x_advance_front p2) F h (rs @ [b]) (Suc g) xs sb (if first = None then Some b else first)"
  proof -
    have "(if first = None then Some b else first) = Some ((rs @ [b]) ! (length (rs @ [b]) - Suc g))"
    proof (cases "g = 0")
      case True
      then have "first = None" using r by (simp add: x_reserved_def)
      then show ?thesis using True by simp
    next
      case False
      then have "first = Some (rs ! (length rs - g))" using r by (simp add: x_reserved_def)
      moreover have "length rs - g < length rs" using False l(2) by simp
      ultimately show ?thesis using False by (simp add: nth_append)
    qed
    moreover have "length (rs @ [b]) - Suc g \<noteq> 0 \<longrightarrow> sb = Some ((rs @ [b]) ! (length (rs @ [b]) - Suc g - 1))"
    proof
      assume nz: "length (rs @ [b]) - Suc g \<noteq> 0"
      then have "length rs - g \<noteq> 0" by simp
      then have "sb = Some (rs ! (length rs - g - 1))" using r unfolding x_reserved_def by blast
      moreover have "length rs - g - 1 < length rs" using nz by auto
      ultimately show "sb = Some ((rs @ [b]) ! (length (rs @ [b]) - Suc g - 1))" using nz by (simp add: nth_append)
    qed
    ultimately show ?thesis using p2(2) l by (simp add: x_reserved_def)
  qed
  moreover note i = x_insert_block_fields [OF ins kf]
  have "blocks q' v = blocks q v" if "v \<noteq> b" "v \<notin> set rs" for v
  proof -
    have "Some v \<noteq> x_tailBlock p" using that st by (auto simp: x_state_def split: if_splits)
    then show ?thesis using i(6) that(1) by simp
  qed
  ultimately show ?thesis
    using p2(1,3) ins x_insert_block_pool [OF ins kf] by (intro exI [of _ q'] exI [of _ "x_advance_front p2"]) (simp add: x_add_bulk_block_def)
qed

definition x_allocated ::
  "'a pool \<Rightarrow> nat list \<Rightarrow> nat set \<Rightarrow> u64 \<Rightarrow> nat \<Rightarrow> nat \<Rightarrow> 'a list \<Rightarrow> nat option \<Rightarrow> u64 \<Rightarrow> nat option \<Rightarrow> 'a pool \<Rightarrow> explicit_producer \<Rightarrow> bool" where
  "x_allocated q rs U F h g xs sb t first q' p' \<longleftrightarrow>
     (\<exists>news. x_reserved q' p' F h (rs @ news) g xs sb first \<and> pool_ok q' (U \<union> set news) \<and> set news \<inter> U = {} \<and>
        (\<forall>v \<in> U. v \<notin> set rs \<longrightarrow> blocks q' v = blocks q v) \<and> x_tailIndex p' = t)"

lemma x_make_room_some:
  assumes st: "x_state q p F h rs g xs 0" and n: "Suc (length rs) < 2 ^ 58"
  shows "\<exists>okay front p'. x_make_room ca full im e front0 p = Some (okay, front, p') \<and> (ca \<and> im \<and> \<not> full \<longrightarrow> okay) \<and>
    (okay \<longrightarrow> \<not> full \<and> x_state q p' F h rs g xs 0 \<and> x_room p' F rs \<and> x_tailIndex p' = x_tailIndex p \<and> x_tailBlock p' = x_tailBlock p)"
proof (cases "x_index p = None \<or> x_slotsUsed p = x_indexSize p")
  case True
  show ?thesis
  proof (cases "ca \<and> im \<and> \<not> full")
    case t: True
    obtain p' where "x_new_block_index True e p = Some (True, p')" "x_state q p' F h rs g xs 0" "x_room p' F rs"
      "x_tailIndex p' = x_tailIndex p" "x_tailBlock p' = x_tailBlock p"
      using x_grow [OF st True n, of e] by blast
    then show ?thesis using True t by (intro exI [of _ True] exI [of _ e] exI [of _ p']) (auto simp: x_make_room_def)
  next
    case False
    have "x_index p = None \<or> x_slotsUsed p = x_indexSize p \<or> full" using True by blast
    then have "x_make_room ca full im e front0 p = Some (False, front0, p)"
      using False x_index_no_memory [OF st, of e] by (cases im) (simp_all only: x_make_room_def if_True if_False de_Morgan_conj not_not simp_thms option.case prod.case bool.case, auto)
    then show ?thesis using False by (intro exI [of _ False] exI [of _ front0] exI [of _ p]) simp
  qed
next
  case False
  then have room: "x_room p F rs" using x_room_counted [OF st] by simp
  show ?thesis
  proof (cases full)
    case True
    then have "x_make_room ca full im e front0 p = Some (False, front0, p)" by (simp add: x_make_room_def)
    then show ?thesis using True by (intro exI [of _ False] exI [of _ front0] exI [of _ p]) simp
  next
    case F: False
    then have "x_make_room ca full im e front0 p = Some (True, front0, p)" using False by (auto simp: x_make_room_def)
    then show ?thesis using F st room by (intro exI [of _ True] exI [of _ front0] exI [of _ p]) simp
  qed
qed

lemma x_allocate_blocks_correct:
  "x_reserved q p F h rs g xs sb first \<Longrightarrow> d = 0 \<or> h < 32 \<Longrightarrow> length rs + d < 2 ^ 58 \<Longrightarrow> pool_ok q U \<Longrightarrow> set rs \<subseteq> U \<Longrightarrow>
   \<exists>okay first' q' p'. x_allocate_blocks ms ca im bm sb e j f0 (32 * of_nat d) (F + 32 * of_nat (length rs) - 32) first q p =
       Some (okay, first', q', p') \<and>
     (okay \<longrightarrow> x_allocated q rs U F h (g + d) xs sb (x_tailIndex p) first' q' p') \<and> (ms = - 1 \<and> ca \<and> (\<forall>i. im i \<and> bm i) \<longrightarrow> okay)"
proof (induction d arbitrary: q p rs g first U j f0)
  case 0
  have "x_allocated q rs U F h g xs sb (x_tailIndex p) first q p" using 0 by (auto simp: x_allocated_def intro: exI [of _ "[]"])
  then show ?case by (intro exI [of _ True] exI [of _ first] exI [of _ q] exI [of _ p]) (subst x_allocate_blocks.simps, simp)
next
  case (Suc d)
  have st: "x_state q p F h rs g xs 0" using Suc.prems(1) by (simp add: x_reserved_def)
  have hn: "h \<le> 32 * length rs" "x_headIndex p = F + of_nat h" using st by (simp_all add: x_state_def x_content_def)
  let ?cur = "F + 32 * of_nat (length rs)"
  have cur: "?cur = x_headIndex p + of_nat (32 * length rs - h)" using hn by (simp add: of_nat_diff)
  have b: "32 * length rs - h < 2 ^ 63" "32 * length rs - h + 32 < 2 ^ 63" using Suc.prems(3) by simp_all
  have nl: "\<not> circular_less_than ?cur (x_headIndex p)" unfolding cur by (rule circular_not_less [OF b(1)])
  have nf: "\<not> x_full (- 1) (x_headIndex p) ?cur"
  proof -
    have "?cur + BLOCK_SIZE = x_headIndex p + of_nat (32 * length rs - h + 32)" unfolding cur by (simp add: BLOCK_SIZE_def)
    then show ?thesis using circular_less_than_iff [of "32 * length rs - h + 32" "x_headIndex p"] b(2) by (simp add: x_full_def)
  qed
  have pos: "\<not> \<not> (0 :: u64) < 32 * of_nat (Suc d)" using blocks_pos [of "Suc d"] Suc.prems(3) by simp
  have bd: "32 * of_nat (Suc d) - BLOCK_SIZE = (32 * of_nat d :: u64)" by (simp add: BLOCK_SIZE_def algebra_simps)
  have cur0: "F + 32 * of_nat (length rs) - 32 + BLOCK_SIZE = ?cur" by (simp add: BLOCK_SIZE_def)
  let ?full = "x_full ms (x_headIndex p) ?cur"
  have n: "Suc (length rs) < 2 ^ 58" using Suc.prems(3) by simp
  obtain okay front p1 where mr: "x_make_room ca ?full (im j) e f0 p = Some (okay, front, p1)" "ca \<and> im j \<and> \<not> ?full \<longrightarrow> okay"
    "okay \<longrightarrow> \<not> ?full \<and> x_state q p1 F h rs g xs 0 \<and> x_room p1 F rs \<and> x_tailIndex p1 = x_tailIndex p \<and> x_tailBlock p1 = x_tailBlock p"
    using x_make_room_some [OF st n, of ca ?full "im j" e f0] by blast
  obtain ro q1 where rq: "requisition_block ca (bm j) q = (ro, q1)" by force
  note ro = requisition_block_ok [OF Suc.prems(4) rq]
  have eq: "x_allocate_blocks ms ca im bm sb e j f0 (32 * of_nat (Suc d)) (F + 32 * of_nat (length rs) - 32) first q p =
      (if \<not> okay then Some (False, first, q, x_undo front e sb first p1)
       else (case ro of None \<Rightarrow> Some (False, first, q1, x_undo front e sb first p1)
         | Some r \<Rightarrow> (case x_add_bulk_block ?cur r q1 p1 of None \<Rightarrow> None
           | Some (q, p) \<Rightarrow> x_allocate_blocks ms ca im bm sb e (j + 1) front (32 * of_nat d) ?cur
               (if first = None then Some r else first) q p)))"
    using mr(1) rq pos nl by (subst x_allocate_blocks.simps) (simp only: Let_def bd cur0 simp_thms if_False if_True option.case prod.case)
  show ?case
  proof (cases "okay \<and> ro \<noteq> None")
    case False
    have "\<not> (ms = - 1 \<and> ca \<and> (\<forall>i. im i \<and> bm i))" using False mr(2) ro nf by (auto split: option.splits)
    moreover have "\<exists>q' p'. x_allocate_blocks ms ca im bm sb e j f0 (32 * of_nat (Suc d)) (F + 32 * of_nat (length rs) - 32) first q p =
        Some (False, first, q', p')" using False unfolding eq by (cases okay) (simp_all split: option.split)
    ultimately show ?thesis by (elim exE) (intro exI [of _ False] exI [of _ first], auto)
  next
    case True
    then obtain r where r: "ro = Some r" by auto
    then have fresh: "r \<notin> U" "pool_ok q1 (insert r U)" "\<forall>v \<in> U. blocks q1 v = blocks q v" using ro by simp_all
    have m: "\<not> ?full" "x_state q p1 F h rs g xs 0" "x_room p1 F rs" "x_tailIndex p1 = x_tailIndex p" using mr(3) True by simp_all
    have "blocks q1 v = blocks q v" if "v \<in> set rs" for v using fresh(3) subsetD [OF Suc.prems(5) that] by simp
    then have st1: "x_state q1 p1 F h rs g xs 0" by (rule x_state_frame [OF m(2)])
    then have re1: "x_reserved q1 p1 F h rs g xs sb first" using Suc.prems(1) unfolding x_reserved_def by blast
    have l32: "length (elements (blocks q1 r)) = 32" using pool_ok_used [OF fresh(2)] by simp
    have nr: "r \<notin> set rs" using fresh(1) Suc.prems(5) by auto
    let ?first = "if first = None then Some r else first"
    obtain q2 p2 where a: "x_add_bulk_block ?cur r q1 p1 = Some (q2, p2)" "x_reserved q2 p2 F h (rs @ [r]) (Suc g) xs sb ?first"
      "x_tailIndex p2 = x_tailIndex p1" "\<forall>v. v \<noteq> r \<longrightarrow> v \<notin> set rs \<longrightarrow> blocks q2 v = blocks q1 v" "\<forall>U. pool_ok q1 U \<longrightarrow> pool_ok q2 U"
      using x_add_bulk_block_reserved [OF re1 m(3) nr l32 n] by blast
    have c2: "?cur = F + 32 * of_nat (length (rs @ [r])) - 32" by simp
    have "d = 0 \<or> h < 32" "length (rs @ [r]) + d < 2 ^ 58" "pool_ok q2 (insert r U)" "set (rs @ [r]) \<subseteq> insert r U"
      using Suc.prems(2,3,5) fresh(2) a(5) by auto
    from Suc.IH [OF a(2) this, of "j + 1" front] obtain okay' first' q' p' where i:
      "x_allocate_blocks ms ca im bm sb e (j + 1) front (32 * of_nat d) ?cur ?first q2 p2 = Some (okay', first', q', p')"
      "okay' \<longrightarrow> x_allocated q2 (rs @ [r]) (insert r U) F h (Suc g + d) xs sb (x_tailIndex p2) first' q' p'"
      "ms = - 1 \<and> ca \<and> (\<forall>i. im i \<and> bm i) \<longrightarrow> okay'" unfolding c2 by blast
    have "x_allocated q rs U F h (g + Suc d) xs sb (x_tailIndex p) first' q' p'" if okay2: okay'
    proof -
      obtain news where w: "x_reserved q' p' F h ((rs @ [r]) @ news) (Suc g + d) xs sb first'" "pool_ok q' (insert r U \<union> set news)"
        "set news \<inter> insert r U = {}" "\<forall>v \<in> insert r U. v \<notin> set (rs @ [r]) \<longrightarrow> blocks q' v = blocks q2 v" "x_tailIndex p' = x_tailIndex p2"
        using i(2) okay2 unfolding x_allocated_def by blast
      have "blocks q' v = blocks q v" if "v \<in> U" "v \<notin> set rs" for v using w(4) a(4) fresh(1,3) that by auto
      then show ?thesis
        unfolding x_allocated_def using w(1,2,3,5) a(3) m(4) fresh(1) by (intro exI [of _ "r # news"]) auto
    qed
    then show ?thesis using i(1,3) True unfolding eq r option.case a(1) prod.case by simp
  qed
qed

section \<open>Publishing the blocks\<close>

lemma x_links_step: "x_links nx rs \<Longrightarrow> Suc k < length rs \<Longrightarrow> nx (rs ! k) = Some (rs ! Suc k)"
  by (simp add: x_links_def)

lemma x_reset_blocks_correct:
  assumes "distinct rs" "k < length rs"
  shows "x_links (\<lambda>r. blk_next (blocks q r)) rs \<Longrightarrow>
    \<exists>q'. x_reset_blocks (rs ! k) (Some (last rs)) q = Some q' \<and>
      (\<forall>v. blocks q' v = (if v \<in> set (drop k rs) then reset_flags (blocks q v) else blocks q v)) \<and> (\<forall>U. pool_ok q U \<longrightarrow> pool_ok q' U)"
  using assms
proof (induction "length rs - Suc k" arbitrary: k q)
  case 0
  then have "Suc k = length rs" by simp
  then have l: "rs ! k = last rs" "drop k rs = [last rs]" using last_conv_nth [of rs] Cons_nth_drop_Suc [of k rs] by (cases rs; auto)+
  have "pool_ok (update_block (last rs) reset_flags q) U" if "pool_ok q U" for U
    using that by (simp add: update_block_def reset_flags_def pool_ok_def initial_left_def)
  then show ?case using l by (subst x_reset_blocks.simps) (simp add: Let_def update_block_def)
next
  case (Suc m)
  then have k: "Suc k < length rs" by simp
  let ?q = "update_block (rs ! k) reset_flags q"
  have nx: "(\<lambda>r. blk_next (blocks ?q r)) = (\<lambda>r. blk_next (blocks q r))" by (auto simp: update_block_def reset_flags_def)
  have ne: "rs ! k \<noteq> last rs" using k Suc.prems(2) last_conv_nth [of rs] by (cases "rs = []") (auto simp: nth_eq_iff_index_eq)
  have "m = length rs - Suc (Suc k)" using Suc.hyps(2) by simp
  moreover have "x_links (\<lambda>r. blk_next (blocks ?q r)) rs" unfolding nx by (rule Suc.prems(1))
  ultimately obtain q' where q': "x_reset_blocks (rs ! Suc k) (Some (last rs)) ?q = Some q'"
    "\<forall>v. blocks q' v = (if v \<in> set (drop (Suc k) rs) then reset_flags (blocks ?q v) else blocks ?q v)" "\<forall>U. pool_ok ?q U \<longrightarrow> pool_ok q' U"
    using Suc.hyps(1) [of "Suc k" ?q] Suc.prems(2) k by blast
  have "x_reset_blocks (rs ! k) (Some (last rs)) q = Some q'"
    using q'(1) ne x_links_step [OF Suc.prems(1) k] fun_cong [OF nx, of "rs ! k"] by (subst x_reset_blocks.simps) (simp add: Let_def)
  moreover have "drop k rs = rs ! k # drop (Suc k) rs" using k by (simp add: Cons_nth_drop_Suc)
  moreover have "rs ! k \<notin> set (drop (Suc k) rs)" using Suc.prems(2) k calculation(2) distinct_drop [of rs k] by simp
  moreover have "pool_ok ?q U" if "pool_ok q U" for U
    using that by (simp add: update_block_def reset_flags_def pool_ok_def initial_left_def)
  ultimately show ?case using q'(2,3) by (intro exI [of _ q']) (auto simp: update_block_def)
qed

lemma x_expose_state:
  assumes st: "x_state q p F h rs g xs u" and ne: "rs \<noteq> []"
  shows "\<exists>p'. x_expose ((x_indexFront p - 1) AND (x_indexSize p - 1)) p = Some p' \<and> x_state q p' F h rs g xs u \<and> x_exposed p' \<and>
    x_tailIndex p' = x_tailIndex p \<and> x_tailBlock p' = x_tailBlock p"
proof -
  let ?f = "(x_indexFront p - 1) AND (x_indexSize p - 1)"
  have "x_window p F rs" using st ne by (simp add: x_state_def x_indexed_def)
  then obtain c ix fs where s: "x_sizes c ix p" "rotate (unat (x_indexFront p)) (xi_entries ix) = fs @ x_entries (blocks_from F rs)"
    by (auto simp: x_window_def)
  let ?ix = "ix\<lparr>xi_front := ?f\<rparr>" let ?p = "p\<lparr>x_index := Some ?ix\<rparr>"
  have "x_expose ?f p = Some ?p" using s(1) by (simp add: x_expose_def x_sizes_def)
  moreover have "x_sizes c ?ix ?p" using s(1) by (simp add: x_sizes_def)
  then have "x_window ?p F rs" unfolding x_window_def using s(2) by (intro exI [of _ c] exI [of _ ?ix]) simp
  then have "x_state q ?p F h rs g xs u" using st by (simp add: x_state_def x_indexed_def)
  moreover have "x_exposed ?p" by (simp add: x_exposed_def)
  ultimately show ?thesis by simp
qed

lemma x_publish_correct:
  assumes r: "x_reserved q p F h rs g xs sb first" and g: "g \<noteq> 0"
  shows "\<exists>q' p'. x_publish_blocks first q p = Some (q', p') \<and> x_state q' p' F h rs 0 xs 0 \<and> x_exposed p' \<and> x_tailIndex p' = x_tailIndex p \<and>
    x_tailBlock p' = Some (last rs) \<and> (\<forall>v. v \<notin> set rs \<longrightarrow> blocks q' v = blocks q v) \<and> (\<forall>U. pool_ok q U \<longrightarrow> pool_ok q' U)"
proof -
  let ?k = "length rs - g"
  have st: "x_state q p F h rs g xs 0" and l: "?k = (h + length xs + 31) div 32" "g \<le> length rs" "first = Some (rs ! ?k)"
    using r g by (simp_all add: x_reserved_def)
  have z: "x_ring q rs g h" "x_content q rs h xs" using st by (simp_all add: x_state_def)
  then have d: "distinct rs" "x_links (\<lambda>r. blk_next (blocks q r)) rs" by (simp_all add: x_ring_def)
  have kl: "?k < length rs" and ne: "rs \<noteq> []" using g l(2) by auto
  have tb: "x_tailBlock p = Some (last rs)" using st ne by (simp add: x_state_def)
  obtain q' where q': "x_reset_blocks (rs ! ?k) (Some (last rs)) q = Some q'"
    "\<forall>v. blocks q' v = (if v \<in> set (drop ?k rs) then reset_flags (blocks q v) else blocks q v)" "\<forall>U. pool_ok q U \<longrightarrow> pool_ok q' U"
    using x_reset_blocks_correct [OF d(1) kl d(2)] by blast
  have e: "elements (blocks q' v) = elements (blocks q v)" "blk_next (blocks q' v) = blk_next (blocks q v)" for v
    using q'(2) by (simp_all add: reset_flags_def)
  have "x_ring q' rs 0 h"
  proof -
    have "emptyFlags (blocks q' (rs ! j)) = flags_at j h" if j: "j < length rs" for j
    proof (cases "j < ?k")
      case True
      then have "rs ! j \<notin> set (drop ?k rs)" using d(1) j by (auto simp: in_set_conv_nth nth_eq_iff_index_eq)
      then show ?thesis using q'(2) x_ring_block [OF z(1) j] True by simp
    next
      case False
      then have "drop ?k rs ! (j - ?k) = rs ! j" "j - ?k < length (drop ?k rs)" using j by simp_all
      then have "rs ! j \<in> set (drop ?k rs)" using nth_mem by metis
      moreover have "h \<le> 32 * j" using False l(1) blocks_padding [of "h + length xs"] by linarith
      ultimately show ?thesis using q'(2) by (simp add: reset_flags_def flags_at_none)
    qed
    then show ?thesis using z(1) e unfolding x_ring_def by simp
  qed
  moreover have "x_content q' rs h xs" by (rule x_content_cong [OF z(2)]) (rule e(1))
  ultimately have st': "x_state q' p F h rs 0 xs 0" using st by (simp add: x_state_def)
  obtain p' where p': "x_expose ((x_indexFront p - 1) AND (x_indexSize p - 1)) p = Some p'" "x_state q' p' F h rs 0 xs 0" "x_exposed p'"
    "x_tailIndex p' = x_tailIndex p" "x_tailBlock p' = x_tailBlock p" using x_expose_state [OF st' ne] by blast
  have "x_publish_blocks first q p = Some (q', p')" using q'(1) p'(1) l(3) tb by (simp add: x_publish_blocks_def)
  moreover have "blocks q' v = blocks q v" if "v \<notin> set rs" for v
  proof -
    have "v \<notin> set (drop ?k rs)" using that in_set_dropD by metis
    then show ?thesis using q'(2) by simp
  qed
  ultimately show ?thesis using p' tb q'(3) by auto
qed

section \<open>Filling the blocks\<close>

lemma x_construct:
  assumes "x_state q p F h rs 0 xs u" "(h + length xs) mod 32 + length ys \<le> 32" "ys \<noteq> [] \<Longrightarrow> k < length rs" "k = (h + length xs) div 32"
  shows "x_state (construct_run (rs ! k) (x_tailIndex p) ys q) (p\<lparr>x_tailIndex := x_tailIndex p + of_nat (length ys)\<rparr>) F h rs 0 (xs @ ys) u"
  using assms
proof (induction ys arbitrary: q p xs)
  case (Cons y ys)
  let ?t = "h + length xs"
  let ?q = "put_element (rs ! k) (x_tailIndex p) (Some y) q" and ?p = "p\<lparr>x_tailIndex := 1 + x_tailIndex p\<rparr>"
  have "?t = 32 * k + ?t mod 32" using Cons.prems(4) by simp
  then have room: "?t < 32 * length rs" using Cons.prems(2,3) by simp
  have one: "x_state ?q ?p F h rs 0 (xs @ [y]) u" using Cons.prems(4) by (intro x_put [OF Cons.prems(1) _ room]) simp
  have same: "ys = [] \<or> Suc ?t mod 32 = Suc (?t mod 32) \<and> Suc ?t div 32 = ?t div 32"
    using Cons.prems(2) by (cases "?t mod 32 = 31") (auto simp: mod_Suc div_Suc)
  show ?case
  proof (cases "ys = []")
    case False
    have "x_state (construct_run (rs ! k) (x_tailIndex ?p) ys ?q) (?p\<lparr>x_tailIndex := x_tailIndex ?p + of_nat (length ys)\<rparr>) F h rs 0
        ((xs @ [y]) @ ys) u"
      by (rule Cons.IH [OF one]) (use Cons.prems same False in simp_all)
    then show ?thesis by (simp add: ac_simps)
  qed (use one in \<open>simp add: ac_simps\<close>)
qed simp

lemma x_fill_blocks_step:
  assumes k: "length ys < 2 ^ 63" and n: "n = min (length ys) (32 - slot cur)"
  shows "x_fill_blocks e (cur + of_nat (length ys)) cur ys q (Some r) =
    (let q = construct_run r cur (take n ys) q in
     if Some r = e then (if length ys \<le> 32 - slot cur then Some q else None)
     else x_fill_blocks e (cur + of_nat (length ys)) (cur + of_nat n) (drop n ys) q (blk_next (blocks q r)))"
proof -
  note re = run_end [OF k, of cur]
  have u: "unat (cur + of_nat n - cur) = n" using re(2) by (simp add: n)
  have le: "\<not> length ys < n" by (simp add: n)
  show ?thesis
    by (subst x_fill_blocks.simps) (simp only: Let_def re(1) option.case n [symmetric] u le re(3) [folded n] option.distinct simp_thms if_False)
qed

lemma x_fill_blocks_correct:
  assumes "x_state q p F h rs 0 xs u" "ys \<noteq> []" "length ys < 2 ^ 63" "(h + length xs + length ys + 31) div 32 = length rs"
  shows "\<exists>q'. x_fill_blocks (Some (last rs)) (x_tailIndex p + of_nat (length ys)) (x_tailIndex p) ys q (Some (rs ! ((h + length xs) div 32))) = Some q' \<and>
    x_state q' (p\<lparr>x_tailIndex := x_tailIndex p + of_nat (length ys)\<rparr>) F h rs 0 (xs @ ys) u \<and>
    (\<forall>V. pool_ok q V \<longrightarrow> pool_ok q' V) \<and> (\<forall>v. v \<notin> set rs \<longrightarrow> blocks q' v = blocks q v)"
  using assms
proof (induction "length ys" arbitrary: ys xs q p rule: less_induct)
  case less
  let ?x = "h + length xs" and ?cur = "x_tailIndex p"
  let ?n = "min (length ys) (32 - slot ?cur)" and ?j = "?x div 32"
  let ?q = "construct_run (rs ! ?j) ?cur (take ?n ys) q"
  have br: "x_ring q rs 0 h" using less.prems(1) by (simp add: x_state_def)
  then have d: "distinct rs" by (simp add: x_ring_def)
  have sl: "slot ?cur = ?x mod 32" by (rule x_tail_slot [OF less.prems(1)])
  have ny: "1 \<le> length ys" using less.prems(2) by (cases ys) auto
  have x: "?x = 32 * ?j + slot ?cur" unfolding sl by simp
  have s32: "slot ?cur < 32" by simp
  have "length rs = (32 * ?j + (slot ?cur + length ys + 31)) div 32" using less.prems(4) x by (simp only: add.assoc)
  also have "\<dots> = ?j + (slot ?cur + length ys + 31) div 32" by (rule div_mult_self4) simp
  finally have lr: "length rs = ?j + (slot ?cur + length ys + 31) div 32" .
  have lb: "Suc ?j = length rs \<longleftrightarrow> length ys \<le> 32 - slot ?cur" by (rule one_more [OF lr run_blocks [OF s32 ny]])
  have jl: "?j < length rs"
  proof -
    have "1 \<le> (slot ?cur + length ys + 31) div 32" using ny by (simp add: Suc_le_eq div_greater_zero_iff)
    then show ?thesis using lr by simp
  qed
  have one: "x_state ?q (p\<lparr>x_tailIndex := ?cur + of_nat ?n\<rparr>) F h rs 0 (xs @ take ?n ys) u"
  proof -
    have ln: "length (take ?n ys) = ?n" by simp
    have "slot ?cur + ?n \<le> 32" using s32 min.cobounded2 [of "length ys" "32 - slot ?cur"] by linarith
    then have room: "?x mod 32 + length (take ?n ys) \<le> 32" unfolding ln by (simp add: sl [symmetric])
    have "x_state ?q (p\<lparr>x_tailIndex := ?cur + of_nat (length (take ?n ys))\<rparr>) F h rs 0 (xs @ take ?n ys) u"
      by (rule x_construct [OF less.prems(1) room jl refl])
    then show ?thesis unfolding ln .
  qed
  note st = x_fill_blocks_step [OF less.prems(3) refl, of "Some (last rs)" ?cur q "rs ! ?j"]
  have end_at: "rs ! ?j = last rs \<longleftrightarrow> Suc ?j = length rs"
  proof -
    have "last rs = rs ! (length rs - 1)" using jl by (intro last_conv_nth) auto
    then show ?thesis using d jl by (auto simp: nth_eq_iff_index_eq)
  qed
  note fr = construct_run_frame
  have frame: "(\<forall>V. pool_ok q V \<longrightarrow> pool_ok ?q V) \<and> (\<forall>v. v \<notin> set rs \<longrightarrow> blocks ?q v = blocks q v)"
    using jl fr(1,3) by (metis nth_mem)
  show ?case
  proof (cases "length ys \<le> 32 - slot ?cur")
    case True
    then have n: "?n = length ys" by simp
    have "rs ! ?j = last rs" using end_at lb True by blast
    then show ?thesis using st True one frame unfolding n Let_def by simp
  next
    case False
    then have n: "?n = 32 - slot ?cur" by simp
    let ?p = "p\<lparr>x_tailIndex := ?cur + of_nat ?n\<rparr>" and ?ys = "drop ?n ys"
    have xn: "h + length (xs @ take ?n ys) = 32 * Suc ?j" using x s32 n by (simp del: slot_less)
    then have j': "(h + length (xs @ take ?n ys)) div 32 = Suc ?j" by simp
    have nl: "\<not> Suc ?j = length rs" using lb False by simp
    then have sj: "Suc ?j < length rs" using jl by simp
    have nx: "blk_next (blocks ?q (rs ! ?j)) = Some (rs ! Suc ?j)"
      using x_links_step [of "\<lambda>r. blk_next (blocks q r)" rs ?j] br sj by (simp add: x_ring_def fr(2))
    have c: "length ?ys < length ys" "?ys \<noteq> []" "length ?ys < 2 ^ 63" "(h + length (xs @ take ?n ys) + length ?ys + 31) div 32 = length rs"
      using ny n s32 False less.prems(3,4) by (simp_all add: add.assoc del: slot_less)
    obtain q' where q': "x_fill_blocks (Some (last rs)) (x_tailIndex ?p + of_nat (length ?ys)) (x_tailIndex ?p) ?ys ?q (Some (rs ! Suc ?j)) = Some q'"
      "x_state q' (?p\<lparr>x_tailIndex := x_tailIndex ?p + of_nat (length ?ys)\<rparr>) F h rs 0 ((xs @ take ?n ys) @ ?ys) u"
      "\<forall>V. pool_ok ?q V \<longrightarrow> pool_ok q' V" "\<forall>v. v \<notin> set rs \<longrightarrow> blocks q' v = blocks ?q v"
      using less.hyps [OF c(1) one c(2-4), unfolded j'] by (elim exE conjE) (rule that)
    have tl: "x_tailIndex ?p + of_nat (length ?ys) = ?cur + of_nat (length ys)" by (simp add: of_nat_diff)
    have "x_fill_blocks (Some (last rs)) (?cur + of_nat (length ys)) ?cur ys q (Some (rs ! ?j)) = Some q'"
      using st q'(1) nl end_at nx unfolding tl Let_def by simp
    moreover have "x_state q' (p\<lparr>x_tailIndex := ?cur + of_nat (length ys)\<rparr>) F h rs 0 (xs @ ys) u" using q'(2) unfolding tl by simp
    ultimately show ?thesis using q'(3,4) frame by auto
  qed
qed

section \<open>\<open>enqueue_bulk\<close>\<close>

text \<open>All blocks are there.\<close>

lemma x_fill_allocation_correct:
  assumes st: "x_state q p F h rs 0 xs 0" and ex: "x_exposed p" and ys: "ys \<noteq> []" "length ys < 2 ^ 63"
    and l: "(h + length xs + length ys + 31) div 32 = length rs"
    and sb: "(h + length xs) mod 32 \<noteq> 0 \<Longrightarrow> sb = Some (rs ! ((h + length xs) div 32))"
    and first: "(h + length xs) mod 32 = 0 \<Longrightarrow> first = Some (rs ! ((h + length xs) div 32))"
  shows "\<exists>q' p'. x_fill_allocation (x_tailIndex p) sb first ys q p = Some (True, q', p') \<and> x_rep q' p' F h rs (xs @ ys) 0 \<and>
    (\<forall>v. v \<notin> set rs \<longrightarrow> blocks q' v = blocks q v) \<and> (\<forall>V. pool_ok q V \<longrightarrow> pool_ok q' V)"
proof -
  let ?al = "x_tailIndex p AND (BLOCK_SIZE - 1) = 0"
  have al: "?al \<longleftrightarrow> (h + length xs) mod 32 = 0" using x_tail_slot [OF st] unat_mod_32 [of "x_tailIndex p"] by (simp add: slot_mod)
  have ny: "1 \<le> length ys" using ys(1) by (cases ys) auto
  then have ne: "rs \<noteq> []" using l by (auto simp: div_eq_0_iff)
  then have tb: "x_tailBlock p = Some (last rs)" using st by (simp add: x_state_def)
  obtain q' where q': "x_fill_blocks (Some (last rs)) (x_tailIndex p + of_nat (length ys)) (x_tailIndex p) ys q (Some (rs ! ((h + length xs) div 32))) = Some q'"
    "x_state q' (p\<lparr>x_tailIndex := x_tailIndex p + of_nat (length ys)\<rparr>) F h rs 0 (xs @ ys) 0"
    "\<forall>V. pool_ok q V \<longrightarrow> pool_ok q' V" "\<forall>v. v \<notin> set rs \<longrightarrow> blocks q' v = blocks q v"
    using x_fill_blocks_correct [OF st ys l] by blast
  let ?p = "p\<lparr>x_tailIndex := x_tailIndex p + of_nat (length ys)\<rparr>"
  have b: "(if ?al \<and> first \<noteq> None then first else sb) = Some (rs ! ((h + length xs) div 32))" "\<not> (?al \<and> first = None \<and> (of_nat (length ys) :: u64) \<noteq> 0)"
    using sb first al by (cases ?al; simp)+
  have "x_fill_allocation (x_tailIndex p) sb first ys q p = Some (True, q', ?p)"
    using q'(1) b(2) unfolding x_fill_allocation_def Let_def b(1) tb by simp
  moreover have "x_rep q' ?p F h rs (xs @ ys) 0" using q'(2) ex l by (simp add: x_rep_def add.assoc)
  ultimately show ?thesis using q'(3,4) by auto
qed

lemma difference_unique: "k = a - b \<Longrightarrow> b \<le> a \<Longrightarrow> n - k = b \<Longrightarrow> k \<le> n \<Longrightarrow> a = (n :: nat)"
  by arith

lemma difference_bound: "n - k = b \<Longrightarrow> b \<le> a \<Longrightarrow> k \<le> d \<Longrightarrow> n \<le> a + (d :: nat)"
  by arith

lemma blocks_needed:
  assumes "t mod 32 = (s :: nat) mod 32"
  shows "(t + y + 31) div 32 - (t + 31) div 32 = (s + y + 31) div 32 - (s + 31) div 32"
proof -
  have "(32 * a + r + y + 31) div 32 - (32 * a + r + 31) div 32 = (r + y + 31) div 32 - (r + 31) div 32" for a r :: nat
  proof -
    have "32 * a + r + y + 31 = 32 * a + (r + y + 31)" "32 * a + r + 31 = 32 * a + (r + 31)" by simp_all
    then show ?thesis by (simp only: div_mult_self4 zero_neq_numeral not_False_eq_True)
  qed
  from this [of "t div 32" "t mod 32", unfolded mult_div_mod_eq] this [of "s div 32" "s mod 32", unfolded mult_div_mod_eq]
  show ?thesis using assms by (simp only:)
qed

text \<open>\<open>enqueue_bulk\<close> always returns. When it accepts, the elements are appended, and with memory it
  accepts.\<close>

lemma explicit_enqueue_bulk_correct:
  assumes r: "x_rep q p F h rs xs 0" and ok: "pool_ok q U" "set rs \<subseteq> U" and n: "length rs + (length ys + 31) div 32 < 2 ^ 58"
  shows "\<exists>okay q' p'. explicit_enqueue_bulk ms ca im bm ys (q, p) = Some (okay, q', p') \<and>
    (okay \<longrightarrow> x_enqueued q rs xs U ys 0 (okay, q', p')) \<and> (ms = - 1 \<and> ca \<and> (\<forall>i. im i \<and> bm i) \<longrightarrow> okay)"
proof -
  let ?t = "h + length xs"
  let ?N = "(?t + length ys + 31) div 32"
  let ?k = "?N - length rs" and ?cur = "(x_tailIndex p - 1) AND NOT (BLOCK_SIZE - 1)"
  have st: "x_state q p F h rs 0 xs 0" and l: "length rs = (?t + 31) div 32" and ex: "rs \<noteq> [] \<longrightarrow> x_exposed p" using r by (simp_all add: x_rep_def)
  have z: "x_tailIndex p = F + of_nat ?t" "slot F = 0" "x_tailBlock p = (if rs = [] then None else Some (last rs))" using st by (simp_all add: x_state_def)
  have cur: "?cur + BLOCK_SIZE = F + 32 * of_nat (length rs)" unfolding z(1) l by (rule bulk_base [OF z(2)])
  have "x_tailIndex p + of_nat (length ys) - 1 = F + of_nat (?t + length ys) - 1" by (simp add: z(1))
  then have cur': "((x_tailIndex p + of_nat (length ys) - 1) AND NOT (BLOCK_SIZE - 1)) + BLOCK_SIZE = F + 32 * of_nat ?N"
    using bulk_base [OF z(2), of "?t + length ys"] by (simp only: add.assoc)
  have le: "length rs \<le> ?N" unfolding l by (intro div_le_mono) simp
  have diff: "((x_tailIndex p + of_nat (length ys) - 1) AND NOT (BLOCK_SIZE - 1)) - ?cur = 32 * of_nat ?k"
  proof -
    have "length rs + ?k = ?N" using le by linarith
    from arg_cong [OF this, of "of_nat :: nat \<Rightarrow> u64"] have n: "of_nat ?N = (of_nat (length rs) + of_nat ?k :: u64)"
      unfolding of_nat_add by (rule sym)
    have "((x_tailIndex p + of_nat (length ys) - 1) AND NOT (BLOCK_SIZE - 1)) - ?cur =
        (((x_tailIndex p + of_nat (length ys) - 1) AND NOT (BLOCK_SIZE - 1)) + BLOCK_SIZE) - (?cur + BLOCK_SIZE)"
      by (simp only: add_diff_cancel_right)
    also have "\<dots> = (F + 32 * of_nat ?N) - (F + 32 * of_nat (length rs))" by (simp only: cur cur')
    also have "\<dots> = 32 * of_nat ?k" unfolding n by (simp only: distrib_left add_diff_cancel_left add_diff_cancel_left')
    finally show ?thesis .
  qed
  have cur0: "?cur = F + 32 * of_nat (length rs) - 32" using cur by (simp add: BLOCK_SIZE_def eq_diff_eq)
  have kn: "?k \<le> (length ys + 31) div 32"
  proof -
    have "?t \<le> 32 * length rs" using blocks_padding [of ?t] unfolding l by linarith
    then have "?N \<le> (32 * length rs + (length ys + 31)) div 32" by (intro div_le_mono) simp
    also have "\<dots> = length rs + (length ys + 31) div 32" by (rule div_mult_self4) simp
    finally show ?thesis by simp
  qed
  then have bound: "length rs + ?k < 2 ^ 58" using n by simp
  have k58: "?k < 2 ^ 58" using bound by simp
  then have k59: "?k < 2 ^ 59" by simp
  note pos = blocks_pos [OF k59]
  have y63: "length ys < 2 ^ 63"
  proof -
    have "(length ys + 31) div 32 < 2 ^ 58" using n by simp
    then show ?thesis by (simp add: div_less_iff_less_mult)
  qed
  show ?thesis
  proof (cases "ys = []")
    case True
    then have k0: "\<not> (0 :: u64) < 32 * of_nat ?k" using l by simp
    have "x_fill_blocks b (x_tailIndex p) (x_tailIndex p) [] q b = Some q" for b
    proof -
      have "circular_less_than (x_tailIndex p) ((x_tailIndex p AND NOT (BLOCK_SIZE - 1)) + BLOCK_SIZE)"
        unfolding block_end using circular_between [of 0 "32 - slot (x_tailIndex p)" "x_tailIndex p"] by simp
      then show ?thesis by (subst x_fill_blocks.simps) (simp add: Let_def split: option.split)
    qed
    then have "x_fill_allocation (x_tailIndex p) (x_tailBlock p) None ys q p = Some (True, q, p)"
      using True by (simp add: x_fill_allocation_def)
    then have "explicit_enqueue_bulk ms ca im bm ys (q, p) = Some (True, q, p)"
      using k0 unfolding explicit_enqueue_bulk_def Let_def prod.case diff by (simp only: if_False)
    moreover have "x_enqueued q rs xs U ys 0 (True, q, p)"
      using r ok True by (intro x_enqueuedI [where F = F and h = h and rs' = rs]) (auto simp: Un_absorb2)
    ultimately show ?thesis by auto
  next
    case ne: False
    show ?thesis
    proof (cases "0 < ?k")
      case False
      then have k0: "\<not> (0 :: u64) < 32 * of_nat ?k" using pos by simp
      have lN: "?N = length rs" using False le by linarith
      have ny: "1 \<le> length ys" using ne by (cases ys) auto
      have nm: "?t mod 32 \<noteq> 0"
      proof
        assume "?t mod 32 = 0"
        then obtain m where m: "?t = 32 * m" by (metis mult_div_mod_eq add_0_right)
        then have "length rs = m" "?N = m + (length ys + 31) div 32" using l by (simp_all add: add.assoc)
        moreover have "1 \<le> (length ys + 31) div 32" using ny by (simp add: Suc_le_eq div_greater_zero_iff)
        ultimately show False using lN by simp
      qed
      have lr: "length rs = Suc (?t div 32)" using l nm add_31_div [of ?t] by simp
      then have rne: "rs \<noteq> []" by auto
      have sb: "x_tailBlock p = Some (rs ! (?t div 32))" using z(3) rne last_conv_nth [OF rne] lr by simp
      have xe: "x_exposed p" using ex rne by simp
      obtain q' p' where f: "x_fill_allocation (x_tailIndex p) (x_tailBlock p) None ys q p = Some (True, q', p')" "x_rep q' p' F h rs (xs @ ys) 0"
        "\<forall>v. v \<notin> set rs \<longrightarrow> blocks q' v = blocks q v" "\<forall>V. pool_ok q V \<longrightarrow> pool_ok q' V"
        using x_fill_allocation_correct [OF st xe ne y63 lN, of "x_tailBlock p" None] sb nm by auto
      have "explicit_enqueue_bulk ms ca im bm ys (q, p) = Some (True, q', p')"
        using k0 f(1) unfolding explicit_enqueue_bulk_def Let_def prod.case diff by (simp only: if_False)
      moreover have "x_enqueued q rs xs U ys 0 (True, q', p')"
        using f(2-4) ok by (intro x_enqueuedI [where F = F and h = h and rs' = rs]) (auto simp: Un_absorb2)
      ultimately show ?thesis by auto
    next
      case True
      then have kp: "(0 :: u64) < 32 * of_nat ?k" using pos by simp
      note re0 = x_reserved_start [OF r]
      obtain F1 h1 rs1 g1 first1 p1 where re: "x_reuse_blocks q (32 * of_nat ?k) (F + 32 * of_nat (length rs) - 32) None p =
          Some (32 * of_nat (?k + 0 - g1), F1 + 32 * of_nat (length rs1) - 32, first1, p1)"
        "x_reserved q p1 F1 h1 rs1 g1 xs (x_tailBlock p) first1" "g1 \<le> ?k + 0" "set rs1 = set rs" "length rs1 = length rs"
        "g1 = ?k + 0 \<or> h1 < 32" "x_tailIndex p1 = x_tailIndex p"
        using x_reuse_blocks_correct [OF re0 k58] by (elim exE conjE) (rule that)
      have d1: "?k + 0 - g1 = 0 \<or> h1 < 32" "length rs1 + (?k + 0 - g1) < 2 ^ 58" "set rs1 \<subseteq> U" using re(4-6) bound ok(2) by auto
      obtain okay first2 q2 p2 where al: "x_allocate_blocks ms ca im bm (x_tailBlock p) (x_slotsUsed p) 0 (x_indexFront p) (32 * of_nat (?k + 0 - g1))
            (F1 + 32 * of_nat (length rs1) - 32) first1 q p1 = Some (okay, first2, q2, p2)"
        "okay \<longrightarrow> x_allocated q rs1 U F1 h1 (g1 + (?k + 0 - g1)) xs (x_tailBlock p) (x_tailIndex p1) first2 q2 p2"
        "ms = - 1 \<and> ca \<and> (\<forall>i. im i \<and> bm i) \<longrightarrow> okay"
        using x_allocate_blocks_correct [where ms = ms and ca = ca and im = im and bm = bm and e = "x_slotsUsed p" and j = 0
            and ?f0.0 = "x_indexFront p", OF re(2) d1(1,2) ok(1) d1(3)] by (elim exE conjE) (rule that)
      have eq: "explicit_enqueue_bulk ms ca im bm ys (q, p) =
          (if \<not> okay then Some (False, q2, p2)
           else (case x_publish_blocks first2 q2 p2 of None \<Rightarrow> None
             | Some (q, p') \<Rightarrow> x_fill_allocation (x_tailIndex p) (x_tailBlock p) first2 ys q p'))"
        using kp re(1) [folded cur0] al(1) unfolding explicit_enqueue_bulk_def Let_def prod.case diff
        by (cases okay) (simp_all only: if_True option.case prod.case bool.case simp_thms if_False)
      show ?thesis
      proof (cases okay)
        case False
        then have "explicit_enqueue_bulk ms ca im bm ys (q, p) = Some (False, q2, p2)" unfolding eq by simp
        then show ?thesis using al(3) False by blast
      next
        case okay: True
        have gk: "g1 + (?k + 0 - g1) = ?k" using re(3) by simp
        from okay obtain news where w: "x_reserved q2 p2 F1 h1 (rs1 @ news) ?k xs (x_tailBlock p) first2" "pool_ok q2 (U \<union> set news)"
          "set news \<inter> U = {}" "\<forall>v \<in> U. v \<notin> set rs1 \<longrightarrow> blocks q2 v = blocks q v" "x_tailIndex p2 = x_tailIndex p"
          using al(2) okay re(7) unfolding x_allocated_def gk by (elim impE exE conjE) simp_all
        let ?rs = "rs1 @ news" and ?t1 = "h1 + length xs"
        have kne: "?k \<noteq> 0" using True by simp
        obtain q3 p3 where pb: "x_publish_blocks first2 q2 p2 = Some (q3, p3)" "x_state q3 p3 F1 h1 ?rs 0 xs 0" "x_exposed p3"
          "x_tailIndex p3 = x_tailIndex p2" "\<forall>v. v \<notin> set ?rs \<longrightarrow> blocks q3 v = blocks q2 v" "\<forall>U. pool_ok q2 U \<longrightarrow> pool_ok q3 U"
          using x_publish_correct [OF w(1) kne] by blast
        have r2: "?k \<le> length ?rs" "length ?rs - ?k = (?t1 + 31) div 32" "first2 = Some (?rs ! ((?t1 + 31) div 32))"
          "(?t1 + 31) div 32 \<noteq> 0 \<longrightarrow> x_tailBlock p = Some (?rs ! ((?t1 + 31) div 32 - 1))"
          using x_reservedD [OF w(1) kne] by blast+
        have tt: "?t mod 32 = ?t1 mod 32" using x_tail_slot [OF st] x_tail_slot [OF pb(2)] pb(4) w(5) by simp
        have lN: "(?t1 + length ys + 31) div 32 = length ?rs"
          by (rule difference_unique [OF blocks_needed [OF tt, of "length ys", folded l] _ r2(2,1)]) (simp add: div_le_mono)
        have sb: "x_tailBlock p = Some (?rs ! (?t1 div 32))" if "?t1 mod 32 \<noteq> 0" using r2(2,4) that add_31_div [of ?t1] by simp
        have fi: "first2 = Some (?rs ! (?t1 div 32))" if "?t1 mod 32 = 0" using r2(2,3) that add_31_div [of ?t1] by simp
        obtain q' p' where f: "x_fill_allocation (x_tailIndex p3) (x_tailBlock p) first2 ys q3 p3 = Some (True, q', p')" "x_rep q' p' F1 h1 ?rs (xs @ ys) 0"
          "\<forall>v. v \<notin> set ?rs \<longrightarrow> blocks q' v = blocks q3 v" "\<forall>V. pool_ok q3 V \<longrightarrow> pool_ok q' V"
          using x_fill_allocation_correct [OF pb(2,3) ne y63 lN sb fi] by blast
        have "explicit_enqueue_bulk ms ca im bm ys (q, p) = Some (True, q', p')"
          using okay f(1) pb(1,4) w(5) unfolding eq by simp
        moreover have "x_enqueued q rs xs U ys 0 (True, q', p')"
        proof (rule x_enqueuedI [where F = F1 and h = h1 and rs' = ?rs])
          have "U \<union> set ?rs = U \<union> set news" using re(4) ok(2) by auto
          then show "pool_ok q' (U \<union> set ?rs)" using w(2) pb(6) f(4) by simp
          show "set ?rs \<inter> U = set rs" using re(4) ok(2) w(3) by auto
          show "blocks q' v = blocks q v" if "v \<in> U" "v \<notin> set rs" for v
          proof -
            have "v \<notin> set ?rs" using that re(4) w(3) by auto
            then show ?thesis using f(3) pb(5) w(4) that re(4) by simp
          qed
          have "length rs1 - g1 = (?t1 + 31) div 32" using re(2) by (simp add: x_reserved_def)
          then have "(?t1 + 31) div 32 \<le> length rs" using re(5) by simp
          then show "length ?rs \<le> length rs + (length ys + 31) div 32" by (rule difference_bound [OF r2(2) _ kn])
        qed (use f(2) re(4) in auto)
        ultimately show ?thesis by auto
      qed
    qed
  qed
qed

end
