(* ===== verification/Producer_Contract.thy ===== *)
theory Producer_Contract
  imports Explicit_Bulk Explicit_Enqueue_Bulk
begin

text \<open>
  What a producer of \<open>concurrentqueue.h\<close> promises, whether it belongs to a token or to a thread: the
  calls refine those of a list. The locale \<open>fifo_producer\<close> states the promise for one call, its lemmas
  give it for runs, and both kinds of producer interpret it.
\<close>

section \<open>Calls\<close>

text \<open>A \<open>Put\<close> has the limit \<open>MAX_SUBQUEUE_SIZE\<close>, whether it may allocate, and whether there is memory
  for an index and for a block; a bulk call asks for memory more than once.\<close>

datatype 'a pcall =
    Put u64 bool bool bool 'a
  | Put_bulk u64 bool "nat \<Rightarrow> bool" "nat \<Rightarrow> bool" "'a list"
  | Take
  | Take_bulk u64

fun put_of :: "'a pcall \<Rightarrow> 'a list" where
  "put_of (Put ms ca im bm x) = [x]"
| "put_of (Put_bulk ms ca im bm xs) = xs"
| "put_of Take = []"
| "put_of (Take_bulk m) = []"

fun take_of :: "'a pcall \<Rightarrow> nat" where
  "take_of Take = 1"
| "take_of (Take_bulk m) = unat m"
| "take_of c = 0"

text \<open>There is no limit and memory is available.\<close>

fun in_memory :: "'a pcall \<Rightarrow> bool" where
  "in_memory (Put ms ca im bm x) \<longleftrightarrow> ms = - 1 \<and> ca \<and> im \<and> bm"
| "in_memory (Put_bulk ms ca im bm xs) \<longleftrightarrow> ms = - 1 \<and> ca \<and> (\<forall>i. im i \<and> bm i)"
| "in_memory c \<longleftrightarrow> True"

fun is_bulk_put :: "'a pcall \<Rightarrow> bool" where
  "is_bulk_put (Put_bulk ms ca im bm xs) \<longleftrightarrow> True"
| "is_bulk_put c \<longleftrightarrow> False"

text \<open>The calls on a list. The \<open>bool\<close>s say which calls were accepted.\<close>

fun list_run :: "'a pcall list \<Rightarrow> bool list \<Rightarrow> 'a list \<Rightarrow> 'a list \<times> 'a list" where
  "list_run (c # cs) (b # bs) xs =
     (let (ys, zs) = list_run cs bs (drop (take_of c) xs @ (if b then put_of c else [])) in (take (take_of c) xs @ ys, zs))"
| "list_run cs bs xs = ([], xs)"

fun accepted_of :: "'a pcall list \<Rightarrow> bool list \<Rightarrow> 'a list" where
  "accepted_of (c # cs) (b # bs) = (if b then put_of c else []) @ accepted_of cs bs"
| "accepted_of cs bs = []"

definition put_count :: "'a pcall list \<Rightarrow> nat" where
  "put_count cs = (\<Sum>c \<leftarrow> cs. length (put_of c))"

text \<open>Elements come out in the order in which they were accepted.\<close>

lemma list_run_fifo: "list_run cs bs xs = (got, rest) \<Longrightarrow> xs @ accepted_of cs bs = got @ rest"
proof (induction cs bs xs arbitrary: got rest rule: list_run.induct)
  case (1 c cs b bs xs)
  obtain ys where ys: "list_run cs bs (drop (take_of c) xs @ (if b then put_of c else [])) = (ys, rest)" "got = take (take_of c) xs @ ys"
    using "1.prems" by (auto simp: Let_def split: prod.splits)
  have "xs @ accepted_of (c # cs) (b # bs) = take (take_of c) xs @ (drop (take_of c) xs @ (if b then put_of c else [])) @ accepted_of cs bs"
    by (simp del: append_assoc add: append_assoc [symmetric])
  also have "\<dots> = got @ rest" using "1.IH" [OF ys(1)] unfolding ys(2) by (simp only: append_assoc)
  finally show ?case .
qed simp_all

text \<open>A run of a producer: which calls were accepted, and what was delivered.\<close>

fun producer_run :: "('a pcall \<Rightarrow> 's \<Rightarrow> (bool \<times> 'a list \<times> 's) option) \<Rightarrow> 'a pcall list \<Rightarrow> 's \<Rightarrow> (bool list \<times> 'a list \<times> 's) option" where
  "producer_run call [] s = Some ([], [], s)"
| "producer_run call (c # cs) s =
     (case call c s of
        None \<Rightarrow> None
      | Some (b, got, s) \<Rightarrow> map_option (\<lambda>(bs, got', s). (b # bs, got @ got', s)) (producer_run call cs s))"

section \<open>The contract\<close>

text \<open>\<open>rep s xs n\<close>: the state holds the list \<open>xs\<close> after at most \<open>n\<close> elements were put. \<open>keeps c b\<close>: the
  call \<open>c\<close> keeps this promise when it returns \<open>b\<close>; an accepted call always does.\<close>

locale fifo_producer =
  fixes call :: "'a pcall \<Rightarrow> 's \<Rightarrow> (bool \<times> 'a list \<times> 's) option"
    and rep :: "'s \<Rightarrow> 'a list \<Rightarrow> nat \<Rightarrow> bool"
    and keeps :: "'a pcall \<Rightarrow> bool \<Rightarrow> bool"
  assumes call_list: "rep s xs n \<Longrightarrow> n + length (put_of c) < 2 ^ 58 \<Longrightarrow>
    \<exists>b s'. call c s = Some (b, take (take_of c) xs, s') \<and>
      (keeps c b \<longrightarrow> rep s' (drop (take_of c) xs @ (if b then put_of c else [])) (n + length (put_of c))) \<and> (in_memory c \<longrightarrow> b)"
    and keeps_accepted: "keeps c True"
begin

text \<open>Up to the first refused call that does not keep the promise, if there is one, a run is a run of
  the list.\<close>

lemma run_until:
  "rep s xs n \<Longrightarrow> n + put_count cs < 2 ^ 58 \<Longrightarrow>
   \<exists>k bs got s' rest. k \<le> length cs \<and> producer_run call (take k cs) s = Some (bs, got, s') \<and> length bs = k \<and>
     list_run (take k cs) bs xs = (got, rest) \<and> rep s' rest (n + put_count (take k cs)) \<and> (\<forall>i < k. in_memory (cs ! i) \<longrightarrow> bs ! i) \<and>
     (k < length cs \<longrightarrow> \<not> keeps (cs ! k) False \<and> \<not> in_memory (cs ! k) \<and>
       (\<exists>s''. call (cs ! k) s' = Some (False, take (take_of (cs ! k)) rest, s'')))"
proof (induction cs arbitrary: s xs n)
  case Nil
  then show ?case by (simp add: put_count_def)
next
  case (Cons c cs)
  have "n + length (put_of c) < 2 ^ 58" using Cons.prems(2) by (simp add: put_count_def)
  then obtain b s1 where s1: "call c s = Some (b, take (take_of c) xs, s1)"
    "keeps c b \<longrightarrow> rep s1 (drop (take_of c) xs @ (if b then put_of c else [])) (n + length (put_of c))" "in_memory c \<longrightarrow> b"
    using call_list [OF Cons.prems(1), of c] by auto
  show ?case
  proof (cases "keeps c b")
    case True
    have "n + length (put_of c) + put_count cs < 2 ^ 58" using Cons.prems(2) by (simp add: put_count_def)
    from Cons.IH [OF s1(2) [rule_format, OF True] this] obtain k bs got s' rest where
      s': "k \<le> length cs" "producer_run call (take k cs) s1 = Some (bs, got, s')" "length bs = k"
        "list_run (take k cs) bs (drop (take_of c) xs @ (if b then put_of c else [])) = (got, rest)"
        "rep s' rest (n + length (put_of c) + put_count (take k cs))" "\<forall>i < k. in_memory (cs ! i) \<longrightarrow> bs ! i"
        "k < length cs \<longrightarrow> \<not> keeps (cs ! k) False \<and> \<not> in_memory (cs ! k) \<and>
          (\<exists>s''. call (cs ! k) s' = Some (False, take (take_of (cs ! k)) rest, s''))"
      by (elim exE conjE) (rule that)
    have "\<forall>i < Suc k. in_memory ((c # cs) ! i) \<longrightarrow> (b # bs) ! i" using s1(3) s'(6) by (simp add: nth_Cons split: nat.split)
    then show ?thesis
      using s1(1) s' by - (rule exI [of _ "Suc k"], rule exI [of _ "b # bs"], rule exI [of _ "take (take_of c) xs @ got"],
        rule exI [of _ s'], rule exI [of _ rest], simp add: put_count_def add.assoc)
  next
    case False
    then have "\<not> b" using keeps_accepted by metis
    then show ?thesis
      using False s1 Cons.prems(1) by (intro exI [of _ "0::nat"] exI [of _ "[]"] exI [of _ s] exI [of _ xs]) (simp add: put_count_def)
  qed
qed

text \<open>With memory all calls are accepted, and what they deliver is determined.\<close>

lemma run_in_memory:
  assumes "rep s xs n" "list_all in_memory cs" "n + put_count cs < 2 ^ 58"
  shows "\<exists>s'. producer_run call cs s = Some (replicate (length cs) True, fst (list_run cs (replicate (length cs) True) xs), s')"
proof -
  obtain k bs got s' rest where r: "k \<le> length cs" "producer_run call (take k cs) s = Some (bs, got, s')" "length bs = k"
    "list_run (take k cs) bs xs = (got, rest)" "\<forall>i < k. in_memory (cs ! i) \<longrightarrow> bs ! i" "k < length cs \<longrightarrow> \<not> in_memory (cs ! k)"
    using run_until [OF assms(1,3)] by (elim exE conjE) (rule that, assumption+, blast)
  have k: "k = length cs" using r(1,6) assms(2) by (auto simp: list_all_length)
  then have "bs = replicate (length cs) True" using r(3,5) assms(2) by (intro nth_equalityI) (simp_all add: list_all_length)
  then show ?thesis using r(2,4) k by simp
qed

end

section \<open>The producer of a token\<close>

text \<open>A bulk call that is refused after it took blocks does not keep the promise: the blocks stay in the
  ring, but the index no longer counts them.\<close>

definition took_one :: "('a option \<times> 's) option \<Rightarrow> (bool \<times> 'a list \<times> 's) option" where
  "took_one = map_option (\<lambda>(x, s). (True, (case x of None \<Rightarrow> [] | Some x \<Rightarrow> [x]), s))"

fun explicit_call :: "'a pcall \<Rightarrow> 'a pool \<times> explicit_producer \<Rightarrow> (bool \<times> 'a list \<times> 'a pool \<times> explicit_producer) option" where
  "explicit_call (Put ms ca im bm x) s = map_option (\<lambda>(b, s). (b, [], s)) (explicit_enqueue ms ca im bm x s)"
| "explicit_call (Put_bulk ms ca im bm xs) s = map_option (\<lambda>(b, s). (b, [], s)) (explicit_enqueue_bulk ms ca im bm xs s)"
| "explicit_call Take s = took_one (explicit_dequeue s)"
| "explicit_call (Take_bulk m) s = map_option (\<lambda>(xs, s). (True, xs, s)) (explicit_dequeue_bulk m s)"

definition explicit_keeps :: "'a pcall \<Rightarrow> bool \<Rightarrow> bool" where
  "explicit_keeps c b \<longleftrightarrow> (is_bulk_put c \<longrightarrow> b)"

text \<open>The blocks \<open>U\<close> belong to others and stay as they are in \<open>q0\<close>.\<close>

definition explicit_holds :: "'a pool \<Rightarrow> nat set \<Rightarrow> 'a pool \<times> explicit_producer \<Rightarrow> 'a list \<Rightarrow> nat \<Rightarrow> bool" where
  "explicit_holds q0 U s xs n \<longleftrightarrow> (\<exists>F h rs. x_rep (fst s) (snd s) F h rs xs 0 \<and> pool_ok (fst s) (U \<union> set rs) \<and> set rs \<inter> U = {} \<and>
     length rs \<le> n \<and> (\<forall>v \<in> U. blocks (fst s) v = blocks q0 v))"

lemma explicit_holds_enqueued:
  assumes e: "x_enqueued q rs xs (U \<union> set rs) ys 0 (b, q', p')" and h: "set rs \<inter> U = {}" "length rs \<le> n" "\<forall>v \<in> U. blocks q v = blocks q0 v"
  shows "explicit_holds q0 U (q', p') (if b then xs @ ys else xs) (n + length ys)"
proof -
  obtain F h rs' where r: "x_rep q' p' F h rs' (if b then xs @ ys else xs) 0" "pool_ok q' (U \<union> set rs \<union> set rs')" "set rs \<subseteq> set rs'"
    "set rs' \<inter> (U \<union> set rs) = set rs" "\<forall>v \<in> U \<union> set rs. v \<notin> set rs \<longrightarrow> blocks q' v = blocks q v"
    "length rs' \<le> length rs + (length ys + 31) div 32" using e by (auto simp: x_enqueued_def)
  have "U \<union> set rs' = U \<union> set rs \<union> set rs'" using r(3) by auto
  then have "pool_ok q' (U \<union> set rs')" using r(2) by (simp only:)
  moreover have "set rs' \<inter> U = {}" using r(4) h(1) by auto
  moreover have "length rs' \<le> n + length ys" using r(6) h(2) by linarith
  moreover have "blocks q' v = blocks q0 v" if "v \<in> U" for v
  proof -
    have "v \<notin> set rs" using that h(1) by auto
    then show ?thesis using r(5) h(3) that by simp
  qed
  ultimately show ?thesis using r(1) unfolding explicit_holds_def fst_conv snd_conv by (intro exI conjI ballI) assumption+
qed

lemma explicit_holds_dequeued:
  assumes r: "x_rep q' p' F h rs xs 0" "\<forall>v. v \<notin> set rs \<longrightarrow> blocks q' v = blocks q v" "\<forall>U. set rs \<subseteq> U \<longrightarrow> pool_ok q U \<longrightarrow> pool_ok q' U"
    and h: "pool_ok q (U \<union> set rs)" "set rs \<inter> U = {}" "length rs \<le> n" "\<forall>v \<in> U. blocks q v = blocks q0 v"
  shows "explicit_holds q0 U (q', p') xs n"
proof -
  have "pool_ok q' (U \<union> set rs)" using r(3) h(1) by simp
  moreover have "blocks q' v = blocks q0 v" if "v \<in> U" for v
  proof -
    have "v \<notin> set rs" using that h(2) by auto
    then show ?thesis using r(2) h(4) that by simp
  qed
  ultimately show ?thesis using r(1) h(2,3) unfolding explicit_holds_def fst_conv snd_conv by (intro exI conjI ballI) assumption+
qed

lemma explicit_call_list:
  assumes s: "explicit_holds q0 U s xs n" and n: "n + length (put_of c) < 2 ^ 58"
  shows "\<exists>b s'. explicit_call c s = Some (b, take (take_of c) xs, s') \<and>
    (explicit_keeps c b \<longrightarrow> explicit_holds q0 U s' (drop (take_of c) xs @ (if b then put_of c else [])) (n + length (put_of c))) \<and>
    (in_memory c \<longrightarrow> b)"
proof -
  obtain q p F h rs where qp: "s = (q, p)" and r: "x_rep q p F h rs xs 0"
    and h: "pool_ok q (U \<union> set rs)" "set rs \<inter> U = {}" "length rs \<le> n" "\<forall>v \<in> U. blocks q v = blocks q0 v"
    using s by (cases s) (auto simp: explicit_holds_def)
  have sub: "set rs \<subseteq> U \<union> set rs" by simp
  show ?thesis
  proof (cases c)
    case (Put ms ca im bm x)
    then have "Suc (length rs) < 2 ^ 58" using n h(3) by simp
    from explicit_enqueue_correct [OF r _ h(1) sub this, of ms ca im bm x] obtain b q' p' where
      e: "explicit_enqueue ms ca im bm x (q, p) = Some (b, q', p')" "x_enqueued q rs xs (U \<union> set rs) [x] 0 (b, q', p')"
        "ms = - 1 \<and> ca \<and> im \<and> bm \<longrightarrow> b" by auto
    show ?thesis using e(1,3) explicit_holds_enqueued [OF e(2) h(2-4)] unfolding Put qp by (cases b; intro exI [of _ b] exI [of _ "(q', p')"]) simp_all
  next
    case (Put_bulk ms ca im bm ys)
    then have "length rs + (length ys + 31) div 32 < 2 ^ 58" using n h(3) by simp
    from explicit_enqueue_bulk_correct [OF r h(1) sub this, of ms ca im bm] obtain b q' p' where
      e: "explicit_enqueue_bulk ms ca im bm ys (q, p) = Some (b, q', p')" "b \<longrightarrow> x_enqueued q rs xs (U \<union> set rs) ys 0 (b, q', p')"
        "ms = - 1 \<and> ca \<and> (\<forall>i. im i \<and> bm i) \<longrightarrow> b" by (elim exE conjE) (rule that)
    show ?thesis
    proof (cases b)
      case True
      show ?thesis using e(1) True explicit_holds_enqueued [OF e(2) [rule_format, OF True] h(2-4)] unfolding Put_bulk qp
        by (intro exI [of _ True] exI [of _ "(q', p')"]) simp
    next
      case False
      then show ?thesis using e(1,3) unfolding Put_bulk qp
        by (intro exI [of _ False] exI [of _ "(q', p')"]) (simp add: explicit_keeps_def)
    qed
  next
    case Take
    show ?thesis
    proof (cases xs)
      case Nil
      then show ?thesis using explicit_dequeue_correct [OF r] s by (intro exI [of _ True]) (simp add: Take qp took_one_def)
    next
      case (Cons x ys)
      obtain q' p' where e: "explicit_dequeue (q, p) = Some (Some x, q', p')" "x_rep q' p' F (h + 1) rs ys 0"
        "\<forall>v. v \<notin> set rs \<longrightarrow> blocks q' v = blocks q v" "\<forall>U. set rs \<subseteq> U \<longrightarrow> pool_ok q U \<longrightarrow> pool_ok q' U"
        using explicit_dequeue_correct [OF r] unfolding Cons list.case by (elim exE conjE) (rule that)
      show ?thesis using e(1) explicit_holds_dequeued [OF e(2-4) h] by (intro exI [of _ True]) (simp add: Take qp took_one_def Cons)
    qed
  next
    case (Take_bulk m)
    obtain q' p' h' where e: "explicit_dequeue_bulk m (q, p) = Some (take (unat m) xs, q', p')" "x_rep q' p' F h' rs (drop (unat m) xs) 0"
      "\<forall>v. v \<notin> set rs \<longrightarrow> blocks q' v = blocks q v" "\<forall>U. set rs \<subseteq> U \<longrightarrow> pool_ok q U \<longrightarrow> pool_ok q' U"
      using explicit_dequeue_bulk_correct [OF r, of m] by (elim exE conjE) (rule that)
    show ?thesis using e(1) explicit_holds_dequeued [OF e(2-4) h] by (intro exI [of _ True]) (simp add: Take_bulk qp)
  qed
qed

interpretation xp: fifo_producer explicit_call "explicit_holds q0 U" explicit_keeps for q0 U
  by unfold_locales (erule explicit_call_list, assumption, simp add: explicit_keeps_def)

lemma make_explicit_holds:
  assumes "pool_ok q U" "unat (pool_size q) \<le> 2 ^ 58"
  shows "\<exists>p. make_explicit mem q = Some p \<and> explicit_holds q U (q, p) [] 0"
  using make_explicit_rep [OF assms(2), of mem] assms(1) unfolding explicit_holds_def by fastforce

lemma explicit_holds_size: "explicit_holds q0 U (q, p) xs n \<Longrightarrow> unat (explicit_size_approx p) = length xs"
  using explicit_size_correct by (auto simp: explicit_holds_def)

section \<open>The producer of a thread\<close>

fun implicit_call :: "nat option \<Rightarrow> 'a pcall \<Rightarrow> 'a pool \<times> producer \<Rightarrow> (bool \<times> 'a list \<times> 'a pool \<times> producer) option" where
  "implicit_call stale (Put ms ca im bm x) s = map_option (\<lambda>(b, s). (b, [], s)) (producer_enqueue ms ca im bm stale x s)"
| "implicit_call stale (Put_bulk ms ca im bm xs) s =
     map_option (\<lambda>(b, s). (b, [], s)) (producer_enqueue_bulk ms ca im bm stale xs s)"
| "implicit_call stale Take s = took_one (producer_dequeue s)"
| "implicit_call stale (Take_bulk m) s = map_option (\<lambda>(xs, s). (True, xs, s)) (producer_dequeue_bulk m s)"

text \<open>A block that is empty is given back.\<close>

definition implicit_holds :: "'a pool \<Rightarrow> nat set \<Rightarrow> 'a pool \<times> producer \<Rightarrow> 'a list \<Rightarrow> nat \<Rightarrow> bool" where
  "implicit_holds q0 U s xs n \<longleftrightarrow> (\<exists>rs. rep (fst s) (snd s) rs xs \<and> pool_ok (fst s) (U \<union> set rs) \<and> set rs \<inter> U = {} \<and>
     length xs \<le> n \<and> (\<forall>v \<in> U. blocks (fst s) v = blocks q0 v))"

lemma implicit_holdsI:
  assumes "rep q' p' rs' xs" "pool_ok q' (U \<union> set rs')" "set rs' \<inter> U = {}" "length xs \<le> n"
    and h: "set rs \<inter> U = {}" "\<forall>v \<in> U. blocks q v = blocks q0 v" and b: "\<forall>u \<in> (U \<union> set rs) - set rs. blocks q' u = blocks q u"
  shows "implicit_holds q0 U (q', p') xs n"
proof -
  have "blocks q' v = blocks q0 v" if "v \<in> U" for v
  proof -
    have "v \<notin> set rs" using that h(1) by auto
    then show ?thesis using b h(2) that by simp
  qed
  then show ?thesis using assms(1-4) unfolding implicit_holds_def fst_conv snd_conv by (intro exI conjI ballI) assumption+
qed

lemma implicit_holds_enqueued:
  assumes e: "enqueued_bulk q rs xs (U \<union> set rs) ys (b, q', p')"
    and h: "set rs \<inter> U = {}" "length xs \<le> n" "\<forall>v \<in> U. blocks q v = blocks q0 v"
  shows "implicit_holds q0 U (q', p') (if b then xs @ ys else xs) (n + length ys)"
proof -
  obtain rs' where r: "rep q' p' rs' (if b then xs @ ys else xs)" "pool_ok q' (U \<union> set rs \<union> set rs')" "set rs \<subseteq> set rs'"
    "set rs' \<inter> (U \<union> set rs) = set rs" "\<forall>u \<in> (U \<union> set rs) - set rs. blocks q' u = blocks q u"
    using e by (auto simp: enqueued_bulk_def)
  have "U \<union> set rs' = U \<union> set rs \<union> set rs'" using r(3) by auto
  then have "pool_ok q' (U \<union> set rs')" using r(2) by (simp only:)
  moreover have "set rs' \<inter> U = {}" using r(4) h(1) by auto
  moreover have "length (if b then xs @ ys else xs) \<le> n + length ys" using h(2) by simp
  ultimately show ?thesis using implicit_holdsI [OF r(1) _ _ _ h(1,3) r(5)] by simp
qed

lemma implicit_holds_dequeued:
  assumes e: "dequeued q rs xs (U \<union> set rs) (q', p')" and h: "set rs \<inter> U = {}" "length xs \<le> n" "\<forall>v \<in> U. blocks q v = blocks q0 v"
  shows "implicit_holds q0 U (q', p') xs n"
proof -
  obtain rs' where r: "rep q' p' rs' xs" "set rs' \<subseteq> set rs" "pool_ok q' (U \<union> set rs - (set rs - set rs'))"
    "\<forall>u \<in> (U \<union> set rs) - set rs. blocks q' u = blocks q u" using e by (auto simp: dequeued_def)
  have "U \<union> set rs - (set rs - set rs') = U \<union> set rs'" using r(2) h(1) by auto
  then have "pool_ok q' (U \<union> set rs')" using r(3) by (simp only:)
  moreover have "set rs' \<inter> U = {}" using r(2) h(1) by auto
  ultimately show ?thesis using implicit_holdsI [OF r(1) _ _ h(2) h(1,3) r(4)] by simp
qed

lemma enqueued_is_bulk: "enqueued q rs xs U x r = enqueued_bulk q rs xs U [x] r"
  by (simp add: enqueued_def enqueued_bulk_def)

lemma implicit_call_list:
  assumes s: "implicit_holds q0 U s xs n" and n: "n + length (put_of c) < 2 ^ 58"
  shows "\<exists>b s'. implicit_call stale c s = Some (b, take (take_of c) xs, s') \<and>
    implicit_holds q0 U s' (drop (take_of c) xs @ (if b then put_of c else [])) (n + length (put_of c)) \<and> (in_memory c \<longrightarrow> b)"
proof -
  obtain q p rs where qp: "s = (q, p)" and r: "rep q p rs xs" and pk: "pool_ok q (U \<union> set rs)"
    and h: "set rs \<inter> U = {}" "length xs \<le> n" "\<forall>v \<in> U. blocks q v = blocks q0 v"
    using s by (cases s) (auto simp: implicit_holds_def)
  have sub: "set rs \<subseteq> U \<union> set rs" by simp
  show ?thesis
  proof (cases c)
    case (Put ms ca im bm x)
    then have l: "length xs + 32 < 2 ^ 63" using n h(2) by simp
    from producer_enqueue_correct [OF r pk sub, of ms ca im bm stale x] l obtain b q' p' where
      e: "producer_enqueue ms ca im bm stale x (q, p) = Some (b, q', p')" "enqueued_bulk q rs xs (U \<union> set rs) [x] (b, q', p')"
        "ms = - 1 \<and> ca \<and> im \<and> bm \<longrightarrow> b" by (auto simp: enqueued_is_bulk)
    show ?thesis using e(1,3) implicit_holds_enqueued [OF e(2) h] unfolding Put qp by (cases b; intro exI [of _ b] exI [of _ "(q', p')"]) simp_all
  next
    case (Put_bulk ms ca im bm ys)
    then have l: "length ys < 2 ^ 63" "length xs + length ys + 32 < 2 ^ 63" using n h(2) by simp_all
    from producer_enqueue_bulk_correct [OF r pk sub l(1), of ms ca im bm stale] l(2) obtain b q' p' where
      e: "producer_enqueue_bulk ms ca im bm stale ys (q, p) = Some (b, q', p')" "enqueued_bulk q rs xs (U \<union> set rs) ys (b, q', p')"
        "ms = - 1 \<and> ca \<and> (\<forall>i. im i \<and> bm i) \<longrightarrow> b" by auto
    show ?thesis using e(1,3) implicit_holds_enqueued [OF e(2) h] unfolding Put_bulk qp by (cases b; intro exI [of _ b] exI [of _ "(q', p')"]) simp_all
  next
    case Take
    show ?thesis
    proof (cases xs)
      case Nil
      then show ?thesis using producer_dequeue_correct [OF r pk sub] s by (intro exI [of _ True]) (simp add: Take qp took_one_def)
    next
      case (Cons x ys)
      obtain q' p' where e: "producer_dequeue (q, p) = Some (Some x, q', p')" "dequeued q rs ys (U \<union> set rs) (q', p')"
        using producer_dequeue_correct [OF r pk sub] unfolding Cons list.case by (elim exE conjE) (rule that)
      have "length ys \<le> n" using h(2) Cons by simp
      from implicit_holds_dequeued [OF e(2) h(1) this h(3)] show ?thesis using e(1) by (intro exI [of _ True]) (simp add: Take qp took_one_def Cons)
    qed
  next
    case (Take_bulk m)
    obtain q' p' where e: "producer_dequeue_bulk m (q, p) = Some (take (unat m) xs, q', p')" "dequeued q rs (drop (unat m) xs) (U \<union> set rs) (q', p')"
      using producer_dequeue_bulk_correct [OF r pk sub, of m] by auto
    have "length (drop (unat m) xs) \<le> n" using h(2) by simp
    from implicit_holds_dequeued [OF e(2) h(1) this h(3)] show ?thesis using e(1) by (intro exI [of _ True]) (simp add: Take_bulk qp)
  qed
qed

interpretation ip: fifo_producer "implicit_call stale" "implicit_holds q0 U" "\<lambda>c b. True" for stale q0 U
  by unfold_locales (use implicit_call_list in blast)+

lemma make_producer_holds: "pool_ok q U \<Longrightarrow> implicit_holds q U (q, make_producer True stale) [] 0"
  using make_producer_rep [of q stale] by (auto simp: implicit_holds_def)

end
