(* ===== verification/Explicit_Destruction.thy ===== *)
theory Explicit_Destruction
  imports Producer_Contract
begin

text \<open>
  The destructor of a token's producer destroys the elements that are left, in order, and every block
  of its ring is destroyed or, if it belongs to the queue's array, put on the free list.
\<close>

section \<open>The block that is partly dequeued\<close>

lemma circular_both:
  assumes "a < 2 ^ 63" "b < 2 ^ 63"
  shows "circular_less_than (F + of_nat a) (F + of_nat b) \<longleftrightarrow> a < b"
proof (cases "a < b")
  case True
  have "F + of_nat b = F + of_nat a + of_nat (b - a)" using True by (simp add: of_nat_diff)
  then show ?thesis using True assms(2) circular_less_than_iff [of "b - a" "F + of_nat a"] by simp
next
  case False
  have "F + of_nat a = F + of_nat b + of_nat (a - b)" using False by (simp add: of_nat_diff)
  then show ?thesis using False assms(1) circular_not_less [of "a - b" "F + of_nat b"] by simp
qed

lemma x_find_half_at:
  assumes p: "x_positions c ix at F rs" and h: "h mod 32 \<noteq> 0" "h div 32 < length rs" "length rs < 2 ^ 58" and k: "k \<le> h div 32"
    and i: "unat i = (at + k) mod 2 ^ c"
  shows "x_find_half ix (2 ^ c - 1) (F + of_nat h) i = Some (Some (rs ! (h div 32)))"
  using k i
proof (induction "h div 32 - k" arbitrary: k i rule: less_induct)
  case less
  have kl: "k < length rs" using less.prems(1) h(2) by simp
  note b = x_positions_block [OF p kl less.prems(2)]
  have e: "xi_entries ix ! unat i = (F + 32 * of_nat k, Some (rs ! k))" using p kl less.prems(2) by (simp add: x_positions_def)
  have hb: "h < 2 ^ 63"
  proof -
    have "h div 32 < 2 ^ 58" using h(2,3) by simp
    then show ?thesis by (simp add: div_less_iff_less_mult)
  qed
  have kb: "32 * k + 32 < 2 ^ 63" using kl h(3) by simp
  have bases: "F + 32 * of_nat k + BLOCK_SIZE = F + of_nat (32 * k + 32)" "F + 32 * of_nat k = F + of_nat (32 * k)" by (simp_all add: BLOCK_SIZE_def)
  have before: "circular_less_than (F + 32 * of_nat k + BLOCK_SIZE) (F + of_nat h) \<longleftrightarrow> 32 * k + 32 < h"
    unfolding bases(1) by (rule circular_both [OF kb hb])
  have at: "circular_less_than (F + 32 * of_nat k) (F + of_nat h) \<longleftrightarrow> 32 * k < h"
    unfolding bases(2) using kb hb by (intro circular_both) simp_all
  show ?case
  proof (cases "k = h div 32")
    case True
    have "32 * k < h" "\<not> 32 * k + 32 < h" using h(1) mult_div_mod_eq [of 32 h] mod_less_divisor [of 32 h] unfolding True by linarith+
    then have "circular_less_than (F + 32 * of_nat k) (F + of_nat h)" "\<not> circular_less_than (F + 32 * of_nat k + BLOCK_SIZE) (F + of_nat h)"
      using at before unfolding True by blast+
    then show ?thesis using b(1) by (subst x_find_half.simps) (simp add: e flip: True)
  next
    case False
    then have lt: "Suc k \<le> h div 32" using less.prems(1) by simp
    then have "32 * Suc k \<le> h" by (simp add: less_eq_div_iff_mult_less_eq mult.commute)
    moreover have "h \<noteq> 32 * Suc k" using h(1) by auto
    ultimately have "32 * k + 32 < h" by simp
    moreover have "x_find_half ix (2 ^ c - 1) (F + of_nat h) ((i + 1) AND (2 ^ c - 1)) = Some (Some (rs ! (h div 32)))"
      using less.hyps [of "Suc k"] lt x_positions_next [OF p less.prems(2)] p by (simp add: x_positions_def)
    ultimately show ?thesis using b(1) by (subst x_find_half.simps) (simp add: e before)
  qed
qed

section \<open>The elements\<close>

definition same_shape :: "'a pool \<Rightarrow> 'a pool \<Rightarrow> bool" where
  "same_shape q' q \<longleftrightarrow> (\<forall>v. blk_next (blocks q' v) = blk_next (blocks q v) \<and> emptyFlags (blocks q' v) = emptyFlags (blocks q v) \<and>
     dynamicallyAllocated (blocks q' v) = dynamicallyAllocated (blocks q v) \<and> length (elements (blocks q' v)) = length (elements (blocks q v))) \<and>
     free_list q' = free_list q \<and> next_block q' = next_block q \<and> pool_size q' = pool_size q \<and> pool_index q' = pool_index q"

lemma same_shape_put: "same_shape (put_element r i x q) q"
  by (simp add: same_shape_def put_element_blocks(2)) (simp add: put_element_def)

lemma same_shape_trans: "same_shape q2 q1 \<Longrightarrow> same_shape q1 q \<Longrightarrow> same_shape q2 q"
  by (simp add: same_shape_def)

lemma x_destroy_slots_run:
  assumes "\<forall>m < length ys. elements (blocks q r) ! (i + m) = Some (ys ! m)" "i + length ys \<le> 32" "length (elements (blocks q r)) = 32"
  shows "\<exists>q'. x_destroy_slots r i (length ys) q = Some (ys, q') \<and> same_shape q' q \<and> (\<forall>v. v \<noteq> r \<longrightarrow> blocks q' v = blocks q v)"
  using assms
proof (induction ys arbitrary: i q)
  case Nil
  then show ?case by (simp add: same_shape_def)
next
  case (Cons y ys)
  let ?q = "put_element r (of_nat i) None q"
  have s: "slot (of_nat i :: u64) = i" using Cons.prems(2) by (simp add: slot_mod unat_of_nat take_bit_nat_eq_self)
  have hd: "elements (blocks q r) ! i = Some y" using Cons.prems(1) by auto
  have "\<forall>m < length ys. elements (blocks ?q r) ! (i + 1 + m) = Some (ys ! m)"
    using Cons.prems(1) s by (auto simp: put_element_blocks dest: spec [of _ "Suc _"])
  moreover have "length (elements (blocks ?q r)) = 32" using Cons.prems(3) same_shape_put [of r "of_nat i" None q] by (simp add: same_shape_def)
  ultimately obtain q' where q': "x_destroy_slots r (i + 1) (length ys) ?q = Some (ys, q')" "same_shape q' ?q"
    "\<forall>v. v \<noteq> r \<longrightarrow> blocks q' v = blocks ?q v" using Cons.IH [of ?q "i + 1"] Cons.prems(2) by auto
  have "blocks q' v = blocks q v" if "v \<noteq> r" for v using q'(3) that by (simp add: put_element_blocks)
  then show ?case using q'(1,2) hd same_shape_trans [OF q'(2) same_shape_put] by simp
qed

text \<open>The elements of block \<open>k\<close>.\<close>

lemma block_segment:
  assumes m: "n = min 32 (h + length xs - 32 * k) - i" and k: "32 * k \<le> h + length xs" and i: "i = h - 32 * k" "i \<le> 32" and mm: "m < n"
  shows "32 * k - h + m < length xs" "(h + (32 * k - h + m)) div 32 = k" "(h + (32 * k - h + m)) mod 32 = i + m"
proof -
  have b: "i + m < 32" "i + m < h + length xs - 32 * k" using mm m by simp_all
  have e: "h + (32 * k - h + m) = 32 * k + (i + m)" using i by simp
  show "32 * k - h + m < length xs" using b(2) i(1) by linarith
  show "(h + (32 * k - h + m)) div 32 = k" "(h + (32 * k - h + m)) mod 32 = i + m" unfolding e using b(1) by simp_all
qed

lemma segment_length:
  assumes "\<not> a + 32 \<le> h"
  shows "min (n - (a - h)) (a + 32 - h - (a - h)) = min 32 (h + n - a) - (h - (a :: nat))"
proof (cases "a \<le> h")
  case True
  then obtain d where "h = a + d" by (auto simp: le_iff_add)
  then show ?thesis using assms by (auto simp: min_def)
next
  case False
  then obtain e where "a = h + e" by (metis le_iff_add nat_le_linear)
  then show ?thesis by simp
qed

text \<open>From block \<open>k\<close> on.\<close>

lemma x_destroy_ring_from:
  assumes "x_ring q rs 0 h" and x: "\<forall>j < length xs. k \<le> (h + j) div 32 \<longrightarrow> elements (blocks q (rs ! ((h + j) div 32))) ! ((h + j) mod 32) = Some (xs ! j)"
    and l: "length rs = (h + length xs + 31) div 32" and k: "k < length rs"
    and half: "half = (if h mod 32 = 0 then None else Some (rs ! (h div 32)))"
    and p: "slot (x_headIndex p) = h mod 32" "slot (x_tailIndex p) = (h + length xs) mod 32"
    and b: "blk_next (blocks q b) = Some (rs ! k)"
  shows "\<exists>q'. x_destroy_ring half (last rs) p b q = Some (drop (32 * k - h) xs, q') \<and> same_shape q' q \<and> (\<forall>v. v \<notin> set rs \<longrightarrow> blocks q' v = blocks q v)"
  using assms(1) x k b
proof (induction "length rs - k" arbitrary: k q b rule: less_induct)
  case less
  let ?r = "rs ! k" and ?T = "h + length xs"
  let ?lv = "if slot (x_tailIndex p) = 0 then 32 else slot (x_tailIndex p)"
  let ?i = "if Some ?r = half then slot (x_headIndex p) else 0"
  have di: "distinct rs" and kl: "k < length rs" and ne: "rs \<noteq> []" using less.prems by (auto simp: x_ring_def)
  have blk: "length (elements (blocks q ?r)) = 32" "emptyFlags (blocks q ?r) = flags_at k h"
    using x_ring_block [OF less.prems(1) kl] kl by simp_all
  have em: "all_empty (blocks q ?r) \<longleftrightarrow> 32 * (k + 1) \<le> h" by (rule all_empty_flags [OF blk(2)])
  have tail: "?r = last rs \<longleftrightarrow> Suc k = length rs" using di kl ne by (auto simp: last_conv_nth nth_eq_iff_index_eq)
  have Tb: "32 * length rs < ?T + 32" "?T \<le> 32 * length rs" using l mult_div_mod_eq [of 32 "?T + 31"] mod_less_divisor [of 32 "?T + 31"] by linarith+
  have fin: "?lv = ?T - 32 * k" if "Suc k = length rs"
  proof (cases "?T mod 32 = 0")
    case True
    then obtain m where m: "?T = 32 * m" using mult_div_mod_eq [of 32 ?T] by (metis add_0_right)
    then have "m = length rs" using Tb by linarith
    then have "?T = 32 * length rs" using m by simp
    then show ?thesis using True p(2) that by simp
  next
    case False
    have "?T div 32 = k" using Tb False that mult_div_mod_eq [of 32 ?T] mod_less_divisor [of 32 ?T] by linarith
    then show ?thesis using False p(2) minus_mult_div_eq_mod [of ?T 32] by (simp add: mult.commute)
  qed
  let ?n = "if ?r = last rs then ?lv - ?i else 32 - ?i"
  obtain q1 where q1: "(if all_empty (blocks q ?r) then Some ([], q) else x_destroy_slots ?r ?i ?n q) = Some (take (32 * k + 32 - h - (32 * k - h)) (drop (32 * k - h) xs), q1)"
    "same_shape q1 q" "\<forall>v. v \<noteq> ?r \<longrightarrow> blocks q1 v = blocks q v" "\<not> (\<not> all_empty (blocks q ?r) \<and> ?r = last rs \<and> ?lv < ?i)"
  proof (cases "32 * (k + 1) \<le> h")
    case True
    show ?thesis by (rule that [of q]) (use True em in \<open>simp_all add: same_shape_def\<close>)
  next
    case False
    have hk: "h div 32 \<le> k" using False by (simp add: div_less_iff_less_mult flip: less_Suc_eq_le)
    have i: "?i = h - 32 * k"
    proof (cases "h div 32 = k \<and> h mod 32 \<noteq> 0")
      case True
      then show ?thesis using p(1) half minus_mult_div_eq_mod [of h 32] by simp
    next
      case F: False
      have "h \<le> 32 * k"
      proof (cases "h div 32 = k")
        case True
        then show ?thesis using F mult_div_mod_eq [of 32 h] by simp
      next
        case F2: False
        then have "h div 32 < k" using hk by simp
        then show ?thesis by (simp add: div_less_iff_less_mult mult.commute)
      qed
      moreover have "Some ?r \<noteq> half"
      proof
        assume s: "Some ?r = half"
        then have "h mod 32 \<noteq> 0" "?r = rs ! (h div 32)" using half by (simp_all split: if_splits)
        moreover have "h div 32 < length rs" using hk kl by simp
        ultimately show False using F di kl by (simp add: nth_eq_iff_index_eq)
      qed
      ultimately show ?thesis by simp
    qed
    let ?ys = "take (32 * k + 32 - h - (32 * k - h)) (drop (32 * k - h) xs)"
    have i32: "h - 32 * k \<le> 32" using False by simp
    have kT: "32 * k \<le> ?T" using Tb(1) kl by linarith
    have n: "?n = min 32 (?T - 32 * k) - (h - 32 * k)"
    proof (cases "Suc k = length rs")
      case True
      then have "?T - 32 * k \<le> 32" using Tb(2) by simp
      then show ?thesis using True tail fin i by simp
    next
      case F: False
      then have "Suc (Suc k) \<le> length rs" using kl by simp
      then have "32 * k + 32 \<le> ?T" using Tb(1) by linarith
      then have "32 \<le> ?T - 32 * k" by simp
      then show ?thesis using F tail i by simp
    qed
    have nle: "?n \<le> 32 - (h - 32 * k)" unfolding n by (intro diff_le_mono) simp
    have lys: "length ?ys = ?n" unfolding n using False segment_length [of "32 * k" h "length xs"] by (simp only: length_take length_drop) simp
    have "\<forall>m < length ?ys. elements (blocks q ?r) ! (?i + m) = Some (?ys ! m)"
    proof (intro allI impI)
      fix m assume my: "m < length ?ys"
      then have m: "m < ?n" by (simp only: lys)
      note s = block_segment [OF n kT refl i32 m]
      have y: "?ys ! m = xs ! (32 * k - h + m)" using my s(1) by simp
      have "elements (blocks q ?r) ! (h - 32 * k + m) = Some (xs ! (32 * k - h + m))" using less.prems(2) s by fastforce
      then show "elements (blocks q ?r) ! (?i + m) = Some (?ys ! m)" by (simp only: i y)
    qed
    moreover have "?i + length ?ys \<le> 32" unfolding lys using nle i i32 by linarith
    ultimately obtain q1 where "x_destroy_slots ?r ?i (length ?ys) q = Some (?ys, q1)" "same_shape q1 q" "\<forall>v. v \<noteq> ?r \<longrightarrow> blocks q1 v = blocks q v"
      using x_destroy_slots_run [OF _ _ blk(1)] by blast
    moreover have "\<not> (?r = last rs \<and> ?lv < ?i)" using fin tail i kT by auto
    ultimately show ?thesis using em False lys that [of q1] by simp
  qed
  let ?seg = "take (32 * k + 32 - h - (32 * k - h)) (drop (32 * k - h) xs)"
  have step: "x_destroy_ring half (last rs) p b q =
      (if ?r = last rs then Some (?seg, q1) else Option.bind (x_destroy_ring half (last rs) p ?r q1) (\<lambda>(ys, q). Some (?seg @ ys, q)))"
    by (subst x_destroy_ring.simps) (simp only: less.prems(4) option.case Let_def q1(1) q1(4) if_False prod.case)
  have nx: "k \<noteq> length rs - 1 \<Longrightarrow> blk_next (blocks q1 ?r) = Some (rs ! Suc k)"
    using less.prems(1) kl q1(2) by (simp add: x_ring_def x_links_def same_shape_def)
  show ?case
  proof (cases "Suc k = length rs")
    case True
    then have "length xs - (32 * k - h) \<le> 32 * k + 32 - h - (32 * k - h)" using Tb(2) by linarith
    then have all: "?seg = drop (32 * k - h) xs" by simp
    have "x_destroy_ring half (last rs) p b q = Some (drop (32 * k - h) xs, q1)"
      using True tail unfolding step all by simp
    moreover have "\<forall>v. v \<notin> set rs \<longrightarrow> blocks q1 v = blocks q v" using q1(3) kl nth_mem by metis
    ultimately show ?thesis using q1(2) by blast
  next
    case False
    have r1: "x_ring q1 rs 0 h" by (rule x_ring_cong [OF less.prems(1)]) (use q1(2) in \<open>simp add: same_shape_def\<close>)
    have c1: "\<forall>j < length xs. Suc k \<le> (h + j) div 32 \<longrightarrow> elements (blocks q1 (rs ! ((h + j) div 32))) ! ((h + j) mod 32) = Some (xs ! j)"
    proof (intro allI impI)
      fix j assume j: "j < length xs" "Suc k \<le> (h + j) div 32"
      have "(h + j) div 32 < length rs" using l j(1) by (simp add: div_less_iff_less_mult)
      then have "rs ! ((h + j) div 32) \<noteq> ?r" using di kl j(2) by (simp add: nth_eq_iff_index_eq)
      then show "elements (blocks q1 (rs ! ((h + j) div 32))) ! ((h + j) mod 32) = Some (xs ! j)" using q1(3) less.prems(2) j by simp
    qed
    have "length rs - Suc k < length rs - k" "Suc k < length rs" using kl False by linarith+
    from less.hyps [OF this(1) r1 c1 this(2)] nx False kl obtain q2 where q2: "x_destroy_ring half (last rs) p ?r q1 = Some (drop (32 * Suc k - h) xs, q2)"
      "same_shape q2 q1" "\<forall>v. v \<notin> set rs \<longrightarrow> blocks q2 v = blocks q1 v" by fastforce
    have "?seg @ drop (32 * Suc k - h) xs = drop (32 * k - h) xs"
    proof -
      have e: "32 * Suc k - h = 32 * k + 32 - h - (32 * k - h) + (32 * k - h)" by simp
      show ?thesis unfolding e drop_drop [symmetric] by (rule append_take_drop_id)
    qed
    then have "x_destroy_ring half (last rs) p b q = Some (drop (32 * k - h) xs, q2)"
      using False tail q2(1) unfolding step by simp
    moreover have "\<forall>v. v \<notin> set rs \<longrightarrow> blocks q2 v = blocks q v" using q1(3) q2(3) kl nth_mem by metis
    ultimately show ?thesis using same_shape_trans [OF q2(2) q1(2)] by blast
  qed
qed

section \<open>The blocks\<close>

lemma x_destroy_blocks_from:
  assumes "\<forall>k < length ss. blk_next (blocks q ((b # ss) ! k)) = Some (ss ! k)" "blk_next (blocks q (last (b # ss))) = Some tail" "tail \<notin> set ss"
  shows "\<exists>q'. x_destroy_blocks tail b q = Some (filter (\<lambda>r. dynamicallyAllocated (blocks q r)) (b # ss), q') \<and> blocks q' = blocks q \<and>
    free_list q' = rev (filter (\<lambda>r. \<not> dynamicallyAllocated (blocks q r)) (b # ss)) @ free_list q \<and>
    next_block q' = next_block q \<and> pool_size q' = pool_size q \<and> pool_index q' = pool_index q"
  using assms
proof (induction ss arbitrary: b q)
  case Nil
  then show ?case by (subst x_destroy_blocks.simps) (simp add: Let_def add_block_to_free_list_def)
next
  case (Cons c ss)
  let ?q = "if dynamicallyAllocated (blocks q b) then q else add_block_to_free_list b q"
  have bq: "blocks ?q = blocks q" by (simp add: add_block_to_free_list_def)
  have "\<forall>k < length ss. blk_next (blocks ?q ((c # ss) ! k)) = Some (ss ! k)" unfolding bq using Cons.prems(1) by auto
  moreover have "blk_next (blocks ?q (last (c # ss))) = Some tail" "tail \<notin> set ss" unfolding bq using Cons.prems(2,3) by simp_all
  ultimately obtain q' where q': "x_destroy_blocks tail c ?q = Some (filter (\<lambda>r. dynamicallyAllocated (blocks q r)) (c # ss), q')" "blocks q' = blocks q"
    "free_list q' = rev (filter (\<lambda>r. \<not> dynamicallyAllocated (blocks q r)) (c # ss)) @ free_list ?q"
    "next_block q' = next_block ?q" "pool_size q' = pool_size ?q" "pool_index q' = pool_index ?q" using Cons.IH [of ?q c] unfolding bq by blast
  have nx: "blk_next (blocks q b) = Some c" "c \<noteq> tail" using Cons.prems(1,3) by auto
  show ?case
  proof (cases "dynamicallyAllocated (blocks q b)")
    case True
    then show ?thesis using q' nx by (subst x_destroy_blocks.simps) (simp add: Let_def)
  next
    case False
    then show ?thesis using q' nx by (subst x_destroy_blocks.simps) (simp add: Let_def add_block_to_free_list_def)
  qed
qed

lemma pool_ok_returned:
  assumes ok: "pool_ok q (U \<union> set rs)" "set rs \<inter> U = {}"
    and g: "G = {b \<in> set rs. dynamicallyAllocated (blocks q b)}" "set freed = {b \<in> set rs. \<not> dynamicallyAllocated (blocks q b)}"
    and d: "distinct freed" and f: "free_list q' = freed @ free_list q" "next_block q' = next_block q" "pool_size q' = pool_size q"
      "pool_index q' = pool_index q" "\<And>b. length (elements (blocks q' b)) = length (elements (blocks q b)) \<and>
          dynamicallyAllocated (blocks q' b) = dynamicallyAllocated (blocks q b)"
  shows "pool_ok q' (U \<union> G)"
proof -
  have i: "initial_left q' = initial_left q" using f(3,4) by (simp add: initial_left_def)
  have u: "G \<union> set freed = set rs" "G \<inter> set freed = {}" using g by auto
  have "distinct (free_list q')" using ok(1) d g(2) unfolding f(1) pool_ok_def by auto
  moreover have "(U \<union> G) \<inter> set (free_list q') = {}" using ok u unfolding f(1) pool_ok_def by auto
  moreover have e: "U \<union> G \<union> set (free_list q') = U \<union> set rs \<union> set (free_list q)" unfolding f(1) using u by auto
  ultimately show ?thesis using ok(1) f(2-5) unfolding pool_ok_def e i by simp
qed

text \<open>The blocks that are left belong to others or are destroyed.\<close>

lemma destroy_explicit_correct:
  assumes r: "x_rep q p F h rs xs 0" and ok: "pool_ok q (U \<union> set rs)" "set rs \<inter> U = {}"
  shows "\<exists>gone q'. destroy_explicit_producer (q, p) = Some (xs, gone, q') \<and> distinct gone \<and> set gone \<inter> U = {} \<and>
    pool_ok q' (U \<union> set gone) \<and> (\<forall>b \<in> set gone. unat (pool_size q) \<le> b) \<and> (\<forall>v \<in> U. blocks q' v = blocks q v)"
proof -
  have st: "x_state q p F h rs 0 xs 0" and l: "length rs = (h + length xs + 31) div 32" using r by (simp_all add: x_rep_def)
  have z: "x_ring q rs 0 h" "x_content q rs h xs" "x_indexed p F rs" "x_headIndex p = F + of_nat h" "slot F = 0"
    "x_tailBlock p = (if rs = [] then None else Some (last rs))" "x_slotsUsed p = of_nat (length rs)" "length rs < 2 ^ 58"
    using st by (simp_all add: x_state_def)
  show ?thesis
  proof (cases "rs = []")
    case True
    then have "xs = []" using l by (simp add: div_eq_0_iff)
    then show ?thesis using z(6) True ok by (simp add: destroy_explicit_producer_def)
  next
    case ne: False
    let ?half = "if h mod 32 = 0 then None else Some (rs ! (h div 32))"
    have w: "x_window p F rs" using z(3) ne by (simp add: x_indexed_def)
    obtain c ix fs where s: "x_sizes c ix p" "rotate (unat (x_indexFront p)) (xi_entries ix) = fs @ x_entries (blocks_from F rs)"
      using w by (auto simp: x_window_def)
    note pos = x_window_positions [OF s]
    have c: "c \<le> 58" "x_index p = Some ix" "x_indexSize p = 2 ^ c" using s(1) by (simp_all add: x_sizes_def)
    have hs: "x_headIndex p AND (BLOCK_SIZE - 1) = 0 \<longleftrightarrow> h mod 32 = 0"
      using x_head_slot [OF st] unat_mod_32 [of "x_headIndex p"] by (simp add: slot_mod)
    have start: "unat ((x_indexFront p - x_slotsUsed p) AND (2 ^ c - 1)) = (unat (x_indexFront p) + length fs + 0) mod 2 ^ c"
    proof -
      have cc: "c \<le> 64" using c(1) by simp
      have "(2 :: u64) ^ c = of_nat (length fs) + of_nat (length rs)"
        using arg_cong [OF pos(2), of "of_nat :: nat \<Rightarrow> u64"] by (simp only: of_nat_add of_nat_power of_nat_numeral)
      then have e: "x_indexFront p - x_slotsUsed p + 2 ^ c = x_indexFront p + of_nat (length fs)" unfolding z(7) by (simp only: diff_add_eq add_diff_eq) simp
      have "unat (x_indexFront p - x_slotsUsed p) mod 2 ^ c = unat (x_indexFront p - x_slotsUsed p + 2 ^ c) mod 2 ^ c"
        using unat_add_mod_power [of c "x_indexFront p - x_slotsUsed p" "2 ^ c"] unat_2_power [of c] c(1) by simp
      also have "\<dots> = (unat (x_indexFront p) + unat (of_nat (length fs) :: u64)) mod 2 ^ c" unfolding e by (rule unat_add_mod_power [OF cc])
      also have "unat (of_nat (length fs) :: u64) = length fs"
      proof -
        have "length fs \<le> 2 ^ c" using pos(2) by simp
        also have "(2 :: nat) ^ c \<le> 2 ^ 58" using c(1) by (intro power_increasing) simp_all
        finally show ?thesis by (simp add: unat_of_nat take_bit_nat_eq_self)
      qed
      finally show ?thesis using c(1) by (simp add: and_capacity)
    qed
    have half: "(if x_headIndex p AND (BLOCK_SIZE - 1) \<noteq> 0
        then (case x_index p of None \<Rightarrow> None
              | Some ix \<Rightarrow> x_find_half ix (x_indexSize p - 1) (x_headIndex p) ((x_indexFront p - x_slotsUsed p) AND (x_indexSize p - 1)))
        else Some None) = Some ?half"
    proof (cases "h mod 32 = 0")
      case False
      have "(h + 31) div 32 \<le> length rs" unfolding l by (intro div_le_mono) simp
      then have "h div 32 < length rs" using False add_31_div [of h] by simp
      from x_find_half_at [OF pos(1) False this z(8) _ start] show ?thesis using False hs c(2,3) z(4) by simp
    qed (simp add: hs)
    have nl: "blk_next (blocks q (last rs)) = Some (rs ! 0)" using z(1) x_links_last [OF _ ne] unfolding x_ring_def hd_conv_nth [OF ne] by blast
    have cont: "\<forall>j < length xs. 0 \<le> (h + j) div 32 \<longrightarrow> elements (blocks q (rs ! ((h + j) div 32))) ! ((h + j) mod 32) = Some (xs ! j)"
      using z(2) by (simp add: x_content_def)
    have "0 < length rs" using ne by simp
    from x_destroy_ring_from [OF z(1) cont l this refl x_head_slot [OF st] x_tail_slot [OF st] nl]
    obtain q1 where q1: "x_destroy_ring ?half (last rs) p (last rs) q = Some (xs, q1)" "same_shape q1 q" "\<forall>v. v \<notin> set rs \<longrightarrow> blocks q1 v = blocks q v"
      by auto
    let ?ss = "butlast rs"
    have dy: "dynamicallyAllocated (blocks q1 b) = dynamicallyAllocated (blocks q b)" for b using q1(2) by (simp add: same_shape_def)
    have di: "distinct (last rs # ?ss)" using z(1) ne append_butlast_last_id [OF ne] by (metis distinct1_rotate rotate1.simps(2) x_ring_def)
    have links: "x_links (\<lambda>r. blk_next (blocks q1 r)) (?ss @ [last rs])"
      using z(1) q1(2) ne by (simp add: x_ring_def same_shape_def)
    have set: "set rs = set (last rs # ?ss)" using append_butlast_last_id [OF ne] by (metis rotate1.simps(2) set_rotate1)
    have a: "\<forall>k < length ?ss. blk_next (blocks q1 ((last rs # ?ss) ! k)) = Some (?ss ! k)"
    proof (intro allI impI)
      fix k assume k: "k < length ?ss"
      show "blk_next (blocks q1 ((last rs # ?ss) ! k)) = Some (?ss ! k)"
      proof (cases k)
        case 0
        then show ?thesis using nl k q1(2) by (simp add: same_shape_def nth_butlast)
      next
        case (Suc j)
        then have "blk_next (blocks q1 ((?ss @ [last rs]) ! j)) = Some ((?ss @ [last rs]) ! (Suc j mod length (?ss @ [last rs])))"
          using links k by (simp add: x_links_def)
        then show ?thesis using Suc k by (simp add: nth_append)
      qed
    qed
    have b: "blk_next (blocks q1 (last (last rs # ?ss))) = Some (last rs)"
    proof (cases "?ss = []")
      case True
      then have "rs = [last rs]" using append_butlast_last_id [OF ne] by simp
      then show ?thesis using nl q1(2) True by (metis last.simps nth_Cons_0 same_shape_def)
    next
      case False
      then obtain us v where ss: "?ss = us @ [v]" by (metis rev_exhaust)
      have "blk_next (blocks q1 ((us @ [v, last rs]) ! length us)) = Some ((us @ [v, last rs]) ! (Suc (length us) mod length (us @ [v, last rs])))"
        using links unfolding ss x_links_def by (elim allE [of _ "length us"]) simp
      then show ?thesis unfolding ss by (simp add: nth_append)
    qed
    obtain q2 where q2: "x_destroy_blocks (last rs) (last rs) q1 = Some (filter (\<lambda>r. dynamicallyAllocated (blocks q r)) (last rs # ?ss), q2)"
      "blocks q2 = blocks q1" "free_list q2 = rev (filter (\<lambda>r. \<not> dynamicallyAllocated (blocks q r)) (last rs # ?ss)) @ free_list q1"
      "next_block q2 = next_block q1" "pool_size q2 = pool_size q1" "pool_index q2 = pool_index q1"
      using x_destroy_blocks_from [OF a b] di unfolding dy by auto
    let ?gone = "filter (\<lambda>r. dynamicallyAllocated (blocks q r)) (last rs # ?ss)" and ?freed = "rev (filter (\<lambda>r. \<not> dynamicallyAllocated (blocks q r)) (last rs # ?ss))"
    have "destroy_explicit_producer (q, p) = Some (xs, ?gone, q2)"
      unfolding destroy_explicit_producer_def Let_def prod.case using z(6) ne half q1(1) q2(1) by simp
    moreover have d: "distinct ?gone" "distinct ?freed" using di by (simp_all only: distinct_filter distinct_rev)
    moreover have g: "set ?gone = {b \<in> set rs. dynamicallyAllocated (blocks q b)}" "set ?freed = {b \<in> set rs. \<not> dynamicallyAllocated (blocks q b)}"
      unfolding set by auto
    moreover have "pool_ok q2 (U \<union> set ?gone)"
    proof (rule pool_ok_returned [OF ok g d(2)])
      show "free_list q2 = ?freed @ free_list q" "next_block q2 = next_block q" "pool_size q2 = pool_size q" "pool_index q2 = pool_index q"
        using q2(3-6) q1(2) by (simp_all only: same_shape_def)
      show "length (elements (blocks q2 b)) = length (elements (blocks q b)) \<and>
          dynamicallyAllocated (blocks q2 b) = dynamicallyAllocated (blocks q b)" for b using q1(2) by (simp only: q2(2) same_shape_def)
    qed
    moreover have "\<forall>b \<in> set ?gone. unat (pool_size q) \<le> b"
      using g(1) pool_ok_used [OF ok(1)] ok(1) unfolding pool_ok_def by blast
    moreover have "blocks q2 v = blocks q v" if "v \<in> U" for v
    proof -
      have "v \<notin> set rs" using ok(2) that by auto
      then show ?thesis using q2(2) q1(3) by simp
    qed
    moreover have "set ?gone \<inter> U = {}" using g(1) ok(2) by auto
    ultimately show ?thesis by (intro exI [of _ ?gone] exI [of _ q2]) blast
  qed
qed

end
