(* ===== verification/Explicit_Claims.thy ===== *)
theory Explicit_Claims
  imports Explicit_Destruction
begin

text \<open>
  The producer of a token, from its constructor to its destructor, and next to the producer of a thread.
\<close>

section \<open>A lifetime\<close>

text \<open>What is observed of a token's producer that makes the calls \<open>cs\<close> and is destroyed.\<close>

definition explicit_lifetime ::
  "bool \<Rightarrow> 'a pcall list \<Rightarrow> 'a pool \<Rightarrow> (bool list \<times> 'a list \<times> u64 \<times> 'a list \<times> nat list \<times> 'a pool) option" where
  "explicit_lifetime mem cs q =
     Option.bind (make_explicit mem q) (\<lambda>p.
     Option.bind (producer_run explicit_call cs (q, p)) (\<lambda>(bs, got, q, p).
     map_option (\<lambda>(rest, gone, q). (bs, got, explicit_size_approx p, rest, gone, q)) (destroy_explicit_producer (q, p))))"

lemma explicit_holds_destroyed:
  assumes "explicit_holds q0 U (q, p) xs n"
  shows "\<exists>gone q'. destroy_explicit_producer (q, p) = Some (xs, gone, q') \<and> distinct gone \<and> set gone \<inter> U = {} \<and>
    pool_ok q' (U \<union> set gone) \<and> (\<forall>v \<in> U. blocks q' v = blocks q0 v)"
proof -
  obtain F h rs where r: "x_rep q p F h rs xs 0" "pool_ok q (U \<union> set rs)" "set rs \<inter> U = {}" "\<forall>v \<in> U. blocks q v = blocks q0 v"
    using assms by (auto simp: explicit_holds_def)
  obtain gone q' where g: "destroy_explicit_producer (q, p) = Some (xs, gone, q')" "distinct gone" "set gone \<inter> U = {}"
    "pool_ok q' (U \<union> set gone)" "\<forall>v \<in> U. blocks q' v = blocks q v"
    using destroy_explicit_correct [OF r(1-3)] by (elim exE conjE) (rule that)
  moreover have "\<forall>v \<in> U. blocks q' v = blocks q0 v" using g(5) r(4) by simp
  ultimately show ?thesis by blast
qed

lemma producer_run_snoc:
  "producer_run call cs s = Some (bs, got, s') \<Longrightarrow> call c s' = Some (b, got', s'') \<Longrightarrow>
   producer_run call (cs @ [c]) s = Some (bs @ [b], got @ got', s'')"
  by (induction cs arbitrary: s bs got) (auto split: option.splits)

text \<open>C23: A producer that belongs to a token never faults up to the first bulk enqueue that is refused,
  whatever the calls, the limit and the failures of memory: let \<open>k\<close> be the number of calls before
  it, all calls if there is none. These calls deliver the accepted elements in order, as a list
  does; those that have memory are accepted. If the producer is destroyed then, its size is
  exact, its destructor destroys exactly the elements that are left, in order, and every block it
  took is afterwards destroyed once or available again; the blocks \<open>U\<close> of other producers are never
  touched. The refused call itself had no memory for everything and does not fault either.\<close>

theorem explicit_lifetime_fifo:
  assumes "pool_ok q U" "unat (pool_size q) \<le> 2 ^ 58" "put_count cs < 2 ^ 58"
  shows "\<exists>k bs got n rest gone q'. k \<le> length cs \<and> explicit_lifetime mem (take k cs) q = Some (bs, got, n, rest, gone, q') \<and>
    list_run (take k cs) bs [] = (got, rest) \<and> accepted_of (take k cs) bs = got @ rest \<and> unat n = length rest \<and>
    length bs = k \<and> (\<forall>i < k. in_memory (cs ! i) \<longrightarrow> bs ! i) \<and>
    (k < length cs \<longrightarrow> is_bulk_put (cs ! k) \<and> \<not> in_memory (cs ! k) \<and>
      (\<exists>p got' s'. make_explicit mem q = Some p \<and> producer_run explicit_call (take (Suc k) cs) (q, p) = Some (bs @ [False], got', s'))) \<and>
    distinct gone \<and> set gone \<inter> U = {} \<and> pool_ok q' (U \<union> set gone) \<and> (\<forall>v \<in> U. blocks q' v = blocks q v)"
proof -
  obtain p where p: "make_explicit mem q = Some p" "explicit_holds q U (q, p) [] 0" using make_explicit_holds [OF assms(1,2)] by blast
  have "0 + put_count cs < 2 ^ 58" using assms(3) by simp
  from xp.run_until [OF p(2) this] obtain k bs got q1 p1 rest where
    r: "k \<le> length cs" "producer_run explicit_call (take k cs) (q, p) = Some (bs, got, q1, p1)" "length bs = k"
      "list_run (take k cs) bs [] = (got, rest)" "explicit_holds q U (q1, p1) rest (0 + put_count (take k cs))"
      "\<forall>i < k. in_memory (cs ! i) \<longrightarrow> bs ! i"
    and last: "k < length cs \<longrightarrow> \<not> explicit_keeps (cs ! k) False \<and> \<not> in_memory (cs ! k) \<and>
      (\<exists>s''. explicit_call (cs ! k) (q1, p1) = Some (False, take (take_of (cs ! k)) rest, s''))"
    by (metis (no_types, lifting) surj_pair)
  obtain gone q2 where g: "destroy_explicit_producer (q1, p1) = Some (rest, gone, q2)" "distinct gone" "set gone \<inter> U = {}"
    "pool_ok q2 (U \<union> set gone)" "\<forall>v \<in> U. blocks q2 v = blocks q v" using explicit_holds_destroyed [OF r(5)] by (elim exE conjE) (rule that)
  have "explicit_lifetime mem (take k cs) q = Some (bs, got, explicit_size_approx p1, rest, gone, q2)"
    using p(1) r(2) g(1) by (simp add: explicit_lifetime_def)
  moreover have "accepted_of (take k cs) bs = got @ rest" using list_run_fifo [OF r(4)] by simp
  moreover have "k < length cs \<longrightarrow> is_bulk_put (cs ! k) \<and> \<not> in_memory (cs ! k) \<and>
      (\<exists>p got' s'. make_explicit mem q = Some p \<and> producer_run explicit_call (take (Suc k) cs) (q, p) = Some (bs @ [False], got', s'))"
    using last p(1) producer_run_snoc [OF r(2)] by (fastforce simp: explicit_keeps_def take_Suc_conv_app_nth)
  ultimately show ?thesis using r(1,3,4,6) g(2-5) explicit_holds_size [OF r(5)] by (intro exI conjI) assumption+
qed

definition some_calls :: "nat pcall list" where
  "some_calls = [Put (- 1) True True True 1, Put 0 False False False 2, Put_bulk (- 1) True (\<lambda>i. True) (\<lambda>i. True) [3, 4], Take, Take]"

text \<open>None of these calls can be a refused bulk enqueue, so the run is not cut short.\<close>

lemma some_calls_in_memory:
  "put_count some_calls < 2 ^ 58" "length some_calls = 5" "in_memory (some_calls ! 0)" "in_memory (some_calls ! 2)"
  "k < 5 \<Longrightarrow> is_bulk_put (some_calls ! k) \<Longrightarrow> in_memory (some_calls ! k)"
  by (simp_all add: some_calls_def put_count_def nth_Cons split: nat.splits)

theorem explicit_lifetime_fifo_witness:
  "\<exists>bs got n rest gone q'. explicit_lifetime True some_calls (populate_initial_block_list True 1) = Some (bs, got, n, rest, gone, q') \<and>
     length bs = 5 \<and> bs ! 0 \<and> bs ! 2 \<and> accepted_of some_calls bs = got @ rest \<and> unat n = length rest"
proof -
  have "unat (pool_size (populate_initial_block_list True 1 :: nat pool)) \<le> 2 ^ 58" by (simp add: populate_initial_block_list_def)
  from explicit_lifetime_fifo [OF populate_pool_ok this some_calls_in_memory(1), of True] obtain k bs got n rest gone q' where
    r: "k \<le> length some_calls" "explicit_lifetime True (take k some_calls) (populate_initial_block_list True 1) = Some (bs, got, n, rest, gone, q')"
      "accepted_of (take k some_calls) bs = got @ rest" "unat n = length rest" "length bs = k" "\<forall>i < k. in_memory (some_calls ! i) \<longrightarrow> bs ! i"
      "k < length some_calls \<longrightarrow> is_bulk_put (some_calls ! k) \<and> \<not> in_memory (some_calls ! k)"
    by (elim exE conjE) (rule that, assumption+, blast)
  have "\<not> k < 5" using r(7) some_calls_in_memory(2) some_calls_in_memory(5) [of k] by auto
  then have "k = 5" using r(1) some_calls_in_memory(2) by simp
  then have "take k some_calls = some_calls" using some_calls_in_memory(2) by simp
  then show ?thesis using r(2-6) some_calls_in_memory(3,4) \<open>k = 5\<close> by (intro exI conjI) (assumption | simp)+
qed

section \<open>Both kinds of producer\<close>

text \<open>C24: With memory, a producer that belongs to a token and one that belongs to a thread cannot be
  told apart: they accept all calls and deliver the same elements, those that a list would deliver.\<close>

theorem producers_agree:
  assumes "pool_ok q U" "unat (pool_size q) \<le> 2 ^ 58" "pool_ok q' U'" "list_all in_memory cs" "put_count cs < 2 ^ 58"
  shows "\<exists>p s s'. make_explicit mem q = Some p \<and>
    producer_run explicit_call cs (q, p) = Some (replicate (length cs) True, fst (list_run cs (replicate (length cs) True) []), s) \<and>
    producer_run (implicit_call stale) cs (q', make_producer True stale) =
      Some (replicate (length cs) True, fst (list_run cs (replicate (length cs) True) []), s')"
proof -
  obtain p where p: "make_explicit mem q = Some p" "explicit_holds q U (q, p) [] 0" using make_explicit_holds [OF assms(1,2)] by blast
  have c: "0 + put_count cs < 2 ^ 58" using assms(5) by simp
  show ?thesis
    using p(1) xp.run_in_memory [OF p(2) assms(4) c]
      ip.run_in_memory [OF make_producer_holds [OF assms(3)] assms(4) c, of stale stale] by blast
qed

definition two_calls :: "nat pcall list" where
  "two_calls = [Put (- 1) True True True 7, Take_bulk 3]"

lemma two_calls_run:
  "list_all in_memory two_calls" "put_count two_calls < 2 ^ 58"
  "replicate (length two_calls) True = [True, True]" "fst (list_run two_calls [True, True] []) = [7]"
  by (simp_all add: two_calls_def put_count_def)

theorem producers_agree_witness:
  "\<exists>p s s'. make_explicit True (populate_initial_block_list True 1 :: nat pool) = Some p \<and>
    producer_run explicit_call two_calls (populate_initial_block_list True 1, p) = Some ([True, True], [7], s) \<and>
    producer_run (implicit_call None) two_calls (populate_initial_block_list False 4, make_producer True None) = Some ([True, True], [7], s')"
proof -
  have "unat (pool_size (populate_initial_block_list True 1 :: nat pool)) \<le> 2 ^ 58" by (simp add: populate_initial_block_list_def)
  from producers_agree [OF populate_pool_ok this populate_pool_ok two_calls_run(1,2), of True None False 4] show ?thesis
    unfolding two_calls_run(3,4) .
qed

end
