(* ===== verification/Token_Queue.thy ===== *)
theory Token_Queue
  imports Explicit_Claims Queue_Refinement
begin

text \<open>
  \<open>concurrentqueue.h\<close>, the queue as it is used with tokens: producers of both kinds in one list, the
  tokens of producers, and the tokens of consumers, who stay with one producer and move on when
  somebody has taken 256 elements from one. As in \<open>Concurrent_Queue\<close> a call is executed without
  interruption. How a thread finds its implicit producer is modelled there and left out here.
\<close>

section \<open>State\<close>

datatype any_producer = Implicit producer | Explicit explicit_producer

text \<open>The producers are numbered in the order of their creation; the linked list starts at the newest.
  A number is an address. The back pointer from a producer to its token is never followed.\<close>

record 'a token_queue =
  t_pool :: "'a pool"
  t_prods :: "any_producer list"
  t_inactive :: "bool list"
  t_producerCount :: u32
  nextExplicitConsumerId :: u32
  globalExplicitConsumerOffset :: u32

type_synonym producer_token = "nat option"

record consumer_token =
  initialOffset :: u32
  lastKnownGlobalOffset :: u32
  itemsConsumedFromCurrent :: u32
  currentProducer :: "nat option"
  desiredProducer :: "nat option"

definition EXPLICIT_CONSUMER_CONSUMPTION_QUOTA_BEFORE_ROTATE :: u32 where
  "EXPLICIT_CONSUMER_CONSUMPTION_QUOTA_BEFORE_ROTATE = 256"

section \<open>Producers of both kinds\<close>

fun is_explicit :: "any_producer \<Rightarrow> bool" where
  "is_explicit (Implicit p) \<longleftrightarrow> False"
| "is_explicit (Explicit p) \<longleftrightarrow> True"

fun any_dequeue :: "'a pool \<Rightarrow> any_producer \<Rightarrow> ('a option \<times> 'a pool \<times> any_producer) option" where
  "any_dequeue q (Implicit p) = map_option (\<lambda>(f, q, p). (f, q, Implicit p)) (producer_dequeue (q, p))"
| "any_dequeue q (Explicit p) = map_option (\<lambda>(f, q, p). (f, q, Explicit p)) (explicit_dequeue (q, p))"

fun any_dequeue_bulk :: "u64 \<Rightarrow> 'a pool \<Rightarrow> any_producer \<Rightarrow> ('a list \<times> 'a pool \<times> any_producer) option" where
  "any_dequeue_bulk m q (Implicit p) = map_option (\<lambda>(xs, q, p). (xs, q, Implicit p)) (producer_dequeue_bulk m (q, p))"
| "any_dequeue_bulk m q (Explicit p) = map_option (\<lambda>(xs, q, p). (xs, q, Explicit p)) (explicit_dequeue_bulk m (q, p))"

fun any_size_approx :: "any_producer \<Rightarrow> u64" where
  "any_size_approx (Implicit p) = producer_size_approx p"
| "any_size_approx (Explicit p) = explicit_size_approx p"

definition make_token_queue :: "bool \<Rightarrow> u64 \<Rightarrow> 'a token_queue" where
  "make_token_queue mem capacity =
     \<lparr>t_pool = populate_initial_block_list mem (capacity div BLOCK_SIZE + (if capacity AND (BLOCK_SIZE - 1) = 0 then 0 else 1)),
      t_prods = [], t_inactive = [], t_producerCount = 0, nextExplicitConsumerId = 0, globalExplicitConsumerOffset = 0\<rparr>"

text \<open>A call on producer \<open>r\<close>. A pointer to nothing is a fault.\<close>

definition on_producer ::
  "('a pool \<Rightarrow> any_producer \<Rightarrow> ('b \<times> 'a pool \<times> any_producer) option) \<Rightarrow> nat \<Rightarrow> 'a token_queue \<Rightarrow> ('b \<times> 'a token_queue) option" where
  "on_producer op r Q =
     (if length (t_prods Q) \<le> r then None
      else map_option (\<lambda>(y, q, p). (y, Q\<lparr>t_pool := q, t_prods := (t_prods Q)[r := p]\<rparr>)) (op (t_pool Q) (t_prods Q ! r)))"

text \<open>The list of producers.\<close>

definition producer_tail :: "'a token_queue \<Rightarrow> nat option" where
  "producer_tail Q = (if t_prods Q = [] then None else Some (length (t_prods Q) - 1))"

definition next_prod :: "nat \<Rightarrow> nat option" where
  "next_prod r = (case r of 0 \<Rightarrow> None | Suc s \<Rightarrow> Some s)"

text \<open>The next producer, or the first one again.\<close>

definition next_or_tail :: "nat \<Rightarrow> 'a token_queue \<Rightarrow> nat option" where
  "next_or_tail r Q = (case next_prod r of None \<Rightarrow> producer_tail Q | Some s \<Rightarrow> Some s)"

definition t_add_producer :: "any_producer option \<Rightarrow> 'a token_queue \<Rightarrow> nat option \<times> 'a token_queue" where
  "t_add_producer new Q =
     (case new of
        None \<Rightarrow> (None, Q)
      | Some p \<Rightarrow> (Some (length (t_prods Q)),
          Q\<lparr>t_producerCount := t_producerCount Q + 1, t_prods := t_prods Q @ [p], t_inactive := t_inactive Q @ [False]\<rparr>))"

definition t_recycle_or_create_producer :: "memory \<Rightarrow> bool \<Rightarrow> 'a token_queue \<Rightarrow> (nat option \<times> bool \<times> 'a token_queue) option" where
  "t_recycle_or_create_producer e isExplicit Q =
     (case find (\<lambda>r. t_inactive Q ! r \<and> is_explicit (t_prods Q ! r) = isExplicit) (rev [0..<length (t_prods Q)]) of
        Some r \<Rightarrow> Some (Some r, True, Q\<lparr>t_inactive := (t_inactive Q)[r := False]\<rparr>)
      | None \<Rightarrow>
          map_option (\<lambda>new. case t_add_producer new Q of (r, Q) \<Rightarrow> (r, False, Q))
            (if \<not> m_producer e then Some None
             else if isExplicit then map_option (\<lambda>p. Some (Explicit p)) (make_explicit (m_first_index e) (t_pool Q))
             else Some (Some (Implicit (make_producer (m_first_index e) (m_stale e))))))"

section \<open>Tokens of producers\<close>

definition make_producer_token :: "memory \<Rightarrow> 'a token_queue \<Rightarrow> (producer_token \<times> 'a token_queue) option" where
  "make_producer_token e Q = map_option (\<lambda>(r, recycled, Q). (r, Q)) (t_recycle_or_create_producer e True Q)"

definition destroy_producer_token :: "producer_token \<Rightarrow> 'a token_queue \<Rightarrow> 'a token_queue" where
  "destroy_producer_token t Q = (case t of None \<Rightarrow> Q | Some r \<Rightarrow> Q\<lparr>t_inactive := (t_inactive Q)[r := True]\<rparr>)"

text \<open>The cast to \<open>ExplicitProducer\<close>.\<close>

definition as_explicit ::
  "('a pool \<times> explicit_producer \<Rightarrow> ('b \<times> 'a pool \<times> explicit_producer) option) \<Rightarrow> 'a pool \<Rightarrow> any_producer \<Rightarrow> ('b \<times> 'a pool \<times> any_producer) option" where
  "as_explicit op q p =
     (case p of Implicit p \<Rightarrow> None | Explicit p \<Rightarrow> map_option (\<lambda>(y, q, p). (y, q, Explicit p)) (op (q, p)))"

definition on_token ::
  "('a pool \<times> explicit_producer \<Rightarrow> ('b \<times> 'a pool \<times> explicit_producer) option) \<Rightarrow> producer_token \<Rightarrow> 'a token_queue \<Rightarrow> ('b \<times> 'a token_queue) option" where
  "on_token op t Q = (case t of None \<Rightarrow> None | Some r \<Rightarrow> on_producer (as_explicit op) r Q)"

definition token_inner_enqueue :: "bool \<Rightarrow> memory \<Rightarrow> producer_token \<Rightarrow> 'a \<Rightarrow> 'a token_queue \<Rightarrow> (bool \<times> 'a token_queue) option" where
  "token_inner_enqueue can_alloc e t x = on_token (explicit_enqueue MAX_SUBQUEUE_SIZE can_alloc (m_index e) (m_block e) x) t"

definition token_inner_enqueue_bulk ::
  "bool \<Rightarrow> (nat \<Rightarrow> bool) \<Rightarrow> (nat \<Rightarrow> bool) \<Rightarrow> producer_token \<Rightarrow> 'a list \<Rightarrow> 'a token_queue \<Rightarrow> (bool \<times> 'a token_queue) option" where
  "token_inner_enqueue_bulk can_alloc im bm t xs = on_token (explicit_enqueue_bulk MAX_SUBQUEUE_SIZE can_alloc im bm xs) t"

definition token_enqueue :: "memory \<Rightarrow> producer_token \<Rightarrow> 'a \<Rightarrow> 'a token_queue \<Rightarrow> (bool \<times> 'a token_queue) option" where
  "token_enqueue = token_inner_enqueue True"

definition token_try_enqueue :: "memory \<Rightarrow> producer_token \<Rightarrow> 'a \<Rightarrow> 'a token_queue \<Rightarrow> (bool \<times> 'a token_queue) option" where
  "token_try_enqueue = token_inner_enqueue False"

definition token_enqueue_bulk ::
  "(nat \<Rightarrow> bool) \<Rightarrow> (nat \<Rightarrow> bool) \<Rightarrow> producer_token \<Rightarrow> 'a list \<Rightarrow> 'a token_queue \<Rightarrow> (bool \<times> 'a token_queue) option" where
  "token_enqueue_bulk = token_inner_enqueue_bulk True"

definition token_try_enqueue_bulk ::
  "(nat \<Rightarrow> bool) \<Rightarrow> (nat \<Rightarrow> bool) \<Rightarrow> producer_token \<Rightarrow> 'a list \<Rightarrow> 'a token_queue \<Rightarrow> (bool \<times> 'a token_queue) option" where
  "token_try_enqueue_bulk = token_inner_enqueue_bulk False"

definition try_dequeue_from_producer :: "producer_token \<Rightarrow> 'a token_queue \<Rightarrow> ('a option \<times> 'a token_queue) option" where
  "try_dequeue_from_producer = on_token explicit_dequeue"

definition try_dequeue_bulk_from_producer :: "u64 \<Rightarrow> producer_token \<Rightarrow> 'a token_queue \<Rightarrow> ('a list \<times> 'a token_queue) option" where
  "try_dequeue_bulk_from_producer m = on_token (explicit_dequeue_bulk m)"

section \<open>Tokens of consumers\<close>

definition make_consumer_token :: "'a token_queue \<Rightarrow> consumer_token \<times> 'a token_queue" where
  "make_consumer_token Q =
     (\<lparr>initialOffset = nextExplicitConsumerId Q, lastKnownGlobalOffset = - 1, itemsConsumedFromCurrent = 0,
       currentProducer = None, desiredProducer = None\<rparr>, Q\<lparr>nextExplicitConsumerId := nextExplicitConsumerId Q + 1\<rparr>)"

text \<open>\<open>n\<close> steps along the producers; a step from a null pointer is a fault.\<close>

fun walk_producers :: "nat \<Rightarrow> 'a token_queue \<Rightarrow> nat option \<Rightarrow> nat option option" where
  "walk_producers 0 Q r = Some r"
| "walk_producers (Suc n) Q r = (case r of None \<Rightarrow> None | Some r \<Rightarrow> walk_producers n Q (next_or_tail r Q))"

definition update_current_producer_after_rotation :: "consumer_token \<Rightarrow> 'a token_queue \<Rightarrow> (bool \<times> consumer_token) option" where
  "update_current_producer_after_rotation t Q =
     (let tail = producer_tail Q in
      if desiredProducer t = None \<and> tail = None then Some (False, t)
      else let prodCount = t_producerCount Q; globalOffset = globalExplicitConsumerOffset Q in
        if prodCount = 0 then None
        else case (if desiredProducer t = None
                   then walk_producers (unat (prodCount - 1 - initialOffset t mod prodCount)) Q tail
                   else Some (desiredProducer t)) of
            None \<Rightarrow> None
          | Some desired \<Rightarrow>
              (let delta = globalOffset - lastKnownGlobalOffset t; delta = (if prodCount \<le> delta then delta mod prodCount else delta) in
               map_option (\<lambda>desired. (True, t\<lparr>desiredProducer := desired, lastKnownGlobalOffset := globalOffset,
                   currentProducer := desired, itemsConsumedFromCurrent := 0\<rparr>))
                 (walk_producers (unat delta) Q desired)))"

definition after_rotation :: "consumer_token \<Rightarrow> 'a token_queue \<Rightarrow> (bool \<times> consumer_token) option" where
  "after_rotation t Q =
     (if desiredProducer t = None \<or> lastKnownGlobalOffset t \<noteq> globalExplicitConsumerOffset Q
      then update_current_producer_after_rotation t Q else Some (True, t))"

text \<open>The others, from \<open>r\<close> on, until the current producer comes round again.\<close>

partial_function (option) search_producers :: "nat \<Rightarrow> nat \<Rightarrow> 'a token_queue \<Rightarrow> (('a \<times> nat) option \<times> 'a token_queue) option" where
  "search_producers current r Q =
     (if r = current then Some (None, Q)
      else (case on_producer any_dequeue r Q of
          None \<Rightarrow> None
        | Some (Some x, Q) \<Rightarrow> Some (Some (x, r), Q)
        | Some (None, Q) \<Rightarrow> (case next_or_tail r Q of None \<Rightarrow> None | Some s \<Rightarrow> search_producers current s Q)))"

definition rotate_everyone :: "'a token_queue \<Rightarrow> 'a token_queue" where
  "rotate_everyone Q = Q\<lparr>globalExplicitConsumerOffset := globalExplicitConsumerOffset Q + 1\<rparr>"

definition token_try_dequeue :: "consumer_token \<Rightarrow> 'a token_queue \<Rightarrow> ('a option \<times> consumer_token \<times> 'a token_queue) option" where
  "token_try_dequeue t Q =
     (case after_rotation t Q of
        None \<Rightarrow> None
      | Some (False, t) \<Rightarrow> Some (None, t, Q)
      | Some (True, t) \<Rightarrow>
          (case currentProducer t of
             None \<Rightarrow> None
           | Some c \<Rightarrow>
               (case on_producer any_dequeue c Q of
                  None \<Rightarrow> None
                | Some (Some x, Q) \<Rightarrow>
                    (let t = t\<lparr>itemsConsumedFromCurrent := itemsConsumedFromCurrent t + 1\<rparr> in
                     Some (Some x, t,
                       if itemsConsumedFromCurrent t = EXPLICIT_CONSUMER_CONSUMPTION_QUOTA_BEFORE_ROTATE then rotate_everyone Q else Q))
                | Some (None, Q) \<Rightarrow>
                    (case next_or_tail c Q of
                       None \<Rightarrow> None
                     | Some r \<Rightarrow>
                         map_option (\<lambda>(f, Q). case f of
                             None \<Rightarrow> (None, t, Q)
                           | Some (x, s) \<Rightarrow> (Some x, t\<lparr>currentProducer := Some s, itemsConsumedFromCurrent := 1\<rparr>, Q))
                           (search_producers c r Q)))))"

text \<open>The bulk operation compares with the producer the token is at now, which is the last one that
  delivered something.\<close>

partial_function (option) search_producers_bulk ::
  "u64 \<Rightarrow> nat \<Rightarrow> consumer_token \<Rightarrow> 'a token_queue \<Rightarrow> ('a list \<times> consumer_token \<times> 'a token_queue) option" where
  "search_producers_bulk m r t Q =
     (if currentProducer t = Some r then Some ([], t, Q)
      else (case on_producer (any_dequeue_bulk m) r Q of
          None \<Rightarrow> None
        | Some (xs, Q) \<Rightarrow>
            (let dequeued = of_nat (length xs);
                 t = (if dequeued \<noteq> 0 then t\<lparr>currentProducer := Some r, itemsConsumedFromCurrent := ucast dequeued\<rparr> else t) in
             if dequeued = m then Some (xs, t, Q)
             else (case next_or_tail r Q of
                 None \<Rightarrow> None
               | Some s \<Rightarrow> Option.bind (search_producers_bulk (m - dequeued) s t Q) (\<lambda>(ys, t, Q). Some (xs @ ys, t, Q))))))"

definition token_try_dequeue_bulk :: "u64 \<Rightarrow> consumer_token \<Rightarrow> 'a token_queue \<Rightarrow> ('a list \<times> consumer_token \<times> 'a token_queue) option" where
  "token_try_dequeue_bulk m t Q =
     (case after_rotation t Q of
        None \<Rightarrow> None
      | Some (False, t) \<Rightarrow> Some ([], t, Q)
      | Some (True, t) \<Rightarrow>
          (case currentProducer t of
             None \<Rightarrow> None
           | Some c \<Rightarrow>
               (case on_producer (any_dequeue_bulk m) c Q of
                  None \<Rightarrow> None
                | Some (xs, Q) \<Rightarrow>
                    (let count = of_nat (length xs); t = t\<lparr>itemsConsumedFromCurrent := itemsConsumedFromCurrent t + ucast count\<rparr> in
                     if count = m
                     then Some (xs, t,
                       if EXPLICIT_CONSUMER_CONSUMPTION_QUOTA_BEFORE_ROTATE \<le> itemsConsumedFromCurrent t then rotate_everyone Q else Q)
                     else (case next_or_tail c Q of
                         None \<Rightarrow> None
                       | Some r \<Rightarrow> map_option (\<lambda>(ys, t, Q). (xs @ ys, t, Q)) (search_producers_bulk (m - count) r t Q))))))"

definition token_size_approx :: "'a token_queue \<Rightarrow> u64" where
  "token_size_approx Q = fold (\<lambda>r size. size + any_size_approx (t_prods Q ! r)) (rev [0..<length (t_prods Q)]) 0"

end
