(* ===== verification/Token_Refinement.thy ===== *)
theory Token_Refinement
  imports Token_Queue
begin

text \<open>
  The queue with tokens is one list per producer. Enqueueing with a token appends to the list of the
  token's producer; a consumer goes round the producers and misses no element.
\<close>

section \<open>Representation\<close>

definition any_rep :: "'a pool \<Rightarrow> any_producer \<Rightarrow> nat list \<Rightarrow> 'a list \<Rightarrow> bool" where
  "any_rep q a rs xs \<longleftrightarrow> (case a of Implicit p \<Rightarrow> prod_rep q p rs xs | Explicit p \<Rightarrow> \<exists>F h. x_rep q p F h rs xs 0)"

definition members_rep :: "'a pool \<Rightarrow> any_producer list \<Rightarrow> nat list list \<Rightarrow> 'a list list \<Rightarrow> bool" where
  "members_rep q as rss xss \<longleftrightarrow> length rss = length as \<and> length xss = length as \<and> pool_ok q (used_blocks rss) \<and>
     (\<forall>r < length as. any_rep q (as ! r) (rss ! r) (xss ! r)) \<and>
     (\<forall>r < length as. \<forall>s < length as. r \<noteq> s \<longrightarrow> set (rss ! r) \<inter> set (rss ! s) = {})"

definition token_rep :: "'a token_queue \<Rightarrow> 'a list list \<Rightarrow> bool" where
  "token_rep Q xss \<longleftrightarrow> (\<exists>rss. members_rep (t_pool Q) (t_prods Q) rss xss) \<and> length (t_inactive Q) = length (t_prods Q) \<and>
     unat (t_producerCount Q) = length (t_prods Q)"

lemma token_rep_length: "token_rep Q xss \<Longrightarrow> length xss = length (t_prods Q)"
  by (auto simp: token_rep_def members_rep_def)

lemma any_rep_frame: "any_rep q a rs xs \<Longrightarrow> (\<And>v. v \<in> set rs \<Longrightarrow> blocks q' v = blocks q v) \<Longrightarrow> any_rep q' a rs xs"
  unfolding any_rep_def by (cases a) (auto intro: prod_rep_frame x_rep_frame)

text \<open>A producer changes within its own blocks and fresh ones.\<close>

definition any_changed :: "'a pool \<Rightarrow> nat list \<Rightarrow> 'a list \<Rightarrow> nat set \<Rightarrow> 'a pool \<Rightarrow> any_producer \<Rightarrow> bool" where
  "any_changed q rs xs U q' a' \<longleftrightarrow> (\<exists>rs'. any_rep q' a' rs' xs \<and> pool_ok q' ((U - set rs) \<union> set rs') \<and> set rs' \<inter> (U - set rs) = {} \<and>
     (\<forall>v \<in> U - set rs. blocks q' v = blocks q v))"

lemma any_changedI:
  "any_rep q' a' rs' xs \<Longrightarrow> pool_ok q' ((U - set rs) \<union> set rs') \<Longrightarrow> set rs' \<inter> (U - set rs) = {} \<Longrightarrow>
   (\<And>v. v \<in> U \<Longrightarrow> v \<notin> set rs \<Longrightarrow> blocks q' v = blocks q v) \<Longrightarrow> any_changed q rs xs U q' a'"
  unfolding any_changed_def by blast

lemma any_changed_same:
  assumes "any_rep q a rs xs" "pool_ok q U" "set rs \<subseteq> U"
  shows "any_changed q rs xs U q a"
proof (rule any_changedI [OF assms(1)])
  have "(U - set rs) \<union> set rs = U" using assms(3) by auto
  then show "pool_ok q ((U - set rs) \<union> set rs)" using assms(2) by simp
qed auto

lemma any_changed_implicit:
  assumes "prod_rep q' p' rs' xs" "set rs' \<subseteq> set rs" "pool_ok q' (U - (set rs - set rs'))" "\<forall>u \<in> U - set rs. blocks q' u = blocks q u" "set rs \<subseteq> U"
  shows "any_changed q rs xs U q' (Implicit p')"
proof (rule any_changedI [of _ _ rs'])
  have "(U - set rs) \<union> set rs' = U - (set rs - set rs')" using assms(2,5) by auto
  then show "pool_ok q' ((U - set rs) \<union> set rs')" using assms(3) by simp
qed (use assms in \<open>auto simp: any_rep_def\<close>)

lemma any_changed_explicit:
  assumes "x_rep q' p' F h rs xs 0" "\<forall>v. v \<notin> set rs \<longrightarrow> blocks q' v = blocks q v" "\<forall>U. set rs \<subseteq> U \<longrightarrow> pool_ok q U \<longrightarrow> pool_ok q' U"
    "pool_ok q U" "set rs \<subseteq> U"
  shows "any_changed q rs xs U q' (Explicit p')"
proof (rule any_changedI [of _ _ rs])
  have "(U - set rs) \<union> set rs = U" using assms(5) by auto
  then show "pool_ok q' ((U - set rs) \<union> set rs)" using assms(3-5) by simp
  show "any_rep q' (Explicit p') rs xs" using assms(1) by (auto simp: any_rep_def)
qed (use assms in auto)

lemma any_dequeue_correct:
  assumes r: "any_rep q a rs xs" and ok: "pool_ok q U" "set rs \<subseteq> U"
  shows "case xs of [] \<Rightarrow> any_dequeue q a = Some (None, q, a)
    | x # ys \<Rightarrow> \<exists>q' a'. any_dequeue q a = Some (Some x, q', a') \<and> any_changed q rs ys U q' a'"
proof (cases a)
  case (Implicit p)
  then have "prod_rep q p rs xs" using r by (simp add: any_rep_def)
  note d = prod_dequeue [OF this ok]
  show ?thesis
  proof (cases xs)
    case (Cons x ys)
    obtain q' p' rs' where e: "producer_dequeue (q, p) = Some (Some x, q', p')" "prod_rep q' p' rs' ys" "set rs' \<subseteq> set rs"
      "pool_ok q' (U - (set rs - set rs'))" "\<forall>u \<in> U - set rs. blocks q' u = blocks q u"
      using d unfolding Cons list.case by (elim exE conjE) (rule that)
    show ?thesis using any_changed_implicit [OF e(2-5) ok(2)] e(1) by (simp add: Cons Implicit exI)
  qed (use d Implicit in simp)
next
  case (Explicit p)
  then obtain F h where x: "x_rep q p F h rs xs 0" using r by (auto simp: any_rep_def)
  note d = explicit_dequeue_correct [OF x]
  show ?thesis
  proof (cases xs)
    case (Cons x ys)
    obtain q' p' where e: "explicit_dequeue (q, p) = Some (Some x, q', p')" "x_rep q' p' F (h + 1) rs ys 0"
      "\<forall>v. v \<notin> set rs \<longrightarrow> blocks q' v = blocks q v" "\<forall>U. set rs \<subseteq> U \<longrightarrow> pool_ok q U \<longrightarrow> pool_ok q' U"
      using d unfolding Cons list.case by (elim exE conjE) (rule that)
    show ?thesis using any_changed_explicit [OF e(2-4) ok] e(1) by (simp add: Cons Explicit exI)
  qed (use d Explicit in simp)
qed

lemma any_dequeue_bulk_correct:
  assumes r: "any_rep q a rs xs" and ok: "pool_ok q U" "set rs \<subseteq> U"
  shows "\<exists>q' a'. any_dequeue_bulk m q a = Some (take (unat m) xs, q', a') \<and> any_changed q rs (drop (unat m) xs) U q' a'"
proof (cases a)
  case (Implicit p)
  then have "prod_rep q p rs xs" using r by (simp add: any_rep_def)
  from prod_dequeue_bulk [OF this ok, of m] obtain q' p' rs' where
    e: "producer_dequeue_bulk m (q, p) = Some (take (unat m) xs, q', p')" "prod_rep q' p' rs' (drop (unat m) xs)" "set rs' \<subseteq> set rs"
      "pool_ok q' (U - (set rs - set rs'))" "\<forall>u \<in> U - set rs. blocks q' u = blocks q u" by (elim exE conjE) (rule that)
  show ?thesis using any_changed_implicit [OF e(2-5) ok(2)] e(1) by (simp add: Implicit exI)
next
  case (Explicit p)
  then obtain F h where x: "x_rep q p F h rs xs 0" using r by (auto simp: any_rep_def)
  obtain q' p' h' where e: "explicit_dequeue_bulk m (q, p) = Some (take (unat m) xs, q', p')" "x_rep q' p' F h' rs (drop (unat m) xs) 0"
    "\<forall>v. v \<notin> set rs \<longrightarrow> blocks q' v = blocks q v" "\<forall>U. set rs \<subseteq> U \<longrightarrow> pool_ok q U \<longrightarrow> pool_ok q' U"
    using explicit_dequeue_bulk_correct [OF x, of m] by (elim exE conjE) (rule that)
  show ?thesis using any_changed_explicit [OF e(2-4) ok] e(1) by (simp add: Explicit exI)
qed

lemma any_size_correct: "any_rep q a rs xs \<Longrightarrow> unat (any_size_approx a) = length xs"
  unfolding any_rep_def by (cases a) (auto intro: prod_size explicit_size_correct)

section \<open>Calls on one producer\<close>

definition same_list :: "'a token_queue \<Rightarrow> 'a token_queue \<Rightarrow> bool" where
  "same_list Q' Q \<longleftrightarrow> map is_explicit (t_prods Q') = map is_explicit (t_prods Q) \<and> t_inactive Q' = t_inactive Q \<and> t_producerCount Q' = t_producerCount Q \<and>
     nextExplicitConsumerId Q' = nextExplicitConsumerId Q \<and> globalExplicitConsumerOffset Q' = globalExplicitConsumerOffset Q"

lemma same_list_refl [simp]: "same_list Q Q"
  by (simp add: same_list_def)

lemma same_list_trans: "same_list Q2 Q1 \<Longrightarrow> same_list Q1 Q \<Longrightarrow> same_list Q2 Q"
  by (simp add: same_list_def)

lemma same_list_length: "same_list Q' Q \<Longrightarrow> length (t_prods Q') = length (t_prods Q)"
  unfolding same_list_def by (metis length_map)

lemma same_list_next: "same_list Q' Q \<Longrightarrow> next_or_tail r Q' = next_or_tail r Q"
  using same_list_length [of Q' Q] unfolding next_or_tail_def producer_tail_def by (auto split: option.split)

lemma same_list_update:
  "is_explicit a = is_explicit (t_prods Q ! r) \<Longrightarrow> same_list (Q\<lparr>t_pool := q, t_prods := (t_prods Q)[r := a]\<rparr>) Q"
  by (simp add: same_list_def map_update) (metis list_update_id map_update)

lemma any_dequeue_kind: "any_dequeue q a = Some (f, q', a') \<Longrightarrow> is_explicit a' = is_explicit a"
  by (cases a) auto

lemma any_dequeue_bulk_kind: "any_dequeue_bulk m q a = Some (f, q', a') \<Longrightarrow> is_explicit a' = is_explicit a"
  by (cases a) auto

lemma token_rep_update:
  assumes t: "token_rep Q xss" and r: "r < length xss"
    and c: "\<And>q rs U. q = t_pool Q \<Longrightarrow> any_rep q (t_prods Q ! r) rs (xss ! r) \<Longrightarrow> pool_ok q U \<Longrightarrow> set rs \<subseteq> U \<Longrightarrow> any_changed q rs ys U q' a'"
  shows "token_rep (Q\<lparr>t_pool := q', t_prods := (t_prods Q)[r := a']\<rparr>) (xss[r := ys])"
proof -
  obtain rss where m: "members_rep (t_pool Q) (t_prods Q) rss xss" using t by (auto simp: token_rep_def)
  then have len: "length rss = length (t_prods Q)" "length xss = length (t_prods Q)" and pk: "pool_ok (t_pool Q) (used_blocks rss)"
    and each: "\<forall>r < length (t_prods Q). any_rep (t_pool Q) (t_prods Q ! r) (rss ! r) (xss ! r)"
    and di: "\<forall>r < length (t_prods Q). \<forall>s < length (t_prods Q). r \<noteq> s \<longrightarrow> set (rss ! r) \<inter> set (rss ! s) = {}"
    by (simp_all add: members_rep_def)
  let ?U = "used_blocks rss"
  have rl: "r < length rss" using r len by simp
  have "any_changed (t_pool Q) (rss ! r) ys ?U q' a'" by (rule c) (use each r len pk used_blocks_at [OF rl] in auto)
  then obtain rs' where rs': "any_rep q' a' rs' ys" "pool_ok q' ((?U - set (rss ! r)) \<union> set rs')" "set rs' \<inter> (?U - set (rss ! r)) = {}"
    "\<forall>v \<in> ?U - set (rss ! r). blocks q' v = blocks (t_pool Q) v" by (auto simp: any_changed_def)
  have others: "(\<Union>s \<in> {..< length rss} - {r}. set (rss ! s)) = ?U - set (rss ! r)"
    using used_blocks_at [OF rl] di rl len by auto
  have sub: "set (rss ! s) \<subseteq> ?U - set (rss ! r)" if "s < length rss" "s \<noteq> r" for s using others that by blast
  have "any_rep q' ((t_prods Q)[r := a'] ! s) (rss[r := rs'] ! s) (xss[r := ys] ! s)" if s: "s < length (t_prods Q)" for s
  proof (cases "s = r")
    case False
    have "blocks q' v = blocks (t_pool Q) v" if "v \<in> set (rss ! s)" for v using sub [of s] s False len rs'(4) that by auto
    then show ?thesis using False s len any_rep_frame [OF each [rule_format, OF s]] by simp
  qed (use rs'(1) s len in simp)
  moreover have "set (rss[r := rs'] ! s) \<inter> set (rss[r := rs'] ! t) = {}" if st: "s < length (t_prods Q)" "t < length (t_prods Q)" "s \<noteq> t" for s t
  proof -
    consider "s = r" "t \<noteq> r" | "s \<noteq> r" "t = r" | "s \<noteq> r" "t \<noteq> r" using st(3) by blast
    then show ?thesis
    proof cases
      case 1
      then have "set rs' \<inter> set (rss ! t) = {}" using sub [of t] st(2) rs'(3) len by auto
      then show ?thesis using 1 st len by simp
    next
      case 2
      then have "set (rss ! s) \<inter> set rs' = {}" using sub [of s] st(1) rs'(3) len by auto
      then show ?thesis using 2 st len by simp
    next
      case 3
      then show ?thesis using di st len by simp
    qed
  qed
  moreover have "pool_ok q' (used_blocks (rss[r := rs']))"
    using rs'(2) used_blocks_update [OF rl, of rs'] others by (simp add: Un_commute)
  ultimately have "members_rep q' ((t_prods Q)[r := a']) (rss[r := rs']) (xss[r := ys])" using len by (simp add: members_rep_def)
  then show ?thesis using t by (auto simp: token_rep_def)
qed

lemma token_rep_any:
  assumes "token_rep Q xss" "r < length xss"
  shows "\<exists>rs U. any_rep (t_pool Q) (t_prods Q ! r) rs (xss ! r) \<and> pool_ok (t_pool Q) U \<and> set rs \<subseteq> U"
proof -
  obtain rss where m: "members_rep (t_pool Q) (t_prods Q) rss xss" using assms(1) by (auto simp: token_rep_def)
  then have "r < length rss" using assms(2) by (simp add: members_rep_def)
  then show ?thesis using m assms(2) used_blocks_at [of r rss] unfolding members_rep_def by (metis Un_upper1)
qed

lemma any_dequeue_at:
  assumes t: "token_rep Q xss" and r: "r < length xss"
  shows "case xss ! r of [] \<Rightarrow> on_producer any_dequeue r Q = Some (None, Q)
    | x # ys \<Rightarrow> \<exists>Q'. on_producer any_dequeue r Q = Some (Some x, Q') \<and> token_rep Q' (xss[r := ys]) \<and> same_list Q' Q"
proof -
  obtain rs U where a: "any_rep (t_pool Q) (t_prods Q ! r) rs (xss ! r)" "pool_ok (t_pool Q) U" "set rs \<subseteq> U" using token_rep_any [OF assms] by blast
  have rl: "\<not> length (t_prods Q) \<le> r" using r token_rep_length [OF t] by simp
  show ?thesis
  proof (cases "xss ! r")
    case Nil
    then show ?thesis using any_dequeue_correct [OF a] rl by (simp add: on_producer_def)
  next
    case (Cons x ys)
    obtain q' a' where e: "any_dequeue (t_pool Q) (t_prods Q ! r) = Some (Some x, q', a')"
      using any_dequeue_correct [OF a] unfolding Cons list.case by blast
    let ?Q = "Q\<lparr>t_pool := q', t_prods := (t_prods Q)[r := a']\<rparr>"
    have "token_rep ?Q (xss[r := ys])"
    proof (rule token_rep_update [OF t r])
      fix q rs U assume q: "q = t_pool Q" "any_rep q (t_prods Q ! r) rs (xss ! r)" "pool_ok q U" "set rs \<subseteq> U"
      obtain q2 a2 where "any_dequeue q (t_prods Q ! r) = Some (Some x, q2, a2)" "any_changed q rs ys U q2 a2"
        using any_dequeue_correct [OF q(2-4)] unfolding Cons list.case by blast
      then show "any_changed q rs ys U q' a'" using e q(1) by simp
    qed
    then show ?thesis using e rl Cons same_list_update [OF any_dequeue_kind [OF e]] by (simp add: on_producer_def)
  qed
qed

lemma any_dequeue_bulk_at:
  assumes t: "token_rep Q xss" and r: "r < length xss"
  shows "\<exists>Q'. on_producer (any_dequeue_bulk m) r Q = Some (take (unat m) (xss ! r), Q') \<and>
    token_rep Q' (xss[r := drop (unat m) (xss ! r)]) \<and> same_list Q' Q"
proof -
  obtain rs U where a: "any_rep (t_pool Q) (t_prods Q ! r) rs (xss ! r)" "pool_ok (t_pool Q) U" "set rs \<subseteq> U" using token_rep_any [OF assms] by blast
  have rl: "\<not> length (t_prods Q) \<le> r" using r token_rep_length [OF t] by simp
  obtain q' a' where e: "any_dequeue_bulk m (t_pool Q) (t_prods Q ! r) = Some (take (unat m) (xss ! r), q', a')"
    using any_dequeue_bulk_correct [OF a, of m] by blast
  let ?Q = "Q\<lparr>t_pool := q', t_prods := (t_prods Q)[r := a']\<rparr>"
  have "token_rep ?Q (xss[r := drop (unat m) (xss ! r)])"
  proof (rule token_rep_update [OF t r])
    fix q rs U assume q: "q = t_pool Q" "any_rep q (t_prods Q ! r) rs (xss ! r)" "pool_ok q U" "set rs \<subseteq> U"
    obtain q2 a2 where "any_dequeue_bulk m q (t_prods Q ! r) = Some (take (unat m) (xss ! r), q2, a2)"
      "any_changed q rs (drop (unat m) (xss ! r)) U q2 a2" using any_dequeue_bulk_correct [OF q(2-4), of m] by blast
    then show "any_changed q rs (drop (unat m) (xss ! r)) U q' a'" using e q(1) by simp
  qed
  then show ?thesis using e rl same_list_update [OF any_dequeue_bulk_kind [OF e]] by (simp add: on_producer_def)
qed

section \<open>Going round\<close>

text \<open>How many steps from \<open>r\<close> to \<open>c\<close>.\<close>

definition steps_to :: "nat \<Rightarrow> nat \<Rightarrow> nat \<Rightarrow> nat" where
  "steps_to n c r = (if c \<le> r then r - c else r + n - c)"

definition next_index :: "nat \<Rightarrow> nat \<Rightarrow> nat" where
  "next_index n r = (if r = 0 then n - 1 else r - 1)"

lemma next_index_less: "r < n \<Longrightarrow> next_index n r < n"
  by (simp add: next_index_def less_imp_diff_less)

lemma next_step: "r < length (t_prods Q) \<Longrightarrow> next_or_tail r Q = Some (next_index (length (t_prods Q)) r)"
  by (auto simp: next_or_tail_def next_prod_def producer_tail_def next_index_def split: nat.split)

lemma steps_to_next:
  assumes "r < n" "c < n"
  shows "r \<noteq> c \<Longrightarrow> Suc (steps_to n c (next_index n r)) = steps_to n c r" "steps_to n r (next_index n r) = n - 1"
  using assms by (auto simp: steps_to_def next_index_def)

lemma steps_to_bound: "s < n \<Longrightarrow> c < n \<Longrightarrow> steps_to n c s \<le> n - 1" "s < n \<Longrightarrow> c < n \<Longrightarrow> steps_to n c s = 0 \<longleftrightarrow> s = c"
  by (auto simp: steps_to_def)

lemma steps_to_inj: "r < n \<Longrightarrow> s < n \<Longrightarrow> c < n \<Longrightarrow> steps_to n c r = steps_to n c s \<Longrightarrow> r = s"
  by (auto simp: steps_to_def split: if_splits)

lemma walk_stays:
  "r < length (t_prods Q) \<Longrightarrow> \<exists>s < length (t_prods Q). walk_producers k Q (Some r) = Some (Some s)"
proof (induction k arbitrary: r)
  case (Suc k)
  show ?case using Suc.IH [OF next_index_less [OF Suc.prems]] next_step [OF Suc.prems] by simp
qed simp

text \<open>Everything from \<open>r\<close> up to the current producer is tried.\<close>

lemma search_producers_correct:
  assumes t: "token_rep Q xss" and c: "c < length xss" and r: "r < length xss"
  shows "\<exists>f Q'. search_producers c r Q = Some (f, Q') \<and> same_list Q' Q \<and>
    (case f of
       None \<Rightarrow> Q' = Q \<and> (\<forall>s < length xss. s \<noteq> c \<longrightarrow> steps_to (length xss) c s \<le> steps_to (length xss) c r \<longrightarrow> xss ! s = [])
     | Some (x, s) \<Rightarrow> s < length xss \<and> (\<exists>ys. xss ! s = x # ys \<and> token_rep Q' (xss[s := ys])))"
  using r
proof (induction "steps_to (length xss) c r" arbitrary: r rule: less_induct)
  case less
  let ?n = "length xss"
  have n: "?n = length (t_prods Q)" by (rule token_rep_length [OF t])
  show ?case
  proof (cases "r = c")
    case True
    then have "search_producers c r Q = Some (None, Q)" by (subst search_producers.simps) simp
    moreover have "\<forall>s < ?n. s \<noteq> c \<longrightarrow> steps_to ?n c s \<le> steps_to ?n c r \<longrightarrow> xss ! s = []"
      using steps_to_bound(2) [OF _ c] True c by (metis le_zero_eq)
    ultimately show ?thesis by simp
  next
    case False
    note d = any_dequeue_at [OF t less.prems]
    show ?thesis
    proof (cases "xss ! r")
      case (Cons x ys)
      obtain Q' where e: "on_producer any_dequeue r Q = Some (Some x, Q')" "token_rep Q' (xss[r := ys])" "same_list Q' Q"
        using d unfolding Cons list.case by blast
      have "search_producers c r Q = Some (Some (x, r), Q')" using False e(1) by (subst search_producers.simps) simp
      then show ?thesis using e Cons less.prems by simp
    next
      case Nil
      let ?s = "next_index ?n r"
      have s: "next_or_tail r Q = Some ?s" "?s < ?n" using next_step [of r Q] next_index_less less.prems n by simp_all
      have st: "Suc (steps_to ?n c ?s) = steps_to ?n c r" by (rule steps_to_next(1) [OF less.prems c False])
      have "search_producers c r Q = search_producers c ?s Q" using False d Nil s(1) by (subst search_producers.simps) simp
      moreover obtain f Q' where f: "search_producers c ?s Q = Some (f, Q')" "same_list Q' Q"
        "case f of
           None \<Rightarrow> Q' = Q \<and> (\<forall>v < ?n. v \<noteq> c \<longrightarrow> steps_to ?n c v \<le> steps_to ?n c ?s \<longrightarrow> xss ! v = [])
         | Some (x, v) \<Rightarrow> v < ?n \<and> (\<exists>ys. xss ! v = x # ys \<and> token_rep Q' (xss[v := ys]))"
      proof -
        have "steps_to ?n c ?s < steps_to ?n c r" using st by simp
        from less.hyps [OF this s(2)] show ?thesis by (elim exE conjE) (rule that)
      qed
      moreover have "xss ! v = []" if "f = None" "v < ?n" "v \<noteq> c" "steps_to ?n c v \<le> steps_to ?n c r" for v
      proof (cases "steps_to ?n c v = steps_to ?n c r")
        case True
        then show ?thesis using steps_to_inj [OF that(2) less.prems c] Nil by simp
      next
        case False
        then show ?thesis using f(3) that st by simp
      qed
      ultimately show ?thesis by (intro exI [of _ f] exI [of _ Q']) (auto split: option.splits)
    qed
  qed
qed

section \<open>Where a consumer is\<close>

definition token_valid :: "consumer_token \<Rightarrow> nat \<Rightarrow> bool" where
  "token_valid t n \<longleftrightarrow> (\<forall>d. desiredProducer t = Some d \<longrightarrow> d < n \<and> (\<exists>c < n. currentProducer t = Some c))"

lemma make_consumer_token_valid: "token_valid (fst (make_consumer_token Q)) n"
  by (simp add: token_valid_def make_consumer_token_def)

lemma after_rotation_correct:
  assumes t: "token_rep Q xss" and v: "token_valid t (length xss)"
  shows "(xss = [] \<and> desiredProducer t = None \<and> after_rotation t Q = Some (False, t)) \<or>
    (\<exists>t' c. after_rotation t Q = Some (True, t') \<and> c < length xss \<and> currentProducer t' = Some c \<and> desiredProducer t' \<noteq> None \<and> token_valid t' (length xss))"
proof -
  let ?n = "length xss"
  have n: "?n = length (t_prods Q)" by (rule token_rep_length [OF t])
  have cnt: "unat (t_producerCount Q) = ?n" using t n by (simp add: token_rep_def)
  show ?thesis
  proof (cases "desiredProducer t = None \<or> lastKnownGlobalOffset t \<noteq> globalExplicitConsumerOffset Q")
    case False
    then show ?thesis using v by (auto simp: after_rotation_def token_valid_def)
  next
    case True
    then have a: "after_rotation t Q = update_current_producer_after_rotation t Q" by (simp add: after_rotation_def)
    show ?thesis
    proof (cases "desiredProducer t = None \<and> xss = []")
      case True
      then have "producer_tail Q = None" using n by (simp add: producer_tail_def)
      then show ?thesis using True a by (simp add: update_current_producer_after_rotation_def Let_def)
    next
      case False
      then have pos: "0 < ?n" using v by (cases "desiredProducer t") (auto simp: token_valid_def)
      have cz: "t_producerCount Q \<noteq> 0" using cnt pos by auto
      have tl: "producer_tail Q = Some (?n - 1)" "?n - 1 < length (t_prods Q)" using pos n by (auto simp: producer_tail_def)
      obtain d where d: "(if desiredProducer t = None
          then walk_producers (unat (t_producerCount Q - 1 - initialOffset t mod t_producerCount Q)) Q (producer_tail Q)
          else Some (desiredProducer t)) = Some (Some d)" "d < length (t_prods Q)"
        using walk_stays [OF tl(2)] v n unfolding tl(1) token_valid_def by (cases "desiredProducer t") auto
      let ?delta = "let delta = globalExplicitConsumerOffset Q - lastKnownGlobalOffset t in
        if t_producerCount Q \<le> delta then delta mod t_producerCount Q else delta"
      obtain s where s: "s < length (t_prods Q)" "walk_producers (unat ?delta) Q (Some d) = Some (Some s)" using walk_stays [OF d(2)] by blast
      have nn: "\<not> (desiredProducer t = None \<and> producer_tail Q = None)" using tl(1) by simp
      have "update_current_producer_after_rotation t Q = Some (True, t\<lparr>desiredProducer := Some s,
          lastKnownGlobalOffset := globalExplicitConsumerOffset Q, currentProducer := Some s, itemsConsumedFromCurrent := 0\<rparr>)"
        using nn cz d(1) s(2) unfolding update_current_producer_after_rotation_def Let_def by (simp only: if_False option.case option.map)
      then show ?thesis using s(1) n unfolding a by (simp add: token_valid_def)
    qed
  qed
qed

text \<open>What a consumer leaves as it is: the producers, their kinds and which of them have a token.\<close>

definition same_producers :: "'a token_queue \<Rightarrow> 'a token_queue \<Rightarrow> bool" where
  "same_producers Q' Q \<longleftrightarrow> map is_explicit (t_prods Q') = map is_explicit (t_prods Q) \<and> t_inactive Q' = t_inactive Q"

lemma same_list_producers: "same_list Q' Q \<Longrightarrow> same_producers Q' Q" "same_list Q' Q \<Longrightarrow> same_producers (rotate_everyone Q') Q"
  by (simp_all add: same_list_def same_producers_def rotate_everyone_def)

lemma same_list_rotate [simp]:
  "token_rep (rotate_everyone Q) xss = token_rep Q xss" "length (t_prods (rotate_everyone Q)) = length (t_prods Q)"
  by (simp_all add: rotate_everyone_def token_rep_def)

section \<open>Dequeueing\<close>

lemma token_try_dequeue_correct:
  assumes t: "token_rep Q xss" and v: "token_valid t (length xss)"
  shows "\<exists>f t' Q'. token_try_dequeue t Q = Some (f, t', Q') \<and> token_valid t' (length xss) \<and> same_producers Q' Q \<and>
    (case f of None \<Rightarrow> token_rep Q' xss \<and> concat xss = []
     | Some x \<Rightarrow> \<exists>r ys. r < length xss \<and> xss ! r = x # ys \<and> token_rep Q' (xss[r := ys]) \<and> currentProducer t' = Some r)"
  using after_rotation_correct [OF t v]
proof (elim disjE exE conjE)
  assume "xss = []" "after_rotation t Q = Some (False, t)"
  then show ?thesis using t v by (simp add: token_try_dequeue_def same_list_producers)
next
  fix t1 c assume a: "after_rotation t Q = Some (True, t1)" "c < length xss" "currentProducer t1 = Some c" "desiredProducer t1 \<noteq> None"
    "token_valid t1 (length xss)"
  let ?n = "length xss"
  note d = any_dequeue_at [OF t a(2)]
  have move: "token_valid (t1\<lparr>itemsConsumedFromCurrent := i\<rparr>) ?n" "s < ?n \<Longrightarrow> token_valid (t1\<lparr>currentProducer := Some s, itemsConsumedFromCurrent := i\<rparr>) ?n"
    for i s using a(5) by (simp_all add: token_valid_def)
  show ?thesis
  proof (cases "xss ! c")
    case (Cons x ys)
    obtain Q' where e: "on_producer any_dequeue c Q = Some (Some x, Q')" "token_rep Q' (xss[c := ys])" "same_list Q' Q"
      using d unfolding Cons list.case by blast
    let ?t = "t1\<lparr>itemsConsumedFromCurrent := itemsConsumedFromCurrent t1 + 1\<rparr>"
    let ?Q = "if itemsConsumedFromCurrent ?t = EXPLICIT_CONSUMER_CONSUMPTION_QUOTA_BEFORE_ROTATE then rotate_everyone Q' else Q'"
    have "token_try_dequeue t Q = Some (Some x, ?t, ?Q)"
      using a(1,3) e(1) unfolding token_try_dequeue_def Let_def by (simp only: option.case prod.case bool.case)
    moreover have new: "token_rep ?Q (xss[c := ys])" using e(2) by simp
    moreover have "\<exists>r ys. r < ?n \<and> xss ! r = x # ys \<and> token_rep ?Q (xss[r := ys]) \<and> currentProducer ?t = Some r"
      by (intro exI [of _ c] exI [of _ ys] conjI a(2) Cons new) (simp add: a(3))
    moreover have same: "same_producers ?Q Q" using same_list_producers [OF e(3)] by simp
    ultimately show ?thesis using move(1) same by (intro exI [of _ "Some x"] exI [of _ ?t] exI [of _ ?Q]) (simp only: option.case simp_thms)
  next
    case Nil
    let ?r = "next_index ?n c"
    have r: "next_or_tail c Q = Some ?r" "?r < ?n" using next_step [of c Q] next_index_less a(2) token_rep_length [OF t] by simp_all
    have far: "steps_to ?n c ?r = ?n - 1" by (rule steps_to_next(2) [OF a(2) a(2)])
    obtain f Q' where f: "search_producers c ?r Q = Some (f, Q')" "same_list Q' Q"
      "case f of
         None \<Rightarrow> Q' = Q \<and> (\<forall>s < ?n. s \<noteq> c \<longrightarrow> steps_to ?n c s \<le> steps_to ?n c ?r \<longrightarrow> xss ! s = [])
       | Some (x, s) \<Rightarrow> s < ?n \<and> (\<exists>ys. xss ! s = x # ys \<and> token_rep Q' (xss[s := ys]))"
      using search_producers_correct [OF t a(2) r(2)] by blast
    have e: "token_try_dequeue t Q = Some (case f of None \<Rightarrow> (None, t1, Q')
        | Some (x, s) \<Rightarrow> (Some x, t1\<lparr>currentProducer := Some s, itemsConsumedFromCurrent := 1\<rparr>, Q'))"
      using a(1,3) d Nil r(1) f(1) by (simp add: token_try_dequeue_def)
    show ?thesis
    proof (cases f)
      case None
      have "xss ! s = []" if "s < ?n" for s using f(3) None that Nil far steps_to_bound(1) [OF that a(2)] by (cases "s = c") auto
      then have "concat xss = []" by (auto simp: in_set_conv_nth)
      then show ?thesis using e None f(3) t a(5) by (simp add: same_list_producers)
    next
      case (Some y)
      then show ?thesis using e f(3) move(2) same_list_producers(1) [OF f(2)] by (cases y) auto
    qed
  qed
qed

section \<open>Dequeueing many elements\<close>

text \<open>The elements are taken from the fronts of lists, one list after the other.\<close>

inductive delivers :: "'a list list \<Rightarrow> 'a list \<Rightarrow> 'a list list \<Rightarrow> bool" where
  nothing: "delivers xss [] xss"
| from_front: "r < length xss \<Longrightarrow> delivers (xss[r := drop k (xss ! r)]) ys xss' \<Longrightarrow> delivers xss (take k (xss ! r) @ ys) xss'"

lemma delivers_length: "delivers xss ys xss' \<Longrightarrow> length xss' = length xss"
  by (induction rule: delivers.induct) simp_all

lemma length_concat_update:
  "r < length xss \<Longrightarrow> length (concat (xss[r := ys])) + length (xss ! r) = length (concat xss) + length ys"
  by (induction xss arbitrary: r) (auto simp: nth_Cons split: nat.splits)

lemma delivers_count: "delivers xss ys xss' \<Longrightarrow> length ys + length (concat xss') = length (concat xss)"
proof (induction rule: delivers.induct)
  case (from_front r xss k ys xss')
  then show ?case using length_concat_update [OF from_front.hyps(1), of "drop k (xss ! r)"] by (auto simp: min_def)
qed simp

text \<open>The producers that were passed since the last one that delivered are empty.\<close>

lemma search_bulk_correct:
  assumes "token_rep Q xss" "currentProducer t = Some c" "c < length xss" "r < length xss" "token_valid t (length xss)" "m \<noteq> 0"
    and "\<forall>s < length xss. s = c \<or> steps_to (length xss) c r < steps_to (length xss) c s \<longrightarrow> xss ! s = []"
  shows "\<exists>ys t' Q' xss'. search_producers_bulk m r t Q = Some (ys, t', Q') \<and> delivers xss ys xss' \<and> token_rep Q' xss' \<and>
    token_valid t' (length xss) \<and> same_list Q' Q \<and> length ys \<le> unat m \<and> (length ys = unat m \<or> concat xss' = [])"
  using assms
proof (induction "length (concat xss) * Suc (length xss) + steps_to (length xss) c r" arbitrary: Q xss t c r m rule: less_induct)
  case less
  let ?n = "length xss"
  have n: "?n = length (t_prods Q)" by (rule token_rep_length [OF less.prems(1)])
  show ?case
  proof (cases "r = c")
    case True
    have "xss ! s = []" if "s < ?n" for s using less.prems(3,4,7) that steps_to_bound(2) [OF that less.prems(3)] True
      by (metis gr0I steps_to_bound(2))
    then have "concat xss = []" by (auto simp: in_set_conv_nth)
    moreover have "search_producers_bulk m r t Q = Some ([], t, Q)" using True less.prems(2) by (subst search_producers_bulk.simps) simp
    ultimately show ?thesis using less.prems(1,5) delivers.nothing [of xss] by (intro exI [of _ "[]"] exI [of _ t] exI [of _ Q] exI [of _ xss]) simp
  next
    case False
    let ?xs = "take (unat m) (xss ! r)" and ?xss = "xss[r := drop (unat m) (xss ! r)]"
    obtain Q1 where e: "on_producer (any_dequeue_bulk m) r Q = Some (?xs, Q1)" "token_rep Q1 ?xss" "same_list Q1 Q"
      using any_dequeue_bulk_at [OF less.prems(1,4)] by blast
    let ?k = "of_nat (length ?xs) :: u64"
    have lm: "length ?xs \<le> unat m" by simp
    have u: "unat ?k = length ?xs"
    proof -
      have "length ?xs < 2 ^ 64" using lm unsigned_less [of m, where ?'a = nat] by simp
      then show ?thesis by (simp add: unat_of_nat take_bit_nat_eq_self)
    qed
    let ?t = "if ?k \<noteq> 0 then t\<lparr>currentProducer := Some r, itemsConsumedFromCurrent := ucast ?k\<rparr> else t"
    have cm: "currentProducer t \<noteq> Some r" using False less.prems(2) by simp
    have tv: "token_valid ?t ?n" using less.prems(4,5) by (simp add: token_valid_def)
    let ?s = "next_index ?n r"
    have s: "next_or_tail r Q1 = Some ?s" "?s < ?n"
      using next_step [of r Q] next_index_less less.prems(4) n same_list_next [OF e(3)] by simp_all
    have step: "search_producers_bulk m r t Q = (if ?k = m then Some (?xs, ?t, Q1)
        else Option.bind (search_producers_bulk (m - ?k) ?s ?t Q1) (\<lambda>(ys, t, Q). Some (?xs @ ys, t, Q)))"
      using cm e(1) s(1) by (subst search_producers_bulk.simps) (simp add: Let_def)
    show ?thesis
    proof (cases "?k = m")
      case True
      then have "length ?xs = unat m" using u by simp
      moreover have "delivers xss ?xs ?xss" using delivers.from_front [OF less.prems(4) delivers.nothing, of "unat m"] by simp
      ultimately show ?thesis using step True e(2,3) tv by (intro exI [of _ ?xs] exI [of _ ?t] exI [of _ Q1] exI [of _ ?xss]) simp
    next
      case nm: False
      have "length ?xs \<noteq> unat m" using nm u by (metis word_unat_eq_iff)
      then have all: "length (xss ! r) < unat m" by (simp add: min_def split: if_splits)
      then have xs: "?xs = xss ! r" "drop (unat m) (xss ! r) = []" by simp_all
      let ?c = "if ?k \<noteq> 0 then r else c"
      have k0: "?k = 0 \<longleftrightarrow> xss ! r = []" unfolding unat_eq_zero [symmetric] u unfolding xs(1) by simp
      have cur: "currentProducer ?t = Some ?c" "?c < length ?xss" using less.prems(2-4) by simp_all
      have mk: "m - ?k \<noteq> 0" "unat (m - ?k) = unat m - length (xss ! r)"
      proof -
        have "?k \<le> m" using u lm by (simp add: word_le_nat_alt)
        then show "unat (m - ?k) = unat m - length (xss ! r)" using u xs(1) by (simp add: unat_sub)
        show "m - ?k \<noteq> 0" using nm by simp
      qed
      have inv: "\<forall>v < length ?xss. v = ?c \<or> steps_to (length ?xss) ?c ?s < steps_to (length ?xss) ?c v \<longrightarrow> ?xss ! v = []"
      proof (intro allI impI)
        fix v assume v: "v < length ?xss" "v = ?c \<or> steps_to (length ?xss) ?c ?s < steps_to (length ?xss) ?c v"
        show "?xss ! v = []"
        proof (cases "v = r")
          case True
          then show ?thesis using xs(2) less.prems(4) by simp
        next
          case F: False
          show ?thesis
          proof (cases "?k = 0")
            case True
            have st: "Suc (steps_to ?n c ?s) = steps_to ?n c r" using steps_to_next(1) [OF less.prems(4,3) False] by simp
            have "v = c \<or> steps_to ?n c r < steps_to ?n c v"
              using v True st steps_to_inj [of v ?n r c] F less.prems(3,4) by fastforce
            then have "xss ! v = []" using less.prems(7) v(1) by auto
            then show ?thesis using F by simp
          next
            case F2: False
            then have "steps_to ?n r ?s = ?n - 1" using steps_to_next(2) [OF less.prems(4,4)] by simp
            then show ?thesis using v F F2 steps_to_bound(1) [of v ?n r] less.prems(4) by auto
          qed
        qed
      qed
      have small: "length (concat ?xss) * Suc (length ?xss) + steps_to (length ?xss) ?c ?s < length (concat xss) * Suc ?n + steps_to ?n c r"
      proof (cases "?k = 0")
        case True
        then have "?xss = xss" using k0 xs(2) by (metis list_update_id)
        moreover have "Suc (steps_to ?n c ?s) = steps_to ?n c r" using steps_to_next(1) [OF less.prems(4,3) False] by simp
        ultimately show ?thesis using True by simp
      next
        case F: False
        then have "Suc (length (concat ?xss)) \<le> length (concat xss)"
          using length_concat_update [OF less.prems(4), of "[]"] k0 xs(2) by (cases "xss ! r") simp_all
        then have "Suc (length (concat ?xss)) * Suc ?n \<le> length (concat xss) * Suc ?n" by (rule mult_le_mono1)
        moreover have "steps_to ?n r ?s \<le> ?n" using steps_to_bound(1) [OF s(2) less.prems(4)] by simp
        ultimately show ?thesis using F by simp
      qed
      have sl: "?s < length ?xss" "token_valid ?t (length ?xss)" using s(2) tv by simp_all
      obtain ys t' Q' xss' where r: "search_producers_bulk (m - ?k) ?s ?t Q1 = Some (ys, t', Q')" "delivers ?xss ys xss'" "token_rep Q' xss'"
        "token_valid t' (length ?xss)" "same_list Q' Q1" "length ys \<le> unat (m - ?k)" "length ys = unat (m - ?k) \<or> concat xss' = []"
        using less.hyps [OF small e(2) cur sl mk(1) inv] by (elim exE conjE) (rule that)
      have "delivers xss (?xs @ ys) xss'" using delivers.from_front [OF less.prems(4) r(2)] .
      moreover have "search_producers_bulk m r t Q = Some (?xs @ ys, t', Q')" using step nm r(1) by simp
      moreover have "length (?xs @ ys) \<le> unat m" "length (?xs @ ys) = unat m \<or> concat xss' = []"
        using r(6,7) mk(2) all xs(1) by auto
      ultimately show ?thesis using r(3,4) same_list_trans [OF r(5) e(3)] by (intro exI [of _ "?xs @ ys"] exI [of _ t'] exI [of _ Q'] exI [of _ xss']) simp
    qed
  qed
qed

lemma token_try_dequeue_bulk_correct:
  assumes t: "token_rep Q xss" and v: "token_valid t (length xss)"
  shows "\<exists>ys t' Q' xss'. token_try_dequeue_bulk m t Q = Some (ys, t', Q') \<and> delivers xss ys xss' \<and> token_rep Q' xss' \<and>
    token_valid t' (length xss) \<and> same_producers Q' Q \<and> length ys \<le> unat m \<and> (length ys = unat m \<or> concat xss' = [])"
  using after_rotation_correct [OF t v]
proof (elim disjE exE conjE)
  assume "xss = []" "after_rotation t Q = Some (False, t)"
  then show ?thesis using t v delivers.nothing [of xss]
    by (intro exI [of _ "[]"] exI [of _ t] exI [of _ Q] exI [of _ xss]) (simp add: token_try_dequeue_bulk_def same_list_producers)
next
  fix t1 c assume a: "after_rotation t Q = Some (True, t1)" "c < length xss" "currentProducer t1 = Some c" "desiredProducer t1 \<noteq> None"
    "token_valid t1 (length xss)"
  let ?n = "length xss" and ?xs = "take (unat m) (xss ! c)" and ?xss = "xss[c := drop (unat m) (xss ! c)]"
  obtain Q1 where e: "on_producer (any_dequeue_bulk m) c Q = Some (?xs, Q1)" "token_rep Q1 ?xss" "same_list Q1 Q"
    using any_dequeue_bulk_at [OF t a(2)] by blast
  let ?k = "of_nat (length ?xs) :: u64"
  let ?t = "t1\<lparr>itemsConsumedFromCurrent := itemsConsumedFromCurrent t1 + ucast ?k\<rparr>"
  let ?Q = "if EXPLICIT_CONSUMER_CONSUMPTION_QUOTA_BEFORE_ROTATE \<le> itemsConsumedFromCurrent ?t then rotate_everyone Q1 else Q1"
  let ?s = "next_index ?n c"
  have u: "unat ?k = length ?xs"
  proof -
    have "length ?xs < 2 ^ 64" using unsigned_less [of m, where ?'a = nat] by (simp add: min_def)
    then show ?thesis by (simp add: unat_of_nat take_bit_nat_eq_self)
  qed
  have tv: "token_valid ?t ?n" "currentProducer ?t = Some c" using a(3,5) by (simp_all add: token_valid_def)
  have s: "next_or_tail c Q1 = Some ?s" "?s < ?n"
    using next_step [of c Q] next_index_less a(2) token_rep_length [OF t] same_list_next [OF e(3)] by simp_all
  have step: "token_try_dequeue_bulk m t Q = (if ?k = m then Some (?xs, ?t, ?Q)
      else map_option (\<lambda>(ys, t, Q). (?xs @ ys, t, Q)) (search_producers_bulk (m - ?k) ?s ?t Q1))"
    using a(1,3) e(1) s(1) unfolding token_try_dequeue_bulk_def Let_def by (simp only: option.case prod.case bool.case)
  have del: "delivers xss (?xs @ ys) xss'" if "delivers ?xss ys xss'" for ys xss' using delivers.from_front [OF a(2) that] .
  show ?thesis
  proof (cases "?k = m")
    case True
    then have "length ?xs = unat m" using u by simp
    moreover have "delivers xss ?xs ?xss" using del [OF delivers.nothing] by simp
    moreover have "token_rep ?Q ?xss" "same_producers ?Q Q" using e(2) same_list_producers [OF e(3)] by simp_all
    ultimately show ?thesis using step True tv(1) by (intro exI [of _ ?xs] exI [of _ ?t] exI [of _ ?Q] exI [of _ ?xss]) simp
  next
    case nm: False
    have "length ?xs \<noteq> unat m" using nm u by (metis word_unat_eq_iff)
    then have all: "length (xss ! c) < unat m" by (simp add: min_def split: if_splits)
    then have xs: "?xs = xss ! c" "drop (unat m) (xss ! c) = []" by simp_all
    have mk: "m - ?k \<noteq> 0" "unat (m - ?k) = unat m - length (xss ! c)"
    proof -
      have "?k \<le> m" using u by (simp add: word_le_nat_alt)
      then show "unat (m - ?k) = unat m - length (xss ! c)" using u xs(1) by (simp add: unat_sub)
      show "m - ?k \<noteq> 0" using nm by simp
    qed
    have inv: "\<forall>v < length ?xss. v = c \<or> steps_to (length ?xss) c ?s < steps_to (length ?xss) c v \<longrightarrow> ?xss ! v = []"
    proof (intro allI impI)
      fix v assume v: "v < length ?xss" "v = c \<or> steps_to (length ?xss) c ?s < steps_to (length ?xss) c v"
      then have "v = c" using steps_to_next(2) [OF a(2) a(2)] steps_to_bound(1) [of v ?n c] a(2) by auto
      then show "?xss ! v = []" using xs(2) a(2) by simp
    qed
    have l: "c < length ?xss" "?s < length ?xss" "token_valid ?t (length ?xss)" using a(2) s(2) tv(1) by simp_all
    obtain ys t' Q' xss' where r: "search_producers_bulk (m - ?k) ?s ?t Q1 = Some (ys, t', Q')" "delivers ?xss ys xss'" "token_rep Q' xss'"
      "token_valid t' (length ?xss)" "same_list Q' Q1" "length ys \<le> unat (m - ?k)" "length ys = unat (m - ?k) \<or> concat xss' = []"
      using search_bulk_correct [OF e(2) tv(2) l mk(1) inv] by (elim exE conjE) (rule that)
    have "length (?xs @ ys) \<le> unat m" "length (?xs @ ys) = unat m \<or> concat xss' = []" using r(6,7) mk(2) all xs(1) by auto
    moreover have "token_try_dequeue_bulk m t Q = Some (?xs @ ys, t', Q')" using step nm r(1) by simp
    moreover have "same_producers Q' Q" using same_list_producers(1) [OF same_list_trans [OF r(5) e(3)]] .
    ultimately show ?thesis using r(3,4) del [OF r(2)]
      by (intro exI [of _ "?xs @ ys"] exI [of _ t'] exI [of _ Q'] exI [of _ xss']) simp
  qed
qed

section \<open>Enqueueing\<close>

lemma x_rep_blocks:
  assumes "x_rep q p F h rs xs u" "pool_ok q U" "set rs \<subseteq> U"
  shows "length rs \<le> next_block q"
proof -
  have "distinct rs" using assms(1) by (simp add: x_rep_def x_state_def x_ring_def)
  moreover have "set rs \<subseteq> {..<next_block q}" using assms(2,3) pool_ok_used by blast
  ultimately show ?thesis using card_mono [of "{..<next_block q}" "set rs"] by (simp add: distinct_card)
qed

lemma any_changed_enqueued:
  assumes "x_enqueued q rs xs U ys 0 (b, q', p')" "set rs \<subseteq> U"
  shows "any_changed q rs (if b then xs @ ys else xs) U q' (Explicit p')"
proof -
  obtain F h rs' where r: "x_rep q' p' F h rs' (if b then xs @ ys else xs) 0" "pool_ok q' (U \<union> set rs')" "set rs \<subseteq> set rs'"
    "set rs' \<inter> U = set rs" "\<forall>v \<in> U. v \<notin> set rs \<longrightarrow> blocks q' v = blocks q v" using assms(1) by (auto simp: x_enqueued_def)
  have "(U - set rs) \<union> set rs' = U \<union> set rs'" using r(3) by auto
  moreover have "any_rep q' (Explicit p') rs' (if b then xs @ ys else xs)"
    unfolding any_rep_def any_producer.case by (intro exI) (rule r(1))
  ultimately show ?thesis using r(2-5) assms(2) by (intro any_changedI [of _ _ rs']) auto
qed

text \<open>A call that appends, on the producer of a token.\<close>

lemma on_token_appends:
  assumes t: "token_rep Q xss" and r: "r < length xss" and ex: "is_explicit (t_prods Q ! r)"
    and op: "\<And>p F h rs U. x_rep (t_pool Q) p F h rs (xss ! r) 0 \<Longrightarrow> pool_ok (t_pool Q) U \<Longrightarrow> set rs \<subseteq> U \<Longrightarrow>
      \<exists>b q' p'. op (t_pool Q, p) = Some (b, q', p') \<and> x_enqueued (t_pool Q) rs (xss ! r) U ys 0 (b, q', p') \<and> (ready \<longrightarrow> b)"
  shows "\<exists>b Q'. on_token op (Some r) Q = Some (b, Q') \<and> token_rep Q' (if b then xss[r := xss ! r @ ys] else xss) \<and> same_list Q' Q \<and> (ready \<longrightarrow> b)"
proof -
  have rl: "\<not> length (t_prods Q) \<le> r" using r token_rep_length [OF t] by simp
  obtain p where p: "t_prods Q ! r = Explicit p" using ex by (cases "t_prods Q ! r") auto
  obtain rs U where a: "any_rep (t_pool Q) (t_prods Q ! r) rs (xss ! r)" "pool_ok (t_pool Q) U" "set rs \<subseteq> U" using token_rep_any [OF t r] by blast
  then obtain F h where "x_rep (t_pool Q) p F h rs (xss ! r) 0" by (auto simp: any_rep_def p)
  from op [OF this a(2,3)] obtain b q' p' where e: "op (t_pool Q, p) = Some (b, q', p')" "ready \<longrightarrow> b" by blast
  let ?Q = "Q\<lparr>t_pool := q', t_prods := (t_prods Q)[r := Explicit p']\<rparr>"
  have "token_rep ?Q (xss[r := (if b then xss ! r @ ys else xss ! r)])"
  proof (rule token_rep_update [OF t r])
    fix q rs U assume q: "q = t_pool Q" "any_rep q (t_prods Q ! r) rs (xss ! r)" "pool_ok q U" "set rs \<subseteq> U"
    then obtain F h where "x_rep (t_pool Q) p F h rs (xss ! r) 0" by (auto simp: any_rep_def p)
    from op [OF this q(3,4) [unfolded q(1)]] have "x_enqueued q rs (xss ! r) U ys 0 (b, q', p')" using e(1) q(1) by auto
    then show "any_changed q rs (if b then xss ! r @ ys else xss ! r) U q' (Explicit p')" by (rule any_changed_enqueued [OF _ q(4)])
  qed
  moreover have "xss[r := (if b then xss ! r @ ys else xss ! r)] = (if b then xss[r := xss ! r @ ys] else xss)" by simp
  moreover have "on_token op (Some r) Q = Some (b, ?Q)" using e(1) rl p by (simp add: on_token_def on_producer_def as_explicit_def)
  moreover have "same_list ?Q Q" by (rule same_list_update) (simp add: p)
  ultimately show ?thesis using e(2) by (intro exI [of _ b] exI [of _ ?Q]) simp
qed

lemma token_enqueue_correct:
  assumes t: "token_rep Q xss" and r: "r < length xss" "is_explicit (t_prods Q ! r)" and n: "next_block (t_pool Q) + 1 < 2 ^ 58"
  shows "\<exists>b Q'. token_inner_enqueue ca e (Some r) x Q = Some (b, Q') \<and> token_rep Q' (if b then xss[r := xss ! r @ [x]] else xss) \<and>
    same_list Q' Q \<and> (ca \<and> m_index e \<and> m_block e \<longrightarrow> b)"
  unfolding token_inner_enqueue_def
proof (rule on_token_appends [OF t r])
  fix p F h rs U assume a: "x_rep (t_pool Q) p F h rs (xss ! r) 0" "pool_ok (t_pool Q) U" "set rs \<subseteq> U"
  have "Suc (length rs) < 2 ^ 58" using x_rep_blocks [OF a] n by simp
  from explicit_enqueue_correct [OF a(1) _ a(2,3) this, of MAX_SUBQUEUE_SIZE ca "m_index e" "m_block e" x]
  show "\<exists>b q' p'. explicit_enqueue MAX_SUBQUEUE_SIZE ca (m_index e) (m_block e) x (t_pool Q, p) = Some (b, q', p') \<and>
      x_enqueued (t_pool Q) rs (xss ! r) U [x] 0 (b, q', p') \<and> (ca \<and> m_index e \<and> m_block e \<longrightarrow> b)"
    by (auto simp: MAX_SUBQUEUE_SIZE_def)
qed

lemma token_enqueue_bulk_correct:
  assumes t: "token_rep Q xss" and r: "r < length xss" "is_explicit (t_prods Q ! r)"
    and n: "next_block (t_pool Q) + (length ys + 31) div 32 < 2 ^ 58" and mem: "\<forall>i. im i \<and> bm i"
  shows "\<exists>Q'. token_enqueue_bulk im bm (Some r) ys Q = Some (True, Q') \<and> token_rep Q' (xss[r := xss ! r @ ys]) \<and> same_list Q' Q"
proof -
  have "\<exists>b Q'. token_enqueue_bulk im bm (Some r) ys Q = Some (b, Q') \<and> token_rep Q' (if b then xss[r := xss ! r @ ys] else xss) \<and>
      same_list Q' Q \<and> (True \<longrightarrow> b)"
    unfolding token_enqueue_bulk_def token_inner_enqueue_bulk_def
  proof (rule on_token_appends [OF t r])
    fix p F h rs U assume a: "x_rep (t_pool Q) p F h rs (xss ! r) 0" "pool_ok (t_pool Q) U" "set rs \<subseteq> U"
    have "length rs + (length ys + 31) div 32 < 2 ^ 58" using x_rep_blocks [OF a] n by linarith
    from explicit_enqueue_bulk_correct [OF a this, of MAX_SUBQUEUE_SIZE True im bm] mem
    show "\<exists>b q' p'. explicit_enqueue_bulk MAX_SUBQUEUE_SIZE True im bm ys (t_pool Q, p) = Some (b, q', p') \<and>
        x_enqueued (t_pool Q) rs (xss ! r) U ys 0 (b, q', p') \<and> (True \<longrightarrow> b)"
      by (auto simp: MAX_SUBQUEUE_SIZE_def)
  qed
  then show ?thesis by auto
qed

section \<open>Tokens of producers\<close>

lemma make_token_queue_rep: "token_rep (make_token_queue mem capacity) []"
  using populate_pool_ok by (auto simp: token_rep_def members_rep_def make_token_queue_def used_blocks_def)

lemma token_rep_add:
  assumes t: "token_rep Q xss" and n: "Suc (length xss) < 2 ^ 32" and a: "any_rep (t_pool Q) a [] []"
  shows "token_rep (snd (t_add_producer (Some a) Q)) (xss @ [[]])"
proof -
  obtain rss where m: "members_rep (t_pool Q) (t_prods Q) rss xss" using t by (auto simp: token_rep_def)
  then have "members_rep (t_pool Q) (t_prods Q @ [a]) (rss @ [[]]) (xss @ [[]])"
    using a by (auto simp: members_rep_def nth_append used_blocks_def less_Suc_eq lessThan_Suc)
  moreover have "unat (t_producerCount Q + 1) = Suc (length xss)"
  proof -
    have c: "unat (t_producerCount Q) = length xss" using t token_rep_length [OF t] by (simp add: token_rep_def)
    then show ?thesis using n by (simp add: unat_word_ariths)
  qed
  ultimately show ?thesis using t token_rep_length [OF t] by (auto simp: token_rep_def t_add_producer_def)
qed

text \<open>A token gets a producer that no other token has: one that was given back, with what is left in
  it, or a new one.\<close>

lemma make_producer_token_correct:
  assumes t: "token_rep Q xss" and n: "Suc (length xss) < 2 ^ 32" "unat (pool_size (t_pool Q)) \<le> 2 ^ 58"
  shows "\<exists>tok Q'. make_producer_token e Q = Some (tok, Q') \<and>
    (case tok of None \<Rightarrow> \<not> m_producer e \<and> Q' = Q
     | Some r \<Rightarrow> token_rep Q' (if r < length xss then xss else xss @ [[]]) \<and> r \<le> length xss \<and>
         (r < length xss \<longrightarrow> t_inactive Q ! r \<and> is_explicit (t_prods Q ! r)) \<and> is_explicit (t_prods Q' ! r) \<and> \<not> t_inactive Q' ! r \<and>
         (\<forall>s < length xss. s \<noteq> r \<longrightarrow> t_inactive Q' ! s = t_inactive Q ! s \<and> t_prods Q' ! s = t_prods Q ! s))"
proof -
  have len: "length (t_inactive Q) = length xss" "length (t_prods Q) = length xss"
    using t token_rep_length [OF t] by (simp_all add: token_rep_def)
  let ?found = "find (\<lambda>r. t_inactive Q ! r \<and> is_explicit (t_prods Q ! r) = True) (rev [0..<length (t_prods Q)])"
  show ?thesis
  proof (cases ?found)
    case (Some r)
    then have "r \<in> set (rev [0..<length (t_prods Q)])" "t_inactive Q ! r \<and> is_explicit (t_prods Q ! r)"
      by (auto simp: find_Some_iff simp del: set_rev dest: nth_mem)
    then have r: "r < length xss" "t_inactive Q ! r" "is_explicit (t_prods Q ! r)" using len by auto
    have "token_rep (Q\<lparr>t_inactive := (t_inactive Q)[r := False]\<rparr>) xss" using t by (simp add: token_rep_def)
    then show ?thesis using Some r len
      by (intro exI [of _ "Some r"] exI [of _ "Q\<lparr>t_inactive := (t_inactive Q)[r := False]\<rparr>"])
        (simp add: make_producer_token_def t_recycle_or_create_producer_def)
  next
    case None
    show ?thesis
    proof (cases "m_producer e")
      case False
      then show ?thesis using None by (simp add: make_producer_token_def t_recycle_or_create_producer_def t_add_producer_def)
    next
      case True
      obtain p where p: "make_explicit (m_first_index e) (t_pool Q) = Some p" "x_rep (t_pool Q) p 0 0 [] [] 0"
        using make_explicit_rep [OF n(2)] by blast
      then have "any_rep (t_pool Q) (Explicit p) [] []" by (auto simp: any_rep_def)
      note new = token_rep_add [OF t n(1) this]
      let ?Q = "snd (t_add_producer (Some (Explicit p)) Q)"
      have "make_producer_token e Q = Some (Some (length xss), ?Q)"
        using None True p(1) len by (simp add: make_producer_token_def t_recycle_or_create_producer_def t_add_producer_def)
      then show ?thesis using new len by (intro exI [of _ "Some (length xss)"] exI [of _ ?Q]) (simp add: t_add_producer_def nth_append)
    qed
  qed
qed

end
