(* ===== verification/Token_Claims.thy ===== *)
theory Token_Claims
  imports Token_Refinement
begin

text \<open>
  The queue with tokens: what a producer's and a consumer's token promise.
\<close>

section \<open>Tokens of producers\<close>

text \<open>C28: The constructor of a producer token always returns. It gets a producer that no other token
  uses (a new one, or one whose token was destroyed, with the elements that are left in it), or null
  only when memory for the producer is refused; no other producer changes.\<close>

theorem producer_token_exclusive:
  assumes "token_rep Q xss" "Suc (length xss) < 2 ^ 32" "unat (pool_size (t_pool Q)) \<le> 2 ^ 58"
  shows "\<exists>tok Q'. make_producer_token e Q = Some (tok, Q') \<and>
    (case tok of None \<Rightarrow> \<not> m_producer e \<and> Q' = Q
     | Some r \<Rightarrow> token_rep Q' (if r < length xss then xss else xss @ [[]]) \<and> r \<le> length xss \<and>
         (r < length xss \<longrightarrow> t_inactive Q ! r \<and> is_explicit (t_prods Q ! r)) \<and> is_explicit (t_prods Q' ! r) \<and> \<not> t_inactive Q' ! r \<and>
         (\<forall>s < length xss. s \<noteq> r \<longrightarrow> t_inactive Q' ! s = t_inactive Q ! s \<and> t_prods Q' ! s = t_prods Q ! s))"
  using assms by (rule make_producer_token_correct)

definition all_memory :: memory where
  "all_memory = \<lparr>m_hash = True, m_producer = True, m_first_index = True, m_index = True, m_block = True, m_stale = None\<rparr>"

definition small_queue :: "nat token_queue" where
  "small_queue = make_token_queue True 32"

lemma small_queue_facts:
  "token_rep small_queue []" "Suc (length ([] :: nat list list)) < 2 ^ 32" "unat (pool_size (t_pool small_queue)) \<le> 2 ^ 58"
  "next_block (t_pool small_queue) = 1" "t_prods small_queue = []"
  using make_token_queue_rep [of True 32, folded small_queue_def]
  by (simp_all add: small_queue_def make_token_queue_def populate_initial_block_list_def BLOCK_SIZE_def)

theorem producer_token_exclusive_witness:
  "\<exists>r Q'. make_producer_token all_memory small_queue = Some (Some r, Q') \<and> r = 0 \<and> is_explicit (t_prods Q' ! 0)"
proof -
  obtain tok Q' where t: "make_producer_token all_memory small_queue = Some (tok, Q')"
    "case tok of None \<Rightarrow> \<not> m_producer all_memory \<and> Q' = small_queue | Some r \<Rightarrow> r \<le> length ([] :: nat list list) \<and> is_explicit (t_prods Q' ! r)"
    using producer_token_exclusive [OF small_queue_facts(1-3), of all_memory] by (auto split: option.splits)
  then show ?thesis by (cases tok) (auto simp: all_memory_def)
qed

text \<open>C27: An enqueue with a producer token always returns and appends the element to the list of the
  token's producer or changes no list; with memory it appends. Producers, their kinds and which of
  them have a token stay the same.\<close>

theorem producer_token_appends:
  assumes "token_rep Q xss" "r < length xss" "is_explicit (t_prods Q ! r)" "next_block (t_pool Q) + 1 < 2 ^ 58"
  shows "\<exists>okay Q'. token_inner_enqueue can_alloc e (Some r) x Q = Some (okay, Q') \<and>
    token_rep Q' (if okay then xss[r := xss ! r @ [x]] else xss) \<and> same_list Q' Q \<and> (can_alloc \<and> m_index e \<and> m_block e \<longrightarrow> okay)"
  using assms by (rule token_enqueue_correct)

text \<open>A queue with one producer, and one with an element.\<close>

lemma one_producer: "\<exists>Q :: nat token_queue. token_rep Q [[]] \<and> is_explicit (t_prods Q ! 0) \<and> next_block (t_pool Q) + 1 < 2 ^ 58"
proof -
  obtain p where p: "make_explicit True (t_pool small_queue) = Some p" "x_rep (t_pool small_queue) p 0 0 [] [] 0"
    using make_explicit_rep [OF small_queue_facts(3)] by blast
  let ?Q = "snd (t_add_producer (Some (Explicit p)) small_queue)"
  have "any_rep (t_pool small_queue) (Explicit p) [] []" using p(2) by (auto simp: any_rep_def)
  from token_rep_add [OF small_queue_facts(1,2) this] have r: "token_rep ?Q [[]]" by simp
  have "is_explicit (t_prods ?Q ! 0)" "next_block (t_pool ?Q) + 1 < 2 ^ 58" using small_queue_facts(4,5) by (simp_all add: t_add_producer_def)
  then show ?thesis using r by blast
qed

lemma one_element: "\<exists>Q :: nat token_queue. token_rep Q [[7]]"
proof -
  obtain Q :: "nat token_queue" where Q: "token_rep Q [[]]" "is_explicit (t_prods Q ! 0)" "next_block (t_pool Q) + 1 < 2 ^ 58"
    using one_producer by blast
  from token_enqueue_correct [OF Q(1) _ Q(2,3), of True all_memory 7] show ?thesis by (auto simp: all_memory_def)
qed

theorem producer_token_appends_witness:
  "\<exists>Q Q'. token_rep Q [[]] \<and> token_inner_enqueue True all_memory (Some 0) (7 :: nat) Q = Some (True, Q') \<and> token_rep Q' [[7]]"
proof -
  obtain Q :: "nat token_queue" where Q: "token_rep Q [[]]" "is_explicit (t_prods Q ! 0)" "next_block (t_pool Q) + 1 < 2 ^ 58"
    using one_producer by blast
  from producer_token_appends [OF Q(1) _ Q(2,3), of True all_memory 7] show ?thesis using Q(1) by (auto simp: all_memory_def)
qed

section \<open>Tokens of consumers\<close>

text \<open>C25: A dequeue with a consumer token never faults and always ends, wherever the token stands and
  however often the consumers were told to rotate: it fails only if the lists of all producers are
  empty, and otherwise it delivers the head of one list, where the token then stands. The token stays
  valid, and no other list changes.\<close>

theorem consumer_token_serves:
  assumes "token_rep Q xss" "token_valid t (length xss)"
  shows "\<exists>f t' Q'. token_try_dequeue t Q = Some (f, t', Q') \<and> token_valid t' (length xss) \<and> same_producers Q' Q \<and>
    (case f of None \<Rightarrow> token_rep Q' xss \<and> concat xss = []
     | Some x \<Rightarrow> \<exists>r ys. r < length xss \<and> xss ! r = x # ys \<and> token_rep Q' (xss[r := ys]) \<and> currentProducer t' = Some r)"
  using assms by (rule token_try_dequeue_correct)

theorem consumer_token_serves_witness:
  "\<exists>Q t' Q'. token_rep Q [[7 :: nat]] \<and> token_try_dequeue (fst (make_consumer_token Q)) Q = Some (Some 7, t', Q') \<and> token_rep Q' [[]]"
proof -
  obtain Q where Q: "token_rep Q [[7 :: nat]]" using one_element by blast
  obtain f t' Q' where d: "token_try_dequeue (fst (make_consumer_token Q)) Q = Some (f, t', Q')"
    "case f of None \<Rightarrow> token_rep Q' [[7]] \<and> concat [[7 :: nat]] = []
     | Some x \<Rightarrow> \<exists>r ys. r < length [[7 :: nat]] \<and> [[7]] ! r = x # ys \<and> token_rep Q' ([[7]][r := ys]) \<and> currentProducer t' = Some r"
    using consumer_token_serves [OF Q make_consumer_token_valid] by blast
  then obtain x where "f = Some x" by (cases f) auto
  then show ?thesis using d Q by auto
qed

text \<open>C26: A bulk dequeue with a consumer token never faults and always ends, although the place where
  its round ends moves with every producer that delivers. It delivers exactly as many elements as it
  was asked for or as there are, each time the first ones of a list and in their order.\<close>

theorem consumer_token_bulk_serves:
  assumes "token_rep Q xss" "token_valid t (length xss)"
  shows "\<exists>ys t' Q' xss'. token_try_dequeue_bulk m t Q = Some (ys, t', Q') \<and> delivers xss ys xss' \<and> token_rep Q' xss' \<and>
    length ys = min (unat m) (length (concat xss)) \<and> token_valid t' (length xss) \<and> same_producers Q' Q"
proof -
  obtain ys t' Q' xss' where d: "token_try_dequeue_bulk m t Q = Some (ys, t', Q')" "delivers xss ys xss'" "token_rep Q' xss'"
    "token_valid t' (length xss)" "same_producers Q' Q" "length ys \<le> unat m" "length ys = unat m \<or> concat xss' = []"
    using token_try_dequeue_bulk_correct [OF assms, of m] by (elim exE conjE) (rule that)
  have "length ys = min (unat m) (length (concat xss))"
    using d(7)
  proof
    assume "concat xss' = []"
    then have "length ys = length (concat xss)" using delivers_count [OF d(2)] by (simp del: concat_eq_Nil_conv)
    then show ?thesis using d(6) by simp
  qed (use delivers_count [OF d(2)] in simp)
  then show ?thesis using d by blast
qed

theorem consumer_token_bulk_serves_witness:
  "\<exists>Q ys t' Q'. token_rep Q [[7 :: nat]] \<and> token_try_dequeue_bulk 5 (fst (make_consumer_token Q)) Q = Some (ys, t', Q') \<and> length ys = 1"
proof -
  obtain Q where Q: "token_rep Q [[7 :: nat]]" using one_element by blast
  obtain ys t' Q' where "token_try_dequeue_bulk 5 (fst (make_consumer_token Q)) Q = Some (ys, t', Q')"
    "length ys = min (unat (5 :: u64)) (length (concat [[7 :: nat]]))"
    using consumer_token_bulk_serves [OF Q make_consumer_token_valid, of 5] by blast
  then show ?thesis using Q by auto
qed

end
