(* ===== verification/Beast_Server.thy ===== *)
theory Beast_Server
  imports Cxx_Stdlib
begin

text \<open>
  \<open>server.cpp\<close>, the HTTP server of the Boost.Beast examples that the repository keeps beside the
  node: every request is answered with \<open>bad_request\<close>. The handlers of one session run in its
  strand, one after the other; a completed asynchronous operation is one step. What the library
  decides is a parameter: the version text, \<open>need_eof\<close>, the error codes and \<open>make_address\<close>.
\<close>

section \<open>Messages\<close>

record http_request =
  rq_version :: nat
  rq_keep_alive :: bool
  rq_target :: string
  rq_body :: string

text \<open>\<open>req_ = {}\<close>\<close>

definition empty_request :: http_request where
  "empty_request = \<lparr>rq_version = 11, rq_keep_alive = True, rq_target = [], rq_body = []\<rparr>"

record http_response =
  rs_status :: nat
  rs_version :: nat
  rs_server :: string
  rs_content_type :: string
  rs_keep_alive :: bool
  rs_body :: string
  rs_content_length :: "nat option"

text \<open>The lambda \<open>bad_request\<close> of \<open>handle_request\<close>; \<open>prepare_payload\<close> sets the length of the body.\<close>

definition bad_request :: "string \<Rightarrow> http_request \<Rightarrow> string \<Rightarrow> http_response" where
  "bad_request beast_version req why =
     (let res = \<lparr>rs_status = 400, rs_version = rq_version req, rs_server = [], rs_content_type = [], rs_keep_alive = True,
                 rs_body = [], rs_content_length = None\<rparr>;
          res = res\<lparr>rs_server := beast_version\<rparr>;
          res = res\<lparr>rs_content_type := ''text/html''\<rparr>;
          res = res\<lparr>rs_keep_alive := rq_keep_alive req\<rparr>;
          res = res\<lparr>rs_body := why\<rparr>
      in res\<lparr>rs_content_length := Some (length (rs_body res))\<rparr>)"

definition beast_handle_request :: "string \<Rightarrow> http_request \<Rightarrow> (http_response \<Rightarrow> 's \<Rightarrow> 's) \<Rightarrow> 's \<Rightarrow> 's" where
  "beast_handle_request beast_version req send = send (bad_request beast_version req ''lol'')"

text \<open>\<open>fail\<close> writes to \<open>cerr\<close>.\<close>

definition beast_fail :: "string \<Rightarrow> string \<Rightarrow> string list \<Rightarrow> string list" where
  "beast_fail msg what err = err @ [what @ '': '' @ msg @ [CHR 0x0A]]"

section \<open>A session\<close>

text \<open>The operations that have been started and not completed. A write refers to the message it
  was started with; the flag is bound to its handler.\<close>

datatype beast_op = Read_op | Write_op http_response bool

record beast_session =
  bs_req :: http_request
  bs_res :: "http_response option"
  bs_pending :: "beast_op list"
  bs_answers :: "http_response list"
  bs_shut :: bool

datatype beast_error = Beast_ok | Beast_end_of_stream | Beast_error string

definition make_session :: beast_session where
  "make_session = \<lparr>bs_req = empty_request, bs_res = None, bs_pending = [], bs_answers = [], bs_shut = False\<rparr>"

text \<open>\<open>send_lambda\<close>; \<open>bs_answers\<close> is the history of the messages written.\<close>

definition send_message :: "(http_response \<Rightarrow> bool) \<Rightarrow> http_response \<Rightarrow> beast_session \<Rightarrow> beast_session" where
  "send_message need_eof msg s =
     (let s = s\<lparr>bs_res := Some msg\<rparr> in
      s\<lparr>bs_pending := bs_pending s @ [Write_op msg (need_eof msg)], bs_answers := bs_answers s @ [msg]\<rparr>)"

definition session_do_read :: "beast_session \<Rightarrow> beast_session" where
  "session_do_read s = s\<lparr>bs_req := empty_request, bs_pending := bs_pending s @ [Read_op]\<rparr>"

definition session_run :: "beast_session \<Rightarrow> beast_session" where
  "session_run s = session_do_read s"

definition session_do_close :: "beast_session \<Rightarrow> beast_session" where
  "session_do_close s = s\<lparr>bs_shut := True\<rparr>"

definition session_on_read ::
  "string \<Rightarrow> (http_response \<Rightarrow> bool) \<Rightarrow> beast_error \<Rightarrow> beast_session \<times> string list \<Rightarrow> beast_session \<times> string list" where
  "session_on_read beast_version need_eof ec se =
     (let (s, err) = se in
      case ec of
        Beast_end_of_stream \<Rightarrow> (session_do_close s, err)
      | Beast_error msg \<Rightarrow> (s, beast_fail msg ''read'' err)
      | Beast_ok \<Rightarrow> (beast_handle_request beast_version (bs_req s) (send_message need_eof) s, err))"

definition session_on_write :: "beast_error \<Rightarrow> bool \<Rightarrow> beast_session \<times> string list \<Rightarrow> beast_session \<times> string list" where
  "session_on_write ec close se =
     (let (s, err) = se in
      case ec of
        Beast_ok \<Rightarrow> if close then (session_do_close s, err) else (session_do_read (s\<lparr>bs_res := None\<rparr>), err)
      | Beast_end_of_stream \<Rightarrow> (s, beast_fail ''end of stream'' ''write'' err)
      | Beast_error msg \<Rightarrow> (s, beast_fail msg ''write'' err))"

section \<open>The listener\<close>

text \<open>\<open>bl_accepting\<close> counts the calls of \<open>async_accept\<close> under way.\<close>

record 'a beast_listener =
  bl_endpoint :: "('a \<times> 16 word) option"
  bl_open :: bool
  bl_listening :: bool
  bl_accepting :: nat

text \<open>The error codes of \<open>open\<close>, \<open>bind\<close> and \<open>listen\<close>. \<open>set_option\<close> gets no error code, so it throws
  (\<open>None\<close>), and the test after it sees the code of \<open>open\<close>.\<close>

record socket_results =
  open_ec :: "string option"
  option_throws :: bool
  bind_ec :: "string option"
  listen_ec :: "string option"

definition make_beast_listener :: "socket_results \<Rightarrow> 'a \<times> 16 word \<Rightarrow> ('a beast_listener \<times> string list) option" where
  "make_beast_listener r endpoint =
     (let l = \<lparr>bl_endpoint = None, bl_open = (open_ec r = None), bl_listening = False, bl_accepting = 0\<rparr>; ec = open_ec r in
      case ec of
        Some msg \<Rightarrow> Some (l, beast_fail msg ''open'' [])
      | None \<Rightarrow>
          if option_throws r then None
          else (case ec of
              Some msg \<Rightarrow> Some (l, beast_fail msg ''set_option'' [])
            | None \<Rightarrow>
                (case bind_ec r of
                   Some msg \<Rightarrow> Some (l, beast_fail msg ''bind'' [])
                 | None \<Rightarrow>
                     (let l = l\<lparr>bl_endpoint := Some endpoint\<rparr> in
                      case listen_ec r of
                        Some msg \<Rightarrow> Some (l, beast_fail msg ''listen'' [])
                      | None \<Rightarrow> Some (l\<lparr>bl_listening := True\<rparr>, [])))))"

definition beast_do_accept :: "'a beast_listener \<Rightarrow> 'a beast_listener" where
  "beast_do_accept l = l\<lparr>bl_accepting := bl_accepting l + 1\<rparr>"

definition beast_listener_run :: "'a beast_listener \<Rightarrow> 'a beast_listener" where
  "beast_listener_run l = (if \<not> bl_open l then l else beast_do_accept l)"

section \<open>The server\<close>

text \<open>The sessions in the order in which they were accepted.\<close>

record 'a beast_server =
  bv_listener :: "'a beast_listener"
  bv_sessions :: "beast_session list"
  bv_cerr :: "string list"

definition beast_on_accept :: "string option \<Rightarrow> 'a beast_server \<Rightarrow> 'a beast_server" where
  "beast_on_accept ec S =
     (let S = (case ec of
                 Some msg \<Rightarrow> S\<lparr>bv_cerr := beast_fail msg ''accept'' (bv_cerr S)\<rparr>
               | None \<Rightarrow> S\<lparr>bv_sessions := bv_sessions S @ [session_run make_session]\<rparr>)
      in S\<lparr>bv_listener := beast_do_accept (bv_listener S)\<rparr>)"

definition on_session ::
  "nat \<Rightarrow> (beast_session \<times> string list \<Rightarrow> beast_session \<times> string list) \<Rightarrow> 'a beast_server \<Rightarrow> 'a beast_server" where
  "on_session i f S =
     (let (s, err) = f (bv_sessions S ! i, bv_cerr S) in S\<lparr>bv_sessions := (bv_sessions S)[i := s], bv_cerr := err\<rparr>)"

text \<open>An operation completes and its handler runs. A read that succeeds has stored the request.\<close>

datatype beast_event =
    Accepted "string option"
  | Read_done nat beast_error http_request
  | Write_done nat beast_error

inductive beast_step ::
  "string \<Rightarrow> (http_response \<Rightarrow> bool) \<Rightarrow> 'a beast_server \<Rightarrow> beast_event \<Rightarrow> 'a beast_server \<Rightarrow> bool" for beast_version need_eof where
  accepted: "bl_accepting (bv_listener S) = Suc n \<Longrightarrow>
    beast_step beast_version need_eof S (Accepted ec) (beast_on_accept ec (S\<lparr>bv_listener := (bv_listener S)\<lparr>bl_accepting := n\<rparr>\<rparr>))"
| read_done: "i < length (bv_sessions S) \<Longrightarrow> Read_op \<in> set (bs_pending (bv_sessions S ! i)) \<Longrightarrow>
    beast_step beast_version need_eof S (Read_done i ec req)
      (on_session i (\<lambda>(s, err). session_on_read beast_version need_eof ec
         (s\<lparr>bs_pending := remove1 Read_op (bs_pending s), bs_req := (if ec = Beast_ok then req else bs_req s)\<rparr>, err)) S)"
| write_done: "i < length (bv_sessions S) \<Longrightarrow> Write_op msg close \<in> set (bs_pending (bv_sessions S ! i)) \<Longrightarrow>
    beast_step beast_version need_eof S (Write_done i ec)
      (on_session i (\<lambda>(s, err). session_on_write ec close (s\<lparr>bs_pending := remove1 (Write_op msg close) (bs_pending s)\<rparr>, err)) S)"

inductive_cases beast_stepE: "beast_step beast_version need_eof S e S'"

inductive beast_run ::
  "string \<Rightarrow> (http_response \<Rightarrow> bool) \<Rightarrow> 'a beast_server \<Rightarrow> beast_event list \<Rightarrow> 'a beast_server \<Rightarrow> bool" for beast_version need_eof S0 where
  start: "beast_run beast_version need_eof S0 [] S0"
| step: "beast_run beast_version need_eof S0 es S \<Longrightarrow> beast_step beast_version need_eof S e S' \<Longrightarrow>
    beast_run beast_version need_eof S0 (es @ [e]) S'"

section \<open>\<open>main\<close>\<close>

text \<open>\<open>atoi\<close>; a number that is no \<open>int\<close> is undefined behaviour.\<close>

definition atoi :: "string \<Rightarrow> int option" where
  "atoi s =
     (let (neg, r) = sign_split (dropWhile is_space (c_str s)); v = int (digits_value (takeWhile is_digit r));
          n = (if neg then - v else v)
      in if - (2 ^ 31) \<le> n \<and> n < 2 ^ 31 then Some n else None)"

text \<open>The threads that the loop starts.\<close>

function started_threads :: "int \<Rightarrow> nat" where
  "started_threads i = (if 0 < i then 1 + started_threads (i - 1) else 0)"
  by auto
termination by (relation "measure nat") auto

declare started_threads.simps [simp del]

definition beast_usage :: string where
  "beast_usage = ''Usage: http-server-async <address> <port> <threads>'' @ [CHR 0x0A] @ ''Example:'' @ [CHR 0x0A] @
     ''    http-server-async 0.0.0.0 8080 . 1'' @ [CHR 0x0A]"

datatype 'a beast_outcome = Exit_failure string | Threw | Undefined | Serving "'a beast_server" nat

text \<open>\<open>Serving S n\<close>: \<open>n\<close> threads, the main thread among them, run the handlers from state \<open>S\<close> on.\<close>

definition beast_main :: "(string \<Rightarrow> 'a option) \<Rightarrow> socket_results \<Rightarrow> string list \<Rightarrow> 'a beast_outcome" where
  "beast_main make_address r argv =
     (if length argv \<noteq> 4 then Exit_failure beast_usage
      else case make_address (argv ! 1) of
          None \<Rightarrow> Threw
        | Some address \<Rightarrow>
            (case (atoi (argv ! 2), atoi (argv ! 3)) of
               (Some port, Some n) \<Rightarrow>
                 (let threads = max 1 n in
                  case make_beast_listener r (address, of_int port) of
                    None \<Rightarrow> Threw
                  | Some (l, err) \<Rightarrow>
                      Serving \<lparr>bv_listener = beast_listener_run l, bv_sessions = [], bv_cerr = err\<rparr> (started_threads (threads - 1) + 1))
             | _ \<Rightarrow> Undefined))"

section \<open>The protocol of a session\<close>

text \<open>What a session is doing, from its events alone; \<open>eof\<close> says whether the answer to a request
  ends the connection.\<close>

datatype beast_phase = B_reading | B_writing bool | B_closed | B_failed

fun next_phase :: "(http_request \<Rightarrow> bool) \<Rightarrow> beast_event \<Rightarrow> beast_phase \<Rightarrow> beast_phase" where
  "next_phase eof (Accepted ec) p = p"
| "next_phase eof (Read_done i ec req) p =
     (case ec of Beast_ok \<Rightarrow> B_writing (eof req) | Beast_end_of_stream \<Rightarrow> B_closed | Beast_error msg \<Rightarrow> B_failed)"
| "next_phase eof (Write_done i ec) p = (if ec \<noteq> Beast_ok then B_failed else if p = B_writing True then B_closed else B_reading)"

fun event_session :: "beast_event \<Rightarrow> nat option" where
  "event_session (Accepted ec) = None"
| "event_session (Read_done i ec req) = Some i"
| "event_session (Write_done i ec) = Some i"

fun request_read :: "beast_event \<Rightarrow> http_request option" where
  "request_read (Read_done i Beast_ok req) = Some req"
| "request_read e = None"

abbreviation events_of :: "nat \<Rightarrow> beast_event list \<Rightarrow> beast_event list" where
  "events_of i es \<equiv> filter (\<lambda>e. event_session e = Some i) es"

definition session_phase :: "string \<Rightarrow> (http_response \<Rightarrow> bool) \<Rightarrow> nat \<Rightarrow> beast_event list \<Rightarrow> beast_phase" where
  "session_phase beast_version need_eof i es =
     fold (next_phase (\<lambda>req. need_eof (bad_request beast_version req ''lol''))) (events_of i es) B_reading"

definition requests_read :: "nat \<Rightarrow> beast_event list \<Rightarrow> http_request list" where
  "requests_read i es = List.map_filter request_read (events_of i es)"

text \<open>The operations of a session under way and its socket; a message being written is the one that
  \<open>res_\<close> keeps alive.\<close>

definition session_at :: "(http_response \<Rightarrow> bool) \<Rightarrow> beast_phase \<Rightarrow> beast_session \<Rightarrow> bool" where
  "session_at need_eof p s \<longleftrightarrow>
     (case p of
        B_reading \<Rightarrow> bs_pending s = [Read_op]
      | B_writing close \<Rightarrow> \<exists>msg. bs_pending s = [Write_op msg close] \<and> bs_res s = Some msg \<and> close = need_eof msg
      | B_closed \<Rightarrow> bs_pending s = []
      | B_failed \<Rightarrow> bs_pending s = []) \<and>
     bs_shut s = (p = B_closed)"

lemmas session_defs = session_on_read_def session_on_write_def session_do_read_def session_do_close_def session_run_def
  send_message_def beast_handle_request_def make_session_def

lemma new_session_at: "session_at need_eof B_reading (session_run make_session)" "bs_answers (session_run make_session) = []"
  by (simp_all add: session_at_def session_defs)

lemma read_phase: "session_at need_eof p s \<Longrightarrow> Read_op \<in> set (bs_pending s) \<Longrightarrow> p = B_reading"
  by (auto simp: session_at_def split: beast_phase.splits)

lemma write_phase: "session_at need_eof p s \<Longrightarrow> Write_op msg close \<in> set (bs_pending s) \<Longrightarrow> p = B_writing close"
  by (auto simp: session_at_def split: beast_phase.splits)

lemma on_read_step:
  assumes "session_at need_eof p s" "Read_op \<in> set (bs_pending s)"
    "session_on_read bv need_eof ec (s\<lparr>bs_pending := remove1 Read_op (bs_pending s), bs_req := (if ec = Beast_ok then req else bs_req s)\<rparr>, err) = (s', err')"
  shows "session_at need_eof (next_phase (\<lambda>req. need_eof (bad_request bv req ''lol'')) (Read_done i ec req) p) s'"
    "bs_answers s' = bs_answers s @ (case request_read (Read_done i ec req) of None \<Rightarrow> [] | Some req \<Rightarrow> [bad_request bv req ''lol''])"
  using assms read_phase [OF assms(1,2)] by (cases ec; auto simp: session_at_def session_defs)+

lemma on_write_step:
  assumes "session_at need_eof p s" "Write_op msg close \<in> set (bs_pending s)"
    "session_on_write ec close (s\<lparr>bs_pending := remove1 (Write_op msg close) (bs_pending s)\<rparr>, err) = (s', err')"
  shows "session_at need_eof (next_phase eof (Write_done i ec) p) s'" "bs_answers s' = bs_answers s"
  using assms write_phase [OF assms(1,2)] by (cases ec; auto simp: session_at_def session_defs split: if_splits)+

section \<open>Runs\<close>

definition beast_ok :: "string \<Rightarrow> (http_response \<Rightarrow> bool) \<Rightarrow> beast_event list \<Rightarrow> 'a beast_server \<Rightarrow> bool" where
  "beast_ok bv need_eof es S \<longleftrightarrow>
     bl_accepting (bv_listener S) = (if bl_open (bv_listener S) then 1 else 0) \<and>
     (\<forall>i < length (bv_sessions S). session_at need_eof (session_phase bv need_eof i es) (bv_sessions S ! i) \<and>
        bs_answers (bv_sessions S ! i) = map (\<lambda>req. bad_request bv req ''lol'') (requests_read i es)) \<and>
     (\<forall>i \<ge> length (bv_sessions S). events_of i es = [])"

lemma session_phase_snoc:
  "session_phase bv need_eof i (es @ [e]) =
     (if event_session e = Some i then next_phase (\<lambda>req. need_eof (bad_request bv req ''lol'')) e (session_phase bv need_eof i es)
      else session_phase bv need_eof i es)"
  by (simp add: session_phase_def)

lemma requests_read_snoc:
  "requests_read i (es @ [e]) = requests_read i es @
     (if event_session e = Some i then (case request_read e of None \<Rightarrow> [] | Some req \<Rightarrow> [req]) else [])"
  by (simp add: requests_read_def map_filter_def split: option.split)

text \<open>An event of one session, whose handler keeps to the protocol.\<close>

lemma beast_ok_session:
  assumes ok: "beast_ok bv need_eof es S" and i: "i < length (bv_sessions S)" "event_session e = Some i"
    and f: "f (bv_sessions S ! i, bv_cerr S) = (s', err')"
    and s': "session_at need_eof (next_phase (\<lambda>req. need_eof (bad_request bv req ''lol'')) e (session_phase bv need_eof i es)) s'"
      "bs_answers s' = bs_answers (bv_sessions S ! i) @
         map (\<lambda>req. bad_request bv req ''lol'') (case request_read e of None \<Rightarrow> [] | Some req \<Rightarrow> [req])"
  shows "beast_ok bv need_eof (es @ [e]) (on_session i f S)"
proof -
  have "on_session i f S = S\<lparr>bv_sessions := (bv_sessions S)[i := s'], bv_cerr := err'\<rparr>" using f by (simp add: on_session_def)
  moreover have "session_at need_eof (session_phase bv need_eof j (es @ [e])) ((bv_sessions S)[i := s'] ! j) \<and>
      bs_answers ((bv_sessions S)[i := s'] ! j) = map (\<lambda>req. bad_request bv req ''lol'') (requests_read j (es @ [e]))"
    if "j < length (bv_sessions S)" for j
    using ok that i s' by (cases "j = i") (auto simp: beast_ok_def session_phase_snoc requests_read_snoc)
  ultimately show ?thesis using ok i by (auto simp: beast_ok_def)
qed

lemma beast_step_ok:
  assumes ok: "beast_ok bv need_eof es S" and s: "beast_step bv need_eof S e S'"
  shows "beast_ok bv need_eof (es @ [e]) S'"
  using s
proof (cases rule: beast_step.cases)
  case (accepted n ec)
  have l: "bl_open (bv_listener S)" "n = 0" using ok accepted(3) by (auto simp: beast_ok_def split: if_splits)
  have "session_at need_eof (session_phase bv need_eof i (es @ [e])) ((bv_sessions S @ [session_run make_session]) ! i) \<and>
      bs_answers ((bv_sessions S @ [session_run make_session]) ! i) = map (\<lambda>req. bad_request bv req ''lol'') (requests_read i (es @ [e]))"
    if "i < Suc (length (bv_sessions S))" for i
  proof (cases "i = length (bv_sessions S)")
    case True
    then have "events_of i es = []" using ok by (simp add: beast_ok_def)
    then show ?thesis using True new_session_at by (simp add: session_phase_def requests_read_def accepted(1) map_filter_def)
  next
    case False
    then have "i < length (bv_sessions S)" using that by simp
    then show ?thesis using ok by (simp add: beast_ok_def session_phase_snoc requests_read_snoc accepted(1) nth_append)
  qed
  then show ?thesis using ok l
    by (cases ec) (auto simp: accepted(1,2) beast_on_accept_def beast_do_accept_def beast_ok_def session_phase_snoc requests_read_snoc Let_def)
next
  case (read_done i ec req)
  let ?s = "(bv_sessions S ! i)\<lparr>bs_pending := remove1 Read_op (bs_pending (bv_sessions S ! i)),
    bs_req := (if ec = Beast_ok then req else bs_req (bv_sessions S ! i))\<rparr>"
  obtain s' err' where h: "session_on_read bv need_eof ec (?s, bv_cerr S) = (s', err')" by fastforce
  have at: "session_at need_eof (session_phase bv need_eof i es) (bv_sessions S ! i)" using ok read_done(3) by (simp add: beast_ok_def)
  note st = on_read_step [OF at read_done(4) h, of i]
  show ?thesis unfolding read_done(2)
  proof (rule beast_ok_session [OF ok read_done(3)])
    show "bs_answers s' = bs_answers (bv_sessions S ! i) @
        map (\<lambda>req. bad_request bv req ''lol'') (case request_read e of None \<Rightarrow> [] | Some req \<Rightarrow> [req])"
      unfolding st(2) read_done(1) by (cases ec) simp_all
  qed (use h st(1) read_done(1) in simp_all)
next
  case (write_done i msg close ec)
  let ?s = "(bv_sessions S ! i)\<lparr>bs_pending := remove1 (Write_op msg close) (bs_pending (bv_sessions S ! i))\<rparr>"
  obtain s' err' where h: "session_on_write ec close (?s, bv_cerr S) = (s', err')" by fastforce
  have at: "session_at need_eof (session_phase bv need_eof i es) (bv_sessions S ! i)" using ok write_done(3) by (simp add: beast_ok_def)
  note st = on_write_step [OF at write_done(4) h]
  show ?thesis unfolding write_done(2)
  proof (rule beast_ok_session [OF ok write_done(3)])
    show "(case (bv_sessions S ! i, bv_cerr S) of (s, err) \<Rightarrow>
        session_on_write ec close (s\<lparr>bs_pending := remove1 (Write_op msg close) (bs_pending s)\<rparr>, err)) = (s', err')" using h by simp
  qed (use st write_done(1) in simp_all)
qed

lemma on_session_listener [simp]: "bv_listener (on_session i f S) = bv_listener S"
  by (simp add: on_session_def split_beta)

lemma beast_step_open: "beast_step bv need_eof S e S' \<Longrightarrow> bl_open (bv_listener S') = bl_open (bv_listener S)"
  by (erule beast_stepE) (simp_all add: beast_on_accept_def beast_do_accept_def split: option.split)

lemma beast_run_ok: "beast_run bv need_eof S0 es S \<Longrightarrow> beast_ok bv need_eof [] S0 \<Longrightarrow> beast_ok bv need_eof es S"
  by (induction rule: beast_run.induct) (auto intro: beast_step_ok)

section \<open>The start\<close>

lemma listener_starts:
  assumes "make_beast_listener r endpoint = Some (l, err)"
  shows "bl_accepting (beast_listener_run l) = (if bl_open (beast_listener_run l) then 1 else 0)"
    "bl_open (beast_listener_run l) \<longleftrightarrow> open_ec r = None"
    "bl_listening (beast_listener_run l) \<longleftrightarrow> open_ec r = None \<and> bind_ec r = None \<and> listen_ec r = None"
  using assms
  by (auto simp: make_beast_listener_def beast_listener_run_def beast_do_accept_def Let_def split: option.splits if_splits)

lemma started_threads_eq: "started_threads i = nat i"
  by (induction i rule: started_threads.induct) (subst started_threads.simps, auto)

lemma beast_main_serving:
  assumes "beast_main make_address r argv = Serving S n"
  shows "beast_ok bv need_eof [] S \<and> bv_sessions S = [] \<and> bl_open (bv_listener S) = (open_ec r = None) \<and>
    length argv = 4 \<and> (\<exists>k. atoi (argv ! 3) = Some k \<and> int n = max 1 k)"
proof -
  obtain a p k l err where m: "length argv = 4" "make_address (argv ! 1) = Some a" "atoi (argv ! 2) = Some p" "atoi (argv ! 3) = Some k"
    "make_beast_listener r (a, of_int p) = Some (l, err)"
    "S = \<lparr>bv_listener = beast_listener_run l, bv_sessions = [], bv_cerr = err\<rparr>" "n = started_threads (max 1 k - 1) + 1"
    using assms by (auto simp: beast_main_def Let_def split: if_splits option.splits)
  have "int n = max 1 k" unfolding m(7) started_threads_eq by simp
  then show ?thesis using m listener_starts [OF m(5)] by (simp add: beast_ok_def)
qed

section \<open>Properties\<close>

text \<open>C39: from the start of \<open>main\<close>, in every run, a session answers the requests it reads one by one and
  in their order, each with the \<open>bad_request\<close> for it, and what it does is decided by its own events:
  it reads again after an answer unless the answer needs the end of the connection, it shuts the
  socket down after such an answer or when the client has closed, and an error ends it without.\<close>

theorem sessions_answer_in_order:
  assumes "beast_main make_address r argv = Serving S0 n" "beast_run beast_version need_eof S0 es S" "i < length (bv_sessions S)"
  shows "bs_answers (bv_sessions S ! i) = map (\<lambda>req. bad_request beast_version req ''lol'') (requests_read i es) \<and>
    (case session_phase beast_version need_eof i es of
       B_reading \<Rightarrow> bs_pending (bv_sessions S ! i) = [Read_op] \<and> \<not> bs_shut (bv_sessions S ! i)
     | B_writing close \<Rightarrow> (\<exists>msg. bs_pending (bv_sessions S ! i) = [Write_op msg close] \<and> close = need_eof msg) \<and>
         \<not> bs_shut (bv_sessions S ! i)
     | B_closed \<Rightarrow> bs_pending (bv_sessions S ! i) = [] \<and> bs_shut (bv_sessions S ! i)
     | B_failed \<Rightarrow> bs_pending (bv_sessions S ! i) = [] \<and> \<not> bs_shut (bv_sessions S ! i))"
proof -
  have "beast_ok beast_version need_eof es S" using beast_run_ok [OF assms(2)] beast_main_serving [OF assms(1)] by blast
  then have "session_at need_eof (session_phase beast_version need_eof i es) (bv_sessions S ! i)"
    "bs_answers (bv_sessions S ! i) = map (\<lambda>req. bad_request beast_version req ''lol'') (requests_read i es)"
    using assms(3) by (simp_all add: beast_ok_def)
  then show ?thesis by (cases "session_phase beast_version need_eof i es") (auto simp: session_at_def)
qed

definition sample_socket :: socket_results where
  "sample_socket = \<lparr>open_ec = None, option_throws = False, bind_ec = None, listen_ec = None\<rparr>"

definition sample_server :: "string beast_server" where
  "sample_server = \<lparr>bv_listener = \<lparr>bl_endpoint = Some (''0.0.0.0'', 8080), bl_open = True, bl_listening = True, bl_accepting = 1\<rparr>,
     bv_sessions = [], bv_cerr = []\<rparr>"

lemma sample_main: "beast_main Some sample_socket [''server'', ''0.0.0.0'', ''8080'', ''2''] = Serving sample_server 2"
proof -
  have "atoi ''8080'' = Some 8080" "atoi ''2'' = Some 2"
    by (simp_all add: atoi_def c_str_def is_space_def is_digit_def code_def digits_value_def)
  then show ?thesis
    by (simp add: beast_main_def make_beast_listener_def sample_socket_def beast_listener_run_def beast_do_accept_def
        sample_server_def started_threads_eq Let_def)
qed

text \<open>A client that connects, asks twice and keeps the connection alive the first time.\<close>

definition sample_http :: "bool \<Rightarrow> http_request" where
  "sample_http alive = \<lparr>rq_version = 11, rq_keep_alive = alive, rq_target = ''/'', rq_body = []\<rparr>"

lemma sample_beast_run:
  "\<exists>S. beast_run ''Beast'' (\<lambda>m. \<not> rs_keep_alive m) sample_server
      [Accepted None, Read_done 0 Beast_ok (sample_http True), Write_done 0 Beast_ok, Read_done 0 Beast_ok (sample_http False)] S \<and>
    length (bv_sessions S) = 1"
proof -
  let ?step = "beast_step ''Beast'' (\<lambda>m. \<not> rs_keep_alive m)" and ?run = "beast_run ''Beast'' (\<lambda>m. \<not> rs_keep_alive m) sample_server"
  note sm = session_defs bad_request_def sample_http_def on_session_def Let_def
  let ?S = "\<lambda>s. sample_server\<lparr>bv_sessions := [s]\<rparr>" and ?a = "bad_request ''Beast'' (sample_http True) ''lol''"
    and ?b = "bad_request ''Beast'' (sample_http False) ''lol''"
  let ?s1 = "\<lparr>bs_req = empty_request, bs_res = None, bs_pending = [Read_op], bs_answers = [], bs_shut = False\<rparr>"
  let ?s2 = "\<lparr>bs_req = sample_http True, bs_res = Some ?a, bs_pending = [Write_op ?a False], bs_answers = [?a], bs_shut = False\<rparr>"
  let ?s3 = "\<lparr>bs_req = empty_request, bs_res = None, bs_pending = [Read_op], bs_answers = [?a], bs_shut = False\<rparr>"
  let ?s4 = "\<lparr>bs_req = sample_http False, bs_res = Some ?b, bs_pending = [Write_op ?b True], bs_answers = [?a, ?b], bs_shut = False\<rparr>"
  have 1: "?step sample_server (Accepted None) (?S ?s1)"
    using accepted [of sample_server 0 "''Beast''" "\<lambda>m. \<not> rs_keep_alive m" None]
    by (simp add: sample_server_def beast_on_accept_def beast_do_accept_def sm)
  have 2: "?step (?S ?s1) (Read_done 0 Beast_ok (sample_http True)) (?S ?s2)"
    using read_done [of 0 "?S ?s1" "''Beast''" "\<lambda>m. \<not> rs_keep_alive m" Beast_ok "sample_http True"] by (simp add: sample_server_def sm)
  have 3: "?step (?S ?s2) (Write_done 0 Beast_ok) (?S ?s3)"
    using write_done [of 0 "?S ?s2" ?a False "''Beast''" "\<lambda>m. \<not> rs_keep_alive m" Beast_ok] by (simp add: sample_server_def sm)
  have 4: "?step (?S ?s3) (Read_done 0 Beast_ok (sample_http False)) (?S ?s4)"
    using read_done [of 0 "?S ?s3" "''Beast''" "\<lambda>m. \<not> rs_keep_alive m" Beast_ok "sample_http False"] by (simp add: sample_server_def sm)
  have "?run ((([] @ [Accepted None]) @ [Read_done 0 Beast_ok (sample_http True)]) @ [Write_done 0 Beast_ok]) (?S ?s3)"
    by (rule beast_run.step [OF beast_run.step [OF beast_run.step [OF beast_run.start 1] 2] 3])
  from beast_run.step [OF this 4] show ?thesis by (intro exI [of _ "?S ?s4"]) simp
qed

theorem sessions_answer_in_order_witness:
  "\<exists>S. bs_answers (bv_sessions S ! 0 :: beast_session) =
      [bad_request ''Beast'' (sample_http True) ''lol'', bad_request ''Beast'' (sample_http False) ''lol''] \<and>
    (\<exists>msg. bs_pending (bv_sessions (S :: string beast_server) ! 0) = [Write_op msg True])"
proof -
  let ?es = "[Accepted None, Read_done 0 Beast_ok (sample_http True), Write_done 0 Beast_ok, Read_done 0 Beast_ok (sample_http False)]"
  obtain S where S: "beast_run ''Beast'' (\<lambda>m. \<not> rs_keep_alive m) sample_server ?es S" "length (bv_sessions S) = 1"
    using sample_beast_run by blast
  have "session_phase ''Beast'' (\<lambda>m. \<not> rs_keep_alive m) 0 ?es = B_writing True"
    by (simp add: session_phase_def bad_request_def sample_http_def Let_def)
  moreover have "requests_read 0 ?es = [sample_http True, sample_http False]" by (simp add: requests_read_def map_filter_def)
  ultimately show ?thesis using sessions_answer_in_order [OF sample_main S(1), of 0] S(2) by (intro exI [of _ S]) auto
qed

text \<open>C40: in every state of every run each session has at most one operation under way, and a message
  is kept alive by \<open>res_\<close> while it is written. There is one \<open>async_accept\<close> under way exactly if \<open>open\<close>
  succeeded, whatever became of \<open>bind\<close> and \<open>listen\<close>, so the \<open>io_context\<close> never runs out of work then.\<close>

theorem one_operation_per_session:
  assumes "beast_main make_address r argv = Serving S0 n" "beast_run beast_version need_eof S0 es S"
  shows "(\<forall>s \<in> set (bv_sessions S). length (bs_pending s) \<le> 1 \<and>
      (\<forall>msg close. Write_op msg close \<in> set (bs_pending s) \<longrightarrow> bs_res s = Some msg)) \<and>
    bl_accepting (bv_listener S) = (if open_ec r = None then 1 else 0)"
proof -
  have op: "bl_open (bv_listener S) = bl_open (bv_listener S0)" using assms(2)
    by (induction rule: beast_run.induct) (simp_all add: beast_step_open)
  have ok: "beast_ok beast_version need_eof es S"
    using beast_run_ok [OF assms(2)] beast_main_serving [OF assms(1)] by blast
  have "length (bs_pending s) \<le> 1 \<and> (\<forall>msg close. Write_op msg close \<in> set (bs_pending s) \<longrightarrow> bs_res s = Some msg)"
    if s: "s \<in> set (bv_sessions S)" for s
  proof -
    obtain i where i: "i < length (bv_sessions S)" "bv_sessions S ! i = s" using s by (auto simp: in_set_conv_nth)
    have "session_at need_eof (session_phase beast_version need_eof i es) (bv_sessions S ! i)"
      using ok i(1) by (simp add: beast_ok_def)
    then have "session_at need_eof (session_phase beast_version need_eof i es) s" unfolding i(2) .
    then show ?thesis unfolding session_at_def
      by (cases "session_phase beast_version need_eof i es") auto
  qed
  moreover have "bl_accepting (bv_listener S) = (if bl_open (bv_listener S) then 1 else 0)" using ok unfolding beast_ok_def by blast
  moreover have "bl_open (bv_listener S0) = (open_ec r = None)" using beast_main_serving [OF assms(1)] by blast
  ultimately show ?thesis unfolding op by simp
qed

theorem one_operation_per_session_witness:
  "\<exists>S :: string beast_server. (\<forall>s \<in> set (bv_sessions S). length (bs_pending s) \<le> 1 \<and>
      (\<forall>msg close. Write_op msg close \<in> set (bs_pending s) \<longrightarrow> bs_res s = Some msg)) \<and>
    length (bv_sessions S) = 1 \<and> bl_accepting (bv_listener S) = 1"
proof -
  obtain es S where S: "beast_run ''Beast'' (\<lambda>m. \<not> rs_keep_alive m) sample_server es S" "length (bv_sessions S) = 1"
    using sample_beast_run by blast
  show ?thesis using one_operation_per_session [OF sample_main S(1)] S(2) by (intro exI [of _ S]) (simp add: sample_socket_def)
qed

text \<open>The example of the usage text has one argument more than \<open>main\<close> accepts.\<close>

lemma usage_example_fails:
  "beast_main make_address r [''http-server-async'', ''0.0.0.0'', ''8080'', ''.'', ''1''] = Exit_failure beast_usage"
  by (simp add: beast_main_def)

end
