(* ===== verification/Spec2Isabelle.thy ===== *)
theory Spec2Isabelle
  imports System_Properties Pool_Client Queue_Properties Queue_Claims Free_List Token_Claims Beast_Server
begin

text \<open>
  A verification development of the burst pool node: the HTTP server that takes nonces from
  miners, recomputes their deadlines in batches, forwards improvements to the miners' pool
  servers and relays the mining information of a wallet. All paths below are under \<open>src/\<close>.

  \<^bold>\<open>The program.\<close> A listener (\<open>Server.cpp\<close>) accepts connections; a session (\<open>Session.cpp\<close>)
  checks a request against the rate limiter (\<open>RateLimiter.hpp\<close>), answers \<open>getMiningInfo\<close> from the
  cache of the wallet component (\<open>Wallet.cpp\<close>), and for \<open>submitNonce\<close> looks the miner up and puts a
  request into a concurrent queue (\<open>concurrentqueue.h\<close>). One thread (\<open>DeadlineRequestHandler.cpp\<close>)
  collects requests into batches of four or eight and posts them to a pool of threads, which
  compute the deadlines (\<open>burstmath.c\<close> on the vectorised hashes \<open>mshabal_sse4.c\<close> and
  \<open>mshabal256_avx2.c\<close>; the scoop number uses the assembly hash \<open>shabal64.s\<close>), compare them with the
  miner's best deadline of the round under its mutex, and forward improvements to the pool server
  (\<open>NodeComClient.hpp\<close>). The wallet's refresh thread replaces the current block.

  \<^bold>\<open>Theories.\<close>
  \<^item> \<open>Prelude\<close>, \<open>Cxx_Stdlib\<close>, \<open>Ordered_Map\<close>: machine integers, byte order and checked reads; the parts
    of the C++ library in use (\<open>stoull\<close>, \<open>to_string\<close>, \<open>sscanf\<close>, JSON values); \<open>std::map\<close>
    and its contract (locale \<open>map_store\<close>).
  \<^item> Hashing: \<open>Shabal_Spec\<close> is the reference hash, \<open>Hash_Buffer\<close> the contract of an incremental hash
    (locale \<open>incremental_hash\<close>), interpreted by the three implementations \<open>Shabal64\<close>
    (\<open>shabal64.s\<close>, with its copies to aligned stack memory), \<open>Mshabal_SSE4\<close> and
    \<open>Mshabal256_AVX2\<close>, on the vectors of \<open>Simd_Lanes\<close>. \<open>Burstmath\<close> and \<open>Burstmath_AVX2\<close> model \<open>calculate_scoop\<close> and the two
    \<open>calculate_deadlines\<close> functions; \<open>Hash_Properties\<close> holds the results.
  \<^item> Components of the node: \<open>Config\<close>, \<open>Wallet\<close> (blocks, miners, cache), \<open>Info_Cache\<close> (the cache under
    concurrency), \<open>Rate_Limiter\<close>, \<open>Url_Query\<close> (the parser of \<open>Session.cpp\<close>), \<open>Node_State\<close> (the state
    the handlers share, and \<open>NodeComClient\<close>), \<open>Deadline_Handler\<close> (validation, batches and the
    distribution loop; locale \<open>request_queue\<close> is what it relies on), \<open>Http_Session\<close> (the handlers
    and the life of a connection), \<open>Round_Lock\<close> (validators of one round, statement by statement)
    \<open>Server_Main\<close>, and \<open>Pool_Client\<close> (\<open>NodeComClient.hpp\<close> with its calls). \<open>Node_System\<close> interleaves all of them; \<open>Node_Safety\<close> shows what holds of
    every request and batch in a run (locale \<open>request_property\<close>), \<open>Node_Forwarding\<close> what is sent to the pool servers,
    and \<open>Node_Liveness\<close> what a reachable state can still do. Results: \<open>Backend_Properties\<close>, \<open>Node_Properties\<close>,
    \<open>System_Properties\<close>.
  \<^item> The concurrent queue: \<open>Queue_Util\<close> (hash of thread ids, circular comparison, powers of two),
    \<open>Block_Pool\<close> (blocks, and where they come from and go to), \<open>Implicit_Producer\<close> (block index,
    \<open>enqueue\<close> and \<open>dequeue\<close> of one producer), \<open>Producer_Refinement\<close> and \<open>Producer_Queue\<close> (a producer
    is a list), \<open>Implicit_Bulk\<close> and \<open>Bulk_Enqueue\<close> (the same of the bulk operations, with
    their roll-back), \<open>Producer_Hash\<close> (the chained hash tables from thread ids to producers),
    \<open>Concurrent_Queue\<close> and \<open>Queue_Refinement\<close> (the queue is one list per thread; locale
    \<open>producer_append\<close> lifts an operation of a producer to the queue), \<open>Queue_Destruction\<close> (the
    destructors), \<open>Queue_Runs\<close> (runs of calls), \<open>Queue_Properties\<close> (its contract as the node's queue),
    \<open>Queue_Claims\<close> (dequeues that overlap) and \<open>Free_List\<close> (the lock-free list of free blocks).
  \<^item> The producer of a token in the same queue (the node does not use tokens): \<open>Explicit_Producer\<close> (its ring
    of blocks, its growing block index and its operations), \<open>Explicit_Refinement\<close> (flags, and the index
    as a window that slides over a ring), \<open>Explicit_Queue\<close>, \<open>Explicit_Bulk\<close> and
    \<open>Explicit_Enqueue_Bulk\<close> (it is a list), \<open>Explicit_Destruction\<close> (its destructor).
    \<open>Producer_Contract\<close> states what every producer promises (locale \<open>fifo_producer\<close>) and interprets it for
    both kinds; \<open>Explicit_Claims\<close> holds the results. \<open>Token_Queue\<close> is the queue with producers of both
    kinds in one list and the tokens of producers and consumers, \<open>Token_Refinement\<close> relates it to one list
    per producer, and \<open>Token_Claims\<close> holds what the tokens promise.

  \<^item> \<open>Beast_Server\<close> is the example server \<open>server.cpp\<close> that the repository keeps beside the node (the
    build does not compile it): sessions and listener as completions of asynchronous operations.

  \<^bold>\<open>Conventions.\<close> Integers have the width of the source; a failed \<open>assert\<close>, an access out of bounds,
  a division by zero or a null pointer is \<open>None\<close>, other errors are values of a sum type. Functions
  of libraries (curl, MySQL, the JSON parser, Boost, gRPC, the clock) are parameters, and what is
  assumed of them are premises of the theorems. Times and token counts of the rate limiter are
  real numbers instead of doubles. The stack arrays that the deadline functions leave partly
  uninitialised are parameters.

  \<^bold>\<open>What is shown.\<close>
  \<^item> The three hash implementations compute one function for every split of the input, the scoop
    number and the deadlines are those of the proof-of-capacity reference in every lane, the
    two builds agree, and where they fault. Nothing is read out of bounds for a scoop number
    that \<open>calculate_scoop\<close> returns.
  \<^item> Functional behaviour of the configuration, the wallet's refresh and tables, the query parser and
    \<open>submitNonce\<close>, with every error branch; bounds of the rate limiter (the request that makes a
    bucket comes on top) and linearisability of its compare-and-swap loop, refusals included; the cache is current for a reader that is not overtaken.
  \<^item> Over all interleavings of the node: a session is answered at most once; what is forwarded are
    the deadlines computed for posted requests, each smaller than the one before for its account and
    each answered; validators of a round are equivalent to a sequential run. As long as the wallet
    reports no zero base target, a deadline computation faults only for a placeholder request whose
    scoop number was left open, and none is left once a batch was full; without such placeholders a
    session whose request was accepted can be answered from every state.
  \<^item> The queue refines one list per thread: every call returns, \<open>enqueue\<close> appends, \<open>try_dequeue\<close> fails
    only if all lists are empty, elements of a thread come out in order, bulk
    calls accept all or nothing and deliver the first elements, the destructor destroys what is left
    and every block once, and the distribution loop loses no accepted request. Overlapping dequeues hand out every element once, and the
    lock-free free list is a stack that hands out every block once and loses none.
    A producer of a token is a list too, from its constructor up to the first bulk enqueue that is
    refused, or to its destructor, and with memory it cannot be told apart from one of a thread.
    With tokens, enqueues append to the list of the token's own producer, and a consumer that goes round
    the producers, in whatever rotation, fails only if all of them are empty.
  \<^item> Defects, each as a theorem about the code as it is: a new block stops all forwarding until
    the next start, an improvement is dropped when \<open>try_lock\<close> fails, a request that the queue refuses is never answered, a node started without
    its wallet divides by zero, and a slow reader of the cache races with the second next
    refresh.

  \<^bold>\<open>Bounds and fuel.\<close> No theorem is about fuel: loops are structural recursion, or
  \<open>partial_function\<close> (the probing of \<open>Producer_Hash\<close>, where a result is shown to exist because a
  slot is always free). The queue theorems assume what the memory of a machine provides: fewer
  than \<open>2 ^ 63\<close> elements per producer, block indices of at most \<open>2 ^ 58\<close> entries and fewer than
  \<open>2 ^ 60\<close> threads; the code's comparisons modulo \<open>2 ^ 64\<close> are exact below these bounds.

  \<^bold>\<open>Not modelled.\<close> The code generated from \<open>protos/nodecom.proto\<close>; socket options; what a thread is to
  the operating system. Of \<open>concurrentqueue.h\<close>: moving and
  swapping of queues and tokens (the node's queue is never moved), the roll-back when an element's constructor throws, and
  the hand-over of producers at thread exit (not compiled with GCC). Concurrency
  inside the queue is modelled for the two protocols that decide who gets what, the dequeue
  counters of a producer and the free list, as interleavings of atomic accesses; elsewhere the
  calls on the queue take turns. The happens-before order of the C++ memory model is tracked only
  where a theory says so.
\<close>

end
